(* ===== verification/Prelude.thy ===== *)
theory Prelude
  imports Main "HOL-Library.Word" "HOL-Library.While_Combinator"
begin

text \<open>
  The vocabulary shared by every component of the development.

  \<^item> \<open>outcome\<close>: what running a piece of C code gives: a value and a new state
    (\<open>Ok\<close>), a kernel panic with its message (\<open>Panic\<close>), or code that never comes back
    (\<open>Hang\<close>: an endless loop, or spinning on a lock that nobody releases).
  \<^item> \<open>('s, 'a) prog\<close>: a C function body as a state transformer, with the combinators
    \<open>ret\<close>, \<open>bind\<close>, \<open>seq\<close>, \<open>whenM\<close>, \<open>panic\<close>, \<open>gets\<close>, \<open>modify\<close>, and the loops
    \<open>forM\<close> (a counted loop), \<open>scanM\<close> (a counted loop with a return inside) and
    \<open>loopM\<close> (an arbitrary loop, built on \<open>while_option\<close>, so that not terminating is
    the value \<open>Hang\<close>).
  \<^item> \<open>wp\<close>: total correctness. \<open>wp m Q s\<close> holds when \<open>m\<close> started in \<open>s\<close> returns (no panic,
    no hang) and \<open>Q\<close> holds of the result and the final state. The collection
    \<open>wp_simps\<close> computes it through the combinators.
  \<^item> generic lemmas on words, lists and index ranges.
\<close>

named_theorems wp_simps \<open>equations that push wp through the combinators\<close>
named_theorems run_simps \<open>equations that run a program on a given state\<close>

type_synonym byte = "8 word"
type_synonym uint16 = "16 word"
type_synonym uint = "32 word"
type_synonym uint64 = "64 word"

section \<open>Outcomes and programs\<close>

datatype ('a, 's) outcome = Ok 'a 's | Panic string | Hang

type_synonym ('s, 'a) prog = "'s \<Rightarrow> ('a, 's) outcome"

definition ret :: "'a \<Rightarrow> ('s, 'a) prog" where
  "ret x s = Ok x s"

definition bind :: "('s, 'a) prog \<Rightarrow> ('a \<Rightarrow> ('s, 'b) prog) \<Rightarrow> ('s, 'b) prog" where
  "bind m f s = (case m s of Ok x t \<Rightarrow> f x t | Panic msg \<Rightarrow> Panic msg | Hang \<Rightarrow> Hang)"

definition seq :: "('s, 'a) prog \<Rightarrow> ('s, 'b) prog \<Rightarrow> ('s, 'b) prog" where
  "seq m n = bind m (\<lambda>_. n)"

definition panic :: "string \<Rightarrow> ('s, 'a) prog" where
  "panic msg s = Panic msg"

definition hang :: "('s, 'a) prog" where
  "hang s = Hang"

definition gets :: "('s \<Rightarrow> 'a) \<Rightarrow> ('s, 'a) prog" where
  "gets f s = Ok (f s) s"

definition modify :: "('s \<Rightarrow> 's) \<Rightarrow> ('s, unit) prog" where
  "modify f s = Ok () (f s)"

definition whenM :: "bool \<Rightarrow> ('s, unit) prog \<Rightarrow> ('s, unit) prog" where
  "whenM c m = (if c then m else ret ())"

text \<open>A run of statements none of which returns a value that is used.\<close>

primrec block :: "('s, unit) prog list \<Rightarrow> ('s, unit) prog" where
  "block [] = ret ()"
| "block (m # ms) = seq m (block ms)"

text \<open>\<open>for (x in xs) body\<close>.\<close>

primrec forM :: "'x list \<Rightarrow> ('x \<Rightarrow> ('s, unit) prog) \<Rightarrow> ('s, unit) prog" where
  "forM [] f = ret ()"
| "forM (x # xs) f = seq (f x) (forM xs f)"

text \<open>\<open>for (x in xs) body\<close> where the body may leave the loop with a value: the result is
  \<open>Some\<close> of that value, or \<open>None\<close> when the loop ran to its end.\<close>

primrec scanM :: "'x list \<Rightarrow> ('x \<Rightarrow> ('s, 'r option) prog) \<Rightarrow> ('s, 'r option) prog" where
  "scanM [] f = ret None"
| "scanM (x # xs) f = bind (f x) (\<lambda>r. case r of None \<Rightarrow> scanM xs f | Some v \<Rightarrow> ret (Some v))"

text \<open>\<open>for (x in xs) body\<close> where the body updates a local variable \<open>a\<close>.\<close>

primrec foldM :: "('x \<Rightarrow> 'a \<Rightarrow> ('s, 'a) prog) \<Rightarrow> 'x list \<Rightarrow> 'a \<Rightarrow> ('s, 'a) prog" where
  "foldM f [] a = ret a"
| "foldM f (x # xs) a = bind (f x a) (foldM f xs)"

text \<open>An arbitrary loop over local variables \<open>x\<close>: the body either goes round again with
  new local variables (\<open>Inl\<close>) or leaves the loop with a result (\<open>Inr\<close>).\<close>

fun again :: "('x + 'r, 's) outcome \<Rightarrow> bool" where
  "again (Ok (Inl x) s) = True"
| "again _ = False"

fun loop_step :: "('x \<Rightarrow> ('s, 'x + 'r) prog) \<Rightarrow> ('x + 'r, 's) outcome \<Rightarrow> ('x + 'r, 's) outcome" where
  "loop_step body (Ok (Inl x) s) = body x s"
| "loop_step body c = c"

fun loop_result :: "('x + 'r, 's) outcome option \<Rightarrow> ('r, 's) outcome" where
  "loop_result (Some (Ok (Inr r) s)) = Ok r s"
| "loop_result (Some (Panic msg)) = Panic msg"
| "loop_result _ = Hang"

definition loopM :: "('x \<Rightarrow> ('s, 'x + 'r) prog) \<Rightarrow> 'x \<Rightarrow> ('s, 'r) prog" where
  "loopM body x s = loop_result (while_option again (loop_step body) (Ok (Inl x) s))"

subsection \<open>Running programs\<close>

lemma ret_run [run_simps]: "ret x s = Ok x s"
  by (simp add: ret_def)

lemma gets_run [run_simps]: "gets f s = Ok (f s) s"
  by (simp add: gets_def)

lemma modify_run [run_simps]: "modify f s = Ok () (f s)"
  by (simp add: modify_def)

lemma panic_run [run_simps]: "panic msg s = Panic msg"
  by (simp add: panic_def)

lemma hang_run [run_simps]: "hang s = Hang"
  by (simp add: hang_def)

lemma whenM_run [run_simps]: "whenM c m s = (if c then m s else Ok () s)"
  by (simp add: whenM_def ret_def)

lemma bind_Ok [run_simps]: "m s = Ok x t \<Longrightarrow> bind m f s = f x t"
  by (simp add: bind_def)

lemma bind_Panic [run_simps]: "m s = Panic msg \<Longrightarrow> bind m f s = Panic msg"
  by (simp add: bind_def)

lemma bind_Hang [run_simps]: "m s = Hang \<Longrightarrow> bind m f s = Hang"
  by (simp add: bind_def)

lemma seq_Ok [run_simps]: "m s = Ok x t \<Longrightarrow> seq m n s = n t"
  by (simp add: seq_def bind_def)

lemma seq_Panic [run_simps]: "m s = Panic msg \<Longrightarrow> seq m n s = Panic msg"
  by (simp add: seq_def bind_def)

lemma seq_Hang [run_simps]: "m s = Hang \<Longrightarrow> seq m n s = Hang"
  by (simp add: seq_def bind_def)

lemma bind_assoc: "bind (bind m f) g = bind m (\<lambda>x. bind (f x) g)"
  by (rule ext) (simp add: bind_def split: outcome.split)

lemma bind_ret [simp]: "bind (ret x) f = f x"
  by (rule ext) (simp add: bind_def ret_def)

lemma bind_ret_right [simp]: "bind m ret = m"
  by (rule ext) (simp add: bind_def ret_def split: outcome.split)

text \<open>One turn of a loop.\<close>

lemma loopM_unfold: "loopM body x = bind (body x) (\<lambda>r. case r of Inl y \<Rightarrow> loopM body y | Inr v \<Rightarrow> ret v)"
proof (rule ext)
  fix s
  have 1: "while_option again (loop_step body) (Ok (Inl x) s)
      = while_option again (loop_step body) (body x s)"
    by (subst while_option_unfold) simp
  have stop: "\<not> again c \<Longrightarrow> while_option again (loop_step body) c = Some c" for c
    by (subst while_option_unfold) simp
  show "loopM body x s = bind (body x) (\<lambda>r. case r of Inl y \<Rightarrow> loopM body y | Inr v \<Rightarrow> ret v) s"
  proof (cases "body x s")
    case (Ok r t)
    then show ?thesis
      using stop [of "Ok r t"] by (cases r) (auto simp: loopM_def 1 bind_def ret_def)
  next
    case (Panic msg)
    then show ?thesis
      using stop [of "Panic msg"] by (simp add: loopM_def 1 bind_def)
  next
    case Hang
    then show ?thesis
      using stop [of Hang] by (simp add: loopM_def 1 bind_def)
  qed
qed

text \<open>A loop whose body always goes round again never comes back.\<close>

lemma loopM_Hang:
  assumes step: "\<And>x s. I x s \<Longrightarrow> \<exists>y t. body x s = Ok (Inl y) t \<and> I y t"
    and start: "I x s"
  shows "loopM body x s = Hang"
proof -
  let ?P = "\<lambda>c. \<exists>x s. c = Ok (Inl x) s \<and> I x s"
  have "while_option again (loop_step body) (Ok (Inl x) s) = None"
  proof (rule ccontr)
    assume "while_option again (loop_step body) (Ok (Inl x) s) \<noteq> None"
    then obtain c where c: "while_option again (loop_step body) (Ok (Inl x) s) = Some c"
      by auto
    have "?P c"
      by (rule while_option_rule [OF _ c]) (use step start in fastforce)+
    moreover have "\<not> again c"
      by (rule while_option_stop [OF c])
    ultimately show False by auto
  qed
  then show ?thesis by (simp add: loopM_def)
qed

section \<open>Weakest preconditions\<close>

definition wp :: "('s, 'a) prog \<Rightarrow> ('a \<Rightarrow> 's \<Rightarrow> bool) \<Rightarrow> 's \<Rightarrow> bool" where
  "wp m Q s = (case m s of Ok x t \<Rightarrow> Q x t | Panic msg \<Rightarrow> False | Hang \<Rightarrow> False)"

lemma wp_iff: "wp m Q s \<longleftrightarrow> (\<exists>x t. m s = Ok x t \<and> Q x t)"
  by (auto simp: wp_def split: outcome.splits)

lemma wpE: "wp m Q s \<Longrightarrow> (\<And>x t. m s = Ok x t \<Longrightarrow> Q x t \<Longrightarrow> R) \<Longrightarrow> R"
  by (auto simp: wp_iff)

lemma wp_Ok [wp_simps]: "m s = Ok x t \<Longrightarrow> wp m Q s = Q x t"
  by (simp add: wp_def)

lemma wp_ret [wp_simps]: "wp (ret x) Q = Q x"
  by (rule ext) (simp add: wp_def ret_def)

lemma wp_bind [wp_simps]: "wp (bind m f) Q = wp m (\<lambda>x. wp (f x) Q)"
  by (rule ext) (simp add: wp_def bind_def split: outcome.split)

lemma wp_seq [wp_simps]: "wp (seq m n) Q = wp m (\<lambda>_. wp n Q)"
  by (rule ext) (simp add: seq_def wp_bind)

lemma wp_panic [wp_simps]: "wp (panic msg) Q = (\<lambda>s. False)"
  by (rule ext) (simp add: wp_def panic_def)

lemma wp_hang [wp_simps]: "wp hang Q = (\<lambda>s. False)"
  by (rule ext) (simp add: wp_def hang_def)

lemma wp_gets [wp_simps]: "wp (gets f) Q = (\<lambda>s. Q (f s) s)"
  by (rule ext) (simp add: wp_def gets_def)

lemma wp_modify [wp_simps]: "wp (modify f) Q = (\<lambda>s. Q () (f s))"
  by (rule ext) (simp add: wp_def modify_def)

lemma wp_whenM [wp_simps]: "wp (whenM c m) Q = (if c then wp m Q else Q ())"
  by (rule ext) (simp add: whenM_def wp_ret)

lemma wp_if [wp_simps]: "wp (if c then m else n) Q = (if c then wp m Q else wp n Q)"
  by (rule ext) (simp)

lemma wp_block_Nil [wp_simps]: "wp (block []) Q = Q ()"
  by (rule ext) (simp add: wp_ret)

lemma wp_block_Cons [wp_simps]: "wp (block (m # ms)) Q = wp m (\<lambda>_. wp (block ms) Q)"
  by (rule ext) (simp add: wp_seq)

lemma wp_mono: "wp m Q s \<Longrightarrow> (\<And>x t. Q x t \<Longrightarrow> R x t) \<Longrightarrow> wp m R s"
  by (auto simp: wp_iff)

lemma wp_conj: "wp m Q s \<Longrightarrow> wp m R s \<Longrightarrow> wp m (\<lambda>x t. Q x t \<and> R x t) s"
  by (auto simp: wp_iff)

text \<open>Counted loops keep an invariant that may speak of the part of the range still to do.\<close>

lemma wp_forM:
  assumes body: "\<And>x zs ys t. xs = zs @ x # ys \<Longrightarrow> I zs t \<Longrightarrow> wp (f x) (\<lambda>_. I (zs @ [x])) t"
    and start: "I [] s"
    and post: "\<And>t. I xs t \<Longrightarrow> Q () t"
  shows "wp (forM xs f) Q s"
proof -
  have "xs = zs @ ys \<Longrightarrow> I zs t \<Longrightarrow> wp (forM ys f) Q t" for zs ys t
  proof (induction ys arbitrary: zs t)
    case Nil
    then show ?case using post by (simp add: wp_ret)
  next
    case (Cons y ys)
    have "wp (f y) (\<lambda>_. I (zs @ [y])) t"
      by (rule body) (use Cons.prems in auto)
    then show ?case
      using Cons.IH [of "zs @ [y]"] Cons.prems(1)
      by (auto simp: wp_seq elim!: wp_mono)
  qed
  from this [of "[]" xs s] start show ?thesis by simp
qed

lemma wp_foldM:
  assumes body: "\<And>x zs ys a t. xs = zs @ x # ys \<Longrightarrow> I zs a t \<Longrightarrow> wp (f x a) (\<lambda>b. I (zs @ [x]) b) t"
    and start: "I [] a s"
    and post: "\<And>b t. I xs b t \<Longrightarrow> Q b t"
  shows "wp (foldM f xs a) Q s"
proof -
  have "xs = zs @ ys \<Longrightarrow> I zs a t \<Longrightarrow> wp (foldM f ys a) Q t" for zs ys a t
  proof (induction ys arbitrary: zs a t)
    case Nil
    then show ?case using post by (simp add: wp_ret)
  next
    case (Cons y ys)
    have "wp (f y a) (\<lambda>b. I (zs @ [y]) b) t"
      by (rule body) (use Cons.prems in auto)
    then show ?case
      using Cons.IH [of "zs @ [y]"] Cons.prems(1)
      by (auto simp: wp_bind elim!: wp_mono)
  qed
  from this [of "[]" xs a s] start show ?thesis by simp
qed

text \<open>An arbitrary loop: an invariant and a measure that falls on every turn.\<close>

lemma wp_loopM:
  fixes \<mu> :: "'x \<Rightarrow> 's \<Rightarrow> nat"
  assumes body: "\<And>x s. I x s \<Longrightarrow>
      wp (body x) (\<lambda>r t. case r of Inl y \<Rightarrow> I y t \<and> \<mu> y t < \<mu> x s | Inr v \<Rightarrow> Q v t) s"
    and start: "I x s"
  shows "wp (loopM body x) Q s"
  using start
proof (induction "\<mu> x s" arbitrary: x s rule: less_induct)
  case less
  have "wp (body x) (\<lambda>r. wp (case r of Inl y \<Rightarrow> loopM body y | Inr v \<Rightarrow> ret v) Q) s"
    by (rule wp_mono [OF body [OF less.prems]]) (auto simp: wp_ret less.hyps split: sum.splits)
  then show ?case
    by (subst loopM_unfold) (simp add: wp_bind)
qed

section \<open>Words\<close>

lemma unat_word_of_nat64: "n < 18446744073709551616 \<Longrightarrow> unat (word_of_nat n :: uint64) = n"
  by (simp add: unat_of_nat)

lemma eq_word_of_nat64: "n < 18446744073709551616 \<Longrightarrow> (w :: uint64) = word_of_nat n \<longleftrightarrow> unat w = n"
  by (auto simp: unat_of_nat)

lemma unat_less64: "unat (w :: uint64) < 18446744073709551616"
  using unsigned_less [of w] by simp

lemma unat_less32: "unat (w :: uint) < 4294967296"
  using unsigned_less [of w] by simp

lemma unat_add64: "unat (a :: uint64) + unat b < 18446744073709551616 \<Longrightarrow> unat (a + b) = unat a + unat b"
  by (simp add: unat_word_ariths)

lemma unat_diff64: "b \<le> (a :: uint64) \<Longrightarrow> unat (a - b) = unat a - unat b"
  by (simp add: unat_sub)

lemma unat_diff64_wrap: "(a :: uint64) < b \<Longrightarrow> unat (a - b) = 18446744073709551616 + unat a - unat b"
  using unat_less64 [of b] by (simp add: unat_sub_if' word_less_nat_alt)

lemma unat_ucast_32_64 [simp]: "unat (ucast (n :: uint) :: uint64) = unat n"
  using unat_less32 [of n] by (simp add: unsigned_ucast_eq take_bit_nat_def)

lemma sint_unat: "unat (w :: uint) < 0x80000000 \<Longrightarrow> sint w = int (unat w)"
proof -
  assume "unat w < 0x80000000"
  then have "int (unat w) < int 0x80000000" by (simp only: of_nat_less_iff)
  then have "signed_take_bit 31 (uint w) = uint w"
    by (intro signed_take_bit_int_eq_self order_trans [OF _ uint_ge_0]) simp_all
  then show ?thesis by (simp add: sint_uint)
qed

lemma ucast_32_64_32 [simp]: "ucast (ucast (w :: uint) :: uint64) = w"
  by (rule bit_word_eqI) (auto simp: bit_simps)

lemma take_bit_ucast32: "take_bit 32 (ucast (w :: uint)) = (ucast w :: uint64)"
  by (rule bit_word_eqI) (auto simp: bit_simps dest: bit_imp_le_length)

text \<open>A sum over threads, when one of them takes a step.\<close>

lemma sum_change_one:
  fixes c c' :: "nat \<Rightarrow> 'a :: comm_monoid_add"
  assumes "w < n" "\<And>v. v \<noteq> w \<Longrightarrow> c' v = c v"
  shows "(\<Sum>v<n. c' v) + c w = (\<Sum>v<n. c v) + c' w"
proof -
  have "(\<Sum>v<n. c v) = c w + (\<Sum>v \<in> {..<n} - {w}. c v)" "(\<Sum>v<n. c' v) = c' w + (\<Sum>v \<in> {..<n} - {w}. c' v)"
    using assms(1) by (simp_all add: sum.remove)
  moreover have "(\<Sum>v \<in> {..<n} - {w}. c' v) = (\<Sum>v \<in> {..<n} - {w}. c v)" by (rule sum.cong) (use assms(2) in auto)
  ultimately show ?thesis by (simp add: ac_simps)
qed

end
