(* ===== verification/Riscv.thy ===== *)
theory Riscv
  imports Prelude
begin

text \<open>
  The constants and macros of \<open>kernel/riscv.h\<close>, \<open>kernel/memlayout.h\<close> and
  \<open>kernel/param.h\<close>: page rounding, the Sv39 page-table entry layout, the split of a virtual
  address into its three table indices, and the memory map. The lemmas give each macro its
  arithmetic meaning.
\<close>

unbundle bit_operations_syntax

section \<open>param.h\<close>

definition NPROC :: nat where [simp]: "NPROC = 64"
definition NOFILE :: nat where [simp]: "NOFILE = 16"
definition NFILE :: nat where [simp]: "NFILE = 100"
definition NDEV :: nat where [simp]: "NDEV = 10"
definition MAXARG :: nat where [simp]: "MAXARG = 32"
definition ROOTDEV :: uint where [simp]: "ROOTDEV = 1"
definition MAXOPBLOCKS :: nat where [simp]: "MAXOPBLOCKS = 10"
definition LOGSIZE :: nat where [simp]: "LOGSIZE = MAXOPBLOCKS * 3"
definition NBUF :: nat where [simp]: "NBUF = MAXOPBLOCKS * 3"
definition NINODE :: nat where [simp]: "NINODE = 50"
definition FSSIZE :: nat where [simp]: "FSSIZE = 1000"
definition MAXPATH :: nat where [simp]: "MAXPATH = 128"

section \<open>riscv.h: pages and page-table entries\<close>

definition PGSIZE :: uint64 where "PGSIZE = 4096"
definition PGSHIFT :: nat where [simp]: "PGSHIFT = 12"

definition aligned :: "uint64 \<Rightarrow> bool" where
  "aligned a \<longleftrightarrow> a mod PGSIZE = 0"

definition PGROUNDUP :: "uint64 \<Rightarrow> uint64" where
  "PGROUNDUP sz = (sz + PGSIZE - 1) AND NOT (PGSIZE - 1)"

definition PGROUNDDOWN :: "uint64 \<Rightarrow> uint64" where
  "PGROUNDDOWN a = a AND NOT (PGSIZE - 1)"

definition PTE_V :: uint64 where "PTE_V = 1"
definition PTE_R :: uint64 where "PTE_R = 2"
definition PTE_W :: uint64 where "PTE_W = 4"
definition PTE_X :: uint64 where "PTE_X = 8"
definition PTE_U :: uint64 where "PTE_U = 16"

definition PA2PTE :: "uint64 \<Rightarrow> uint64" where
  "PA2PTE pa = push_bit 10 (drop_bit 12 pa)"

definition PTE2PA :: "uint64 \<Rightarrow> uint64" where
  "PTE2PA pte = push_bit 12 (drop_bit 10 pte)"

definition PTE_FLAGS :: "uint64 \<Rightarrow> uint64" where
  "PTE_FLAGS pte = pte AND 0x3FF"

definition PXSHIFT :: "nat \<Rightarrow> nat" where
  "PXSHIFT level = PGSHIFT + 9 * level"

definition PX :: "nat \<Rightarrow> uint64 \<Rightarrow> uint64" where
  "PX level va = drop_bit (PXSHIFT level) va AND 0x1FF"

definition MAXVA :: uint64 where [simp]: "MAXVA = 0x4000000000"

definition SATP_SV39 :: uint64 where [simp]: "SATP_SV39 = 0x8000000000000000"

definition MAKE_SATP :: "uint64 \<Rightarrow> uint64" where
  "MAKE_SATP pagetable = SATP_SV39 OR drop_bit 12 pagetable"

definition SSTATUS_SPP :: uint64 where [simp]: "SSTATUS_SPP = 0x100"
definition SSTATUS_SPIE :: uint64 where [simp]: "SSTATUS_SPIE = 0x20"
definition SSTATUS_SIE :: uint64 where "SSTATUS_SIE = 2"

section \<open>memlayout.h\<close>

definition UART0 :: uint64 where [simp]: "UART0 = 0x10000000"
definition UART0_IRQ :: uint where [simp]: "UART0_IRQ = 10"
definition VIRTIO0 :: uint64 where [simp]: "VIRTIO0 = 0x10001000"
definition VIRTIO0_IRQ :: uint where [simp]: "VIRTIO0_IRQ = 1"
definition PLIC :: uint64 where [simp]: "PLIC = 0x0c000000"
definition KERNBASE :: uint64 where [simp]: "KERNBASE = 0x80000000"
definition PHYSTOP :: uint64 where [simp]: "PHYSTOP = KERNBASE + 128 * 1024 * 1024"
definition TRAMPOLINE :: uint64 where [simp]: "TRAMPOLINE = MAXVA - PGSIZE"
definition TRAPFRAME :: uint64 where [simp]: "TRAPFRAME = TRAMPOLINE - PGSIZE"

definition KSTACK :: "nat \<Rightarrow> uint64" where
  "KSTACK p = TRAMPOLINE - (of_nat p + 1) * 2 * PGSIZE"

section \<open>What the macros compute\<close>

lemma and_NOT_mask: "(x :: uint64) AND NOT (mask n) = push_bit n (drop_bit n x)"
  by (rule bit_word_eqI) (auto simp: bit_simps)

lemma pgmask: "(4095 :: uint64) = mask 12"
  by (simp add: mask_eq_exp_minus_1)

lemma unat_and_NOT_mask: "unat ((x :: uint64) AND NOT (mask n)) = unat x div 2 ^ n * 2 ^ n"
proof -
  have "push_bit n (drop_bit n x) + take_bit n x = x"
    by (rule bits_ident)
  then have "x - take_bit n x = push_bit n (drop_bit n x)"
    by (metis add_diff_cancel_right')
  moreover have "unat (x - take_bit n x) = unat x - unat x mod 2 ^ n"
    by (subst unat_sub) (simp_all add: word_le_nat_alt unsigned_take_bit_eq take_bit_nat_def)
  ultimately show ?thesis
    by (simp add: and_NOT_mask minus_mod_eq_div_mult)
qed

lemma unat_PGROUNDDOWN: "unat (PGROUNDDOWN a) = unat a div 4096 * 4096"
  using unat_and_NOT_mask [of a 12] by (simp add: PGROUNDDOWN_def PGSIZE_def pgmask)

lemma PGROUNDDOWN_le: "PGROUNDDOWN a \<le> a"
  by (simp add: word_le_nat_alt unat_PGROUNDDOWN)

lemma unat_PGROUNDUP:
  assumes "unat sz + 4095 < 2 ^ 64"
  shows "unat (PGROUNDUP sz) = (unat sz + 4095) div 4096 * 4096"
proof -
  have "unat (sz + 4095) = unat sz + 4095"
    using assms by (subst unat_add_lem [THEN iffD1]) simp_all
  then show ?thesis
    using unat_and_NOT_mask [of "sz + 4095" 12] by (simp add: PGROUNDUP_def PGSIZE_def pgmask add.commute)
qed

lemma mod_4096: "(a :: uint64) mod 4096 = take_bit 12 a"
  by (simp add: take_bit_eq_mod)

lemma aligned_bit: "aligned pa \<Longrightarrow> n < 12 \<Longrightarrow> \<not> bit pa n"
proof -
  assume "aligned pa" and n: "n < 12"
  then have "\<not> bit (take_bit 12 pa) n" by (simp add: aligned_def PGSIZE_def mod_4096)
  with n show ?thesis by (simp add: bit_take_bit_iff)
qed

lemma less_exp_not_bit:
  fixes w :: "'a::len word"
  assumes "unat w < 2 ^ k" "k \<le> n"
  shows "\<not> bit w n"
proof -
  have "take_bit k (unat w) = unat w"
    using assms(1) by (simp add: take_bit_nat_def)
  then have "\<not> bit (unat w) n"
    using assms(2) by (metis bit_take_bit_iff linorder_not_less)
  then show ?thesis
    by (auto simp: bit_unsigned_iff dest: bit_imp_le_length)
qed

lemma flags_bit: "(fl :: uint64) < 1024 \<Longrightarrow> bit fl n \<Longrightarrow> n < 10"
  using less_exp_not_bit [of fl 10 n] by (cases "n < 10") (auto simp: word_less_nat_alt)

text \<open>A page-table entry gives back the physical address and the flags it was made from.\<close>

lemma PTE2PA_PA2PTE:
  assumes "aligned pa" "fl < 1024"
  shows "PTE2PA (PA2PTE pa OR fl) = pa"
proof (rule bit_word_eqI)
  fix n :: nat
  assume n: "n < LENGTH(64)"
  have "bit pa n \<Longrightarrow> 12 \<le> n"
    using assms(1) aligned_bit [of pa n] by (cases "n < 12") auto
  moreover have "\<not> bit fl (n - 2)" if "12 \<le> n"
    using assms(2) that flags_bit [of fl "n - 2"] by auto
  ultimately show "bit (PTE2PA (PA2PTE pa OR fl)) n = bit pa n"
    using n by (auto simp: PTE2PA_def PA2PTE_def bit_simps)
qed

lemma PTE_FLAGS_PA2PTE:
  assumes "fl < 1024"
  shows "PTE_FLAGS (PA2PTE pa OR fl) = fl"
proof (rule bit_word_eqI)
  fix n :: nat
  assume n: "n < LENGTH(64)"
  have "(0x3FF :: uint64) = mask 10" by (simp add: mask_eq_exp_minus_1)
  then have "bit (0x3FF :: uint64) n \<longleftrightarrow> n < 10"
    using n by (simp only: bit_mask_iff) auto
  then show "bit (PTE_FLAGS (PA2PTE pa OR fl)) n = bit fl n"
    using assms n by (auto simp: PTE_FLAGS_def PA2PTE_def bit_simps dest: flags_bit)
qed

lemma PX_less: "unat (PX level va) < 512"
proof -
  have "(0x1FF :: uint64) = mask 9" by (simp add: mask_eq_exp_minus_1)
  then have "PX level va = take_bit 9 (drop_bit (PXSHIFT level) va)"
    by (simp only: PX_def take_bit_eq_mask)
  then show ?thesis
    by (simp add: unsigned_take_bit_eq take_bit_nat_def)
qed

section \<open>Properties\<close>

text \<open>An Sv39 page-table entry built as \<open>PA2PTE(pa) | flags\<close> (as \<open>walk\<close> and \<open>mappages\<close> do) gives back
  both the page address (\<open>PTE2PA\<close>) and the flags (\<open>PTE_FLAGS\<close>), for every page-aligned address and
  every ten-bit flag set.\<close>

theorem pte_roundtrip:
  assumes "aligned pa" "fl < 1024"
  shows "PTE2PA (PA2PTE pa OR fl) = pa \<and> PTE_FLAGS (PA2PTE pa OR fl) = fl"
  using PTE2PA_PA2PTE [OF assms] PTE_FLAGS_PA2PTE [OF assms(2)] by simp

theorem pte_roundtrip_witness:
  "PTE2PA (PA2PTE 0x80005000 OR 0x1F) = 0x80005000 \<and> PTE_FLAGS (PA2PTE 0x80005000 OR 0x1F) = 0x1F"
  by (rule pte_roundtrip) (simp_all add: aligned_def PGSIZE_def)

end
