(* ===== verification/Spinlock.thy ===== *)
theory Spinlock
  imports Riscv
begin

text \<open>
  \<open>kernel/spinlock.c\<close>, the per-CPU state of \<open>kernel/proc.h\<close> and the interrupt-enable
  accessors of \<open>kernel/riscv.h\<close>.

  The sequential part runs on the state one hart sees: its control and status registers,
  the \<open>cpus\<close> array and all spinlocks of the kernel. The state is an extensible record: the
  later components add their own fields to it, and every operation here works on any
  extension. A hart that waits for a lock nobody releases is a \<open>Hang\<close>.

  The concurrent part interleaves the individual memory accesses of \<open>acquire\<close> and
  \<open>release\<close> of any number of harts, and shows mutual exclusion.
\<close>

section \<open>State\<close>

record kcontext =
  ctx_ra :: uint64
  ctx_sp :: uint64
  ctx_s0 :: uint64
  ctx_s1 :: uint64
  ctx_s2 :: uint64
  ctx_s3 :: uint64
  ctx_s4 :: uint64
  ctx_s5 :: uint64
  ctx_s6 :: uint64
  ctx_s7 :: uint64
  ctx_s8 :: uint64
  ctx_s9 :: uint64
  ctx_s10 :: uint64
  ctx_s11 :: uint64

text \<open>A pointer to a \<open>struct proc\<close> is an index into the process table, or \<open>None\<close> for 0.\<close>

record cpu =
  cpu_proc :: "nat option"
  cpu_context :: kcontext
  noff :: int
  intena :: bool

text \<open>The spinlocks of the kernel, by the variable they live in.\<close>

datatype lockid =
    KmemLock | PidLock | WaitLock | ProcLock nat | TicksLock | PrLock | ConsLock | UartTxLock
  | BcacheLock | ItableLock | FtableLock | LogLock | VdiskLock
  | BufSleepLk nat | InodeSleepLk nat | PipeLock uint64

record spinlock =
  locked :: bool
  lk_name :: string
  lk_cpu :: "nat option"

record hart_state =
  tp :: nat
  sstatus :: uint64
  sepc :: uint64
  scause :: uint64
  stval :: uint64
  stvec :: uint64
  satp :: uint64
  sip :: uint64
  cpus :: "nat \<Rightarrow> cpu"
  locks :: "lockid \<Rightarrow> spinlock"

text \<open>A hart with interrupts enabled and every lock free: a concrete state to run the code on.\<close>

definition cpu0 :: cpu where
  "cpu0 = \<lparr>cpu_proc = None,
     cpu_context = \<lparr>ctx_ra = 0, ctx_sp = 0, ctx_s0 = 0, ctx_s1 = 0, ctx_s2 = 0, ctx_s3 = 0, ctx_s4 = 0,
       ctx_s5 = 0, ctx_s6 = 0, ctx_s7 = 0, ctx_s8 = 0, ctx_s9 = 0, ctx_s10 = 0, ctx_s11 = 0\<rparr>,
     noff = 0, intena = False\<rparr>"

definition hart0 :: "'z \<Rightarrow> 'z hart_state_scheme" where
  "hart0 z = \<lparr>tp = 0, sstatus = 2, sepc = 0, scause = 0, stval = 0, stvec = 0, satp = 0, sip = 0,
     cpus = (\<lambda>_. cpu0), locks = (\<lambda>_. \<lparr>locked = False, lk_name = [], lk_cpu = None\<rparr>), \<dots> = z\<rparr>"

section \<open>Operations\<close>

definition cpuid :: "('z hart_state_scheme, nat) prog" where
  "cpuid = gets tp"

text \<open>\<open>mycpu()\<close> is a pointer into \<open>cpus\<close>: reading and writing through it.\<close>

definition mycpu :: "'z hart_state_scheme \<Rightarrow> cpu" where
  "mycpu s = cpus s (tp s)"

definition mycpu_write :: "(cpu \<Rightarrow> cpu) \<Rightarrow> 'z hart_state_scheme \<Rightarrow> 'z hart_state_scheme" where
  "mycpu_write f s = s\<lparr>cpus := (cpus s)(tp s := f (mycpu s))\<rparr>"

definition lock_write :: "lockid \<Rightarrow> (spinlock \<Rightarrow> spinlock) \<Rightarrow> 'z hart_state_scheme \<Rightarrow> 'z hart_state_scheme" where
  "lock_write lk f s = s\<lparr>locks := (locks s)(lk := f (locks s lk))\<rparr>"

definition intr_on :: "('z hart_state_scheme, unit) prog" where
  "intr_on = modify (\<lambda>s. s\<lparr>sstatus := sstatus s OR SSTATUS_SIE\<rparr>)"

definition intr_off :: "('z hart_state_scheme, unit) prog" where
  "intr_off = modify (\<lambda>s. s\<lparr>sstatus := sstatus s AND NOT SSTATUS_SIE\<rparr>)"

definition intr_get :: "'z hart_state_scheme \<Rightarrow> bool" where
  "intr_get s \<longleftrightarrow> sstatus s AND SSTATUS_SIE \<noteq> 0"

definition initlock :: "lockid \<Rightarrow> string \<Rightarrow> ('z hart_state_scheme, unit) prog" where
  "initlock lk nm = modify (lock_write lk (\<lambda>l. l\<lparr>lk_name := nm, locked := False, lk_cpu := None\<rparr>))"

definition holding :: "lockid \<Rightarrow> 'z hart_state_scheme \<Rightarrow> bool" where
  "holding lk s \<longleftrightarrow> locked (locks s lk) \<and> lk_cpu (locks s lk) = Some (tp s)"

definition push_off :: "('z hart_state_scheme, unit) prog" where
  "push_off =
     bind (gets intr_get) (\<lambda>old.
     seq intr_off
    (seq (bind (gets (noff \<circ> mycpu)) (\<lambda>n. whenM (n = 0) (modify (mycpu_write (\<lambda>c. c\<lparr>intena := old\<rparr>)))))
         (modify (mycpu_write (\<lambda>c. c\<lparr>noff := noff c + 1\<rparr>)))))"

definition pop_off :: "('z hart_state_scheme, unit) prog" where
  "pop_off =
     seq (bind (gets intr_get) (\<lambda>on. whenM on (panic ''pop_off - interruptible'')))
    (seq (bind (gets (noff \<circ> mycpu)) (\<lambda>n. whenM (n < 1) (panic ''pop_off'')))
    (seq (modify (mycpu_write (\<lambda>c. c\<lparr>noff := noff c - 1\<rparr>)))
         (bind (gets mycpu) (\<lambda>c. whenM (noff c = 0 \<and> intena c) intr_on))))"

text \<open>\<open>__sync_lock_test_and_set(&lk->locked, 1)\<close>: an atomic swap that returns the old value.\<close>

definition test_and_set :: "lockid \<Rightarrow> ('z hart_state_scheme, bool) prog" where
  "test_and_set lk =
     bind (gets (\<lambda>s. locked (locks s lk))) (\<lambda>old.
     seq (modify (lock_write lk (\<lambda>l. l\<lparr>locked := True\<rparr>))) (ret old))"

definition acquire :: "lockid \<Rightarrow> ('z hart_state_scheme, unit) prog" where
  "acquire lk =
     seq push_off
    (seq (bind (gets (holding lk)) (\<lambda>h. whenM h (panic ''acquire'')))
    (seq (loopM (\<lambda>_. bind (test_and_set lk) (\<lambda>old. ret (if old then Inl () else Inr ()))) ())
         (bind cpuid (\<lambda>c. modify (lock_write lk (\<lambda>l. l\<lparr>lk_cpu := Some c\<rparr>))))))"

definition release :: "lockid \<Rightarrow> ('z hart_state_scheme, unit) prog" where
  "release lk =
     seq (bind (gets (holding lk)) (\<lambda>h. whenM (\<not> h) (panic ''release'')))
    (seq (modify (lock_write lk (\<lambda>l. l\<lparr>lk_cpu := None\<rparr>)))
    (seq (modify (lock_write lk (\<lambda>l. l\<lparr>locked := False\<rparr>)))
         pop_off))"

section \<open>What they do, run by one hart\<close>

lemma bit_SIE: "bit SSTATUS_SIE n \<longleftrightarrow> n = 1"
  using bit_exp_iff [where 'a = uint64, of 1 n] by (auto simp: SSTATUS_SIE_def)

lemma intr_get_bit: "intr_get s \<longleftrightarrow> bit (sstatus s) 1"
  using and_exp_eq_0_iff_not_bit [of "sstatus s" 1] by (simp add: intr_get_def SSTATUS_SIE_def)

lemma sie_off [simp]: "\<not> bit (x AND NOT SSTATUS_SIE) 1"
  by (simp add: bit_simps bit_SIE)

lemma sie_on [simp]: "bit (x OR SSTATUS_SIE) 1"
  by (simp add: bit_simps bit_SIE)

lemma sie_off_id: "\<not> bit x 1 \<Longrightarrow> x AND NOT SSTATUS_SIE = x"
  by (rule bit_word_eqI) (auto simp: bit_simps bit_SIE)

lemma sie_restore: "bit x 1 \<Longrightarrow> (x AND NOT SSTATUS_SIE) OR SSTATUS_SIE = x"
  by (rule bit_word_eqI) (auto simp: bit_simps bit_SIE)

lemmas sie_off_Suc [simp] = sie_off [unfolded One_nat_def]
lemmas sie_on_Suc [simp] = sie_on [unfolded One_nat_def]

text \<open>Between two top-level kernel operations the interrupt nesting of the running CPU is
  consistent: inside a \<open>push_off\<close> section interrupts are off.\<close>

definition intr_ok :: "'z hart_state_scheme \<Rightarrow> bool" where
  "intr_ok s \<longleftrightarrow> 0 \<le> noff (mycpu s) \<and> (0 < noff (mycpu s) \<longrightarrow> \<not> intr_get s)"

text \<open>The state after \<open>push_off\<close>, after \<open>acquire\<close> of a free lock, and after \<open>release\<close>.\<close>

definition pushed :: "'z hart_state_scheme \<Rightarrow> 'z hart_state_scheme" where
  "pushed s = s\<lparr>sstatus := sstatus s AND NOT SSTATUS_SIE,
     cpus := (cpus s)(tp s := (mycpu s)\<lparr>
       intena := (if noff (mycpu s) = 0 then intr_get s else intena (mycpu s)),
       noff := noff (mycpu s) + 1\<rparr>)\<rparr>"

definition popped :: "'z hart_state_scheme \<Rightarrow> 'z hart_state_scheme" where
  "popped s = s\<lparr>sstatus := (if noff (mycpu s) = 1 \<and> intena (mycpu s)
       then sstatus s OR SSTATUS_SIE else sstatus s),
     cpus := (cpus s)(tp s := (mycpu s)\<lparr>noff := noff (mycpu s) - 1\<rparr>)\<rparr>"

definition acquired :: "lockid \<Rightarrow> 'z hart_state_scheme \<Rightarrow> 'z hart_state_scheme" where
  "acquired lk s = (pushed s)\<lparr>locks := (locks s)(lk := (locks s lk)\<lparr>locked := True, lk_cpu := Some (tp s)\<rparr>)\<rparr>"

definition released :: "lockid \<Rightarrow> 'z hart_state_scheme \<Rightarrow> 'z hart_state_scheme" where
  "released lk s = popped (s\<lparr>locks := (locks s)(lk := (locks s lk)\<lparr>lk_cpu := None, locked := False\<rparr>)\<rparr>)"

lemmas hart_defs = mycpu_def mycpu_write_def lock_write_def intr_get_bit

lemma push_off_run: "push_off s = Ok () (pushed s)"
  by (simp add: push_off_def pushed_def bind_def seq_def gets_def modify_def whenM_def ret_def
      intr_off_def hart_defs)

lemma pop_off_run:
  assumes "\<not> intr_get s" "0 < noff (mycpu s)"
  shows "pop_off s = Ok () (popped s)"
  using assms
  by (auto simp: pop_off_def popped_def bind_def seq_def gets_def modify_def whenM_def ret_def
      intr_on_def hart_defs)

lemma pop_off_interruptible: "intr_get s \<Longrightarrow> pop_off s = Panic ''pop_off - interruptible''"
  by (simp add: pop_off_def bind_def seq_def gets_def whenM_def panic_def)

lemma pop_off_unmatched:
  "\<not> intr_get s \<Longrightarrow> noff (mycpu s) < 1 \<Longrightarrow> pop_off s = Panic ''pop_off''"
  by (simp add: pop_off_def bind_def seq_def gets_def whenM_def panic_def ret_def)

lemma test_and_set_run:
  "test_and_set lk s = Ok (locked (locks s lk)) (s\<lparr>locks := (locks s)(lk := (locks s lk)\<lparr>locked := True\<rparr>)\<rparr>)"
  by (simp add: test_and_set_def bind_def seq_def gets_def modify_def ret_def lock_write_def)

text \<open>Spinning ends at once on a free lock and never on a lock that stays taken.\<close>

definition spin :: "lockid \<Rightarrow> ('z hart_state_scheme, unit) prog" where
  "spin lk = loopM (\<lambda>_. bind (test_and_set lk) (\<lambda>old. ret (if old then Inl () else Inr ()))) ()"

lemma spin_free:
  "\<not> locked (locks s lk) \<Longrightarrow> spin lk s = Ok () (s\<lparr>locks := (locks s)(lk := (locks s lk)\<lparr>locked := True\<rparr>)\<rparr>)"
  unfolding spin_def by (subst loopM_unfold) (simp add: bind_def test_and_set_run ret_def)

lemma spin_taken: "locked (locks s lk) \<Longrightarrow> spin lk s = Hang"
  unfolding spin_def
  by (rule loopM_Hang [where I = "\<lambda>_ s. locked (locks s lk)"])
    (auto simp: bind_def test_and_set_run ret_def)

lemma pushed_simps [simp]:
  "tp (pushed s) = tp s" "locks (pushed s) = locks s" "\<not> intr_get (pushed s)"
  "noff (mycpu (pushed s)) = noff (mycpu s) + 1"
  by (simp_all add: pushed_def intr_get_bit mycpu_def)

lemma holding_pushed [simp]: "holding lk (pushed s) = holding lk s"
  by (simp add: holding_def)

lemma acquire_unfold:
  "acquire lk s = (if holding lk s then Panic ''acquire''
     else (case spin lk (pushed s) of
         Ok _ t \<Rightarrow> Ok () (lock_write lk (\<lambda>l. l\<lparr>lk_cpu := Some (tp t)\<rparr>) t)
       | Panic msg \<Rightarrow> Panic msg | Hang \<Rightarrow> Hang))"
  by (simp add: acquire_def spin_def [symmetric] bind_def seq_def push_off_run gets_def whenM_def
      ret_def panic_def modify_def cpuid_def split: outcome.split)

lemma acquire_free [run_simps]:
  "\<not> locked (locks s lk) \<Longrightarrow> acquire lk s = Ok () (acquired lk s)"
  by (simp add: acquire_unfold spin_free holding_def lock_write_def acquired_def)

lemma acquire_reentrant: "holding lk s \<Longrightarrow> acquire lk s = Panic ''acquire''"
  by (simp add: acquire_unfold)

lemma acquire_taken: "locked (locks s lk) \<Longrightarrow> \<not> holding lk s \<Longrightarrow> acquire lk s = Hang"
  by (simp add: acquire_unfold spin_taken)

lemma release_run:
  assumes "holding lk s" "\<not> intr_get s" "0 < noff (mycpu s)"
  shows "release lk s = Ok () (released lk s)"
proof -
  let ?t = "s\<lparr>locks := (locks s)(lk := (locks s lk)\<lparr>lk_cpu := None, locked := False\<rparr>)\<rparr>"
  have "pop_off ?t = Ok () (popped ?t)"
    by (rule pop_off_run) (use assms in \<open>auto simp: hart_defs\<close>)
  then show ?thesis
    using assms(1)
    by (simp add: release_def bind_def seq_def gets_def whenM_def ret_def modify_def
        lock_write_def released_def)
qed

lemma release_not_held: "\<not> holding lk s \<Longrightarrow> release lk s = Panic ''release''"
  by (simp add: release_def bind_def seq_def gets_def whenM_def panic_def)

subsection \<open>Critical sections\<close>

text \<open>A lock nobody holds. Releasing always clears the holder, so a free lock has none.\<close>

definition lock_idle :: "lockid \<Rightarrow> 'z hart_state_scheme \<Rightarrow> bool" where
  "lock_idle lk s \<longleftrightarrow> \<not> locked (locks s lk) \<and> lk_cpu (locks s lk) = None"

text \<open>What a completed critical section leaves in the hart's own state: only the scratch
  field \<open>intena\<close> of the outermost \<open>push_off\<close>.\<close>

definition settled :: "'z hart_state_scheme \<Rightarrow> 'z hart_state_scheme" where
  "settled s = s\<lparr>cpus := (cpus s)(tp s := (mycpu s)\<lparr>
     intena := (if noff (mycpu s) = 0 then intr_get s else intena (mycpu s))\<rparr>)\<rparr>"

lemma hart0_ready [simp]: "lock_idle lk (hart0 z)" "intr_ok (hart0 z)"
  by (simp_all add: lock_idle_def intr_ok_def hart0_def mycpu_def cpu0_def)

lemma acquired_simps [simp]:
  "tp (acquired lk s) = tp s"
  "sstatus (acquired lk s) = sstatus s AND NOT SSTATUS_SIE"
  "cpus (acquired lk s) = cpus (pushed s)"
  "locks (acquired lk s) = (locks s)(lk := (locks s lk)\<lparr>locked := True, lk_cpu := Some (tp s)\<rparr>)"
  by (simp_all add: acquired_def pushed_def)

lemma cpus_pushed [simp]:
  "cpus (pushed s) = (cpus s)(tp s := (mycpu s)\<lparr>
     intena := (if noff (mycpu s) = 0 then intr_get s else intena (mycpu s)),
     noff := noff (mycpu s) + 1\<rparr>)"
  by (simp add: pushed_def)

lemma settled_simps [simp]:
  "tp (settled s) = tp s" "sstatus (settled s) = sstatus s" "locks (settled s) = locks s"
  "noff (mycpu (settled s)) = noff (mycpu s)" "cpu_proc (mycpu (settled s)) = cpu_proc (mycpu s)"
  "intr_get (settled s) = intr_get s" "lock_idle lk (settled s) = lock_idle lk s"
  by (simp_all add: settled_def mycpu_def intr_get_def lock_idle_def)

lemma intr_ok_settled [simp]: "intr_ok (settled s) = intr_ok s"
  by (simp add: intr_ok_def)

lemma settled_settled [simp]: "settled (settled s) = settled s"
  by (auto simp: settled_def mycpu_def intr_get_def)

lemma wp_acquire [wp_simps]: "lock_idle lk s \<Longrightarrow> wp (acquire lk) Q s = Q () (acquired lk s)"
  by (simp add: wp_Ok acquire_free lock_idle_def)

text \<open>Releasing in a state \<open>t\<close> whose hart and lock fields are those right after acquiring in
  \<open>s\<close>: everything else of \<open>t\<close> stays, and the hart and lock fields are back to those of \<open>s\<close>.\<close>

lemma release_section:
  assumes idle: "lock_idle lk s" and ok: "intr_ok s"
    and t: "tp t = tp s" "sstatus t = sstatus s AND NOT SSTATUS_SIE" "cpus t = cpus (pushed s)"
      "locks t = (locks s)(lk := (locks s lk)\<lparr>locked := True, lk_cpu := Some (tp s)\<rparr>)"
  shows "release lk t = Ok () (t\<lparr>sstatus := sstatus s, cpus := cpus (settled s), locks := locks s\<rparr>)"
proof -
  have "release lk t = Ok () (released lk t)"
    by (rule release_run) (use t ok in \<open>auto simp: holding_def intr_get_bit mycpu_def intr_ok_def\<close>)
  moreover have "released lk t = t\<lparr>sstatus := sstatus s, cpus := cpus (settled s), locks := locks s\<rparr>"
  proof -
    have "locks s = (locks t)(lk := (locks t lk)\<lparr>lk_cpu := None, locked := False\<rparr>)"
      using idle t by (auto simp: lock_idle_def)
    moreover have "cpus (settled s) = (cpus t)(tp t := (mycpu t)\<lparr>noff := noff (mycpu t) - 1\<rparr>)"
      using t by (auto simp: settled_def mycpu_def)
    moreover have "sstatus s = (if noff (mycpu t) = 1 \<and> intena (mycpu t)
        then sstatus t OR SSTATUS_SIE else sstatus t)"
      using t ok by (auto simp: mycpu_def intr_get_bit sie_restore sie_off_id intr_ok_def)
    ultimately show ?thesis
      by (simp add: released_def popped_def mycpu_def)
  qed
  ultimately show ?thesis by simp
qed

subsection \<open>Holding several locks\<close>

text \<open>The state \<open>s\<close> seen by a hart that has taken the locks \<open>L\<close> since \<open>s\<close>, in whatever order. Code that
  takes and releases locks moves between such states, so that \<open>s\<close> can be followed as if there were
  no locks.\<close>

definition with_locks :: "lockid set \<Rightarrow> 'z hart_state_scheme \<Rightarrow> 'z hart_state_scheme" where
  "with_locks L s = s\<lparr>
     sstatus := (if L = {} then sstatus s else sstatus s AND NOT SSTATUS_SIE),
     cpus := (cpus s)(tp s := (mycpu s)\<lparr>
       intena := (if noff (mycpu s) = 0 then intr_get s else intena (mycpu s)),
       noff := noff (mycpu s) + int (card L)\<rparr>),
     locks := (\<lambda>lk. if lk \<in> L then (locks s lk)\<lparr>locked := True, lk_cpu := Some (tp s)\<rparr> else locks s lk)\<rparr>"

lemma with_locks_empty [simp]: "with_locks {} s = settled s"
  by (simp add: with_locks_def settled_def)

lemma with_locks_one: "with_locks {lk} s = acquired lk s"
  by (auto simp: with_locks_def acquired_def pushed_def fun_eq_iff)

lemma with_locks_simps [simp]:
  "tp (with_locks L s) = tp s"
  "locked (locks (with_locks L s) lk) \<longleftrightarrow> lk \<in> L \<or> locked (locks s lk)"
  "lk \<in> L \<Longrightarrow> lk_cpu (locks (with_locks L s) lk) = Some (tp s)"
  "lk \<notin> L \<Longrightarrow> locks (with_locks L s) lk = locks s lk"
  "cpu_proc (mycpu (with_locks L s)) = cpu_proc (mycpu s)"
  "noff (mycpu (with_locks L s)) = noff (mycpu s) + int (card L)"
  by (simp_all add: with_locks_def mycpu_def)

lemma with_locks_lock_idle: "lock_idle lk (with_locks L s) \<longleftrightarrow> lk \<notin> L \<and> lock_idle lk s"
  by (auto simp: lock_idle_def)

lemma with_locks_intr: "intr_ok s \<Longrightarrow> finite L \<Longrightarrow> intr_ok (with_locks L s)"
  by (cases "L = {}") (auto simp: intr_ok_def intr_get_bit with_locks_def mycpu_def card_gt_0_iff)

lemma settled_id: "noff (mycpu s) \<noteq> 0 \<Longrightarrow> settled s = s"
  by (simp add: settled_def mycpu_def)

lemma with_locks_settled [simp]:
  assumes "finite L" "intr_ok s"
  shows "settled (with_locks L s) = with_locks L s"
proof (cases "L = {}")
  case False
  then have "0 < card L" using assms(1) by (simp add: card_gt_0_iff)
  with assms(2) show ?thesis by (intro settled_id) (simp add: intr_ok_def)
qed simp

lemma settled_with_locks [simp]: "with_locks L (settled s) = with_locks L s"
  by (simp add: settled_def with_locks_def mycpu_def intr_get_def fun_eq_iff)

lemma acquired_with_locks:
  assumes "finite L" "lk \<notin> L" "intr_ok s"
  shows "acquired lk (with_locks L s) = with_locks (insert lk L) s"
proof -
  have card: "int (card (insert lk L)) = int (card L) + 1" using assms by simp
  show ?thesis
    using assms(2,3) card_eq_0_iff [of L] assms(1)
    by (cases "L = {}")
      (auto simp: acquired_def pushed_def with_locks_def mycpu_def intr_get_bit fun_eq_iff card
        intr_ok_def and.assoc)
qed

lemma acquire_more:
  assumes "finite L" "lk \<notin> L" "lock_idle lk s" "intr_ok s"
  shows "acquire lk (with_locks L s) = Ok () (with_locks (insert lk L) s)"
  using assms acquired_with_locks [OF assms(1,2,4)]
  by (subst acquire_free) (simp_all add: lock_idle_def)

lemma acquire_first:
  assumes "lock_idle lk s"
  shows "acquire lk s = Ok () (with_locks {lk} s)"
  using assms by (simp add: acquire_free lock_idle_def with_locks_one)

lemma release_one_of:
  assumes "finite L" "lk \<in> L" "lock_idle lk s" "intr_ok s"
  shows "release lk (with_locks L s) = Ok () (with_locks (L - {lk}) s)"
proof -
  let ?t = "with_locks L s"
  have ne: "L \<noteq> {}" using assms by auto
  have card: "card L = Suc (card (L - {lk}))" using assms(1,2) by (rule card_Suc_Diff1 [symmetric])
  have off: "\<not> intr_get ?t" using ne by (simp add: intr_get_bit with_locks_def)
  have pos: "0 < noff (mycpu ?t)" using assms(4) card by (simp add: intr_ok_def)
  have "release lk ?t = Ok () (released lk ?t)"
    by (rule release_run) (use assms off pos in \<open>auto simp: holding_def\<close>)
  moreover have "released lk ?t = with_locks (L - {lk}) s"
  proof -
    have l: "(locks s lk)\<lparr>lk_cpu := None, locked := False\<rparr> = locks s lk"
      using assms(3) by (simp add: lock_idle_def)
    have l': "(locks ?t)(lk := (locks ?t lk)\<lparr>lk_cpu := None, locked := False\<rparr>) = locks (with_locks (L - {lk}) s)"
      using assms(2) l by (auto simp: with_locks_def fun_eq_iff)
    have z: "noff (mycpu s) + int (card L) = 1 \<longleftrightarrow> noff (mycpu s) = 0 \<and> L - {lk} = {}"
    proof -
      have "card (L - {lk}) = 0 \<longleftrightarrow> L - {lk} = {}" using assms(1) by (simp only: card_eq_0_iff) blast
      moreover have "0 \<le> noff (mycpu s)" using assms(4) by (simp add: intr_ok_def)
      ultimately show ?thesis unfolding card by linarith
    qed
    have sie: "(if noff (mycpu s) + int (card L) = 1 \<and> intena (mycpu ?t) then sstatus ?t OR SSTATUS_SIE else sstatus ?t)
        = sstatus (with_locks (L - {lk}) s)"
      using z ne assms(4) by (auto simp: with_locks_def mycpu_def intr_get_bit intr_ok_def sie_restore sie_off_id)
    have c: "(cpus ?t)(tp s := (mycpu ?t)\<lparr>noff := noff (mycpu ?t) - 1\<rparr>) = cpus (with_locks (L - {lk}) s)"
      using card by (simp add: with_locks_def mycpu_def)
    have whole: "with_locks (L - {lk}) s = ?t\<lparr>locks := locks (with_locks (L - {lk}) s),
        sstatus := sstatus (with_locks (L - {lk}) s), cpus := cpus (with_locks (L - {lk}) s)\<rparr>"
      by (simp add: with_locks_def)
    have "mycpu (?t\<lparr>locks := x\<rparr>) = mycpu ?t" for x by (simp add: mycpu_def)
    then show ?thesis
      unfolding released_def popped_def
      by (subst whole) (simp add: l' [symmetric] sie [symmetric] c [symmetric])
  qed
  ultimately show ?thesis by simp
qed

text \<open>Nested \<open>push_off\<close> sections: the interrupt enable of the outermost one comes back.\<close>

lemma push_pop_matched:
  assumes "intr_ok s"
  shows "wp (seq push_off pop_off) (\<lambda>_ t. t = settled s) s"
proof -
  have "pop_off (pushed s) = Ok () (popped (pushed s))"
    by (rule pop_off_run) (use assms in \<open>auto simp: intr_ok_def\<close>)
  moreover have "popped (pushed s) = settled s"
    using assms
    by (auto simp: popped_def pushed_def settled_def mycpu_def intr_get_bit intr_ok_def
        sie_off_id sie_restore)
  ultimately show ?thesis
    by (simp add: wp_seq wp_Ok push_off_run)
qed

section \<open>Many harts: mutual exclusion\<close>

text \<open>
  The memory accesses of \<open>acquire\<close> and \<open>release\<close> on one lock, interleaved over all harts.
  A hart is outside, about to swap (it has passed the \<open>holding\<close> check), about to record
  itself as the holder, inside its critical section, or in \<open>release\<close> after clearing
  \<open>lk->cpu\<close> and before the store that frees the lock. The re-entrancy check is part of the
  first step, as the panic ends that hart.
\<close>

datatype lock_pc = Outside | Swapping | Recording | Inside | Freeing

record lock_system =
  pcs :: "nat \<Rightarrow> lock_pc"
  cell :: spinlock

inductive lock_step :: "lock_system \<Rightarrow> lock_system \<Rightarrow> bool" where
  enter: "pcs s h = Outside \<Longrightarrow> \<not> (locked (cell s) \<and> lk_cpu (cell s) = Some h) \<Longrightarrow>
    lock_step s (s\<lparr>pcs := (pcs s)(h := Swapping)\<rparr>)"
| swap: "pcs s h = Swapping \<Longrightarrow>
    lock_step s (s\<lparr>pcs := (pcs s)(h := (if locked (cell s) then Swapping else Recording)),
      cell := (cell s)\<lparr>locked := True\<rparr>\<rparr>)"
| record_holder: "pcs s h = Recording \<Longrightarrow>
    lock_step s (s\<lparr>pcs := (pcs s)(h := Inside), cell := (cell s)\<lparr>lk_cpu := Some h\<rparr>\<rparr>)"
| leave: "pcs s h = Inside \<Longrightarrow> locked (cell s) \<and> lk_cpu (cell s) = Some h \<Longrightarrow>
    lock_step s (s\<lparr>pcs := (pcs s)(h := Freeing), cell := (cell s)\<lparr>lk_cpu := None\<rparr>\<rparr>)"
| free: "pcs s h = Freeing \<Longrightarrow>
    lock_step s (s\<lparr>pcs := (pcs s)(h := Outside), cell := (cell s)\<lparr>locked := False\<rparr>\<rparr>)"

inductive lock_reachable :: "lock_system \<Rightarrow> bool" where
  start: "(\<forall>h. pcs s h = Outside) \<Longrightarrow> \<not> locked (cell s) \<Longrightarrow> lk_cpu (cell s) = None \<Longrightarrow>
    lock_reachable s"
| step: "lock_reachable s \<Longrightarrow> lock_step s t \<Longrightarrow> lock_reachable t"

inductive_cases lock_stepE: "lock_step s t"

text \<open>A hart owns the lock from its successful swap to the freeing store.\<close>

definition owns :: "lock_system \<Rightarrow> nat \<Rightarrow> bool" where
  "owns s h \<longleftrightarrow> pcs s h \<in> {Recording, Inside, Freeing}"

definition lock_owner :: "lock_system \<Rightarrow> nat option \<Rightarrow> bool" where
  "lock_owner s w \<longleftrightarrow> (\<forall>h. owns s h \<longleftrightarrow> w = Some h) \<and> (locked (cell s) \<longleftrightarrow> w \<noteq> None)
     \<and> (\<forall>h. lk_cpu (cell s) = Some h \<longleftrightarrow> pcs s h = Inside)"

lemma lock_step_owner: "lock_step s t \<Longrightarrow> lock_owner s w \<Longrightarrow> \<exists>w'. lock_owner t w'"
proof (induction rule: lock_step.induct)
  case (enter s h)
  then have "lock_owner (s\<lparr>pcs := (pcs s)(h := Swapping)\<rparr>) w"
    by (simp add: lock_owner_def owns_def) (metis lock_pc.distinct)
  then show ?case ..
next
  case (swap s h)
  then have "lock_owner (s\<lparr>pcs := (pcs s)(h := (if locked (cell s) then Swapping else Recording)),
      cell := (cell s)\<lparr>locked := True\<rparr>\<rparr>) (if locked (cell s) then w else Some h)"
    by (simp add: lock_owner_def owns_def) (metis lock_pc.distinct option.inject)
  then show ?case ..
next
  case (record_holder s h)
  then have "w = Some h" by (auto simp: lock_owner_def owns_def)
  with record_holder have "lock_owner (s\<lparr>pcs := (pcs s)(h := Inside), cell := (cell s)\<lparr>lk_cpu := Some h\<rparr>\<rparr>) w"
    by (simp add: lock_owner_def owns_def) (metis option.inject)
  then show ?case ..
next
  case (leave s h)
  then have "lock_owner (s\<lparr>pcs := (pcs s)(h := Freeing), cell := (cell s)\<lparr>lk_cpu := None\<rparr>\<rparr>) w"
    by (simp add: lock_owner_def owns_def) (metis option.inject)
  then show ?case ..
next
  case (free s h)
  then have "w = Some h" by (auto simp: lock_owner_def owns_def)
  with free have "lock_owner (s\<lparr>pcs := (pcs s)(h := Outside), cell := (cell s)\<lparr>locked := False\<rparr>\<rparr>) None"
    by (simp add: lock_owner_def owns_def) (metis option.inject lock_pc.distinct)
  then show ?case ..
qed

lemma lock_reachable_owner: "lock_reachable s \<Longrightarrow> \<exists>w. lock_owner s w"
proof (induction rule: lock_reachable.induct)
  case (start s)
  then have "lock_owner s None" by (simp add: lock_owner_def owns_def)
  then show ?case ..
next
  case (step s t)
  then show ?case by (blast dest: lock_step_owner)
qed

section \<open>Properties\<close>

text \<open>C9: No two harts are ever inside the critical section of the same spinlock, over every
  interleaving of the individual steps of \<open>acquire\<close> and \<open>release\<close>; and whoever is inside is the
  hart recorded in the lock, so that \<open>holding\<close> is exact.\<close>

theorem lock_mutual_exclusion:
  assumes "lock_reachable s"
  shows "(pcs s h = Inside \<and> pcs s h' = Inside \<longrightarrow> h = h')
    \<and> (pcs s h = Inside \<longleftrightarrow> locked (cell s) \<and> lk_cpu (cell s) = Some h)"
proof -
  obtain w where "lock_owner s w" using lock_reachable_owner [OF assms] ..
  then have "pcs s k = Inside \<Longrightarrow> w = Some k" "lk_cpu (cell s) = Some k \<longleftrightarrow> pcs s k = Inside"
      "locked (cell s) \<longleftrightarrow> w \<noteq> None" for k
    by (auto simp: lock_owner_def owns_def)
  then show ?thesis by (metis option.inject option.distinct(1))
qed

theorem lock_mutual_exclusion_witness:
  "\<exists>s. lock_reachable s \<and> pcs s 0 = Inside \<and> pcs s 1 = Swapping \<and> lk_cpu (cell s) = Some 0"
proof -
  let ?c0 = "\<lparr>locked = False, lk_name = [], lk_cpu = None\<rparr>"
  let ?s0 = "\<lparr>pcs = (\<lambda>_. Outside), cell = ?c0\<rparr>"
  let ?s1 = "?s0\<lparr>pcs := (\<lambda>_. Outside)(0 := Swapping)\<rparr>"
  let ?s2 = "?s1\<lparr>pcs := (\<lambda>_. Outside)(0 := Swapping, 1 := Swapping)\<rparr>"
  let ?s3 = "\<lparr>pcs = (pcs ?s2)(0 := Recording), cell = ?c0\<lparr>locked := True\<rparr>\<rparr>"
  let ?s4 = "\<lparr>pcs = (pcs ?s3)(0 := Inside), cell = (cell ?s3)\<lparr>lk_cpu := Some 0\<rparr>\<rparr>"
  have s0: "lock_reachable ?s0" by (rule lock_reachable.start) simp_all
  have s1: "lock_reachable ?s1"
    using lock_reachable.step [OF s0 lock_step.enter [of ?s0 0]] by simp
  have s2: "lock_reachable ?s2"
    using lock_reachable.step [OF s1 lock_step.enter [of ?s1 1]] by simp
  have s3: "lock_reachable ?s3"
    using lock_reachable.step [OF s2 lock_step.swap [of ?s2 0]] by simp
  have s4: "lock_reachable ?s4"
    using lock_reachable.step [OF s3 lock_step.record_holder [of ?s3 0]] by simp
  have "lk_cpu (cell ?s4) = Some 0"
    using lock_mutual_exclusion [OF s4, of 0 0] by simp
  with s4 show ?thesis by (intro exI [of _ ?s4]) simp
qed

text \<open>\<open>acquire\<close> by one hart, on every branch: a second acquire of a lock the hart already holds
  panics; a lock that another hart keeps makes it spin for ever; a free lock is taken, with
  interrupts off and the nesting depth one higher.\<close>

theorem acquire_branches:
  "acquire lk s =
     (if holding lk s then Panic ''acquire''
      else if locked (locks s lk) then Hang
      else Ok () (acquired lk s))
   \<and> \<not> intr_get (acquired lk s) \<and> noff (mycpu (acquired lk s)) = noff (mycpu s) + 1"
  by (simp add: acquire_reentrant acquire_taken acquire_free intr_get_bit mycpu_def)

text \<open>C10: A critical section that changes neither the hart's registers nor the locks gives back the
  hart exactly as it found it: after \<open>acquire\<close>, a body, and \<open>release\<close>, the interrupt enable, the
  nesting depth and the lock are those from before the \<open>acquire\<close>.\<close>

theorem critical_section_restores:
  assumes "lock_idle lk s" "intr_ok s"
    and "body (acquired lk s) = Ok () t"
    and "tp t = tp s" "sstatus t = sstatus (acquired lk s)" "cpus t = cpus (acquired lk s)"
      "locks t = locks (acquired lk s)"
  shows "seq (acquire lk) (seq body (release lk)) s
     = Ok () (t\<lparr>sstatus := sstatus s, cpus := cpus (settled s), locks := locks s\<rparr>)"
proof -
  have "release lk t = Ok () (t\<lparr>sstatus := sstatus s, cpus := cpus (settled s), locks := locks s\<rparr>)"
    by (rule release_section) (use assms in simp_all)
  with assms(1,3) show ?thesis
    by (simp add: seq_Ok [OF acquire_free] lock_idle_def seq_Ok)
qed

theorem critical_section_restores_witness:
  "seq (acquire KmemLock) (seq (modify (\<lambda>s. s\<lparr>satp := 7\<rparr>)) (release KmemLock)) (hart0 ())
     = Ok () ((settled (hart0 ()))\<lparr>satp := 7\<rparr>)"
  using critical_section_restores [of KmemLock "hart0 ()" "modify (\<lambda>s. s\<lparr>satp := 7\<rparr>)"
      "(acquired KmemLock (hart0 ()))\<lparr>satp := 7\<rparr>"]
  by (simp add: modify_def acquired_def pushed_def settled_def hart0_ready)

end
