(* ===== verification/Cstring.thy ===== *)
theory Cstring
  imports Riscv
begin

text \<open>
  \<open>kernel/string.c\<close> over a byte memory. Memory is a function from 64-bit addresses to
  bytes, so the aliasing between source and destination that \<open>memmove\<close> has to deal with is
  the real one. Pointer arithmetic is 64-bit word arithmetic.
\<close>

type_synonym mem = "uint64 \<Rightarrow> byte"

section \<open>The functions of string.c\<close>

definition memset :: "mem \<Rightarrow> uint64 \<Rightarrow> uint \<Rightarrow> uint \<Rightarrow> mem" where
  "memset m dst c n = fold (\<lambda>i m. m(dst + word_of_nat i := ucast c)) [0..<unat n] m"

primrec memcmp_loop :: "nat \<Rightarrow> mem \<Rightarrow> uint64 \<Rightarrow> uint64 \<Rightarrow> int" where
  "memcmp_loop 0 m s1 s2 = 0"
| "memcmp_loop (Suc n) m s1 s2 =
     (if m s1 \<noteq> m s2 then uint (m s1) - uint (m s2) else memcmp_loop n m (s1 + 1) (s2 + 1))"

definition memcmp :: "mem \<Rightarrow> uint64 \<Rightarrow> uint64 \<Rightarrow> uint \<Rightarrow> int" where
  "memcmp m v1 v2 n = memcmp_loop (unat n) m v1 v2"

text \<open>The two copying loops of \<open>memmove\<close>: upwards, and downwards from the end.\<close>

definition copy_up :: "nat \<Rightarrow> mem \<Rightarrow> uint64 \<Rightarrow> uint64 \<Rightarrow> mem" where
  "copy_up n m d s = fold (\<lambda>i m. m(d + word_of_nat i := m (s + word_of_nat i))) [0..<n] m"

definition copy_down :: "nat \<Rightarrow> mem \<Rightarrow> uint64 \<Rightarrow> uint64 \<Rightarrow> mem" where
  "copy_down n m d s = fold (\<lambda>i m. m(d + word_of_nat i := m (s + word_of_nat i))) (rev [0..<n]) m"

definition memmove :: "mem \<Rightarrow> uint64 \<Rightarrow> uint64 \<Rightarrow> uint \<Rightarrow> mem" where
  "memmove m dst src n =
     (if n = 0 then m
      else if src < dst \<and> src + ucast n > dst then copy_down (unat n) m dst src
      else copy_up (unat n) m dst src)"

definition memcpy :: "mem \<Rightarrow> uint64 \<Rightarrow> uint64 \<Rightarrow> uint \<Rightarrow> mem" where
  "memcpy m dst src n = memmove m dst src n"

primrec strncmp_loop :: "nat \<Rightarrow> mem \<Rightarrow> uint64 \<Rightarrow> uint64 \<Rightarrow> int" where
  "strncmp_loop 0 m p q = 0"
| "strncmp_loop (Suc n) m p q =
     (if m p \<noteq> 0 \<and> m p = m q then strncmp_loop n m (p + 1) (q + 1)
      else uint (m p) - uint (m q))"

definition strncmp :: "mem \<Rightarrow> uint64 \<Rightarrow> uint64 \<Rightarrow> uint \<Rightarrow> int" where
  "strncmp m p q n = strncmp_loop (unat n) m p q"

primrec zero_fill :: "nat \<Rightarrow> mem \<Rightarrow> uint64 \<Rightarrow> mem" where
  "zero_fill 0 m s = m"
| "zero_fill (Suc n) m s = zero_fill n (m(s := 0)) (s + 1)"

primrec strncpy_loop :: "nat \<Rightarrow> mem \<Rightarrow> uint64 \<Rightarrow> uint64 \<Rightarrow> mem" where
  "strncpy_loop 0 m s t = m"
| "strncpy_loop (Suc n) m s t =
     (if m t = 0 then zero_fill n (m(s := 0)) (s + 1)
      else strncpy_loop n (m(s := m t)) (s + 1) (t + 1))"

definition strncpy :: "mem \<Rightarrow> uint64 \<Rightarrow> uint64 \<Rightarrow> int \<Rightarrow> mem" where
  "strncpy m s t n = strncpy_loop (nat n) m s t"

text \<open>In the loop of \<open>safestrcpy\<close> the first argument is what is left of \<open>n\<close> after \<open>--n\<close>. When the
  NUL itself has been copied, \<open>s\<close> already points past it, and the final store hits that byte.\<close>

primrec safestrcpy_loop :: "nat \<Rightarrow> mem \<Rightarrow> uint64 \<Rightarrow> uint64 \<Rightarrow> mem" where
  "safestrcpy_loop 0 m s t = m(s := 0)"
| "safestrcpy_loop (Suc n) m s t =
     (if m t = 0 then m(s := 0, s + 1 := 0)
      else safestrcpy_loop n (m(s := m t)) (s + 1) (t + 1))"

definition safestrcpy :: "mem \<Rightarrow> uint64 \<Rightarrow> uint64 \<Rightarrow> int \<Rightarrow> mem" where
  "safestrcpy m s t n = (if n \<le> 0 then m else safestrcpy_loop (nat n - 1) m s t)"

text \<open>\<open>strlen\<close> does not return when there is no NUL: \<open>None\<close>.\<close>

definition strlen :: "mem \<Rightarrow> uint64 \<Rightarrow> nat option" where
  "strlen m s = while_option (\<lambda>n. m (s + word_of_nat n) \<noteq> 0) Suc 0"

section \<open>What they compute\<close>

text \<open>The byte range \<open>[p, p + n)\<close>, and the reference versions of filling and copying it.\<close>

definition in_range :: "uint64 \<Rightarrow> uint64 \<Rightarrow> nat \<Rightarrow> bool" where
  "in_range a p n \<longleftrightarrow> unat (a - p) < n"

definition fill_range :: "mem \<Rightarrow> uint64 \<Rightarrow> byte \<Rightarrow> nat \<Rightarrow> mem" where
  "fill_range m p c n = (\<lambda>a. if in_range a p n then c else m a)"

definition copy_range :: "mem \<Rightarrow> uint64 \<Rightarrow> uint64 \<Rightarrow> nat \<Rightarrow> mem" where
  "copy_range m d s n = (\<lambda>a. if in_range a d n then m (s + (a - d)) else m a)"

text \<open>The bytes at \<open>p\<close> are the NUL-terminated string \<open>xs\<close>.\<close>

definition cstr :: "mem \<Rightarrow> uint64 \<Rightarrow> byte list \<Rightarrow> bool" where
  "cstr m p xs \<longleftrightarrow> (\<forall>i < length xs. m (p + word_of_nat i) = xs ! i \<and> xs ! i \<noteq> 0)
     \<and> m (p + word_of_nat (length xs)) = 0"

lemma in_range_0 [simp]: "\<not> in_range a p 0"
  by (simp add: in_range_def)

lemma in_range_Suc:
  assumes "n < 18446744073709551616"
  shows "in_range a p (Suc n) \<longleftrightarrow> in_range a p n \<or> a = p + word_of_nat n"
  using eq_word_of_nat64 [OF assms, of "a - p"]
  by (auto simp: in_range_def less_Suc_eq algebra_simps)

lemma in_range_offset:
  "n < 18446744073709551616 \<Longrightarrow> in_range (p + word_of_nat n) p k \<longleftrightarrow> n < k"
  by (simp add: in_range_def unat_word_of_nat64)

text \<open>\<open>memset\<close> stores \<open>c\<close> in every byte of the range and nowhere else.\<close>

lemma memset_fill: "memset m dst c n = fill_range m dst (ucast c) (unat n)"
proof -
  have "k \<le> unat n \<Longrightarrow> fold (\<lambda>i m. m(dst + word_of_nat i := ucast c)) [0..<k] m
      = fill_range m dst (ucast c) k" for k
  proof (induction k)
    case 0
    show ?case by (simp add: fill_range_def)
  next
    case (Suc k)
    then have "k < 18446744073709551616" using unat_less32 [of n] by simp
    with Suc show ?case
      by (auto simp: fill_range_def in_range_Suc fun_eq_iff)
  qed
  then show ?thesis by (simp add: memset_def)
qed

text \<open>Copying upwards is right when no source byte is overwritten before it is read.\<close>

lemma copy_up_range:
  assumes "n < 18446744073709551616"
    and "\<And>i. i < n \<Longrightarrow> \<not> in_range (s + word_of_nat i) d i"
  shows "copy_up n m d s = copy_range m d s n"
proof -
  have "k \<le> n \<Longrightarrow> fold (\<lambda>i m. m(d + word_of_nat i := m (s + word_of_nat i))) [0..<k] m
      = copy_range m d s k" for k
  proof (induction k)
    case 0
    show ?case by (simp add: copy_range_def)
  next
    case (Suc k)
    then have k: "k < 18446744073709551616" "\<not> in_range (s + word_of_nat k) d k"
      using assms by auto
    with Suc show ?case
      by (auto simp: copy_range_def in_range_Suc fun_eq_iff)
  qed
  then show ?thesis by (simp add: copy_up_def)
qed

text \<open>Copying downwards, likewise: byte \<open>i\<close> is read after the bytes above it were written.\<close>

lemma copy_down_range:
  assumes "n < 18446744073709551616"
    and "\<And>i j. i < j \<Longrightarrow> j < n \<Longrightarrow> s + word_of_nat i \<noteq> d + word_of_nat j"
  shows "copy_down n m d s = copy_range m d s n"
  using assms
proof (induction n arbitrary: m)
  case 0
  show ?case by (simp add: copy_down_def copy_range_def)
next
  case (Suc n)
  let ?m = "m(d + word_of_nat n := m (s + word_of_nat n))"
  have "copy_down (Suc n) m d s = copy_down n ?m d s"
    by (simp add: copy_down_def)
  also have "\<dots> = copy_range ?m d s n"
    using Suc.prems by (intro Suc.IH) auto
  also have "\<dots> = copy_range m d s (Suc n)"
  proof
    fix a
    show "copy_range ?m d s n a = copy_range m d s (Suc n) a"
    proof (cases "in_range a d n")
      case True
      have "s + word_of_nat (unat (a - d)) \<noteq> d + word_of_nat n"
        using True Suc.prems by (intro Suc.prems(2)) (auto simp: in_range_def)
      with True Suc.prems show ?thesis
        by (auto simp: copy_range_def in_range_Suc)
    next
      case False
      with Suc.prems show ?thesis
        by (auto simp: copy_range_def in_range_Suc in_range_offset)
    qed
  qed
  finally show ?case .
qed

lemma memmove_copy:
  assumes src: "unat src + unat n < 18446744073709551616"
    and dst: "unat dst + unat n < 18446744073709551616"
  shows "memmove m dst src n = copy_range m dst src (unat n)"
proof -
  have n: "unat n < 18446744073709551616"
    using unat_less32 [of n] by simp
  have sn: "unat (src + ucast n) = unat src + unat n"
    using src by (subst unat_add64) simp_all
  have off: "unat (p + word_of_nat i) = unat p + i"
    if "unat p + unat n < 18446744073709551616" "i < unat n" for p :: uint64 and i
    using that by (subst unat_add64) (simp_all add: unat_word_of_nat64)
  show ?thesis
  proof (cases "n = 0 \<or> src < dst \<and> dst < src + ucast n")
    case True
    have "copy_down (unat n) m dst src = copy_range m dst src (unat n)"
      if lt: "src < dst"
    proof (rule copy_down_range [OF n])
      fix i j assume "i < j" "j < unat n"
      then have "unat (src + word_of_nat i) < unat (dst + word_of_nat j)"
        using lt src dst by (simp add: off word_less_nat_alt)
      then show "src + word_of_nat i \<noteq> dst + word_of_nat j" by auto
    qed
    then show ?thesis
      using True by (auto simp: memmove_def copy_range_def)
  next
    case False
    have "copy_up (unat n) m dst src = copy_range m dst src (unat n)"
    proof (rule copy_up_range [OF n])
      fix i assume i: "i < unat n"
      have "i \<le> unat (src + word_of_nat i - dst)"
      proof (cases "dst \<le> src")
        case True
        then have "dst \<le> src + word_of_nat i"
          using i src by (simp add: word_le_nat_alt off)
        then show ?thesis
          using True i src by (simp add: unat_diff64 off word_le_nat_alt)
      next
        case lt: False
        then have "src + word_of_nat i < dst"
          using False i src sn by (simp add: word_less_nat_alt word_le_nat_alt off)
        then show ?thesis
          using i src unat_less64 [of dst] by (simp add: unat_diff64_wrap off)
      qed
      then show "\<not> in_range (src + word_of_nat i) dst i"
        by (simp add: in_range_def)
    qed
    with False show ?thesis by (auto simp: memmove_def)
  qed
qed

subsection \<open>Strings\<close>

lemma cstr_Nil [simp]: "cstr m p [] \<longleftrightarrow> m p = 0"
  by (simp add: cstr_def)

lemma cstr_Cons [simp]: "cstr m p (x # xs) \<longleftrightarrow> m p = x \<and> x \<noteq> 0 \<and> cstr m (p + 1) xs"
proof -
  have "(\<forall>i < Suc (length xs). m (p + word_of_nat i) = (x # xs) ! i \<and> (x # xs) ! i \<noteq> 0)
      \<longleftrightarrow> m p = x \<and> x \<noteq> 0 \<and> (\<forall>i < length xs. m (p + 1 + word_of_nat i) = xs ! i \<and> xs ! i \<noteq> 0)"
    by (auto simp: All_less_Suc2 algebra_simps)
  then show ?thesis
    by (simp add: cstr_def algebra_simps)
qed

lemma cstr_unique: "cstr m p xs \<Longrightarrow> cstr m p ys \<Longrightarrow> xs = ys"
  by (induction xs arbitrary: p ys) (case_tac ys; fastforce)+

lemma strlen_from:
  assumes "\<And>i. i < k \<Longrightarrow> f i \<noteq> (0 :: byte)" "f k = 0" "n \<le> k"
  shows "while_option (\<lambda>n. f n \<noteq> 0) Suc n = Some k"
  using assms(3)
proof (induction "k - n" arbitrary: n)
  case 0
  with assms show ?case by (subst while_option_unfold) simp
next
  case (Suc d)
  then have "n < k" "d = k - Suc n" by auto
  with Suc assms(1) show ?case by (subst while_option_unfold) simp
qed

lemma strlen_cstr:
  assumes "cstr m p xs"
  shows "strlen m p = Some (length xs)"
  unfolding strlen_def by (rule strlen_from) (use assms in \<open>auto simp: cstr_def\<close>)

text \<open>\<open>strncmp\<close> is zero exactly when the strings agree on their first \<open>n\<close> characters.\<close>

lemma strncmp_loop_eq:
  assumes "cstr m p xs" "cstr m q ys"
  shows "strncmp_loop n m p q = 0 \<longleftrightarrow> take n xs = take n ys"
  using assms
proof (induction n arbitrary: p q xs ys)
  case 0
  show ?case by simp
next
  case (Suc n)
  show ?case
  proof (cases xs)
    case Nil
    with Suc.prems show ?thesis by (cases ys) (auto simp: unsigned_eq_0_iff)
  next
    case (Cons x xs')
    show ?thesis
    proof (cases ys)
      case Nil
      with Cons Suc.prems show ?thesis by (auto simp: unsigned_eq_0_iff)
    next
      case (Cons y ys')
      with \<open>xs = x # xs'\<close> Suc show ?thesis by (auto simp: word_uint_eq_iff)
    qed
  qed
qed

text \<open>\<open>safestrcpy\<close> leaves a NUL-terminated string: what fits of the source.\<close>

lemma safestrcpy_loop_frame:
  assumes "n < 18446744073709551615" "\<not> in_range a s (Suc n)"
  shows "safestrcpy_loop n m s t a = m a"
  using assms
proof (induction n arbitrary: m s t)
  case 0
  then show ?case by (auto simp: in_range_def)
next
  case (Suc n)
  have "a \<noteq> s" "a \<noteq> s + 1"
    using Suc.prems by (auto simp: in_range_def)
  moreover have "\<not> in_range a (s + 1) (Suc n)"
  proof
    assume r: "in_range a (s + 1) (Suc n)"
    have "a = s + 1 + word_of_nat (unat (a - (s + 1)))" by simp
    then have "a = s + word_of_nat (Suc (unat (a - (s + 1))))"
      by (metis add.assoc add.commute of_nat_Suc)
    with r Suc.prems show False
      using in_range_offset [of "Suc (unat (a - (s + 1)))" s "Suc (Suc n)"]
      by (auto simp: in_range_def)
  qed
  ultimately show ?case
    using Suc by simp
qed

lemma safestrcpy_loop_cstr:
  assumes "n < 18446744073709551615" "cstr m t xs"
    and "\<And>i j. i \<le> length xs \<Longrightarrow> j \<le> n \<Longrightarrow> t + word_of_nat i \<noteq> s + word_of_nat j"
  shows "cstr (safestrcpy_loop n m s t) s (take n xs)"
  using assms
proof (induction n arbitrary: m s t xs)
  case 0
  then show ?case by simp
next
  case (Suc n)
  show ?case
  proof (cases xs)
    case Nil
    with Suc.prems show ?thesis by simp
  next
    case (Cons x xs')
    let ?m = "m(s := x)"
    have tx: "m t = x" "x \<noteq> 0" using Suc.prems Cons by auto
    have "cstr ?m (t + 1) xs'"
    proof -
      have "t + 1 + word_of_nat i \<noteq> s" if "i \<le> length xs'" for i
        using Suc.prems(3) [of "Suc i" 0] that Cons by (simp add: algebra_simps)
      moreover have "cstr m (t + 1) xs'" using Suc.prems(2) Cons by simp
      ultimately show ?thesis
        by (simp add: cstr_def)
    qed
    moreover have "t + 1 + word_of_nat i \<noteq> s + 1 + word_of_nat j"
      if "i \<le> length xs'" "j \<le> n" for i j
      using Suc.prems(3) [of "Suc i" "Suc j"] that Cons by (simp add: algebra_simps)
    ultimately have "cstr (safestrcpy_loop n ?m (s + 1) (t + 1)) (s + 1) (take n xs')"
      using Suc.prems(1) by (intro Suc.IH) (auto simp: fun_upd_def)
    moreover have "safestrcpy_loop n ?m (s + 1) (t + 1) s = x"
    proof -
      have "unat (s - (s + 1)) = 18446744073709551615"
        by (simp add: unsigned_minus_1_eq_mask mask_eq_exp_minus_1)
      then show ?thesis
        using Suc.prems(1) by (subst safestrcpy_loop_frame) (auto simp: in_range_def)
    qed
    ultimately show ?thesis
      using tx Cons by simp
  qed
qed

lemma safestrcpy_cstr:
  assumes "0 < n" "n < 2147483648" "cstr m t xs"
    and "\<And>i j. i \<le> length xs \<Longrightarrow> j < nat n \<Longrightarrow> t + word_of_nat i \<noteq> s + word_of_nat j"
  shows "cstr (safestrcpy m s t n) s (take (nat n - 1) xs)"
    and "\<not> in_range a s (nat n) \<Longrightarrow> safestrcpy m s t n a = m a"
proof -
  have n: "nat n - 1 < 18446744073709551615" "Suc (nat n - 1) = nat n"
    using assms(1,2) by auto
  show "cstr (safestrcpy m s t n) s (take (nat n - 1) xs)"
    using assms n by (auto simp: safestrcpy_def intro!: safestrcpy_loop_cstr)
  show "safestrcpy m s t n a = m a" if "\<not> in_range a s (nat n)"
    using assms n that by (auto simp: safestrcpy_def safestrcpy_loop_frame)
qed

section \<open>Multi-byte accesses\<close>

text \<open>RISC-V is little-endian: the byte at the lowest address is the least significant.\<close>

primrec load_le :: "nat \<Rightarrow> mem \<Rightarrow> uint64 \<Rightarrow> uint64" where
  "load_le 0 m a = 0"
| "load_le (Suc k) m a = ucast (m a) OR push_bit 8 (load_le k m (a + 1))"

primrec store_le :: "nat \<Rightarrow> mem \<Rightarrow> uint64 \<Rightarrow> uint64 \<Rightarrow> mem" where
  "store_le 0 m a w = m"
| "store_le (Suc k) m a w = store_le k (m(a := ucast w)) (a + 1) (drop_bit 8 w)"

definition load64 :: "mem \<Rightarrow> uint64 \<Rightarrow> uint64" where
  "load64 m a = load_le 8 m a"

definition store64 :: "mem \<Rightarrow> uint64 \<Rightarrow> uint64 \<Rightarrow> mem" where
  "store64 m a w = store_le 8 m a w"

lemma in_range_shift:
  assumes "n < 18446744073709551615" "in_range b (a + 1) n"
  shows "in_range b a (Suc n)" "b \<noteq> a"
proof -
  have "b = a + word_of_nat (Suc (unat (b - (a + 1))))" by simp
  moreover have k: "Suc (unat (b - (a + 1))) < 18446744073709551616"
    using assms by (simp add: in_range_def)
  ultimately have e: "unat (b - a) = Suc (unat (b - (a + 1)))"
    using unat_word_of_nat64 [OF k] by (metis add_diff_cancel_left')
  with assms show "in_range b a (Suc n)" by (simp add: in_range_def)
  from e show "b \<noteq> a" by auto
qed

lemma store_le_frame:
  "k < 18446744073709551616 \<Longrightarrow> \<not> in_range b a k \<Longrightarrow> store_le k m a w b = m b"
proof (induction k arbitrary: m a w)
  case (Suc k)
  then have "\<not> in_range b (a + 1) k" using in_range_shift(1) [of k b a] by auto
  moreover have "b \<noteq> a" using Suc.prems by (auto simp: in_range_def)
  ultimately show ?case using Suc by simp
qed simp

lemma load_le_cong:
  "k < 18446744073709551616 \<Longrightarrow> (\<And>b. in_range b a k \<Longrightarrow> m b = m' b) \<Longrightarrow> load_le k m a = load_le k m' a"
proof (induction k arbitrary: a)
  case (Suc k)
  have "load_le k m (a + 1) = load_le k m' (a + 1)"
    by (rule Suc.IH) (use Suc.prems in_range_shift(1) [of k] in auto)
  moreover have "m a = m' a" using Suc.prems(2) [of a] by (simp add: in_range_def)
  ultimately show ?case by simp
qed simp

lemma load_store_le:
  "k < 18446744073709551616 \<Longrightarrow> load_le k (store_le k m a w) a = take_bit (8 * k) w"
proof (induction k arbitrary: m a w)
  case (Suc k)
  let ?m = "store_le k (m(a := ucast w)) (a + 1) (drop_bit 8 w)"
  have "\<not> in_range a (a + 1) k"
    using in_range_shift(2) [of k a a] Suc.prems by auto
  then have "?m a = ucast w"
    using Suc.prems by (simp add: store_le_frame)
  moreover have "load_le k ?m (a + 1) = take_bit (8 * k) (drop_bit 8 w)"
    using Suc by simp
  moreover have "ucast (ucast w :: byte) OR push_bit 8 (take_bit (8 * k) (drop_bit 8 w))
      = take_bit (8 * Suc k) w"
    by (rule bit_word_eqI) (auto simp: bit_simps)
  ultimately show ?case by simp
qed simp

lemma load64_store64 [simp]: "load64 (store64 m a w) a = w"
  by (simp add: load64_def store64_def load_store_le take_bit_word_eq_self)

lemma load64_cong: "(\<And>b. in_range b a 8 \<Longrightarrow> m b = m' b) \<Longrightarrow> load64 m a = load64 m' a"
  unfolding load64_def by (rule load_le_cong) auto

lemma store64_frame: "\<not> in_range b a 8 \<Longrightarrow> store64 m a w b = m b"
  by (simp add: store64_def store_le_frame)

section \<open>Properties\<close>

text \<open>C11: \<open>memmove\<close> copies correctly when the two ranges overlap in either direction: every byte of the
  destination range ends up with the byte the source range held before the call, and no other
  byte of memory changes.\<close>

theorem memmove_overlap:
  assumes "unat src + unat n < 18446744073709551616" "unat dst + unat n < 18446744073709551616"
  shows "memmove m dst src n = (\<lambda>a. if in_range a dst (unat n) then m (src + (a - dst)) else m a)"
  using memmove_copy [OF assms] by (simp add: copy_range_def)

theorem memmove_overlap_witness:
  "memmove (\<lambda>a. if a = 100 then 7 else if a = 101 then 8 else 0) 101 100 2 102 = 8
   \<and> memmove (\<lambda>a. if a = 100 then 7 else if a = 101 then 8 else 0) 100 101 2 100 = 8"
  by (simp add: memmove_overlap in_range_def)

text \<open>\<open>safestrcpy(s, t, n)\<close> with \<open>n > 0\<close> always leaves a NUL-terminated string at \<open>s\<close>, the first
  \<open>n - 1\<close> characters of the string at \<open>t\<close>, and writes no byte outside \<open>s .. s + n - 1\<close>.\<close>

theorem safestrcpy_terminates:
  assumes "0 < n" "n < 2147483648" "cstr m t xs"
    and "\<And>i j. i \<le> length xs \<Longrightarrow> j < nat n \<Longrightarrow> t + word_of_nat i \<noteq> s + word_of_nat j"
  shows "cstr (safestrcpy m s t n) s (take (nat n - 1) xs)
    \<and> (\<forall>a. \<not> in_range a s (nat n) \<longrightarrow> safestrcpy m s t n a = m a)"
  using safestrcpy_cstr [OF assms] by blast

theorem safestrcpy_terminates_witness:
  "cstr (safestrcpy (\<lambda>a. if a = 8 then 104 else if a = 9 then 105 else 0) 100 8 2) 100 [104]"
proof -
  let ?m = "\<lambda>a :: uint64. if a = 8 then 104 else if a = 9 then 105 else (0 :: byte)"
  have "cstr ?m 8 [104, 105]" by simp
  moreover have "8 + word_of_nat i \<noteq> (100 :: uint64) + word_of_nat j"
    if "i \<le> length [104 :: byte, 105]" "j < nat 2" for i j
  proof -
    have "i = 0 \<or> i = 1 \<or> i = 2" "j = 0 \<or> j = 1" using that by auto
    then show ?thesis by (elim disjE) simp_all
  qed
  ultimately show ?thesis
    using safestrcpy_terminates [of 2 ?m 8 "[104, 105]" 100] by simp
qed

end
