(* ===== verification/Kalloc.thy ===== *)
theory Kalloc
  imports Spinlock Cstring
begin

text \<open>
  \<open>kernel/kalloc.c\<close>: the physical page allocator. The free list is threaded through the
  free pages themselves, in physical memory, exactly as in the code: \<open>r->next\<close> is the first
  eight bytes of the page. The abstraction is a list of pages, most recently freed first;
  \<open>kalloc\<close> pops it and \<open>kfree\<close> pushes on it. The end of the kernel image, \<open>end\<close>, is fixed by
  the linker: it is a field of the state that no code changes.
\<close>

record kmem_state = hart_state +
  mem :: mem
  kend :: uint64
  freelist :: uint64

section \<open>Operations\<close>

definition kfree :: "uint64 \<Rightarrow> ('z kmem_state_scheme, unit) prog" where
  "kfree pa =
     seq (bind (gets kend) (\<lambda>e. whenM (\<not> aligned pa \<or> pa < e \<or> pa \<ge> PHYSTOP) (panic ''kfree'')))
    (seq (modify (\<lambda>s. s\<lparr>mem := memset (mem s) pa 1 (ucast PGSIZE)\<rparr>))
    (seq (acquire KmemLock)
    (seq (modify (\<lambda>s. s\<lparr>mem := store64 (mem s) pa (freelist s)\<rparr>))
    (seq (modify (\<lambda>s. s\<lparr>freelist := pa\<rparr>))
         (release KmemLock)))))"

definition kalloc :: "('z kmem_state_scheme, uint64) prog" where
  "kalloc =
     seq (acquire KmemLock)
    (bind (gets freelist) (\<lambda>r.
     seq (whenM (r \<noteq> 0) (modify (\<lambda>s. s\<lparr>freelist := load64 (mem s) r\<rparr>)))
    (seq (release KmemLock)
    (seq (whenM (r \<noteq> 0) (modify (\<lambda>s. s\<lparr>mem := memset (mem s) r 5 (ucast PGSIZE)\<rparr>)))
         (ret r)))))"

definition freerange :: "uint64 \<Rightarrow> uint64 \<Rightarrow> ('z kmem_state_scheme, unit) prog" where
  "freerange pa_start pa_end =
     loopM (\<lambda>p. if p + PGSIZE \<le> pa_end then seq (kfree p) (ret (Inl (p + PGSIZE))) else ret (Inr ()))
       (PGROUNDUP pa_start)"

definition kinit :: "('z kmem_state_scheme, unit) prog" where
  "kinit = seq (initlock KmemLock ''kmem'') (bind (gets kend) (\<lambda>e. freerange e PHYSTOP))"

section \<open>Pages\<close>

definition page_ok :: "'z kmem_state_scheme \<Rightarrow> uint64 \<Rightarrow> bool" where
  "page_ok s p \<longleftrightarrow> aligned p \<and> kend s \<le> p \<and> p < PHYSTOP"

text \<open>The bytes of the page at \<open>p\<close>.\<close>

definition in_page :: "uint64 \<Rightarrow> uint64 \<Rightarrow> bool" where
  "in_page a p \<longleftrightarrow> in_range a p 4096"

lemma aligned_unat: "aligned p \<longleftrightarrow> unat p mod 4096 = 0"
proof -
  have "unat (p mod PGSIZE) = unat p mod 4096"
    by (simp add: unat_mod PGSIZE_def)
  then show ?thesis by (metis unat_eq_zero aligned_def)
qed

lemma div_4096_iff: "(a :: nat) div 4096 = q \<longleftrightarrow> 4096 * q \<le> a \<and> a < 4096 * q + 4096"
  by (auto simp: div_nat_eqI)

lemma in_page_iff:
  assumes "aligned p"
  shows "in_page a p \<longleftrightarrow> unat a div 4096 = unat p div 4096"
proof -
  have "unat p mod 4096 = 0" using assms by (simp only: aligned_unat)
  then obtain q where p: "unat p = 4096 * q" by auto
  show ?thesis
  proof (cases "p \<le> a")
    case True
    then show ?thesis
      using p by (auto simp: in_page_def in_range_def unat_diff64 div_4096_iff word_le_nat_alt)
  next
    case False
    then have "a < p" by simp
    moreover have "unat p \<le> 18446744073709551616 - 4096"
      using p unat_less64 [of p] by simp
    ultimately show ?thesis
      using p by (auto simp: in_page_def in_range_def unat_diff64_wrap div_4096_iff word_less_nat_alt)
  qed
qed

lemma in_page_unique:
  "aligned p \<Longrightarrow> aligned q \<Longrightarrow> in_page a p \<Longrightarrow> in_page a q \<Longrightarrow> p = q"
proof -
  assume "aligned p" "aligned q" "in_page a p" "in_page a q"
  then have "unat p mod 4096 = 0" "unat q mod 4096 = 0" "unat p div 4096 = unat q div 4096"
    by (simp_all only: aligned_unat in_page_iff)
  then show ?thesis
    by (metis mult_div_mod_eq word_unat_eq_iff)
qed

lemma in_page_self [simp]: "in_page p p"
  by (simp add: in_page_def in_range_def)

lemma in_range_page: "in_range b p 8 \<Longrightarrow> in_page b p"
  by (simp add: in_page_def in_range_def)

lemma memset_page: "memset m p c (ucast PGSIZE) = (\<lambda>a. if in_page a p then ucast c else m a)"
  by (simp add: memset_fill fill_range_def in_page_def PGSIZE_def)

section \<open>Running the allocator\<close>

lemma kmem_settled [simp]:
  "mem (settled s) = mem s" "kend (settled s) = kend s" "freelist (settled s) = freelist s"
  by (simp_all add: settled_def)

lemma kmem_acquired [simp]:
  "mem (acquired lk s) = mem s" "kend (acquired lk s) = kend s" "freelist (acquired lk s) = freelist s"
  by (simp_all add: acquired_def pushed_def)

text \<open>Collapsing the hart fields of a completed critical section.\<close>

lemma section_collapse:
  "(acquired lk s)\<lparr>mem := m, freelist := f, sstatus := sstatus s, cpus := cpus (settled s), locks := locks s\<rparr>
   = (settled s)\<lparr>mem := m, freelist := f\<rparr>"
  by (simp add: acquired_def pushed_def settled_def)

lemma kalloc_run:
  assumes "lock_idle KmemLock s" "intr_ok s"
  shows "kalloc s = Ok (freelist s)
    (if freelist s = 0 then settled s
     else (settled s)\<lparr>mem := memset (mem s) (freelist s) 5 (ucast PGSIZE),
                      freelist := load64 (mem s) (freelist s)\<rparr>)"
proof (cases "freelist s = 0")
  case True
  have "release KmemLock (acquired KmemLock s) = Ok () (settled s)"
    using release_section [OF assms, of "acquired KmemLock s"]
    by (simp add: acquired_def pushed_def settled_def)
  with True assms show ?thesis
    by (simp add: kalloc_def seq_def bind_def acquire_free lock_idle_def gets_def whenM_def ret_def)
next
  case False
  let ?t = "(acquired KmemLock s)\<lparr>freelist := load64 (mem s) (freelist s)\<rparr>"
  have "release KmemLock ?t = Ok () ((settled s)\<lparr>freelist := load64 (mem s) (freelist s)\<rparr>)"
    using release_section [OF assms, of ?t]
    by (simp add: acquired_def pushed_def settled_def)
  with False assms show ?thesis
    by (simp add: kalloc_def seq_def bind_def acquire_free lock_idle_def gets_def whenM_def ret_def
        modify_def settled_def)
qed

lemma kfree_run:
  assumes "page_ok s pa" "lock_idle KmemLock s" "intr_ok s"
  shows "kfree pa s = Ok () ((settled s)\<lparr>
     mem := store64 (memset (mem s) pa 1 (ucast PGSIZE)) pa (freelist s), freelist := pa\<rparr>)"
proof -
  let ?m = "memset (mem s) pa 1 (ucast PGSIZE)"
  let ?s = "s\<lparr>mem := ?m\<rparr>"
  let ?t = "(acquired KmemLock ?s)\<lparr>mem := store64 ?m pa (freelist s), freelist := pa\<rparr>"
  have hart: "lock_idle KmemLock ?s" "intr_ok ?s"
    using assms by (simp_all add: lock_idle_def intr_ok_def mycpu_def intr_get_def)
  have "release KmemLock ?t = Ok () ((settled s)\<lparr>mem := store64 ?m pa (freelist s), freelist := pa\<rparr>)"
    using release_section [OF hart, of ?t]
    by (simp add: acquired_def pushed_def settled_def mycpu_def intr_get_def)
  moreover have "\<not> (\<not> aligned pa \<or> pa < kend s \<or> pa \<ge> PHYSTOP)"
    using assms(1) by (auto simp: page_ok_def)
  ultimately show ?thesis
    using hart
    by (simp add: kfree_def seq_def bind_def acquire_free lock_idle_def gets_def whenM_def ret_def
        modify_def)
qed

lemma kfree_bad: "\<not> page_ok s pa \<Longrightarrow> kfree pa s = Panic ''kfree''"
  by (auto simp: kfree_def seq_def bind_def gets_def whenM_def panic_def page_ok_def)

section \<open>The free list as a list of pages\<close>

primrec free_chain :: "mem \<Rightarrow> uint64 \<Rightarrow> uint64 list \<Rightarrow> bool" where
  "free_chain m r [] \<longleftrightarrow> r = 0"
| "free_chain m r (p # ps) \<longleftrightarrow> r = p \<and> p \<noteq> 0 \<and> free_chain m (load64 m p) ps"

definition kmem_ok :: "'z kmem_state_scheme \<Rightarrow> uint64 list \<Rightarrow> bool" where
  "kmem_ok s ps \<longleftrightarrow> free_chain (mem s) (freelist s) ps \<and> distinct ps \<and> (\<forall>p \<in> set ps. page_ok s p)
     \<and> 0 < kend s"

lemma free_chain_cong:
  "free_chain m r ps \<Longrightarrow> (\<And>p b. p \<in> set ps \<Longrightarrow> in_page b p \<Longrightarrow> m b = m' b) \<Longrightarrow> free_chain m' r ps"
proof (induction ps arbitrary: r)
  case (Cons p ps)
  have "load64 m p = load64 m' p"
    by (rule load64_cong) (use Cons.prems(2) in_range_page in auto)
  with Cons show ?case by auto
qed simp

lemma page_ok_nonzero: "0 < kend s \<Longrightarrow> page_ok s p \<Longrightarrow> p \<noteq> 0"
  by (auto simp: page_ok_def)

text \<open>\<open>kalloc\<close> hands out the head of the list, filled with junk, and leaves the tail.\<close>

lemma kalloc_pop:
  assumes "kmem_ok s (p # ps)" "lock_idle KmemLock s" "intr_ok s"
  shows "wp kalloc (\<lambda>r t. r = p \<and> kmem_ok t ps \<and> page_ok s p \<and> p \<notin> set ps
     \<and> (\<forall>a. mem t a = (if in_page a p then 5 else mem s a))
     \<and> t = (settled s)\<lparr>mem := mem t, freelist := freelist t\<rparr>) s"
proof -
  let ?m = "memset (mem s) p 5 (ucast PGSIZE)"
  let ?t = "(settled s)\<lparr>mem := ?m, freelist := load64 (mem s) p\<rparr>"
  have p: "freelist s = p" "p \<noteq> 0" "page_ok s p" "p \<notin> set ps"
    using assms(1) by (auto simp: kmem_ok_def)
  have "free_chain ?m (load64 (mem s) p) ps"
  proof (rule free_chain_cong [of "mem s"])
    show "free_chain (mem s) (load64 (mem s) p) ps"
      using assms(1) by (auto simp: kmem_ok_def)
    fix q b assume "q \<in> set ps" "in_page b q"
    moreover have "q \<noteq> p" "page_ok s q"
      using assms(1) \<open>q \<in> set ps\<close> by (auto simp: kmem_ok_def)
    ultimately have "\<not> in_page b p"
      using p in_page_unique [of p q b] by (auto simp: page_ok_def)
    then show "mem s b = ?m b" by (simp add: memset_page)
  qed
  with assms(1) have "kmem_ok ?t ps"
    by (auto simp: kmem_ok_def page_ok_def)
  with p show ?thesis
    by (simp add: wp_def kalloc_run [OF assms(2,3)] memset_page)
qed

lemma kalloc_exhausted:
  assumes "kmem_ok s []" "lock_idle KmemLock s" "intr_ok s"
  shows "kalloc s = Ok 0 (settled s)"
  using assms kalloc_run [OF assms(2,3)] by (simp add: kmem_ok_def)

text \<open>\<open>kfree\<close> puts the page at the head of the list.\<close>

lemma kfree_push:
  assumes "kmem_ok s ps" "page_ok s p" "p \<notin> set ps" "lock_idle KmemLock s" "intr_ok s"
  shows "wp (kfree p) (\<lambda>_ t. kmem_ok t (p # ps) \<and> (\<forall>a. \<not> in_page a p \<longrightarrow> mem t a = mem s a)
     \<and> t = (settled s)\<lparr>mem := mem t, freelist := freelist t\<rparr>) s"
proof -
  let ?m = "store64 (memset (mem s) p 1 (ucast PGSIZE)) p (freelist s)"
  let ?t = "(settled s)\<lparr>mem := ?m, freelist := p\<rparr>"
  have frame: "?m a = mem s a" if "\<not> in_page a p" for a
    using that in_range_page [of a p] by (subst store64_frame) (auto simp: memset_page)
  have "free_chain ?m (freelist s) ps"
  proof (rule free_chain_cong [of "mem s"])
    show "free_chain (mem s) (freelist s) ps"
      using assms(1) by (simp add: kmem_ok_def)
    fix q b assume "q \<in> set ps" "in_page b q"
    moreover have "q \<noteq> p" "page_ok s q"
      using assms(1,3) \<open>q \<in> set ps\<close> by (auto simp: kmem_ok_def)
    ultimately have "\<not> in_page b p"
      using assms(2) in_page_unique [of p q b] by (auto simp: page_ok_def)
    then show "mem s b = ?m b" by (simp add: frame)
  qed
  then have "kmem_ok ?t (p # ps)"
    using assms(1-3) page_ok_nonzero [of s p] by (auto simp: kmem_ok_def page_ok_def)
  with frame show ?thesis
    by (simp add: wp_def kfree_run [OF assms(2,4,5)])
qed

section \<open>The allocator as a stack of pages\<close>

text \<open>The interface the rest of the kernel relies on: \<open>ok s ps\<close> says that \<open>ps\<close> are the free
  pages of \<open>s\<close>, next one first.\<close>

locale page_allocator =
  fixes alloc :: "'s \<Rightarrow> (uint64, 's) outcome"
    and free :: "uint64 \<Rightarrow> 's \<Rightarrow> (unit, 's) outcome"
    and ok :: "'s \<Rightarrow> uint64 list \<Rightarrow> bool"
    and valid :: "'s \<Rightarrow> uint64 \<Rightarrow> bool"
  assumes alloc_none: "ok s [] \<Longrightarrow> wp alloc (\<lambda>r t. r = 0 \<and> ok t []) s"
    and alloc_some: "ok s (p # ps) \<Longrightarrow> wp alloc (\<lambda>r t. r = p \<and> p \<noteq> 0 \<and> valid t p \<and> ok t ps) s"
    and free_some: "ok s ps \<Longrightarrow> valid s p \<Longrightarrow> p \<notin> set ps \<Longrightarrow> wp (free p) (\<lambda>_ t. ok t (p # ps)) s"
    and ok_distinct: "ok s ps \<Longrightarrow> distinct ps"
begin

lemma alloc_zero_iff: "ok s ps \<Longrightarrow> wp alloc (\<lambda>r t. r = 0 \<longleftrightarrow> ps = []) s"
  by (cases ps) (auto dest: alloc_none alloc_some elim!: wp_mono)

lemma free_alloc:
  assumes "ok s ps" "valid s p" "p \<notin> set ps"
  shows "wp (seq (free p) alloc) (\<lambda>r t. r = p \<and> ok t ps) s"
  using free_some [OF assms] by (auto simp: wp_seq elim!: wp_mono dest!: alloc_some)

text \<open>Allocating \<open>length ps\<close> pages in a row hands out the free pages, each one once.\<close>

lemma alloc_in_turn:
  assumes "ok s (ps @ qs)"
  shows "\<exists>t. ok t qs \<and> distinct ps \<and>
    fold (\<lambda>_ st. case st of Some (rs, u) \<Rightarrow> (case alloc u of Ok r v \<Rightarrow> Some (rs @ [r], v) | _ \<Rightarrow> None) | None \<Rightarrow> None)
      ps (Some (acc, s)) = Some (acc @ ps, t)"
  using assms
proof (induction ps arbitrary: s acc)
  case Nil
  then show ?case by auto
next
  case (Cons p ps)
  then obtain t where t: "alloc s = Ok p t" "ok t (ps @ qs)"
    using alloc_some [of s p "ps @ qs"] by (auto simp: wp_iff)
  from Cons.IH [OF t(2), of "acc @ [p]"] t(1) ok_distinct [OF Cons.prems]
  show ?case by simp
qed

end

definition kalloc_ready :: "'z kmem_state_scheme \<Rightarrow> uint64 list \<Rightarrow> bool" where
  "kalloc_ready s ps \<longleftrightarrow> kmem_ok s ps \<and> lock_idle KmemLock s \<and> intr_ok s"

lemma ready_upd [simp]:
  "lock_idle lk (s\<lparr>mem := m, freelist := f\<rparr>) = lock_idle lk s"
  "intr_ok (s\<lparr>mem := m, freelist := f\<rparr>) = intr_ok s"
  by (simp_all add: lock_idle_def intr_ok_def mycpu_def intr_get_def)

lemma ready_same:
  "t = (settled s)\<lparr>mem := mem t, freelist := freelist t\<rparr> \<Longrightarrow> lock_idle lk t = lock_idle lk s"
  "t = (settled s)\<lparr>mem := mem t, freelist := freelist t\<rparr> \<Longrightarrow> intr_ok t = intr_ok s"
  "t = (settled s)\<lparr>mem := mem t, freelist := freelist t\<rparr> \<Longrightarrow> kend t = kend s"
  by (metis ready_upd(1) settled_simps(7), metis ready_upd(2) intr_ok_settled,
      metis kmem_settled(2) kmem_state.select_convs(2) kmem_state.surjective kmem_state.update_convs)

lemma kalloc_ready_pop:
  "kalloc_ready s (p # ps) \<Longrightarrow> wp kalloc (\<lambda>r t. r = p \<and> p \<noteq> 0 \<and> page_ok t p \<and> kalloc_ready t ps) s"
  unfolding kalloc_ready_def
  by (elim conjE, frule (2) kalloc_pop, erule wp_mono)
    (auto simp: ready_same page_ok_def kmem_ok_def)

lemma kalloc_ready_none: "kalloc_ready s [] \<Longrightarrow> wp kalloc (\<lambda>r t. r = 0 \<and> kalloc_ready t []) s"
  by (auto simp: kalloc_ready_def wp_def kalloc_exhausted kmem_ok_def)

lemma kfree_ready_push:
  "kalloc_ready s ps \<Longrightarrow> page_ok s p \<Longrightarrow> p \<notin> set ps \<Longrightarrow>
   wp (kfree p) (\<lambda>_ t. kalloc_ready t (p # ps) \<and> kend t = kend s) s"
  unfolding kalloc_ready_def
  by (elim conjE, frule (4) kfree_push, erule wp_mono)
    (auto simp: ready_same)

interpretation kpages: page_allocator kalloc kfree kalloc_ready page_ok
proof unfold_locales
  show "wp kalloc (\<lambda>r t. r = 0 \<and> kalloc_ready t []) s" if "kalloc_ready s []" for s :: "'a kmem_state_scheme"
    using that by (rule kalloc_ready_none)
  show "wp kalloc (\<lambda>r t. r = p \<and> p \<noteq> 0 \<and> page_ok t p \<and> kalloc_ready t ps) s"
    if "kalloc_ready s (p # ps)" for s :: "'a kmem_state_scheme" and p ps
    using that by (rule kalloc_ready_pop)
  show "wp (kfree p) (\<lambda>_ t. kalloc_ready t (p # ps)) s"
    if "kalloc_ready s ps" "page_ok s p" "p \<notin> set ps" for s :: "'a kmem_state_scheme" and p ps
    by (rule wp_mono [OF kfree_ready_push [OF that]]) simp
  show "distinct ps" if "kalloc_ready s ps" for s :: "'a kmem_state_scheme" and ps
    using that by (simp add: kalloc_ready_def kmem_ok_def)
qed

section \<open>Boot\<close>

lemma aligned_add: "aligned p \<Longrightarrow> unat p + 4096 < 18446744073709551616 \<Longrightarrow> aligned (p + PGSIZE)"
  using unat_add64 [of p PGSIZE] unfolding aligned_unat by (simp add: PGSIZE_def)

lemma aligned_gap:
  assumes "aligned p" "aligned q" "p < q"
  shows "unat p + 4096 \<le> unat q"
proof -
  obtain i j where "unat p = 4096 * i" "unat q = 4096 * j"
    using assms(1,2) unfolding aligned_unat by (metis mod_0_imp_dvd dvdE)
  with assms(3) show ?thesis by (auto simp: word_less_nat_alt)
qed

lemma aligned_PHYSTOP: "aligned PHYSTOP"
  unfolding aligned_unat by simp

lemma unat_next_page:
  assumes "p \<le> PHYSTOP"
  shows "unat p + 4096 < 18446744073709551616" "unat (p + PGSIZE) = unat p + 4096"
proof -
  show small: "unat p + 4096 < 18446744073709551616"
    using assms unfolding word_le_nat_alt by simp
  then show "unat (p + PGSIZE) = unat p + 4096"
    by (subst unat_add64) (simp_all add: PGSIZE_def)
qed

lemma page_ok_interval: "page_ok s q \<longleftrightarrow> aligned q \<and> kend s \<le> q \<and> q < PHYSTOP"
  by (simp add: page_ok_def)

text \<open>What the loop of \<open>freerange\<close> has done when it reaches page \<open>p\<close>: exactly the usable pages
  below \<open>p\<close> are free.\<close>

definition freed_below :: "'z kmem_state_scheme \<Rightarrow> uint64 \<Rightarrow> 'z kmem_state_scheme \<Rightarrow> bool" where
  "freed_below s p t \<longleftrightarrow> aligned p \<and> kend s \<le> p \<and> p \<le> PHYSTOP \<and> kend t = kend s
     \<and> (\<exists>ps. kalloc_ready t ps \<and> set ps = {q. page_ok s q \<and> q < p})"

lemma freed_below_start:
  assumes "kalloc_ready s []" "kend s \<le> PHYSTOP"
  shows "freed_below s (PGROUNDUP (kend s)) s"
proof -
  have up: "unat (PGROUNDUP (kend s)) = (unat (kend s) + 4095) div 4096 * 4096"
    using assms(2) by (subst unat_PGROUNDUP) (auto simp: word_le_nat_alt)
  have al: "aligned (PGROUNDUP (kend s))" unfolding aligned_unat up by simp
  have ge: "kend s \<le> PGROUNDUP (kend s)" unfolding word_le_nat_alt up by linarith
  have le: "PGROUNDUP (kend s) \<le> PHYSTOP"
    using assms(2) unfolding word_le_nat_alt up by simp
  have "{q. page_ok s q \<and> q < PGROUNDUP (kend s)} = {}"
  proof (intro equals0I, clarify)
    fix q assume q: "page_ok s q" "q < PGROUNDUP (kend s)"
    then have "unat q + 4096 \<le> unat (PGROUNDUP (kend s))"
      using al by (intro aligned_gap) (auto simp: page_ok_def)
    moreover have "unat (PGROUNDUP (kend s)) \<le> unat (kend s) + 4095"
      unfolding up by (rule div_times_less_eq_dividend)
    ultimately show False using q(1) by (simp add: page_ok_def word_le_nat_alt)
  qed
  with al ge le assms(1) show ?thesis unfolding freed_below_def by auto
qed

lemma freed_below_next:
  assumes "aligned p"
  shows "aligned q \<and> q < p + PGSIZE \<and> unat p + 4096 < 18446744073709551616 \<longleftrightarrow>
    aligned q \<and> (q < p \<or> q = p) \<and> unat p + 4096 < 18446744073709551616"
proof (cases "unat p + 4096 < 18446744073709551616 \<and> aligned q")
  case True
  then have next_p: "unat (p + PGSIZE) = unat p + 4096"
    by (subst unat_add64) (auto simp: PGSIZE_def)
  have "\<not> p < q" if "q < p + PGSIZE"
    using that True next_p aligned_gap [of p q] assms by (auto simp: word_less_nat_alt)
  moreover have "q < p + PGSIZE" if "q < p \<or> q = p"
    using that next_p by (auto simp: word_less_nat_alt)
  ultimately show ?thesis using True by force
qed auto

lemma freed_below_turn:
  assumes I: "freed_below s p t" and more: "p + PGSIZE \<le> PHYSTOP"
  shows "wp (kfree p) (\<lambda>_ t'. freed_below s (p + PGSIZE) t') t"
proof -
  obtain ps where ps: "kalloc_ready t ps" "set ps = {q. page_ok s q \<and> q < p}"
    using I unfolding freed_below_def by blast
  have p: "aligned p" "kend s \<le> p" "p \<le> PHYSTOP" "kend t = kend s"
    using I unfolding freed_below_def by blast+
  note next_p = unat_next_page [OF p(3)]
  have lt: "p < PHYSTOP" "kend s \<le> p + PGSIZE"
    using more p(2) next_p(2) unfolding word_le_nat_alt word_less_nat_alt by linarith+
  have ok: "page_ok t p" "p \<notin> set ps" "page_ok s p"
    using p ps(2) lt by (simp_all add: page_ok_def del: PHYSTOP_def)
  have set': "set (p # ps) = {q. page_ok s q \<and> q < p + PGSIZE}"
  proof -
    have "page_ok s q \<and> q < p + PGSIZE \<longleftrightarrow> page_ok s q \<and> (q < p \<or> q = p)" for q
      using freed_below_next [OF p(1), of q] next_p(1) unfolding page_ok_def by blast
    with ok(3) ps(2) show ?thesis by auto
  qed
  have "freed_below s (p + PGSIZE) t'" if "kalloc_ready t' (p # ps)" "kend t' = kend t" for t'
    unfolding freed_below_def
    using that aligned_add [OF p(1) next_p(1)] lt(2) more set' p(4) by metis
  then show ?thesis
    by (intro wp_mono [OF kfree_ready_push [OF ps(1) ok(1,2)]]) blast
qed

lemma freed_below_end:
  assumes "freed_below s p t" "\<not> p + PGSIZE \<le> PHYSTOP"
  shows "p = PHYSTOP"
proof (rule ccontr)
  have p: "aligned p" "p \<le> PHYSTOP"
    using assms(1) unfolding freed_below_def by blast+
  assume "p \<noteq> PHYSTOP"
  with p(2) have "p < PHYSTOP" by (rule le_neq_trans)
  then have "unat p + 4096 \<le> unat PHYSTOP"
    by (rule aligned_gap [OF p(1) aligned_PHYSTOP])
  with assms(2) unat_next_page(2) [OF p(2)] show False
    unfolding word_le_nat_alt by linarith
qed

lemma freerange_wp:
  assumes "kalloc_ready s []" "kend s \<le> PHYSTOP"
  shows "wp (freerange (kend s) PHYSTOP) (\<lambda>_ t. freed_below s PHYSTOP t) s"
  unfolding freerange_def
proof (rule wp_loopM [where I = "freed_below s" and \<mu> = "\<lambda>p t. unat PHYSTOP - unat p"])
  show "freed_below s (PGROUNDUP (kend s)) s" using assms by (rule freed_below_start)
  fix p and t :: "'a kmem_state_scheme"
  assume I: "freed_below s p t"
  show "wp (if p + PGSIZE \<le> PHYSTOP then seq (kfree p) (ret (Inl (p + PGSIZE))) else ret (Inr ()))
    (\<lambda>r t'. case r of Inl y \<Rightarrow> freed_below s y t' \<and> unat PHYSTOP - unat y < unat PHYSTOP - unat p
       | Inr v \<Rightarrow> freed_below s PHYSTOP t') t"
  proof (cases "p + PGSIZE \<le> PHYSTOP")
    case True
    have "p \<le> PHYSTOP" using I unfolding freed_below_def by blast
    from unat_next_page(2) [OF this]
    have "unat PHYSTOP - unat (p + PGSIZE) < unat PHYSTOP - unat p"
      using True unfolding word_le_nat_alt by linarith
    with True freed_below_turn [OF I True] show ?thesis
      by (simp add: wp_seq wp_ret)
  next
    case False
    with I freed_below_end [OF I False] show ?thesis by (simp add: wp_ret)
  qed
qed

text \<open>At boot the free list is empty (\<open>kmem\<close> is in the zeroed data segment).\<close>

definition kmem_boot :: "'z kmem_state_scheme \<Rightarrow> bool" where
  "kmem_boot s \<longleftrightarrow> freelist s = 0 \<and> 0 < kend s \<and> kend s \<le> PHYSTOP \<and> intr_ok s"

lemma kinit_wp:
  assumes "kmem_boot s"
  shows "wp kinit (\<lambda>_ t. \<exists>ps. kalloc_ready t ps \<and> set ps = {q. page_ok s q} \<and> kend t = kend s) s"
proof -
  let ?s = "lock_write KmemLock (\<lambda>l. l\<lparr>lk_name := ''kmem'', locked := False, lk_cpu := None\<rparr>) s"
  have kend: "kend ?s = kend s" by (simp add: lock_write_def)
  have "kalloc_ready ?s []" "kend ?s \<le> PHYSTOP"
    using assms
    by (auto simp: kmem_boot_def kalloc_ready_def kmem_ok_def lock_write_def lock_idle_def intr_ok_def
        mycpu_def intr_get_def)
  from freerange_wp [OF this] have
    "wp (freerange (kend ?s) PHYSTOP) (\<lambda>_ t. \<exists>ps. kalloc_ready t ps \<and> set ps = {q. page_ok s q} \<and> kend t = kend s) ?s"
    by (rule wp_mono) (auto simp: freed_below_def kend page_ok_def)
  then show ?thesis
    by (simp add: kinit_def wp_seq wp_bind wp_gets initlock_def wp_modify kend)
qed

section \<open>Properties\<close>

text \<open>A machine whose kernel image ends three pages below the top of memory.\<close>

definition kmem0 :: "'z \<Rightarrow> 'z kmem_state_scheme" where
  "kmem0 z = hart0 \<lparr>mem = (\<lambda>_. 0), kend = PHYSTOP - 3 * PGSIZE, freelist = 0, \<dots> = z\<rparr>"

lemma kmem0_boot: "kmem_boot (kmem0 z)"
  by (simp add: kmem_boot_def kmem0_def PGSIZE_def, simp add: hart0_def)

text \<open>At boot, \<open>kinit\<close> terminates without a panic and leaves a well-formed free list that holds
  exactly the page-aligned addresses from the end of the kernel image up to \<open>PHYSTOP\<close>, each once.\<close>

theorem kinit_frees_all:
  assumes "kmem_boot s"
  shows "wp kinit (\<lambda>_ t. \<exists>ps. kalloc_ready t ps \<and> distinct ps \<and> set ps = {q. page_ok s q}) s"
  by (rule wp_mono [OF kinit_wp [OF assms]]) (auto dest: kpages.ok_distinct)

theorem kinit_frees_all_witness:
  "wp kinit (\<lambda>_ t. \<exists>ps. kalloc_ready t ps \<and> distinct ps \<and> set ps = {q. page_ok (kmem0 ()) q}) (kmem0 ())"
  by (rule kinit_frees_all [OF kmem0_boot])

text \<open>C7: \<open>kalloc\<close> refines popping a list: with free pages \<open>p # ps\<close> it returns \<open>p\<close>, fills exactly that page
  with the byte 5 and leaves the free pages \<open>ps\<close>; with no free page it returns 0 and keeps memory.\<close>

theorem kalloc_refines_pop:
  assumes "kalloc_ready s ps"
  shows "wp kalloc (\<lambda>r t. kalloc_ready t (tl ps) \<and> r = (case ps of [] \<Rightarrow> 0 | p # _ \<Rightarrow> p) \<and> (r = 0 \<longleftrightarrow> ps = [])
     \<and> (\<forall>a. mem t a = (if r \<noteq> 0 \<and> in_page a r then 5 else mem s a))) s"
proof (cases ps)
  case Nil
  with assms show ?thesis
    by (simp add: kalloc_ready_def wp_def kalloc_exhausted kmem_ok_def)
next
  case (Cons p qs)
  with assms have "kmem_ok s (p # qs)" "lock_idle KmemLock s" "intr_ok s"
    by (simp_all add: kalloc_ready_def)
  from wp_conj [OF kalloc_pop [OF this] kalloc_ready_pop [of s p qs]] assms Cons show ?thesis
    by (auto elim!: wp_mono)
qed

lemma kinit_free_pages: "\<exists>t ps. kinit (kmem0 ()) = Ok () t \<and> kalloc_ready t ps \<and> set ps = {q. page_ok (kmem0 ()) q}"
  using kinit_wp [OF kmem0_boot, of "()"] by (auto simp: wp_iff)

theorem kalloc_refines_pop_witness:
  "\<exists>t u r. kinit (kmem0 ()) = Ok () t \<and> kalloc t = Ok r u \<and> page_ok (kmem0 ()) r \<and> mem u r = 5"
proof -
  obtain t ps where t: "kinit (kmem0 ()) = Ok () t" "kalloc_ready t ps" "set ps = {q. page_ok (kmem0 ()) q}"
    using kinit_free_pages by blast
  have "page_ok (kmem0 ()) (PHYSTOP - PGSIZE)"
    by (simp add: page_ok_def aligned_def PGSIZE_def kmem0_def hart0_def)
  then obtain p qs where ps: "ps = p # qs" using t(3) by (cases ps) auto
  then have "page_ok (kmem0 ()) p" using t(3) by auto
  with t(1) ps kalloc_refines_pop [OF t(2)] show ?thesis by (auto simp: wp_iff)
qed

text \<open>C8: \<open>kfree\<close> on every branch: an unaligned address, one inside the kernel image or one past the end of
  memory panics; a usable page that is not free becomes the first free page, and no byte outside
  that page changes. Freeing a page and allocating again gives the same page back.\<close>

theorem kfree_refines_push:
  assumes "kalloc_ready s ps" "p \<notin> set ps"
  shows "if page_ok s p
    then wp (kfree p) (\<lambda>_ t. kalloc_ready t (p # ps) \<and> (\<forall>a. \<not> in_page a p \<longrightarrow> mem t a = mem s a)) s
       \<and> wp (seq (kfree p) kalloc) (\<lambda>r t. r = p \<and> kalloc_ready t ps) s
    else kfree p s = Panic ''kfree''"
proof (cases "page_ok s p")
  case True
  have "wp (kfree p) (\<lambda>_ t. kalloc_ready t (p # ps) \<and> (\<forall>a. \<not> in_page a p \<longrightarrow> mem t a = mem s a)) s"
    using wp_conj [OF kfree_ready_push [OF assms(1) True assms(2)] kfree_push [of s ps p]] assms True
    by (auto simp: kalloc_ready_def elim!: wp_mono)
  with True kpages.free_alloc [OF assms(1) True assms(2)] show ?thesis by simp
qed (simp add: kfree_bad)

theorem kfree_refines_push_witness:
  "wp (kfree (PHYSTOP - PGSIZE)) (\<lambda>_ t. kalloc_ready t [PHYSTOP - PGSIZE]) (kmem0 ())
   \<and> kfree (PHYSTOP - PGSIZE + 1) (kmem0 ()) = Panic ''kfree''"
proof -
  have r: "kalloc_ready (kmem0 ()) []"
    by (simp add: kalloc_ready_def kmem_ok_def kmem0_def PGSIZE_def, simp add: hart0_def)
  have "page_ok (kmem0 ()) (PHYSTOP - PGSIZE)" "\<not> page_ok (kmem0 ()) (PHYSTOP - PGSIZE + 1)"
    by (simp_all add: page_ok_def aligned_def PGSIZE_def kmem0_def hart0_def)
  with kfree_refines_push [OF r, of "PHYSTOP - PGSIZE"] kfree_refines_push [OF r, of "PHYSTOP - PGSIZE + 1"]
  show ?thesis by (auto elim!: wp_mono)
qed

end
