(* ===== verification/Vm.thy ===== *)
theory Vm
  imports Kalloc
begin

text \<open>
  \<open>kernel/vm.c\<close>: Sv39 page tables kept in physical memory, and the routines that copy between
  kernel and user memory through them. A page table is the physical address of its root page;
  the kernel runs direct-mapped, so a kernel pointer into allocated memory is a physical address.

  A kernel buffer that a copy routine is given is either such an address (\<open>KAddr\<close>) or an object of
  the kernel image or of the kernel stack, which is modelled by its contents (\<open>KObj\<close>). The two
  routines that fill a kernel buffer, \<open>copyin\<close> and \<open>copyinstr\<close>, return the bytes they stored, also
  when they fail half-way.

  The lemmas show that the page-at-a-time loops are equivalent to reading user memory one byte at a
  time, and that a mapping made by \<open>mappages\<close> is what \<open>walkaddr\<close> finds.
\<close>

record vm_state = kmem_state +
  kernel_pagetable :: uint64
  etext :: uint64
  trampoline :: uint64

datatype kptr = KAddr uint64 | KObj "byte list"

section \<open>Operations\<close>

definition pte_at :: "uint64 \<Rightarrow> nat \<Rightarrow> uint64 \<Rightarrow> uint64" where
  "pte_at pagetable level va = pagetable + 8 * PX level va"

primrec walk_level :: "nat \<Rightarrow> uint64 \<Rightarrow> uint64 \<Rightarrow> bool \<Rightarrow> ('z kmem_state_scheme, uint64) prog" where
  "walk_level 0 pagetable va alloc = ret (pte_at pagetable 0 va)"
| "walk_level (Suc l) pagetable va alloc =
     (let pte = pte_at pagetable (Suc l) va in
      bind (gets (\<lambda>s. load64 (mem s) pte)) (\<lambda>e.
      if e AND PTE_V \<noteq> 0 then walk_level l (PTE2PA e) va alloc
      else if \<not> alloc then ret 0
      else bind kalloc (\<lambda>pg.
        if pg = 0 then ret 0
        else seq (modify (\<lambda>s. s\<lparr>mem := memset (mem s) pg 0 (ucast PGSIZE)\<rparr>))
            (seq (modify (\<lambda>s. s\<lparr>mem := store64 (mem s) pte (PA2PTE pg OR PTE_V)\<rparr>))
                 (walk_level l pg va alloc)))))"

definition walk :: "uint64 \<Rightarrow> uint64 \<Rightarrow> bool \<Rightarrow> ('z kmem_state_scheme, uint64) prog" where
  "walk pagetable va alloc =
     seq (whenM (va \<ge> MAXVA) (panic ''walk'')) (walk_level 2 pagetable va alloc)"

definition walkaddr :: "uint64 \<Rightarrow> uint64 \<Rightarrow> ('z kmem_state_scheme, uint64) prog" where
  "walkaddr pagetable va =
     (if va \<ge> MAXVA then ret 0
      else bind (walk pagetable va False) (\<lambda>pte.
        if pte = 0 then ret 0
        else bind (gets (\<lambda>s. load64 (mem s) pte)) (\<lambda>e.
          if e AND PTE_V = 0 then ret 0
          else if e AND PTE_U = 0 then ret 0
          else ret (PTE2PA e))))"

definition mappages :: "uint64 \<Rightarrow> uint64 \<Rightarrow> uint64 \<Rightarrow> uint64 \<Rightarrow> uint64 \<Rightarrow> ('z kmem_state_scheme, int) prog" where
  "mappages pagetable va sz pa perm =
     seq (whenM (sz = 0) (panic ''mappages: size''))
    (let last = PGROUNDDOWN (va + sz - 1) in
     loopM (\<lambda>(a, pa).
       bind (walk pagetable a True) (\<lambda>pte.
       if pte = 0 then ret (Inr (-1))
       else bind (gets (\<lambda>s. load64 (mem s) pte)) (\<lambda>e.
         seq (whenM (e AND PTE_V \<noteq> 0) (panic ''mappages: remap''))
        (seq (modify (\<lambda>s. s\<lparr>mem := store64 (mem s) pte (PA2PTE pa OR perm OR PTE_V)\<rparr>))
             (ret (if a = last then Inr 0 else Inl (a + PGSIZE, pa + PGSIZE)))))))
       (PGROUNDDOWN va, pa))"

definition kvmmap :: "uint64 \<Rightarrow> uint64 \<Rightarrow> uint64 \<Rightarrow> uint64 \<Rightarrow> uint64 \<Rightarrow> ('z kmem_state_scheme, unit) prog" where
  "kvmmap kpgtbl va pa sz perm =
     bind (mappages kpgtbl va sz pa perm) (\<lambda>r. whenM (r \<noteq> 0) (panic ''kvmmap''))"

definition proc_mapstacks :: "uint64 \<Rightarrow> ('z kmem_state_scheme, unit) prog" where
  "proc_mapstacks kpgtbl =
     forM [0..<NPROC] (\<lambda>i.
       bind kalloc (\<lambda>pa.
       seq (whenM (pa = 0) (panic ''kalloc''))
           (kvmmap kpgtbl (KSTACK i) pa PGSIZE (PTE_R OR PTE_W))))"

definition kvmmake :: "('z vm_state_scheme, uint64) prog" where
  "kvmmake =
     bind kalloc (\<lambda>kpgtbl.
     bind (gets etext) (\<lambda>et.
     bind (gets trampoline) (\<lambda>tr.
     seq (block
       [modify (\<lambda>s. s\<lparr>mem := memset (mem s) kpgtbl 0 (ucast PGSIZE)\<rparr>),
        kvmmap kpgtbl UART0 UART0 PGSIZE (PTE_R OR PTE_W),
        kvmmap kpgtbl VIRTIO0 VIRTIO0 PGSIZE (PTE_R OR PTE_W),
        kvmmap kpgtbl PLIC PLIC 0x400000 (PTE_R OR PTE_W),
        kvmmap kpgtbl KERNBASE KERNBASE (et - KERNBASE) (PTE_R OR PTE_X),
        kvmmap kpgtbl et et (PHYSTOP - et) (PTE_R OR PTE_W),
        kvmmap kpgtbl TRAMPOLINE tr PGSIZE (PTE_R OR PTE_X),
        proc_mapstacks kpgtbl])
      (ret kpgtbl))))"

definition kvminit :: "('z vm_state_scheme, unit) prog" where
  "kvminit = bind kvmmake (\<lambda>pt. modify (\<lambda>s. s\<lparr>kernel_pagetable := pt\<rparr>))"

definition kvminithart :: "('z vm_state_scheme, unit) prog" where
  "kvminithart = modify (\<lambda>s. s\<lparr>satp := MAKE_SATP (kernel_pagetable s)\<rparr>)"

definition uvmunmap :: "uint64 \<Rightarrow> uint64 \<Rightarrow> uint64 \<Rightarrow> bool \<Rightarrow> ('z kmem_state_scheme, unit) prog" where
  "uvmunmap pagetable va npages do_free =
     seq (whenM (\<not> aligned va) (panic ''uvmunmap: not aligned''))
    (loopM (\<lambda>a.
       if a < va + npages * PGSIZE then
         bind (walk pagetable a False) (\<lambda>pte.
         seq (whenM (pte = 0) (panic ''uvmunmap: walk''))
        (bind (gets (\<lambda>s. load64 (mem s) pte)) (\<lambda>e.
         seq (whenM (e AND PTE_V = 0) (panic ''uvmunmap: not mapped''))
        (seq (whenM (PTE_FLAGS e = PTE_V) (panic ''uvmunmap: not a leaf''))
        (seq (whenM do_free (kfree (PTE2PA e)))
        (seq (modify (\<lambda>s. s\<lparr>mem := store64 (mem s) pte 0\<rparr>))
             (ret (Inl (a + PGSIZE)))))))))
       else ret (Inr ())) va)"

definition uvmcreate :: "('z kmem_state_scheme, uint64) prog" where
  "uvmcreate =
     bind kalloc (\<lambda>pagetable.
     if pagetable = 0 then ret 0
     else seq (modify (\<lambda>s. s\<lparr>mem := memset (mem s) pagetable 0 (ucast PGSIZE)\<rparr>)) (ret pagetable))"

text \<open>Storing the first \<open>n\<close> bytes of a kernel buffer at \<open>dst\<close>, and moving the buffer pointer on.\<close>

primrec poke :: "mem \<Rightarrow> uint64 \<Rightarrow> byte list \<Rightarrow> mem" where
  "poke m a [] = m"
| "poke m a (b # bs) = poke (m(a := b)) (a + 1) bs"

definition peek :: "mem \<Rightarrow> uint64 \<Rightarrow> nat \<Rightarrow> byte list" where
  "peek m a n = map (\<lambda>i. m (a + word_of_nat i)) [0..<n]"

fun kmove :: "mem \<Rightarrow> uint64 \<Rightarrow> kptr \<Rightarrow> uint \<Rightarrow> mem" where
  "kmove m dst (KAddr src) n = memmove m dst src n"
| "kmove m dst (KObj bs) n = poke m dst (take (unat n) bs)"

fun kadvance :: "kptr \<Rightarrow> uint64 \<Rightarrow> kptr" where
  "kadvance (KAddr src) n = KAddr (src + n)"
| "kadvance (KObj bs) n = KObj (drop (unat n) bs)"

definition uvminit :: "uint64 \<Rightarrow> kptr \<Rightarrow> uint \<Rightarrow> ('z kmem_state_scheme, unit) prog" where
  "uvminit pagetable src sz =
     seq (whenM (sz \<ge> ucast PGSIZE) (panic ''inituvm: more than a page''))
    (bind kalloc (\<lambda>pg.
     seq (modify (\<lambda>s. s\<lparr>mem := memset (mem s) pg 0 (ucast PGSIZE)\<rparr>))
    (seq (mappages pagetable 0 PGSIZE pg (PTE_W OR PTE_R OR PTE_X OR PTE_U))
         (modify (\<lambda>s. s\<lparr>mem := kmove (mem s) pg src sz\<rparr>)))))"

text \<open>The page count of \<open>uvmdealloc\<close> passes through an \<open>int\<close>.\<close>

definition uvmdealloc :: "uint64 \<Rightarrow> uint64 \<Rightarrow> uint64 \<Rightarrow> ('z kmem_state_scheme, uint64) prog" where
  "uvmdealloc pagetable oldsz newsz =
     (if newsz \<ge> oldsz then ret oldsz
      else seq (whenM (PGROUNDUP newsz < PGROUNDUP oldsz)
                 (uvmunmap pagetable (PGROUNDUP newsz)
                   (scast (ucast ((PGROUNDUP oldsz - PGROUNDUP newsz) div PGSIZE) :: uint)) True))
               (ret newsz))"

definition uvmalloc :: "uint64 \<Rightarrow> uint64 \<Rightarrow> uint64 \<Rightarrow> ('z kmem_state_scheme, uint64) prog" where
  "uvmalloc pagetable oldsz newsz =
     (if newsz < oldsz then ret oldsz
      else let oldsz = PGROUNDUP oldsz in
      loopM (\<lambda>a.
        if a < newsz then
          bind kalloc (\<lambda>pg.
          if pg = 0 then seq (uvmdealloc pagetable a oldsz) (ret (Inr 0))
          else seq (modify (\<lambda>s. s\<lparr>mem := memset (mem s) pg 0 (ucast PGSIZE)\<rparr>))
              (bind (mappages pagetable a PGSIZE pg (PTE_W OR PTE_X OR PTE_R OR PTE_U)) (\<lambda>r.
               if r \<noteq> 0 then seq (kfree pg) (seq (uvmdealloc pagetable a oldsz) (ret (Inr 0)))
               else ret (Inl (a + PGSIZE)))))
        else ret (Inr newsz)) oldsz)"

text \<open>\<open>freewalk\<close> calls itself on every lower-level table. The first argument bounds the depth of the
  recursion: a chain of tables longer than the number of pages of memory comes back to a page it
  started from, and the C code then never returns.\<close>

primrec freewalk_depth :: "nat \<Rightarrow> uint64 \<Rightarrow> ('z kmem_state_scheme, unit) prog" where
  "freewalk_depth 0 pagetable = hang"
| "freewalk_depth (Suc d) pagetable =
     seq (forM [0..<512] (\<lambda>i.
       let slot = pagetable + 8 * word_of_nat i in
       bind (gets (\<lambda>s. load64 (mem s) slot)) (\<lambda>pte.
       if pte AND PTE_V \<noteq> 0 \<and> pte AND (PTE_R OR PTE_W OR PTE_X) = 0 then
         seq (freewalk_depth d (PTE2PA pte)) (modify (\<lambda>s. s\<lparr>mem := store64 (mem s) slot 0\<rparr>))
       else whenM (pte AND PTE_V \<noteq> 0) (panic ''freewalk: leaf''))))
     (kfree pagetable)"

definition freewalk :: "uint64 \<Rightarrow> ('z kmem_state_scheme, unit) prog" where
  "freewalk = freewalk_depth 32769"

definition uvmfree :: "uint64 \<Rightarrow> uint64 \<Rightarrow> ('z kmem_state_scheme, unit) prog" where
  "uvmfree pagetable sz =
     seq (whenM (sz > 0) (uvmunmap pagetable 0 (PGROUNDUP sz div PGSIZE) True)) (freewalk pagetable)"

definition uvmcopy :: "uint64 \<Rightarrow> uint64 \<Rightarrow> uint64 \<Rightarrow> ('z kmem_state_scheme, int) prog" where
  "uvmcopy old new sz =
     (let err = (\<lambda>i. seq (uvmunmap new 0 (i div PGSIZE) True) (ret (Inr (-1)))) in
      loopM (\<lambda>i.
        if i < sz then
          bind (walk old i False) (\<lambda>pte.
          seq (whenM (pte = 0) (panic ''uvmcopy: pte should exist''))
         (bind (gets (\<lambda>s. load64 (mem s) pte)) (\<lambda>e.
          seq (whenM (e AND PTE_V = 0) (panic ''uvmcopy: page not present''))
         (bind kalloc (\<lambda>pg.
          if pg = 0 then err i
          else seq (modify (\<lambda>s. s\<lparr>mem := memmove (mem s) pg (PTE2PA e) (ucast PGSIZE)\<rparr>))
              (bind (mappages new i PGSIZE pg (PTE_FLAGS e)) (\<lambda>r.
               if r \<noteq> 0 then seq (kfree pg) (err i) else ret (Inl (i + PGSIZE)))))))))
        else ret (Inr 0)) 0)"

definition uvmclear :: "uint64 \<Rightarrow> uint64 \<Rightarrow> ('z kmem_state_scheme, unit) prog" where
  "uvmclear pagetable va =
     bind (walk pagetable va False) (\<lambda>pte.
     seq (whenM (pte = 0) (panic ''uvmclear''))
         (modify (\<lambda>s. s\<lparr>mem := store64 (mem s) pte (load64 (mem s) pte AND NOT PTE_U)\<rparr>)))"

text \<open>How much of the page at \<open>va\<close> is copied in one turn of the three copying loops.\<close>

definition chunk :: "uint64 \<Rightarrow> uint64 \<Rightarrow> uint64" where
  "chunk va len = (let n = PGSIZE - (va - PGROUNDDOWN va) in if n > len then len else n)"

definition copyout :: "uint64 \<Rightarrow> uint64 \<Rightarrow> kptr \<Rightarrow> uint64 \<Rightarrow> ('z kmem_state_scheme, int) prog" where
  "copyout pagetable dstva src len =
     loopM (\<lambda>(dstva, src, len).
       if len > 0 then
         let va0 = PGROUNDDOWN dstva in
         bind (walkaddr pagetable va0) (\<lambda>pa0.
         if pa0 = 0 then ret (Inr (-1))
         else let n = chunk dstva len in
           seq (modify (\<lambda>s. s\<lparr>mem := kmove (mem s) (pa0 + (dstva - va0)) src (ucast n)\<rparr>))
               (ret (Inl (va0 + PGSIZE, kadvance src n, len - n))))
       else ret (Inr 0)) (dstva, src, len)"

definition copyin :: "uint64 \<Rightarrow> uint64 \<Rightarrow> uint64 \<Rightarrow> ('z kmem_state_scheme, int \<times> byte list) prog" where
  "copyin pagetable srcva len =
     loopM (\<lambda>(dst, srcva, len).
       if len > 0 then
         let va0 = PGROUNDDOWN srcva in
         bind (walkaddr pagetable va0) (\<lambda>pa0.
         if pa0 = 0 then ret (Inr (-1, dst))
         else let n = chunk srcva len in
           bind (gets (\<lambda>s. peek (mem s) (pa0 + (srcva - va0)) (unat n))) (\<lambda>bs.
           ret (Inl (dst @ bs, va0 + PGSIZE, len - n))))
       else ret (Inr (0, dst))) ([], srcva, len)"

text \<open>The inner loop of \<open>copyinstr\<close>: it stores up to \<open>n\<close> bytes from \<open>p\<close>, and tells whether it met (and
  stored) the NUL; the NUL itself is not counted off \<open>max\<close>.\<close>

primrec copy_until_nul :: "nat \<Rightarrow> mem \<Rightarrow> uint64 \<Rightarrow> bool \<times> byte list" where
  "copy_until_nul 0 m p = (False, [])"
| "copy_until_nul (Suc n) m p =
     (if m p = 0 then (True, [0])
      else let (got_null, bs) = copy_until_nul n m (p + 1) in (got_null, m p # bs))"

definition copyinstr :: "uint64 \<Rightarrow> uint64 \<Rightarrow> uint64 \<Rightarrow> ('z kmem_state_scheme, int \<times> byte list) prog" where
  "copyinstr pagetable srcva mx =
     loopM (\<lambda>(dst, srcva, mx, got_null).
       if \<not> got_null \<and> mx > 0 then
         let va0 = PGROUNDDOWN srcva in
         bind (walkaddr pagetable va0) (\<lambda>pa0.
         if pa0 = 0 then ret (Inr (-1, dst))
         else bind (gets (\<lambda>s. copy_until_nul (unat (chunk srcva mx)) (mem s) (pa0 + (srcva - va0)))) (\<lambda>(g, bs).
           ret (Inl (dst @ bs, va0 + PGSIZE, mx - word_of_nat (if g then length bs - 1 else length bs), g))))
       else ret (Inr (if got_null then 0 else -1, dst))) ([], srcva, mx, False)"

section \<open>Looking up a mapping\<close>

text \<open>The pure lookup: the leaf entry's address, or 0 when a table on the way is missing.\<close>

primrec find_pte :: "nat \<Rightarrow> mem \<Rightarrow> uint64 \<Rightarrow> uint64 \<Rightarrow> uint64" where
  "find_pte 0 m pagetable va = pte_at pagetable 0 va"
| "find_pte (Suc l) m pagetable va =
     (let e = load64 m (pte_at pagetable (Suc l) va) in
      if e AND PTE_V \<noteq> 0 then find_pte l m (PTE2PA e) va else 0)"

definition user_page :: "mem \<Rightarrow> uint64 \<Rightarrow> uint64 \<Rightarrow> uint64" where
  "user_page m pagetable va =
     (if va \<ge> MAXVA then 0
      else let pte = find_pte 2 m pagetable va; e = load64 m pte in
        if pte = 0 \<or> e AND PTE_V = 0 \<or> e AND PTE_U = 0 then 0 else PTE2PA e)"

text \<open>The byte of user memory at \<open>va\<close>, if there is one.\<close>

definition user_byte :: "mem \<Rightarrow> uint64 \<Rightarrow> uint64 \<Rightarrow> byte option" where
  "user_byte m pagetable va =
     (let pa0 = user_page m pagetable (PGROUNDDOWN va) in
      if pa0 = 0 then None else Some (m (pa0 + (va - PGROUNDDOWN va))))"

lemma walk_level_find: "walk_level l pt va False = gets (\<lambda>s. find_pte l (mem s) pt va)"
  by (induction l arbitrary: pt) (auto simp: fun_eq_iff ret_def gets_def bind_def Let_def)

lemma walk_find: "va < MAXVA \<Longrightarrow> walk pt va False = gets (\<lambda>s. find_pte 2 (mem s) pt va)"
  by (simp add: walk_def walk_level_find whenM_def seq_def not_le [THEN iffD2, THEN eq_False [THEN iffD2]]
      del: MAXVA_def)

lemma walkaddr_user_page: "walkaddr pt va = gets (\<lambda>s. user_page (mem s) pt va)"
proof (cases "va < MAXVA")
  case True
  then have "\<not> va \<ge> MAXVA" by (simp only: not_le)
  with True show ?thesis
    unfolding walkaddr_def user_page_def walk_find [OF True]
    by (auto simp: fun_eq_iff bind_def gets_def ret_def Let_def simp del: MAXVA_def)
next
  case False
  then have "va \<ge> MAXVA" by (simp only: not_less)
  then show ?thesis
    unfolding walkaddr_def user_page_def by (simp add: fun_eq_iff gets_def ret_def del: MAXVA_def)
qed

section \<open>Copying in is reading byte by byte\<close>

primrec read_user :: "nat \<Rightarrow> mem \<Rightarrow> uint64 \<Rightarrow> uint64 \<Rightarrow> int \<times> byte list" where
  "read_user 0 m pt va = (0, [])"
| "read_user (Suc n) m pt va =
     (case user_byte m pt va of None \<Rightarrow> (-1, [])
      | Some b \<Rightarrow> (let (r, bs) = read_user n m pt (va + 1) in (r, b # bs)))"

primrec read_user_str :: "nat \<Rightarrow> mem \<Rightarrow> uint64 \<Rightarrow> uint64 \<Rightarrow> int \<times> byte list" where
  "read_user_str 0 m pt va = (-1, [])"
| "read_user_str (Suc n) m pt va =
     (case user_byte m pt va of None \<Rightarrow> (-1, [])
      | Some b \<Rightarrow> if b = 0 then (0, [0])
          else (let (r, bs) = read_user_str n m pt (va + 1) in (r, b # bs)))"

lemma page_offset: "unat (va - PGROUNDDOWN va) = unat va mod 4096"
  using unat_diff64 [OF PGROUNDDOWN_le, of va]
  by (simp add: unat_PGROUNDDOWN minus_div_mult_eq_mod)

text \<open>All addresses that differ only in the page offset share their page.\<close>

lemma page_same:
  assumes "unat va mod 4096 + i < 4096"
  shows "PGROUNDDOWN (va + word_of_nat i) = PGROUNDDOWN va"
    and "(va + word_of_nat i) - PGROUNDDOWN va = (va - PGROUNDDOWN va) + word_of_nat i"
proof -
  obtain q r where q: "unat va = 4096 * q + r" "r = unat va mod 4096" "r + i < 4096"
    using assms mult_div_mod_eq [of 4096 "unat va"] by metis
  then have "q < 4503599627370496" using unat_less64 [of va] by linarith
  then have "unat va + i < 18446744073709551616" using q by linarith
  then have "unat (va + word_of_nat i) = unat va + i"
    by (subst unat_add64) (simp_all add: unat_word_of_nat64)
  moreover have "(unat va + i) div 4096 = q" "unat va div 4096 = q"
    using q unfolding div_4096_iff by linarith+
  ultimately show "PGROUNDDOWN (va + word_of_nat i) = PGROUNDDOWN va"
    by (intro word_unat_eq_iff [THEN iffD2]) (simp add: unat_PGROUNDDOWN)
qed (simp add: algebra_simps)

lemma chunk_unat:
  "unat (chunk va len) = min (unat len) (4096 - unat va mod 4096)"
proof -
  have le: "va - PGROUNDDOWN va \<le> PGSIZE"
    unfolding word_le_nat_alt page_offset by (simp add: PGSIZE_def)
  have "unat (PGSIZE - (va - PGROUNDDOWN va)) = 4096 - unat va mod 4096"
    unfolding unat_diff64 [OF le] page_offset by (simp add: PGSIZE_def)
  then show ?thesis
    by (auto simp: chunk_def Let_def word_less_nat_alt)
qed

lemma user_byte_in_page:
  assumes "user_page m pt (PGROUNDDOWN va) = pa0" "pa0 \<noteq> 0" "unat va mod 4096 + i < 4096"
  shows "user_byte m pt (va + word_of_nat i) = Some (m (pa0 + (va - PGROUNDDOWN va) + word_of_nat i))"
  using assms(1,2) by (simp add: user_byte_def page_same [OF assms(3)] add.assoc)

lemma user_byte_no_page:
  "user_page m pt (PGROUNDDOWN va) = 0 \<Longrightarrow> user_byte m pt va = None"
  by (simp add: user_byte_def)

lemma word_add_Suc: "(a :: uint64) + word_of_nat (Suc i) = a + 1 + word_of_nat i"
  by (simp add: algebra_simps)

lemma peek_0 [simp]: "peek m a 0 = []"
  by (simp add: peek_def)

lemma peek_Suc: "peek m a (Suc n) = m a # peek m (a + 1) n"
  by (simp add: peek_def upt_conv_Cons map_Suc_upt [symmetric] word_add_Suc del: upt_Suc of_nat_Suc)

lemma length_peek [simp]: "length (peek m a n) = n"
  by (simp add: peek_def)

lemma read_user_chunk:
  "(\<And>i. i < k \<Longrightarrow> user_byte m pt (va + word_of_nat i) = Some (m (pa + word_of_nat i))) \<Longrightarrow>
   read_user (k + n) m pt va =
     (let (r, bs) = read_user n m pt (va + word_of_nat k) in (r, peek m pa k @ bs))"
proof (induction k arbitrary: va pa)
  case (Suc k)
  have "user_byte m pt va = Some (m pa)" using Suc.prems [of 0] by simp
  moreover have "user_byte m pt (va + 1 + word_of_nat i) = Some (m (pa + 1 + word_of_nat i))" if "i < k" for i
    using Suc.prems [of "Suc i"] that by (simp add: word_add_Suc del: of_nat_Suc)
  ultimately show ?case
    using Suc.IH [of "va + 1" "pa + 1"] by (simp add: peek_Suc word_add_Suc split_beta Let_def del: of_nat_Suc)
qed simp

lemma read_user_str_chunk:
  "(\<And>i. i < k \<Longrightarrow> user_byte m pt (va + word_of_nat i) = Some (m (pa + word_of_nat i))) \<Longrightarrow>
   read_user_str (k + n) m pt va =
     (let (g, cs) = copy_until_nul k m pa in
      if g then (0, cs) else let (r, bs) = read_user_str n m pt (va + word_of_nat k) in (r, cs @ bs))"
proof (induction k arbitrary: va pa)
  case (Suc k)
  have "user_byte m pt va = Some (m pa)" using Suc.prems [of 0] by simp
  moreover have "user_byte m pt (va + 1 + word_of_nat i) = Some (m (pa + 1 + word_of_nat i))" if "i < k" for i
    using Suc.prems [of "Suc i"] that by (simp add: word_add_Suc del: of_nat_Suc)
  ultimately show ?case
    using Suc.IH [of "va + 1" "pa + 1"] by (simp add: word_add_Suc split_beta Let_def del: of_nat_Suc)
qed simp

lemma copy_until_nul_length: "copy_until_nul k m p = (False, cs) \<Longrightarrow> length cs = k"
  by (induction k arbitrary: p cs) (auto simp: split_beta Let_def prod_eq_iff split: if_splits)

text \<open>After one turn: what is left to read, and where.\<close>

lemma chunk_next:
  assumes "0 < len"
  shows "0 < unat (chunk va len)" "unat (chunk va len) \<le> unat len"
    and "unat (len - chunk va len) = unat len - unat (chunk va len)"
    and "unat (chunk va len) < unat len \<Longrightarrow> va + word_of_nat (unat (chunk va len)) = PGROUNDDOWN va + PGSIZE"
    and "i < unat (chunk va len) \<Longrightarrow> unat va mod 4096 + i < 4096"
proof -
  have off: "unat va mod 4096 < 4096" by simp
  show "0 < unat (chunk va len)"
    using assms off unfolding chunk_unat by (simp add: word_less_nat_alt)
  show le: "unat (chunk va len) \<le> unat len" unfolding chunk_unat by simp
  then show "unat (len - chunk va len) = unat len - unat (chunk va len)"
    by (subst unat_diff64) (simp_all add: word_le_nat_alt)
  show "i < unat (chunk va len) \<Longrightarrow> unat va mod 4096 + i < 4096"
    unfolding chunk_unat by linarith
  assume "unat (chunk va len) < unat len"
  then have "chunk va len = PGSIZE - (va - PGROUNDDOWN va)"
    by (auto simp: chunk_def Let_def word_less_nat_alt split: if_splits)
  then show "va + word_of_nat (unat (chunk va len)) = PGROUNDDOWN va + PGSIZE" by simp
qed

lemma read_user_turn:
  assumes "0 < len" "user_page m pt (PGROUNDDOWN va) = pa0" "pa0 \<noteq> 0"
  shows "read_user (unat len) m pt va =
     (let (r, bs) = read_user (unat (len - chunk va len)) m pt (PGROUNDDOWN va + PGSIZE) in
      (r, peek m (pa0 + (va - PGROUNDDOWN va)) (unat (chunk va len)) @ bs))"
proof -
  note c = chunk_next [OF assms(1), where va = va]
  let ?k = "unat (chunk va len)" and ?n = "unat len - unat (chunk va len)"
  have "read_user (?k + ?n) m pt va =
     (let (r, bs) = read_user ?n m pt (va + word_of_nat ?k) in (r, peek m (pa0 + (va - PGROUNDDOWN va)) ?k @ bs))"
    by (rule read_user_chunk) (rule user_byte_in_page [OF assms(2,3) c(5)])
  moreover have "read_user ?n m pt (va + word_of_nat ?k) = read_user ?n m pt (PGROUNDDOWN va + PGSIZE)"
    by (cases "?k < unat len") (use c(4) in simp_all)
  ultimately show ?thesis using c(2,3) by (simp add: split_beta Let_def)
qed

lemma read_user_str_turn:
  assumes "0 < len" "user_page m pt (PGROUNDDOWN va) = pa0" "pa0 \<noteq> 0"
  shows "read_user_str (unat len) m pt va =
     (let (g, cs) = copy_until_nul (unat (chunk va len)) m (pa0 + (va - PGROUNDDOWN va)) in
      if g then (0, cs)
      else let (r, bs) = read_user_str (unat (len - chunk va len)) m pt (PGROUNDDOWN va + PGSIZE) in (r, cs @ bs))"
proof -
  note c = chunk_next [OF assms(1), where va = va]
  let ?k = "unat (chunk va len)" and ?n = "unat len - unat (chunk va len)"
  have "read_user_str (?k + ?n) m pt va =
     (let (g, cs) = copy_until_nul ?k m (pa0 + (va - PGROUNDDOWN va)) in
      if g then (0, cs) else let (r, bs) = read_user_str ?n m pt (va + word_of_nat ?k) in (r, cs @ bs))"
    by (rule read_user_str_chunk) (rule user_byte_in_page [OF assms(2,3) c(5)])
  moreover have "read_user_str ?n m pt (va + word_of_nat ?k) = read_user_str ?n m pt (PGROUNDDOWN va + PGSIZE)"
    by (cases "?k < unat len") (use c(4) in simp_all)
  ultimately show ?thesis using c(2,3) by (simp add: split_beta Let_def)
qed

lemma read_user_stuck: "0 < len \<Longrightarrow> user_page m pt (PGROUNDDOWN va) = 0 \<Longrightarrow> read_user (unat len) m pt va = (-1, [])"
  by (cases "unat len") (auto simp: user_byte_no_page unat_eq_0)

lemma read_user_str_stuck:
  "0 < len \<Longrightarrow> user_page m pt (PGROUNDDOWN va) = 0 \<Longrightarrow> read_user_str (unat len) m pt va = (-1, [])"
  by (cases "unat len") (auto simp: user_byte_no_page unat_eq_0)

lemma copyin_read: "copyin pt va len = gets (\<lambda>s. read_user (unat len) (mem s) pt va)"
proof (rule ext)
  fix s :: "'a kmem_state_scheme"
  let ?body = "\<lambda>(dst, srcva, len). if len > 0 then
         let va0 = PGROUNDDOWN srcva in
         bind (walkaddr pt va0) (\<lambda>pa0.
         if pa0 = 0 then ret (Inr (-1, dst))
         else let n = chunk srcva len in
           bind (gets (\<lambda>s. peek (mem s) (pa0 + (srcva - va0)) (unat n))) (\<lambda>bs.
           ret (Inl (dst @ bs, va0 + PGSIZE, len - n))))
       else ret (Inr (0, dst))"
  have "loopM ?body (dst, va, len) s =
      Ok (let (r, bs) = read_user (unat len) (mem s) pt va in (r, dst @ bs)) s" for dst
  proof (induction "unat len" arbitrary: dst va len rule: less_induct)
    case less
    show ?case
    proof (cases "len = 0")
      case True
      then show ?thesis by (subst loopM_unfold) (simp add: run_simps)
    next
      case False
      then have pos: "0 < len" by (simp add: word_neq_0_conv)
      let ?pa = "user_page (mem s) pt (PGROUNDDOWN va)"
      show ?thesis
      proof (cases "?pa = 0")
        case True
        then show ?thesis
          using pos by (subst loopM_unfold) (simp add: walkaddr_user_page bind_def gets_def ret_def read_user_stuck Let_def)
      next
        case nz: False
        have "unat (len - chunk va len) < unat len" using chunk_next(1,3) [OF pos, where va = va] pos
          by (simp add: word_less_nat_alt)
        from less [OF this] show ?thesis
          using pos nz read_user_turn [OF pos refl nz]
          by (subst loopM_unfold) (simp add: walkaddr_user_page bind_def gets_def ret_def split_beta Let_def)
      qed
    qed
  qed
  from this [of "[]"] show "copyin pt va len s = gets (\<lambda>s. read_user (unat len) (mem s) pt va) s"
    by (simp add: copyin_def gets_def)
qed

lemma copyinstr_read: "copyinstr pt va mx = gets (\<lambda>s. read_user_str (unat mx) (mem s) pt va)"
proof (rule ext)
  fix s :: "'a kmem_state_scheme"
  let ?body = "\<lambda>(dst, srcva, mx, got_null). if \<not> got_null \<and> mx > 0 then
         let va0 = PGROUNDDOWN srcva in
         bind (walkaddr pt va0) (\<lambda>pa0.
         if pa0 = 0 then ret (Inr (-1, dst))
         else bind (gets (\<lambda>s. copy_until_nul (unat (chunk srcva mx)) (mem s) (pa0 + (srcva - va0)))) (\<lambda>(g, bs).
           ret (Inl (dst @ bs, va0 + PGSIZE, mx - word_of_nat (if g then length bs - 1 else length bs), g))))
       else ret (Inr (if got_null then 0 else -1, dst))"
  have stop: "loopM ?body (dst, va, mx, True) s = Ok (0, dst) s" for dst va mx
    by (subst loopM_unfold) (simp add: run_simps)
  have "loopM ?body (dst, va, mx, False) s =
      Ok (let (r, bs) = read_user_str (unat mx) (mem s) pt va in (r, dst @ bs)) s" for dst
  proof (induction "unat mx" arbitrary: dst va mx rule: less_induct)
    case less
    show ?case
    proof (cases "mx = 0")
      case True
      then show ?thesis by (subst loopM_unfold) (simp add: run_simps)
    next
      case False
      then have pos: "0 < mx" by (simp add: word_neq_0_conv)
      let ?pa = "user_page (mem s) pt (PGROUNDDOWN va)"
      let ?c = "copy_until_nul (unat (chunk va mx)) (mem s) (?pa + (va - PGROUNDDOWN va))"
      show ?thesis
      proof (cases "?pa = 0")
        case True
        then show ?thesis
          using pos by (subst loopM_unfold)
            (simp add: walkaddr_user_page bind_def gets_def ret_def read_user_str_stuck Let_def)
      next
        case nz: False
        have "unat (mx - chunk va mx) < unat mx" using chunk_next(1,3) [OF pos, where va = va] pos
          by (simp add: word_less_nat_alt)
        note IH = less [OF this]
        show ?thesis
          using pos nz read_user_str_turn [OF pos refl nz] IH copy_until_nul_length
          by (cases ?c, cases "fst ?c"; subst loopM_unfold)
            (auto simp: walkaddr_user_page bind_def gets_def ret_def split_beta Let_def stop)
      qed
    qed
  qed
  from this [of "[]"] show "copyinstr pt va mx s = gets (\<lambda>s. read_user_str (unat mx) (mem s) pt va) s"
    by (simp add: copyinstr_def gets_def)
qed

section \<open>Making a mapping\<close>

text \<open>The table pages met on the way to the leaf entry for \<open>va\<close>, root first.\<close>

primrec path_tables :: "nat \<Rightarrow> mem \<Rightarrow> uint64 \<Rightarrow> uint64 \<Rightarrow> uint64 list" where
  "path_tables 0 m pt va = [pt]"
| "path_tables (Suc l) m pt va =
     pt # (let e = load64 m (pte_at pt (Suc l) va) in
           if e AND PTE_V \<noteq> 0 then path_tables l m (PTE2PA e) va else [])"

text \<open>The tables on the path are separate pages, and none of them is free.\<close>

definition path_ok :: "nat \<Rightarrow> mem \<Rightarrow> uint64 \<Rightarrow> uint64 \<Rightarrow> uint64 list \<Rightarrow> bool" where
  "path_ok l m pt va ps \<longleftrightarrow> distinct (path_tables l m pt va @ ps)
     \<and> (\<forall>p \<in> set (path_tables l m pt va). aligned p \<and> p \<noteq> 0)"

lemma path_tables_Cons: "\<exists>ts. path_tables l m pt va = pt # ts"
  by (cases l) auto

lemma pte_at_in_page: "in_range b (pte_at pt l va) 8 \<Longrightarrow> in_page b pt"
proof -
  assume b: "in_range b (pte_at pt l va) 8"
  have "unat (8 * PX l va) = 8 * unat (PX l va)"
    using PX_less [of l va] by (simp add: unat_word_ariths)
  moreover have "b - pt = (b - pte_at pt l va) + 8 * PX l va" by (simp add: pte_at_def)
  ultimately have "unat (b - pt) = unat (b - pte_at pt l va) + 8 * unat (PX l va)"
    using b PX_less [of l va] by (subst \<open>b - pt = _\<close>, subst unat_add64) (auto simp: in_range_def)
  with b PX_less [of l va] show ?thesis by (simp add: in_page_def in_range_def)
qed

lemma pte_at_self: "in_page (pte_at pt l va) pt"
  by (rule pte_at_in_page [of _ _ l va]) (simp add: in_range_def)

lemma load64_page_cong:
  "(\<And>a. in_page a pt \<Longrightarrow> m' a = m a) \<Longrightarrow> load64 m' (pte_at pt l va) = load64 m (pte_at pt l va)"
  by (rule load64_cong) (auto dest: pte_at_in_page)

lemma pte_at_nonzero: "aligned pt \<Longrightarrow> pt \<noteq> 0 \<Longrightarrow> pte_at pt l va \<noteq> 0"
proof
  assume "aligned pt" "pt \<noteq> 0" "pte_at pt l va = 0"
  then have "in_page 0 pt" using pte_at_self [of pt l va] by simp
  moreover have "in_page 0 0" "aligned 0" by (simp_all add: aligned_def)
  ultimately show False using in_page_unique [of pt 0 0] \<open>aligned pt\<close> \<open>pt \<noteq> 0\<close> by blast
qed

lemma path_tables_cong:
  "(\<And>p a. p \<in> set (path_tables l m pt va) \<Longrightarrow> in_page a p \<Longrightarrow> m' a = m a) \<Longrightarrow>
   path_tables l m' pt va = path_tables l m pt va \<and> find_pte l m' pt va = find_pte l m pt va"
proof (induction l arbitrary: pt)
  case (Suc l)
  have "load64 m' (pte_at pt (Suc l) va) = load64 m (pte_at pt (Suc l) va)"
    by (rule load64_page_cong) (use Suc.prems in auto)
  with Suc show ?case by (auto simp: Let_def)
qed simp

lemma load64_zero: "(\<And>b. in_range b a 8 \<Longrightarrow> m b = 0) \<Longrightarrow> load64 m a = 0"
proof -
  assume "\<And>b. in_range b a 8 \<Longrightarrow> m b = 0"
  then have "load64 m a = load64 (\<lambda>_. 0) a" by (intro load64_cong) simp
  moreover have "load_le k (\<lambda>_. 0) b = 0" for k b by (induction k arbitrary: b) simp_all
  ultimately show ?thesis by (simp add: load64_def)
qed

lemma path_tables_zero:
  assumes "\<And>a. in_page a pg \<Longrightarrow> m a = 0"
  shows "path_tables l m pg va = [pg]"
proof (cases l)
  case (Suc k)
  have "load64 m (pte_at pg (Suc k) va) = 0"
    by (rule load64_zero) (use assms pte_at_in_page in blast)
  with Suc show ?thesis by simp
qed simp

text \<open>The allocator does not look at pages that are not free.\<close>

lemma kalloc_ready_mem:
  assumes "kalloc_ready s ps" "\<And>q a. q \<in> set ps \<Longrightarrow> in_page a q \<Longrightarrow> m' a = mem s a"
  shows "kalloc_ready (s\<lparr>mem := m'\<rparr>) ps"
proof -
  have "free_chain m' (freelist s) ps"
    by (rule free_chain_cong [of "mem s"]) (use assms in \<open>auto simp: kalloc_ready_def kmem_ok_def\<close>)
  then show ?thesis
    using assms(1)
    by (auto simp: kalloc_ready_def kmem_ok_def page_ok_def lock_idle_def intr_ok_def mycpu_def intr_get_def)
qed

lemma kalloc_page:
  assumes "kalloc_ready s (p # ps)"
  shows "wp kalloc (\<lambda>r t. r = p \<and> p \<noteq> 0 \<and> aligned p \<and> p \<notin> set ps \<and> kalloc_ready t ps
     \<and> (\<forall>a. \<not> in_page a p \<longrightarrow> mem t a = mem s a)) s"
  using wp_conj [OF kalloc_pop [of s p ps] kalloc_ready_pop [OF assms]] assms
  by (auto simp: kalloc_ready_def page_ok_def elim!: wp_mono)

lemma page_disjoint: "aligned p \<Longrightarrow> aligned q \<Longrightarrow> p \<noteq> q \<Longrightarrow> in_page a p \<Longrightarrow> \<not> in_page a q"
  using in_page_unique by blast

lemma kalloc_ready_aligned: "kalloc_ready s ps \<Longrightarrow> q \<in> set ps \<Longrightarrow> aligned q"
  by (auto simp: kalloc_ready_def kmem_ok_def page_ok_def)

text \<open>What \<open>walk\<close> with \<open>alloc\<close> set promises: either memory ran out, or the path now exists; only pages
  on the path and formerly free pages were written; and the leaf entry is the one that was there, or
  an empty one in a new table.\<close>

definition leaf_entry :: "nat \<Rightarrow> mem \<Rightarrow> uint64 \<Rightarrow> uint64 \<Rightarrow> uint64" where
  "leaf_entry l m pt va =
     (if length (path_tables l m pt va) = Suc l then load64 m (find_pte l m pt va) else 0)"

definition walk_post :: "nat \<Rightarrow> uint64 \<Rightarrow> uint64 \<Rightarrow> uint64 list \<Rightarrow> mem \<Rightarrow> uint64 \<Rightarrow> 'z kmem_state_scheme \<Rightarrow> bool" where
  "walk_post l pt va ps m pte t \<longleftrightarrow>
     (\<forall>a. (\<forall>p \<in> set (path_tables l m pt va) \<union> set ps. \<not> in_page a p) \<longrightarrow> mem t a = m a)
   \<and> (if pte = 0 then kalloc_ready t []
      else find_pte l (mem t) pt va = pte \<and> (\<exists>qs. kalloc_ready t qs \<and> path_ok l (mem t) pt va qs
        \<and> length (path_tables l (mem t) pt va) = Suc l
        \<and> set (path_tables l (mem t) pt va) \<union> set qs \<subseteq> set (path_tables l m pt va) \<union> set ps
        \<and> set qs \<subseteq> set ps \<and> set ps \<subseteq> set qs \<union> set (path_tables l (mem t) pt va))
        \<and> load64 (mem t) pte = leaf_entry l m pt va)"

lemma walk_post_frame:
  "walk_post l pt va ps m pte t \<Longrightarrow> (\<And>p. p \<in> set (path_tables l m pt va) \<union> set ps \<Longrightarrow> \<not> in_page a p) \<Longrightarrow>
   mem t a = m a"
  unfolding walk_post_def by simp

lemma walk_post_descend:
  assumes v: "load64 m (pte_at pt (Suc l) va) AND PTE_V \<noteq> 0"
    and pt': "PTE2PA (load64 m (pte_at pt (Suc l) va)) = pt'"
    and ok: "path_ok (Suc l) m pt va ps" and al: "\<forall>q \<in> set ps. aligned q"
    and post: "walk_post l pt' va ps m pte t"
  shows "walk_post (Suc l) pt va ps m pte t"
proof -
  have T: "path_tables (Suc l) m pt va = pt # path_tables l m pt' va" unfolding path_tables.simps Let_def if_P [OF v] pt' by (rule refl)
  have pt: "aligned pt" "pt \<noteq> 0" "pt \<notin> set (path_tables l m pt' va) \<union> set ps"
    and rest: "\<forall>p \<in> set (path_tables l m pt' va). aligned p"
    using ok unfolding path_ok_def T by simp_all
  have same: "mem t a = m a" if "in_page a pt" for a
  proof -
    have "\<not> in_page a p" if "p \<in> set (path_tables l m pt' va) \<union> set ps" for p
      using that pt rest al \<open>in_page a pt\<close> page_disjoint [of pt p a] by blast
    then show ?thesis by (rule walk_post_frame [OF post])
  qed
  then have load: "load64 (mem t) (pte_at pt (Suc l) va) = load64 m (pte_at pt (Suc l) va)"
    by (rule load64_page_cong)
  have T': "path_tables (Suc l) (mem t) pt va = pt # path_tables l (mem t) pt' va"
    and F': "find_pte (Suc l) (mem t) pt va = find_pte l (mem t) pt' va"
    unfolding path_tables.simps find_pte.simps Let_def load if_P [OF v] pt' by (rule refl)+
  have frame: "\<forall>a. (\<forall>p \<in> set (path_tables (Suc l) m pt va) \<union> set ps. \<not> in_page a p) \<longrightarrow> mem t a = m a"
    using post unfolding walk_post_def T by simp
  show ?thesis
  proof (cases "pte = 0")
    case True
    with post frame show ?thesis by (simp add: walk_post_def)
  next
    case False
    with post obtain qs where qs: "find_pte l (mem t) pt' va = pte" "kalloc_ready t qs"
        "path_ok l (mem t) pt' va qs" "length (path_tables l (mem t) pt' va) = Suc l"
        "set (path_tables l (mem t) pt' va) \<union> set qs \<subseteq> set (path_tables l m pt' va) \<union> set ps"
        "load64 (mem t) pte = leaf_entry l m pt' va" "set qs \<subseteq> set ps" "set ps \<subseteq> set qs \<union> set (path_tables l (mem t) pt' va)"
      unfolding walk_post_def by auto
    have "path_ok (Suc l) (mem t) pt va qs" "length (path_tables (Suc l) (mem t) pt va) = Suc (Suc l)"
      using qs pt unfolding path_ok_def T' by auto
    moreover have "set (path_tables (Suc l) (mem t) pt va) \<union> set qs \<subseteq> set (path_tables (Suc l) m pt va) \<union> set ps"
      using qs(5) unfolding T T' by auto
    moreover have "set ps \<subseteq> set qs \<union> set (path_tables (Suc l) (mem t) pt va)" using qs(8) unfolding T' by auto
    moreover have "leaf_entry (Suc l) m pt va = leaf_entry l m pt' va"
      unfolding leaf_entry_def T find_pte.simps Let_def if_P [OF v] pt' by simp
    ultimately show ?thesis
      using False frame qs(1,2,6,7) unfolding walk_post_def F' by auto
  qed
qed

lemma PTE_V_set: "(x OR PTE_V) AND PTE_V \<noteq> 0"
proof -
  have "bit ((x OR PTE_V) AND PTE_V) 0" by (simp add: bit_simps PTE_V_def)
  then show ?thesis by (metis bit_0_eq bot_apply bot_bool_def)
qed

text \<open>A missing table: the page \<open>pg\<close> is cleared and hooked into the slot.\<close>

lemma walk_post_hook:
  assumes v: "load64 m (pte_at pt (Suc l) va) AND PTE_V = 0"
    and pg: "aligned pg" "pg \<noteq> 0" "pg \<notin> set ps" "pg \<noteq> pt" "pt \<notin> set ps" "aligned pt" "pt \<noteq> 0"
    and al: "\<forall>q \<in> set ps. aligned q"
    and m1: "\<forall>a. \<not> in_page a pg \<longrightarrow> m1 a = m a"
    and m2: "m2 = store64 (memset m1 pg 0 (ucast PGSIZE)) (pte_at pt (Suc l) va) (PA2PTE pg OR PTE_V)"
    and post: "walk_post l pg va ps m2 pte t"
  shows "walk_post (Suc l) pt va (pg # ps) m pte t"
proof -
  have out: "m2 a = m a" if "\<not> in_page a pg" "\<not> in_page a pt" for a
    using that m1 pte_at_in_page [of a pt "Suc l" va] unfolding m2
    by (subst store64_frame) (auto simp: memset_page)
  have zero: "m2 a = 0" if "in_page a pg" for a
    using that pg pte_at_in_page [of a pt "Suc l" va] page_disjoint [of pg pt a] unfolding m2
    by (subst store64_frame) (auto simp: memset_page)
  have Tpg: "path_tables l m2 pg va = [pg]"
    by (rule path_tables_zero) (rule zero)
  have same: "mem t a = m2 a" if "in_page a pt" for a
  proof -
    have "\<not> in_page a p" if "p \<in> insert pg (set ps)" for p
      using that pg al \<open>in_page a pt\<close> page_disjoint [of pt p a] by blast
    with post show ?thesis unfolding walk_post_def Tpg by simp
  qed
  then have load: "load64 (mem t) (pte_at pt (Suc l) va) = PA2PTE pg OR PTE_V"
    using load64_page_cong [of pt "mem t" m2] by (simp add: m2)
  have valid: "(PA2PTE pg OR PTE_V) AND PTE_V \<noteq> 0" "PTE2PA (PA2PTE pg OR PTE_V) = pg"
    using PTE2PA_PA2PTE [OF pg(1), of PTE_V] PTE_V_set [of "PA2PTE pg"] by (simp_all add: PTE_V_def)
  have T: "path_tables (Suc l) m pt va = [pt]" using v by (simp add: Let_def)
  have T': "path_tables (Suc l) (mem t) pt va = pt # path_tables l (mem t) pg va"
    and F': "find_pte (Suc l) (mem t) pt va = find_pte l (mem t) pg va"
    using valid by (simp_all add: load Let_def)
  have frame: "\<forall>a. (\<forall>p \<in> set (path_tables (Suc l) m pt va) \<union> set (pg # ps). \<not> in_page a p) \<longrightarrow> mem t a = m a"
    using post out unfolding walk_post_def T Tpg by simp
  show ?thesis
  proof (cases "pte = 0")
    case True
    with post frame show ?thesis by (simp add: walk_post_def)
  next
    case False
    with post obtain qs where qs: "find_pte l (mem t) pg va = pte" "kalloc_ready t qs"
        "path_ok l (mem t) pg va qs" "length (path_tables l (mem t) pg va) = Suc l"
        "set (path_tables l (mem t) pg va) \<union> set qs \<subseteq> {pg} \<union> set ps"
        "load64 (mem t) pte = leaf_entry l m2 pg va" "set qs \<subseteq> set ps" "set ps \<subseteq> set qs \<union> set (path_tables l (mem t) pg va)"
      unfolding walk_post_def Tpg by auto
    then have "pt \<notin> set (path_tables l (mem t) pg va) \<union> set qs" using pg by auto
    then have "path_ok (Suc l) (mem t) pt va qs" "length (path_tables (Suc l) (mem t) pt va) = Suc (Suc l)"
      using qs pg unfolding path_ok_def T' by auto
    moreover have "set (path_tables (Suc l) (mem t) pt va) \<union> set qs \<subseteq> set (path_tables (Suc l) m pt va) \<union> set (pg # ps)"
      using qs(5) unfolding T T' by auto
    moreover have "set qs \<subseteq> set (pg # ps)" "set (pg # ps) \<subseteq> set qs \<union> set (path_tables (Suc l) (mem t) pt va)"
      using qs(7,8) path_tables_Cons [of l "mem t" pg va] unfolding T' by auto
    moreover have "leaf_entry (Suc l) m pt va = leaf_entry l m2 pg va"
      unfolding leaf_entry_def T Tpg
      using load64_zero [of "pte_at pg 0 va" m2] zero pte_at_in_page [of _ pg 0 va] by (cases l) auto
    ultimately show ?thesis
      using False frame qs(1,2,6) unfolding walk_post_def F' by auto
  qed
qed

lemma walk_post_none:
  "kalloc_ready t [] \<Longrightarrow> \<forall>a. mem t a = m a \<Longrightarrow> walk_post l pt va ps m 0 t"
  by (simp add: walk_post_def)

lemma hook_ready:
  fixes k :: nat and va :: uint64
  assumes pg: "aligned pg" "pg \<noteq> 0" "pg \<notin> set qs" and t: "kalloc_ready t qs"
    and pt: "pt \<noteq> pg" "pt \<notin> set qs" "aligned pt" "pt \<noteq> 0"
  defines "u \<equiv> t\<lparr>mem := store64 (memset (mem t) pg 0 (ucast PGSIZE)) (pte_at pt k va) (PA2PTE pg OR PTE_V)\<rparr>"
  shows "kalloc_ready u qs" "path_ok l (mem u) pg va qs"
proof -
  have al: "\<forall>q \<in> set qs. aligned q" using t kalloc_ready_aligned by blast
  let ?m2 = "store64 (memset (mem t) pg 0 (ucast PGSIZE)) (pte_at pt k va) (PA2PTE pg OR PTE_V)"
  have keep: "?m2 a = mem t a" if "q \<in> set qs" "in_page a q" for q a
  proof -
    have "\<not> in_page a pt" "\<not> in_page a pg"
      using that al pg pt page_disjoint [of q pt a] page_disjoint [of q pg a] by auto
    then show ?thesis
      using pte_at_in_page [of a pt k va] by (subst store64_frame) (auto simp: memset_page)
  qed
  show "kalloc_ready u qs" unfolding u_def by (rule kalloc_ready_mem [OF t keep])
  have zero: "?m2 a = 0" if "in_page a pg" for a
    using that pg pt pte_at_in_page [of a pt k va] page_disjoint [of pg pt a]
    by (subst store64_frame) (auto simp: memset_page)
  have "path_tables l ?m2 pg va = [pg]"
    by (rule path_tables_zero) (rule zero)
  then show "path_ok l (mem u) pg va qs"
    using pg kpages.ok_distinct [OF t] by (simp add: path_ok_def u_def)
qed

lemma walk_level_alloc:
  assumes "kalloc_ready s ps" "path_ok l (mem s) pt va ps"
  shows "wp (walk_level l pt va True) (walk_post l pt va ps (mem s)) s"
  using assms
proof (induction l arbitrary: pt ps s)
  case 0
  then show ?case
    using pte_at_nonzero [of pt 0 va] by (auto simp: wp_ret walk_post_def path_ok_def leaf_entry_def)
next
  case (Suc l)
  let ?slot = "pte_at pt (Suc l) va"
  let ?e = "load64 (mem s) ?slot"
  let ?hook = "\<lambda>pg. seq (modify (\<lambda>s. s\<lparr>mem := memset (mem s) pg 0 (ucast PGSIZE)\<rparr>))
            (seq (modify (\<lambda>s. s\<lparr>mem := store64 (mem s) ?slot (PA2PTE pg OR PTE_V)\<rparr>))
                 (walk_level l pg va True))"
  have al: "\<forall>q \<in> set ps. aligned q" using Suc.prems(1) kalloc_ready_aligned by blast
  show ?case
  proof (cases "?e AND PTE_V \<noteq> 0")
    case True
    then have "path_ok l (mem s) (PTE2PA ?e) va ps"
      using Suc.prems(2) unfolding path_ok_def path_tables.simps Let_def if_P [OF True] by simp
    from Suc.IH [OF Suc.prems(1) this]
    have "wp (walk_level l (PTE2PA ?e) va True) (walk_post (Suc l) pt va ps (mem s)) s"
      by (rule wp_mono) (rule walk_post_descend [OF True refl Suc.prems(2) al])
    with True show ?thesis by (simp add: wp_bind wp_gets Let_def)
  next
    case v: False
    show ?thesis
    proof (cases ps)
      case Nil
      have "wp kalloc (\<lambda>r t. r = 0 \<and> kalloc_ready t [] \<and> mem t = mem s) s"
        using Suc.prems(1) Nil by (simp add: kalloc_ready_def wp_def kalloc_exhausted kmem_ok_def)
      then have "wp kalloc (\<lambda>r t. r = 0 \<and> walk_post (Suc l) pt va ps (mem s) 0 t) s"
        by (rule wp_mono) (simp add: walk_post_none)
      then have "wp kalloc (\<lambda>r. wp (if r = 0 then ret 0 else ?hook r) (walk_post (Suc l) pt va ps (mem s))) s"
        by (rule wp_mono) (simp add: wp_ret)
      with v show ?thesis
        by (simp add: wp_bind wp_gets Let_def)
    next
      case (Cons pg qs)
      have pt: "pt \<noteq> pg" "pt \<notin> set qs" "aligned pt" "pt \<noteq> 0"
        using Suc.prems(2) unfolding Cons path_ok_def path_tables.simps by simp_all
      have step: "wp (walk_level l pg va True) (walk_post (Suc l) pt va ps (mem s))
          (t\<lparr>mem := store64 (memset (mem t) pg 0 (ucast PGSIZE)) ?slot (PA2PTE pg OR PTE_V)\<rparr>)"
        if t: "pg \<noteq> 0" "aligned pg" "pg \<notin> set qs" "kalloc_ready t qs"
          "\<forall>a. \<not> in_page a pg \<longrightarrow> mem t a = mem s a" for t :: "'a kmem_state_scheme"
      proof -
        note ready = hook_ready [OF t(2,1,3,4) pt]
        have qal: "\<forall>q \<in> set qs. aligned q" using al Cons by simp
        from Suc.IH [OF ready] show ?thesis
          unfolding Cons
          by (rule wp_mono)
            (rule walk_post_hook [OF _ t(2,1,3) pt(1) [symmetric] pt(2-4) qal t(5) refl], use v in auto)
      qed
      have "wp kalloc (\<lambda>r t. r = pg \<and> pg \<noteq> 0 \<and> wp (walk_level l pg va True) (walk_post (Suc l) pt va ps (mem s))
          (t\<lparr>mem := store64 (memset (mem t) pg 0 (ucast PGSIZE)) ?slot (PA2PTE pg OR PTE_V)\<rparr>)) s"
        using Suc.prems(1) unfolding Cons by (rule wp_mono [OF kalloc_page]) (simp add: step [unfolded Cons])
      then have "wp kalloc (\<lambda>r. wp (if r = 0 then ret 0 else ?hook r) (walk_post (Suc l) pt va ps (mem s))) s"
        by (rule wp_mono) (simp add: wp_seq wp_modify)
      with v show ?thesis
        by (simp add: wp_bind wp_gets Let_def)
    qed
  qed
qed

text \<open>Mapping one page: the leaf entry is written into a table of the path, so the path itself stays.\<close>

lemma path_last: "length (path_tables l m pt va) = Suc l \<Longrightarrow>
   in_range b (find_pte l m pt va) 8 \<Longrightarrow> in_page b (last (path_tables l m pt va))"
proof (induction l arbitrary: pt)
  case 0
  then show ?case by (auto dest: pte_at_in_page)
next
  case (Suc l)
  let ?e = "load64 m (pte_at pt (Suc l) va)"
  have v: "?e AND PTE_V \<noteq> 0" using Suc.prems(1) by (cases "?e AND PTE_V = 0") (simp_all add: Let_def)
  have T: "path_tables (Suc l) m pt va = pt # path_tables l m (PTE2PA ?e) va"
    unfolding path_tables.simps Let_def if_P [OF v] by (rule refl)
  have F: "find_pte (Suc l) m pt va = find_pte l m (PTE2PA ?e) va"
    unfolding find_pte.simps Let_def if_P [OF v] by (rule refl)
  have "path_tables l m (PTE2PA ?e) va \<noteq> []" using path_tables_Cons [of l m "PTE2PA ?e" va] by auto
  then show ?case
    using Suc.IH [of "PTE2PA ?e"] Suc.prems unfolding T F by simp
qed

lemma walk_complete:
  assumes "length (path_tables l (mem s) pt va) = Suc l" "path_ok l (mem s) pt va qs"
  shows "walk_level l pt va alloc s = Ok (find_pte l (mem s) pt va) s \<and> find_pte l (mem s) pt va \<noteq> 0"
  using assms
proof (induction l arbitrary: pt)
  case 0
  then show ?case using pte_at_nonzero [of pt 0 va] by (auto simp: ret_def path_ok_def)
next
  case (Suc l)
  let ?e = "load64 (mem s) (pte_at pt (Suc l) va)"
  have v: "?e AND PTE_V \<noteq> 0" using Suc.prems(1) by (cases "?e AND PTE_V = 0") (simp_all add: Let_def)
  have T: "path_tables (Suc l) (mem s) pt va = pt # path_tables l (mem s) (PTE2PA ?e) va"
    unfolding path_tables.simps Let_def if_P [OF v] by (rule refl)
  have "length (path_tables l (mem s) (PTE2PA ?e) va) = Suc l" "path_ok l (mem s) (PTE2PA ?e) va qs"
    using Suc.prems unfolding path_ok_def T by simp_all
  from Suc.IH [OF this] v show ?case
    by (simp add: bind_def gets_def Let_def)
qed

lemma find_pte_store:
  assumes ok: "path_ok l m pt va qs" and len: "length (path_tables l m pt va) = Suc l"
  shows "find_pte l (store64 m (find_pte l m pt va) w) pt va = find_pte l m pt va
    \<and> path_tables l (store64 m (find_pte l m pt va) w) pt va = path_tables l m pt va"
  using assms
proof (induction l arbitrary: pt)
  case (Suc l)
  let ?e = "load64 m (pte_at pt (Suc l) va)"
  let ?p = "find_pte l m (PTE2PA ?e) va" and ?T = "path_tables l m (PTE2PA ?e) va"
  have v: "?e AND PTE_V \<noteq> 0" using Suc.prems(2) by (cases "?e AND PTE_V = 0") (simp_all add: Let_def)
  have T: "path_tables (Suc l) m pt va = pt # ?T"
    unfolding path_tables.simps Let_def if_P [OF v] by (rule refl)
  have F: "find_pte (Suc l) m pt va = ?p"
    unfolding find_pte.simps Let_def if_P [OF v] by (rule refl)
  have ok': "path_ok l m (PTE2PA ?e) va qs" "length ?T = Suc l"
    using Suc.prems unfolding path_ok_def T by simp_all
  have "last ?T \<in> set ?T" using ok'(2) by (intro last_in_set) auto
  then have disj: "aligned pt" "aligned (last ?T)" "pt \<noteq> last ?T"
    using Suc.prems(1) unfolding path_ok_def T by auto
  have "load64 (store64 m ?p w) (pte_at pt (Suc l) va) = ?e"
  proof (rule load64_page_cong)
    fix a assume "in_page a pt"
    then have "\<not> in_range a ?p 8"
      using path_last [OF ok'(2)] disj page_disjoint [of pt "last ?T" a] by blast
    then show "store64 m ?p w a = m a" by (rule store64_frame)
  qed
  then have "find_pte (Suc l) (store64 m ?p w) pt va = find_pte l (store64 m ?p w) (PTE2PA ?e) va"
    "path_tables (Suc l) (store64 m ?p w) pt va = pt # path_tables l (store64 m ?p w) (PTE2PA ?e) va"
    unfolding find_pte.simps path_tables.simps Let_def by (simp_all only: if_P [OF v])
  with Suc.IH [OF ok'] show ?case unfolding F T by simp
qed simp

lemma leaf_written:
  assumes post: "walk_post 2 pt va ps m pte t" and nz: "pte \<noteq> 0"
    and va: "va < MAXVA" and pa: "aligned pa" and perm: "perm < 1024" "perm AND PTE_U \<noteq> 0"
  shows "user_page (store64 (mem t) pte (PA2PTE pa OR perm OR PTE_V)) pt va = pa"
proof -
  let ?m = "store64 (mem t) pte (PA2PTE pa OR perm OR PTE_V)"
  obtain qs where "find_pte 2 (mem t) pt va = pte" "path_ok 2 (mem t) pt va qs"
      "length (path_tables 2 (mem t) pt va) = Suc 2"
    using post nz unfolding walk_post_def by auto
  then have find: "find_pte 2 ?m pt va = pte" using find_pte_store by metis
  have load: "load64 ?m pte = PA2PTE pa OR (perm OR PTE_V)" by (simp add: or.assoc)
  have fl: "perm OR PTE_V < 1024"
  proof -
    have "perm OR PTE_V = take_bit 10 (perm OR PTE_V)"
      using perm(1) by (intro bit_word_eqI) (auto simp: bit_simps PTE_V_def dest: flags_bit)
    then have "unat (perm OR PTE_V) = take_bit 10 (unat (perm OR PTE_V))"
      by (metis unsigned_take_bit_eq)
    then have "unat (perm OR PTE_V) < 1024" using take_bit_nat_less_exp [of 10 "unat (perm OR PTE_V)"] by simp
    then show ?thesis by (simp add: word_less_nat_alt)
  qed
  have "(x OR (perm OR PTE_V)) AND PTE_V \<noteq> 0" "(x OR (perm OR PTE_V)) AND PTE_U \<noteq> 0" for x
    using PTE_V_set [of "x OR perm"] perm(2)
    by (simp_all add: or.assoc bit.conj_disj_distrib2 or_eq_0_iff)
  then show ?thesis
    using va nz PTE2PA_PA2PTE [OF pa fl]
    unfolding user_page_def find Let_def load by (simp del: MAXVA_def add: not_le [THEN iffD2, OF va])
qed

lemma PGROUNDDOWN_aligned: "aligned va \<Longrightarrow> PGROUNDDOWN va = va"
  by (rule word_unat_eq_iff [THEN iffD2])
    (simp only: unat_PGROUNDDOWN aligned_unat minus_mod_eq_div_mult [symmetric])

lemma PGROUNDDOWN_last:
  assumes "aligned va"
  shows "PGROUNDDOWN (va + PGSIZE - 1) = va"
proof -
  have "unat va mod 4096 + 4095 < 4096" using assms by (simp only: aligned_unat)
  from page_same(1) [OF this] show ?thesis
    using PGROUNDDOWN_aligned [OF assms] by (simp add: PGSIZE_def add.commute)
qed

lemma mappages_one:
  assumes "aligned va" "va < MAXVA"
  shows "mappages pt va PGSIZE pa perm =
    bind (walk_level 2 pt va True) (\<lambda>pte.
      if pte = 0 then ret (-1)
      else bind (gets (\<lambda>s. load64 (mem s) pte)) (\<lambda>e.
        seq (whenM (e AND PTE_V \<noteq> 0) (panic ''mappages: remap''))
       (seq (modify (\<lambda>s. s\<lparr>mem := store64 (mem s) pte (PA2PTE pa OR perm OR PTE_V)\<rparr>)) (ret 0))))"
proof -
  have nz: "PGSIZE \<noteq> 0" by (simp add: PGSIZE_def)
  have walk: "walk pt va True = walk_level 2 pt va True"
    using assms(2) by (simp add: walk_def whenM_def seq_def not_le [symmetric] del: MAXVA_def)
  show ?thesis
    unfolding mappages_def PGROUNDDOWN_aligned [OF assms(1)] PGROUNDDOWN_last [OF assms(1)] Let_def
    by (subst loopM_unfold)
      (simp add: nz walk whenM_def seq_def bind_assoc fun_eq_iff bind_def gets_def ret_def modify_def panic_def
        split: outcome.split)
qed

section \<open>Properties\<close>

text \<open>C12: \<open>copyin\<close> works page by page, through \<open>walkaddr\<close>; it is equivalent to reading user memory one byte
  at a time and stopping with -1 at the first byte whose page is not mapped for the user, for
  every address (also where it wraps around) and every length. It always terminates and changes
  nothing.\<close>

theorem copyin_bytewise: "copyin pt va len s = Ok (read_user (unat len) (mem s) pt va) s"
  by (simp add: copyin_read gets_def)

text \<open>C13: \<open>copyinstr\<close> is equivalent to reading user memory byte by byte until a NUL: it returns 0 exactly
  when a NUL lies within the first \<open>max\<close> bytes and everything before it is mapped, and it has then
  stored the string with its NUL; otherwise it returns -1.\<close>

theorem copyinstr_bytewise: "copyinstr pt va mx s = Ok (read_user_str (unat mx) (mem s) pt va) s"
  by (simp add: copyinstr_read gets_def)

text \<open>The free list after the leaf entry has been written: what is no longer in it is a table of the path.\<close>

lemma leaf_free_list:
  assumes post: "walk_post 2 pt va ps m pte t" and nz: "pte \<noteq> 0"
  shows "\<exists>qs. kalloc_ready (t\<lparr>mem := store64 (mem t) pte w\<rparr>) qs \<and> set qs \<subseteq> set ps
    \<and> set ps - set qs \<subseteq> set (path_tables 2 (store64 (mem t) pte w) pt va)
    \<and> path_ok 2 (store64 (mem t) pte w) pt va qs"
proof -
  obtain qs where qs: "find_pte 2 (mem t) pt va = pte" "kalloc_ready t qs" "path_ok 2 (mem t) pt va qs"
      "length (path_tables 2 (mem t) pt va) = Suc 2" "set qs \<subseteq> set ps" "set ps \<subseteq> set qs \<union> set (path_tables 2 (mem t) pt va)"
    using post nz unfolding walk_post_def by auto
  let ?T = "path_tables 2 (mem t) pt va"
  have T: "path_tables 2 (store64 (mem t) pte w) pt va = ?T" using find_pte_store [OF qs(3,4), of w] qs(1) by simp
  have l: "last ?T \<in> set ?T" using qs(4) by (intro last_in_set) auto
  have "store64 (mem t) pte w a = mem t a" if "q \<in> set qs" "in_page a q" for q a
  proof (rule store64_frame)
    have "aligned q" "aligned (last ?T)" "q \<noteq> last ?T"
      using qs(2,3) that(1) l kalloc_ready_aligned unfolding path_ok_def by auto
    then show "\<not> in_range a pte 8"
      using path_last [OF qs(4)] qs(1) page_disjoint [of q "last ?T" a] that(2) by blast
  qed
  from kalloc_ready_mem [OF qs(2) this] have "kalloc_ready (t\<lparr>mem := store64 (mem t) pte w\<rparr>) qs" .
  moreover have "path_ok 2 (store64 (mem t) pte w) pt va qs" using qs(3) unfolding path_ok_def T .
  ultimately show ?thesis using qs(5,6) unfolding T by blast
qed

text \<open>C14: Mapping one page for the user, \<open>va\<close> and \<open>pa\<close> page aligned and \<open>perm\<close> flags that include \<open>PTE_U\<close>: if
  \<open>va\<close> already has a valid entry, \<open>mappages\<close> panics; otherwise either it returns -1, and then no free page is left, or
  it returns 0, and then \<open>walkaddr\<close> finds the physical page. The tables it had to allocate come from the free list,
  which stays well formed: every page that left the list is now a table on the path of \<open>va\<close>, and none of these
  tables is in the list.\<close>

theorem mappages_walkaddr:
  assumes "kalloc_ready s ps" "path_ok 2 (mem s) pt va ps" "aligned va" "va < MAXVA"
    and "aligned pa" "perm < 1024" "perm AND PTE_U \<noteq> 0"
  shows "if leaf_entry 2 (mem s) pt va AND PTE_V \<noteq> 0
    then mappages pt va PGSIZE pa perm s = Panic ''mappages: remap''
    else wp (mappages pt va PGSIZE pa perm) (\<lambda>r t.
        (r = -1 \<and> kalloc_ready t [])
      \<or> (r = 0 \<and> walkaddr pt va t = Ok pa t \<and> (\<exists>qs. kalloc_ready t qs \<and> set qs \<subseteq> set ps
           \<and> set ps - set qs \<subseteq> set (path_tables 2 (mem t) pt va) \<and> path_ok 2 (mem t) pt va qs))) s"
proof -
  obtain pte t where w: "walk_level 2 pt va True s = Ok pte t" "walk_post 2 pt va ps (mem s) pte t"
    using walk_level_alloc [OF assms(1,2)] by (auto simp: wp_iff)
  show ?thesis
  proof (cases "pte = 0")
    case True
    then have "length (path_tables 2 (mem s) pt va) \<noteq> Suc 2"
      using w(1) walk_complete [OF _ assms(2)] by auto
    then have "leaf_entry 2 (mem s) pt va = 0" by (simp add: leaf_entry_def)
    with True w show ?thesis
      by (simp add: mappages_one [OF assms(3,4)] wp_def bind_def ret_def walk_post_def)
  next
    case False
    then have "load64 (mem t) pte = leaf_entry 2 (mem s) pt va"
      using w(2) by (simp add: walk_post_def)
    with False w(1) leaf_written [OF w(2) False assms(4-7)]
      leaf_free_list [OF w(2) False, of "PA2PTE pa OR perm OR PTE_V"] show ?thesis
      by (simp add: mappages_one [OF assms(3,4)] wp_def bind_def ret_def seq_def gets_def whenM_def
          modify_def panic_def walkaddr_user_page)
  qed
qed

lemma kfree_ready:
  fixes s :: "'a kmem_state_scheme"
  assumes "kalloc_ready s ps" "page_ok s p" "p \<notin> set ps"
  shows "\<exists>t :: 'a kmem_state_scheme. kalloc_ready t (p # ps) \<and> kend t = kend s \<and> (\<forall>a. \<not> in_page a p \<longrightarrow> mem t a = mem s a)"
proof -
  have "kmem_ok s ps" "lock_idle KmemLock s" "intr_ok s" using assms(1) by (simp_all add: kalloc_ready_def)
  from wp_conj [OF kfree_ready_push [OF assms] kfree_push [OF this(1) assms(2,3) this(2,3)]]
  show ?thesis unfolding wp_iff by blast
qed

lemma two_free_pages:
  "\<exists>s :: kmem_state. kalloc_ready s [PHYSTOP - 2 * PGSIZE, PHYSTOP - PGSIZE] \<and> (\<forall>a. in_page a KERNBASE \<longrightarrow> mem s a = 0)"
proof -
  let ?p = "PHYSTOP - PGSIZE" and ?q = "PHYSTOP - 2 * PGSIZE"
  let ?s = "kmem0 () :: kmem_state"
  have al: "aligned ?p" "aligned ?q" "aligned KERNBASE" "?p \<noteq> ?q" "?p \<noteq> KERNBASE" "?q \<noteq> KERNBASE"
    by (simp_all add: aligned_def PGSIZE_def)
  have r: "kalloc_ready ?s []"
    by (simp add: kalloc_ready_def kmem_ok_def kmem0_def PGSIZE_def, simp add: hart0_def)
  have ok: "page_ok ?s ?p" "page_ok ?s ?q"
    by (simp_all add: page_ok_def aligned_def PGSIZE_def kmem0_def hart0_def)
  obtain t :: kmem_state where t: "kalloc_ready t [?p]" "kend t = kend ?s" "\<forall>a. \<not> in_page a ?p \<longrightarrow> mem t a = mem ?s a"
    using kfree_ready [OF r ok(1)] by auto
  have "page_ok t ?q" using ok(2) t(2) by (simp add: page_ok_def)
  then obtain u :: kmem_state where u: "kalloc_ready u [?q, ?p]" "\<forall>a. \<not> in_page a ?q \<longrightarrow> mem u a = mem t a"
    using kfree_ready [OF t(1), of ?q] al(4) by auto
  have "mem u a = 0" if "in_page a KERNBASE" for a
    using that t(3) u(2) page_disjoint [OF al(3,1) al(5) [symmetric]] page_disjoint [OF al(3,2) al(6) [symmetric]]
    by (simp add: kmem0_def hart0_def)
  with u(1) show ?thesis by blast
qed

theorem mappages_walkaddr_witness:
  "\<exists>s :: kmem_state. kalloc_ready s [PHYSTOP - 2 * PGSIZE, PHYSTOP - PGSIZE]
     \<and> wp (mappages KERNBASE 0x3000 PGSIZE 0x80005000 PTE_U) (\<lambda>r t.
        (r = -1 \<and> kalloc_ready t []) \<or> (r = 0 \<and> walkaddr KERNBASE 0x3000 t = Ok 0x80005000 t
          \<and> (\<exists>qs. kalloc_ready t qs \<and> set qs \<subseteq> {PHYSTOP - 2 * PGSIZE, PHYSTOP - PGSIZE}))) s"
proof -
  let ?ps = "[PHYSTOP - 2 * PGSIZE, PHYSTOP - PGSIZE]"
  obtain s :: kmem_state where s: "kalloc_ready s ?ps" "\<forall>a. in_page a KERNBASE \<longrightarrow> mem s a = 0"
    using two_free_pages by blast
  have T: "path_tables 2 (mem s) KERNBASE 0x3000 = [KERNBASE]"
    by (rule path_tables_zero) (use s(2) in blast)
  then have "path_ok 2 (mem s) KERNBASE 0x3000 ?ps"
    by (simp add: path_ok_def aligned_def PGSIZE_def)
  moreover have "leaf_entry 2 (mem s) KERNBASE 0x3000 = 0" using T by (simp add: leaf_entry_def)
  ultimately have "wp (mappages KERNBASE 0x3000 PGSIZE 0x80005000 PTE_U) (\<lambda>r t.
        (r = -1 \<and> kalloc_ready t []) \<or> (r = 0 \<and> walkaddr KERNBASE 0x3000 t = Ok 0x80005000 t
          \<and> (\<exists>qs. kalloc_ready t qs \<and> set qs \<subseteq> {PHYSTOP - 2 * PGSIZE, PHYSTOP - PGSIZE}))) s"
    using mappages_walkaddr [OF s(1), where pt = KERNBASE and va = "0x3000" and pa = "0x80005000" and perm = PTE_U]
    by (simp add: aligned_def PGSIZE_def PTE_U_def) (auto elim!: wp_mono)
  with s(1) show ?thesis by blast
qed

end
