(* ===== verification/Proc.thy ===== *)
theory Proc
  imports Vm
begin

text \<open>
  The process table of \<open>kernel/proc.c\<close> and \<open>kernel/proc.h\<close>: allocating and freeing a slot with its
  page table and trapframe, sleeping and waking up, killing, waiting for children, and copying to
  and from the current process.

  A pointer to a \<open>struct proc\<close> is an index into the table. A trapframe lives in a page of physical
  memory, at the offsets of \<open>struct trapframe\<close>. A sleep channel is the address of some kernel object:
  the datatype \<open>chan\<close> has one constructor per kind of object the kernel sleeps on. The argument
  \<open>sw\<close> of \<open>sched\<close>, and of everything that can sleep, is what happens between \<open>swtch\<close> away from the
  process and \<open>swtch\<close> back to it: the scheduler and all other processes. Using a null process
  pointer is a page fault in the kernel, which ends in \<open>panic("kerneltrap")\<close>. Link-time addresses are
  looked up in the state, by name.
\<close>

section \<open>State\<close>

datatype procstate = UNUSED | USED | SLEEPING | RUNNABLE | RUNNING | ZOMBIE

datatype chan = NoChan | ChanProc nat | ChanTicks | ChanCons | ChanUart | ChanLog | ChanDisk | ChanBuf nat
  | ChanBufLk nat | ChanInodeLk nat | ChanPipeR uint64 | ChanPipeW uint64

record proc =
  p_state :: procstate
  p_chan :: chan
  p_killed :: int
  p_xstate :: int
  p_pid :: int
  p_parent :: "nat option"
  p_kstack :: uint64
  p_sz :: uint64
  p_pagetable :: uint64
  p_trapframe :: uint64
  p_context :: kcontext
  p_ofile :: "nat \<Rightarrow> nat option"
  p_cwd :: "nat option"
  p_name :: "byte list"
  p_trace_mask :: int
  p_birthtime :: uint
  p_staticPriority :: uint
  p_dynamicPriority :: uint
  p_niceness :: uint
  p_sched1 :: uint
  p_runtime :: uint
  p_sched2 :: uint
  p_inQ :: uint
  p_level :: uint
  p_timeinQ :: uint
  p_qEnter :: uint
  p_timeineachq :: "nat \<Rightarrow> uint"
  p_rtime :: uint
  p_ctime :: uint
  p_etime :: uint
  p_nrun :: uint

record procqueue =
  q_front :: int
  q_rear :: int
  q_list :: "nat \<Rightarrow> nat option"

record proc_state = vm_state +
  procs :: "nat \<Rightarrow> proc"
  nextpid :: int
  initproc :: "nat option"
  ticks :: uint
  mfq :: "nat \<Rightarrow> procqueue"
  sym :: "string \<Rightarrow> uint64"

text \<open>Offsets of \<open>struct trapframe\<close>.\<close>

definition TF_kernel_satp :: uint64 where [simp]: "TF_kernel_satp = 0"
definition TF_kernel_sp :: uint64 where [simp]: "TF_kernel_sp = 8"
definition TF_kernel_trap :: uint64 where [simp]: "TF_kernel_trap = 16"
definition TF_epc :: uint64 where [simp]: "TF_epc = 24"
definition TF_kernel_hartid :: uint64 where [simp]: "TF_kernel_hartid = 32"
definition TF_sp :: uint64 where [simp]: "TF_sp = 48"
definition TF_a0 :: uint64 where [simp]: "TF_a0 = 112"
definition TF_a1 :: uint64 where [simp]: "TF_a1 = 120"
definition TF_a2 :: uint64 where [simp]: "TF_a2 = 128"
definition TF_a3 :: uint64 where [simp]: "TF_a3 = 136"
definition TF_a4 :: uint64 where [simp]: "TF_a4 = 144"
definition TF_a5 :: uint64 where [simp]: "TF_a5 = 152"
definition TF_a7 :: uint64 where [simp]: "TF_a7 = 168"
definition TF_size :: uint where [simp]: "TF_size = 288"

section \<open>Access to the table\<close>

definition pget :: "nat \<Rightarrow> (proc \<Rightarrow> 'a) \<Rightarrow> ('z proc_state_scheme, 'a) prog" where
  "pget p f = gets (\<lambda>s. f (procs s p))"

definition pset :: "nat \<Rightarrow> (proc \<Rightarrow> proc) \<Rightarrow> ('z proc_state_scheme, unit) prog" where
  "pset p f = modify (\<lambda>s. s\<lparr>procs := (procs s)(p := f (procs s p))\<rparr>)"

definition myproc :: "('z hart_state_scheme, nat option) prog" where
  "myproc =
     seq push_off
    (bind (gets (cpu_proc \<circ> mycpu)) (\<lambda>p.
     seq pop_off (ret p)))"

definition curproc :: "('z hart_state_scheme, nat) prog" where
  "curproc = bind myproc (\<lambda>p. case p of None \<Rightarrow> panic ''kerneltrap'' | Some i \<Rightarrow> ret i)"

definition tf_read :: "nat \<Rightarrow> uint64 \<Rightarrow> ('z proc_state_scheme, uint64) prog" where
  "tf_read p off = gets (\<lambda>s. load64 (mem s) (p_trapframe (procs s p) + off))"

definition tf_write :: "nat \<Rightarrow> uint64 \<Rightarrow> uint64 \<Rightarrow> ('z proc_state_scheme, unit) prog" where
  "tf_write p off w = modify (\<lambda>s. s\<lparr>mem := store64 (mem s) (p_trapframe (procs s p) + off) w\<rparr>)"

section \<open>Boot and allocation\<close>

definition procinit :: "('z proc_state_scheme, unit) prog" where
  "procinit =
     block
      [initlock PidLock ''nextpid'',
       initlock WaitLock ''wait_lock'',
       forM [0..<NPROC] (\<lambda>p.
         seq (initlock (ProcLock p) ''proc'') (pset p (\<lambda>x. x\<lparr>p_kstack := KSTACK p\<rparr>)))]"

definition allocpid :: "('z proc_state_scheme, int) prog" where
  "allocpid =
     seq (acquire PidLock)
    (bind (gets nextpid) (\<lambda>pid.
     seq (modify (\<lambda>s. s\<lparr>nextpid := nextpid s + 1\<rparr>))
    (seq (release PidLock) (ret pid))))"

definition proc_pagetable :: "nat \<Rightarrow> ('z proc_state_scheme, uint64) prog" where
  "proc_pagetable p =
     bind uvmcreate (\<lambda>pagetable.
     if pagetable = 0 then ret 0
     else bind (gets trampoline) (\<lambda>tr.
          bind (mappages pagetable TRAMPOLINE PGSIZE tr (PTE_R OR PTE_X)) (\<lambda>r.
          if r < 0 then seq (uvmfree pagetable 0) (ret 0)
          else bind (pget p p_trapframe) (\<lambda>tf.
               bind (mappages pagetable TRAPFRAME PGSIZE tf (PTE_R OR PTE_W)) (\<lambda>r.
               if r < 0 then
                 seq (uvmunmap pagetable TRAMPOLINE 1 False) (seq (uvmfree pagetable 0) (ret 0))
               else ret pagetable)))))"

definition proc_freepagetable :: "uint64 \<Rightarrow> uint64 \<Rightarrow> ('z kmem_state_scheme, unit) prog" where
  "proc_freepagetable pagetable sz =
     block [uvmunmap pagetable TRAMPOLINE 1 False,
            uvmunmap pagetable TRAPFRAME 1 False,
            uvmfree pagetable sz]"

definition freeproc :: "nat \<Rightarrow> ('z proc_state_scheme, unit) prog" where
  "freeproc p =
     block
      [bind (pget p p_trapframe) (\<lambda>tf. whenM (tf \<noteq> 0) (kfree tf)),
       pset p (\<lambda>x. x\<lparr>p_trapframe := 0\<rparr>),
       bind (pget p p_pagetable) (\<lambda>pt. bind (pget p p_sz) (\<lambda>sz. whenM (pt \<noteq> 0) (proc_freepagetable pt sz))),
       pset p (\<lambda>x. x\<lparr>p_pagetable := 0, p_sz := 0, p_pid := 0, p_parent := None,
         p_name := (p_name x)[0 := 0], p_chan := NoChan, p_killed := 0, p_xstate := 0,
         p_state := UNUSED\<rparr>)]"

text \<open>The scheduling fields that \<open>allocproc\<close> sets in a fresh slot.\<close>

definition fresh_proc :: "int \<Rightarrow> uint \<Rightarrow> proc \<Rightarrow> proc" where
  "fresh_proc pid now x = x\<lparr>p_pid := pid, p_state := USED, p_birthtime := now, p_inQ := 0,
     p_qEnter := now, p_level := 0, p_timeinQ := push_bit 0 1, p_rtime := 0, p_etime := 0,
     p_timeineachq := (\<lambda>i. if i < 5 then 0 else p_timeineachq x i), p_nrun := 0,
     p_staticPriority := 60, p_niceness := 5\<rparr>"

definition zero_context :: kcontext where
  "zero_context = \<lparr>ctx_ra = 0, ctx_sp = 0, ctx_s0 = 0, ctx_s1 = 0, ctx_s2 = 0, ctx_s3 = 0, ctx_s4 = 0,
     ctx_s5 = 0, ctx_s6 = 0, ctx_s7 = 0, ctx_s8 = 0, ctx_s9 = 0, ctx_s10 = 0, ctx_s11 = 0\<rparr>"

definition allocproc :: "('z proc_state_scheme, nat option) prog" where
  "allocproc =
     bind (scanM [0..<NPROC] (\<lambda>p.
       seq (acquire (ProcLock p))
      (bind (pget p p_state) (\<lambda>st.
       if st = UNUSED then ret (Some p) else seq (release (ProcLock p)) (ret None))))) (\<lambda>found.
     case found of None \<Rightarrow> ret None
     | Some p \<Rightarrow>
         (let give_up = seq (freeproc p) (seq (release (ProcLock p)) (ret None)) in
          bind allocpid (\<lambda>pid.
          seq (bind (gets ticks) (\<lambda>now. pset p (fresh_proc pid now)))
         (bind kalloc (\<lambda>tf.
          seq (pset p (\<lambda>x. x\<lparr>p_trapframe := tf\<rparr>))
         (if tf = 0 then give_up
          else bind (proc_pagetable p) (\<lambda>pt.
            seq (pset p (\<lambda>x. x\<lparr>p_pagetable := pt\<rparr>))
           (if pt = 0 then give_up
            else bind (gets (\<lambda>s. sym s ''forkret'')) (\<lambda>pc.
              seq (pset p (\<lambda>x. x\<lparr>p_context := zero_context\<lparr>ctx_ra := pc, ctx_sp := p_kstack x + PGSIZE\<rparr>\<rparr>))
                  (ret (Some p)))))))))))"

text \<open>\<open>growproc\<close> keeps the size in a 32-bit variable.\<close>

definition growproc :: "int \<Rightarrow> ('z proc_state_scheme, int) prog" where
  "growproc n =
     bind curproc (\<lambda>p.
     bind (pget p p_pagetable) (\<lambda>pt.
     bind (pget p (\<lambda>x. ucast (p_sz x) :: uint)) (\<lambda>sz.
     if n > 0 then
       bind (uvmalloc pt (ucast sz) (ucast (sz + word_of_int n))) (\<lambda>r.
       if (ucast r :: uint) = 0 then ret (-1)
       else seq (pset p (\<lambda>x. x\<lparr>p_sz := ucast (ucast r :: uint)\<rparr>)) (ret 0))
     else if n < 0 then
       bind (uvmdealloc pt (ucast sz) (ucast (sz + word_of_int n))) (\<lambda>r.
       seq (pset p (\<lambda>x. x\<lparr>p_sz := ucast (ucast r :: uint)\<rparr>)) (ret 0))
     else seq (pset p (\<lambda>x. x\<lparr>p_sz := ucast sz\<rparr>)) (ret 0))))"

section \<open>Sleeping and waking\<close>

definition sched :: "('z proc_state_scheme, unit) prog \<Rightarrow> ('z proc_state_scheme, unit) prog" where
  "sched sw =
     bind curproc (\<lambda>p.
     seq (bind (gets (noff \<circ> mycpu)) (\<lambda>n. whenM (n \<noteq> 1) (panic ''sched locks'')))
    (seq (bind (pget p p_state) (\<lambda>st. whenM (st = RUNNING) (panic ''sched running'')))
    (seq (bind (gets intr_get) (\<lambda>on. whenM on (panic ''sched interruptible'')))
    (bind (gets (intena \<circ> mycpu)) (\<lambda>ie.
     seq sw (modify (mycpu_write (\<lambda>c. c\<lparr>intena := ie\<rparr>))))))))"

definition yield :: "('z proc_state_scheme, unit) prog \<Rightarrow> ('z proc_state_scheme, unit) prog" where
  "yield sw =
     bind curproc (\<lambda>p.
     block
      [acquire (ProcLock p),
       pset p (\<lambda>x. x\<lparr>p_state := RUNNABLE\<rparr>),
       bind (gets ticks) (\<lambda>now. pset p (\<lambda>x. x\<lparr>p_sched2 := now\<rparr>)),
       sched sw,
       release (ProcLock p)])"

definition sleep :: "('z proc_state_scheme, unit) prog \<Rightarrow> chan \<Rightarrow> lockid \<Rightarrow> ('z proc_state_scheme, unit) prog" where
  "sleep sw ch lk =
     bind curproc (\<lambda>p.
     block
      [acquire (ProcLock p),
       release lk,
       pset p (\<lambda>x. x\<lparr>p_chan := ch, p_state := SLEEPING\<rparr>),
       sched sw,
       pset p (\<lambda>x. x\<lparr>p_chan := NoChan\<rparr>),
       release (ProcLock p),
       acquire lk])"

definition wakeup :: "chan \<Rightarrow> ('z proc_state_scheme, unit) prog" where
  "wakeup ch =
     forM [0..<NPROC] (\<lambda>p.
       bind myproc (\<lambda>me.
       whenM (Some p \<noteq> me) (block
        [acquire (ProcLock p),
         bind (pget p (\<lambda>x. p_state x = SLEEPING \<and> p_chan x = ch)) (\<lambda>c.
           whenM c (bind (gets ticks) (\<lambda>now. pset p (\<lambda>x. x\<lparr>p_state := RUNNABLE, p_sched2 := now\<rparr>)))),
         release (ProcLock p)])))"

definition kill :: "int \<Rightarrow> ('z proc_state_scheme, int) prog" where
  "kill pid =
     bind (scanM [0..<NPROC] (\<lambda>p.
       seq (acquire (ProcLock p))
      (bind (pget p p_pid) (\<lambda>x.
       if x = pid then
         seq (pset p (\<lambda>x. x\<lparr>p_killed := 1\<rparr>))
        (seq (bind (pget p p_state) (\<lambda>st. whenM (st = SLEEPING)
                (bind (gets ticks) (\<lambda>now. pset p (\<lambda>x. x\<lparr>p_state := RUNNABLE, p_sched2 := now\<rparr>)))))
        (seq (release (ProcLock p)) (ret (Some 0))))
       else seq (release (ProcLock p)) (ret None))))) (\<lambda>r.
     ret (case r of None \<Rightarrow> -1 | Some v \<Rightarrow> v))"

definition reparent :: "nat \<Rightarrow> ('z proc_state_scheme, unit) prog" where
  "reparent p =
     forM [0..<NPROC] (\<lambda>pp.
       bind (pget pp p_parent) (\<lambda>par.
       whenM (par = Some p)
        (bind (gets initproc) (\<lambda>ip.
         seq (pset pp (\<lambda>x. x\<lparr>p_parent := ip\<rparr>))
             (wakeup (case ip of None \<Rightarrow> NoChan | Some i \<Rightarrow> ChanProc i))))))"

section \<open>Waiting for children\<close>

primrec le_bytes :: "nat \<Rightarrow> uint64 \<Rightarrow> byte list" where
  "le_bytes 0 w = []"
| "le_bytes (Suc n) w = ucast w # le_bytes n (drop_bit 8 w)"

definition int_bytes :: "int \<Rightarrow> byte list" where
  "int_bytes i = le_bytes 4 (word_of_int i)"

text \<open>One pass over the table. The result is \<open>Inl r\<close> when the function returns \<open>r\<close> (with both locks
  released), \<open>Inr havekids\<close> when it has found no zombie child. \<open>found np\<close> are the statements between
  finding the zombie and the \<open>copyout\<close>.\<close>

primrec wait_scan :: "(nat \<Rightarrow> ('z proc_state_scheme, 'x) prog) \<Rightarrow> nat \<Rightarrow> uint64 \<Rightarrow> nat list \<Rightarrow> bool \<Rightarrow>
    ('z proc_state_scheme, (int \<times> 'x) + bool) prog" where
  "wait_scan found p addr [] havekids = ret (Inr havekids)"
| "wait_scan found p addr (np # nps) havekids =
     bind (pget np p_parent) (\<lambda>par.
     if par = Some p then
       seq (acquire (ProcLock np))
      (bind (pget np p_state) (\<lambda>st.
       if st = ZOMBIE then
         bind (pget np p_pid) (\<lambda>pid.
         bind (found np) (\<lambda>x.
         bind (pget p p_pagetable) (\<lambda>pt.
         bind (pget np p_xstate) (\<lambda>xs.
         bind (if addr \<noteq> 0 then copyout pt addr (KObj (int_bytes xs)) 4 else ret 0) (\<lambda>r.
         if r < 0 then
           seq (release (ProcLock np)) (seq (release WaitLock) (ret (Inl (-1, x))))
         else
           seq (freeproc np)
          (seq (release (ProcLock np))
          (seq (release WaitLock) (ret (Inl (pid, x))))))))))
       else
         seq (release (ProcLock np)) (wait_scan found p addr nps True)))
     else wait_scan found p addr nps havekids)"

definition wait :: "('z proc_state_scheme, unit) prog \<Rightarrow> uint64 \<Rightarrow> ('z proc_state_scheme, int) prog" where
  "wait sw addr =
     bind curproc (\<lambda>p.
     seq (acquire WaitLock)
    (loopM (\<lambda>_.
       bind (wait_scan (\<lambda>_. ret ()) p addr [0..<NPROC] False) (\<lambda>r.
       case r of Inl (pid, _) \<Rightarrow> ret (Inr pid)
       | Inr havekids \<Rightarrow>
           bind (pget p p_killed) (\<lambda>k.
           if \<not> havekids \<or> k \<noteq> 0 then seq (release WaitLock) (ret (Inr (-1)))
           else seq (sleep sw (ChanProc p) WaitLock) (ret (Inl ()))))) ()))"

text \<open>\<open>waitx\<close> also stores the child's run time and wait time through its two pointer arguments: the
  second component of the result, when they were stored.\<close>

definition waitx :: "('z proc_state_scheme, unit) prog \<Rightarrow> uint64 \<Rightarrow>
    ('z proc_state_scheme, int \<times> (uint \<times> uint) option) prog" where
  "waitx sw addr =
     bind curproc (\<lambda>p.
     seq (acquire WaitLock)
    (loopM (\<lambda>_.
       bind (wait_scan (\<lambda>np. pget np (\<lambda>x. (p_rtime x, p_etime x - p_birthtime x - p_rtime x))) p addr [0..<NPROC] False)
       (\<lambda>r. case r of Inl (pid, rw) \<Rightarrow> ret (Inr (pid, Some rw))
       | Inr havekids \<Rightarrow>
           bind (pget p p_killed) (\<lambda>k.
           if \<not> havekids \<or> k \<noteq> 0 then seq (release WaitLock) (ret (Inr (-1, None)))
           else seq (sleep sw (ChanProc p) WaitLock) (ret (Inl ()))))) ()))"

section \<open>Copying to and from the current process\<close>

definition either_copyout :: "bool \<Rightarrow> uint64 \<Rightarrow> kptr \<Rightarrow> uint64 \<Rightarrow> ('z proc_state_scheme, int) prog" where
  "either_copyout user_dst dst src len =
     bind myproc (\<lambda>p.
     if user_dst then
       (case p of None \<Rightarrow> panic ''kerneltrap''
        | Some i \<Rightarrow> bind (pget i p_pagetable) (\<lambda>pt. copyout pt dst src len))
     else seq (modify (\<lambda>s. s\<lparr>mem := kmove (mem s) dst src (ucast len)\<rparr>)) (ret 0))"

definition either_copyin :: "bool \<Rightarrow> uint64 \<Rightarrow> uint64 \<Rightarrow> ('z proc_state_scheme, int \<times> byte list) prog" where
  "either_copyin user_src src len =
     bind myproc (\<lambda>p.
     if user_src then
       (case p of None \<Rightarrow> panic ''kerneltrap''
        | Some i \<Rightarrow> bind (pget i p_pagetable) (\<lambda>pt. copyin pt src len))
     else gets (\<lambda>s. (0, peek (mem s) src (unat (ucast len :: uint)))))"

definition setpriority_scan :: "int \<Rightarrow> int \<Rightarrow> ('z proc_state_scheme, int option) prog" where
  "setpriority_scan pid priority =
     scanM [0..<NPROC] (\<lambda>p.
       bind (pget p p_pid) (\<lambda>x.
       if x = pid then
         bind (pget p (\<lambda>x. sint (p_staticPriority x))) (\<lambda>temp.
         seq (pset p (\<lambda>x. x\<lparr>p_staticPriority := word_of_int priority, p_niceness := 5\<rparr>)) (ret (Some temp)))
       else ret None))"

definition setpriority :: "int \<Rightarrow> int \<Rightarrow> ('z proc_state_scheme, int) prog" where
  "setpriority pid priority =
     bind (setpriority_scan pid priority) (\<lambda>r. ret (case r of None \<Rightarrow> 0 | Some temp \<Rightarrow> temp))"

section \<open>Running the operations\<close>

lemma myproc_run: "intr_ok s \<Longrightarrow> myproc s = Ok (cpu_proc (mycpu s)) (settled s)"
proof -
  assume ok: "intr_ok s"
  then have "pop_off (pushed s) = Ok () (settled s)"
    using push_pop_matched [OF ok] by (auto simp: wp_iff seq_def bind_def push_off_run)
  then show ?thesis
    by (simp add: myproc_def seq_def bind_def push_off_run gets_def ret_def) (simp add: mycpu_def)
qed

lemma wp_myproc: "intr_ok s \<Longrightarrow> wp myproc Q s = Q (cpu_proc (mycpu s)) (settled s)"
  by (simp add: wp_def myproc_run)

lemma wp_curproc: "intr_ok s \<Longrightarrow> cpu_proc (mycpu s) = Some p \<Longrightarrow> wp curproc Q s = Q p (settled s)"
  by (simp add: curproc_def wp_bind wp_myproc wp_ret)

lemma wp_pget [wp_simps]: "wp (pget p f) Q = (\<lambda>s. Q (f (procs s p)) s)"
  by (simp add: pget_def wp_gets)

lemma wp_pset [wp_simps]: "wp (pset p f) Q = (\<lambda>s. Q () (s\<lparr>procs := (procs s)(p := f (procs s p))\<rparr>))"
  by (simp add: pset_def wp_modify)

text \<open>What a locked section sees and leaves of the process table.\<close>

lemma proc_fields [simp]:
  "procs (settled s) = procs s" "ticks (settled s) = ticks s" "initproc (settled s) = initproc s"
  "nextpid (settled s) = nextpid s" "mfq (settled s) = mfq s" "sym (settled s) = sym s"
  "procs (acquired lk s) = procs s" "ticks (acquired lk s) = ticks s" "initproc (acquired lk s) = initproc s"
  "nextpid (acquired lk s) = nextpid s" "mfq (acquired lk s) = mfq s" "sym (acquired lk s) = sym s"
  by (simp_all add: settled_def acquired_def pushed_def)

lemma procs_hart [simp]:
  "tp (s\<lparr>procs := P\<rparr>) = tp s" "mycpu (s\<lparr>procs := P\<rparr>) = mycpu s" "lock_idle lk (s\<lparr>procs := P\<rparr>) = lock_idle lk s"
  "intr_ok (s\<lparr>procs := P\<rparr>) = intr_ok s" "settled (s\<lparr>procs := P\<rparr>) = (settled s)\<lparr>procs := P\<rparr>"
  "acquired lk (s\<lparr>procs := P\<rparr>) = (acquired lk s)\<lparr>procs := P\<rparr>"
  by (simp_all add: mycpu_def lock_idle_def intr_ok_def intr_get_def settled_def acquired_def pushed_def)

lemma procs_same [simp]: "s\<lparr>procs := procs s\<rparr> = s" "(settled s)\<lparr>procs := procs s\<rparr> = settled s"
  by (simp, metis proc_fields(1) proc_state.surjective proc_state.update_convs(1))

lemma release_proc_section:
  assumes "lock_idle lk s" "intr_ok s"
  shows "release lk ((acquired lk s)\<lparr>procs := P\<rparr>) = Ok () ((settled s)\<lparr>procs := P\<rparr>)"
  using release_section [OF assms, of "(acquired lk s)\<lparr>procs := P\<rparr>"]
  by (simp add: acquired_def pushed_def settled_def)

lemma release_proc_section_same:
  assumes "lock_idle lk s" "intr_ok s"
  shows "release lk (acquired lk s) = Ok () (settled s)"
  using release_section [OF assms, of "acquired lk s"]
  by (simp add: acquired_def pushed_def settled_def)

lemma wp_release_section:
  assumes "lock_idle lk s" "intr_ok s"
  shows "wp (release lk) Q (acquired lk s) = Q () (settled s)"
    and "wp (release lk) Q ((acquired lk s)\<lparr>procs := P\<rparr>) = Q () ((settled s)\<lparr>procs := P\<rparr>)"
  by (simp_all add: wp_def release_proc_section [OF assms] release_proc_section_same [OF assms])

text \<open>States that differ from \<open>s\<close> only in the process table, up to the scratch field \<open>intena\<close>.\<close>

definition only_procs :: "'z proc_state_scheme \<Rightarrow> (nat \<Rightarrow> proc) \<Rightarrow> 'z proc_state_scheme \<Rightarrow> bool" where
  "only_procs s P t \<longleftrightarrow> settled t = (settled s)\<lparr>procs := P\<rparr>"

lemma only_procs_facts:
  assumes "only_procs s P t"
  shows "procs t = P" "lock_idle lk t = lock_idle lk s" "intr_ok t = intr_ok s"
    and "cpu_proc (mycpu t) = cpu_proc (mycpu s)" "ticks t = ticks s" "initproc t = initproc s"
    and "nextpid t = nextpid s" "mfq t = mfq s" "tp t = tp s" "mem t = mem s" "sym t = sym s"
proof -
  have eq: "settled t = (settled s)\<lparr>procs := P\<rparr>" using assms by (simp add: only_procs_def)
  show "procs t = P" "ticks t = ticks s" "initproc t = initproc s" "nextpid t = nextpid s" "mfq t = mfq s"
      "sym t = sym s"
    using arg_cong [OF eq, of procs] arg_cong [OF eq, of ticks] arg_cong [OF eq, of initproc]
      arg_cong [OF eq, of nextpid] arg_cong [OF eq, of mfq] arg_cong [OF eq, of sym] by simp_all
  show "tp t = tp s" "mem t = mem s"
    using arg_cong [OF eq, of tp] arg_cong [OF eq, of mem] by simp_all
  show "lock_idle lk t = lock_idle lk s" using arg_cong [OF eq, of "lock_idle lk"] by simp
  show "intr_ok t = intr_ok s" using arg_cong [OF eq, of intr_ok] by simp
  show "cpu_proc (mycpu t) = cpu_proc (mycpu s)"
    using arg_cong [OF eq, of "\<lambda>s. cpu_proc (mycpu s)"] by simp
qed

lemma only_procs_refl: "only_procs s (procs s) s"
  by (simp add: only_procs_def)

lemma only_procs_step: "only_procs s P t \<Longrightarrow> only_procs s P' ((settled t)\<lparr>procs := P'\<rparr>)"
  by (simp add: only_procs_def)

lemma only_procs_settled: "only_procs s P t \<Longrightarrow> only_procs s P (settled t)"
  by (simp add: only_procs_def)

lemma only_procs_self: "only_procs s P t \<Longrightarrow> only_procs s (procs t) t"
  using only_procs_facts(1) by metis

lemma only_procs_trans: "only_procs s P t \<Longrightarrow> only_procs t P' u \<Longrightarrow> only_procs s P' u"
  by (simp add: only_procs_def)

text \<open>A loop over the whole table whose body only touches the slot it is at.\<close>

lemma wp_each_proc:
  assumes "\<And>p P t. p < NPROC \<Longrightarrow> only_procs s P t \<Longrightarrow> P p = procs s p \<Longrightarrow>
      wp (body p) (\<lambda>_. only_procs t (P(p := F p (procs s p)))) t"
  shows "wp (forM [0..<NPROC] body) (\<lambda>_. only_procs s (\<lambda>p. if p < NPROC then F p (procs s p) else procs s p)) s"
proof (rule wp_forM [where I = "\<lambda>zs. only_procs s (\<lambda>p. if p \<in> set zs then F p (procs s p) else procs s p)"])
  let ?P = "\<lambda>zs p. if p \<in> set zs then F p (procs s p) else procs s p"
  show "only_procs s (?P []) s" by (simp add: only_procs_refl)
  fix p zs ys and t :: "'a proc_state_scheme"
  assume split: "[0..<NPROC] = zs @ p # ys" and I: "only_procs s (?P zs) t"
  have "p \<in> set [0..<NPROC]" by (simp only: split) simp
  moreover have "distinct (zs @ p # ys)" by (metis split distinct_upt)
  ultimately have p: "p < NPROC" "p \<notin> set zs" by (simp_all only: set_upt) auto
  have "(?P zs)(p := F p (procs s p)) = ?P (zs @ [p])" by auto
  with assms [OF p(1) I] p(2) show "wp (body p) (\<lambda>_. only_procs s (?P (zs @ [p]))) t"
    by (auto elim!: wp_mono intro: only_procs_trans [OF I])
qed simp

section \<open>Waking up\<close>

definition awakened :: "chan \<Rightarrow> nat option \<Rightarrow> uint \<Rightarrow> nat \<Rightarrow> proc \<Rightarrow> proc" where
  "awakened ch me now p x =
     (if me \<noteq> Some p \<and> p_state x = SLEEPING \<and> p_chan x = ch
      then x\<lparr>p_state := RUNNABLE, p_sched2 := now\<rparr> else x)"

text \<open>The locks a call of \<open>wakeup\<close> or \<open>kill\<close> takes.\<close>

definition others_idle :: "nat option \<Rightarrow> 'z hart_state_scheme \<Rightarrow> bool" where
  "others_idle me s \<longleftrightarrow> (\<forall>p < NPROC. me \<noteq> Some p \<longrightarrow> lock_idle (ProcLock p) s)"

lemma wakeup_wp:
  assumes idle: "others_idle (cpu_proc (mycpu s)) s" and ok: "intr_ok s"
  shows "wp (wakeup ch) (\<lambda>_. only_procs s (\<lambda>p. if p < NPROC then awakened ch (cpu_proc (mycpu s)) (ticks s) p (procs s p)
      else procs s p)) s"
  unfolding wakeup_def
proof (rule wp_each_proc)
  let ?me = "cpu_proc (mycpu s)"
  fix p P and t :: "'a proc_state_scheme"
  assume p: "p < NPROC" and I: "only_procs s P t" and px: "P p = procs s p"
  note f = only_procs_facts [OF I]
  have idle_p: "lock_idle (ProcLock p) (settled t)" if "Some p \<noteq> ?me"
    using that idle p f by (auto simp: others_idle_def)
  show "wp (bind myproc (\<lambda>me. whenM (Some p \<noteq> me) (block
      [acquire (ProcLock p),
       bind (pget p (\<lambda>x. p_state x = SLEEPING \<and> p_chan x = ch)) (\<lambda>c.
         whenM c (bind (gets ticks) (\<lambda>now. pset p (\<lambda>x. x\<lparr>p_state := RUNNABLE, p_sched2 := now\<rparr>)))),
       release (ProcLock p)]))) (\<lambda>_. only_procs t (P(p := awakened ch ?me (ticks s) p (procs s p)))) t"
  proof (cases "Some p \<noteq> ?me \<and> p_state (procs s p) = SLEEPING \<and> p_chan (procs s p) = ch")
    case True
    then have "awakened ch ?me (ticks s) p (procs s p) = (procs s p)\<lparr>p_state := RUNNABLE, p_sched2 := ticks s\<rparr>"
      by (auto simp: awakened_def)
    moreover have "only_procs t P' ((settled t)\<lparr>procs := P'\<rparr>)" for P' by (simp add: only_procs_def)
    ultimately show ?thesis
      using True ok px idle_p
      by (simp add: wp_bind wp_myproc wp_whenM wp_seq wp_acquire wp_pget wp_pset wp_gets wp_ret
          wp_release_section f)
  next
    case False
    then have "awakened ch ?me (ticks s) p (procs s p) = procs s p" by (auto simp: awakened_def)
    then have same: "P(p := awakened ch ?me (ticks s) p (procs s p)) = P" using px by auto
    have "only_procs t P (settled t)" using f(1) by (simp add: only_procs_def flip: f(1))
    with False show ?thesis
      unfolding same using ok px idle_p
      by (cases "Some p = ?me")
        (simp_all add: wp_bind wp_myproc wp_whenM wp_seq wp_acquire wp_pget wp_ret wp_release_section f, blast)
  qed
qed

section \<open>Killing\<close>

definition slain :: "uint \<Rightarrow> proc \<Rightarrow> proc" where
  "slain now x = (if p_state x = SLEEPING
     then x\<lparr>p_killed := 1, p_state := RUNNABLE, p_sched2 := now\<rparr> else x\<lparr>p_killed := 1\<rparr>)"

text \<open>A table scan that skips some slots and then stops at one.\<close>

lemma wp_scanM_skip:
  assumes skip: "\<And>x t. x \<in> set xs \<Longrightarrow> I t \<Longrightarrow> wp (f x) (\<lambda>r u. r = None \<and> I u) t"
    and stop: "\<And>t. I t \<Longrightarrow> wp (f y) (\<lambda>r u. \<exists>v. r = Some v \<and> Q (Some v) u) t"
    and start: "I s"
  shows "wp (scanM (xs @ y # ys) f) Q s"
  using skip start
proof (induction xs arbitrary: s)
  case Nil
  have "wp (f y) (\<lambda>r. wp (case r of None \<Rightarrow> scanM ys f | Some v \<Rightarrow> ret (Some v)) Q) s"
    by (rule wp_mono [OF stop [OF Nil.prems(2)]]) (auto simp: wp_ret)
  then show ?case by (simp add: wp_bind)
next
  case (Cons x xs)
  have "wp (f x) (\<lambda>r. wp (case r of None \<Rightarrow> scanM (xs @ y # ys) f | Some v \<Rightarrow> ret (Some v)) Q) s"
    by (rule wp_mono [OF Cons.prems(1) [of x]]) (use Cons in auto)
  then show ?case by (simp add: wp_bind)
qed

lemma wp_scanM_none:
  assumes skip: "\<And>x t. x \<in> set xs \<Longrightarrow> I t \<Longrightarrow> wp (f x) (\<lambda>r u. r = None \<and> I u) t"
    and start: "I s" and post: "\<And>t. I t \<Longrightarrow> Q None t"
  shows "wp (scanM xs f) Q s"
  using skip start
proof (induction xs arbitrary: s)
  case Nil
  then show ?case using post by (simp add: wp_ret)
next
  case (Cons x xs)
  have "wp (f x) (\<lambda>r. wp (case r of None \<Rightarrow> scanM xs f | Some v \<Rightarrow> ret (Some v)) Q) s"
    by (rule wp_mono [OF Cons.prems(1) [of x]]) (use Cons in auto)
  then show ?case by (simp add: wp_bind)
qed

definition all_idle :: "'z hart_state_scheme \<Rightarrow> bool" where
  "all_idle s \<longleftrightarrow> (\<forall>p < NPROC. lock_idle (ProcLock p) s)"

lemma upt_split_at: "p < NPROC \<Longrightarrow> [0..<NPROC] = [0..<p] @ p # [Suc p..<NPROC]"
  by (metis append_Cons append_Nil less_imp_le_nat upt_add_eq_append upt_conv_Cons zero_le le_add_diff_inverse add_0)

text \<open>\<open>kill\<close> passes over the slots with another pid and marks the first slot that has it.\<close>

definition kill_at :: "int \<Rightarrow> nat \<Rightarrow> ('z proc_state_scheme, int option) prog" where
  "kill_at pid p =
     seq (acquire (ProcLock p))
    (bind (pget p p_pid) (\<lambda>x.
     if x = pid then
       seq (pset p (\<lambda>x. x\<lparr>p_killed := 1\<rparr>))
      (seq (bind (pget p p_state) (\<lambda>st. whenM (st = SLEEPING)
              (bind (gets ticks) (\<lambda>now. pset p (\<lambda>x. x\<lparr>p_state := RUNNABLE, p_sched2 := now\<rparr>)))))
      (seq (release (ProcLock p)) (ret (Some 0))))
     else seq (release (ProcLock p)) (ret None)))"

lemma kill_unfold:
  "kill pid = bind (scanM [0..<NPROC] (kill_at pid)) (\<lambda>r. ret (case r of None \<Rightarrow> -1 | Some v \<Rightarrow> v))"
  unfolding kill_def kill_at_def by (rule refl)

lemma kill_at_other:
  assumes "lock_idle (ProcLock p) t" "intr_ok t" "p_pid (procs t p) \<noteq> pid"
  shows "kill_at pid p t = Ok None (settled t)"
  using assms acquire_free [of t "ProcLock p"] release_proc_section_same [OF assms(1,2)]
  by (simp add: kill_at_def seq_def bind_def pget_def gets_def ret_def lock_idle_def)

lemma kill_at_hit:
  assumes "lock_idle (ProcLock p) t" "intr_ok t" "p_pid (procs t p) = pid"
  shows "wp (kill_at pid p) (\<lambda>r u. r = Some 0 \<and> u = (settled t)\<lparr>procs := (procs t)(p := slain (ticks t) (procs t p))\<rparr>) t"
  using assms
  by (cases "p_state (procs t p) = SLEEPING")
    (simp_all add: kill_at_def wp_seq wp_bind wp_acquire wp_pget wp_pset wp_whenM wp_gets wp_ret
      wp_release_section slain_def)

lemma kill_hit_wp:
  assumes idle: "all_idle s" "intr_ok s" and p: "p < NPROC" "p_pid (procs s p) = pid"
    and first: "\<And>q. q < p \<Longrightarrow> p_pid (procs s q) \<noteq> pid"
  shows "wp (kill pid) (\<lambda>r t. r = 0 \<and> only_procs s ((procs s)(p := slain (ticks s) (procs s p))) t) s"
proof -
  have "wp (scanM ([0..<p] @ p # [Suc p..<NPROC]) (kill_at pid))
    (\<lambda>r t. r = Some 0 \<and> only_procs s ((procs s)(p := slain (ticks s) (procs s p))) t) s"
  proof (rule wp_scanM_skip [where I = "only_procs s (procs s)"])
    fix x and t :: "'a proc_state_scheme" assume "x \<in> set [0..<p]" and I: "only_procs s (procs s) t"
    with kill_at_other [of x t pid] show "wp (kill_at pid x) (\<lambda>r u. r = None \<and> only_procs s (procs s) u) t"
      using idle p(1) first only_procs_facts [OF I] only_procs_settled [OF I]
      by (simp add: all_idle_def wp_def)
  next
    fix t :: "'a proc_state_scheme" assume I: "only_procs s (procs s) t"
    note f = only_procs_facts [OF I]
    have "lock_idle (ProcLock p) t" "intr_ok t" "p_pid (procs t p) = pid"
      using idle p f by (simp_all add: all_idle_def)
    from kill_at_hit [OF this]
    show "wp (kill_at pid p) (\<lambda>r u. \<exists>v. r = Some v \<and> Some v = Some 0
        \<and> only_procs s ((procs s)(p := slain (ticks s) (procs s p))) u) t"
      by (rule wp_mono) (use only_procs_step [OF I] f in simp)
  qed (rule only_procs_refl)
  then show ?thesis
    unfolding kill_unfold upt_split_at [OF p(1)] by (auto simp: wp_bind wp_ret elim!: wp_mono)
qed

lemma kill_miss_wp:
  assumes idle: "all_idle s" "intr_ok s" and none: "\<And>q. q < NPROC \<Longrightarrow> p_pid (procs s q) \<noteq> pid"
  shows "wp (kill pid) (\<lambda>r t. r = -1 \<and> only_procs s (procs s) t) s"
proof -
  have "wp (scanM [0..<NPROC] (kill_at pid)) (\<lambda>r t. r = None \<and> only_procs s (procs s) t) s"
  proof (rule wp_scanM_none [where I = "only_procs s (procs s)"])
    fix x and t :: "'a proc_state_scheme" assume "x \<in> set [0..<NPROC]" and I: "only_procs s (procs s) t"
    with kill_at_other [of x t pid] show "wp (kill_at pid x) (\<lambda>r u. r = None \<and> only_procs s (procs s) u) t"
      using idle none only_procs_facts [OF I] only_procs_settled [OF I]
      by (simp add: all_idle_def wp_def)
  qed (simp_all add: only_procs_refl)
  then show ?thesis
    unfolding kill_unfold by (auto simp: wp_bind wp_ret elim!: wp_mono)
qed

section \<open>Properties\<close>

text \<open>A machine on which hart 0 runs process 0 and process 1 sleeps for the clock.\<close>

definition blank_proc :: proc where
  "blank_proc = \<lparr>p_state = UNUSED, p_chan = NoChan, p_killed = 0, p_xstate = 0, p_pid = 0, p_parent = None,
     p_kstack = 0, p_sz = 0, p_pagetable = 0, p_trapframe = 0, p_context = zero_context,
     p_ofile = (\<lambda>_. None), p_cwd = None, p_name = replicate 16 0, p_trace_mask = 0, p_birthtime = 0,
     p_staticPriority = 0, p_dynamicPriority = 0, p_niceness = 0, p_sched1 = 0, p_runtime = 0, p_sched2 = 0,
     p_inQ = 0, p_level = 0, p_timeinQ = 0, p_qEnter = 0, p_timeineachq = (\<lambda>_. 0), p_rtime = 0,
     p_ctime = 0, p_etime = 0, p_nrun = 0\<rparr>"

definition table0 :: "nat \<Rightarrow> proc" where
  "table0 = (\<lambda>_. blank_proc)
     (0 := blank_proc\<lparr>p_state := RUNNING, p_pid := 1\<rparr>,
      1 := blank_proc\<lparr>p_state := SLEEPING, p_chan := ChanTicks, p_pid := 2, p_parent := Some 0\<rparr>)"

definition machine0 :: "'z \<Rightarrow> 'z proc_state_scheme" where
  "machine0 z = (kmem0 \<lparr>kernel_pagetable = 0, etext = 0, trampoline = 0, procs = table0,
      nextpid = 3, initproc = Some 0, ticks = 77,
      mfq = (\<lambda>_. \<lparr>q_front = 0, q_rear = 0, q_list = (\<lambda>_. None)\<rparr>), sym = (\<lambda>_. 0), \<dots> = z\<rparr>)
    \<lparr>cpus := (\<lambda>_. cpu0\<lparr>cpu_proc := Some 0\<rparr>)\<rparr>"

lemma machine0_simps [simp]:
  "procs (machine0 z) = table0" "ticks (machine0 z) = 77" "cpu_proc (mycpu (machine0 z)) = Some 0"
  "lock_idle lk (machine0 z)" "intr_ok (machine0 z)" "nextpid (machine0 z) = 3"
  by (simp_all add: machine0_def kmem0_def hart0_def mycpu_def cpu0_def lock_idle_def intr_ok_def)

text \<open>C16: \<open>wakeup(chan)\<close> is exact: it makes every other process that sleeps on \<open>chan\<close> runnable and stamps it
  with the current tick, and it changes no other process, no lock and no interrupt state.\<close>

theorem wakeup_exact:
  assumes "others_idle (cpu_proc (mycpu s)) s" "intr_ok s"
  shows "wp (wakeup ch) (\<lambda>_ t. only_procs s (procs t) t \<and> (\<forall>p.
      procs t p = (if p < NPROC \<and> cpu_proc (mycpu s) \<noteq> Some p \<and> p_state (procs s p) = SLEEPING \<and> p_chan (procs s p) = ch
                   then (procs s p)\<lparr>p_state := RUNNABLE, p_sched2 := ticks s\<rparr> else procs s p))) s"
  by (rule wp_mono [OF wakeup_wp [OF assms]])
    (auto simp: awakened_def only_procs_facts(1) intro: only_procs_self)

theorem wakeup_exact_witness:
  "wp (wakeup ChanTicks) (\<lambda>_ t. p_state (procs t 1) = RUNNABLE \<and> p_sched2 (procs t 1) = 77
     \<and> p_state (procs t 0) = RUNNING) (machine0 ())"
proof -
  have "others_idle (cpu_proc (mycpu (machine0 ()))) (machine0 ())" by (simp add: others_idle_def)
  from wakeup_exact [OF this, of ChanTicks] show ?thesis
    by (auto elim!: wp_mono simp: table0_def blank_proc_def)
qed

text \<open>\<open>kill(pid)\<close>: if no slot has the pid it returns -1 and changes nothing; otherwise it marks exactly
  the first slot with that pid as killed, wakes it if it was asleep, and returns 0.\<close>

theorem kill_branches:
  assumes "all_idle s" "intr_ok s"
  shows "if \<forall>q < NPROC. p_pid (procs s q) \<noteq> pid
    then wp (kill pid) (\<lambda>r t. r = -1 \<and> only_procs s (procs s) t) s
    else \<exists>p < NPROC. p_pid (procs s p) = pid \<and> (\<forall>q < p. p_pid (procs s q) \<noteq> pid) \<and>
      wp (kill pid) (\<lambda>r t. r = 0 \<and> only_procs s ((procs s)(p := slain (ticks s) (procs s p))) t) s"
proof (cases "\<forall>q < NPROC. p_pid (procs s q) \<noteq> pid")
  case True
  with kill_miss_wp [OF assms, of pid] show ?thesis by simp
next
  case False
  define p where "p = (LEAST q. q < NPROC \<and> p_pid (procs s q) = pid)"
  have p: "p < NPROC \<and> p_pid (procs s p) = pid"
    unfolding p_def by (rule LeastI_ex) (use False in auto)
  have first: "p_pid (procs s q) \<noteq> pid" if "q < p" for q
    using not_less_Least [OF that [unfolded p_def]] that p by auto
  from kill_hit_wp [OF assms _ _ first] p first False show ?thesis by (auto simp del: NPROC_def)
qed

theorem kill_branches_witness:
  "wp (kill 9) (\<lambda>r t. r = -1) (machine0 ()) \<and>
   (\<exists>p. p_pid (table0 p) = 2 \<and> wp (kill 2) (\<lambda>r t. r = 0 \<and> p_killed (procs t p) = 1) (machine0 ()))"
proof
  have ok: "all_idle (machine0 ())" by (simp add: all_idle_def)
  have none: "\<forall>q < NPROC. p_pid (procs (machine0 ()) q) \<noteq> 9" by (simp add: table0_def blank_proc_def)
  show "wp (kill 9) (\<lambda>r t. r = -1) (machine0 ())"
    using kill_branches [OF ok, of 9] none by (auto elim!: wp_mono)
  have some: "\<not> (\<forall>q < NPROC. p_pid (procs (machine0 ()) q) \<noteq> 2)"
    by (simp add: table0_def blank_proc_def) (auto intro!: exI [of _ "Suc 0"])
  show "\<exists>p. p_pid (table0 p) = 2 \<and> wp (kill 2) (\<lambda>r t. r = 0 \<and> p_killed (procs t p) = 1) (machine0 ())"
    using kill_branches [OF ok, of 2] unfolding if_not_P [OF some]
    by (auto elim!: wp_mono dest!: only_procs_facts(1) simp: slain_def)
qed

end
