(* ===== verification/ProcQueue.thy ===== *)
theory ProcQueue
  imports Proc "HOL-Library.Signed_Division"
begin

text \<open>
  The ring buffers of the multi-level feedback queue in \<open>kernel/proc.c\<close>: \<open>pq_init\<close>,
  \<open>ProcQueueEnqueue\<close>, \<open>ProcQueueDequeue\<close> and \<open>ProcQueueRemove\<close>. A slot holds a process pointer, or
  \<open>None\<close> for 0. \<open>%\<close> is C's remainder (\<open>smod\<close>), and an index outside \<open>list[2*NPROC]\<close> ends the run with the
  message \<open>out of bounds\<close>.

  The refinement shows that a queue is a FIFO list of up to 64 entries under every sequence of enqueues and dequeues.
  The other lemmas describe what the code does outside that contract: a queue set up by \<open>pq_init\<close> starts with a null
  entry, and \<open>ProcQueueRemove\<close> never removes the process it is asked for.
\<close>

section \<open>Operations\<close>

definition slot :: "int \<Rightarrow> ('s, nat) prog" where
  "slot i = (if 0 \<le> i \<and> i < 2 * int NPROC then ret (nat i) else panic ''out of bounds'')"

definition empty_queue :: procqueue where
  "empty_queue = \<lparr>q_front = 0, q_rear = 0, q_list = (\<lambda>_. None)\<rparr>"

definition pq_init :: "('z proc_state_scheme, unit) prog" where
  "pq_init = forM [0..<5] (\<lambda>i. modify (\<lambda>s. s\<lparr>mfq := (mfq s)(i :=
     \<lparr>q_front = 0, q_rear = 0, q_list = (\<lambda>j. if j < 2 * NPROC then None else q_list (mfq s i) j)\<rparr>)\<rparr>))"

text \<open>A pointer to one of the queues is its index in \<open>mfq\<close>.\<close>

definition qset :: "nat \<Rightarrow> (procqueue \<Rightarrow> procqueue) \<Rightarrow> ('z proc_state_scheme, unit) prog" where
  "qset q f = modify (\<lambda>s. s\<lparr>mfq := (mfq s)(q := f (mfq s q))\<rparr>)"

definition ProcQueueEnqueue :: "nat \<Rightarrow> nat \<Rightarrow> ('z proc_state_scheme, unit) prog" where
  "ProcQueueEnqueue q p =
     block
      [bind (gets (\<lambda>s. q_front (mfq s q))) (\<lambda>f. whenM (f = -1) (qset q (\<lambda>x. x\<lparr>q_front := q_front x + 1\<rparr>))),
       qset q (\<lambda>x. x\<lparr>q_rear := (q_rear x + 1) smod int NPROC\<rparr>),
       bind (gets (\<lambda>s. q_rear (mfq s q))) (\<lambda>r. bind (slot r) (\<lambda>i.
         qset q (\<lambda>x. x\<lparr>q_list := (q_list x)(i := Some p)\<rparr>)))]"

definition ProcQueueDequeue :: "nat \<Rightarrow> ('z proc_state_scheme, nat option) prog" where
  "ProcQueueDequeue q =
     bind (gets (\<lambda>s. mfq s q)) (\<lambda>x.
     if q_front x = -1 then ret None
     else bind (slot (q_front x)) (\<lambda>i.
       seq (if q_front x = q_rear x
            then seq (qset q (\<lambda>x. x\<lparr>q_list := (q_list x)(i := None)\<rparr>))
                     (qset q (\<lambda>x. x\<lparr>q_front := -1, q_rear := -1\<rparr>))
            else qset q (\<lambda>x. x\<lparr>q_front := (q_front x + 1) smod int NPROC\<rparr>))
           (ret (q_list x i))))"

text \<open>The loop variable of \<open>ProcQueueRemove\<close> is set once and never changes.\<close>

definition ProcQueueRemove :: "nat \<Rightarrow> int \<Rightarrow> ('z proc_state_scheme, unit) prog" where
  "ProcQueueRemove q pid =
     bind (gets (\<lambda>s. q_front (mfq s q))) (\<lambda>i.
     block
      [loopM (\<lambda>_.
         bind (gets (\<lambda>s. mfq s q)) (\<lambda>x.
         if i < q_rear x then
           bind (slot i) (\<lambda>j.
           case q_list x j of None \<Rightarrow> panic ''kerneltrap''
           | Some e \<Rightarrow>
               bind (pget e p_pid) (\<lambda>epid.
               seq (whenM (epid = pid) (bind (slot (i + 1)) (\<lambda>j'.
                      seq (qset q (\<lambda>x. x\<lparr>q_list := (q_list x)(j := q_list x j')\<rparr>))
                          (qset q (\<lambda>x. x\<lparr>q_list := (q_list x)(j' := Some e)\<rparr>)))))
                   (ret (Inl ()))))
         else ret (Inr ()))) (),
       bind (gets (\<lambda>s. q_rear (mfq s q))) (\<lambda>r. bind (slot r) (\<lambda>j.
         qset q (\<lambda>x. x\<lparr>q_list := (q_list x)(j := None)\<rparr>))),
       qset q (\<lambda>x. x\<lparr>q_rear := q_rear x - 1\<rparr>)])"

section \<open>The queue as a list\<close>

definition q_ok :: "procqueue \<Rightarrow> bool" where
  "q_ok x \<longleftrightarrow> q_front x = -1 \<and> q_rear x = -1
     \<or> 0 \<le> q_front x \<and> q_front x < int NPROC \<and> 0 \<le> q_rear x \<and> q_rear x < int NPROC"

definition q_length :: "procqueue \<Rightarrow> nat" where
  "q_length x = (if q_front x = -1 then 0 else nat ((q_rear x - q_front x) mod int NPROC) + 1)"

definition q_contents :: "procqueue \<Rightarrow> nat option list" where
  "q_contents x = map (\<lambda>i. q_list x (nat ((q_front x + int i) mod int NPROC))) [0..<q_length x]"

text \<open>What a list does with a sequence of enqueues and dequeues: the answers of the dequeues and the final list, or
  nothing if it would grow beyond \<open>n\<close> entries.\<close>

datatype 'e qop = Enq 'e | Deq

fun list_ops :: "nat \<Rightarrow> 'e list \<Rightarrow> 'e qop list \<Rightarrow> ('e option list \<times> 'e list) option" where
  "list_ops n xs [] = Some ([], xs)"
| "list_ops n xs (Enq x # ops) = (if length xs < n then list_ops n (xs @ [x]) ops else None)"
| "list_ops n xs (Deq # ops) = (case list_ops n (tl xs) ops of None \<Rightarrow> None
     | Some (rs, ys) \<Rightarrow> Some ((if xs = [] then None else Some (hd xs)) # rs, ys))"

text \<open>A FIFO buffer of bounded size: the interface a scheduler needs.\<close>

locale fifo =
  fixes enq :: "'e \<Rightarrow> 's \<Rightarrow> (unit, 's) outcome"
    and deq :: "'s \<Rightarrow> ('e option, 's) outcome"
    and contents :: "'s \<Rightarrow> 'e list \<Rightarrow> bool"
    and capacity :: nat
  assumes enq_ok: "contents s xs \<Longrightarrow> length xs < capacity \<Longrightarrow> wp (enq x) (\<lambda>_ t. contents t (xs @ [x])) s"
    and deq_some: "contents s (x # xs) \<Longrightarrow> wp deq (\<lambda>r t. r = Some x \<and> contents t xs) s"
    and deq_none: "contents s [] \<Longrightarrow> wp deq (\<lambda>r t. r = None \<and> contents t []) s"
begin

text \<open>A sequence of operations, run on the implementation and on a list. Both give the answers of the dequeues; the
  list has none when it would grow beyond the capacity.\<close>

primrec run_ops :: "'e qop list \<Rightarrow> 's \<Rightarrow> ('e option list, 's) outcome" where
  "run_ops [] = ret []"
| "run_ops (a # ops) = (case a of
     Enq x \<Rightarrow> seq (enq x) (run_ops ops)
   | Deq \<Rightarrow> bind deq (\<lambda>r. bind (run_ops ops) (\<lambda>rs. ret (r # rs))))"

lemma run_ops_list:
  "contents s xs \<Longrightarrow> list_ops capacity xs ops = Some (rs, ys) \<Longrightarrow> wp (run_ops ops) (\<lambda>r t. r = rs \<and> contents t ys) s"
proof (induction ops arbitrary: s xs rs)
  case Nil
  then show ?case by (simp add: wp_ret)
next
  case (Cons a ops)
  show ?case
  proof (cases a)
    case (Enq x)
    with Cons.prems(2) have l: "length xs < capacity" "list_ops capacity (xs @ [x]) ops = Some (rs, ys)"
      by (auto split: if_splits)
    have "wp (enq x) (\<lambda>_ t. contents t (xs @ [x])) s" by (rule enq_ok [OF Cons.prems(1) l(1)])
    then show ?thesis using Cons.IH [OF _ l(2)] Enq by (auto simp: wp_seq elim!: wp_mono)
  next
    case Deq
    then obtain qs where qs: "list_ops capacity (tl xs) ops = Some (qs, ys)" "rs = (if xs = [] then None else Some (hd xs)) # qs"
      using Cons.prems(2) by (auto split: option.splits)
    have "wp deq (\<lambda>r t. r = (if xs = [] then None else Some (hd xs)) \<and> contents t (tl xs)) s"
      using Cons.prems(1) deq_none deq_some by (cases xs) auto
    then show ?thesis
      using Cons.IH [OF _ qs(1)] Deq qs(2) by (fastforce simp: wp_bind wp_ret elim!: wp_mono)
  qed
qed

end

section \<open>The ring buffers are FIFO\<close>

lemma ring_index: "i < 64 \<Longrightarrow> j < 64 \<Longrightarrow> ((f :: int) + int i) mod 64 = (f + int j) mod 64 \<longleftrightarrow> i = j"
proof
  assume i: "i < 64" and j: "j < 64" and eq: "(f + int i) mod 64 = (f + int j) mod 64"
  then have "64 dvd int i - int j" by (simp add: mod_eq_dvd_iff)
  with i j show "i = j" using dvd_imp_le_int [of "int i - int j" 64] by fastforce
qed simp

lemma ring_diff:
  assumes "0 \<le> a" "a < 64" "0 \<le> b" "b < (64 :: int)"
  shows "(a - b) mod 64 = (if b \<le> a then a - b else a - b + 64)"
proof (cases "b \<le> a")
  case False
  then have "(a - b + 64) mod 64 = a - b + 64" using assms by (intro mod_pos_pos_trivial) auto
  with False show ?thesis by simp
qed (use assms in simp)

lemma ring_next: "0 \<le> a \<Longrightarrow> a < 64 \<Longrightarrow> (a + 1) mod 64 = (if a = 63 then 0 else a + 1 :: int)"
  by auto

lemma smod_NPROC: "0 \<le> a \<Longrightarrow> a smod int NPROC = a mod 64"
  by (cases "a = 0") (simp_all add: signed_modulo_int_def signed_divide_int_def minus_mult_div_eq_mod)

lemma slot_mod: "slot (a mod 64) = ret (nat (a mod 64))"
  using pos_mod_bound [of 64 a] pos_mod_sign [of 64 a] by (simp add: slot_def) linarith

lemma slot_ok: "0 \<le> a \<Longrightarrow> a < 64 \<Longrightarrow> slot a = ret (nat a)"
  by (simp add: slot_def)

definition enqueued :: "nat \<Rightarrow> procqueue \<Rightarrow> procqueue" where
  "enqueued p x = (let f = (if q_front x = -1 then 0 else q_front x); r = (q_rear x + 1) mod 64 in
     x\<lparr>q_front := f, q_rear := r, q_list := (q_list x)(nat r := Some p)\<rparr>)"

definition dequeued :: "procqueue \<Rightarrow> procqueue" where
  "dequeued x = (if q_front x = q_rear x
     then x\<lparr>q_list := (q_list x)(nat (q_front x) := None), q_front := -1, q_rear := -1\<rparr>
     else x\<lparr>q_front := (q_front x + 1) mod 64\<rparr>)"

lemma q_front_ok: "q_ok x \<Longrightarrow> q_front x \<noteq> -1 \<Longrightarrow> 0 \<le> q_front x \<and> q_front x < 64 \<and> 0 \<le> q_rear x \<and> q_rear x < 64"
  by (auto simp: q_ok_def)

lemma Enqueue_run:
  assumes "q_ok (mfq s q)"
  shows "ProcQueueEnqueue q p s = Ok () (s\<lparr>mfq := (mfq s)(q := enqueued p (mfq s q))\<rparr>)"
proof -
  let ?x = "mfq s q"
  have r: "0 \<le> q_rear ?x + 1" using assms by (auto simp: q_ok_def)
  then have r': "(q_rear ?x + 1) smod int NPROC = (q_rear ?x + 1) mod 64" by (rule smod_NPROC)
  then show ?thesis
    by (simp add: slot_mod ProcQueueEnqueue_def qset_def seq_def bind_def gets_def modify_def whenM_def ret_def
        enqueued_def Let_def)
qed

lemma Dequeue_run:
  assumes "q_ok (mfq s q)" "q_front (mfq s q) \<noteq> -1"
  shows "ProcQueueDequeue q s =
    Ok (q_list (mfq s q) (nat (q_front (mfq s q)))) (s\<lparr>mfq := (mfq s)(q := dequeued (mfq s q))\<rparr>)"
proof -
  let ?x = "mfq s q"
  note ok = q_front_ok [OF assms]
  then have f: "(q_front ?x + 1) smod int NPROC = (q_front ?x + 1) mod 64" by (intro smod_NPROC) simp
  with ok assms(2) show ?thesis
    by (cases "q_front ?x = q_rear ?x")
      (simp_all add: slot_ok ProcQueueDequeue_def qset_def seq_def bind_def gets_def modify_def ret_def dequeued_def)
qed

lemma Dequeue_empty: "q_front (mfq s q) = -1 \<Longrightarrow> ProcQueueDequeue q s = Ok None s"
  by (simp add: ProcQueueDequeue_def bind_def gets_def ret_def)

lemma q_length_0: "q_ok x \<Longrightarrow> q_length x = 0 \<longleftrightarrow> q_front x = -1"
  by (simp add: q_length_def)

lemma enqueued_contents:
  assumes ok: "q_ok x" and room: "q_length x < 64"
  shows "q_ok (enqueued p x)" "q_contents (enqueued p x) = q_contents x @ [Some p]"
proof -
  show "q_ok (enqueued p x)"
    using ok pos_mod_bound [of 64 "q_rear x + 1"] pos_mod_sign [of 64 "q_rear x + 1"]
    by (auto simp: q_ok_def enqueued_def Let_def)
  show "q_contents (enqueued p x) = q_contents x @ [Some p]"
  proof (cases "q_front x = -1")
    case True
    with ok have "q_rear x = -1" by (simp add: q_ok_def)
    with True show ?thesis by (simp add: q_contents_def q_length_def enqueued_def Let_def)
  next
    case False
    note b = q_front_ok [OF ok False]
    let ?f = "q_front x" and ?n = "q_length x"
    have n: "int ?n = (q_rear x - ?f) mod 64 + 1" using False by (simp add: q_length_def)
    have r: "(q_rear x + 1) mod 64 = (?f + int ?n) mod 64"
      unfolding n by (metis add.assoc add_diff_eq add.commute diff_add_cancel mod_add_left_eq mod_add_right_eq)
    have "((?f + int ?n) mod 64 - ?f) mod 64 = int ?n mod 64"
      by (metis add_diff_cancel_left' mod_diff_left_eq)
    then have len: "q_length (enqueued p x) = Suc ?n"
      using False room unfolding q_length_def [of "enqueued p x"] by (simp add: enqueued_def Let_def r)
    have other: "nat ((?f + int i) mod 64) \<noteq> nat ((?f + int ?n) mod 64)" if "i < ?n" for i
    proof
      assume "nat ((?f + int i) mod 64) = nat ((?f + int ?n) mod 64)"
      then have "(?f + int i) mod 64 = (?f + int ?n) mod 64" by (subst (asm) nat_eq_iff2) simp
      then show False using ring_index [of i ?n ?f] that room by simp
    qed
    show ?thesis
      unfolding q_contents_def len using False other by (simp add: enqueued_def Let_def r)
  qed
qed

lemma dequeued_contents:
  assumes ok: "q_ok x" and ne: "q_contents x = c # cs"
  shows "q_list x (nat (q_front x)) = c" "q_ok (dequeued x)" "q_contents (dequeued x) = cs"
proof -
  have nz: "q_front x \<noteq> -1" using ne by (auto simp: q_contents_def q_length_def)
  note b = q_front_ok [OF ok nz]
  let ?f = "q_front x" and ?m = "nat ((q_rear x - q_front x) mod 64)"
  have len: "q_length x = Suc ?m" using nz by (simp add: q_length_def)
  have c: "q_contents x = q_list x (nat ?f) # map (\<lambda>i. q_list x (nat ((?f + 1 + int i) mod 64))) [0..<?m]"
    unfolding q_contents_def len using b
    by (simp add: upt_conv_Cons map_Suc_upt [symmetric] add.assoc del: upt_Suc)
  with ne show "q_list x (nat (q_front x)) = c" by simp
  show "q_ok (dequeued x)"
    using b pos_mod_bound [of 64 "?f + 1"] by (auto simp: q_ok_def dequeued_def)
  show "q_contents (dequeued x) = cs"
  proof (cases "?f = q_rear x")
    case True
    with ne c show ?thesis by (simp add: dequeued_def q_contents_def q_length_def)
  next
    case False
    have pos: "0 < (q_rear x - ?f) mod 64" using b False by (simp add: ring_diff)
    have "(q_rear x - (?f + 1) mod 64) mod 64 = (q_rear x - ?f) mod 64 - 1"
      using b False ring_next [of ?f] by (cases "?f = 63") (simp_all add: ring_diff)
    then have "q_length (dequeued x) = ?m"
      using False pos pos_mod_sign [of 64 "?f + 1"] by (auto simp: dequeued_def q_length_def)
    with ne c False show ?thesis
      by (simp add: q_contents_def dequeued_def mod_add_left_eq)
  qed
qed

text \<open>The processes queued at level \<open>q\<close>, next one first.\<close>

definition queued :: "nat \<Rightarrow> 'z proc_state_scheme \<Rightarrow> nat list \<Rightarrow> bool" where
  "queued q s ps \<longleftrightarrow> q_ok (mfq s q) \<and> q_contents (mfq s q) = map Some ps"

lemma q_contents_length [simp]: "length (q_contents x) = q_length x"
  by (simp add: q_contents_def)

interpretation mlq: fifo "ProcQueueEnqueue q" "ProcQueueDequeue q" "queued q" 64 for q
proof unfold_locales
  fix s :: "'a proc_state_scheme" and xs :: "nat list" and x :: nat
  show "wp (ProcQueueEnqueue q x) (\<lambda>_ t. queued q t (xs @ [x])) s" if q: "queued q s xs" "length xs < 64"
  proof -
    have "q_ok (mfq s q)" "q_length (mfq s q) < 64"
      using q by (simp_all add: queued_def) (metis length_map q_contents_length)
    with q(1) show ?thesis
      by (simp add: wp_def Enqueue_run queued_def enqueued_contents)
  qed
  show "wp (ProcQueueDequeue q) (\<lambda>r t. r = Some x \<and> queued q t xs) s" if "queued q s (x # xs)"
  proof -
    have c: "q_ok (mfq s q)" "q_contents (mfq s q) = Some x # map Some xs"
      using that by (simp_all add: queued_def)
    then have "q_front (mfq s q) \<noteq> -1" by (auto simp: q_contents_def q_length_def)
    with c dequeued_contents [OF c] show ?thesis
      by (simp add: wp_def Dequeue_run queued_def)
  qed
  show "wp (ProcQueueDequeue q) (\<lambda>r t. r = None \<and> queued q t []) s" if "queued q s []"
  proof -
    have "q_front (mfq s q) = -1" using that by (auto simp: queued_def q_contents_def q_length_def split: if_splits)
    with that show ?thesis by (simp add: wp_def Dequeue_empty)
  qed
qed

section \<open>Outside the contract\<close>

text \<open>The loop of \<open>ProcQueueRemove\<close> keeps looking at the same two entries.\<close>

definition remove_turn :: "nat \<Rightarrow> int \<Rightarrow> int \<Rightarrow> unit \<Rightarrow> ('z proc_state_scheme, unit + unit) prog" where
  "remove_turn q pid i = (\<lambda>_.
     bind (gets (\<lambda>s. mfq s q)) (\<lambda>x.
     if i < q_rear x then
       bind (slot i) (\<lambda>j.
       case q_list x j of None \<Rightarrow> panic ''kerneltrap''
       | Some e \<Rightarrow>
           bind (pget e p_pid) (\<lambda>epid.
           seq (whenM (epid = pid) (bind (slot (i + 1)) (\<lambda>j'.
                  seq (qset q (\<lambda>x. x\<lparr>q_list := (q_list x)(j := q_list x j')\<rparr>))
                      (qset q (\<lambda>x. x\<lparr>q_list := (q_list x)(j' := Some e)\<rparr>)))))
               (ret (Inl ()))))
     else ret (Inr ())))"

lemma remove_turn_run:
  assumes "0 \<le> i" "i < q_rear (mfq s q)" "q_rear (mfq s q) < int NPROC"
  shows "remove_turn q pid i () s = (case q_list (mfq s q) (nat i) of None \<Rightarrow> Panic ''kerneltrap''
     | Some e \<Rightarrow> if p_pid (procs s e) \<noteq> pid then Ok (Inl ()) s
         else Ok (Inl ()) (s\<lparr>mfq := (mfq s)(q := (mfq s q)\<lparr>q_list :=
           (q_list (mfq s q))(nat i := q_list (mfq s q) (nat (i + 1)), nat (i + 1) := Some e)\<rparr>)\<rparr>))"
  using assms
  by (simp add: remove_turn_def bind_def gets_def ret_def pget_def seq_def whenM_def qset_def modify_def panic_def slot_def
      split: option.split)

lemma Remove_unfold:
  "ProcQueueRemove q pid s = seq (loopM (remove_turn q pid (q_front (mfq s q))) ())
     (seq (bind (gets (\<lambda>s. q_rear (mfq s q))) (\<lambda>r. bind (slot r) (\<lambda>j.
         qset q (\<lambda>x. x\<lparr>q_list := (q_list x)(j := None)\<rparr>))))
     (seq (qset q (\<lambda>x. x\<lparr>q_rear := q_rear x - 1\<rparr>)) (ret ()))) s"
  by (simp add: ProcQueueRemove_def remove_turn_def bind_def gets_def)

text \<open>The front entry is another process's: the loop never changes anything.\<close>

lemma Remove_other:
  assumes i: "0 \<le> q_front (mfq s q)" "q_front (mfq s q) < q_rear (mfq s q)" "q_rear (mfq s q) < int NPROC"
    and e: "q_list (mfq s q) (nat (q_front (mfq s q))) = Some e" "p_pid (procs s e) \<noteq> pid"
  shows "ProcQueueRemove q pid s = Hang"
proof -
  have "loopM (remove_turn q pid (q_front (mfq s q))) () s = Hang"
    by (rule loopM_Hang [where I = "\<lambda>_ t. t = s"]) (use remove_turn_run [OF i] e in auto)
  then show ?thesis by (simp add: Remove_unfold seq_def bind_def)
qed

text \<open>The front entry and the next one are processes: the loop keeps looking at these two.\<close>

lemma Remove_swaps:
  assumes i: "0 \<le> q_front (mfq s q)" "q_front (mfq s q) < q_rear (mfq s q)" "q_rear (mfq s q) < int NPROC"
    and e: "q_list (mfq s q) (nat (q_front (mfq s q))) \<noteq> None" "q_list (mfq s q) (nat (q_front (mfq s q) + 1)) \<noteq> None"
  shows "ProcQueueRemove q pid s = Hang"
proof -
  let ?i = "q_front (mfq s q)"
  let ?I = "\<lambda>_ t. ?i < q_rear (mfq t q) \<and> q_rear (mfq t q) < int NPROC
    \<and> q_list (mfq t q) (nat ?i) \<noteq> None \<and> q_list (mfq t q) (nat (?i + 1)) \<noteq> None"
  have ne: "nat ?i \<noteq> nat (?i + 1)" using i by simp
  have "loopM (remove_turn q pid ?i) () s = Hang"
  proof (rule loopM_Hang [where I = ?I])
    fix x and t :: "'a proc_state_scheme" assume I: "?I x t"
    then show "\<exists>y u. remove_turn q pid ?i x t = Ok (Inl y) u \<and> ?I y u"
      using remove_turn_run [of ?i t q pid] i(1) ne by auto
  qed (use i e in simp)
  then show ?thesis by (simp add: Remove_unfold seq_def bind_def)
qed

text \<open>A null entry is dereferenced, in the first turn or after the swap.\<close>

lemma Remove_null:
  assumes i: "0 \<le> q_front (mfq s q)" "q_front (mfq s q) < q_rear (mfq s q)" "q_rear (mfq s q) < int NPROC"
    and e: "case q_list (mfq s q) (nat (q_front (mfq s q))) of None \<Rightarrow> True
      | Some e \<Rightarrow> p_pid (procs s e) = pid \<and> q_list (mfq s q) (nat (q_front (mfq s q) + 1)) = None"
  shows "ProcQueueRemove q pid s = Panic ''kerneltrap''"
proof -
  let ?i = "q_front (mfq s q)"
  have "loopM (remove_turn q pid ?i) () s = Panic ''kerneltrap''"
  proof (cases "q_list (mfq s q) (nat ?i)")
    case None
    then show ?thesis using remove_turn_run [OF i, of pid] by (subst loopM_unfold) (simp add: bind_def)
  next
    case (Some e)
    let ?t = "s\<lparr>mfq := (mfq s)(q := (mfq s q)\<lparr>q_list := (q_list (mfq s q))(nat ?i := None, nat (?i + 1) := Some e)\<rparr>)\<rparr>"
    have t: "remove_turn q pid ?i () s = Ok (Inl ()) ?t" using remove_turn_run [OF i, of pid] Some assms(4) by simp
    have u: "remove_turn q pid ?i () ?t = Panic ''kerneltrap''"
    proof -
      have "nat ?i \<noteq> nat (?i + 1)" using i(1) by simp
      then have "q_list (mfq ?t q) (nat ?i) = None" by simp
      with remove_turn_run [of ?i ?t q pid] i show ?thesis by simp
    qed
    show ?thesis
      by (subst loopM_unfold, simp only: bind_def t outcome.case sum.case, subst loopM_unfold, simp only: bind_def u outcome.case)
  qed
  then show ?thesis by (simp add: Remove_unfold seq_def bind_def)
qed

lemma Remove_empty:
  assumes "q_rear (mfq s q) = -1" "q_front (mfq s q) = -1"
  shows "ProcQueueRemove q pid s = Panic ''out of bounds''"
  using assms by (simp add: ProcQueueRemove_def bind_def gets_def seq_def loopM_unfold [of _ "()"] ret_def slot_def panic_def)

lemma Remove_drops_rear:
  assumes "q_rear (mfq s q) \<le> q_front (mfq s q)" "0 \<le> q_rear (mfq s q)" "q_rear (mfq s q) < 2 * int NPROC"
  shows "ProcQueueRemove q pid s = Ok () (s\<lparr>mfq := (mfq s)(q := (mfq s q)\<lparr>
      q_list := (q_list (mfq s q))(nat (q_rear (mfq s q)) := None), q_rear := q_rear (mfq s q) - 1\<rparr>)\<rparr>)"
  using assms
  by (simp add: ProcQueueRemove_def bind_def gets_def seq_def loopM_unfold [of _ "()"] ret_def slot_def qset_def
      modify_def)

lemma pq_init_wp:
  "wp pq_init (\<lambda>_ t. \<forall>q < 5. q_front (mfq t q) = 0 \<and> q_rear (mfq t q) = 0 \<and> q_list (mfq t q) 0 = None) s"
  unfolding pq_init_def
  by (rule wp_forM [where I = "\<lambda>zs t. \<forall>q \<in> set zs. q_front (mfq t q) = 0 \<and> q_rear (mfq t q) = 0
      \<and> q_list (mfq t q) 0 = None"])
    (auto simp: wp_modify)

section \<open>Properties\<close>

text \<open>C27: The ring buffer of one scheduling level is a FIFO queue for up to \<open>NPROC\<close> processes: from any state
  that represents a list, wherever in the ring it lies, every sequence of enqueues and dequeues that never holds more
  than \<open>NPROC\<close> processes gives the answers a list gives (0 when it is empty) and leaves a state that represents the
  final list; the indices wrap around as often as the sequence makes them.\<close>

theorem procqueue_fifo:
  assumes "queued q s xs" "list_ops NPROC xs ops = Some (rs, ys)"
  shows "wp (mlq.run_ops q ops) (\<lambda>r t. r = rs \<and> queued q t ys) s"
  using mlq.run_ops_list [of q s xs ops rs ys] assms by simp

theorem procqueue_fifo_witness:
  "wp (mlq.run_ops 2 [Enq 5, Deq, Enq 3, Deq, Deq, Enq 9, Deq, Deq])
     (\<lambda>rs t. rs = [Some 7, Some 8, Some 5, Some 3, Some 9] \<and> queued 2 t [])
     ((machine0 ())\<lparr>mfq := (\<lambda>_. \<lparr>q_front = 62, q_rear = 63, q_list = (\<lambda>i. Some (i - 55))\<rparr>)\<rparr>)"
proof -
  let ?s = "(machine0 ())\<lparr>mfq := (\<lambda>_. \<lparr>q_front = 62, q_rear = 63, q_list = (\<lambda>i. Some (i - 55))\<rparr>)\<rparr>"
  have "queued 2 ?s [7, 8]" by (simp add: queued_def q_ok_def q_contents_def q_length_def)
  from procqueue_fifo [OF this, of "[Enq 5, Deq, Enq 3, Deq, Deq, Enq 9, Deq, Deq]"] show ?thesis by simp
qed

text \<open>C28: \<open>ProcQueueRemove\<close> does not remove, on any queue: its loop variable is never advanced. On a queue that
  has not wrapped around and has at least two entries it never returns, or, if it comes upon a null entry at the front
  or (after swapping it there) next to the process it looks for, faults in the kernel; on a queue with one entry and on
  one that has wrapped around it drops the rear entry, whatever process it was asked for; on an empty queue it writes
  to \<open>list[-1]\<close>.\<close>

theorem ProcQueueRemove_behaviour:
  assumes "q_ok (mfq s q)"
  shows "ProcQueueRemove q pid s =
    (let x = mfq s q; f = q_front x; r = q_rear x in
     if f < r then (case q_list x (nat f) of None \<Rightarrow> Panic ''kerneltrap''
       | Some e \<Rightarrow> if p_pid (procs s e) = pid \<and> q_list x (nat (f + 1)) = None then Panic ''kerneltrap'' else Hang)
     else if r = -1 then Panic ''out of bounds''
     else Ok () (s\<lparr>mfq := (mfq s)(q := x\<lparr>q_list := (q_list x)(nat r := None), q_rear := r - 1\<rparr>)\<rparr>))"
proof (cases "q_front (mfq s q) < q_rear (mfq s q)")
  case True
  then have i: "0 \<le> q_front (mfq s q)" "q_rear (mfq s q) < int NPROC" using assms by (auto simp: q_ok_def)
  show ?thesis
    using Remove_null [OF i(1) True i(2), of pid] Remove_other [OF i(1) True i(2), of _ pid] Remove_swaps [OF i(1) True i(2), of pid] True
    by (auto simp: Let_def split: option.split)
next
  case False
  show ?thesis
  proof (cases "q_rear (mfq s q) = -1")
    case True
    with assms have "q_front (mfq s q) = -1" by (auto simp: q_ok_def)
    with True show ?thesis by (simp add: Remove_empty)
  next
    case nz: False
    with assms have "0 \<le> q_rear (mfq s q)" "q_rear (mfq s q) < 2 * int NPROC" by (auto simp: q_ok_def)
    with False nz show ?thesis by (simp add: Remove_drops_rear Let_def)
  qed
qed

theorem ProcQueueRemove_behaviour_witness:
  "ProcQueueRemove 1 7 ((machine0 ())\<lparr>mfq := (\<lambda>_. \<lparr>q_front = 0, q_rear = 1, q_list = (\<lambda>i. Some i)\<rparr>)\<rparr>) = Hang
   \<and> (\<exists>t. ProcQueueRemove 1 7 ((machine0 ())\<lparr>mfq := (\<lambda>_. \<lparr>q_front = 63, q_rear = 0, q_list = (\<lambda>i. Some i)\<rparr>)\<rparr>) = Ok () t
       \<and> q_rear (mfq t 1) = -1)"
  by (simp add: ProcQueueRemove_behaviour q_ok_def table0_def blank_proc_def)

text \<open>C29: A queue as \<open>pq_init\<close> leaves it is not empty but holds one null entry: the first dequeue after the
  first enqueue returns 0 as if nothing were queued, and only the second one returns the process.\<close>

theorem pq_init_null_entry:
  assumes "q < 5"
  shows "wp (seq pq_init (seq (ProcQueueEnqueue q p)
      (bind (ProcQueueDequeue q) (\<lambda>a. bind (ProcQueueDequeue q) (\<lambda>b. ret (a, b))))))
    (\<lambda>r t. r = (None, Some p)) s"
proof -
  obtain t where t: "pq_init s = Ok () t" "q_front (mfq t q) = 0" "q_rear (mfq t q) = 0" "q_list (mfq t q) 0 = None"
    using pq_init_wp [of s] assms by (auto simp: wp_iff)
  let ?x = "mfq t q"
  have ok: "q_ok ?x" "q_length ?x = 1" using t by (simp_all add: q_ok_def q_length_def)
  then have c: "q_contents ?x = [None]" using t by (simp add: q_contents_def)
  have e: "q_ok (enqueued p ?x)" "q_contents (enqueued p ?x) = [None, Some p]"
    using enqueued_contents [OF ok(1), of p] ok(2) c by simp_all
  note d1 = dequeued_contents [OF e]
  note d2 = dequeued_contents [OF d1(2,3)]
  have nz: "q_front (enqueued p ?x) \<noteq> -1" "q_front (dequeued (enqueued p ?x)) \<noteq> -1"
    using e(2) d1(3) by (auto simp: q_contents_def q_length_def)
  show ?thesis
    using t ok e d1 d2 nz
    by (simp add: wp_def seq_def bind_def Enqueue_run Dequeue_run ret_def)
qed

theorem pq_init_null_entry_witness:
  "wp (seq pq_init (seq (ProcQueueEnqueue 0 5)
      (bind (ProcQueueDequeue 0) (\<lambda>a. bind (ProcQueueDequeue 0) (\<lambda>b. ret (a, b))))))
    (\<lambda>r t. r = (None, Some 5)) (machine0 ())"
  by (rule pq_init_null_entry) simp

end
