(* ===== verification/Scheduler.thy ===== *)
theory Scheduler
  imports ProcQueue
begin

text \<open>
  The four schedulers of \<open>kernel/proc.c\<close> (chosen at compile time by \<open>DEFAULT_SCHEDULER\<close>, \<open>FCFS\<close>,
  \<open>PBS\<close> or \<open>MLFQ\<close>), the accounting done on every clock tick (\<open>RunningTime\<close>) and the ageing of the
  multi-level feedback queue. One turn of each scheduler's endless loop is a definition of its own.
  The argument \<open>sw\<close> is what happens from \<open>swtch\<close> to a process until it switches back.

  The lemmas show which process each scheduler runs, in what state and with which locks held, and
  that the dynamic priority stays between 0 and 100.
\<close>

section \<open>Accounting\<close>

definition tick_proc :: "proc \<Rightarrow> proc" where
  "tick_proc x = x\<lparr>p_runtime := p_runtime x + 1, p_rtime := p_rtime x + 1, p_timeinQ := p_timeinQ x - 1,
     p_timeineachq := (p_timeineachq x)(unat (p_level x) := p_timeineachq x (unat (p_level x)) + 1)\<rparr>"

definition RunningTime :: "('z proc_state_scheme, unit) prog" where
  "RunningTime =
     forM [0..<NPROC] (\<lambda>p. block
      [acquire (ProcLock p),
       bind (pget p p_state) (\<lambda>st. whenM (st = RUNNING) (pset p tick_proc)),
       release (ProcLock p)])"

section \<open>Running the chosen process\<close>

definition set_cpu_proc :: "nat option \<Rightarrow> ('z hart_state_scheme, unit) prog" where
  "set_cpu_proc p = modify (mycpu_write (\<lambda>c. c\<lparr>cpu_proc := p\<rparr>))"

definition forever :: "('s, unit) prog \<Rightarrow> ('s, unit) prog" where
  "forever m = loopM (\<lambda>_. seq m (ret (Inl ()))) ()"

section \<open>Round robin\<close>

definition default_round :: "(nat \<Rightarrow> ('z proc_state_scheme, unit) prog) \<Rightarrow> ('z proc_state_scheme, unit) prog" where
  "default_round sw =
     seq intr_on
    (forM [0..<NPROC] (\<lambda>p. block
      [acquire (ProcLock p),
       bind (pget p p_state) (\<lambda>st. whenM (st = RUNNABLE) (block
         [pset p (\<lambda>x. x\<lparr>p_state := RUNNING\<rparr>),
          set_cpu_proc (Some p),
          sw p,
          set_cpu_proc None])),
       release (ProcLock p)]))"

definition scheduler_default :: "(nat \<Rightarrow> ('z proc_state_scheme, unit) prog) \<Rightarrow> ('z proc_state_scheme, unit) prog" where
  "scheduler_default sw = seq (set_cpu_proc None) (forever (default_round sw))"

section \<open>First come, first served, and priority-based\<close>

text \<open>Both go through the table and keep the lock of the best runnable process so far: \<open>prep\<close> is what is
  done to each runnable process first, \<open>key\<close> what is minimised.\<close>

definition pick_lowest :: "(nat \<Rightarrow> ('z proc_state_scheme, unit) prog) \<Rightarrow> (proc \<Rightarrow> uint) \<Rightarrow>
    ('z proc_state_scheme, nat option) prog" where
  "pick_lowest prep key =
     foldM (\<lambda>p low.
       seq (acquire (ProcLock p))
      (bind (pget p p_state) (\<lambda>st.
       if st = RUNNABLE then
         seq (prep p)
        (case low of None \<Rightarrow> ret (Some p)
         | Some l \<Rightarrow>
             bind (pget p key) (\<lambda>kp. bind (pget l key) (\<lambda>kl.
             if kp < kl then seq (release (ProcLock l)) (ret (Some p))
             else seq (release (ProcLock p)) (ret (Some l)))))
       else seq (release (ProcLock p)) (ret low)))) [0..<NPROC] None"

definition fcfs_round :: "(nat \<Rightarrow> ('z proc_state_scheme, unit) prog) \<Rightarrow> ('z proc_state_scheme, unit) prog" where
  "fcfs_round sw =
     seq intr_on
    (bind (pick_lowest (\<lambda>_. ret ()) p_birthtime) (\<lambda>low.
     case low of None \<Rightarrow> ret ()
     | Some l \<Rightarrow> block
         [pset l (\<lambda>x. x\<lparr>p_nrun := p_nrun x + 1\<rparr>),
          pset l (\<lambda>x. x\<lparr>p_state := RUNNING\<rparr>),
          set_cpu_proc (Some l),
          sw l,
          set_cpu_proc None,
          release (ProcLock l)]))"

definition scheduler_fcfs :: "(nat \<Rightarrow> ('z proc_state_scheme, unit) prog) \<Rightarrow> ('z proc_state_scheme, unit) prog" where
  "scheduler_fcfs sw = seq (set_cpu_proc None) (forever (fcfs_round sw))"

text \<open>The arithmetic of the priority-based scheduler is on 32-bit unsigned integers. Dividing by zero is
  undefined in C; on RISC-V \<open>divu\<close> gives all ones.\<close>

definition divu :: "uint \<Rightarrow> uint \<Rightarrow> uint" where
  "divu a b = (if b = 0 then -1 else a div b)"

definition pbs_niceness :: "proc \<Rightarrow> uint" where
  "pbs_niceness x = divu (10 * (p_sched2 x - p_sched1 x - p_runtime x)) (p_sched2 x - p_sched1 x)"

definition pbs_temp :: "uint \<Rightarrow> uint \<Rightarrow> int" where
  "pbs_temp sp nice =
     (let temp = (if 100 < sp - nice + 5 then 100 else sint (sp - nice + 5)) in
      if temp < 0 then 0 else temp)"

definition pbs_prep :: "proc \<Rightarrow> proc" where
  "pbs_prep x = (let x = x\<lparr>p_niceness := pbs_niceness x\<rparr> in
     x\<lparr>p_dynamicPriority := word_of_int (pbs_temp (p_staticPriority x) (p_niceness x))\<rparr>)"

definition pbs_round :: "(nat \<Rightarrow> ('z proc_state_scheme, unit) prog) \<Rightarrow> ('z proc_state_scheme, unit) prog" where
  "pbs_round sw =
     bind (pick_lowest (\<lambda>p. pset p pbs_prep) p_dynamicPriority) (\<lambda>low.
     case low of None \<Rightarrow> ret ()
     | Some l \<Rightarrow> block
         [pset l (\<lambda>x. x\<lparr>p_nrun := p_nrun x + 1, p_state := RUNNING, p_runtime := 0\<rparr>),
          bind (gets ticks) (\<lambda>now. pset l (\<lambda>x. x\<lparr>p_sched1 := now\<rparr>)),
          set_cpu_proc (Some l),
          sw l,
          set_cpu_proc None,
          release (ProcLock l)])"

definition scheduler_pbs :: "(nat \<Rightarrow> ('z proc_state_scheme, unit) prog) \<Rightarrow> ('z proc_state_scheme, unit) prog" where
  "scheduler_pbs sw = seq intr_on (seq (set_cpu_proc None) (forever (pbs_round sw)))"

section \<open>Multi-level feedback queue\<close>

text \<open>\<open>mfq[p->level]\<close>; a level above 4 is outside the array.\<close>

definition mfq_level :: "nat \<Rightarrow> ('z proc_state_scheme, nat) prog" where
  "mfq_level p = bind (pget p (\<lambda>x. unat (p_level x))) (\<lambda>l. if l < 5 then ret l else panic ''out of bounds'')"

definition ageing :: "('z proc_state_scheme, unit) prog" where
  "ageing =
     forM [0..<NPROC] (\<lambda>p. block
      [acquire (ProcLock p),
       bind (gets ticks) (\<lambda>now. bind (pget p (\<lambda>x. p_state x = RUNNABLE \<and> now - p_qEnter x > 24)) (\<lambda>old.
         whenM old (block
          [bind (pget p p_inQ) (\<lambda>i. whenM (i = 1) (bind (mfq_level p) (\<lambda>q. bind (pget p p_pid) (\<lambda>pid.
             seq (ProcQueueRemove q pid) (pset p (\<lambda>x. x\<lparr>p_inQ := 0\<rparr>)))))),
           bind (pget p p_level) (\<lambda>l. whenM (l > 0) (seq
             (pset p (\<lambda>x. x\<lparr>p_level := p_level x - 1\<rparr>))
             (pset p (\<lambda>x. x\<lparr>p_timeinQ := push_bit (unat (p_level x)) 1\<rparr>)))),
           pset p (\<lambda>x. x\<lparr>p_qEnter := now\<rparr>)]))),
       release (ProcLock p)])"

definition enqueue_runnable :: "('z proc_state_scheme, unit) prog" where
  "enqueue_runnable =
     forM [0..<NPROC] (\<lambda>p. block
      [acquire (ProcLock p),
       bind (pget p (\<lambda>x. p_state x = RUNNABLE \<and> p_inQ x = 0)) (\<lambda>c. whenM c
         (seq (pset p (\<lambda>x. x\<lparr>p_inQ := 1\<rparr>)) (bind (mfq_level p) (\<lambda>q. ProcQueueEnqueue q p)))),
       release (ProcLock p)])"

text \<open>Taking processes off one level until a runnable one is found, whose lock is then held.\<close>

definition scan_level :: "nat \<Rightarrow> ('z proc_state_scheme, nat option) prog" where
  "scan_level i =
     bind (ProcQueueDequeue i) (\<lambda>first.
     loopM (\<lambda>temp.
       case temp of None \<Rightarrow> ret (Inr None)
       | Some t \<Rightarrow>
           seq (acquire (ProcLock t))
          (seq (pset t (\<lambda>x. x\<lparr>p_inQ := 0\<rparr>))
          (bind (pget t p_state) (\<lambda>st.
           if st = RUNNABLE then
             seq (bind (gets ticks) (\<lambda>now. pset t (\<lambda>x. x\<lparr>p_qEnter := now\<rparr>))) (ret (Inr (Some t)))
           else
             seq (release (ProcLock t)) (bind (ProcQueueDequeue i) (\<lambda>n. ret (Inl n))))))) first)"

definition mlfq_round :: "(nat \<Rightarrow> ('z proc_state_scheme, unit) prog) \<Rightarrow> ('z proc_state_scheme, unit) prog" where
  "mlfq_round sw =
     seq intr_on
    (seq ageing
    (seq enqueue_runnable
    (bind (scanM [0..<5] scan_level) (\<lambda>low.
     case low of None \<Rightarrow> ret ()
     | Some l \<Rightarrow> block
         [pset l (\<lambda>x. x\<lparr>p_nrun := p_nrun x + 1, p_state := RUNNING, p_runtime := 0\<rparr>),
          bind (gets ticks) (\<lambda>now. pset l (\<lambda>x. x\<lparr>p_sched1 := now\<rparr>)),
          set_cpu_proc (Some l),
          sw l,
          set_cpu_proc None,
          bind (gets ticks) (\<lambda>now. pset l (\<lambda>x. x\<lparr>p_qEnter := now\<rparr>)),
          release (ProcLock l)]))))"

definition scheduler_mlfq :: "(nat \<Rightarrow> ('z proc_state_scheme, unit) prog) \<Rightarrow> ('z proc_state_scheme, unit) prog" where
  "scheduler_mlfq sw = seq (set_cpu_proc None) (forever (mlfq_round sw))"

section \<open>Accounting is exact\<close>

lemma RunningTime_wp:
  assumes "all_idle s" "intr_ok s"
  shows "wp RunningTime (\<lambda>_. only_procs s (\<lambda>p. if p < NPROC
      then (if p_state (procs s p) = RUNNING then tick_proc (procs s p) else procs s p) else procs s p)) s"
  unfolding RunningTime_def
proof (rule wp_each_proc)
  fix p P and t :: "'a proc_state_scheme"
  assume p: "p < NPROC" and I: "only_procs s P t" and px: "P p = procs s p"
  note f = only_procs_facts [OF I]
  have l: "lock_idle (ProcLock p) t" "intr_ok t" using assms p f by (simp_all add: all_idle_def)
  have "only_procs t P' ((settled t)\<lparr>procs := P'\<rparr>)" for P' by (simp add: only_procs_def)
  moreover have "P(p := P p) = P" "only_procs t P (settled t)"
    by (simp_all add: only_procs_def flip: f(1))
  ultimately show "wp (block [acquire (ProcLock p),
       bind (pget p p_state) (\<lambda>st. whenM (st = RUNNING) (pset p tick_proc)), release (ProcLock p)])
     (\<lambda>_. only_procs t (P(p := if p_state (procs s p) = RUNNING then tick_proc (procs s p) else procs s p))) t"
    using l px [symmetric]
    by (cases "p_state (P p) = RUNNING")
      (simp_all add: wp_seq wp_bind wp_acquire wp_pget wp_pset wp_whenM wp_ret wp_release_section f)
qed

section \<open>The choice of a process\<close>

lemma with_locks_proc [simp]:
  "procs (with_locks L s) = procs s" "ticks (with_locks L s) = ticks s" "mfq (with_locks L s) = mfq s"
  by (simp_all add: with_locks_def)

lemma with_locks_procs: "(with_locks L s)\<lparr>procs := P\<rparr> = with_locks L (s\<lparr>procs := P\<rparr>)"
  by (rule proc_state.equality) (simp_all add: with_locks_def mycpu_def intr_get_def fun_eq_iff)

definition lowest :: "(proc \<Rightarrow> uint) \<Rightarrow> (nat \<Rightarrow> proc) \<Rightarrow> nat \<Rightarrow> nat option \<Rightarrow> bool" where
  "lowest key P n r \<longleftrightarrow> (case r of
     None \<Rightarrow> \<forall>q < n. p_state (P q) \<noteq> RUNNABLE
   | Some l \<Rightarrow> l < n \<and> p_state (P l) = RUNNABLE \<and> (\<forall>q < n. p_state (P q) = RUNNABLE \<longrightarrow>
       key (P l) \<le> key (P q) \<and> (q < l \<longrightarrow> key (P l) < key (P q))))"

definition held_lock :: "nat option \<Rightarrow> lockid set" where
  "held_lock r = (case r of None \<Rightarrow> {} | Some l \<Rightarrow> {ProcLock l})"

definition prepared :: "(proc \<Rightarrow> proc) \<Rightarrow> (nat \<Rightarrow> proc) \<Rightarrow> nat \<Rightarrow> nat \<Rightarrow> proc" where
  "prepared g P n q = (if q < n \<and> p_state (P q) = RUNNABLE then g (P q) else P q)"

lemma upt_decomp:
  assumes "[0..<N] = zs @ x # ys"
  shows "x = length zs \<and> x < N"
proof -
  have "length zs < length [0..<N]" unfolding assms by simp
  then have "length zs < N" by simp
  moreover have "[0..<N] ! length zs = x" unfolding assms by simp
  ultimately show ?thesis by simp
qed

lemma lowest_skip: "lowest key P n r \<Longrightarrow> p_state (P n) \<noteq> RUNNABLE \<Longrightarrow> lowest key P (Suc n) r"
  by (auto simp: lowest_def less_Suc_eq split: option.splits)

lemma lowest_first: "lowest key P n None \<Longrightarrow> p_state (P n) = RUNNABLE \<Longrightarrow> lowest key P (Suc n) (Some n)"
  by (auto simp: lowest_def less_Suc_eq)

lemma lowest_replace:
  "lowest key P n (Some l) \<Longrightarrow> p_state (P n) = RUNNABLE \<Longrightarrow> key (P n) < key (P l) \<Longrightarrow> lowest key P (Suc n) (Some n)"
  by (fastforce simp: lowest_def less_Suc_eq)

lemma lowest_keep:
  "lowest key P n (Some l) \<Longrightarrow> p_state (P n) = RUNNABLE \<Longrightarrow> \<not> key (P n) < key (P l) \<Longrightarrow> lowest key P (Suc n) (Some l)"
  by (auto simp: lowest_def less_Suc_eq)

lemma lowest_cong: "(\<And>q. q < n \<Longrightarrow> P q = P' q) \<Longrightarrow> lowest key P n r = lowest key P' n r"
  by (auto simp: lowest_def split: option.splits)

lemma acquire_settled:
  assumes "settled t = with_locks L u" "finite L" "lk \<notin> L" "lock_idle lk u" "intr_ok u"
  shows "acquire lk t = Ok () (with_locks (insert lk L) u)"
proof -
  have "acquired lk (settled t) = acquired lk t"
    by (simp add: acquired_def pushed_def settled_def mycpu_def intr_get_def)
  moreover have "\<not> locked (locks t lk)"
    using arg_cong [OF assms(1), of "\<lambda>s. locked (locks s lk)"] assms(3,4) by (simp add: lock_idle_def)
  ultimately show ?thesis
    using assms acquired_with_locks [OF assms(2,3,5)] by (simp add: acquire_free)
qed

lemma settled_with_id: "finite L \<Longrightarrow> intr_ok u \<Longrightarrow> t = with_locks L u \<Longrightarrow> settled t = with_locks L u"
  by simp

text \<open>One turn of the loop over the table.\<close>

lemma pick_step:
  assumes g: "\<And>x. p_state (g x) = p_state x"
    and prep: "\<And>t. prep p t = Ok () (t\<lparr>procs := (procs t)(p := g (procs t p))\<rparr>)"
    and idle: "all_idle s" "intr_ok s" and p: "p < NPROC"
    and low: "lowest key (prepared g (procs s) p) p low"
    and t: "settled t = with_locks (held_lock low) (s\<lparr>procs := prepared g (procs s) p\<rparr>)"
  shows "wp (seq (acquire (ProcLock p))
      (bind (pget p p_state) (\<lambda>st.
       if st = RUNNABLE then
         seq (prep p)
        (case low of None \<Rightarrow> ret (Some p)
         | Some l \<Rightarrow>
             bind (pget p key) (\<lambda>kp. bind (pget l key) (\<lambda>kl.
             if kp < kl then seq (release (ProcLock l)) (ret (Some p))
             else seq (release (ProcLock p)) (ret (Some l)))))
       else seq (release (ProcLock p)) (ret low))))
     (\<lambda>r u. lowest key (prepared g (procs s) (Suc p)) (Suc p) r
        \<and> settled u = with_locks (held_lock r) (s\<lparr>procs := prepared g (procs s) (Suc p)\<rparr>)) t"
proof -
  let ?P = "prepared g (procs s) p" and ?P' = "prepared g (procs s) (Suc p)"
  let ?u = "s\<lparr>procs := ?P\<rparr>" and ?u' = "s\<lparr>procs := ?P'\<rparr>"
  have idle': "lock_idle (ProcLock q) ?u'" "lock_idle (ProcLock q) ?u" if "q < NPROC" for q
    using idle(1) that by (simp_all add: all_idle_def)
  have iok: "intr_ok ?u'" "intr_ok ?u" using idle(2) by simp_all
  have lowP': "lowest key ?P' p low" using low by (subst lowest_cong [of _ _ ?P]) (auto simp: prepared_def)
  have st: "?P p = procs s p" "p_state (?P' p) = p_state (procs s p)" by (simp_all add: prepared_def g)
  have fin: "finite (held_lock low)" "ProcLock p \<notin> held_lock low"
    using low by (auto simp: held_lock_def lowest_def split: option.splits)
  have acq: "acquire (ProcLock p) t = Ok () (with_locks (insert (ProcLock p) (held_lock low)) ?u)"
    by (rule acquire_settled [OF t fin idle'(2) [OF p] iok(2)])
  show ?thesis
  proof (cases "p_state (procs s p) = RUNNABLE")
    case False
    have same: "?P' = ?P" using False by (auto simp: prepared_def less_Suc_eq)
    have "release (ProcLock p) (with_locks (insert (ProcLock p) (held_lock low)) ?u) = Ok () (with_locks (held_lock low) ?u)"
      using release_one_of [OF _ _ idle'(2) [OF p] iok(2), of "insert (ProcLock p) (held_lock low)"] fin by simp
    then show ?thesis
      using False acq st lowP' fin iok
      by (simp add: wp_def seq_def bind_def pget_def gets_def ret_def same lowest_skip)
  next
    case True
    have upd: "?P(p := g (procs s p)) = ?P'" using True by (auto simp: prepared_def less_Suc_eq)
    have run: "prep p (with_locks L ?u) = Ok () (with_locks L ?u')" for L
      by (simp add: prep st upd with_locks_procs)
    show ?thesis
    proof (cases low)
      case None
      have "lowest key ?P' (Suc p) (Some p)" using lowest_first lowP' None True st by metis
      with None True acq run st iok show ?thesis
        by (simp add: wp_def seq_def bind_def pget_def gets_def ret_def held_lock_def)
    next
      case (Some l)
      have l: "l < p" using low Some by (simp add: lowest_def)
      then have lN: "l < NPROC" using p by simp
      have rel: "release (ProcLock l) (with_locks {ProcLock p, ProcLock l} ?u') = Ok () (with_locks {ProcLock p} ?u')"
        "release (ProcLock p) (with_locks {ProcLock p, ProcLock l} ?u') = Ok () (with_locks {ProcLock l} ?u')"
        using release_one_of [OF _ _ idle'(1) [OF lN] iok(1), of "{ProcLock p, ProcLock l}"]
          release_one_of [OF _ _ idle'(1) [OF p] iok(1), of "{ProcLock p, ProcLock l}"] l
        by (simp_all add: insert_Diff_if)
      show ?thesis
        using Some True acq run st iok rel lowP' lowest_replace [of key ?P' p l] lowest_keep [of key ?P' p l]
        by (simp add: wp_def seq_def bind_def pget_def gets_def ret_def held_lock_def)
    qed
  qed
qed

lemma pick_lowest_wp:
  assumes g: "\<And>x. p_state (g x) = p_state x"
    and prep: "\<And>p t. prep p t = Ok () (t\<lparr>procs := (procs t)(p := g (procs t p))\<rparr>)"
    and idle: "all_idle s" "intr_ok s"
  shows "wp (pick_lowest prep key) (\<lambda>r t. lowest key (prepared g (procs s) NPROC) NPROC r
     \<and> settled t = with_locks (held_lock r) (s\<lparr>procs := prepared g (procs s) NPROC\<rparr>)) s"
  unfolding pick_lowest_def
proof (rule wp_foldM [where I = "\<lambda>zs r t. lowest key (prepared g (procs s) (length zs)) (length zs) r
     \<and> settled t = with_locks (held_lock r) (s\<lparr>procs := prepared g (procs s) (length zs)\<rparr>)"])
  have "prepared g (procs s) 0 = procs s" by (simp add: prepared_def fun_eq_iff)
  then show "lowest key (prepared g (procs s) (length ([] :: nat list))) (length ([] :: nat list)) None \<and>
      settled s = with_locks (held_lock None) (s\<lparr>procs := prepared g (procs s) (length ([] :: nat list))\<rparr>)"
    by (simp add: lowest_def held_lock_def)
next
  fix p zs ys low and t :: "'a proc_state_scheme"
  assume split: "[0..<NPROC] = zs @ p # ys"
    and I: "lowest key (prepared g (procs s) (length zs)) (length zs) low \<and>
      settled t = with_locks (held_lock low) (s\<lparr>procs := prepared g (procs s) (length zs)\<rparr>)"
  have p: "p = length zs" "p < NPROC" using upt_decomp [OF split] by auto
  note step = pick_step [where p = p and prep = prep, OF g prep idle p(2)]
  show "wp (seq (acquire (ProcLock p))
      (bind (pget p p_state) (\<lambda>st.
       if st = RUNNABLE then
         seq (prep p)
        (case low of None \<Rightarrow> ret (Some p)
         | Some l \<Rightarrow>
             bind (pget p key) (\<lambda>kp. bind (pget l key) (\<lambda>kl.
             if kp < kl then seq (release (ProcLock l)) (ret (Some p))
             else seq (release (ProcLock p)) (ret (Some l)))))
       else seq (release (ProcLock p)) (ret low))))
     (\<lambda>r u. lowest key (prepared g (procs s) (length (zs @ [p]))) (length (zs @ [p])) r
        \<and> settled u = with_locks (held_lock r) (s\<lparr>procs := prepared g (procs s) (length (zs @ [p]))\<rparr>)) t"
    using step [of key low t] I unfolding p(1) [symmetric] by (simp add: p(1) [symmetric])
qed simp

section \<open>Dispatching\<close>

definition enabled :: "'z hart_state_scheme \<Rightarrow> 'z hart_state_scheme" where
  "enabled s = s\<lparr>sstatus := sstatus s OR SSTATUS_SIE\<rparr>"

lemma enabled_procs [simp]:
  "procs (enabled s) = procs s" "ticks (enabled s) = ticks s" "(enabled s)\<lparr>procs := procs s\<rparr> = enabled s"
  by (simp_all add: enabled_def)

lemma enabled_simps [simp]:
  "noff (mycpu (enabled s)) = noff (mycpu s)"
  "lock_idle lk (enabled s) = lock_idle lk s" "all_idle (enabled s) = all_idle s"
  by (simp_all add: enabled_def mycpu_def lock_idle_def all_idle_def)

lemma enabled_ok: "noff (mycpu s) = 0 \<Longrightarrow> intr_ok (enabled s)"
  by (simp add: intr_ok_def)

lemma with_locks_cpu_proc:
  "mycpu_write (\<lambda>c. c\<lparr>cpu_proc := p\<rparr>) (with_locks L s) = with_locks L (mycpu_write (\<lambda>c. c\<lparr>cpu_proc := p\<rparr>) s)"
  by (rule hart_state.equality)
    (simp_all add: with_locks_def mycpu_write_def mycpu_def intr_get_def fun_eq_iff)

text \<open>The machine at the moment of the switch to process \<open>l\<close>.\<close>

definition on_cpu :: "nat \<Rightarrow> (proc \<Rightarrow> proc) \<Rightarrow> 'z proc_state_scheme \<Rightarrow> 'z proc_state_scheme" where
  "on_cpu l f s = with_locks {ProcLock l}
     (mycpu_write (\<lambda>c. c\<lparr>cpu_proc := Some l\<rparr>) (s\<lparr>procs := (procs s)(l := f (procs s l))\<rparr>))"

lemma on_cpu_holds:
  "procs (on_cpu l f s) = (procs s)(l := f (procs s l))" "cpu_proc (mycpu (on_cpu l f s)) = Some l"
  "holding (ProcLock l) (on_cpu l f s)"
  by (simp_all add: on_cpu_def holding_def, simp_all add: mycpu_write_def mycpu_def)

lemma fcfs_round_run:
  assumes "all_idle s" "noff (mycpu s) = 0"
  shows "\<exists>r t. lowest p_birthtime (procs s) NPROC r \<and> settled t = settled (enabled s) \<and>
    fcfs_round sw s = (case r of None \<Rightarrow> Ok () t
      | Some l \<Rightarrow> seq (sw l) (seq (set_cpu_proc None) (release (ProcLock l)))
          (on_cpu l (\<lambda>x. x\<lparr>p_nrun := p_nrun x + 1, p_state := RUNNING\<rparr>) (enabled s)))"
proof -
  let ?s = "enabled s"
  have id: "prepared (\<lambda>x. x) P n = P" for P n by (simp add: prepared_def fun_eq_iff)
  have prep: "ret () t = Ok () (t\<lparr>procs := (procs t)(p := procs t p)\<rparr>)" for p and t :: "'a proc_state_scheme"
    by (simp add: ret_def)
  have ok: "all_idle ?s" "intr_ok ?s" using assms by (simp_all add: enabled_ok)
  obtain r t where r: "pick_lowest (\<lambda>_. ret ()) p_birthtime ?s = Ok r t" "lowest p_birthtime (procs s) NPROC r"
      "settled t = with_locks (held_lock r) ?s"
    using pick_lowest_wp [of "\<lambda>x. x" "\<lambda>_. ret ()", OF refl prep ok, of p_birthtime]
    by (auto simp: wp_iff id)
  have intr: "intr_on s = Ok () ?s" by (simp add: intr_on_def modify_def enabled_def)
  show ?thesis
  proof (cases r)
    case None
    with r intr show ?thesis
      by (intro exI [of _ None] exI [of _ t]) (simp add: fcfs_round_def seq_def bind_def ret_def held_lock_def)
  next
    case (Some l)
    have "noff (mycpu t) = noff (mycpu (settled t))" by simp
    also have "\<dots> \<noteq> 0" unfolding r(3) using Some assms(2) by (simp add: held_lock_def)
    finally have t: "t = with_locks {ProcLock l} ?s"
      using settled_id [of t] r(3) Some by (simp add: held_lock_def)
    have "fcfs_round sw s = seq (sw l) (seq (set_cpu_proc None) (release (ProcLock l)))
        (on_cpu l (\<lambda>x. x\<lparr>p_nrun := p_nrun x + 1, p_state := RUNNING\<rparr>) ?s)"
      using r(1) intr Some
      by (simp add: fcfs_round_def seq_def bind_def ret_def t pset_def modify_def set_cpu_proc_def
          with_locks_procs with_locks_cpu_proc on_cpu_def)
    with r Some show ?thesis
      by (intro exI [of _ r] exI [of _ "enabled s"]) (simp del: settled_simps)
  qed
qed

lemma pbs_round_run:
  assumes "all_idle s" "noff (mycpu s) = 0" "intr_ok s"
  shows "\<exists>r t. lowest p_dynamicPriority (prepared pbs_prep (procs s) NPROC) NPROC r
    \<and> settled t = (settled s)\<lparr>procs := prepared pbs_prep (procs s) NPROC\<rparr> \<and>
    pbs_round sw s = (case r of None \<Rightarrow> Ok () t
      | Some l \<Rightarrow> seq (sw l) (seq (set_cpu_proc None) (release (ProcLock l)))
          (on_cpu l (\<lambda>x. x\<lparr>p_nrun := p_nrun x + 1, p_state := RUNNING, p_runtime := 0, p_sched1 := ticks s\<rparr>)
            (s\<lparr>procs := prepared pbs_prep (procs s) NPROC\<rparr>)))"
proof -
  let ?P = "prepared pbs_prep (procs s) NPROC"
  have g: "p_state (pbs_prep x) = p_state x" for x by (simp add: pbs_prep_def Let_def)
  have prep: "pset p pbs_prep t = Ok () (t\<lparr>procs := (procs t)(p := pbs_prep (procs t p))\<rparr>)"
    for p and t :: "'a proc_state_scheme" by (simp add: pset_def modify_def)
  obtain r t where r: "pick_lowest (\<lambda>p. pset p pbs_prep) p_dynamicPriority s = Ok r t"
      "lowest p_dynamicPriority ?P NPROC r" "settled t = with_locks (held_lock r) (s\<lparr>procs := ?P\<rparr>)"
    using pick_lowest_wp [of pbs_prep "\<lambda>p. pset p pbs_prep", OF g prep assms(1,3), of p_dynamicPriority]
    by (auto simp: wp_iff)
  show ?thesis
  proof (cases r)
    case None
    with r show ?thesis
      by (intro exI [of _ None] exI [of _ t]) (simp add: pbs_round_def seq_def bind_def ret_def held_lock_def)
  next
    case (Some l)
    have "noff (mycpu t) = noff (mycpu (settled t))" by simp
    also have "\<dots> \<noteq> 0" unfolding r(3) using Some assms(2) by (simp add: held_lock_def)
    finally have t: "t = with_locks {ProcLock l} (s\<lparr>procs := ?P\<rparr>)"
      using settled_id [of t] r(3) Some by (simp add: held_lock_def)
    have "pbs_round sw s = seq (sw l) (seq (set_cpu_proc None) (release (ProcLock l)))
        (on_cpu l (\<lambda>x. x\<lparr>p_nrun := p_nrun x + 1, p_state := RUNNING, p_runtime := 0, p_sched1 := ticks s\<rparr>)
          (s\<lparr>procs := ?P\<rparr>))"
      using r(1) Some
      by (simp add: pbs_round_def seq_def bind_def ret_def t pset_def modify_def set_cpu_proc_def gets_def
          with_locks_procs with_locks_cpu_proc on_cpu_def)
    with r Some show ?thesis
      by (intro exI [of _ r] exI [of _ "s\<lparr>procs := ?P\<rparr>"]) simp
  qed
qed

lemma sint_small:
  assumes "uint (w :: uint) < 2147483648"
  shows "sint w = uint w"
proof -
  have "- (2 ^ 31) \<le> uint w" using uint_ge_0 [of w] by (rule order_trans [rotated]) simp
  moreover have "uint w < 2 ^ 31" using assms by simp
  ultimately have "signed_take_bit 31 (uint w) = uint w" by (rule signed_take_bit_int_eq_self)
  then show ?thesis by (simp add: sint_uint)
qed

lemma pbs_temp_value: "pbs_temp sp nice = min 100 (uint (sp - nice + 5))"
proof (cases "100 < sp - nice + 5")
  case True
  then have "100 < uint (sp - nice + 5)" by (simp add: word_less_def)
  with True show ?thesis by (simp add: pbs_temp_def)
next
  case False
  then have "uint (sp - nice + 5) \<le> 100" by (simp add: word_less_def)
  with False show ?thesis
    using sint_small [of "sp - nice + 5"] uint_ge_0 [of "sp - nice + 5"] by (simp add: pbs_temp_def Let_def)
qed

section \<open>Properties\<close>

text \<open>C17: One turn of the FCFS scheduler runs the oldest runnable process: no runnable process was born earlier,
  and among equals it is the first in the table. At the switch only that process's lock is held, it
  is marked RUNNING and as the current process, and its run counter is one higher. If nothing is
  runnable, nothing changes.\<close>

theorem fcfs_runs_oldest:
  assumes "all_idle s" "noff (mycpu s) = 0"
  shows "\<exists>r t. lowest p_birthtime (procs s) NPROC r \<and> settled t = settled (enabled s) \<and>
    fcfs_round sw s = (case r of None \<Rightarrow> Ok () t
      | Some l \<Rightarrow> seq (sw l) (seq (set_cpu_proc None) (release (ProcLock l)))
          (on_cpu l (\<lambda>x. x\<lparr>p_nrun := p_nrun x + 1, p_state := RUNNING\<rparr>) (enabled s)))"
  by (rule fcfs_round_run [OF assms])

definition ready_pair :: "nat \<Rightarrow> proc" where
  "ready_pair = (\<lambda>_. blank_proc)
     (3 := blank_proc\<lparr>p_state := RUNNABLE, p_pid := 4, p_birthtime := 9, p_staticPriority := 60, p_sched2 := 10\<rparr>,
      8 := blank_proc\<lparr>p_state := RUNNABLE, p_pid := 5, p_birthtime := 2, p_staticPriority := 60, p_sched2 := 10,
             p_runtime := 10\<rparr>)"

lemma ready_pair_machine:
  "all_idle ((machine0 ())\<lparr>procs := ready_pair\<rparr>)" "noff (mycpu ((machine0 ())\<lparr>procs := ready_pair\<rparr>)) = 0"
  "intr_ok ((machine0 ())\<lparr>procs := ready_pair\<rparr>)"
  by (simp_all add: all_idle_def machine0_def kmem0_def hart0_def mycpu_def cpu0_def lock_idle_def intr_ok_def)

theorem fcfs_runs_oldest_witness:
  "fcfs_round (\<lambda>l. panic (if l = 8 then ''runs 8'' else ''runs another'')) ((machine0 ())\<lparr>procs := ready_pair\<rparr>)
     = Panic ''runs 8''"
proof -
  let ?s = "(machine0 ())\<lparr>procs := ready_pair\<rparr>"
  let ?sw = "(\<lambda>l. panic (if l = 8 then ''runs 8'' else ''runs another'')) :: nat \<Rightarrow> (proc_state, unit) prog"
  obtain r t where r: "lowest p_birthtime (procs ?s) NPROC r"
    "fcfs_round ?sw ?s = (case r of None \<Rightarrow> Ok () t
      | Some l \<Rightarrow> seq (?sw l) (seq (set_cpu_proc None) (release (ProcLock l)))
          (on_cpu l (\<lambda>x. x\<lparr>p_nrun := p_nrun x + 1, p_state := RUNNING\<rparr>) (enabled ?s)))"
    using fcfs_runs_oldest [OF ready_pair_machine(1,2), of ?sw] by blast
  have "r = Some 8"
  proof (cases r)
    case None
    with r(1) have "p_state (ready_pair 8) \<noteq> RUNNABLE" by (auto simp: lowest_def)
    then show ?thesis by (simp add: ready_pair_def)
  next
    case (Some l)
    have "p_state (ready_pair 8) = RUNNABLE" by (simp add: ready_pair_def)
    with Some have l: "p_state (ready_pair l) = RUNNABLE" "p_birthtime (ready_pair l) \<le> p_birthtime (ready_pair 8)"
      using r(1) by (auto simp: lowest_def)
    then show ?thesis using Some by (auto simp: ready_pair_def blank_proc_def split: if_splits)
  qed
  then show ?thesis using r(2) by (simp add: seq_def bind_def panic_def)
qed

text \<open>C18: One turn of the priority-based scheduler recomputes niceness and dynamic priority of every runnable
  process and of no other, and runs a runnable process of least dynamic priority (the first in the
  table among equals), with its slice counters reset.\<close>

theorem pbs_runs_lowest:
  assumes "all_idle s" "noff (mycpu s) = 0" "intr_ok s"
  shows "\<exists>r t. lowest p_dynamicPriority (prepared pbs_prep (procs s) NPROC) NPROC r
    \<and> settled t = (settled s)\<lparr>procs := prepared pbs_prep (procs s) NPROC\<rparr> \<and>
    pbs_round sw s = (case r of None \<Rightarrow> Ok () t
      | Some l \<Rightarrow> seq (sw l) (seq (set_cpu_proc None) (release (ProcLock l)))
          (on_cpu l (\<lambda>x. x\<lparr>p_nrun := p_nrun x + 1, p_state := RUNNING, p_runtime := 0, p_sched1 := ticks s\<rparr>)
            (s\<lparr>procs := prepared pbs_prep (procs s) NPROC\<rparr>)))"
  by (rule pbs_round_run [OF assms])

text \<open>Processes 3 and 8 of \<open>ready_pair\<close> differ in how long they ran: 3 slept all the time (niceness 10, priority
  55), 8 ran all the time (niceness 0, priority 65).\<close>

theorem pbs_runs_lowest_witness:
  "pbs_round (\<lambda>l. panic (if l = 3 then ''runs 3'' else ''runs another'')) ((machine0 ())\<lparr>procs := ready_pair\<rparr>)
     = Panic ''runs 3''"
proof -
  let ?s = "(machine0 ())\<lparr>procs := ready_pair\<rparr>"
  let ?P = "prepared pbs_prep ready_pair NPROC"
  let ?sw = "(\<lambda>l. panic (if l = 3 then ''runs 3'' else ''runs another'')) :: nat \<Rightarrow> (proc_state, unit) prog"
  obtain r t where r: "lowest p_dynamicPriority ?P NPROC r"
    "pbs_round ?sw ?s = (case r of None \<Rightarrow> Ok () t
      | Some l \<Rightarrow> seq (?sw l) (seq (set_cpu_proc None) (release (ProcLock l)))
          (on_cpu l (\<lambda>x. x\<lparr>p_nrun := p_nrun x + 1, p_state := RUNNING, p_runtime := 0, p_sched1 := ticks ?s\<rparr>)
            (?s\<lparr>procs := prepared pbs_prep (procs ?s) NPROC\<rparr>)))"
    using pbs_runs_lowest [OF ready_pair_machine, of ?sw] by auto
  have prio: "p_state (?P 3) = RUNNABLE" "p_dynamicPriority (?P 3) = 55" "p_dynamicPriority (?P 8) = 65"
    "p_state (?P l) = RUNNABLE \<longleftrightarrow> l = 3 \<or> l = 8" for l
    by (simp_all add: prepared_def ready_pair_def blank_proc_def pbs_prep_def pbs_niceness_def divu_def pbs_temp_def Let_def)
  have "r = Some 3"
  proof (cases r)
    case None
    then show ?thesis using r(1) prio(1) by (auto simp: lowest_def)
  next
    case (Some l)
    then have l: "p_state (?P l) = RUNNABLE" "p_dynamicPriority (?P l) \<le> p_dynamicPriority (?P 3)"
      using r(1) prio(1) by (auto simp: lowest_def)
    then show ?thesis using Some prio by auto
  qed
  then show ?thesis using r(2) by (simp add: seq_def bind_def panic_def)
qed

text \<open>C19: The dynamic priority is between 0 and 100 for every process, whatever its fields hold: it is
  \<open>staticPriority - niceness + 5\<close> computed modulo $2^{32}$, capped at 100. The clamping to 0 of a
  priority that comes out negative never happens, as the subtraction is unsigned: for a niceness above
  \<open>staticPriority + 5\<close> (up to $2^{31}$, with a static priority of at most 100) the result is 100, the worst priority,
  instead of 0. A process that was scheduled and woken in the same tick divides by zero; its niceness is then all ones
  and its priority \<open>staticPriority + 6\<close>, capped at 100.\<close>

theorem pbs_priority_range:
  "uint (p_dynamicPriority (pbs_prep x)) = min 100 ((uint (p_staticPriority x) - uint (pbs_niceness x) + 5) mod 2 ^ 32)
   \<and> uint (p_dynamicPriority (pbs_prep x)) \<le> 100
   \<and> (uint (p_staticPriority x) \<le> 100 \<and> uint (p_staticPriority x) + 5 < uint (pbs_niceness x) \<and> uint (pbs_niceness x) \<le> 2 ^ 31
        \<longrightarrow> uint (p_dynamicPriority (pbs_prep x)) = 100)
   \<and> (uint (p_staticPriority x) \<le> 100 \<and> p_sched1 x = p_sched2 x
        \<longrightarrow> uint (p_dynamicPriority (pbs_prep x)) = min 100 (uint (p_staticPriority x) + 6))"
  (is "?d = min 100 (?v mod _) \<and> _ \<and> (?A \<longrightarrow> _) \<and> (?B \<longrightarrow> _)")
proof -
  let ?a = "p_staticPriority x" and ?b = "pbs_niceness x"
  have dyn: "p_dynamicPriority (pbs_prep x) = word_of_int (pbs_temp ?a ?b)"
    by (simp add: pbs_prep_def Let_def)
  have val: "uint (?a - ?b + 5) = ?v mod 2 ^ 32"
    by (simp add: uint_word_ariths mod_simps)
  have "uint (word_of_int k :: uint) = k" if "0 \<le> k" "k \<le> 100" for k
    using that by (simp add: uint_word_of_int)
  then have d: "?d = min 100 (?v mod 2 ^ 32)"
    unfolding dyn pbs_temp_value val by simp
  have wrap: "?v mod 2 ^ 32 = ?v + 2 ^ 32" if "- (2 ^ 32) \<le> ?v" "?v < 0"
  proof -
    have "(?v + 2 ^ 32) mod 2 ^ 32 = ?v + 2 ^ 32" using that by (intro mod_pos_pos_trivial) linarith+
    then show ?thesis by (simp only: mod_add_self2)
  qed
  have A: "?d = 100" if ?A
  proof -
    have "- (2 ^ 32) \<le> ?v" "?v < 0" "100 \<le> ?v + 2 ^ 32" using that uint_ge_0 [of ?a] by (elim conjE, simp_all, linarith+)
    then show ?thesis unfolding d using wrap by simp
  qed
  have B: "?d = min 100 (uint ?a + 6)" if ?B
  proof -
    have "uint ?b = 2 ^ 32 - 1" using that by (simp add: pbs_niceness_def divu_def unsigned_minus_1_eq_mask mask_eq_exp_minus_1)
    then have v: "?v = uint ?a + 6 - 2 ^ 32" by simp
    moreover have "uint ?a \<le> 100" using that by simp
    ultimately have "- (2 ^ 32) \<le> ?v" "?v < 0" using uint_ge_0 [of ?a] by simp_all
    from wrap [OF this] v show ?thesis unfolding d by simp
  qed
  from d A B show ?thesis by simp
qed

theorem pbs_priority_range_witness:
  "uint (p_dynamicPriority (pbs_prep (blank_proc\<lparr>p_staticPriority := 2, p_sched2 := 10\<rparr>))) = 100
   \<and> uint (p_dynamicPriority (pbs_prep (blank_proc\<lparr>p_staticPriority := 60\<rparr>))) = 66"
proof -
  let ?x = "blank_proc\<lparr>p_staticPriority := 2, p_sched2 := 10\<rparr>" and ?y = "blank_proc\<lparr>p_staticPriority := 60\<rparr>"
  have "pbs_niceness ?x = 10" by (simp add: pbs_niceness_def divu_def blank_proc_def)
  then have "uint (p_dynamicPriority (pbs_prep ?x)) = 100" using pbs_priority_range [of ?x] by simp
  moreover have "uint (p_dynamicPriority (pbs_prep ?y)) = 66" using pbs_priority_range [of ?y] by (simp add: blank_proc_def)
  ultimately show ?thesis ..
qed

text \<open>\<open>RunningTime\<close>, called on every clock tick, charges the tick to exactly the processes that are RUNNING:
  their run time, total run time and time at their level go up by one and their remaining slice goes
  down by one; every other process is unchanged, and all locks are free again.\<close>

theorem RunningTime_exact:
  assumes "all_idle s" "intr_ok s"
  shows "wp RunningTime (\<lambda>_ t. only_procs s (procs t) t \<and> (\<forall>p. procs t p =
      (if p < NPROC \<and> p_state (procs s p) = RUNNING then tick_proc (procs s p) else procs s p))) s"
  by (rule wp_mono [OF RunningTime_wp [OF assms]])
    (auto simp: only_procs_facts(1) intro: only_procs_self)

theorem RunningTime_exact_witness:
  "wp RunningTime (\<lambda>_ t. p_rtime (procs t 0) = 1 \<and> p_rtime (procs t 1) = 0) (machine0 ())"
proof -
  have "all_idle (machine0 ())" by (simp add: all_idle_def)
  from RunningTime_exact [OF this] show ?thesis
    by (auto elim!: wp_mono simp: table0_def blank_proc_def tick_proc_def)
qed

end
