(* ===== verification/Ring.thy ===== *)
theory Ring
  imports Prelude
begin

text \<open>
  Ring buffers with free-running indices, as the UART transmit buffer, the console input buffer and
  the pipes of the kernel use them: the read and write index are machine words that are only ever
  incremented and wrap around at the word size, and the slot is the index modulo the buffer size.
  The lemmas hold for every buffer size that divides the number of index values, across both kinds
  of wrap-around.
\<close>

section \<open>Contents\<close>

definition ring :: "nat \<Rightarrow> (nat \<Rightarrow> 'b) \<Rightarrow> 'a::len word \<Rightarrow> 'a word \<Rightarrow> 'b list" where
  "ring n buf r w = map (\<lambda>i. buf (unat (r + word_of_nat i) mod n)) [0..<unat (w - r)]"

lemma ring_length [simp]: "length (ring n buf r w) = unat (w - r)"
  by (simp add: ring_def)

lemma ring_empty [simp]: "ring n buf r r = []"
  by (simp add: ring_def)

lemma unat_minus_one: "(w :: 'a::len word) \<noteq> 0 \<Longrightarrow> Suc (unat (w - 1)) = unat w"
proof -
  assume "w \<noteq> 0"
  then have pos: "0 < unat w" by (simp add: unat_gt_0)
  then have "1 \<le> w" by (simp add: word_le_nat_alt)
  then have "unat (w - 1) = unat w - 1" by (simp add: unat_sub)
  with pos show ?thesis by simp
qed

text \<open>Taking from the read end.\<close>

lemma ring_pop:
  assumes "w \<noteq> r"
  shows "ring n buf r w = buf (unat r mod n) # ring n buf (r + 1) w"
proof -
  have "unat (w - r) = Suc (unat (w - (r + 1)))"
    using unat_minus_one [of "w - r"] assms by (simp add: diff_diff_add)
  then show ?thesis
    by (simp add: ring_def upt_conv_Cons map_Suc_upt [symmetric] add.assoc del: upt_Suc)
qed

text \<open>Taking back what was put in last.\<close>

lemma ring_unpush:
  assumes "w \<noteq> r"
  shows "ring n buf r (w - 1) = butlast (ring n buf r w)"
    and "last (ring n buf r w) = buf (unat (w - 1) mod n)"
proof -
  have "unat (w - r) = Suc (unat (w - 1 - r))"
    using unat_minus_one [of "w - r"] assms by (simp add: algebra_simps)
  then show "ring n buf r (w - 1) = butlast (ring n buf r w)"
    "last (ring n buf r w) = buf (unat (w - 1) mod n)"
    by (simp_all add: ring_def)
qed

lemma ring_split:
  assumes "unat (e - r) = unat (w - r) + unat (e - w)"
  shows "ring n buf r e = ring n buf r w @ ring n buf w e"
proof (rule nth_equalityI)
  fix i assume "i < length (ring n buf r e)"
  then have i: "i < unat (w - r) + unat (e - w)" by (simp add: assms)
  have "r + word_of_nat i = w + word_of_nat (i - unat (w - r))" if "\<not> i < unat (w - r)"
    using that by (simp add: of_nat_diff)
  moreover have "i - unat (w - r) < unat (e - w)" if "\<not> i < unat (w - r)" using i that by simp
  ultimately show "ring n buf r e ! i = (ring n buf r w @ ring n buf w e) ! i"
    using i by (cases "i < unat (w - r)") (simp_all add: ring_def nth_append assms add.commute)
qed (simp add: assms)

section \<open>Buffers whose size divides the index range\<close>

locale ring_buffer =
  fixes n :: nat and index_type :: "'a::len itself"
  assumes size_pos: "0 < n"
    and size_dvd: "n dvd 2 ^ LENGTH('a)"
    and size_less: "n < 2 ^ LENGTH('a)"
begin

lemma slot_index: "unat ((r :: 'a word) + word_of_nat i) mod n = (unat r + i) mod n"
proof -
  have "unat (r + word_of_nat i) = (unat r + i) mod 2 ^ LENGTH('a)"
    by (simp add: unat_word_ariths unat_of_nat mod_simps)
  then show ?thesis using size_dvd by (simp add: mod_mod_cancel)
qed

lemma slot_distinct:
  assumes "i < j" "j < n"
  shows "((a :: nat) + i) mod n \<noteq> (a + j) mod n"
proof
  assume "(a + i) mod n = (a + j) mod n"
  then have "n dvd (a + j) - (a + i)" using assms(1) by (metis add_le_cancel_left less_imp_le mod_eq_dvd_iff_nat)
  then have "n dvd j - i" by simp
  then show False using assms by (auto dest: dvd_imp_le)
qed

lemma push:
  assumes "unat ((w :: 'a word) - r) < n"
  shows "ring n (buf(unat w mod n := c)) r (w + 1) = ring n buf r w @ [c]"
proof -
  let ?k = "unat (w - r)"
  have w: "w = r + word_of_nat ?k" by simp
  have len: "unat (w + 1 - r) = Suc ?k"
  proof -
    have "unat (w - r + 1) = unat (w - r) + 1"
      using assms size_less by (intro unat_add_lem [THEN iffD1, THEN trans]) (simp_all add: unat_word_ariths)
    then show ?thesis by (simp add: algebra_simps)
  qed
  have slot_w: "unat w mod n = (unat r + ?k) mod n" using slot_index [of r ?k] by simp
  have "unat (r + word_of_nat i) mod n \<noteq> unat w mod n" if "i < ?k" for i
    unfolding slot_index slot_w using slot_distinct [OF that assms] by simp
  then have "map (\<lambda>i. (buf(unat w mod n := c)) (unat (r + word_of_nat i) mod n)) [0..<?k]
      = map (\<lambda>i. buf (unat (r + word_of_nat i) mod n)) [0..<?k]"
    by (intro map_cong) auto
  then show ?thesis unfolding ring_def len by simp
qed

text \<open>Writing into a slot outside a window leaves the window's contents alone.\<close>

lemma write_outside:
  assumes "unat ((w :: 'a word) - r) + unat (e - w) < n"
  shows "ring n (buf(unat e mod n := c)) r w = ring n buf r w"
proof -
  let ?j = "unat (w - r) + unat (e - w)"
  have "e = r + word_of_nat ?j" by simp
  then have slot_e: "unat e mod n = (unat r + ?j) mod n" using slot_index [of r ?j] by metis
  have "unat (r + word_of_nat i) mod n \<noteq> unat e mod n" if "i < unat (w - r)" for i
    unfolding slot_index slot_e using slot_distinct [of i ?j "unat r"] that assms by simp
  then show ?thesis unfolding ring_def by (intro map_cong) auto
qed

end

interpretation uart_ring: ring_buffer 32 "TYPE(64)"
  by unfold_locales simp_all

interpretation cons_ring: ring_buffer 128 "TYPE(32)"
  by unfold_locales simp_all

interpretation pipe_ring: ring_buffer 512 "TYPE(32)"
  by unfold_locales simp_all

end
