(* ===== verification/Console.thy ===== *)
theory Console
  imports Scheduler Ring
begin

text \<open>
  \<open>kernel/uart.c\<close>, \<open>kernel/console.c\<close> and \<open>kernel/printf.c\<close>: the serial port driver, the console line
  discipline, and formatted output, with \<open>procdump\<close> of \<open>kernel/proc.c\<close>.

  The serial chip is modelled by what the driver sees of it: \<open>uart_log\<close> lists the register writes in
  order; \<open>uart_in\<close> holds the received bytes not yet read, bit 0 of the line status register being set
  while there are any; and bit 5 (the transmitter can take a byte) reads as the next element of the
  sequence \<open>tx_idle\<close>. A string literal of the source is a \<open>string\<close>, and its characters are bytes.

  The lemmas show that the console interrupt handler refines a line editor on lists, and that
  \<open>printint\<close> prints the decimal (or hexadecimal) numeral of its argument.
\<close>

section \<open>State\<close>

text \<open>A device driver's read and write functions, as the entries of \<open>devsw\<close> name them.\<close>

datatype devfun = Consoleread | Consolewrite

record dev_state = proc_state +
  uart_log :: "(nat \<times> byte) list"
  uart_in :: "byte list"
  tx_idle :: "nat \<Rightarrow> bool"
  lsr_reads :: nat
  uart_tx_buf :: "nat \<Rightarrow> byte"
  uart_tx_w :: uint64
  uart_tx_r :: uint64
  panicked :: bool
  pr_locking :: bool
  cons_buf :: "nat \<Rightarrow> byte"
  cons_r :: uint
  cons_w :: uint
  cons_e :: uint
  devsw_read :: "nat \<Rightarrow> devfun option"
  devsw_write :: "nat \<Rightarrow> devfun option"

section \<open>uart.c\<close>

definition ReadLSR :: "('z dev_state_scheme, byte) prog" where
  "ReadLSR =
     bind (gets (\<lambda>s. (if uart_in s \<noteq> [] then 1 else 0) OR (if tx_idle s (lsr_reads s) then 0x20 else 0))) (\<lambda>v.
     seq (modify (\<lambda>s. s\<lparr>lsr_reads := Suc (lsr_reads s)\<rparr>)) (ret v))"

definition ReadRHR :: "('z dev_state_scheme, byte) prog" where
  "ReadRHR =
     bind (gets (\<lambda>s. case uart_in s of [] \<Rightarrow> 0 | c # _ \<Rightarrow> c)) (\<lambda>c.
     seq (modify (\<lambda>s. s\<lparr>uart_in := tl (uart_in s)\<rparr>)) (ret c))"

definition WriteReg :: "nat \<Rightarrow> byte \<Rightarrow> ('z dev_state_scheme, unit) prog" where
  "WriteReg reg v = modify (\<lambda>s. s\<lparr>uart_log := uart_log s @ [(reg, v)]\<rparr>)"

definition LSR_TX_IDLE :: byte where [simp]: "LSR_TX_IDLE = 0x20"

definition uartinit :: "('z dev_state_scheme, unit) prog" where
  "uartinit =
     block [WriteReg 1 0x00, WriteReg 3 0x80, WriteReg 0 0x03, WriteReg 1 0x00, WriteReg 3 3,
            WriteReg 2 (1 OR 6), WriteReg 1 (2 OR 1), initlock UartTxLock ''uart'']"

definition uartstart :: "('z dev_state_scheme, unit) prog" where
  "uartstart =
     loopM (\<lambda>_.
       bind (gets (\<lambda>s. uart_tx_w s = uart_tx_r s)) (\<lambda>empty.
       if empty then ret (Inr ())
       else bind ReadLSR (\<lambda>l.
         if l AND LSR_TX_IDLE = 0 then ret (Inr ())
         else bind (gets (\<lambda>s. uart_tx_buf s (unat (uart_tx_r s) mod 32))) (\<lambda>c.
           seq (modify (\<lambda>s. s\<lparr>uart_tx_r := uart_tx_r s + 1\<rparr>))
          (seq (wakeup ChanUart)
          (seq (WriteReg 0 c) (ret (Inl ())))))))) ()"

definition uartputc :: "('z dev_state_scheme, unit) prog \<Rightarrow> byte \<Rightarrow> ('z dev_state_scheme, unit) prog" where
  "uartputc sw c =
     seq (acquire UartTxLock)
    (seq (bind (gets panicked) (\<lambda>p. whenM p hang))
    (loopM (\<lambda>_.
       bind (gets (\<lambda>s. uart_tx_w s = uart_tx_r s + 32)) (\<lambda>full.
       if full then seq (sleep sw ChanUart UartTxLock) (ret (Inl ()))
       else
         seq (modify (\<lambda>s. s\<lparr>uart_tx_buf := (uart_tx_buf s)(unat (uart_tx_w s) mod 32 := c)\<rparr>))
        (seq (modify (\<lambda>s. s\<lparr>uart_tx_w := uart_tx_w s + 1\<rparr>))
        (seq uartstart
        (seq (release UartTxLock) (ret (Inr ()))))))) ()))"

definition uartputc_sync :: "byte \<Rightarrow> ('z dev_state_scheme, unit) prog" where
  "uartputc_sync c =
     block
      [push_off,
       bind (gets panicked) (\<lambda>p. whenM p hang),
       loopM (\<lambda>_. bind ReadLSR (\<lambda>l. ret (if l AND LSR_TX_IDLE = 0 then Inl () else Inr ()))) (),
       WriteReg 0 c,
       pop_off]"

definition uartgetc :: "('z dev_state_scheme, byte option) prog" where
  "uartgetc =
     bind ReadLSR (\<lambda>l. if l AND 1 \<noteq> 0 then bind ReadRHR (\<lambda>c. ret (Some c)) else ret None)"

section \<open>console.c and printf.c\<close>

definition BACKSPACE :: int where [simp]: "BACKSPACE = 0x100"

definition consputc :: "int \<Rightarrow> ('z dev_state_scheme, unit) prog" where
  "consputc c =
     (if c = BACKSPACE then block [uartputc_sync 8, uartputc_sync 32, uartputc_sync 8]
      else uartputc_sync (word_of_int c))"

text \<open>The characters \<open>printint\<close> puts into its buffer, least significant digit first.\<close>

definition digit :: "nat \<Rightarrow> char" where
  "digit d = ''0123456789abcdef'' ! d"

function digits_of :: "nat \<Rightarrow> nat \<Rightarrow> string" where
  "digits_of base x =
     digit (x mod base) # (if x div base = 0 \<or> base < 2 then [] else digits_of base (x div base))"
  by auto
termination by (relation "measure snd") (auto simp: div_greater_zero_iff)

declare digits_of.simps [simp del]

definition printint_buf :: "int \<Rightarrow> nat \<Rightarrow> bool \<Rightarrow> string" where
  "printint_buf xx base sign =
     (let neg = (sign \<and> xx < 0); x = (word_of_int (if neg then - xx else xx) :: uint) in
      digits_of base (unat x) @ (if neg then ''-'' else []))"

definition putchars :: "string \<Rightarrow> ('z dev_state_scheme, unit) prog" where
  "putchars cs = forM cs (\<lambda>c. consputc (of_char c))"

definition printint :: "int \<Rightarrow> nat \<Rightarrow> bool \<Rightarrow> ('z dev_state_scheme, unit) prog" where
  "printint xx base sign = putchars (rev (printint_buf xx base sign))"

definition printptr :: "uint64 \<Rightarrow> ('z dev_state_scheme, unit) prog" where
  "printptr x =
     seq (consputc (of_char (CHR ''0'')))
    (seq (consputc (of_char (CHR ''x'')))
         (forM [0..<16] (\<lambda>i. consputc (of_char (digit (unat (drop_bit 60 (push_bit (4 * i) x))))))))"

text \<open>The arguments of \<open>printf\<close>; a null string pointer is \<open>AStr None\<close>. Asking for more arguments than
  there are, or for one of another type, is undefined in C.\<close>

datatype printf_arg = AInt int | APtr uint64 | AStr "string option"

fun printf_loop :: "string \<Rightarrow> printf_arg list \<Rightarrow> ('z dev_state_scheme, unit) prog" where
  "printf_loop [] args = ret ()"
| "printf_loop (c # cs) args =
     (if c \<noteq> CHR ''%'' then seq (consputc (of_char c)) (printf_loop cs args)
      else case cs of [] \<Rightarrow> ret ()
      | d # ds \<Rightarrow>
          (if d = CHR ''d'' then
             (case args of AInt i # as \<Rightarrow> seq (printint i 10 True) (printf_loop ds as) | _ \<Rightarrow> panic ''va_arg'')
           else if d = CHR ''x'' then
             (case args of AInt i # as \<Rightarrow> seq (printint i 16 True) (printf_loop ds as) | _ \<Rightarrow> panic ''va_arg'')
           else if d = CHR ''p'' then
             (case args of APtr p # as \<Rightarrow> seq (printptr p) (printf_loop ds as) | _ \<Rightarrow> panic ''va_arg'')
           else if d = CHR ''s'' then
             (case args of AStr t # as \<Rightarrow>
                seq (putchars (case t of None \<Rightarrow> ''(null)'' | Some u \<Rightarrow> u)) (printf_loop ds as)
              | _ \<Rightarrow> panic ''va_arg'')
           else if d = CHR ''%'' then seq (consputc (of_char (CHR ''%''))) (printf_loop ds args)
           else seq (consputc (of_char (CHR ''%''))) (seq (consputc (of_char d)) (printf_loop ds args))))"

definition printf :: "string \<Rightarrow> printf_arg list \<Rightarrow> ('z dev_state_scheme, unit) prog" where
  "printf fmt args =
     bind (gets pr_locking) (\<lambda>locking.
     block
      [whenM locking (acquire PrLock),
       printf_loop fmt args,
       whenM locking (release PrLock)])"

definition printfinit :: "('z dev_state_scheme, unit) prog" where
  "printfinit = seq (initlock PrLock ''pr'') (modify (\<lambda>s. s\<lparr>pr_locking := True\<rparr>))"

text \<open>A character array as the string up to its first NUL.\<close>

definition chars :: "byte list \<Rightarrow> string" where
  "chars bs = map (\<lambda>b. char_of (unat b)) (takeWhile (\<lambda>b. b \<noteq> 0) bs)"

fun state_name :: "procstate \<Rightarrow> string" where
  "state_name UNUSED = ''unused''"
| "state_name USED = ''???''"
| "state_name SLEEPING = ''sleep ''"
| "state_name RUNNABLE = ''runble''"
| "state_name RUNNING = ''run   ''"
| "state_name ZOMBIE = ''zombie''"

text \<open>\<open>procdump\<close>, as compiled for each scheduler.\<close>

datatype sched_kind = DEFAULT_SCHEDULER | FCFS | PBS | MLFQ

definition uarg :: "uint \<Rightarrow> printf_arg" where
  "uarg x = AInt (sint x)"

definition NL :: string where [simp]: "NL = [CHR 0x0A]"

fun tabs :: "string list \<Rightarrow> string" where
  "tabs [] = []"
| "tabs [x] = x"
| "tabs (x # xs) = x @ CHR 0x09 # tabs xs"

definition procdump_row :: "sched_kind \<Rightarrow> uint \<Rightarrow> proc \<Rightarrow> ('z dev_state_scheme, unit) prog" where
  "procdump_row kind now x =
     (case kind of
        PBS \<Rightarrow> printf (tabs (replicate 2 ''%d'' @ [''%s''] @ replicate 3 ''%d'') @ NL)
          [AInt (p_pid x), uarg (p_dynamicPriority x), AStr (Some (state_name (p_state x))), uarg (p_rtime x),
           uarg (now - p_birthtime x - p_rtime x), uarg (p_nrun x)]
      | MLFQ \<Rightarrow> printf (tabs ([''%d'', ''%d'', [], ''%s''] @ replicate 8 ''%d'') @ NL)
          ([AInt (p_pid x), uarg (p_level x), AStr (Some (state_name (p_state x))), uarg (p_rtime x),
            uarg (now - p_qEnter x), uarg (p_nrun x)] @ map (\<lambda>i. uarg (p_timeineachq x i)) [0..<5])
      | _ \<Rightarrow> printf ''%d %s %s''
          [AInt (p_pid x), AStr (Some (state_name (p_state x))), AStr (Some (chars (p_name x)))])"

definition procdump_header :: "sched_kind \<Rightarrow> ('z dev_state_scheme, unit) prog" where
  "procdump_header kind =
     (case kind of
        PBS \<Rightarrow> printf (tabs [''PID'', ''Priority'', ''State'', ''rtime'', ''wtime'', ''nrun''] @ NL) []
      | MLFQ \<Rightarrow> printf (tabs [''PID'', ''Priority'', ''State'', ''rtime'', ''wtime'', ''nrun'', ''q0'', ''q1'', ''q2'', ''q3'', ''q4''] @ NL) []
      | _ \<Rightarrow> ret ())"

definition procdump :: "sched_kind \<Rightarrow> ('z dev_state_scheme, unit) prog" where
  "procdump kind =
     block
      [printf NL [],
       procdump_header kind,
       forM [0..<NPROC] (\<lambda>p.
         bind (pget p (\<lambda>x. x)) (\<lambda>x. bind (gets ticks) (\<lambda>now.
         whenM (p_state x \<noteq> UNUSED) (seq (procdump_row kind now x) (printf NL [])))))]"

definition consolewrite :: "('z dev_state_scheme, unit) prog \<Rightarrow> bool \<Rightarrow> uint64 \<Rightarrow> int \<Rightarrow> ('z dev_state_scheme, int) prog" where
  "consolewrite sw user_src src n =
     loopM (\<lambda>i.
       if i < n then
         bind (either_copyin user_src (src + word_of_int i) 1) (\<lambda>(r, c).
         if r = -1 then ret (Inr i)
         else seq (uartputc sw (hd c)) (ret (Inl (i + 1))))
       else ret (Inr i)) 0"

text \<open>Waiting for input: the result tells whether there is some (\<open>False\<close> when the process was killed, with
  the lock released).\<close>

definition cons_wait :: "('z dev_state_scheme, unit) prog \<Rightarrow> ('z dev_state_scheme, bool) prog" where
  "cons_wait sw =
     loopM (\<lambda>_.
       bind (gets (\<lambda>s. cons_r s = cons_w s)) (\<lambda>empty.
       if empty then
         bind curproc (\<lambda>p. bind (pget p p_killed) (\<lambda>k.
         if k \<noteq> 0 then seq (release ConsLock) (ret (Inr False))
         else seq (sleep sw ChanCons ConsLock) (ret (Inl ()))))
       else ret (Inr True))) ()"

definition CTRL_D :: byte where [simp]: "CTRL_D = 4"
definition CTRL_H :: byte where [simp]: "CTRL_H = 8"
definition CTRL_P :: byte where [simp]: "CTRL_P = 16"
definition CTRL_U :: byte where [simp]: "CTRL_U = 21"
definition DEL :: byte where [simp]: "DEL = 127"
definition LF :: byte where [simp]: "LF = 10"
definition CR :: byte where [simp]: "CR = 13"

text \<open>The loop leaves with the value of \<open>n\<close> at its end, or with \<open>None\<close> when the process was killed.\<close>

definition consoleread :: "('z dev_state_scheme, unit) prog \<Rightarrow> bool \<Rightarrow> uint64 \<Rightarrow> int \<Rightarrow> ('z dev_state_scheme, int) prog" where
  "consoleread sw user_dst dst n =
     (let target = (word_of_int n :: uint) in
      seq (acquire ConsLock)
     (bind (loopM (\<lambda>(dst, n).
        if n > 0 then
          bind (cons_wait sw) (\<lambda>ok.
          if \<not> ok then ret (Inr None)
          else bind (gets (\<lambda>s. cons_buf s (unat (cons_r s) mod 128))) (\<lambda>c.
            seq (modify (\<lambda>s. s\<lparr>cons_r := cons_r s + 1\<rparr>))
           (if c = CTRL_D then
              seq (whenM (word_of_int n < target) (modify (\<lambda>s. s\<lparr>cons_r := cons_r s - 1\<rparr>))) (ret (Inr (Some n)))
            else bind (either_copyout user_dst dst (KObj [c]) 1) (\<lambda>r.
              if r = -1 then ret (Inr (Some n))
              else if c = LF then ret (Inr (Some (n - 1)))
              else ret (Inl (dst + 1, n - 1))))))
        else ret (Inr (Some n))) (dst, n)) (\<lambda>r.
      case r of None \<Rightarrow> ret (-1)
      | Some n \<Rightarrow> seq (release ConsLock) (ret (sint (target - word_of_int n))))))"

definition consoleintr :: "sched_kind \<Rightarrow> byte \<Rightarrow> ('z dev_state_scheme, unit) prog" where
  "consoleintr kind c =
     block
      [acquire ConsLock,
       (if c = CTRL_P then procdump kind
        else if c = CTRL_U then
          loopM (\<lambda>_.
            bind (gets (\<lambda>s. cons_e s \<noteq> cons_w s \<and> cons_buf s (unat (cons_e s - 1) mod 128) \<noteq> LF)) (\<lambda>more.
            if more then
              seq (modify (\<lambda>s. s\<lparr>cons_e := cons_e s - 1\<rparr>)) (seq (consputc BACKSPACE) (ret (Inl ())))
            else ret (Inr ()))) ()
        else if c = CTRL_H \<or> c = DEL then
          bind (gets (\<lambda>s. cons_e s \<noteq> cons_w s)) (\<lambda>more.
          whenM more (seq (modify (\<lambda>s. s\<lparr>cons_e := cons_e s - 1\<rparr>)) (consputc BACKSPACE)))
        else
          bind (gets (\<lambda>s. cons_e s - cons_r s < 128)) (\<lambda>room.
          whenM (c \<noteq> 0 \<and> room) (let c = (if c = CR then LF else c) in
            block
             [consputc (uint c),
              modify (\<lambda>s. s\<lparr>cons_buf := (cons_buf s)(unat (cons_e s) mod 128 := c)\<rparr>),
              modify (\<lambda>s. s\<lparr>cons_e := cons_e s + 1\<rparr>),
              bind (gets (\<lambda>s. cons_e s = cons_r s + 128)) (\<lambda>full.
              whenM (c = LF \<or> c = CTRL_D \<or> full)
                (seq (modify (\<lambda>s. s\<lparr>cons_w := cons_e s\<rparr>)) (wakeup ChanCons)))]))),
       release ConsLock]"

definition CONSOLE :: nat where [simp]: "CONSOLE = 1"

definition consoleinit :: "('z dev_state_scheme, unit) prog" where
  "consoleinit =
     block
      [initlock ConsLock ''cons'',
       uartinit,
       modify (\<lambda>s. s\<lparr>devsw_read := (devsw_read s)(CONSOLE := Some Consoleread)\<rparr>),
       modify (\<lambda>s. s\<lparr>devsw_write := (devsw_write s)(CONSOLE := Some Consolewrite)\<rparr>)]"

definition uartintr :: "sched_kind \<Rightarrow> ('z dev_state_scheme, unit) prog" where
  "uartintr kind =
     block
      [loopM (\<lambda>_. bind uartgetc (\<lambda>c. case c of None \<Rightarrow> ret (Inr ())
         | Some b \<Rightarrow> seq (consoleintr kind b) (ret (Inl ())))) (),
       acquire UartTxLock,
       uartstart,
       release UartTxLock]"

section \<open>Output\<close>

text \<open>The serial port will always take another byte sooner or later, and no other CPU has panicked.\<close>

definition uart_live :: "'z dev_state_scheme \<Rightarrow> bool" where
  "uart_live s \<longleftrightarrow> \<not> panicked s \<and> (\<forall>n. \<exists>m \<ge> n. tx_idle s m)"

text \<open>Going from \<open>s\<close> to \<open>t\<close> only sent the bytes \<open>bs\<close>.\<close>

definition emits :: "'z dev_state_scheme \<Rightarrow> byte list \<Rightarrow> 'z dev_state_scheme \<Rightarrow> bool" where
  "emits s bs t \<longleftrightarrow>
     settled t = (settled s)\<lparr>uart_log := uart_log s @ map (Pair 0) bs, lsr_reads := lsr_reads t\<rparr>"

lemma dev_settled [simp]:
  "uart_log (settled s) = uart_log s" "uart_in (settled s) = uart_in s" "tx_idle (settled s) = tx_idle s"
  "lsr_reads (settled s) = lsr_reads s" "panicked (settled s) = panicked s" "pr_locking (settled s) = pr_locking s"
  "cons_buf (settled s) = cons_buf s" "cons_r (settled s) = cons_r s" "cons_w (settled s) = cons_w s"
  "cons_e (settled s) = cons_e s"
  by (simp_all add: settled_def)

lemma settled_dev:
  "settled (s\<lparr>uart_log := l, lsr_reads := n\<rparr>) = (settled s)\<lparr>uart_log := l, lsr_reads := n\<rparr>"
  by (simp add: settled_def mycpu_def intr_get_def)

lemma emits_refl: "emits s [] s"
  by (simp add: emits_def)

lemma emits_trans: "emits s bs t \<Longrightarrow> emits t cs u \<Longrightarrow> emits s (bs @ cs) u"
proof -
  assume a: "emits s bs t" and b: "emits t cs u"
  have "uart_log t = uart_log s @ map (Pair 0) bs"
    using arg_cong [OF a [unfolded emits_def], of uart_log] by simp
  with a b show ?thesis by (simp add: emits_def)
qed

lemma emits_facts:
  assumes "emits s bs t"
  shows "uart_live t = uart_live s" "intr_ok t = intr_ok s" "lock_idle lk t = lock_idle lk s"
    "uart_log t = uart_log s @ map (Pair 0) bs" "procs t = procs s" "cpu_proc (mycpu t) = cpu_proc (mycpu s)"
    "cons_buf t = cons_buf s" "cons_r t = cons_r s" "cons_w t = cons_w s" "cons_e t = cons_e s"
    "tp t = tp s" "ticks t = ticks s"
proof -
  have eq: "settled t = (settled s)\<lparr>uart_log := uart_log s @ map (Pair 0) bs, lsr_reads := lsr_reads t\<rparr>"
    using assms by (simp add: emits_def)
  show "uart_log t = uart_log s @ map (Pair 0) bs" "procs t = procs s" "cons_buf t = cons_buf s" "cons_r t = cons_r s"
      "cons_w t = cons_w s" "cons_e t = cons_e s" "tp t = tp s" "ticks t = ticks s"
    using arg_cong [OF eq, of uart_log] arg_cong [OF eq, of procs] arg_cong [OF eq, of cons_buf]
      arg_cong [OF eq, of cons_r] arg_cong [OF eq, of cons_w] arg_cong [OF eq, of cons_e] arg_cong [OF eq, of tp]
      arg_cong [OF eq, of ticks] by simp_all
  show "uart_live t = uart_live s"
    using arg_cong [OF eq, of panicked] arg_cong [OF eq, of tx_idle] by (simp add: uart_live_def)
  have h: "intr_ok (u\<lparr>uart_log := l, lsr_reads := n\<rparr>) = intr_ok u"
    "lock_idle lk (u\<lparr>uart_log := l, lsr_reads := n\<rparr>) = lock_idle lk u"
    "cpu_proc (mycpu (u\<lparr>uart_log := l, lsr_reads := n\<rparr>)) = cpu_proc (mycpu u)" for u :: "'a dev_state_scheme" and l n
    by (simp_all add: intr_ok_def lock_idle_def mycpu_def intr_get_def)
  show "intr_ok t = intr_ok s" using arg_cong [OF eq, of intr_ok] by (simp add: h)
  show "lock_idle lk t = lock_idle lk s" using arg_cong [OF eq, of "lock_idle lk"] by (simp add: h)
  show "cpu_proc (mycpu t) = cpu_proc (mycpu s)" using arg_cong [OF eq, of "\<lambda>s. cpu_proc (mycpu s)"] by (simp add: h)
qed

lemma ReadLSR_run:
  "\<exists>v. ReadLSR s = Ok v (s\<lparr>lsr_reads := Suc (lsr_reads s)\<rparr>) \<and> (v AND LSR_TX_IDLE = 0 \<longleftrightarrow> \<not> tx_idle s (lsr_reads s))
     \<and> (v AND 1 \<noteq> 0 \<longleftrightarrow> uart_in s \<noteq> [])"
  by (auto simp: ReadLSR_def bind_def seq_def gets_def modify_def ret_def)

lemma tx_wait:
  assumes "tx_idle s (lsr_reads s + k)"
  shows "\<exists>n. loopM (\<lambda>_. bind ReadLSR (\<lambda>l. ret (if l AND LSR_TX_IDLE = 0 then Inl () else Inr ()))) () s
     = Ok () (s\<lparr>lsr_reads := n\<rparr>)"
  using assms
proof (induction k arbitrary: s)
  case 0
  obtain v where "ReadLSR s = Ok v (s\<lparr>lsr_reads := Suc (lsr_reads s)\<rparr>)" "v AND LSR_TX_IDLE \<noteq> 0"
    using ReadLSR_run [of s] 0 by auto
  then show ?case by (subst loopM_unfold) (auto simp: bind_def ret_def)
next
  case (Suc k)
  let ?s = "s\<lparr>lsr_reads := Suc (lsr_reads s)\<rparr>"
  obtain v where v: "ReadLSR s = Ok v ?s" using ReadLSR_run [of s] by blast
  show ?case
  proof (cases "v AND LSR_TX_IDLE = 0")
    case True
    have "tx_idle ?s (lsr_reads ?s + k)" using Suc.prems by simp
    moreover have "bind ReadLSR f s = f v ?s" for f :: "byte \<Rightarrow> ('a dev_state_scheme, unit) prog"
      using v by (simp add: bind_def)
    ultimately show ?thesis
      using Suc.IH [of ?s] True by (subst loopM_unfold) (simp add: bind_assoc)
  next
    case False
    with v show ?thesis by (subst loopM_unfold) (auto simp: bind_def ret_def)
  qed
qed

lemma uartputc_sync_wp:
  assumes "uart_live s" "intr_ok s"
  shows "wp (uartputc_sync c) (\<lambda>_. emits s [c]) s"
proof -
  obtain m where "m \<ge> lsr_reads s" "tx_idle s m" using assms(1) by (auto simp: uart_live_def)
  then have "tx_idle (pushed s) (lsr_reads (pushed s) + (m - lsr_reads s))"
    by (simp add: pushed_def)
  from tx_wait [OF this] obtain n where
    w: "loopM (\<lambda>_. bind ReadLSR (\<lambda>l. ret (if l AND LSR_TX_IDLE = 0 then Inl () else Inr ()))) () (pushed s)
      = Ok () ((pushed s)\<lparr>lsr_reads := n\<rparr>)" ..
  let ?t = "(pushed s)\<lparr>lsr_reads := n, uart_log := uart_log (pushed s) @ [(0, c)]\<rparr>"
  have log: "uart_log (pushed s) = uart_log s" "panicked (pushed s) = panicked s"
    by (simp_all add: pushed_def)
  have "pop_off ?t = Ok () (popped ?t)"
    by (rule pop_off_run) (use assms(2) in \<open>auto simp: intr_ok_def pushed_def intr_get_bit mycpu_def\<close>)
  moreover have "popped ?t = (settled s)\<lparr>lsr_reads := n, uart_log := uart_log s @ [(0, c)]\<rparr>"
  proof -
    have "popped (pushed s) = settled s"
      using push_pop_matched [OF assms(2)] pop_off_run [of "pushed s"] assms(2)
      by (auto simp: wp_seq wp_def push_off_run intr_ok_def)
    moreover have "popped ?t = (popped (pushed s))\<lparr>lsr_reads := n, uart_log := uart_log s @ [(0, c)]\<rparr>"
      by (simp add: popped_def mycpu_def log)
    ultimately show ?thesis by simp
  qed
  moreover have "emits s [c] ((settled s)\<lparr>lsr_reads := n, uart_log := uart_log s @ [(0, c)]\<rparr>)"
    by (simp add: emits_def settled_def mycpu_def intr_get_def)
  ultimately show ?thesis
    using assms(1) w
    by (simp add: uartputc_sync_def wp_def seq_def bind_def push_off_run gets_def whenM_def ret_def log
        uart_live_def WriteReg_def modify_def)
qed

section \<open>The line editor\<close>

definition cons_ready :: "'z dev_state_scheme \<Rightarrow> byte list" where
  "cons_ready s = ring 128 (cons_buf s) (cons_r s) (cons_w s)"

definition cons_line :: "'z dev_state_scheme \<Rightarrow> byte list" where
  "cons_line s = ring 128 (cons_buf s) (cons_w s) (cons_e s)"

definition cons_ok :: "'z dev_state_scheme \<Rightarrow> bool" where
  "cons_ok s \<longleftrightarrow> unat (cons_e s - cons_r s) = length (cons_ready s) + length (cons_line s)
     \<and> length (cons_ready s) + length (cons_line s) \<le> 128 \<and> LF \<notin> set (cons_line s)"

text \<open>What one input character does to the finished lines and the line being edited.\<close>

definition edit :: "byte \<Rightarrow> byte list \<times> byte list \<Rightarrow> byte list \<times> byte list" where
  "edit c rl = (case rl of (ready, line) \<Rightarrow>
     if c = CTRL_U then (ready, [])
     else if c = CTRL_H \<or> c = DEL then (ready, butlast line)
     else if c \<noteq> 0 \<and> length ready + length line < 128 then
       (let c' = (if c = CR then LF else c); line' = line @ [c'] in
        if c' = LF \<or> c' = CTRL_D \<or> length ready + length line' = 128 then (ready @ line', []) else (ready, line'))
     else (ready, line))"

text \<open>States that agree on the console buffer and on what the code needs to run.\<close>

definition calm :: "'z dev_state_scheme \<Rightarrow> 'z dev_state_scheme \<Rightarrow> bool" where
  "calm s t \<longleftrightarrow> cons_buf t = cons_buf s \<and> cons_r t = cons_r s \<and> cons_w t = cons_w s \<and> cons_e t = cons_e s
     \<and> uart_live t = uart_live s \<and> intr_ok t = intr_ok s \<and> (\<forall>lk. lock_idle lk t = lock_idle lk s)
     \<and> cpu_proc (mycpu t) = cpu_proc (mycpu s)"

lemma calm_refl [simp]: "calm s s"
  by (simp add: calm_def)

lemma calm_trans: "calm s t \<Longrightarrow> calm t u \<Longrightarrow> calm s u"
  by (simp add: calm_def)

lemma calm_cons: "calm s t \<Longrightarrow> cons_ok t = cons_ok s \<and> cons_ready t = cons_ready s \<and> cons_line t = cons_line s"
  by (simp add: calm_def cons_ok_def cons_ready_def cons_line_def)

lemma with_locks_dev:
  "(with_locks L s)\<lparr>uart_log := l, lsr_reads := n\<rparr> = with_locks L (s\<lparr>uart_log := l, lsr_reads := n\<rparr>)"
  "(with_locks L s)\<lparr>cons_e := e\<rparr> = with_locks L (s\<lparr>cons_e := e\<rparr>)"
  "(with_locks L s)\<lparr>cons_w := e\<rparr> = with_locks L (s\<lparr>cons_w := e\<rparr>)"
  "(with_locks L s)\<lparr>cons_buf := b\<rparr> = with_locks L (s\<lparr>cons_buf := b\<rparr>)"
  by (rule dev_state.equality; simp add: with_locks_def mycpu_def intr_get_def fun_eq_iff)+

lemma with_locks_cons [simp]:
  "cons_buf (with_locks L s) = cons_buf s" "cons_r (with_locks L s) = cons_r s" "cons_w (with_locks L s) = cons_w s"
  "cons_e (with_locks L s) = cons_e s" "uart_live (with_locks L s) = uart_live s" "uart_log (with_locks L s) = uart_log s"
  by (simp_all add: with_locks_def uart_live_def)

lemma cons_line_with_locks [simp]: "cons_line (with_locks L s) = cons_line s"
  by (simp add: cons_line_def)

lemma locked_settled:
  assumes "settled u = with_locks L s" "finite L" "L \<noteq> {}" "intr_ok s"
  shows "u = with_locks L s"
proof -
  have "noff (mycpu u) = noff (mycpu (settled u))" by simp
  also have "\<dots> \<noteq> 0"
    unfolding assms(1) using assms(2-4) card_gt_0_iff [of L] by (simp add: intr_ok_def)
  finally show ?thesis using settled_id [of u] assms(1) by simp
qed

lemma uartputc_locked:
  assumes "finite L" "L \<noteq> {}" "intr_ok s" "uart_live s"
  shows "wp (uartputc_sync c) (\<lambda>_ u. \<exists>t. u = with_locks L t \<and> calm s t) (with_locks L s)"
proof (rule wp_mono)
  show "wp (uartputc_sync c) (\<lambda>_. emits (with_locks L s) [c]) (with_locks L s)"
    by (rule uartputc_sync_wp) (use assms in \<open>simp_all add: with_locks_intr\<close>)
  fix u assume e: "emits (with_locks L s) [c] u"
  let ?t = "s\<lparr>uart_log := uart_log s @ [(0, c)], lsr_reads := lsr_reads u\<rparr>"
  have "settled u = with_locks L ?t"
    using e assms by (simp add: emits_def with_locks_dev)
  then have "u = with_locks L ?t"
    by (rule locked_settled) (use assms in \<open>simp_all add: intr_ok_def mycpu_def intr_get_def\<close>)
  moreover have "calm s ?t" by (simp add: calm_def uart_live_def intr_ok_def lock_idle_def mycpu_def intr_get_def)
  ultimately show "\<exists>t. u = with_locks L t \<and> calm s t" by blast
qed

lemma calm_facts: "calm s t \<Longrightarrow> intr_ok t = intr_ok s" "calm s t \<Longrightarrow> uart_live t = uart_live s"
  by (simp_all add: calm_def)

lemma consputc_locked:
  assumes "finite L" "L \<noteq> {}" "intr_ok s" "uart_live s"
  shows "wp (consputc c) (\<lambda>_ u. \<exists>t. u = with_locks L t \<and> calm s t) (with_locks L s)"
proof -
  have step: "wp (uartputc_sync b) (\<lambda>_ u. \<exists>t. u = with_locks L t \<and> calm s t) (with_locks L s')" if "calm s s'" for b s'
    by (rule wp_mono [OF uartputc_locked])
      (use assms that calm_facts [OF that] calm_trans [OF that] in auto)
  have "wp (uartputc_sync b) (\<lambda>_ u. wp (uartputc_sync b') (\<lambda>_ u. wp (uartputc_sync b'') (\<lambda>_ u.
      \<exists>t. u = with_locks L t \<and> calm s t) u) u) (with_locks L s)" for b b' b''
    by (rule wp_mono [OF step [OF calm_refl]]) (auto intro!: wp_mono [OF step] intro: step)
  then show ?thesis
    using step [OF calm_refl] by (simp add: consputc_def wp_seq wp_ret)
qed

lemma wakeup_locked:
  assumes "finite L" "L \<noteq> {}" "\<And>p. ProcLock p \<notin> L" "intr_ok s" "others_idle (cpu_proc (mycpu s)) s"
  shows "wp (wakeup ch) (\<lambda>_ u. \<exists>t. u = with_locks L t \<and> calm s t) (with_locks L s)"
proof (rule wp_mono)
  show "wp (wakeup ch) (\<lambda>_ u. \<exists>P. only_procs (with_locks L s) P u) (with_locks L s)"
    by (rule wp_mono [OF wakeup_wp])
      (use assms in \<open>auto simp: others_idle_def with_locks_lock_idle with_locks_intr\<close>)
  fix u :: "'a dev_state_scheme" assume "\<exists>P. only_procs (with_locks L s) P u"
  then obtain P where "settled u = with_locks L (s\<lparr>procs := P\<rparr>)"
    using assms by (auto simp: only_procs_def with_locks_procs)
  then have "u = with_locks L (s\<lparr>procs := P\<rparr>)"
    by (rule locked_settled) (use assms in simp_all)
  moreover have "calm s (s\<lparr>procs := P\<rparr>)" by (simp add: calm_def uart_live_def)
  ultimately show "\<exists>t. u = with_locks L t \<and> calm s t" by blast
qed

lemma cons_line_ne: "cons_e s \<noteq> cons_w s \<longleftrightarrow> cons_line s \<noteq> []"
  by (auto simp: cons_line_def ring_def unat_eq_0)

lemma cons_erase:
  assumes ok: "cons_ok s" and ne: "cons_e s \<noteq> cons_w s"
  defines "t \<equiv> s\<lparr>cons_e := cons_e s - 1\<rparr>"
  shows "cons_ok t" "cons_ready t = cons_ready s" "cons_line t = butlast (cons_line s)"
    and "cons_buf s (unat (cons_e s - 1) mod 128) \<noteq> LF"
proof -
  show r: "cons_ready t = cons_ready s" by (simp add: cons_ready_def t_def)
  have l: "cons_line t = butlast (cons_line s)" and last: "last (cons_line s) = cons_buf s (unat (cons_e s - 1) mod 128)"
    using ring_unpush [OF ne] by (simp_all add: cons_line_def t_def)
  then show "cons_line t = butlast (cons_line s)" by simp
  have ne': "cons_line s \<noteq> []" using ne by (simp add: cons_line_ne)
  then have "last (cons_line s) \<in> set (cons_line s)" by simp
  then show "cons_buf s (unat (cons_e s - 1) mod 128) \<noteq> LF"
    using last ok by (auto simp: cons_ok_def)
  have "cons_e s - cons_r s \<noteq> 0" using ok ne' by (auto simp: cons_ok_def)
  from unat_minus_one [OF this] have "Suc (unat (cons_e t - cons_r t)) = unat (cons_e s - cons_r s)"
    by (simp add: t_def algebra_simps)
  moreover have "Suc (length (butlast (cons_line s))) = length (cons_line s)" using ne' by simp
  ultimately show "cons_ok t"
    using ok by (auto simp: cons_ok_def r l dest: in_set_butlastD)
qed

lemma cons_append:
  fixes c :: byte
  assumes ok: "cons_ok s" and room: "length (cons_ready s) + length (cons_line s) < 128"
  defines "t \<equiv> s\<lparr>cons_buf := (cons_buf s)(unat (cons_e s) mod 128 := c), cons_e := cons_e s + 1\<rparr>"
  shows "cons_ready t = cons_ready s" "cons_line t = cons_line s @ [c]"
    "unat (cons_e t - cons_r t) = length (cons_ready s) + length (cons_line s) + 1"
proof -
  have len: "unat (cons_w s - cons_r s) + unat (cons_e s - cons_w s) < 128"
    using room by (simp add: cons_ready_def cons_line_def)
  then show "cons_ready t = cons_ready s"
    by (simp add: cons_ready_def t_def cons_ring.write_outside)
  show "cons_line t = cons_line s @ [c]"
    using len by (simp add: cons_line_def t_def cons_ring.push)
  have "unat (cons_e s - cons_r s) < 128" using ok room by (simp add: cons_ok_def)
  then have "unat (cons_e s - cons_r s + 1) = unat (cons_e s - cons_r s) + 1"
    by (simp add: unat_word_ariths)
  then show "unat (cons_e t - cons_r t) = length (cons_ready s) + length (cons_line s) + 1"
    using ok by (simp add: t_def cons_ok_def algebra_simps)
qed

lemma cons_commit:
  assumes "unat (cons_e s - cons_r s) = length (cons_ready s) + length (cons_line s)"
    "length (cons_ready s) + length (cons_line s) \<le> 128"
  defines "t \<equiv> s\<lparr>cons_w := cons_e s\<rparr>"
  shows "cons_ok t" "cons_ready t = cons_ready s @ cons_line s" "cons_line t = []"
proof -
  show r: "cons_ready t = cons_ready s @ cons_line s"
    unfolding t_def cons_ready_def cons_line_def
    using ring_split [of "cons_e s" "cons_r s" "cons_w s" 128 "cons_buf s"] assms(1)
    by (simp add: cons_ready_def cons_line_def)
  show l: "cons_line t = []" by (simp add: cons_line_def t_def)
  show "cons_ok t" unfolding cons_ok_def l r using assms by simp
qed

text \<open>The state in which the handler runs.\<close>

definition cons_run :: "'z dev_state_scheme \<Rightarrow> bool" where
  "cons_run s \<longleftrightarrow> intr_ok s \<and> uart_live s \<and> lock_idle ConsLock s \<and> others_idle (cpu_proc (mycpu s)) s"

lemma calm_run: "calm s t \<Longrightarrow> cons_run t = cons_run s"
  by (simp add: calm_def cons_run_def others_idle_def)

lemma cons_run_upd [simp]:
  "cons_run (s\<lparr>cons_e := x\<rparr>) = cons_run s" "cons_run (s\<lparr>cons_w := x\<rparr>) = cons_run s"
  "cons_run (s\<lparr>cons_buf := b\<rparr>) = cons_run s"
  by (simp_all add: cons_run_def intr_ok_def uart_live_def lock_idle_def others_idle_def mycpu_def intr_get_def)

abbreviation in_cons :: "('z dev_state_scheme \<Rightarrow> bool) \<Rightarrow> 'z dev_state_scheme \<Rightarrow> bool" where
  "in_cons P u \<equiv> \<exists>t. u = with_locks {ConsLock} t \<and> cons_run t \<and> P t"

lemma consputc_cons:
  assumes "cons_run s" "\<And>t. calm s t \<Longrightarrow> P t"
  shows "wp (consputc c) (\<lambda>_. in_cons P) (with_locks {ConsLock} s)"
proof (rule wp_mono)
  show "wp (consputc c) (\<lambda>_ u. \<exists>t. u = with_locks {ConsLock} t \<and> calm s t) (with_locks {ConsLock} s)"
    by (rule consputc_locked) (use assms(1) in \<open>simp_all add: cons_run_def\<close>)
qed (use assms calm_run in blast)

lemma wakeup_cons:
  assumes "cons_run s" "\<And>t. calm s t \<Longrightarrow> P t"
  shows "wp (wakeup ch) (\<lambda>_. in_cons P) (with_locks {ConsLock} s)"
proof (rule wp_mono)
  show "wp (wakeup ch) (\<lambda>_ u. \<exists>t. u = with_locks {ConsLock} t \<and> calm s t) (with_locks {ConsLock} s)"
    by (rule wakeup_locked) (use assms(1) in \<open>simp_all add: cons_run_def\<close>)
qed (use assms calm_run in blast)

lemma release_cons:
  assumes "cons_run t"
  shows "wp (release ConsLock) (\<lambda>_ u. u = settled t) (with_locks {ConsLock} t)"
  using release_one_of [of "{ConsLock}" ConsLock t] assms by (simp add: cons_run_def wp_def)

lemma erase_wp:
  assumes "cons_run s" "cons_ok s" "cons_e s \<noteq> cons_w s"
  shows "wp (seq (modify (\<lambda>s. s\<lparr>cons_e := cons_e s - 1\<rparr>)) (consputc BACKSPACE))
     (\<lambda>_. in_cons (\<lambda>t. cons_ok t \<and> cons_ready t = cons_ready s \<and> cons_line t = butlast (cons_line s)))
     (with_locks {ConsLock} s)"
  unfolding wp_seq wp_modify
  using consputc_cons [of "s\<lparr>cons_e := cons_e s - 1\<rparr>"
      "\<lambda>t. cons_ok t \<and> cons_ready t = cons_ready s \<and> cons_line t = butlast (cons_line s)" BACKSPACE]
    assms(1) cons_erase [OF assms(2,3)] calm_cons
  by (fastforce simp: with_locks_dev)

lemma kill_line_wp:
  assumes "cons_run s" "cons_ok s"
  shows "wp (loopM (\<lambda>_.
            bind (gets (\<lambda>s. cons_e s \<noteq> cons_w s \<and> cons_buf s (unat (cons_e s - 1) mod 128) \<noteq> LF)) (\<lambda>more.
            if more then
              seq (modify (\<lambda>s. s\<lparr>cons_e := cons_e s - 1\<rparr>)) (seq (consputc BACKSPACE) (ret (Inl ())))
            else ret (Inr ()))) ())
     (\<lambda>_. in_cons (\<lambda>t. cons_ok t \<and> cons_ready t = cons_ready s \<and> cons_line t = [])) (with_locks {ConsLock} s)"
proof (rule wp_loopM [where I = "\<lambda>_. in_cons (\<lambda>t. cons_ok t \<and> cons_ready t = cons_ready s)"
      and \<mu> = "\<lambda>_ u. length (cons_line u)"])
  fix x and u :: "'a dev_state_scheme"
  assume "in_cons (\<lambda>t. cons_ok t \<and> cons_ready t = cons_ready s) u"
  then obtain t where t: "u = with_locks {ConsLock} t" "cons_run t" "cons_ok t" "cons_ready t = cons_ready s" by blast
  show "wp (bind (gets (\<lambda>s. cons_e s \<noteq> cons_w s \<and> cons_buf s (unat (cons_e s - 1) mod 128) \<noteq> LF)) (\<lambda>more.
            if more then seq (modify (\<lambda>s. s\<lparr>cons_e := cons_e s - 1\<rparr>)) (seq (consputc BACKSPACE) (ret (Inl ())))
            else ret (Inr ())))
     (\<lambda>r v. case r of Inl y \<Rightarrow> in_cons (\<lambda>t. cons_ok t \<and> cons_ready t = cons_ready s) v
          \<and> length (cons_line v) < length (cons_line u)
        | Inr w \<Rightarrow> in_cons (\<lambda>t. cons_ok t \<and> cons_ready t = cons_ready s \<and> cons_line t = []) v) u"
  proof (cases "cons_e t \<noteq> cons_w t")
    case True
    have *: "wp (seq (modify (\<lambda>s. s\<lparr>cons_e := cons_e s - 1\<rparr>)) (consputc BACKSPACE))
      (\<lambda>_ v. in_cons (\<lambda>t. cons_ok t \<and> cons_ready t = cons_ready s) v \<and> length (cons_line v) < length (cons_line u)) u"
      unfolding t(1)
    proof (rule wp_mono [OF erase_wp [OF t(2,3) True]])
      fix v assume "in_cons (\<lambda>ta. cons_ok ta \<and> cons_ready ta = cons_ready t \<and> cons_line ta = butlast (cons_line t)) v"
      moreover have "cons_line t \<noteq> []" using True by (simp add: cons_line_ne)
      ultimately show "in_cons (\<lambda>t. cons_ok t \<and> cons_ready t = cons_ready s) v \<and>
          length (cons_line v) < length (cons_line (with_locks {ConsLock} t))"
        using t(4) by auto
    qed
    then show ?thesis
      using True cons_erase(4) [OF t(3) True] t(1)
      by (simp add: wp_bind wp_gets wp_seq wp_ret)
  next
    case False
    then show ?thesis
      using t cons_line_ne [of t] by (auto simp: wp_bind wp_gets wp_ret)
  qed
qed (use assms in blast)

lemma cons_buf_upd: "cons_e (s\<lparr>cons_buf := b\<rparr>) = cons_e s"
  by simp

lemma insert_char_wp:
  assumes run: "cons_run s" and ok: "cons_ok s"
    and room: "length (cons_ready s) + length (cons_line s) < 128"
  shows "wp (block
             [consputc (uint c'),
              modify (\<lambda>s. s\<lparr>cons_buf := (cons_buf s)(unat (cons_e s) mod 128 := c')\<rparr>),
              modify (\<lambda>s. s\<lparr>cons_e := cons_e s + 1\<rparr>),
              bind (gets (\<lambda>s. cons_e s = cons_r s + 128)) (\<lambda>full.
              whenM (c' = LF \<or> c' = CTRL_D \<or> full)
                (seq (modify (\<lambda>s. s\<lparr>cons_w := cons_e s\<rparr>)) (wakeup ChanCons)))])
     (\<lambda>_. in_cons (\<lambda>t. cons_ok t \<and> (cons_ready t, cons_line t) =
        (if c' = LF \<or> c' = CTRL_D \<or> length (cons_ready s) + length (cons_line s) + 1 = 128
         then (cons_ready s @ cons_line s @ [c'], []) else (cons_ready s, cons_line s @ [c']))))
     (with_locks {ConsLock} s)"
  (is "wp _ (\<lambda>_. in_cons ?P) _")
proof -
  have step: "wp (block
             [modify (\<lambda>s. s\<lparr>cons_buf := (cons_buf s)(unat (cons_e s) mod 128 := c')\<rparr>),
              modify (\<lambda>s. s\<lparr>cons_e := cons_e s + 1\<rparr>),
              bind (gets (\<lambda>s. cons_e s = cons_r s + 128)) (\<lambda>full.
              whenM (c' = LF \<or> c' = CTRL_D \<or> full)
                (seq (modify (\<lambda>s. s\<lparr>cons_w := cons_e s\<rparr>)) (wakeup ChanCons)))])
     (\<lambda>_. in_cons ?P) (with_locks {ConsLock} t)" if "calm s t" for t
  proof -
    have t: "cons_run t" "cons_ok t" "cons_ready t = cons_ready s" "cons_line t = cons_line s"
      using that run ok calm_run calm_cons by blast+
    define u where "u = t\<lparr>cons_buf := (cons_buf t)(unat (cons_e t) mod 128 := c'), cons_e := cons_e t + 1\<rparr>"
    have u: "cons_ready u = cons_ready s" "cons_line u = cons_line s @ [c']"
      "unat (cons_e u - cons_r u) = length (cons_ready s) + length (cons_line s) + 1" "cons_run u"
      using cons_append [OF t(2), of c'] room t(1) unfolding t(3,4) u_def by simp_all
    have full: "cons_e u = cons_r u + 128 \<longleftrightarrow> length (cons_ready s) + length (cons_line s) + 1 = 128"
    proof -
      have "cons_e u = cons_r u + 128 \<longleftrightarrow> cons_e u - cons_r u = 128" by (metis add.commute diff_add_cancel add_diff_cancel)
      also have "\<dots> \<longleftrightarrow> unat (cons_e u - cons_r u) = unat (128 :: uint)" by (simp only: word_unat_eq_iff)
      finally show ?thesis using u(3) by simp
    qed
    have com: "cons_ok (u\<lparr>cons_w := cons_e u\<rparr>)" "cons_ready (u\<lparr>cons_w := cons_e u\<rparr>) = cons_ready s @ cons_line s @ [c']"
      "cons_line (u\<lparr>cons_w := cons_e u\<rparr>) = []"
      using cons_commit [of u] u(3) room unfolding u(1,2) by simp_all
    have eq: "(with_locks {ConsLock} t)\<lparr>cons_buf := (cons_buf t)(unat (cons_e t) mod 128 := c'), cons_e := cons_e t + 1\<rparr>
       = with_locks {ConsLock} u" by (simp add: with_locks_dev u_def)
    have w: "wp (wakeup ChanCons) (\<lambda>_. in_cons (\<lambda>v. cons_ok v \<and> cons_ready v = cons_ready s @ cons_line s @ [c'] \<and> cons_line v = []))
       (with_locks {ConsLock} (u\<lparr>cons_w := cons_e u\<rparr>))"
      by (rule wakeup_cons) (use u(4) com in \<open>auto dest!: calm_cons\<close>)
    have ok': "cons_ok u" if "c' \<noteq> LF"
      using u(3) room ok that by (simp add: cons_ok_def u(1,2))
    have tail: "wp (bind (gets (\<lambda>s. cons_e s = cons_r s + 128)) (\<lambda>full.
              whenM (c' = LF \<or> c' = CTRL_D \<or> full)
                (seq (modify (\<lambda>s. s\<lparr>cons_w := cons_e s\<rparr>)) (wakeup ChanCons)))) (\<lambda>_. in_cons ?P) (with_locks {ConsLock} u)"
    proof (cases "c' = LF \<or> c' = CTRL_D \<or> length (cons_ready s) + length (cons_line s) + 1 = 128")
      case True
      with w full show ?thesis
        by (simp add: wp_bind wp_gets wp_whenM wp_seq wp_modify with_locks_dev del: LF_def CTRL_D_def)
    next
      case False
      with ok' u(1,2,4) full show ?thesis
        by (auto simp: wp_bind wp_gets wp_whenM)
    qed
    then show ?thesis
      by (simp only: wp_block_Cons wp_block_Nil wp_modify with_locks_cons eq cons_buf_upd)
  qed
  have "wp (consputc (uint c')) (\<lambda>_ v. \<exists>t. v = with_locks {ConsLock} t \<and> calm s t) (with_locks {ConsLock} s)"
    by (rule consputc_locked) (use run in \<open>simp_all add: cons_run_def\<close>)
  then show ?thesis
    unfolding wp_block_Cons [of "consputc _"] by (rule wp_mono) (use step in blast)
qed


lemma char_case_wp:
  assumes "cons_run s" "cons_ok s" "c \<noteq> CTRL_U" "c \<noteq> CTRL_H" "c \<noteq> DEL"
  shows "wp (bind (gets (\<lambda>s. cons_e s - cons_r s < 128)) (\<lambda>room.
          whenM (c \<noteq> 0 \<and> room) (let c = (if c = CR then LF else c) in
            block
             [consputc (uint c),
              modify (\<lambda>s. s\<lparr>cons_buf := (cons_buf s)(unat (cons_e s) mod 128 := c)\<rparr>),
              modify (\<lambda>s. s\<lparr>cons_e := cons_e s + 1\<rparr>),
              bind (gets (\<lambda>s. cons_e s = cons_r s + 128)) (\<lambda>full.
              whenM (c = LF \<or> c = CTRL_D \<or> full)
                (seq (modify (\<lambda>s. s\<lparr>cons_w := cons_e s\<rparr>)) (wakeup ChanCons)))])))
     (\<lambda>_. in_cons (\<lambda>t. cons_ok t \<and> (cons_ready t, cons_line t) = edit c (cons_ready s, cons_line s)))
     (with_locks {ConsLock} s)"
proof -
  have room: "cons_e s - cons_r s < 128 \<longleftrightarrow> length (cons_ready s) + length (cons_line s) < 128"
    using assms(2) by (simp add: word_less_nat_alt cons_ok_def)
  show ?thesis
  proof (cases "c \<noteq> 0 \<and> length (cons_ready s) + length (cons_line s) < 128")
    case True
    from insert_char_wp [OF assms(1,2), of "if c = CR then LF else c"] True
    show ?thesis
      unfolding Let_def wp_bind wp_gets with_locks_cons room wp_whenM edit_def
      by (auto simp only: if_True if_False simp_thms prod.case assms append_assoc length_append length_Cons list.size
          cong: if_cong elim: wp_mono)
        (use assms in \<open>simp add: Let_def\<close>)
  next
    case False
    then show ?thesis
      unfolding Let_def wp_bind wp_gets with_locks_cons room wp_whenM
      using assms by (auto simp: edit_def)
  qed
qed


text \<open>A machine whose console holds the unfinished line \<open>l\<close>, \<open>s\<close>.\<close>

definition dev0 :: "'z \<Rightarrow> 'z dev_state_scheme" where
  "dev0 z = machine0 \<lparr>uart_log = [], uart_in = [], tx_idle = (\<lambda>_. True), lsr_reads = 0,
     uart_tx_buf = (\<lambda>_. 0), uart_tx_w = 0, uart_tx_r = 0, panicked = False, pr_locking = True,
     cons_buf = (\<lambda>_. 0)(0 := 108, 1 := 115), cons_r = 0, cons_w = 0, cons_e = 2,
     devsw_read = (\<lambda>_. None), devsw_write = (\<lambda>_. None), \<dots> = z\<rparr>"

lemma dev0_run: "cons_run (dev0 z)" "cons_ok (dev0 z)" "cons_ready (dev0 z) = []" "cons_line (dev0 z) = [108, 115]"
proof -
  show "cons_run (dev0 z)"
    by (auto simp: cons_run_def dev0_def others_idle_def uart_live_def)
      (auto simp: machine0_def kmem0_def hart0_def)
  have m: "cons_buf (dev0 z) = (\<lambda>_. 0)(0 := 108, 1 := 115)" "cons_r (dev0 z) = 0" "cons_w (dev0 z) = 0" "cons_e (dev0 z) = 2"
    by (simp_all add: dev0_def machine0_def kmem0_def hart0_def)
  show "cons_ready (dev0 z) = []" "cons_line (dev0 z) = [108, 115]" "cons_ok (dev0 z)"
    by (simp_all add: cons_ok_def cons_ready_def cons_line_def m ring_def upt_rec)
qed

text \<open>C25: The console interrupt handler refines a line editor on two lists, the finished input and the line being
  edited: erase and kill-line act on the unfinished line only, other characters are appended while there is
  room for 128 in all, a carriage return counts as newline, and newline, end-of-file or a full buffer hands the
  line over to readers. The index arithmetic, with its two kinds of wrap-around, is invisible. This is for every
  character but \<open>CTRL_P\<close>, which lists the processes and does not touch the buffer.\<close>

theorem consoleintr_refines:
  assumes run: "cons_run s" and ok: "cons_ok s" and c: "c \<noteq> CTRL_P"
  shows "wp (consoleintr kind c) (\<lambda>_ t. cons_ok t \<and> (cons_ready t, cons_line t) = edit c (cons_ready s, cons_line s)) s"
proof -
  let ?P = "\<lambda>t. cons_ok t \<and> (cons_ready t, cons_line t) = edit c (cons_ready s, cons_line s)"
  let ?body = "wp (if c = CTRL_P then procdump kind
        else if c = CTRL_U then
          loopM (\<lambda>_.
            bind (gets (\<lambda>s. cons_e s \<noteq> cons_w s \<and> cons_buf s (unat (cons_e s - 1) mod 128) \<noteq> LF)) (\<lambda>more.
            if more then
              seq (modify (\<lambda>s. s\<lparr>cons_e := cons_e s - 1\<rparr>)) (seq (consputc BACKSPACE) (ret (Inl ())))
            else ret (Inr ()))) ()
        else if c = CTRL_H \<or> c = DEL then
          bind (gets (\<lambda>s. cons_e s \<noteq> cons_w s)) (\<lambda>more.
          whenM more (seq (modify (\<lambda>s. s\<lparr>cons_e := cons_e s - 1\<rparr>)) (consputc BACKSPACE)))
        else
          bind (gets (\<lambda>s. cons_e s - cons_r s < 128)) (\<lambda>room.
          whenM (c \<noteq> 0 \<and> room) (let c = (if c = CR then LF else c) in
            block
             [consputc (uint c),
              modify (\<lambda>s. s\<lparr>cons_buf := (cons_buf s)(unat (cons_e s) mod 128 := c)\<rparr>),
              modify (\<lambda>s. s\<lparr>cons_e := cons_e s + 1\<rparr>),
              bind (gets (\<lambda>s. cons_e s = cons_r s + 128)) (\<lambda>full.
              whenM (c = LF \<or> c = CTRL_D \<or> full)
                (seq (modify (\<lambda>s. s\<lparr>cons_w := cons_e s\<rparr>)) (wakeup ChanCons)))])))
      (\<lambda>_. in_cons ?P) (with_locks {ConsLock} s)"
  have body: ?body
  proof (cases "c = CTRL_U")
    case True
    from kill_line_wp [OF run ok] show ?thesis
      unfolding True by (simp add: edit_def del: LF_def BACKSPACE_def)
  next
    case nu: False
    show ?thesis
    proof (cases "c = CTRL_H \<or> c = DEL")
      case True
      have e: "edit c (r, l) = (r, butlast l)" for r l using True by (auto simp: edit_def)
      show ?thesis
      proof (cases "cons_e s = cons_w s")
        case eq: True
        then have "cons_line s = []" using cons_line_ne [of s] by simp
        then show ?thesis using True nu c eq run ok unfolding e by (auto simp: wp_bind wp_gets wp_whenM)
      next
        case False
        then show ?thesis using True nu c erase_wp [OF run ok False] unfolding e
          by (auto simp: wp_bind wp_gets wp_whenM simp del: BACKSPACE_def)
      qed
    next
      case False
      with char_case_wp [OF run ok nu] nu c show ?thesis by (simp only: if_False de_Morgan_disj simp_thms)
    qed
  qed
  have idle: "lock_idle ConsLock s" using run by (simp add: cons_run_def)
  show ?thesis
    unfolding consoleintr_def wp_block_Cons wp_block_Nil wp_Ok [where m = "acquire _", OF acquire_first [OF idle]]
  proof (rule wp_mono [OF body])
    fix u :: "'a dev_state_scheme" assume "in_cons ?P u"
    then obtain t where t: "u = with_locks {ConsLock} t" "cons_run t" "?P t" by blast
    have "?P (settled t)"
      using t(3) by (simp add: cons_ok_def cons_ready_def cons_line_def)
    then show "wp (release ConsLock) (\<lambda>_. ?P) u"
      unfolding t(1) by (intro wp_mono [OF release_cons [OF t(2)]]) simp
  qed
qed

theorem consoleintr_refines_witness:
  "wp (consoleintr MLFQ 13) (\<lambda>_ t. cons_ready t = [108, 115, 10] \<and> cons_line t = []) (dev0 ())"
  by (rule wp_mono [OF consoleintr_refines [OF dev0_run(1,2)]]) (simp_all add: dev0_run edit_def)

section \<open>Numerals\<close>

text \<open>Reading a printed number back.\<close>

definition digit_value :: "char \<Rightarrow> nat" where
  "digit_value c = (let k = of_char c :: nat in if k < 58 then k - 48 else k - 87)"

definition numeral_value :: "nat \<Rightarrow> string \<Rightarrow> nat" where
  "numeral_value base cs = foldl (\<lambda>n c. n * base + digit_value c) 0 cs"

definition read_int :: "nat \<Rightarrow> string \<Rightarrow> int" where
  "read_int base cs = (case cs of c # ds \<Rightarrow>
     if c = CHR ''-'' then - int (numeral_value base ds) else int (numeral_value base cs) | [] \<Rightarrow> 0)"

lemma digit_value_digit: "d < 16 \<Longrightarrow> digit_value (digit d) = d \<and> digit d \<noteq> CHR ''-''"
proof -
  have "\<forall>d \<in> set [0..<16]. digit_value (digit d) = d \<and> digit d \<noteq> CHR ''-''"
    by (simp add: upt_rec digit_def digit_value_def)
  then show "d < 16 \<Longrightarrow> ?thesis" by simp
qed

lemma numeral_value_snoc: "numeral_value base (cs @ [c]) = numeral_value base cs * base + digit_value c"
  by (simp add: numeral_value_def)

lemma numeral_value_digits:
  assumes "2 \<le> base" "base \<le> 16"
  shows "numeral_value base (rev (digits_of base x)) = x"
proof (induction x rule: less_induct)
  case (less x)
  have d: "digit_value (digit (x mod base)) = x mod base"
    using digit_value_digit [of "x mod base"] assms by (simp add: less_le_trans [OF mod_less_divisor])
  show ?case
  proof (cases "x div base = 0")
    case True
    then show ?thesis
      using d assms by (subst digits_of.simps) (auto simp: numeral_value_def div_eq_0_iff)
  next
    case False
    have "x div base < x" using False assms by (cases "x = 0") auto
    from less [OF this] False assms d show ?thesis
      by (subst digits_of.simps) (simp add: numeral_value_snoc)
  qed
qed

lemma digits_of_not_minus:
  assumes "2 \<le> base" "base \<le> 16"
  shows "digits_of base x \<noteq> [] \<and> last (digits_of base x) \<noteq> CHR ''-''"
proof (induction x rule: less_induct)
  case (less x)
  have d: "digit (x mod base) \<noteq> CHR ''-''"
    using digit_value_digit [of "x mod base"] assms by (simp add: less_le_trans [OF mod_less_divisor])
  show ?case
  proof (cases "x div base = 0")
    case True
    then show ?thesis using d by (subst (1 2) digits_of.simps) simp
  next
    case False
    have "x div base < x" using False assms by (cases "x = 0") auto
    from less [OF this] False assms d show ?thesis
      by (subst (1 2) digits_of.simps) simp
  qed
qed

lemma read_int_printint:
  assumes "2 \<le> base" "base \<le> 16" "- (2 ^ 31) \<le> xx" "xx < 2 ^ 31"
  shows "read_int base (rev (printint_buf xx base True)) = xx"
proof -
  let ?n = "unat (word_of_int (if xx < 0 then - xx else xx) :: uint)"
  have n: "int ?n = \<bar>xx\<bar>"
    using assms(3,4) by (auto simp: unat_eq_nat_uint uint_word_of_int)
  have ne: "rev (digits_of base ?n) \<noteq> []" and hd: "hd (rev (digits_of base ?n)) \<noteq> CHR ''-''"
    using digits_of_not_minus [OF assms(1,2), of ?n] by (auto simp: hd_rev)
  then obtain c ds where cds: "rev (digits_of base ?n) = c # ds" "c \<noteq> CHR ''-''"
    by (cases "rev (digits_of base ?n)") auto
  show ?thesis
    using n numeral_value_digits [OF assms(1,2), of ?n] cds
    by (cases "xx < 0") (simp_all add: printint_buf_def read_int_def)
qed

lemma consputc_char_wp:
  assumes "uart_live s" "intr_ok s"
  shows "wp (consputc (of_char c)) (\<lambda>_. emits s [of_char c]) s"
proof -
  have "(of_char c :: int) = int (of_char c)" by (simp only: of_nat_of_char)
  moreover have "(of_char c :: nat) < 256" by simp
  ultimately have "(of_char c :: int) \<noteq> BACKSPACE" unfolding BACKSPACE_def by linarith
  moreover have "word_of_int (of_char c) = (of_char c :: byte)"
    using of_nat_of_char [of c, where 'a = byte] of_nat_of_char [of c, where 'a = int] by (metis of_int_of_nat_eq)
  ultimately show ?thesis
    using uartputc_sync_wp [OF assms, of "of_char c"] by (simp add: consputc_def)
qed

lemma putchars_wp:
  assumes "uart_live s" "intr_ok s"
  shows "wp (putchars cs) (\<lambda>_. emits s (map of_char cs)) s"
  unfolding putchars_def
proof (rule wp_forM [where I = "\<lambda>zs t. emits s (map of_char zs) t"])
  fix x zs ys and t :: "'a dev_state_scheme"
  assume t: "emits s (map of_char zs) t"
  have "wp (consputc (of_char x)) (\<lambda>_. emits t [of_char x]) t"
    by (rule consputc_char_wp) (use assms emits_facts [OF t] in simp_all)
  then show "wp (consputc (of_char x)) (\<lambda>_. emits s (map of_char (zs @ [x]))) t"
    by (rule wp_mono) (use emits_trans [OF t] in simp)
qed (simp_all add: emits_refl)

text \<open>C26: \<open>printint\<close> prints a numeral that reads back as its argument, for every 32-bit argument (the most negative
  one included) and both bases the kernel uses, and does nothing else.\<close>

theorem printint_roundtrip:
  assumes "uart_live s" "intr_ok s" "base \<in> {10, 16}" "- (2 ^ 31) \<le> xx" "xx < 2 ^ 31"
  shows "\<exists>txt. wp (printint xx base True) (\<lambda>_. emits s (map of_char txt)) s \<and> read_int base txt = xx"
  using putchars_wp [OF assms(1,2), of "rev (printint_buf xx base True)"] read_int_printint [of base xx] assms(3-5)
  unfolding printint_def by auto

theorem printint_roundtrip_witness:
  "\<exists>txt. wp (printint (-2147483648) 10 True) (\<lambda>_. emits (dev0 ()) (map of_char txt)) (dev0 ()) \<and> read_int 10 txt = -2147483648"
  using printint_roundtrip [of "dev0 ()" 10 "-2147483648"] dev0_run(1) [of "()"] by (simp add: cons_run_def)

end
