(* ===== verification/Sleeplock.thy ===== *)
theory Sleeplock
  imports Console
begin

text \<open>
  \<open>kernel/sleeplock.c\<close>: locks that are held across a context switch. A sleep lock is protected by a spin
  lock of its own; waiting for it is sleeping on its address. The kernel has one in every disk buffer
  and one in every in-memory inode.

  The lemmas describe an uncontended kernel thread: \<open>quiet s\<close> says that a process runs in the kernel with
  no spin lock held anywhere, and \<open>near\<close> relates states that differ only in what wakeups and the clock
  change.
\<close>

section \<open>State\<close>

datatype sleeplk = BufSl nat | InodeSl nat

fun sl_spin :: "sleeplk \<Rightarrow> lockid" where
  "sl_spin (BufSl b) = BufSleepLk b"
| "sl_spin (InodeSl i) = InodeSleepLk i"

fun sl_chan :: "sleeplk \<Rightarrow> chan" where
  "sl_chan (BufSl b) = ChanBufLk b"
| "sl_chan (InodeSl i) = ChanInodeLk i"

record sleeplock =
  sl_locked :: bool
  sl_name :: string
  sl_pid :: int

record slp_state = dev_state +
  sleeplocks :: "sleeplk \<Rightarrow> sleeplock"

definition sl_set :: "sleeplk \<Rightarrow> (sleeplock \<Rightarrow> sleeplock) \<Rightarrow> ('z slp_state_scheme, unit) prog" where
  "sl_set lk f = modify (\<lambda>s. s\<lparr>sleeplocks := (sleeplocks s)(lk := f (sleeplocks s lk))\<rparr>)"

section \<open>Operations\<close>

definition initsleeplock :: "sleeplk \<Rightarrow> string \<Rightarrow> ('z slp_state_scheme, unit) prog" where
  "initsleeplock lk name =
     block
      [initlock (sl_spin lk) ''sleep lock'',
       sl_set lk (\<lambda>l. l\<lparr>sl_name := name, sl_locked := False, sl_pid := 0\<rparr>)]"

definition acquiresleep :: "('z slp_state_scheme, unit) prog \<Rightarrow> sleeplk \<Rightarrow> ('z slp_state_scheme, unit) prog" where
  "acquiresleep sw lk =
     block
      [acquire (sl_spin lk),
       loopM (\<lambda>_. bind (gets (\<lambda>s. sl_locked (sleeplocks s lk))) (\<lambda>busy.
         if busy then seq (sleep sw (sl_chan lk) (sl_spin lk)) (ret (Inl ())) else ret (Inr ()))) (),
       sl_set lk (\<lambda>l. l\<lparr>sl_locked := True\<rparr>),
       bind curproc (\<lambda>p. bind (pget p p_pid) (\<lambda>pid. sl_set lk (\<lambda>l. l\<lparr>sl_pid := pid\<rparr>))),
       release (sl_spin lk)]"

definition releasesleep :: "sleeplk \<Rightarrow> ('z slp_state_scheme, unit) prog" where
  "releasesleep lk =
     block
      [acquire (sl_spin lk),
       sl_set lk (\<lambda>l. l\<lparr>sl_locked := False, sl_pid := 0\<rparr>),
       wakeup (sl_chan lk),
       release (sl_spin lk)]"

definition holdingsleep :: "sleeplk \<Rightarrow> ('z slp_state_scheme, bool) prog" where
  "holdingsleep lk =
     seq (acquire (sl_spin lk))
    (bind (gets (\<lambda>s. sl_locked (sleeplocks s lk))) (\<lambda>l.
     bind (if l then bind curproc (\<lambda>p. bind (pget p p_pid) (\<lambda>pid. gets (\<lambda>s. sl_pid (sleeplocks s lk) = pid)))
           else ret False) (\<lambda>r.
     seq (release (sl_spin lk)) (ret r))))"

section \<open>An uncontended kernel thread\<close>

text \<open>A process runs in the kernel and no spin lock is held.\<close>

definition quiet :: "'z proc_state_scheme \<Rightarrow> bool" where
  "quiet s \<longleftrightarrow> (\<forall>lk. lock_idle lk s) \<and> intr_ok s \<and> noff (mycpu s) = 0 \<and> (\<exists>p < NPROC. cpu_proc (mycpu s) = Some p)"

definition curpid :: "'z proc_state_scheme \<Rightarrow> int" where
  "curpid s = p_pid (procs s (the (cpu_proc (mycpu s))))"

text \<open>States that agree up to what wakeups and the clock change: process states and the tick count. Pids stay.\<close>

definition sans_procs :: "'z proc_state_scheme \<Rightarrow> 'z proc_state_scheme" where
  "sans_procs s = (settled s)\<lparr>procs := (\<lambda>_. undefined), ticks := 0\<rparr>"

definition near :: "'z proc_state_scheme \<Rightarrow> 'z proc_state_scheme \<Rightarrow> bool" where
  "near s t \<longleftrightarrow> sans_procs s = sans_procs t \<and> (\<forall>p. p_pid (procs t p) = p_pid (procs s p))"

lemma near_refl [simp]: "near s s"
  by (simp add: near_def)

lemma near_trans: "near s t \<Longrightarrow> near t u \<Longrightarrow> near s u"
  by (simp add: near_def)

lemma ticks_hart [simp]:
  "mycpu (s\<lparr>ticks := n\<rparr>) = mycpu s" "lock_idle lk (s\<lparr>ticks := n\<rparr>) = lock_idle lk s"
  "intr_ok (s\<lparr>ticks := n\<rparr>) = intr_ok s"
  by (simp_all add: mycpu_def lock_idle_def intr_ok_def intr_get_def)

lemma sans_procs_hart:
  "lock_idle lk (sans_procs s) = lock_idle lk s" "intr_ok (sans_procs s) = intr_ok s"
  "cpu_proc (mycpu (sans_procs s)) = cpu_proc (mycpu s)" "noff (mycpu (sans_procs s)) = noff (mycpu s)"
  by (simp_all add: sans_procs_def)

lemma near_quiet:
  assumes "near s t"
  shows "quiet t = quiet s" "curpid t = curpid s" "cpu_proc (mycpu t) = cpu_proc (mycpu s)"
proof -
  have eq: "sans_procs s = sans_procs t" using assms by (simp add: near_def)
  show c: "cpu_proc (mycpu t) = cpu_proc (mycpu s)"
    using arg_cong [OF eq, of "\<lambda>s. cpu_proc (mycpu s)"] by (simp add: sans_procs_hart)
  show "quiet t = quiet s"
    using arg_cong [OF eq, of "\<lambda>s. lock_idle lk s" for lk] arg_cong [OF eq, of intr_ok]
      arg_cong [OF eq, of "\<lambda>s. noff (mycpu s)"] c
    by (simp add: quiet_def sans_procs_hart)
  show "curpid t = curpid s" using assms c by (simp add: curpid_def near_def)
qed

lemma near_settled [simp]: "near (settled s) t = near s t" "near s (settled t) = near s t"
  by (simp_all add: near_def sans_procs_def)

lemma near_procs: "(\<And>p. p_pid (P p) = p_pid (procs s p)) \<Longrightarrow> near s (s\<lparr>procs := P\<rparr>)"
  by (simp add: near_def sans_procs_def)

section \<open>Operations on a free lock\<close>

lemma with_locks_sleeplocks:
  "(with_locks L s)\<lparr>sleeplocks := x\<rparr> = with_locks L (s\<lparr>sleeplocks := x\<rparr>)"
  by (rule slp_state.equality) (simp_all add: with_locks_def mycpu_def intr_get_def fun_eq_iff)

lemma with_locks_sleeplocks_get [simp]: "sleeplocks (with_locks L s) = sleeplocks s" "sleeplocks (settled s) = sleeplocks s"
  by (simp_all add: with_locks_def settled_def)

lemma sleeplocks_hart [simp]:
  "mycpu (s\<lparr>sleeplocks := x\<rparr>) = mycpu s" "lock_idle lk (s\<lparr>sleeplocks := x\<rparr>) = lock_idle lk s"
  "intr_ok (s\<lparr>sleeplocks := x\<rparr>) = intr_ok s" "curpid (s\<lparr>sleeplocks := x\<rparr>) = curpid s"
  "quiet (s\<lparr>sleeplocks := x\<rparr>) = quiet s"
  by (simp_all add: mycpu_def lock_idle_def intr_ok_def intr_get_def curpid_def quiet_def)

definition sl_taken :: "sleeplk \<Rightarrow> 'z slp_state_scheme \<Rightarrow> sleeplk \<Rightarrow> sleeplock" where
  "sl_taken lk s = (sleeplocks s)(lk := (sleeplocks s lk)\<lparr>sl_locked := True, sl_pid := curpid s\<rparr>)"

definition sl_freed :: "sleeplk \<Rightarrow> 'z slp_state_scheme \<Rightarrow> sleeplk \<Rightarrow> sleeplock" where
  "sl_freed lk s = (sleeplocks s)(lk := (sleeplocks s lk)\<lparr>sl_locked := False, sl_pid := 0\<rparr>)"

text \<open>Under a lock, a program sees and changes the state as if there were no lock.\<close>

lemma wp_curproc_locked:
  assumes "quiet s" "finite L"
  shows "wp curproc Q (with_locks L s) = Q (the (cpu_proc (mycpu s))) (with_locks L s)"
proof -
  obtain p where p: "cpu_proc (mycpu s) = Some p" using assms by (auto simp: quiet_def)
  have ok: "intr_ok s" using assms by (simp add: quiet_def)
  then show ?thesis
    using wp_curproc [of "with_locks L s" p Q] p assms(2)
    by (simp add: with_locks_intr with_locks_cpu_proc)
qed

lemma wp_acquire_quiet: "quiet s \<Longrightarrow> wp (acquire lk) Q s = Q () (with_locks {lk} s)"
  by (rule wp_Ok) (simp add: acquire_first quiet_def)

lemma wp_release_quiet: "quiet s \<Longrightarrow> wp (release lk) Q (with_locks {lk} s) = Q () (settled s)"
  using release_one_of [of "{lk}" lk s] by (simp add: quiet_def wp_Ok)

lemma wp_wakeup_awakened:
  assumes idle: "\<And>lk. lock_idle lk s" and ok: "intr_ok s" and nlk: "\<And>p. lk \<noteq> ProcLock p"
    and Q: "Q () (with_locks {lk} (s\<lparr>procs := \<lambda>p. if p < NPROC then awakened ch (cpu_proc (mycpu s)) (ticks s) p (procs s p) else procs s p\<rparr>))"
  shows "wp (wakeup ch) Q (with_locks {lk} s)"
proof (rule wp_mono)
  let ?P = "\<lambda>p. if p < NPROC then awakened ch (cpu_proc (mycpu s)) (ticks s) p (procs s p) else procs s p"
  have same: "cpu_proc (mycpu (with_locks {lk} s)) = cpu_proc (mycpu s)" "ticks (with_locks {lk} s) = ticks s"
    "procs (with_locks {lk} s) = procs s" by (simp_all add: with_locks_cpu_proc)
  have "others_idle (cpu_proc (mycpu (with_locks {lk} s))) (with_locks {lk} s)" "intr_ok (with_locks {lk} s)"
    using idle nlk ok by (auto simp: others_idle_def with_locks_lock_idle with_locks_intr)
  from wakeup_wp [OF this, of ch]
  show "wp (wakeup ch) (\<lambda>_. only_procs (with_locks {lk} s) ?P) (with_locks {lk} s)" unfolding same .
  fix x and u :: "'a proc_state_scheme" assume "only_procs (with_locks {lk} s) ?P u"
  then have "settled u = with_locks {lk} (s\<lparr>procs := ?P\<rparr>)"
    using ok by (simp add: only_procs_def with_locks_procs)
  then have "u = with_locks {lk} (s\<lparr>procs := ?P\<rparr>)"
    by (rule locked_settled) (use ok in simp_all)
  then show "Q x u" using Q by (cases x) simp
qed

lemma wp_wakeup_quiet:
  assumes "quiet s" "\<And>p. lk \<noteq> ProcLock p" and Q: "\<And>P. (\<And>p. p_pid (P p) = p_pid (procs s p)) \<Longrightarrow> Q () (with_locks {lk} (s\<lparr>procs := P\<rparr>))"
  shows "wp (wakeup ch) Q (with_locks {lk} s)"
proof (rule wp_wakeup_awakened)
  show "Q () (with_locks {lk} (s\<lparr>procs := \<lambda>p. if p < NPROC then awakened ch (cpu_proc (mycpu s)) (ticks s) p (procs s p) else procs s p\<rparr>))"
    by (rule Q) (simp add: awakened_def)
qed (use assms in \<open>simp_all add: quiet_def\<close>)

lemma wp_sl_set: "wp (sl_set lk f) Q = (\<lambda>s. Q () (s\<lparr>sleeplocks := (sleeplocks s)(lk := f (sleeplocks s lk))\<rparr>))"
  by (simp add: sl_set_def wp_modify)

lemma procs_with_locks: "procs (with_locks L s) = procs s"
  by simp

lemma acquiresleep_wp:
  assumes "quiet s" "\<not> sl_locked (sleeplocks s lk)" "Q () (settled (s\<lparr>sleeplocks := sl_taken lk s\<rparr>))"
  shows "wp (acquiresleep sw lk) Q s"
proof -
  have "wp (loopM (\<lambda>_. bind (gets (\<lambda>s. sl_locked (sleeplocks s lk))) (\<lambda>busy.
         if busy then seq (sleep sw (sl_chan lk) (sl_spin lk)) (ret (Inl ())) else ret (Inr ()))) ()) R
      (with_locks {sl_spin lk} s) = R () (with_locks {sl_spin lk} s)" for R
    using assms(2) by (subst loopM_unfold) (simp add: wp_simps)
  then show ?thesis
    using assms
    by (simp add: acquiresleep_def wp_seq wp_bind wp_ret wp_acquire_quiet wp_sl_set wp_curproc_locked
        with_locks_sleeplocks wp_pget wp_release_quiet sl_taken_def curpid_def)
qed

lemma holdingsleep_wp:
  assumes "quiet s" "Q (sl_locked (sleeplocks s lk) \<and> sl_pid (sleeplocks s lk) = curpid s) (settled s)"
  shows "wp (holdingsleep lk) Q s"
  using assms
  by (auto simp: holdingsleep_def wp_seq wp_bind wp_ret wp_acquire_quiet wp_curproc_locked wp_gets wp_pget
      wp_if wp_release_quiet curpid_def)

lemma sl_spin_neq: "sl_spin lk \<noteq> ProcLock p"
  by (cases lk) simp_all

lemma releasesleep_wp:
  assumes "quiet s" and Q: "\<And>t. near (s\<lparr>sleeplocks := sl_freed lk s\<rparr>) t \<Longrightarrow> Q () t"
  shows "wp (releasesleep lk) Q s"
proof -
  let ?s = "s\<lparr>sleeplocks := sl_freed lk s\<rparr>"
  have "wp (wakeup (sl_chan lk)) (\<lambda>_. wp (release (sl_spin lk)) Q) (with_locks {sl_spin lk} ?s)"
  proof (rule wp_wakeup_quiet)
    fix P :: "nat \<Rightarrow> proc" assume "\<And>p. p_pid (P p) = p_pid (procs ?s p)"
    then have n: "near ?s (?s\<lparr>procs := P\<rparr>)" by (rule near_procs)
    then show "wp (release (sl_spin lk)) Q (with_locks {sl_spin lk} (?s\<lparr>procs := P\<rparr>))"
      using assms(1) near_quiet(1) [OF n] Q [of "settled (?s\<lparr>procs := P\<rparr>)"] n
      by (subst wp_release_quiet) (simp_all only: near_settled sleeplocks_hart)
  qed (use assms sl_spin_neq in auto)
  then show ?thesis
    using assms
    by (simp add: releasesleep_def wp_seq wp_ret wp_acquire_quiet wp_sl_set with_locks_sleeplocks sl_freed_def)
qed

end
