(* ===== verification/Virtio.thy ===== *)
theory Virtio
  imports Sleeplock
begin

text \<open>
  \<open>kernel/virtio_disk.c\<close>: the disk driver, with \<open>struct buf\<close> of \<open>kernel/buf.h\<close> and the queue layout of
  \<open>kernel/virtio.h\<close>.

  The driver and the device share three arrays: descriptors, the ring of available chains and the ring of
  used chains. A DMA address is one of the kernel objects the driver hands out: the header of a request,
  the data of a buffer, or a status byte. The device itself is not part of the source. It acts between
  two accesses of the driver, so it is part of what happens while a process sleeps (the argument
  \<open>sw\<close>); \<open>serve\<close> of \<open>DiskDriver\<close> states what the virtio specification says a block device does with its queue.
\<close>

section \<open>State\<close>

definition BSIZE :: nat where [simp]: "BSIZE = 1024"

record buf =
  b_valid :: bool
  b_disk :: bool
  b_dev :: uint
  b_blockno :: uint
  b_refcnt :: uint
  b_prev :: nat
  b_next :: nat
  b_data :: "byte list"

datatype dma = DmaNull | DmaReq nat | DmaData nat | DmaStatus nat

record virtq_desc =
  d_addr :: dma
  d_len :: uint
  d_flags :: uint16
  d_next :: uint16

record virtio_blk_req =
  rq_type :: uint
  rq_reserved :: uint
  rq_sector :: uint64

record disk =
  vd_desc :: "nat \<Rightarrow> virtq_desc"
  vd_avail_idx :: uint16
  vd_avail_ring :: "nat \<Rightarrow> uint16"
  vd_used_idx_dev :: uint16
  vd_used_ring :: "nat \<Rightarrow> uint"
  vd_free :: "nat \<Rightarrow> bool"
  vd_used_idx :: uint16
  vd_info_b :: "nat \<Rightarrow> nat option"
  vd_info_status :: "nat \<Rightarrow> byte"
  vd_ops :: "nat \<Rightarrow> virtio_blk_req"

text \<open>The registers of the device (what a read returns, and the writes in order), what is on the disk,
  sector pair by sector pair, and the history of writes to it.\<close>

record disk_state = slp_state +
  bufs :: "nat \<Rightarrow> buf"
  vd :: disk
  vreg :: "nat \<Rightarrow> uint"
  vreg_log :: "(nat \<times> uint) list"
  disk_data :: "nat \<Rightarrow> byte list"
  disk_log :: "(nat \<times> byte list) list"

definition bget_field :: "nat \<Rightarrow> (buf \<Rightarrow> 'a) \<Rightarrow> ('z disk_state_scheme, 'a) prog" where
  "bget_field b f = gets (\<lambda>s. f (bufs s b))"

definition bset :: "nat \<Rightarrow> (buf \<Rightarrow> buf) \<Rightarrow> ('z disk_state_scheme, unit) prog" where
  "bset b f = modify (\<lambda>s. s\<lparr>bufs := (bufs s)(b := f (bufs s b))\<rparr>)"

definition vset :: "(disk \<Rightarrow> disk) \<Rightarrow> ('z disk_state_scheme, unit) prog" where
  "vset f = modify (\<lambda>s. s\<lparr>vd := f (vd s)\<rparr>)"

definition desc_set :: "nat \<Rightarrow> virtq_desc \<Rightarrow> disk \<Rightarrow> disk" where
  "desc_set i d v = v\<lparr>vd_desc := (vd_desc v)(i := d)\<rparr>"

section \<open>Operations\<close>

definition NUM :: nat where [simp]: "NUM = 8"
definition VRING_DESC_F_NEXT :: uint16 where [simp]: "VRING_DESC_F_NEXT = 1"
definition VRING_DESC_F_WRITE :: uint16 where [simp]: "VRING_DESC_F_WRITE = 2"
definition VIRTIO_BLK_T_IN :: uint where [simp]: "VIRTIO_BLK_T_IN = 0"
definition VIRTIO_BLK_T_OUT :: uint where [simp]: "VIRTIO_BLK_T_OUT = 1"

definition vread :: "nat \<Rightarrow> ('z disk_state_scheme, uint) prog" where
  "vread r = gets (\<lambda>s. vreg s r)"

definition vwrite :: "nat \<Rightarrow> uint \<Rightarrow> ('z disk_state_scheme, unit) prog" where
  "vwrite r v = modify (\<lambda>s. s\<lparr>vreg_log := vreg_log s @ [(r, v)]\<rparr>)"

definition zero_desc :: virtq_desc where
  "zero_desc = \<lparr>d_addr = DmaNull, d_len = 0, d_flags = 0, d_next = 0\<rparr>"

text \<open>Feature bits the driver declines: read-only, SCSI, writeback configuration, multiqueue, any-layout,
  event index and indirect descriptors.\<close>

definition declined :: "nat list" where
  "declined = [5, 7, 11, 12, 27, 29, 28]"

definition virtio_disk_init :: "('z disk_state_scheme, unit) prog" where
  "virtio_disk_init =
     block
      [initlock VdiskLock ''virtio_disk'',
       bind (gets vreg) (\<lambda>R. whenM (R 0x000 \<noteq> 0x74726976 \<or> R 0x004 \<noteq> 1 \<or> R 0x008 \<noteq> 2 \<or> R 0x00c \<noteq> 0x554d4551)
         (panic ''could not find virtio disk'')),
       vwrite 0x070 1,
       vwrite 0x070 (1 OR 2),
       bind (vread 0x010) (\<lambda>features.
         vwrite 0x020 (ucast (fold (\<lambda>k f. f AND NOT (push_bit k 1)) declined (ucast features :: uint64)))),
       vwrite 0x070 (1 OR 2 OR 8),
       vwrite 0x070 (1 OR 2 OR 8 OR 4),
       vwrite 0x028 (ucast PGSIZE),
       vwrite 0x030 0,
       bind (vread 0x034) (\<lambda>mx. block
         [whenM (mx = 0) (panic ''virtio disk has no queue 0''),
          whenM (mx < word_of_nat NUM) (panic ''virtio disk max queue too short'')]),
       vwrite 0x038 (word_of_nat NUM),
       vset (\<lambda>v. v\<lparr>vd_desc := (\<lambda>_. zero_desc), vd_avail_idx := 0, vd_avail_ring := (\<lambda>_. 0),
         vd_used_idx_dev := 0, vd_used_ring := (\<lambda>_. 0)\<rparr>),
       bind (gets (\<lambda>s. sym s ''disk'')) (\<lambda>pages. vwrite 0x040 (ucast (drop_bit PGSHIFT pages))),
       forM [0..<NUM] (\<lambda>i. vset (\<lambda>v. v\<lparr>vd_free := (vd_free v)(i := True)\<rparr>))]"

definition alloc_desc :: "('z disk_state_scheme, nat option) prog" where
  "alloc_desc =
     scanM [0..<NUM] (\<lambda>i.
       bind (gets (\<lambda>s. vd_free (vd s) i)) (\<lambda>free.
       if free then seq (vset (\<lambda>v. v\<lparr>vd_free := (vd_free v)(i := False)\<rparr>)) (ret (Some i)) else ret None))"

definition free_desc :: "nat \<Rightarrow> ('z disk_state_scheme, unit) prog" where
  "free_desc i =
     block
      [whenM (i \<ge> NUM) (panic ''free_desc 1''),
       bind (gets (\<lambda>s. vd_free (vd s) i)) (\<lambda>free. whenM free (panic ''free_desc 2'')),
       vset (desc_set i zero_desc),
       vset (\<lambda>v. v\<lparr>vd_free := (vd_free v)(i := True)\<rparr>),
       wakeup ChanDisk]"

definition free_chain :: "nat \<Rightarrow> ('z disk_state_scheme, unit) prog" where
  "free_chain i =
     loopM (\<lambda>i.
       bind (gets (\<lambda>s. vd_desc (vd s) i)) (\<lambda>d.
       seq (free_desc i)
           (ret (if d_flags d AND VRING_DESC_F_NEXT \<noteq> 0 then Inl (unat (d_next d)) else Inr ())))) i"

text \<open>The result is the array \<open>idx\<close> when three descriptors were free, \<open>None\<close> for -1.\<close>

fun alloc_descs :: "nat \<Rightarrow> nat list \<Rightarrow> ('z disk_state_scheme, nat list option) prog" where
  "alloc_descs 0 idx = ret (Some idx)"
| "alloc_descs (Suc n) idx =
     bind alloc_desc (\<lambda>r. case r of
       Some i \<Rightarrow> alloc_descs n (idx @ [i])
     | None \<Rightarrow> seq (forM idx free_desc) (ret None))"

definition alloc3_desc :: "('z disk_state_scheme, nat list option) prog" where
  "alloc3_desc = alloc_descs 3 []"

definition virtio_disk_rw :: "('z disk_state_scheme, unit) prog \<Rightarrow> nat \<Rightarrow> bool \<Rightarrow> ('z disk_state_scheme, unit) prog" where
  "virtio_disk_rw sw b write =
     bind (bget_field b (\<lambda>x. ucast (b_blockno x * word_of_nat (BSIZE div 512)) :: uint64)) (\<lambda>sector.
     seq (acquire VdiskLock)
    (bind (loopM (\<lambda>_. bind alloc3_desc (\<lambda>r. case r of
         Some idx \<Rightarrow> ret (Inr idx)
       | None \<Rightarrow> seq (sleep sw ChanDisk VdiskLock) (ret (Inl ())))) ()) (\<lambda>idx.
     let i0 = idx ! 0; i1 = idx ! 1; i2 = idx ! 2 in
     block
      [vset (\<lambda>v. v\<lparr>vd_ops := (vd_ops v)(i0 := \<lparr>rq_type = (if write then VIRTIO_BLK_T_OUT else VIRTIO_BLK_T_IN),
         rq_reserved = 0, rq_sector = sector\<rparr>)\<rparr>),
       vset (desc_set i0 \<lparr>d_addr = DmaReq i0, d_len = 16, d_flags = VRING_DESC_F_NEXT, d_next = word_of_nat i1\<rparr>),
       vset (desc_set i1 \<lparr>d_addr = DmaData b, d_len = word_of_nat BSIZE,
         d_flags = (if write then 0 else VRING_DESC_F_WRITE) OR VRING_DESC_F_NEXT, d_next = word_of_nat i2\<rparr>),
       vset (\<lambda>v. v\<lparr>vd_info_status := (vd_info_status v)(i0 := 0xff)\<rparr>),
       vset (desc_set i2 \<lparr>d_addr = DmaStatus i0, d_len = 1, d_flags = VRING_DESC_F_WRITE, d_next = 0\<rparr>),
       bset b (\<lambda>x. x\<lparr>b_disk := True\<rparr>),
       vset (\<lambda>v. v\<lparr>vd_info_b := (vd_info_b v)(i0 := Some b)\<rparr>),
       vset (\<lambda>v. v\<lparr>vd_avail_ring := (vd_avail_ring v)(unat (vd_avail_idx v) mod NUM := word_of_nat i0)\<rparr>),
       vset (\<lambda>v. v\<lparr>vd_avail_idx := vd_avail_idx v + 1\<rparr>),
       vwrite 0x050 0,
       loopM (\<lambda>_. bind (bget_field b b_disk) (\<lambda>busy.
         if busy then seq (sleep sw (ChanBuf b) VdiskLock) (ret (Inl ())) else ret (Inr ()))) (),
       vset (\<lambda>v. v\<lparr>vd_info_b := (vd_info_b v)(i0 := None)\<rparr>),
       free_chain i0,
       release VdiskLock])))"

definition virtio_disk_intr :: "('z disk_state_scheme, unit) prog" where
  "virtio_disk_intr =
     block
      [acquire VdiskLock,
       bind (vread 0x060) (\<lambda>st. vwrite 0x064 (st AND 3)),
       loopM (\<lambda>_. bind (gets vd) (\<lambda>v.
         if vd_used_idx v \<noteq> vd_used_idx_dev v then
           (let id = unat (vd_used_ring v (unat (vd_used_idx v) mod NUM)) in
            seq (whenM (vd_info_status v id \<noteq> 0) (panic ''virtio_disk_intr status''))
           (case vd_info_b v id of None \<Rightarrow> panic ''kerneltrap''
            | Some b \<Rightarrow>
                seq (bset b (\<lambda>x. x\<lparr>b_disk := False\<rparr>))
               (seq (wakeup (ChanBuf b))
               (seq (vset (\<lambda>v. v\<lparr>vd_used_idx := vd_used_idx v + 1\<rparr>)) (ret (Inl ()))))))
         else ret (Inr ()))) (),
       release VdiskLock]"

end
