(* ===== verification/Bio.thy ===== *)
theory Bio
  imports Virtio
begin

text \<open>
  \<open>kernel/bio.c\<close>: the buffer cache. The buffers are linked into a ring in the order of their last use;
  the ring's head is the buffer with index \<open>NBUF\<close>. The disk driver is a parameter of everything above it: the
  environment \<open>E\<close> of an operation holds the driver's \<open>rw\<close> (the kernel is linked with
  \<open>virtio_disk_rw\<close>) and what happens while the process sleeps.
\<close>

section \<open>Block contents\<close>

text \<open>Little-endian integers inside a block, and overwriting a part of it.\<close>

primrec le_value :: "byte list \<Rightarrow> uint64" where
  "le_value [] = 0"
| "le_value (b # bs) = ucast b OR push_bit 8 (le_value bs)"

definition get_le :: "nat \<Rightarrow> byte list \<Rightarrow> nat \<Rightarrow> uint64" where
  "get_le n d off = le_value (take n (drop off d))"

definition overwrite :: "byte list \<Rightarrow> nat \<Rightarrow> byte list \<Rightarrow> byte list" where
  "overwrite d off bs = take off d @ bs @ drop (off + length bs) d"

definition put_le :: "nat \<Rightarrow> byte list \<Rightarrow> nat \<Rightarrow> uint64 \<Rightarrow> byte list" where
  "put_le n d off w = overwrite d off (le_bytes n w)"

section \<open>Operations\<close>

record 's kenv =
  e_sw :: "('s, unit) prog"
  e_rw :: "nat \<Rightarrow> bool \<Rightarrow> ('s, unit) prog"

definition HEAD :: nat where [simp]: "HEAD = NBUF"

text \<open>Putting buffer \<open>b\<close> right behind the head.\<close>

definition link_front :: "nat \<Rightarrow> ('z disk_state_scheme, unit) prog" where
  "link_front b =
     block
      [bind (bget_field HEAD b_next) (\<lambda>n. bset n (\<lambda>x. x\<lparr>b_prev := b\<rparr>)),
       bset HEAD (\<lambda>x. x\<lparr>b_next := b\<rparr>)]"

definition binit :: "('z disk_state_scheme, unit) prog" where
  "binit =
     block
      [initlock BcacheLock ''bcache'',
       bset HEAD (\<lambda>x. x\<lparr>b_prev := HEAD\<rparr>),
       bset HEAD (\<lambda>x. x\<lparr>b_next := HEAD\<rparr>),
       forM [0..<NBUF] (\<lambda>b. block
         [bind (bget_field HEAD b_next) (\<lambda>n. bset b (\<lambda>x. x\<lparr>b_next := n\<rparr>)),
          bset b (\<lambda>x. x\<lparr>b_prev := HEAD\<rparr>),
          initsleeplock (BufSl b) ''buffer'',
          link_front b])]"

text \<open>Following the ring from \<open>b\<close> in one direction to the first buffer that has property \<open>P\<close>.\<close>

definition find_buf :: "(buf \<Rightarrow> nat) \<Rightarrow> (buf \<Rightarrow> bool) \<Rightarrow> nat \<Rightarrow> ('z disk_state_scheme, nat option) prog" where
  "find_buf dir P b =
     loopM (\<lambda>b.
       if b = HEAD then ret (Inr None)
       else bind (bget_field b (\<lambda>x. x)) (\<lambda>x. ret (if P x then Inr (Some b) else Inl (dir x)))) b"

definition bget :: "('z disk_state_scheme) kenv \<Rightarrow> uint \<Rightarrow> uint \<Rightarrow> ('z disk_state_scheme, nat) prog" where
  "bget E dev blockno =
     seq (acquire BcacheLock)
    (bind (bget_field HEAD b_next) (\<lambda>first.
     bind (find_buf b_next (\<lambda>x. b_dev x = dev \<and> b_blockno x = blockno) first) (\<lambda>hit.
     case hit of
       Some b \<Rightarrow>
         seq (bset b (\<lambda>x. x\<lparr>b_refcnt := b_refcnt x + 1\<rparr>))
        (seq (release BcacheLock)
        (seq (acquiresleep (e_sw E) (BufSl b)) (ret b)))
     | None \<Rightarrow>
         bind (bget_field HEAD b_prev) (\<lambda>last.
         bind (find_buf b_prev (\<lambda>x. b_refcnt x = 0) last) (\<lambda>lru.
         case lru of
           Some b \<Rightarrow>
             seq (bset b (\<lambda>x. x\<lparr>b_dev := dev, b_blockno := blockno, b_valid := False, b_refcnt := 1\<rparr>))
            (seq (release BcacheLock)
            (seq (acquiresleep (e_sw E) (BufSl b)) (ret b)))
         | None \<Rightarrow> panic ''bget: no buffers'')))))"

definition bread :: "('z disk_state_scheme) kenv \<Rightarrow> uint \<Rightarrow> uint \<Rightarrow> ('z disk_state_scheme, nat) prog" where
  "bread E dev blockno =
     bind (bget E dev blockno) (\<lambda>b.
     seq (bind (bget_field b b_valid) (\<lambda>v.
            whenM (\<not> v) (seq (e_rw E b False) (bset b (\<lambda>x. x\<lparr>b_valid := True\<rparr>)))))
         (ret b))"

definition bwrite :: "('z disk_state_scheme) kenv \<Rightarrow> nat \<Rightarrow> ('z disk_state_scheme, unit) prog" where
  "bwrite E b =
     block
      [bind (holdingsleep (BufSl b)) (\<lambda>h. whenM (\<not> h) (panic ''bwrite'')),
       e_rw E b True]"

definition brelse :: "nat \<Rightarrow> ('z disk_state_scheme, unit) prog" where
  "brelse b =
     block
      [bind (holdingsleep (BufSl b)) (\<lambda>h. whenM (\<not> h) (panic ''brelse'')),
       releasesleep (BufSl b),
       acquire BcacheLock,
       bset b (\<lambda>x. x\<lparr>b_refcnt := b_refcnt x - 1\<rparr>),
       bind (bget_field b b_refcnt) (\<lambda>r. whenM (r = 0) (block
         [bind (bget_field b (\<lambda>x. x)) (\<lambda>x. bset (b_next x) (\<lambda>y. y\<lparr>b_prev := b_prev x\<rparr>)),
          bind (bget_field b (\<lambda>x. x)) (\<lambda>x. bset (b_prev x) (\<lambda>y. y\<lparr>b_next := b_next x\<rparr>)),
          bind (bget_field HEAD b_next) (\<lambda>n. bset b (\<lambda>x. x\<lparr>b_next := n\<rparr>)),
          bset b (\<lambda>x. x\<lparr>b_prev := HEAD\<rparr>),
          link_front b])),
       release BcacheLock]"

definition bpin :: "nat \<Rightarrow> ('z disk_state_scheme, unit) prog" where
  "bpin b = block [acquire BcacheLock, bset b (\<lambda>x. x\<lparr>b_refcnt := b_refcnt x + 1\<rparr>), release BcacheLock]"

definition bunpin :: "nat \<Rightarrow> ('z disk_state_scheme, unit) prog" where
  "bunpin b = block [acquire BcacheLock, bset b (\<lambda>x. x\<lparr>b_refcnt := b_refcnt x - 1\<rparr>), release BcacheLock]"

section \<open>Reading back what was written into a block\<close>

lemma length_le_bytes [simp]: "length (le_bytes n w) = n"
  by (induction n arbitrary: w) simp_all

lemma le_value_le_bytes: "n \<le> 8 \<Longrightarrow> le_value (le_bytes n w) = take_bit (8 * n) w"
proof (induction n arbitrary: w)
  case 0
  then show ?case by simp
next
  case (Suc n)
  have "le_value (le_bytes (Suc n) w) = ucast (ucast w :: byte) OR push_bit 8 (take_bit (8 * n) (drop_bit 8 w))"
    using Suc by simp
  also have "\<dots> = take_bit (8 * Suc n) w"
    by (rule bit_word_eqI) (auto simp: bit_simps not_le)
  finally show ?case .
qed

lemma length_overwrite: "off + length bs \<le> length d \<Longrightarrow> length (overwrite d off bs) = length d"
  by (simp add: overwrite_def)

lemma drop_take_overwrite:
  assumes "off + length bs \<le> length d" "i + n \<le> length bs"
  shows "take n (drop (off + i) (overwrite d off bs)) = take n (drop i bs)"
  using assms by (simp add: overwrite_def)

lemma get_le_overwrite:
  assumes "off + length bs \<le> length d" "i + n \<le> length bs"
  shows "get_le n (overwrite d off bs) (off + i) = get_le n bs i"
  using drop_take_overwrite [OF assms] by (simp add: get_le_def)

lemma get_le_outside:
  assumes "off + length bs \<le> length d" "j + n \<le> off \<or> off + length bs \<le> j"
  shows "get_le n (overwrite d off bs) j = get_le n d j"
proof -
  have "take n (drop j (overwrite d off bs)) = take n (drop j d)"
    using assms by (intro nth_equalityI) (auto simp: overwrite_def nth_append)
  then show ?thesis by (simp add: get_le_def)
qed

lemma get_le_append:
  "length xs = k \<Longrightarrow> get_le n (xs @ ys) (k + i) = get_le n ys i"
  "i + n \<le> length xs \<Longrightarrow> get_le n (xs @ ys) i = get_le n xs i"
  by (simp_all add: get_le_def)


lemma get_le_le_bytes: "n \<le> 8 \<Longrightarrow> get_le n (le_bytes n w @ ys) 0 = take_bit (8 * n) w"
  by (simp add: get_le_def le_value_le_bytes)

lemma get_le_concat:
  assumes "j < length ws" "n \<le> 8"
  shows "get_le n (concat (map (le_bytes n) ws)) (n * j) = take_bit (8 * n) (ws ! j)"
  using assms(1)
proof (induction ws arbitrary: j)
  case (Cons w ws)
  show ?case
  proof (cases j)
    case 0
    then show ?thesis using assms(2) by (simp add: get_le_le_bytes)
  next
    case (Suc k)
    then show ?thesis
      using Cons get_le_append(1) [of "le_bytes n w" n n _ "n * k"] by simp
  qed
qed simp

lemma length_put_le: "off + 4 \<le> length d \<Longrightarrow> length (put_le 4 d off w) = length d"
  by (simp add: put_le_def length_overwrite)

lemma get_put_same: "off + 4 \<le> length d \<Longrightarrow> get_le 4 (put_le 4 d off w) off = take_bit 32 w"
  using get_le_overwrite [of off "le_bytes 4 w" d 0 4] get_le_le_bytes [of 4 w "[]"] by (simp add: put_le_def)

lemma get_put_other: "off + 4 \<le> length d \<Longrightarrow> j + 4 \<le> off \<or> off + 4 \<le> j \<Longrightarrow> get_le 4 (put_le 4 d off w) j = get_le 4 d j"
  unfolding put_le_def by (rule get_le_outside) simp_all

end
