(* ===== verification/Log.thy ===== *)
theory Log
  imports Bio
begin

text \<open>
  \<open>kernel/log.c\<close>: the redo log that makes the updates of file system calls atomic with respect to crashes.
\<close>

section \<open>State\<close>

record superblock =
  sb_magic :: uint
  sb_size :: uint
  sb_nblocks :: uint
  sb_ninodes :: uint
  sb_nlog :: uint
  sb_logstart :: uint
  sb_inodestart :: uint
  sb_bmapstart :: uint

text \<open>The block numbers of the header are C \<open>int\<close>s; only their bit patterns are ever used.\<close>

record log =
  lg_start :: int
  lg_size :: int
  lg_outstanding :: int
  lg_committing :: bool
  lg_dev :: int
  lh_n :: int
  lh_block :: "nat \<Rightarrow> uint"

record log_state = disk_state +
  log :: log

definition lget :: "(log \<Rightarrow> 'a) \<Rightarrow> ('z log_state_scheme, 'a) prog" where
  "lget f = gets (\<lambda>s. f (log s))"

definition lset :: "(log \<Rightarrow> log) \<Rightarrow> ('z log_state_scheme, unit) prog" where
  "lset f = modify (\<lambda>s. s\<lparr>log := f (log s)\<rparr>)"

section \<open>Operations\<close>

text \<open>Block number \<open>log.start + i\<close>, and the header's fields in a block.\<close>

definition log_bno :: "log \<Rightarrow> nat \<Rightarrow> uint" where
  "log_bno l i = word_of_int (lg_start l + int i)"

definition hdr_n :: "byte list \<Rightarrow> int" where
  "hdr_n d = sint (ucast (get_le 4 d 0) :: uint)"

definition hdr_block :: "byte list \<Rightarrow> nat \<Rightarrow> uint" where
  "hdr_block d i = ucast (get_le 4 d (4 + 4 * i))"

definition install_trans :: "('z log_state_scheme) kenv \<Rightarrow> bool \<Rightarrow> ('z log_state_scheme, unit) prog" where
  "install_trans E recovering =
     bind (lget lh_n) (\<lambda>n.
     forM [0..<nat n] (\<lambda>tail.
       bind (lget (\<lambda>l. l)) (\<lambda>l.
       bind (bread E (word_of_int (lg_dev l)) (log_bno l (tail + 1))) (\<lambda>lbuf.
       bind (bread E (word_of_int (lg_dev l)) (lh_block l tail)) (\<lambda>dbuf.
       bind (bget_field lbuf b_data) (\<lambda>d.
       block
        [bset dbuf (\<lambda>x. x\<lparr>b_data := overwrite (b_data x) 0 (take BSIZE d)\<rparr>),
         bwrite E dbuf,
         whenM (\<not> recovering) (bunpin dbuf),
         brelse lbuf,
         brelse dbuf]))))))"

definition read_head :: "('z log_state_scheme) kenv \<Rightarrow> ('z log_state_scheme, unit) prog" where
  "read_head E =
     bind (lget (\<lambda>l. l)) (\<lambda>l.
     bind (bread E (word_of_int (lg_dev l)) (log_bno l 0)) (\<lambda>b.
     bind (bget_field b b_data) (\<lambda>d.
     block
      [lset (\<lambda>l. l\<lparr>lh_n := hdr_n d\<rparr>),
       forM [0..<nat (hdr_n d)] (\<lambda>i. lset (\<lambda>l. l\<lparr>lh_block := (lh_block l)(i := hdr_block d i)\<rparr>)),
       brelse b])))"

definition write_head :: "('z log_state_scheme) kenv \<Rightarrow> ('z log_state_scheme, unit) prog" where
  "write_head E =
     bind (lget (\<lambda>l. l)) (\<lambda>l.
     bind (bread E (word_of_int (lg_dev l)) (log_bno l 0)) (\<lambda>b.
     block
      [bset b (\<lambda>x. x\<lparr>b_data := put_le 4 (b_data x) 0 (word_of_int (lh_n l))\<rparr>),
       forM [0..<nat (lh_n l)] (\<lambda>i.
         bset b (\<lambda>x. x\<lparr>b_data := put_le 4 (b_data x) (4 + 4 * i) (ucast (lh_block l i))\<rparr>)),
       bwrite E b,
       brelse b]))"

definition recover_from_log :: "('z log_state_scheme) kenv \<Rightarrow> ('z log_state_scheme, unit) prog" where
  "recover_from_log E =
     block
      [read_head E,
       install_trans E True,
       lset (\<lambda>l. l\<lparr>lh_n := 0\<rparr>),
       write_head E]"

definition initlog :: "('z log_state_scheme) kenv \<Rightarrow> int \<Rightarrow> superblock \<Rightarrow> ('z log_state_scheme, unit) prog" where
  "initlog E dev sb =
     block
      [whenM (4 + 4 * LOGSIZE \<ge> BSIZE) (panic ''initlog: too big logheader''),
       initlock LogLock ''log'',
       lset (\<lambda>l. l\<lparr>lg_start := sint (sb_logstart sb), lg_size := sint (sb_nlog sb), lg_dev := dev\<rparr>),
       recover_from_log E]"

definition begin_op :: "('z log_state_scheme) kenv \<Rightarrow> ('z log_state_scheme, unit) prog" where
  "begin_op E =
     seq (acquire LogLock)
    (loopM (\<lambda>_.
       bind (lget (\<lambda>l. l)) (\<lambda>l.
       if lg_committing l then seq (sleep (e_sw E) ChanLog LogLock) (ret (Inl ()))
       else if lh_n l + (lg_outstanding l + 1) * int MAXOPBLOCKS > int LOGSIZE
       then seq (sleep (e_sw E) ChanLog LogLock) (ret (Inl ()))
       else
         seq (lset (\<lambda>l. l\<lparr>lg_outstanding := lg_outstanding l + 1\<rparr>))
        (seq (release LogLock) (ret (Inr ()))))) ())"

definition write_log :: "('z log_state_scheme) kenv \<Rightarrow> ('z log_state_scheme, unit) prog" where
  "write_log E =
     bind (lget lh_n) (\<lambda>n.
     forM [0..<nat n] (\<lambda>tail.
       bind (lget (\<lambda>l. l)) (\<lambda>l.
       bind (bread E (word_of_int (lg_dev l)) (log_bno l (tail + 1))) (\<lambda>to.
       bind (bread E (word_of_int (lg_dev l)) (lh_block l tail)) (\<lambda>from.
       bind (bget_field from b_data) (\<lambda>d.
       block
        [bset to (\<lambda>x. x\<lparr>b_data := overwrite (b_data x) 0 (take BSIZE d)\<rparr>),
         bwrite E to,
         brelse from,
         brelse to]))))))"

definition commit :: "('z log_state_scheme) kenv \<Rightarrow> ('z log_state_scheme, unit) prog" where
  "commit E =
     bind (lget lh_n) (\<lambda>n.
     whenM (n > 0) (block
      [write_log E,
       write_head E,
       install_trans E False,
       lset (\<lambda>l. l\<lparr>lh_n := 0\<rparr>),
       write_head E]))"

definition end_op :: "('z log_state_scheme) kenv \<Rightarrow> ('z log_state_scheme, unit) prog" where
  "end_op E =
     seq (acquire LogLock)
    (seq (lset (\<lambda>l. l\<lparr>lg_outstanding := lg_outstanding l - 1\<rparr>))
    (seq (bind (lget lg_committing) (\<lambda>c. whenM c (panic ''log.committing'')))
    (bind (lget lg_outstanding) (\<lambda>left.
     let do_commit = (left = 0) in
     block
      [if do_commit then lset (\<lambda>l. l\<lparr>lg_committing := True\<rparr>) else wakeup ChanLog,
       release LogLock,
       whenM do_commit (block
        [commit E,
         acquire LogLock,
         lset (\<lambda>l. l\<lparr>lg_committing := False\<rparr>),
         wakeup ChanLog,
         release LogLock])]))))"

definition log_write :: "nat \<Rightarrow> ('z log_state_scheme, unit) prog" where
  "log_write b =
     seq (acquire LogLock)
    (bind (lget (\<lambda>l. l)) (\<lambda>l.
     bind (bget_field b b_blockno) (\<lambda>bno.
     let i = length (takeWhile (\<lambda>i. lh_block l i \<noteq> bno) [0..<nat (lh_n l)]) in
     block
      [whenM (lh_n l \<ge> int LOGSIZE \<or> lh_n l \<ge> lg_size l - 1) (panic ''too big a transaction''),
       whenM (lg_outstanding l < 1) (panic ''log_write outside of trans''),
       lset (\<lambda>l. l\<lparr>lh_block := (lh_block l)(i := bno)\<rparr>),
       whenM (int i = lh_n l) (seq (bpin b) (lset (\<lambda>l. l\<lparr>lh_n := lh_n l + 1\<rparr>))),
       release LogLock])))"

end
