(* ===== verification/Fs.thy ===== *)
theory Fs
  imports Log
begin

text \<open>
  \<open>kernel/fs.c\<close>: disk blocks, inodes, directories and path names.

  A pointer to an in-memory inode is an index into \<open>itable\<close>. A C string in a kernel array is the list of its
  bytes before the NUL; a directory entry's name is the array of \<open>DIRSIZ\<close> bytes. Reading into and writing
  from a kernel variable (a \<open>struct dirent\<close> or an ELF header on the stack) gives and takes the bytes
  themselves.
\<close>

section \<open>State\<close>

type_synonym short = "16 word"

definition T_DIR :: short where [simp]: "T_DIR = 1"
definition T_FILE :: short where [simp]: "T_FILE = 2"
definition T_DEVICE :: short where [simp]: "T_DEVICE = 3"
definition ROOTINO :: uint where [simp]: "ROOTINO = 1"
definition FSMAGIC :: uint where [simp]: "FSMAGIC = 0x10203040"
definition NDIRECT :: nat where [simp]: "NDIRECT = 12"
definition NINDIRECT :: nat where [simp]: "NINDIRECT = BSIZE div 4"
definition MAXFILE :: nat where [simp]: "MAXFILE = NDIRECT + NINDIRECT"
definition IPB :: nat where [simp]: "IPB = BSIZE div 64"
definition BPB :: nat where [simp]: "BPB = BSIZE * 8"
definition DIRSIZ :: nat where [simp]: "DIRSIZ = 14"

record inode =
  i_dev :: uint
  i_inum :: uint
  i_ref :: int
  i_valid :: bool
  i_type :: short
  i_major :: short
  i_minor :: short
  i_nlink :: short
  i_size :: uint
  i_addrs :: "nat \<Rightarrow> uint"

record fs_state = log_state +
  sb :: superblock
  inodes :: "nat \<Rightarrow> inode"

definition iget_field :: "nat \<Rightarrow> (inode \<Rightarrow> 'a) \<Rightarrow> ('z fs_state_scheme, 'a) prog" where
  "iget_field ip f = gets (\<lambda>s. f (inodes s ip))"

definition iset :: "nat \<Rightarrow> (inode \<Rightarrow> inode) \<Rightarrow> ('z fs_state_scheme, unit) prog" where
  "iset ip f = modify (\<lambda>s. s\<lparr>inodes := (inodes s)(ip := f (inodes s ip))\<rparr>)"

definition IBLOCK :: "uint \<Rightarrow> superblock \<Rightarrow> uint" where
  "IBLOCK i S = i div word_of_nat IPB + sb_inodestart S"

definition BBLOCK :: "uint \<Rightarrow> superblock \<Rightarrow> uint" where
  "BBLOCK b S = b div word_of_nat BPB + sb_bmapstart S"

section \<open>Super block and blocks\<close>

definition sb_of_bytes :: "byte list \<Rightarrow> superblock" where
  "sb_of_bytes d = (let f = (\<lambda>i. ucast (get_le 4 d (4 * i)) :: uint) in
     \<lparr>sb_magic = f 0, sb_size = f 1, sb_nblocks = f 2, sb_ninodes = f 3, sb_nlog = f 4, sb_logstart = f 5,
      sb_inodestart = f 6, sb_bmapstart = f 7\<rparr>)"

definition readsb :: "('z fs_state_scheme) kenv \<Rightarrow> int \<Rightarrow> ('z fs_state_scheme, unit) prog" where
  "readsb E dev =
     bind (bread E (word_of_int dev) 1) (\<lambda>bp.
     bind (bget_field bp b_data) (\<lambda>d.
     block
      [modify (\<lambda>s. s\<lparr>sb := sb_of_bytes d\<rparr>),
       brelse bp]))"

definition fsinit :: "('z fs_state_scheme) kenv \<Rightarrow> int \<Rightarrow> ('z fs_state_scheme, unit) prog" where
  "fsinit E dev =
     seq (readsb E dev)
    (bind (gets sb) (\<lambda>x.
     block
      [whenM (sb_magic x \<noteq> FSMAGIC) (panic ''invalid file system''),
       initlog E dev x]))"

definition bzero :: "('z fs_state_scheme) kenv \<Rightarrow> uint \<Rightarrow> uint \<Rightarrow> ('z fs_state_scheme, unit) prog" where
  "bzero E dev bno =
     bind (bread E dev bno) (\<lambda>bp.
     block
      [bset bp (\<lambda>x. x\<lparr>b_data := overwrite (b_data x) 0 (replicate BSIZE 0)\<rparr>),
       log_write bp,
       brelse bp])"

text \<open>Bit \<open>bi\<close> of a bitmap block, and setting or clearing it.\<close>

definition bm_bit :: "byte list \<Rightarrow> nat \<Rightarrow> bool" where
  "bm_bit d bi \<longleftrightarrow> (d ! (bi div 8)) AND push_bit (bi mod 8) 1 \<noteq> 0"

definition bm_set :: "byte list \<Rightarrow> nat \<Rightarrow> byte list" where
  "bm_set d bi = d[bi div 8 := (d ! (bi div 8)) OR push_bit (bi mod 8) 1]"

definition bm_clear :: "byte list \<Rightarrow> nat \<Rightarrow> byte list" where
  "bm_clear d bi = d[bi div 8 := (d ! (bi div 8)) AND NOT (push_bit (bi mod 8) 1)]"

text \<open>\<open>multiples k n\<close>: the values of a loop variable that runs from 0 below \<open>n\<close> in steps of \<open>k\<close>.\<close>

definition multiples :: "nat \<Rightarrow> nat \<Rightarrow> nat list" where
  "multiples k n = map (\<lambda>i. k * i) [0..<(n + k - 1) div k]"

definition balloc :: "('z fs_state_scheme) kenv \<Rightarrow> uint \<Rightarrow> ('z fs_state_scheme, uint) prog" where
  "balloc E dev =
     bind (gets sb) (\<lambda>S.
     bind (scanM (multiples BPB (unat (sb_size S))) (\<lambda>b.
       bind (bread E dev (BBLOCK (word_of_nat b) S)) (\<lambda>bp.
       bind (bget_field bp b_data) (\<lambda>d.
       case find (\<lambda>bi. \<not> bm_bit d bi) [0..<min BPB (unat (sb_size S) - b)] of
         None \<Rightarrow> seq (brelse bp) (ret None)
       | Some bi \<Rightarrow>
           seq (bset bp (\<lambda>x. x\<lparr>b_data := bm_set (b_data x) bi\<rparr>))
          (seq (log_write bp)
          (seq (brelse bp)
          (seq (bzero E dev (word_of_nat (b + bi)))
               (ret (Some (word_of_nat (b + bi)))))))))) ) (\<lambda>r.
     case r of Some bno \<Rightarrow> ret bno | None \<Rightarrow> panic ''balloc: out of blocks''))"

definition bfree :: "('z fs_state_scheme) kenv \<Rightarrow> uint \<Rightarrow> uint \<Rightarrow> ('z fs_state_scheme, unit) prog" where
  "bfree E dev b =
     bind (gets sb) (\<lambda>S.
     bind (bread E dev (BBLOCK b S)) (\<lambda>bp.
     bind (bget_field bp b_data) (\<lambda>d.
     let bi = unat b mod BPB in
     block
      [whenM (\<not> bm_bit d bi) (panic ''freeing free block''),
       bset bp (\<lambda>x. x\<lparr>b_data := bm_clear (b_data x) bi\<rparr>),
       log_write bp,
       brelse bp])))"

section \<open>Inodes\<close>

definition iinit :: "('z fs_state_scheme, unit) prog" where
  "iinit =
     block
      [initlock ItableLock ''itable'',
       forM [0..<NINODE] (\<lambda>i. initsleeplock (InodeSl i) ''inode'')]"

text \<open>The fields of the on-disk inode \<open>k\<close> of a block, read and written.\<close>

definition dinode_type :: "byte list \<Rightarrow> nat \<Rightarrow> short" where
  "dinode_type d k = ucast (get_le 2 d (64 * k))"

definition dinode_load :: "byte list \<Rightarrow> nat \<Rightarrow> inode \<Rightarrow> inode" where
  "dinode_load d k x = x\<lparr>i_type := ucast (get_le 2 d (64 * k)), i_major := ucast (get_le 2 d (64 * k + 2)),
     i_minor := ucast (get_le 2 d (64 * k + 4)), i_nlink := ucast (get_le 2 d (64 * k + 6)),
     i_size := ucast (get_le 4 d (64 * k + 8)),
     i_addrs := (\<lambda>j. if j < NDIRECT + 1 then ucast (get_le 4 d (64 * k + 12 + 4 * j)) else i_addrs x j)\<rparr>"

definition dinode_bytes :: "inode \<Rightarrow> byte list" where
  "dinode_bytes x = le_bytes 2 (ucast (i_type x)) @ le_bytes 2 (ucast (i_major x)) @ le_bytes 2 (ucast (i_minor x))
     @ le_bytes 2 (ucast (i_nlink x)) @ le_bytes 4 (ucast (i_size x))
     @ concat (map (\<lambda>j. le_bytes 4 (ucast (i_addrs x j))) [0..<NDIRECT + 1])"

text \<open>\<open>iget\<close>: the scan leaves with a hit, or with the first free slot it has seen.\<close>

definition iget :: "uint \<Rightarrow> uint \<Rightarrow> ('z fs_state_scheme, nat) prog" where
  "iget dev inum =
     seq (acquire ItableLock)
    (bind (gets inodes) (\<lambda>T.
     case find (\<lambda>i. i_ref (T i) > 0 \<and> i_dev (T i) = dev \<and> i_inum (T i) = inum) [0..<NINODE] of
       Some ip \<Rightarrow>
         seq (iset ip (\<lambda>x. x\<lparr>i_ref := i_ref x + 1\<rparr>)) (seq (release ItableLock) (ret ip))
     | None \<Rightarrow>
         (case find (\<lambda>i. i_ref (T i) = 0) [0..<NINODE] of
            None \<Rightarrow> panic ''iget: no inodes''
          | Some ip \<Rightarrow>
              seq (iset ip (\<lambda>x. x\<lparr>i_dev := dev, i_inum := inum, i_ref := 1, i_valid := False\<rparr>))
             (seq (release ItableLock) (ret ip)))))"

definition ialloc :: "('z fs_state_scheme) kenv \<Rightarrow> uint \<Rightarrow> short \<Rightarrow> ('z fs_state_scheme, nat) prog" where
  "ialloc E dev type =
     bind (gets sb) (\<lambda>S.
     bind (scanM [1..<unat (sb_ninodes S)] (\<lambda>inum.
       bind (bread E dev (IBLOCK (word_of_nat inum) S)) (\<lambda>bp.
       bind (bget_field bp b_data) (\<lambda>d.
       let k = inum mod IPB in
       if dinode_type d k = 0 then
         seq (bset bp (\<lambda>x. x\<lparr>b_data := put_le 2 (overwrite (b_data x) (64 * k) (replicate 64 0)) (64 * k) (ucast type)\<rparr>))
        (seq (log_write bp)
        (seq (brelse bp)
        (bind (iget dev (word_of_nat inum)) (\<lambda>ip. ret (Some ip)))))
       else seq (brelse bp) (ret None))))) (\<lambda>r.
     case r of Some ip \<Rightarrow> ret ip | None \<Rightarrow> panic ''ialloc: no inodes''))"

definition iupdate :: "('z fs_state_scheme) kenv \<Rightarrow> nat \<Rightarrow> ('z fs_state_scheme, unit) prog" where
  "iupdate E ip =
     bind (gets sb) (\<lambda>S.
     bind (iget_field ip (\<lambda>x. x)) (\<lambda>x.
     bind (bread E (i_dev x) (IBLOCK (i_inum x) S)) (\<lambda>bp.
     bind (iget_field ip (\<lambda>x. x)) (\<lambda>x.
     block
      [bset bp (\<lambda>b. b\<lparr>b_data := overwrite (b_data b) (64 * (unat (i_inum x) mod IPB)) (dinode_bytes x)\<rparr>),
       log_write bp,
       brelse bp]))))"

definition idup :: "nat \<Rightarrow> ('z fs_state_scheme, nat) prog" where
  "idup ip =
     seq (acquire ItableLock)
    (seq (iset ip (\<lambda>x. x\<lparr>i_ref := i_ref x + 1\<rparr>))
    (seq (release ItableLock) (ret ip)))"

text \<open>Using a null pointer is a page fault in the kernel, except where the code tests for it.\<close>

definition nonnull :: "'a option \<Rightarrow> ('s, 'a) prog" where
  "nonnull x = (case x of None \<Rightarrow> panic ''kerneltrap'' | Some v \<Rightarrow> ret v)"

definition ilock :: "('z fs_state_scheme) kenv \<Rightarrow> nat option \<Rightarrow> ('z fs_state_scheme, unit) prog" where
  "ilock E ip0 = (case ip0 of None \<Rightarrow> panic ''ilock'' | Some ip \<Rightarrow>
     block
      [bind (iget_field ip i_ref) (\<lambda>r. whenM (r < 1) (panic ''ilock'')),
       acquiresleep (e_sw E) (InodeSl ip),
       bind (iget_field ip (\<lambda>x. x)) (\<lambda>x.
         whenM (\<not> i_valid x)
          (bind (gets sb) (\<lambda>S.
           bind (bread E (i_dev x) (IBLOCK (i_inum x) S)) (\<lambda>bp.
           bind (bget_field bp b_data) (\<lambda>d.
           block
            [iset ip (dinode_load d (unat (i_inum x) mod IPB)),
             brelse bp,
             iset ip (\<lambda>x. x\<lparr>i_valid := True\<rparr>),
             bind (iget_field ip i_type) (\<lambda>t. whenM (t = 0) (panic ''ilock: no type''))])))))])"

definition iunlock :: "nat option \<Rightarrow> ('z fs_state_scheme, unit) prog" where
  "iunlock ip0 = (case ip0 of None \<Rightarrow> panic ''iunlock'' | Some ip \<Rightarrow>
     block
      [bind (holdingsleep (InodeSl ip)) (\<lambda>h. whenM (\<not> h) (panic ''iunlock'')),
       bind (iget_field ip i_ref) (\<lambda>r. whenM (r < 1) (panic ''iunlock'')),
       releasesleep (InodeSl ip)])"

text \<open>\<open>bmap\<close>: the disk block of block \<open>bn\<close> of a file, allocating it if there is none.\<close>

definition bmap :: "('z fs_state_scheme) kenv \<Rightarrow> nat \<Rightarrow> uint \<Rightarrow> ('z fs_state_scheme, uint) prog" where
  "bmap E ip bn =
     bind (iget_field ip i_dev) (\<lambda>dev.
     let direct = (\<lambda>j.
       bind (iget_field ip (\<lambda>x. i_addrs x j)) (\<lambda>addr.
       if addr = 0 then
         bind (balloc E dev) (\<lambda>a. seq (iset ip (\<lambda>x. x\<lparr>i_addrs := (i_addrs x)(j := a)\<rparr>)) (ret a))
       else ret addr)) in
     if bn < word_of_nat NDIRECT then direct (unat bn)
     else if bn - word_of_nat NDIRECT < word_of_nat NINDIRECT then
       (let k = unat (bn - word_of_nat NDIRECT) in
        bind (direct NDIRECT) (\<lambda>addr.
        bind (bread E dev addr) (\<lambda>bp.
        bind (bget_field bp (\<lambda>x. ucast (get_le 4 (b_data x) (4 * k)) :: uint)) (\<lambda>addr.
        bind (if addr = 0 then
                bind (balloc E dev) (\<lambda>a.
                seq (bset bp (\<lambda>x. x\<lparr>b_data := put_le 4 (b_data x) (4 * k) (ucast a)\<rparr>))
               (seq (log_write bp) (ret a)))
              else ret addr) (\<lambda>addr.
        seq (brelse bp) (ret addr))))))
     else panic ''bmap: out of range'')"

definition itrunc :: "('z fs_state_scheme) kenv \<Rightarrow> nat \<Rightarrow> ('z fs_state_scheme, unit) prog" where
  "itrunc E ip =
     bind (iget_field ip i_dev) (\<lambda>dev.
     block
      [forM [0..<NDIRECT] (\<lambda>i.
         bind (iget_field ip (\<lambda>x. i_addrs x i)) (\<lambda>a.
         whenM (a \<noteq> 0) (block [bfree E dev a, iset ip (\<lambda>x. x\<lparr>i_addrs := (i_addrs x)(i := 0)\<rparr>)]))),
       bind (iget_field ip (\<lambda>x. i_addrs x NDIRECT)) (\<lambda>a.
         whenM (a \<noteq> 0)
          (bind (bread E dev a) (\<lambda>bp.
           block
            [forM [0..<NINDIRECT] (\<lambda>j.
               bind (bget_field bp (\<lambda>x. ucast (get_le 4 (b_data x) (4 * j)) :: uint)) (\<lambda>c.
               whenM (c \<noteq> 0) (bfree E dev c))),
             brelse bp,
             bfree E dev a,
             iset ip (\<lambda>x. x\<lparr>i_addrs := (i_addrs x)(NDIRECT := 0)\<rparr>)]))),
       iset ip (\<lambda>x. x\<lparr>i_size := 0\<rparr>),
       iupdate E ip])"

definition iput :: "('z fs_state_scheme) kenv \<Rightarrow> nat \<Rightarrow> ('z fs_state_scheme, unit) prog" where
  "iput E ip =
     block
      [acquire ItableLock,
       bind (iget_field ip (\<lambda>x. i_ref x = 1 \<and> i_valid x \<and> i_nlink x = 0)) (\<lambda>last.
         whenM last (block
          [acquiresleep (e_sw E) (InodeSl ip),
           release ItableLock,
           itrunc E ip,
           iset ip (\<lambda>x. x\<lparr>i_type := 0\<rparr>),
           iupdate E ip,
           iset ip (\<lambda>x. x\<lparr>i_valid := False\<rparr>),
           releasesleep (InodeSl ip),
           acquire ItableLock])),
       iset ip (\<lambda>x. x\<lparr>i_ref := i_ref x - 1\<rparr>),
       release ItableLock]"

definition iunlockput :: "('z fs_state_scheme) kenv \<Rightarrow> nat \<Rightarrow> ('z fs_state_scheme, unit) prog" where
  "iunlockput E ip = block [iunlock (Some ip), iput E ip]"

section \<open>File contents\<close>

text \<open>\<open>struct stat\<close> as bytes. Its four padding bytes hold whatever the stack held before.\<close>

definition stati :: "nat \<Rightarrow> ('z fs_state_scheme, byte list) prog" where
  "stati ip =
     bind (iget_field ip (\<lambda>x. x)) (\<lambda>x.
     gets (\<lambda>s. le_bytes 4 (ucast (i_dev x)) @ le_bytes 4 (ucast (i_inum x)) @ le_bytes 2 (ucast (i_type x))
       @ le_bytes 2 (ucast (i_nlink x)) @ le_bytes 4 (sym s ''stack'') @ le_bytes 8 (ucast (i_size x))))"

text \<open>The loop of \<open>readi\<close>. \<open>sink tot bs\<close> stores the bytes that go to \<open>dst + tot\<close>. The result is the value
  returned and the bytes that were stored.\<close>

definition readi_to :: "('z fs_state_scheme) kenv \<Rightarrow> nat \<Rightarrow> (uint \<Rightarrow> byte list \<Rightarrow> ('z fs_state_scheme, int) prog) \<Rightarrow>
    uint \<Rightarrow> uint \<Rightarrow> ('z fs_state_scheme, int \<times> byte list) prog" where
  "readi_to E ip sink off n =
     bind (iget_field ip (\<lambda>x. x)) (\<lambda>x.
     if off > i_size x \<or> off + n < off then ret (0, [])
     else
       (let n = (if off + n > i_size x then i_size x - off else n) in
        loopM (\<lambda>(tot, off, got).
          if tot < n then
            bind (bmap E ip (off div word_of_nat BSIZE)) (\<lambda>bno.
            bind (bread E (i_dev x) bno) (\<lambda>bp.
            let m = min (n - tot) (word_of_nat BSIZE - off mod word_of_nat BSIZE) in
            bind (bget_field bp (\<lambda>b. take (unat m) (drop (unat off mod BSIZE) (b_data b)))) (\<lambda>bs.
            bind (sink tot bs) (\<lambda>r.
            if r = -1 then seq (brelse bp) (ret (Inr (-1, got)))
            else seq (brelse bp) (ret (Inl (tot + m, off + m, got @ bs)))))))
          else ret (Inr (sint tot, got))) (0, off, [])))"

definition readi :: "('z fs_state_scheme) kenv \<Rightarrow> nat \<Rightarrow> bool \<Rightarrow> uint64 \<Rightarrow> uint \<Rightarrow> uint \<Rightarrow> ('z fs_state_scheme, int) prog" where
  "readi E ip user_dst dst off n =
     bind (readi_to E ip (\<lambda>tot bs. either_copyout user_dst (dst + ucast tot) (KObj bs) (word_of_nat (length bs))) off n)
       (\<lambda>(r, _). ret r)"

text \<open>\<open>readi\<close> into a kernel variable.\<close>

definition readi_var :: "('z fs_state_scheme) kenv \<Rightarrow> nat \<Rightarrow> uint \<Rightarrow> uint \<Rightarrow> ('z fs_state_scheme, int \<times> byte list) prog" where
  "readi_var E ip off n = readi_to E ip (\<lambda>_ _. ret 0) off n"

text \<open>The loop of \<open>writei\<close>. \<open>source tot m\<close> gives the \<open>m\<close> bytes at \<open>src + tot\<close>, or as many as could be read.\<close>

definition writei_from :: "('z fs_state_scheme) kenv \<Rightarrow> nat \<Rightarrow>
    (uint \<Rightarrow> uint \<Rightarrow> ('z fs_state_scheme, int \<times> byte list) prog) \<Rightarrow> uint \<Rightarrow> uint \<Rightarrow> ('z fs_state_scheme, int) prog" where
  "writei_from E ip source off n =
     bind (iget_field ip (\<lambda>x. x)) (\<lambda>x.
     if off > i_size x \<or> off + n < off then ret (-1)
     else if off + n > word_of_nat (MAXFILE * BSIZE) then ret (-1)
     else
       bind (loopM (\<lambda>(tot, off).
          if tot < n then
            bind (bmap E ip (off div word_of_nat BSIZE)) (\<lambda>bno.
            bind (bread E (i_dev x) bno) (\<lambda>bp.
            let m = min (n - tot) (word_of_nat BSIZE - off mod word_of_nat BSIZE) in
            bind (source tot m) (\<lambda>(r, bs).
            seq (bset bp (\<lambda>b. b\<lparr>b_data := overwrite (b_data b) (unat off mod BSIZE) bs\<rparr>))
           (if r = -1 then seq (brelse bp) (ret (Inr (tot, off)))
            else seq (log_write bp) (seq (brelse bp) (ret (Inl (tot + m, off + m))))))))
          else ret (Inr (tot, off))) (0, off)) (\<lambda>(tot, off).
       seq (iset ip (\<lambda>x. if off > i_size x then x\<lparr>i_size := off\<rparr> else x))
      (seq (iupdate E ip) (ret (sint tot)))))"

definition writei :: "('z fs_state_scheme) kenv \<Rightarrow> nat \<Rightarrow> bool \<Rightarrow> uint64 \<Rightarrow> uint \<Rightarrow> uint \<Rightarrow> ('z fs_state_scheme, int) prog" where
  "writei E ip user_src src off n =
     writei_from E ip (\<lambda>tot m. either_copyin user_src (src + ucast tot) (ucast m)) off n"

text \<open>\<open>writei\<close> from a kernel variable.\<close>

definition writei_var :: "('z fs_state_scheme) kenv \<Rightarrow> nat \<Rightarrow> byte list \<Rightarrow> uint \<Rightarrow> uint \<Rightarrow> ('z fs_state_scheme, int) prog" where
  "writei_var E ip var off n =
     writei_from E ip (\<lambda>tot m. ret (0, take (unat m) (drop (unat tot) var))) off n"

section \<open>Directories\<close>

text \<open>\<open>strncmp\<close> on arrays; reading past the end of a list reads its NUL.\<close>

fun ncmp :: "nat \<Rightarrow> byte list \<Rightarrow> byte list \<Rightarrow> int" where
  "ncmp 0 p q = 0"
| "ncmp (Suc n) p q =
     (let a = (case p of [] \<Rightarrow> 0 | x # _ \<Rightarrow> x); b = (case q of [] \<Rightarrow> 0 | x # _ \<Rightarrow> x) in
      if a \<noteq> 0 \<and> a = b then ncmp n (tl p) (tl q) else uint a - uint b)"

definition namecmp :: "byte list \<Rightarrow> byte list \<Rightarrow> int" where
  "namecmp s t = ncmp DIRSIZ s t"

definition de_inum :: "byte list \<Rightarrow> uint" where
  "de_inum de = ucast (get_le 2 de 0)"

definition de_name :: "byte list \<Rightarrow> byte list" where
  "de_name de = take DIRSIZ (drop 2 de)"

text \<open>\<open>strncpy(de.name, name, DIRSIZ)\<close>.\<close>

definition dirent_bytes :: "byte list \<Rightarrow> uint \<Rightarrow> byte list" where
  "dirent_bytes name inum =
     (let nm = take DIRSIZ (takeWhile (\<lambda>b. b \<noteq> 0) name) in
      le_bytes 2 (ucast inum) @ nm @ replicate (DIRSIZ - length nm) 0)"

text \<open>The result is the inode and the byte offset of the entry.\<close>

definition dirlookup :: "('z fs_state_scheme) kenv \<Rightarrow> nat \<Rightarrow> byte list \<Rightarrow> ('z fs_state_scheme, (nat \<times> uint) option) prog" where
  "dirlookup E dp name =
     bind (iget_field dp (\<lambda>x. x)) (\<lambda>x.
     seq (whenM (i_type x \<noteq> T_DIR) (panic ''dirlookup not DIR''))
    (scanM (multiples 16 (unat (i_size x))) (\<lambda>off.
       bind (readi_var E dp (word_of_nat off) 16) (\<lambda>(r, de).
       seq (whenM (r \<noteq> 16) (panic ''dirlookup read''))
      (if de_inum de = 0 then ret None
       else if namecmp name (de_name de) = 0 then
         bind (iget (i_dev x) (de_inum de)) (\<lambda>ip. ret (Some (ip, word_of_nat off)))
       else ret None)))))"

definition dirlink :: "('z fs_state_scheme) kenv \<Rightarrow> nat \<Rightarrow> byte list \<Rightarrow> uint \<Rightarrow> ('z fs_state_scheme, int) prog" where
  "dirlink E dp name inum =
     bind (dirlookup E dp name) (\<lambda>r. case r of
       Some (ip, _) \<Rightarrow> seq (iput E ip) (ret (-1))
     | None \<Rightarrow>
         bind (iget_field dp (\<lambda>x. unat (i_size x))) (\<lambda>size.
         bind (scanM (multiples 16 size) (\<lambda>off.
           bind (readi_var E dp (word_of_nat off) 16) (\<lambda>(r, de).
           seq (whenM (r \<noteq> 16) (panic ''dirlink read''))
               (ret (if de_inum de = 0 then Some off else None))))) (\<lambda>free.
         let off = (case free of Some o' \<Rightarrow> o' | None \<Rightarrow> 16 * ((size + 15) div 16)) in
         bind (writei_var E dp (dirent_bytes name inum) (word_of_nat off) 16) (\<lambda>r.
         seq (whenM (r \<noteq> 16) (panic ''dirlink'')) (ret 0)))))"

section \<open>Path names\<close>

definition SLASH :: byte where [simp]: "SLASH = 47"

text \<open>\<open>name\<close> is the array before the call; the result is the rest of the path and the array after it.\<close>

definition skipelem :: "byte list \<Rightarrow> byte list \<Rightarrow> (byte list \<times> byte list) option" where
  "skipelem path name =
     (let p = dropWhile (\<lambda>c. c = SLASH) path in
      if p = [] then None
      else
        (let s = takeWhile (\<lambda>c. c \<noteq> SLASH) p; rest = dropWhile (\<lambda>c. c \<noteq> SLASH) p;
             name' = (if length s \<ge> DIRSIZ then overwrite name 0 (take DIRSIZ s) else overwrite name 0 (s @ [0])) in
         Some (dropWhile (\<lambda>c. c = SLASH) rest, name')))"

definition namex :: "('z fs_state_scheme) kenv \<Rightarrow> byte list \<Rightarrow> bool \<Rightarrow> byte list \<Rightarrow>
    ('z fs_state_scheme, (nat \<times> byte list) option) prog" where
  "namex E path parent name =
     bind (if path \<noteq> [] \<and> hd path = SLASH then iget ROOTDEV ROOTINO
           else bind curproc (\<lambda>p. bind (pget p p_cwd) (\<lambda>c. bind (nonnull c) idup))) (\<lambda>ip.
     loopM (\<lambda>(path, ip, name).
       case skipelem path name of
         None \<Rightarrow>
           if parent then seq (iput E ip) (ret (Inr None)) else ret (Inr (Some (ip, name)))
       | Some (path, name) \<Rightarrow>
           seq (ilock E (Some ip))
          (bind (iget_field ip i_type) (\<lambda>t.
           if t \<noteq> T_DIR then seq (iunlockput E ip) (ret (Inr None))
           else if parent \<and> path = [] then seq (iunlock (Some ip)) (ret (Inr (Some (ip, name))))
           else bind (dirlookup E ip name) (\<lambda>r.
             seq (iunlockput E ip)
                 (ret (case r of None \<Rightarrow> Inr None | Some (nx, _) \<Rightarrow> Inl (path, nx, name))))))) (path, ip, name))"

definition namei :: "('z fs_state_scheme) kenv \<Rightarrow> byte list \<Rightarrow> ('z fs_state_scheme, nat option) prog" where
  "namei E path = bind (namex E path False (replicate DIRSIZ 0)) (\<lambda>r. ret (map_option fst r))"

definition nameiparent :: "('z fs_state_scheme) kenv \<Rightarrow> byte list \<Rightarrow> byte list \<Rightarrow>
    ('z fs_state_scheme, (nat \<times> byte list) option) prog" where
  "nameiparent E path name = namex E path True name"

section \<open>Inodes on disk\<close>

text \<open>The fields of the on-disk inode are where \<open>ilock\<close> looks for them.\<close>

lemma ucast_take_bit16: "(ucast (take_bit 16 (ucast (x :: short) :: uint64)) :: short) = x"
  by (rule bit_word_eqI) (auto simp: bit_simps)

lemma ucast_take_bit32: "(ucast (take_bit 32 (ucast (x :: uint) :: uint64)) :: uint) = x"
  by (rule bit_word_eqI) (auto simp: bit_simps)

lemma length_dinode_bytes [simp]: "length (dinode_bytes x) = 64"
  by (simp add: dinode_bytes_def length_concat comp_def sum_list_triv)

text \<open>Two inodes that agree on the fields kept on disk.\<close>

definition same_on_disk :: "inode \<Rightarrow> inode \<Rightarrow> bool" where
  "same_on_disk x y \<longleftrightarrow> i_type x = i_type y \<and> i_major x = i_major y \<and> i_minor x = i_minor y \<and> i_nlink x = i_nlink y
     \<and> i_size x = i_size y \<and> (\<forall>j < NDIRECT + 1. i_addrs x j = i_addrs y j)"

lemma dinode_field:
  "get_le 2 (dinode_bytes x) 0 = take_bit 16 (ucast (i_type x))"
  "get_le 2 (dinode_bytes x) 2 = take_bit 16 (ucast (i_major x))"
  "get_le 2 (dinode_bytes x) 4 = take_bit 16 (ucast (i_minor x))"
  "get_le 2 (dinode_bytes x) 6 = take_bit 16 (ucast (i_nlink x))"
  "get_le 4 (dinode_bytes x) 8 = take_bit 32 (ucast (i_size x))"
  "j < NDIRECT + 1 \<Longrightarrow> get_le 4 (dinode_bytes x) (12 + 4 * j) = take_bit 32 (ucast (i_addrs x j))"
proof -
  show "get_le 2 (dinode_bytes x) 0 = take_bit 16 (ucast (i_type x))"
    unfolding dinode_bytes_def by (simp add: get_le_le_bytes)
  let ?a = "le_bytes 2 (ucast (i_type x))" and ?b = "le_bytes 2 (ucast (i_major x))" and ?c = "le_bytes 2 (ucast (i_minor x))"
    and ?d = "le_bytes 2 (ucast (i_nlink x))" and ?e = "le_bytes 4 (ucast (i_size x))"
  show "get_le 2 (dinode_bytes x) 2 = take_bit 16 (ucast (i_major x))"
    using get_le_append(1) [of ?a 2 2 _ 0] by (simp add: dinode_bytes_def get_le_le_bytes)
  show "get_le 2 (dinode_bytes x) 4 = take_bit 16 (ucast (i_minor x))"
    using get_le_append(1) [of "?a @ ?b" 4 2 _ 0] by (simp add: dinode_bytes_def get_le_le_bytes)
  show "get_le 2 (dinode_bytes x) 6 = take_bit 16 (ucast (i_nlink x))"
    using get_le_append(1) [of "?a @ ?b @ ?c" 6 2 _ 0] by (simp add: dinode_bytes_def get_le_le_bytes)
  show "get_le 4 (dinode_bytes x) 8 = take_bit 32 (ucast (i_size x))"
    using get_le_append(1) [of "?a @ ?b @ ?c @ ?d" 8 4 _ 0] by (simp add: dinode_bytes_def get_le_le_bytes)
  assume j: "j < NDIRECT + 1"
  show "get_le 4 (dinode_bytes x) (12 + 4 * j) = take_bit 32 (ucast (i_addrs x j))"
    using get_le_append(1) [of "?a @ ?b @ ?c @ ?d @ ?e" 12 4 _ "4 * j"] j
      get_le_concat [of j "map (\<lambda>j. ucast (i_addrs x j)) [0..<NDIRECT + 1]" 4]
    by (simp add: dinode_bytes_def comp_def del: upt_Suc)
qed

lemma dinode_written:
  assumes "length d = BSIZE" "k < IPB"
  shows "same_on_disk x (dinode_load (overwrite d (64 * k) (dinode_bytes x)) k y)"
proof -
  have fit: "64 * k + length (dinode_bytes x) \<le> length d" using assms by simp
  note at = get_le_overwrite [OF fit]
  have "get_le 4 (overwrite d (64 * k) (dinode_bytes x)) (64 * k + (12 + 4 * j)) = take_bit 32 (ucast (i_addrs x j))"
    if "j < NDIRECT + 1" for j
    using at [of "12 + 4 * j" 4] that dinode_field(6) [OF that, of x] by simp
  then show ?thesis
    using at [of 0 2] at [of 2 2] at [of 4 2] at [of 6 2] at [of 8 4]
    by (simp add: same_on_disk_def dinode_load_def dinode_field ucast_take_bit16 ucast_take_bit32 add.assoc)
qed


lemma dinode_untouched:
  assumes "length d = BSIZE" "k < IPB" "k' < IPB" "k' \<noteq> k"
  shows "dinode_load (overwrite d (64 * k) (dinode_bytes x)) k' y = dinode_load d k' y"
proof -
  have fit: "64 * k + length (dinode_bytes x) \<le> length d" using assms by simp
  have "64 * k' + 64 \<le> 64 * k \<or> 64 * k + 64 \<le> 64 * k'" using assms(4) by linarith
  then have "get_le n (overwrite d (64 * k) (dinode_bytes x)) (64 * k' + i) = get_le n d (64 * k' + i)" if "i + n \<le> 64" for n i
    using get_le_outside [OF fit, of "64 * k' + i" n] that by auto
  from this [of 0 2] this [of 2 2] this [of 4 2] this [of 6 2] this [of 8 4] this [of "12 + 4 * _" 4]
  show ?thesis by (auto simp: dinode_load_def fun_eq_iff add.assoc intro!: inode.fold_congs)
qed

section \<open>Names\<close>

text \<open>The name in a directory entry or in the array \<open>name\<close>: up to a NUL, at most \<open>DIRSIZ\<close> bytes.\<close>

definition cname :: "byte list \<Rightarrow> byte list" where
  "cname s = takeWhile (\<lambda>b. b \<noteq> 0) (take DIRSIZ s)"

lemma ncmp_0_iff: "ncmp n p q = 0 \<longleftrightarrow> takeWhile (\<lambda>b. b \<noteq> 0) (take n p) = takeWhile (\<lambda>b. b \<noteq> 0) (take n q)"
proof (induction n p q rule: ncmp.induct)
  case (2 n p q)
  show ?case
    using 2 by (cases p; cases q) (auto simp: Let_def unsigned_eq_0_iff dest: unsigned_word_eqI)
qed simp

lemma namecmp_0_iff: "namecmp s t = 0 \<longleftrightarrow> cname s = cname t"
  by (simp only: namecmp_def ncmp_0_iff cname_def)

text \<open>The elements of a path: what is between slashes.\<close>

primrec split_at :: "byte \<Rightarrow> byte list \<Rightarrow> byte list list" where
  "split_at c [] = [[]]"
| "split_at c (x # xs) = (if x = c then [] # split_at c xs
     else case split_at c xs of [] \<Rightarrow> [[x]] | w # ws \<Rightarrow> (x # w) # ws)"

definition path_elems :: "byte list \<Rightarrow> byte list list" where
  "path_elems path = filter (\<lambda>w. w \<noteq> []) (split_at SLASH path)"

lemma split_at_nonempty [simp]: "split_at c xs \<noteq> []"
  by (induction xs) (auto split: list.splits)

lemma split_at_run:
  "split_at c xs = takeWhile (\<lambda>x. x \<noteq> c) xs #
     (case dropWhile (\<lambda>x. x \<noteq> c) xs of [] \<Rightarrow> [] | _ # ys \<Rightarrow> split_at c ys)"
  by (induction xs) (auto split: list.splits)

lemma path_elems_slash: "path_elems (SLASH # xs) = path_elems xs"
  by (simp add: path_elems_def)

lemma path_elems_dropWhile: "path_elems (dropWhile (\<lambda>c. c = SLASH) xs) = path_elems xs"
  by (induction xs) (auto simp: path_elems_def)

lemma path_elems_step:
  assumes "xs \<noteq> []" "hd xs \<noteq> SLASH"
  shows "path_elems xs = takeWhile (\<lambda>x. x \<noteq> SLASH) xs # path_elems (dropWhile (\<lambda>x. x \<noteq> SLASH) xs)"
proof -
  have "takeWhile (\<lambda>x. x \<noteq> SLASH) xs \<noteq> []" using assms by (cases xs) auto
  moreover have "path_elems (dropWhile (\<lambda>x. x \<noteq> SLASH) xs) =
      filter (\<lambda>w. w \<noteq> []) (case dropWhile (\<lambda>x. x \<noteq> SLASH) xs of [] \<Rightarrow> [] | _ # ys \<Rightarrow> split_at SLASH ys)"
  proof (cases "dropWhile (\<lambda>x. x \<noteq> SLASH) xs")
    case (Cons y ys)
    then have "y = SLASH" using hd_dropWhile [of "\<lambda>x. x \<noteq> SLASH" xs] by simp
    then show ?thesis unfolding Cons by (simp add: path_elems_def)
  next
    case Nil
    show ?thesis unfolding Nil by (simp add: path_elems_def)
  qed
  ultimately show ?thesis
    unfolding path_elems_def by (subst split_at_run) (simp add: path_elems_def)
qed

lemma name_filled:
  assumes "length name = DIRSIZ" "0 \<notin> set w"
  shows "cname (if length w \<ge> DIRSIZ then overwrite name 0 (take DIRSIZ w) else overwrite name 0 (w @ [0])) = take DIRSIZ w"
proof -
  have nz: "takeWhile (\<lambda>b. b \<noteq> 0) (take 14 w) = take 14 w"
    using assms(2) in_set_takeD [of _ 14 w] by (intro takeWhile_eq_all_conv [THEN iffD2]) auto
  moreover have "takeWhile (\<lambda>b. b \<noteq> 0) (w @ 0 # ys) = w" for ys
    using assms(2) by (subst takeWhile_append) (auto simp: takeWhile_eq_all_conv [THEN iffD2])
  ultimately show ?thesis
    using assms by (auto simp: cname_def overwrite_def not_le)
qed


lemma skipelem_step:
  assumes "length name = DIRSIZ" "0 \<notin> set path"
  shows "case path_elems path of [] \<Rightarrow> skipelem path name = None
    | w # ws \<Rightarrow> \<exists>rest name'. skipelem path name = Some (rest, name') \<and> path_elems rest = ws
        \<and> (rest = [] \<longleftrightarrow> ws = []) \<and> cname name' = take DIRSIZ w \<and> length name' = DIRSIZ
        \<and> length rest < length path \<and> set rest \<subseteq> set path"
proof -
  define p where "p = dropWhile (\<lambda>c. c = SLASH) path"
  define w where "w = takeWhile (\<lambda>c. c \<noteq> SLASH) p"
  define r where "r = dropWhile (\<lambda>c. c \<noteq> SLASH) p"
  define rest where "rest = dropWhile (\<lambda>c. c = SLASH) r"
  define nm where "nm = (if length w \<ge> DIRSIZ then overwrite name 0 (take DIRSIZ w) else overwrite name 0 (w @ [0]))"
  have sk: "skipelem path name = (if p = [] then None else Some (rest, nm))"
    unfolding skipelem_def Let_def p_def [symmetric] w_def [symmetric] r_def [symmetric] rest_def [symmetric]
      nm_def [symmetric] ..
  have pe: "path_elems path = path_elems p" "path_elems r = path_elems rest"
    by (simp_all only: p_def rest_def path_elems_dropWhile)
  show ?thesis
  proof (cases "p = []")
    case True
    then have "path_elems path = []" unfolding pe by (simp add: path_elems_def)
    with True sk show ?thesis by simp
  next
    case False
    have hd: "hd p \<noteq> SLASH" using False unfolding p_def by (rule hd_dropWhile)
    have e: "path_elems path = w # path_elems rest"
      using path_elems_step [OF False hd] unfolding pe w_def [symmetric] r_def [symmetric] .
    have wr: "w @ r = p" unfolding w_def r_def by (rule takeWhile_dropWhile_id)
    have "w \<noteq> []" using False hd unfolding w_def by (cases p) auto
    moreover have "length rest \<le> length r" "length p \<le> length path"
      unfolding rest_def p_def by (rule length_dropWhile_le)+
    ultimately have len: "length rest < length path"
      unfolding wr [symmetric] by (cases w) auto
    have sub: "set rest \<subseteq> set r" "set p \<subseteq> set path" unfolding rest_def p_def by (blast dest: set_dropWhileD)+
    have "set w \<subseteq> set p" "set r \<subseteq> set p" unfolding wr [symmetric] by auto
    with sub assms(2) have w0: "0 \<notin> set w" "set rest \<subseteq> set path" by auto
    have rest0: "rest = [] \<longleftrightarrow> path_elems rest = []"
    proof (cases "rest = []")
      case ne: False
      then have "hd rest \<noteq> SLASH" unfolding rest_def by (rule hd_dropWhile)
      from path_elems_step [OF ne this] ne show ?thesis by simp
    qed (simp add: path_elems_def)
    have "cname nm = take DIRSIZ w" unfolding nm_def by (rule name_filled [OF assms(1) w0(1)])
    moreover have "length nm = DIRSIZ" unfolding nm_def using assms(1) by (simp add: overwrite_def)
    ultimately show ?thesis
      using sk len rest0 w0(2) False by (simp add: e)
  qed
qed

text \<open>The names \<open>namex\<close> looks up, one after the other.\<close>

function walk_names :: "byte list \<Rightarrow> byte list \<Rightarrow> byte list list" where
  "walk_names path name = (case skipelem path name of None \<Rightarrow> []
     | Some (rest, name') \<Rightarrow> if length rest < length path then cname name' # walk_names rest name' else [])"
  by auto
termination by (relation "measure (\<lambda>(path, _). length path)") auto

declare walk_names.simps [simp del]

lemma walk_names_elems:
  assumes "length name = DIRSIZ" "0 \<notin> set path"
  shows "walk_names path name = map (take DIRSIZ) (path_elems path)"
  using assms
proof (induction path arbitrary: name rule: measure_induct_rule [where f = length])
  case (less path)
  note step = skipelem_step [OF less.prems]
  show ?case
  proof (cases "path_elems path")
    case Nil
    with step show ?thesis by (subst walk_names.simps) simp
  next
    case (Cons w ws)
    with step obtain rest name' where r: "skipelem path name = Some (rest, name')" "path_elems rest = ws"
      "cname name' = take DIRSIZ w" "length name' = DIRSIZ" "length rest < length path" "set rest \<subseteq> set path" by auto
    have "walk_names rest name' = map (take DIRSIZ) ws"
      using less.IH [OF r(5,4)] less.prems(2) r(2,6) by auto
    then show ?thesis using r Cons by (subst walk_names.simps) simp
  qed
qed

lemma takeWhile_eq_prefix:
  "\<forall>b \<in> set xs. b \<noteq> z \<Longrightarrow> ys = [] \<or> hd ys = z \<Longrightarrow> takeWhile (\<lambda>b. b \<noteq> z) (xs @ ys) = xs"
  by (induction xs) (cases ys; simp)+

lemma dirent_name:
  "cname (de_name (dirent_bytes name inum)) = take DIRSIZ (takeWhile (\<lambda>b. b \<noteq> 0) name)"
  "de_inum (dirent_bytes name inum) = ucast (ucast inum :: 16 word)"
proof -
  let ?nm = "take 14 (takeWhile (\<lambda>b. b \<noteq> 0) name)"
  have "takeWhile (\<lambda>b. b \<noteq> 0) (?nm @ replicate k 0) = ?nm" for k
  proof (rule takeWhile_eq_prefix)
    show "\<forall>b \<in> set ?nm. b \<noteq> 0" by (blast dest: in_set_takeD set_takeWhileD)
    show "replicate k 0 = [] \<or> hd (replicate k 0) = (0 :: byte)" by (cases k) simp_all
  qed
  then show "cname (de_name (dirent_bytes name inum)) = take DIRSIZ (takeWhile (\<lambda>b. b \<noteq> 0) name)"
    by (simp add: cname_def de_name_def dirent_bytes_def Let_def)
  have "get_le 2 (le_bytes 2 (ucast inum) @ ys) 0 = take_bit 16 (ucast inum)" for ys
    using get_le_le_bytes [of 2 "ucast inum" ys] by simp
  moreover have "ucast (take_bit 16 (ucast inum :: uint64)) = (ucast (ucast inum :: 16 word) :: uint)"
    by (rule bit_word_eqI) (auto simp: bit_simps)
  ultimately show "de_inum (dirent_bytes name inum) = ucast (ucast inum :: 16 word)"
    by (simp only: de_inum_def dirent_bytes_def Let_def)
qed

lemma takeWhile_of_take: "takeWhile P (take n xs) = take n (takeWhile P xs)"
  by (induction xs arbitrary: n) (simp_all add: take_Cons' split: if_splits)

lemma cname_takeWhile: "cname name = take DIRSIZ (takeWhile (\<lambda>b. b \<noteq> 0) name)"
  by (simp add: cname_def takeWhile_of_take)


lemma bm_bit_set:
  assumes "length d = BSIZE" "bi < BPB" "bj < BPB"
  shows "bm_bit (bm_set d bi) bj \<longleftrightarrow> bj = bi \<or> bm_bit d bj"
    and "bm_bit (bm_clear d bi) bj \<longleftrightarrow> bj \<noteq> bi \<and> bm_bit d bj"
proof -
  have one: "x AND push_bit k 1 \<noteq> 0 \<longleftrightarrow> bit x k" for x :: byte and k
    by (simp add: and_exp_eq_0_iff_not_bit)
  have less: "bi div 8 < length d" "bj mod 8 < 8" "bi mod 8 < 8" using assms by (simp_all add: div_less_iff_less_mult)
  have same: "bj = bi \<longleftrightarrow> bj div 8 = bi div 8 \<and> bj mod 8 = bi mod 8" by (metis div_mod_decomp)
  show "bm_bit (bm_set d bi) bj \<longleftrightarrow> bj = bi \<or> bm_bit d bj"
    "bm_bit (bm_clear d bi) bj \<longleftrightarrow> bj \<noteq> bi \<and> bm_bit d bj"
    unfolding bm_bit_def bm_set_def bm_clear_def one same using less
    by (auto simp: nth_list_update bit_simps)
qed

section \<open>Formats\<close>

text \<open>C30: What \<open>iupdate\<close> writes of an inode into its slot of a block, \<open>ilock\<close> reads back: type, device numbers, link count,
  size and all thirteen block addresses. The other fifteen inodes of the block are not touched.\<close>

theorem dinode_roundtrip:
  assumes "length d = BSIZE" "k < IPB"
  shows "same_on_disk x (dinode_load (overwrite d (64 * k) (dinode_bytes x)) k y)
    \<and> (\<forall>k' < IPB. k' \<noteq> k \<longrightarrow> dinode_load (overwrite d (64 * k) (dinode_bytes x)) k' y = dinode_load d k' y)"
  using dinode_written [OF assms] dinode_untouched [OF assms] by blast

definition inode0 :: inode where
  "inode0 = \<lparr>i_dev = 1, i_inum = 19, i_ref = 1, i_valid = True, i_type = T_FILE, i_major = 0, i_minor = 0,
     i_nlink = 1, i_size = 1030, i_addrs = (\<lambda>_. 0)(0 := 46, 1 := 47)\<rparr>"

theorem dinode_roundtrip_witness:
  "i_size (dinode_load (overwrite (replicate 1024 7) (64 * 3) (dinode_bytes inode0)) 3 (inode0\<lparr>i_size := 0\<rparr>)) = 1030"
  using dinode_roundtrip [of "replicate 1024 7" 3 inode0 "inode0\<lparr>i_size := 0\<rparr>"]
  by (simp add: same_on_disk_def) (simp add: inode0_def)

text \<open>C31: Path lookup visits exactly the elements of the path: the names that \<open>skipelem\<close> produces one after the other, until
  it returns 0, are the non-empty parts between slashes, in order, each cut to \<open>DIRSIZ\<close> bytes. Each call that
  returns a name shortens the path.\<close>

theorem skipelem_elements:
  assumes "length name = DIRSIZ" "0 \<notin> set path"
  shows "walk_names path name = map (take DIRSIZ) (path_elems path)
    \<and> (\<forall>rest name'. skipelem path name = Some (rest, name') \<longrightarrow> length rest < length path)"
  using walk_names_elems [OF assms] skipelem_step [OF assms] by (auto split: list.splits)

theorem skipelem_elements_witness:
  "walk_names [47, 97, 47, 47, 98, 98, 47] (replicate 14 0) = [[97], [98, 98]]"
  using skipelem_elements [of "replicate 14 0" "[47, 97, 47, 47, 98, 98, 47]"] by (simp add: path_elems_def)

text \<open>C32: A directory entry as \<open>dirlink\<close> writes it is found by \<open>dirlookup\<close>'s comparison under exactly the names that
  agree with the given one up to a NUL or in the first \<open>DIRSIZ\<close> bytes, and gives back the inode number
  modulo $2^{16}$.\<close>

theorem dirent_roundtrip:
  "(namecmp key (de_name (dirent_bytes name inum)) = 0 \<longleftrightarrow> cname key = cname name)
    \<and> unat (de_inum (dirent_bytes name inum)) = unat inum mod 65536"
proof -
  have "unat (ucast (ucast inum :: 16 word) :: uint) = unat inum mod 65536"
    by (simp add: unsigned_ucast_eq take_bit_eq_mod unat_mod_distrib)
  then show ?thesis
    by (simp only: namecmp_0_iff dirent_name cname_takeWhile [symmetric] simp_thms)
qed

end
