(* ===== verification/File.thy ===== *)
theory File
  imports Fs
begin

text \<open>
  \<open>kernel/file.c\<close> and \<open>kernel/pipe.c\<close>: open files and pipes. A pipe lives in a page of its own; the state maps
  the address of the page to the \<open>struct pipe\<close> in it.
\<close>

section \<open>State\<close>

datatype ftype = FD_NONE | FD_PIPE | FD_INODE | FD_DEVICE

record kfile =
  f_type :: ftype
  f_ref :: int
  f_readable :: bool
  f_writable :: bool
  f_pipe :: uint64
  f_ip :: "nat option"
  f_off :: uint
  f_major :: short

record pipe =
  pi_data :: "nat \<Rightarrow> byte"
  pi_nread :: uint
  pi_nwrite :: uint
  pi_readopen :: bool
  pi_writeopen :: bool

record file_state = fs_state +
  files :: "nat \<Rightarrow> kfile"
  pipes :: "uint64 \<Rightarrow> pipe"

definition fget :: "nat \<Rightarrow> (kfile \<Rightarrow> 'a) \<Rightarrow> ('z file_state_scheme, 'a) prog" where
  "fget f g = gets (\<lambda>s. g (files s f))"

definition fset :: "nat \<Rightarrow> (kfile \<Rightarrow> kfile) \<Rightarrow> ('z file_state_scheme, unit) prog" where
  "fset f g = modify (\<lambda>s. s\<lparr>files := (files s)(f := g (files s f))\<rparr>)"

definition piget :: "uint64 \<Rightarrow> (pipe \<Rightarrow> 'a) \<Rightarrow> ('z file_state_scheme, 'a) prog" where
  "piget q g = gets (\<lambda>s. g (pipes s q))"

definition piset :: "uint64 \<Rightarrow> (pipe \<Rightarrow> pipe) \<Rightarrow> ('z file_state_scheme, unit) prog" where
  "piset q g = modify (\<lambda>s. s\<lparr>pipes := (pipes s)(q := g (pipes s q))\<rparr>)"

section \<open>Pipes\<close>

definition PIPESIZE :: nat where [simp]: "PIPESIZE = 512"

definition pipeclose :: "uint64 \<Rightarrow> bool \<Rightarrow> ('z file_state_scheme, unit) prog" where
  "pipeclose q writable =
     block
      [acquire (PipeLock q),
       if writable then block [piset q (\<lambda>x. x\<lparr>pi_writeopen := False\<rparr>), wakeup (ChanPipeR q)]
       else block [piset q (\<lambda>x. x\<lparr>pi_readopen := False\<rparr>), wakeup (ChanPipeW q)],
       bind (piget q (\<lambda>x. \<not> pi_readopen x \<and> \<not> pi_writeopen x)) (\<lambda>last.
         if last then block [release (PipeLock q), kfree q] else release (PipeLock q))]"

text \<open>The loop leaves with \<open>Some i\<close> on a break or at its end, with \<open>None\<close> when it has returned -1.\<close>

definition pipewrite :: "('z file_state_scheme) kenv \<Rightarrow> uint64 \<Rightarrow> uint64 \<Rightarrow> int \<Rightarrow> ('z file_state_scheme, int) prog" where
  "pipewrite E q addr n =
     bind curproc (\<lambda>pr.
     seq (acquire (PipeLock q))
    (bind (loopM (\<lambda>i.
       if i < n then
         bind (piget q pi_readopen) (\<lambda>ro.
         bind (pget pr p_killed) (\<lambda>k.
         if \<not> ro \<or> k \<noteq> 0 then seq (release (PipeLock q)) (ret (Inr None))
         else bind (piget q (\<lambda>x. pi_nwrite x = pi_nread x + word_of_nat PIPESIZE)) (\<lambda>full.
           if full then
             seq (wakeup (ChanPipeR q)) (seq (sleep (e_sw E) (ChanPipeW q) (PipeLock q)) (ret (Inl i)))
           else bind (pget pr p_pagetable) (\<lambda>pt.
             bind (copyin pt (addr + word_of_int i) 1) (\<lambda>(r, ch).
             if r = -1 then ret (Inr (Some i))
             else
               seq (piset q (\<lambda>x. x\<lparr>pi_data := (pi_data x)(unat (pi_nwrite x) mod PIPESIZE := hd ch),
                 pi_nwrite := pi_nwrite x + 1\<rparr>))
                   (ret (Inl (i + 1))))))))
       else ret (Inr (Some i))) 0) (\<lambda>r.
     case r of None \<Rightarrow> ret (-1)
     | Some i \<Rightarrow> seq (wakeup (ChanPipeR q)) (seq (release (PipeLock q)) (ret i)))))"

definition piperead :: "('z file_state_scheme) kenv \<Rightarrow> uint64 \<Rightarrow> uint64 \<Rightarrow> int \<Rightarrow> ('z file_state_scheme, int) prog" where
  "piperead E q addr n =
     bind curproc (\<lambda>pr.
     seq (acquire (PipeLock q))
    (bind (loopM (\<lambda>_.
       bind (piget q (\<lambda>x. pi_nread x = pi_nwrite x \<and> pi_writeopen x)) (\<lambda>empty.
       if empty then
         bind (pget pr p_killed) (\<lambda>k.
         if k \<noteq> 0 then seq (release (PipeLock q)) (ret (Inr False))
         else seq (sleep (e_sw E) (ChanPipeR q) (PipeLock q)) (ret (Inl ())))
       else ret (Inr True))) ()) (\<lambda>go.
     if \<not> go then ret (-1)
     else
       bind (loopM (\<lambda>i.
         if i < n then
           bind (piget q (\<lambda>x. pi_nread x = pi_nwrite x)) (\<lambda>empty.
           if empty then ret (Inr i)
           else bind (piget q (\<lambda>x. pi_data x (unat (pi_nread x) mod PIPESIZE))) (\<lambda>ch.
             seq (piset q (\<lambda>x. x\<lparr>pi_nread := pi_nread x + 1\<rparr>))
            (bind (pget pr p_pagetable) (\<lambda>pt.
             bind (copyout pt (addr + word_of_int i) (KObj [ch]) 1) (\<lambda>r.
             if r = -1 then ret (Inr i) else ret (Inl (i + 1)))))))
         else ret (Inr i)) 0) (\<lambda>i.
       seq (wakeup (ChanPipeW q)) (seq (release (PipeLock q)) (ret i))))))"

section \<open>Files\<close>

definition fileinit :: "('z file_state_scheme, unit) prog" where
  "fileinit = initlock FtableLock ''ftable''"

definition filealloc :: "('z file_state_scheme, nat option) prog" where
  "filealloc =
     seq (acquire FtableLock)
    (bind (scanM [0..<NFILE] (\<lambda>f.
       bind (fget f f_ref) (\<lambda>r.
       if r = 0 then seq (fset f (\<lambda>x. x\<lparr>f_ref := 1\<rparr>)) (ret (Some f)) else ret None))) (\<lambda>r.
     seq (release FtableLock) (ret r)))"

definition filedup :: "nat \<Rightarrow> ('z file_state_scheme, nat) prog" where
  "filedup f =
     seq (acquire FtableLock)
    (seq (bind (fget f f_ref) (\<lambda>r. whenM (r < 1) (panic ''filedup'')))
    (seq (fset f (\<lambda>x. x\<lparr>f_ref := f_ref x + 1\<rparr>))
    (seq (release FtableLock) (ret f))))"

definition fileclose :: "('z file_state_scheme) kenv \<Rightarrow> nat \<Rightarrow> ('z file_state_scheme, unit) prog" where
  "fileclose E f =
     seq (acquire FtableLock)
    (seq (bind (fget f f_ref) (\<lambda>r. whenM (r < 1) (panic ''fileclose'')))
    (seq (fset f (\<lambda>x. x\<lparr>f_ref := f_ref x - 1\<rparr>))
    (bind (fget f (\<lambda>x. x)) (\<lambda>ff.
     if f_ref ff > 0 then release FtableLock
     else block
      [fset f (\<lambda>x. x\<lparr>f_ref := 0, f_type := FD_NONE\<rparr>),
       release FtableLock,
       if f_type ff = FD_PIPE then pipeclose (f_pipe ff) (f_writable ff)
       else whenM (f_type ff = FD_INODE \<or> f_type ff = FD_DEVICE) (block
         [begin_op E, bind (nonnull (f_ip ff)) (iput E), end_op E])]))))"

definition pipealloc :: "('z file_state_scheme) kenv \<Rightarrow> ('z file_state_scheme, (nat \<times> nat) option) prog" where
  "pipealloc E =
     (let bad = (\<lambda>f0 f1. block
        [(case f0 of None \<Rightarrow> ret () | Some f \<Rightarrow> fileclose E f),
         (case f1 of None \<Rightarrow> ret () | Some f \<Rightarrow> fileclose E f)]) in
      bind filealloc (\<lambda>f0. case f0 of
        None \<Rightarrow> seq (bad None None) (ret None)
      | Some a \<Rightarrow> bind filealloc (\<lambda>f1. case f1 of
          None \<Rightarrow> seq (bad (Some a) None) (ret None)
        | Some b \<Rightarrow> bind kalloc (\<lambda>q.
            if q = 0 then seq (bad (Some a) (Some b)) (ret None)
            else
              seq (piset q (\<lambda>x. x\<lparr>pi_readopen := True, pi_writeopen := True, pi_nwrite := 0, pi_nread := 0\<rparr>))
             (seq (initlock (PipeLock q) ''pipe'')
             (seq (fset a (\<lambda>x. x\<lparr>f_type := FD_PIPE, f_readable := True, f_writable := False, f_pipe := q\<rparr>))
             (seq (fset b (\<lambda>x. x\<lparr>f_type := FD_PIPE, f_readable := False, f_writable := True, f_pipe := q\<rparr>))
                  (ret (Some (a, b))))))))))"

definition filestat :: "('z file_state_scheme) kenv \<Rightarrow> nat \<Rightarrow> uint64 \<Rightarrow> ('z file_state_scheme, int) prog" where
  "filestat E f addr =
     bind curproc (\<lambda>p.
     bind (fget f (\<lambda>x. x)) (\<lambda>x.
     if f_type x = FD_INODE \<or> f_type x = FD_DEVICE then
       seq (ilock E (f_ip x))
      (bind (nonnull (f_ip x)) (\<lambda>ip.
       bind (stati ip) (\<lambda>st.
       seq (iunlock (f_ip x))
      (bind (pget p p_pagetable) (\<lambda>pt.
       bind (copyout pt addr (KObj st) (word_of_nat (length st))) (\<lambda>r.
       ret (if r < 0 then -1 else 0)))))))
     else ret (-1)))"

definition dev_call :: "('z file_state_scheme) kenv \<Rightarrow> devfun \<Rightarrow> bool \<Rightarrow> uint64 \<Rightarrow> int \<Rightarrow> ('z file_state_scheme, int) prog" where
  "dev_call E d user addr n =
     (case d of Consoleread \<Rightarrow> consoleread (e_sw E) user addr n | Consolewrite \<Rightarrow> consolewrite (e_sw E) user addr n)"

definition fileread :: "('z file_state_scheme) kenv \<Rightarrow> nat \<Rightarrow> uint64 \<Rightarrow> int \<Rightarrow> ('z file_state_scheme, int) prog" where
  "fileread E f addr n =
     bind (fget f (\<lambda>x. x)) (\<lambda>x.
     if \<not> f_readable x then ret (-1)
     else case f_type x of
       FD_PIPE \<Rightarrow> piperead E (f_pipe x) addr n
     | FD_DEVICE \<Rightarrow>
         bind (gets devsw_read) (\<lambda>tab.
         if sint (f_major x) < 0 \<or> sint (f_major x) \<ge> int NDEV then ret (-1)
         else (case tab (nat (sint (f_major x))) of None \<Rightarrow> ret (-1) | Some d \<Rightarrow> dev_call E d True addr n))
     | FD_INODE \<Rightarrow>
         seq (ilock E (f_ip x))
        (bind (nonnull (f_ip x)) (\<lambda>ip.
         bind (readi E ip True addr (f_off x) (word_of_int n)) (\<lambda>r.
         seq (whenM (r > 0) (fset f (\<lambda>x. x\<lparr>f_off := f_off x + word_of_int r\<rparr>)))
        (seq (iunlock (f_ip x)) (ret r)))))
     | FD_NONE \<Rightarrow> panic ''fileread'')"

definition filewrite :: "('z file_state_scheme) kenv \<Rightarrow> nat \<Rightarrow> uint64 \<Rightarrow> int \<Rightarrow> ('z file_state_scheme, int) prog" where
  "filewrite E f addr n =
     bind (fget f (\<lambda>x. x)) (\<lambda>x.
     if \<not> f_writable x then ret (-1)
     else case f_type x of
       FD_PIPE \<Rightarrow> pipewrite E (f_pipe x) addr n
     | FD_DEVICE \<Rightarrow>
         bind (gets devsw_write) (\<lambda>tab.
         if sint (f_major x) < 0 \<or> sint (f_major x) \<ge> int NDEV then ret (-1)
         else (case tab (nat (sint (f_major x))) of None \<Rightarrow> ret (-1) | Some d \<Rightarrow> dev_call E d True addr n))
     | FD_INODE \<Rightarrow>
         (let mx = int ((MAXOPBLOCKS - 1 - 1 - 2) div 2 * BSIZE) in
          bind (loopM (\<lambda>i.
            if i < n then
              (let n1 = min (n - i) mx in
               seq (begin_op E)
              (seq (ilock E (f_ip x))
              (bind (nonnull (f_ip x)) (\<lambda>ip.
               bind (fget f f_off) (\<lambda>off.
               bind (writei E ip True (addr + word_of_int i) off (word_of_int n1)) (\<lambda>r.
               seq (whenM (r > 0) (fset f (\<lambda>x. x\<lparr>f_off := f_off x + word_of_int r\<rparr>)))
              (seq (iunlock (f_ip x))
              (seq (end_op E) (ret (if r \<noteq> n1 then Inr i else Inl (i + r)))))))))))
            else ret (Inr i)) 0) (\<lambda>i.
          ret (if i = n then n else -1)))
     | FD_NONE \<Rightarrow> panic ''filewrite'')"

end
