(* ===== verification/Sysargs.thy ===== *)
theory Sysargs
  imports File
begin

text \<open>
  Fetching system call arguments (\<open>kernel/syscall.c\<close>): registers saved in the trapframe, and words and strings
  in user memory. \<open>argint\<close> and \<open>argaddr\<close> always return 0 in the source; here they give the value they
  store. A string is the list of its bytes before the NUL; \<open>None\<close> stands for the error result.
\<close>

definition fetchaddr :: "uint64 \<Rightarrow> ('z proc_state_scheme, uint64 option) prog" where
  "fetchaddr addr =
     bind curproc (\<lambda>p.
     bind (pget p (\<lambda>x. x)) (\<lambda>x.
     if addr \<ge> p_sz x \<or> addr + 8 > p_sz x then ret None
     else bind (copyin (p_pagetable x) addr 8) (\<lambda>(r, bs).
       ret (if r \<noteq> 0 then None else Some (le_value bs)))))"

text \<open>\<open>fetchstr\<close> also gives the bytes it has stored into the buffer, the NUL included.\<close>

definition fetchstr :: "uint64 \<Rightarrow> int \<Rightarrow> ('z proc_state_scheme, byte list option \<times> byte list) prog" where
  "fetchstr addr mx =
     bind curproc (\<lambda>p.
     bind (pget p p_pagetable) (\<lambda>pt.
     bind (copyinstr pt addr (word_of_int mx)) (\<lambda>(r, bs).
     ret (if r < 0 then None else Some (takeWhile (\<lambda>b. b \<noteq> 0) bs), bs))))"

definition argraw :: "int \<Rightarrow> ('z proc_state_scheme, uint64) prog" where
  "argraw n =
     bind curproc (\<lambda>p.
     if n = 0 then tf_read p TF_a0
     else if n = 1 then tf_read p TF_a1
     else if n = 2 then tf_read p TF_a2
     else if n = 3 then tf_read p TF_a3
     else if n = 4 then tf_read p TF_a4
     else if n = 5 then tf_read p TF_a5
     else panic ''argraw'')"

definition argint :: "int \<Rightarrow> ('z proc_state_scheme, int) prog" where
  "argint n = bind (argraw n) (\<lambda>w. ret (sint (ucast w :: uint)))"

definition argaddr :: "int \<Rightarrow> ('z proc_state_scheme, uint64) prog" where
  "argaddr n = argraw n"

definition argstr :: "int \<Rightarrow> int \<Rightarrow> ('z proc_state_scheme, byte list option) prog" where
  "argstr n mx = bind (argaddr n) (\<lambda>addr. bind (fetchstr addr mx) (\<lambda>(r, _). ret r))"

end
