(* ===== verification/Exec.thy ===== *)
theory Exec
  imports Sysargs
begin

text \<open>
  \<open>kernel/exec.c\<close> and the part of \<open>kernel/proc.c\<close> that creates and ends processes. The headers of an ELF file
  are byte lists read at the offsets of \<open>struct elfhdr\<close> and \<open>struct proghdr\<close>. \<open>argv\<close> is the list of the
  pointers before the null pointer that ends the array.
\<close>

section \<open>exec.c\<close>

definition ELF_MAGIC :: uint where [simp]: "ELF_MAGIC = 0x464C457F"
definition ELF_PROG_LOAD :: uint where [simp]: "ELF_PROG_LOAD = 1"

definition elf_magic :: "byte list \<Rightarrow> uint" where "elf_magic h = ucast (get_le 4 h 0)"
definition elf_entry :: "byte list \<Rightarrow> uint64" where "elf_entry h = get_le 8 h 24"
definition elf_phoff :: "byte list \<Rightarrow> uint64" where "elf_phoff h = get_le 8 h 32"
definition elf_phnum :: "byte list \<Rightarrow> nat" where "elf_phnum h = unat (get_le 2 h 56)"
definition ph_type :: "byte list \<Rightarrow> uint" where "ph_type h = ucast (get_le 4 h 0)"
definition ph_off :: "byte list \<Rightarrow> uint64" where "ph_off h = get_le 8 h 8"
definition ph_vaddr :: "byte list \<Rightarrow> uint64" where "ph_vaddr h = get_le 8 h 16"
definition ph_filesz :: "byte list \<Rightarrow> uint64" where "ph_filesz h = get_le 8 h 32"
definition ph_memsz :: "byte list \<Rightarrow> uint64" where "ph_memsz h = get_le 8 h 40"

definition loadseg :: "('z fs_state_scheme) kenv \<Rightarrow> uint64 \<Rightarrow> uint64 \<Rightarrow> nat \<Rightarrow> uint \<Rightarrow> uint \<Rightarrow> ('z fs_state_scheme, int) prog" where
  "loadseg E pagetable va ip offset sz =
     loopM (\<lambda>i.
       if i < sz then
         bind (walkaddr pagetable (va + ucast i)) (\<lambda>pa.
         seq (whenM (pa = 0) (panic ''loadseg: address should exist''))
        (let n = (if sz - i < ucast PGSIZE then sz - i else ucast PGSIZE) in
         bind (readi E ip False pa (offset + i) n) (\<lambda>r.
         ret (if (word_of_int r :: uint) \<noteq> n then Inr (-1) else Inl (i + ucast PGSIZE)))))
       else ret (Inr 0)) 0"

text \<open>The loop over the program headers: whether it ran to its end, and the size of the image so far.\<close>

definition load_segments :: "('z fs_state_scheme) kenv \<Rightarrow> nat \<Rightarrow> uint64 \<Rightarrow> byte list \<Rightarrow> ('z fs_state_scheme, bool \<times> uint64) prog" where
  "load_segments E ip pagetable elf =
     loopM (\<lambda>(i, off, sz).
       if i < elf_phnum elf then
         bind (readi_var E ip off 56) (\<lambda>(r, ph).
         if r \<noteq> 56 then ret (Inr (False, sz))
         else if ph_type ph \<noteq> ELF_PROG_LOAD then ret (Inl (i + 1, off + 56, sz))
         else if ph_memsz ph < ph_filesz ph then ret (Inr (False, sz))
         else if ph_vaddr ph + ph_memsz ph < ph_vaddr ph then ret (Inr (False, sz))
         else bind (uvmalloc pagetable sz (ph_vaddr ph + ph_memsz ph)) (\<lambda>sz1.
           if sz1 = 0 then ret (Inr (False, sz))
           else if ph_vaddr ph mod PGSIZE \<noteq> 0 then ret (Inr (False, sz1))
           else bind (loadseg E pagetable (ph_vaddr ph) ip (ucast (ph_off ph)) (ucast (ph_filesz ph))) (\<lambda>r.
             ret (if r < 0 then Inr (False, sz1) else Inl (i + 1, off + 56, sz1)))))
       else ret (Inr (True, sz))) (0, ucast (elf_phoff elf), 0)"

text \<open>Pushing the argument strings: the stack pointer and the addresses of the strings, or \<open>None\<close> on failure.\<close>

definition push_args :: "uint64 \<Rightarrow> uint64 \<Rightarrow> uint64 \<Rightarrow> uint64 list \<Rightarrow> ('z kmem_state_scheme, (uint64 \<times> uint64 list) option) prog" where
  "push_args pagetable stackbase sp argv =
     loopM (\<lambda>(argc, sp, ustack).
       if argc < length argv then
         if argc \<ge> MAXARG then ret (Inr None)
         else bind (gets (\<lambda>s. strlen (mem s) (argv ! argc))) (\<lambda>len. case len of None \<Rightarrow> hang
         | Some n \<Rightarrow>
             (let sp = sp - word_of_nat (n + 1); sp = sp - sp mod 16 in
              if sp < stackbase then ret (Inr None)
              else bind (copyout pagetable sp (KAddr (argv ! argc)) (word_of_nat (n + 1))) (\<lambda>r.
                ret (if r < 0 then Inr None else Inl (argc + 1, sp, ustack @ [sp])))))
       else ret (Inr (Some (sp, ustack)))) (0, sp, [])"

text \<open>\<open>safestrcpy\<close> into the 16-byte array \<open>name\<close>, from the string \<open>t\<close>.\<close>

definition name_copy :: "byte list \<Rightarrow> byte list \<Rightarrow> byte list" where
  "name_copy name t = overwrite name 0 (if length t < 15 then t @ [0, 0] else take 15 t @ [0])"

text \<open>What follows the last slash of a path.\<close>

definition last_elem :: "byte list \<Rightarrow> byte list" where
  "last_elem path = rev (takeWhile (\<lambda>c. c \<noteq> SLASH) (rev path))"

definition exec :: "('z fs_state_scheme) kenv \<Rightarrow> byte list \<Rightarrow> uint64 list \<Rightarrow> ('z fs_state_scheme, int) prog" where
  "exec E path argv =
     bind curproc (\<lambda>p.
     seq (begin_op E)
    (bind (namei E path) (\<lambda>r. case r of None \<Rightarrow> seq (end_op E) (ret (-1)) | Some ip \<Rightarrow>
     seq (ilock E (Some ip))
    (let bad = (\<lambda>pt sz has_ip. seq (whenM (pt \<noteq> 0) (proc_freepagetable pt sz))
                (seq (whenM has_ip (block [iunlockput E ip, end_op E])) (ret (-1)))) in
     bind (readi_var E ip 0 64) (\<lambda>(r, elf).
     if r \<noteq> 64 then bad 0 0 True
     else if elf_magic elf \<noteq> ELF_MAGIC then bad 0 0 True
     else bind (proc_pagetable p) (\<lambda>pt.
     if pt = 0 then bad 0 0 True
     else bind (load_segments E ip pt elf) (\<lambda>(ok, sz).
     if \<not> ok then bad pt sz True
     else
       seq (iunlockput E ip)
      (seq (end_op E)
      (bind curproc (\<lambda>p.
       bind (pget p p_sz) (\<lambda>oldsz.
       bind (uvmalloc pt (PGROUNDUP sz) (PGROUNDUP sz + 2 * PGSIZE)) (\<lambda>sz1.
       if sz1 = 0 then bad pt (PGROUNDUP sz) False
       else
         seq (uvmclear pt (sz1 - 2 * PGSIZE))
        (bind (push_args pt (sz1 - PGSIZE) sz1 argv) (\<lambda>pushed. case pushed of None \<Rightarrow> bad pt sz1 False
         | Some (sp, ustack) \<Rightarrow>
             (let argc = length argv; sp = sp - word_of_nat ((argc + 1) * 8); sp = sp - sp mod 16 in
              if sp < sz1 - PGSIZE then bad pt sz1 False
              else bind (copyout pt sp (KObj (concat (map (le_bytes 8) (ustack @ [0])))) (word_of_nat ((argc + 1) * 8))) (\<lambda>r.
                if r < 0 then bad pt sz1 False
                else
                  seq (tf_write p TF_a1 sp)
                 (seq (pset p (\<lambda>x. x\<lparr>p_name := name_copy (p_name x) (last_elem path)\<rparr>))
                 (bind (pget p p_pagetable) (\<lambda>oldpagetable.
                  seq (pset p (\<lambda>x. x\<lparr>p_pagetable := pt, p_sz := sz1\<rparr>))
                 (seq (tf_write p TF_epc (elf_entry elf))
                 (seq (tf_write p TF_sp sp)
                 (seq (proc_freepagetable oldpagetable oldsz) (ret (int argc))))))))))))))))))))))))"

section \<open>Creating and ending processes\<close>

text \<open>The first user program: it calls \<open>exec("/init")\<close>.\<close>

definition initcode :: "byte list" where
  "initcode =
    [0x17, 0x05, 0x00, 0x00, 0x13, 0x05, 0x45, 0x02,
     0x97, 0x05, 0x00, 0x00, 0x93, 0x85, 0x35, 0x02,
     0x93, 0x08, 0x70, 0x00, 0x73, 0x00, 0x00, 0x00,
     0x93, 0x08, 0x20, 0x00, 0x73, 0x00, 0x00, 0x00,
     0xef, 0xf0, 0x9f, 0xff, 0x2f, 0x69, 0x6e, 0x69,
     0x74, 0x00, 0x00, 0x24, 0x00, 0x00, 0x00, 0x00,
     0x00, 0x00, 0x00, 0x00]"

definition str :: "string \<Rightarrow> byte list" where
  "str cs = map of_char cs"

definition userinit :: "('z fs_state_scheme) kenv \<Rightarrow> ('z fs_state_scheme, unit) prog" where
  "userinit E =
     bind allocproc (\<lambda>r.
     seq (modify (\<lambda>s. s\<lparr>initproc := r\<rparr>))
    (bind (nonnull r) (\<lambda>p.
     block
      [bind (pget p p_pagetable) (\<lambda>pt. uvminit pt (KObj initcode) (word_of_nat (length initcode))),
       pset p (\<lambda>x. x\<lparr>p_sz := PGSIZE\<rparr>),
       tf_write p TF_epc 0,
       tf_write p TF_sp PGSIZE,
       pset p (\<lambda>x. x\<lparr>p_name := name_copy (p_name x) (str ''initcode'')\<rparr>),
       bind (namei E (str ''/'')) (\<lambda>ip. pset p (\<lambda>x. x\<lparr>p_cwd := ip\<rparr>)),
       pset p (\<lambda>x. x\<lparr>p_state := RUNNABLE\<rparr>),
       release (ProcLock p)])))"

definition fork :: "('z file_state_scheme, int) prog" where
  "fork =
     bind curproc (\<lambda>p.
     bind allocproc (\<lambda>r. case r of None \<Rightarrow> ret (-1) | Some np \<Rightarrow>
     bind (pget p (\<lambda>x. x)) (\<lambda>x.
     bind (pget np p_pagetable) (\<lambda>npt.
     bind (uvmcopy (p_pagetable x) npt (p_sz x)) (\<lambda>r.
     if r < 0 then seq (freeproc np) (seq (release (ProcLock np)) (ret (-1)))
     else
       seq (pset np (\<lambda>y. y\<lparr>p_sz := p_sz x, p_trace_mask := p_trace_mask x\<rparr>))
      (seq (bind (pget np p_trapframe) (\<lambda>ntf. modify (\<lambda>s. s\<lparr>mem := memmove (mem s) ntf (p_trapframe x) TF_size\<rparr>)))
      (seq (tf_write np TF_a0 0)
      (seq (forM [0..<NOFILE] (\<lambda>i. case p_ofile x i of None \<Rightarrow> ret ()
            | Some f \<Rightarrow> bind (filedup f) (\<lambda>f. pset np (\<lambda>y. y\<lparr>p_ofile := (p_ofile y)(i := Some f)\<rparr>))))
      (seq (bind (nonnull (p_cwd x)) (\<lambda>c. bind (idup c) (\<lambda>c. pset np (\<lambda>y. y\<lparr>p_cwd := Some c\<rparr>))))
      (seq (pset np (\<lambda>y. y\<lparr>p_name := name_copy (p_name y) (takeWhile (\<lambda>b. b \<noteq> 0) (p_name x))\<rparr>))
      (bind (pget np p_pid) (\<lambda>pid.
       seq (block
        [release (ProcLock np),
         acquire WaitLock,
         pset np (\<lambda>y. y\<lparr>p_parent := Some p\<rparr>),
         release WaitLock,
         acquire (ProcLock np),
         pset np (\<lambda>y. y\<lparr>p_state := RUNNABLE\<rparr>),
         release (ProcLock np)]) (ret pid)))))))))))))"

text \<open>\<open>exit\<close> does not return: the last switch to the scheduler never comes back.\<close>

definition exit :: "('z file_state_scheme) kenv \<Rightarrow> int \<Rightarrow> ('z file_state_scheme, unit) prog" where
  "exit E status =
     bind curproc (\<lambda>p.
     block
      [bind (gets initproc) (\<lambda>ip. whenM (ip = Some p) (panic ''init exiting'')),
       forM [0..<NOFILE] (\<lambda>fd. bind (pget p (\<lambda>x. p_ofile x fd)) (\<lambda>o'. case o' of None \<Rightarrow> ret ()
         | Some f \<Rightarrow> block [fileclose E f, pset p (\<lambda>x. x\<lparr>p_ofile := (p_ofile x)(fd := None)\<rparr>)])),
       begin_op E,
       bind (pget p p_cwd) (\<lambda>c. bind (nonnull c) (iput E)),
       end_op E,
       pset p (\<lambda>x. x\<lparr>p_cwd := None\<rparr>),
       acquire WaitLock,
       reparent p,
       bind (pget p p_parent) (\<lambda>par. wakeup (case par of None \<Rightarrow> NoChan | Some i \<Rightarrow> ChanProc i)),
       acquire (ProcLock p),
       bind (gets ticks) (\<lambda>now. pset p (\<lambda>x. x\<lparr>p_xstate := status, p_state := ZOMBIE, p_etime := now\<rparr>)),
       release WaitLock,
       sched (e_sw E),
       panic ''zombie exit''])"

end
