(* ===== verification/Sysfile.thy ===== *)
theory Sysfile
  imports Exec
begin

text \<open>
  \<open>kernel/sysfile.c\<close>: the system calls on files. Every handler gives the 64-bit value that goes into the
  caller's \<open>a0\<close>; -1 is all ones.
\<close>

section \<open>File descriptors\<close>

definition O_WRONLY :: uint where [simp]: "O_WRONLY = 1"
definition O_RDWR :: uint where [simp]: "O_RDWR = 2"
definition O_CREATE :: uint where [simp]: "O_CREATE = 0x200"
definition O_TRUNC :: uint where [simp]: "O_TRUNC = 0x400"

definition argfd :: "int \<Rightarrow> ('z file_state_scheme, (int \<times> nat) option) prog" where
  "argfd n =
     bind (argint n) (\<lambda>fd.
     if fd < 0 \<or> fd \<ge> int NOFILE then ret None
     else bind curproc (\<lambda>p. bind (pget p (\<lambda>x. p_ofile x (nat fd))) (\<lambda>f.
       ret (case f of None \<Rightarrow> None | Some f \<Rightarrow> Some (fd, f)))))"

definition fdalloc :: "nat \<Rightarrow> ('z file_state_scheme, nat option) prog" where
  "fdalloc f =
     bind curproc (\<lambda>p.
     scanM [0..<NOFILE] (\<lambda>fd.
       bind (pget p (\<lambda>x. p_ofile x fd)) (\<lambda>g.
       if g = None then seq (pset p (\<lambda>x. x\<lparr>p_ofile := (p_ofile x)(fd := Some f)\<rparr>)) (ret (Some fd)) else ret None)))"

definition sys_dup :: "('z file_state_scheme, uint64) prog" where
  "sys_dup =
     bind (argfd 0) (\<lambda>r. case r of None \<Rightarrow> ret (-1) | Some (_, f) \<Rightarrow>
     bind (fdalloc f) (\<lambda>r. case r of None \<Rightarrow> ret (-1) | Some fd \<Rightarrow>
     bind (filedup f) (\<lambda>_. ret (word_of_nat fd))))"

definition sys_read :: "('z file_state_scheme) kenv \<Rightarrow> ('z file_state_scheme, uint64) prog" where
  "sys_read E =
     bind (argfd 0) (\<lambda>r. case r of None \<Rightarrow> ret (-1) | Some (_, f) \<Rightarrow>
     bind (argint 2) (\<lambda>n. bind (argaddr 1) (\<lambda>p.
     bind (fileread E f p n) (\<lambda>r. ret (word_of_int r)))))"

definition sys_write :: "('z file_state_scheme) kenv \<Rightarrow> ('z file_state_scheme, uint64) prog" where
  "sys_write E =
     bind (argfd 0) (\<lambda>r. case r of None \<Rightarrow> ret (-1) | Some (_, f) \<Rightarrow>
     bind (argint 2) (\<lambda>n. bind (argaddr 1) (\<lambda>p.
     bind (filewrite E f p n) (\<lambda>r. ret (word_of_int r)))))"

definition sys_close :: "('z file_state_scheme) kenv \<Rightarrow> ('z file_state_scheme, uint64) prog" where
  "sys_close E =
     bind (argfd 0) (\<lambda>r. case r of None \<Rightarrow> ret (-1) | Some (fd, f) \<Rightarrow>
     seq (bind curproc (\<lambda>p. pset p (\<lambda>x. x\<lparr>p_ofile := (p_ofile x)(nat fd := None)\<rparr>)))
    (seq (fileclose E f) (ret 0)))"

definition sys_fstat :: "('z file_state_scheme) kenv \<Rightarrow> ('z file_state_scheme, uint64) prog" where
  "sys_fstat E =
     bind (argfd 0) (\<lambda>r. case r of None \<Rightarrow> ret (-1) | Some (_, f) \<Rightarrow>
     bind (argaddr 1) (\<lambda>st. bind (filestat E f st) (\<lambda>r. ret (word_of_int r))))"

section \<open>Names\<close>

definition no_name :: "byte list" where
  "no_name = replicate DIRSIZ 0"

definition sys_link :: "('z file_state_scheme) kenv \<Rightarrow> ('z file_state_scheme, uint64) prog" where
  "sys_link E =
     bind (argstr 0 (int MAXPATH)) (\<lambda>r. case r of None \<Rightarrow> ret (-1) | Some old \<Rightarrow>
     bind (argstr 1 (int MAXPATH)) (\<lambda>r. case r of None \<Rightarrow> ret (-1) | Some new \<Rightarrow>
     seq (begin_op E)
    (bind (namei E old) (\<lambda>r. case r of None \<Rightarrow> seq (end_op E) (ret (-1)) | Some ip \<Rightarrow>
     seq (ilock E (Some ip))
    (bind (iget_field ip i_type) (\<lambda>t.
     if t = T_DIR then seq (iunlockput E ip) (seq (end_op E) (ret (-1)))
     else
       seq (iset ip (\<lambda>x. x\<lparr>i_nlink := i_nlink x + 1\<rparr>))
      (seq (iupdate E ip)
      (seq (iunlock (Some ip))
      (let bad = seq (block [ilock E (Some ip), iset ip (\<lambda>x. x\<lparr>i_nlink := i_nlink x - 1\<rparr>), iupdate E ip,
                   iunlockput E ip, end_op E]) (ret (-1)) in
       bind (nameiparent E new no_name) (\<lambda>r. case r of None \<Rightarrow> bad | Some (dp, name) \<Rightarrow>
       seq (ilock E (Some dp))
      (bind (iget_field ip (\<lambda>x. x)) (\<lambda>x.
       bind (iget_field dp i_dev) (\<lambda>ddev.
       bind (if ddev \<noteq> i_dev x then ret (-1) else dirlink E dp name (i_inum x)) (\<lambda>r.
       if r < 0 then seq (iunlockput E dp) bad
       else seq (iunlockput E dp) (seq (iput E ip) (seq (end_op E) (ret 0)))))))))))))))))"

definition isdirempty :: "('z fs_state_scheme) kenv \<Rightarrow> nat \<Rightarrow> ('z fs_state_scheme, bool) prog" where
  "isdirempty E dp =
     bind (iget_field dp (\<lambda>x. unat (i_size x))) (\<lambda>size.
     bind (scanM (drop 2 (multiples 16 size)) (\<lambda>off.
       bind (readi_var E dp (word_of_nat off) 16) (\<lambda>(r, de).
       seq (whenM (r \<noteq> 16) (panic ''isdirempty: readi''))
           (ret (if de_inum de \<noteq> 0 then Some () else None))))) (\<lambda>r.
     ret (r = None)))"

definition sys_unlink :: "('z file_state_scheme) kenv \<Rightarrow> ('z file_state_scheme, uint64) prog" where
  "sys_unlink E =
     bind (argstr 0 (int MAXPATH)) (\<lambda>r. case r of None \<Rightarrow> ret (-1) | Some path \<Rightarrow>
     seq (begin_op E)
    (bind (nameiparent E path no_name) (\<lambda>r. case r of None \<Rightarrow> seq (end_op E) (ret (-1)) | Some (dp, name) \<Rightarrow>
     seq (ilock E (Some dp))
    (let bad = seq (block [iunlockput E dp, end_op E]) (ret (-1)) in
     if namecmp name (str ''.'') = 0 \<or> namecmp name (str ''..'') = 0 then bad
     else bind (dirlookup E dp name) (\<lambda>r. case r of None \<Rightarrow> bad | Some (ip, off) \<Rightarrow>
     seq (ilock E (Some ip))
    (bind (iget_field ip (\<lambda>x. x)) (\<lambda>x.
     seq (whenM (sint (i_nlink x) < 1) (panic ''unlink: nlink < 1''))
    (bind (if i_type x = T_DIR then isdirempty E ip else ret True) (\<lambda>empty.
     if \<not> empty then seq (iunlockput E ip) bad
     else
       bind (writei_var E dp (replicate 16 0) off 16) (\<lambda>r.
       seq (block
        [whenM (r \<noteq> 16) (panic ''unlink: writei''),
         whenM (i_type x = T_DIR) (block [iset dp (\<lambda>x. x\<lparr>i_nlink := i_nlink x - 1\<rparr>), iupdate E dp]),
         iunlockput E dp,
         iset ip (\<lambda>x. x\<lparr>i_nlink := i_nlink x - 1\<rparr>),
         iupdate E ip,
         iunlockput E ip,
         end_op E]) (ret 0)))))))))))"

definition create :: "('z file_state_scheme) kenv \<Rightarrow> byte list \<Rightarrow> short \<Rightarrow> short \<Rightarrow> short \<Rightarrow> ('z file_state_scheme, nat option) prog" where
  "create E path type major minor =
     bind (nameiparent E path no_name) (\<lambda>r. case r of None \<Rightarrow> ret None | Some (dp, name) \<Rightarrow>
     seq (ilock E (Some dp))
    (bind (dirlookup E dp name) (\<lambda>r. case r of
       Some (ip, _) \<Rightarrow>
         seq (iunlockput E dp)
        (seq (ilock E (Some ip))
        (bind (iget_field ip i_type) (\<lambda>t.
         if type = T_FILE \<and> (t = T_FILE \<or> t = T_DEVICE) then ret (Some ip)
         else seq (iunlockput E ip) (ret None))))
     | None \<Rightarrow>
         bind (iget_field dp i_dev) (\<lambda>dev.
         bind (ialloc E dev type) (\<lambda>ip.
         seq (block
          [ilock E (Some ip),
           iset ip (\<lambda>x. x\<lparr>i_major := major, i_minor := minor, i_nlink := 1\<rparr>),
           iupdate E ip,
           whenM (type = T_DIR) (block
            [iset dp (\<lambda>x. x\<lparr>i_nlink := i_nlink x + 1\<rparr>),
             iupdate E dp,
             bind (iget_field ip i_inum) (\<lambda>inum.
             bind (iget_field dp i_inum) (\<lambda>dinum.
             bind (dirlink E ip (str ''.'') inum) (\<lambda>r.
             if r < 0 then panic ''create dots''
             else bind (dirlink E ip (str ''..'') dinum) (\<lambda>r. whenM (r < 0) (panic ''create dots'')))))]),
           bind (iget_field ip i_inum) (\<lambda>inum.
             bind (dirlink E dp name inum) (\<lambda>r. whenM (r < 0) (panic ''create: dirlink''))),
           iunlockput E dp]) (ret (Some ip)))))))"

definition sys_open :: "('z file_state_scheme) kenv \<Rightarrow> ('z file_state_scheme, uint64) prog" where
  "sys_open E =
     bind (argstr 0 (int MAXPATH)) (\<lambda>r. case r of None \<Rightarrow> ret (-1) | Some path \<Rightarrow>
     bind (argint 1) (\<lambda>om.
     let omode = (word_of_int om :: uint) in
     seq (begin_op E)
    (bind (if omode AND O_CREATE \<noteq> 0 then create E path T_FILE 0 0
           else bind (namei E path) (\<lambda>r. case r of None \<Rightarrow> ret None | Some ip \<Rightarrow>
             seq (ilock E (Some ip))
            (bind (iget_field ip i_type) (\<lambda>t.
             if t = T_DIR \<and> omode \<noteq> 0 then seq (iunlockput E ip) (ret None) else ret (Some ip))))) (\<lambda>r.
     case r of None \<Rightarrow> seq (end_op E) (ret (-1)) | Some ip \<Rightarrow>
     bind (iget_field ip (\<lambda>x. x)) (\<lambda>x.
     if i_type x = T_DEVICE \<and> (sint (i_major x) < 0 \<or> sint (i_major x) \<ge> int NDEV)
     then seq (iunlockput E ip) (seq (end_op E) (ret (-1)))
     else bind filealloc (\<lambda>r. case r of None \<Rightarrow> seq (iunlockput E ip) (seq (end_op E) (ret (-1))) | Some f \<Rightarrow>
     bind (fdalloc f) (\<lambda>r. case r of
       None \<Rightarrow> seq (fileclose E f) (seq (iunlockput E ip) (seq (end_op E) (ret (-1))))
     | Some fd \<Rightarrow>
         seq (block
          [if i_type x = T_DEVICE then fset f (\<lambda>y. y\<lparr>f_type := FD_DEVICE, f_major := i_major x\<rparr>)
           else fset f (\<lambda>y. y\<lparr>f_type := FD_INODE, f_off := 0\<rparr>),
           fset f (\<lambda>y. y\<lparr>f_ip := Some ip, f_readable := (omode AND O_WRONLY = 0),
             f_writable := (omode AND O_WRONLY \<noteq> 0 \<or> omode AND O_RDWR \<noteq> 0)\<rparr>),
           whenM (omode AND O_TRUNC \<noteq> 0 \<and> i_type x = T_FILE) (itrunc E ip),
           iunlock (Some ip),
           end_op E]) (ret (word_of_nat fd)))))))))"

definition sys_mkdir :: "('z file_state_scheme) kenv \<Rightarrow> ('z file_state_scheme, uint64) prog" where
  "sys_mkdir E =
     seq (begin_op E)
    (bind (argstr 0 (int MAXPATH)) (\<lambda>r. case r of None \<Rightarrow> seq (end_op E) (ret (-1)) | Some path \<Rightarrow>
     bind (create E path T_DIR 0 0) (\<lambda>r. case r of None \<Rightarrow> seq (end_op E) (ret (-1)) | Some ip \<Rightarrow>
     seq (iunlockput E ip) (seq (end_op E) (ret 0)))))"

definition sys_mknod :: "('z file_state_scheme) kenv \<Rightarrow> ('z file_state_scheme, uint64) prog" where
  "sys_mknod E =
     seq (begin_op E)
    (bind (argstr 0 (int MAXPATH)) (\<lambda>r. case r of None \<Rightarrow> seq (end_op E) (ret (-1)) | Some path \<Rightarrow>
     bind (argint 1) (\<lambda>major. bind (argint 2) (\<lambda>minor.
     bind (create E path T_DEVICE (word_of_int major) (word_of_int minor)) (\<lambda>r.
     case r of None \<Rightarrow> seq (end_op E) (ret (-1)) | Some ip \<Rightarrow>
     seq (iunlockput E ip) (seq (end_op E) (ret 0)))))))"

definition sys_chdir :: "('z file_state_scheme) kenv \<Rightarrow> ('z file_state_scheme, uint64) prog" where
  "sys_chdir E =
     bind curproc (\<lambda>p.
     seq (begin_op E)
    (bind (argstr 0 (int MAXPATH)) (\<lambda>r. case r of None \<Rightarrow> seq (end_op E) (ret (-1)) | Some path \<Rightarrow>
     bind (namei E path) (\<lambda>r. case r of None \<Rightarrow> seq (end_op E) (ret (-1)) | Some ip \<Rightarrow>
     seq (ilock E (Some ip))
    (bind (iget_field ip i_type) (\<lambda>t.
     if t \<noteq> T_DIR then seq (iunlockput E ip) (seq (end_op E) (ret (-1)))
     else
       seq (block
        [iunlock (Some ip),
         bind (pget p p_cwd) (\<lambda>c. bind (nonnull c) (iput E)),
         end_op E,
         pset p (\<lambda>x. x\<lparr>p_cwd := Some ip\<rparr>)]) (ret 0)))))))"

text \<open>Fetching the argument vector of \<open>exec\<close>: the pages allocated for it, and whether all of it could be read.\<close>

definition fetch_argv :: "uint64 \<Rightarrow> ('z proc_state_scheme, bool \<times> uint64 list) prog" where
  "fetch_argv uargv =
     loopM (\<lambda>(i, pages).
       if i \<ge> MAXARG then ret (Inr (False, pages))
       else bind (fetchaddr (uargv + 8 * word_of_nat i)) (\<lambda>r. case r of None \<Rightarrow> ret (Inr (False, pages))
       | Some ua \<Rightarrow>
           if ua = 0 then ret (Inr (True, pages))
           else bind kalloc (\<lambda>page.
             if page = 0 then ret (Inr (False, pages))
             else bind (fetchstr ua (uint PGSIZE)) (\<lambda>(r, bs).
               seq (modify (\<lambda>s. s\<lparr>mem := poke (mem s) page bs\<rparr>))
                   (ret (if r = None then Inr (False, pages @ [page]) else Inl (i + 1, pages @ [page]))))))) (0, [])"

definition sys_exec :: "('z file_state_scheme) kenv \<Rightarrow> ('z file_state_scheme, uint64) prog" where
  "sys_exec E =
     bind (argstr 0 (int MAXPATH)) (\<lambda>r. case r of None \<Rightarrow> ret (-1) | Some path \<Rightarrow>
     bind (argaddr 1) (\<lambda>uargv.
     bind (fetch_argv uargv) (\<lambda>(ok, argv).
     if ok then bind (exec E path argv) (\<lambda>r. seq (forM argv kfree) (ret (word_of_int r)))
     else seq (forM argv kfree) (ret (-1)))))"

definition sys_pipe :: "('z file_state_scheme) kenv \<Rightarrow> ('z file_state_scheme, uint64) prog" where
  "sys_pipe E =
     bind curproc (\<lambda>p.
     bind (argaddr 0) (\<lambda>fdarray.
     bind (pipealloc E) (\<lambda>r. case r of None \<Rightarrow> ret (-1) | Some (fr, fw) \<Rightarrow>
     let clear = (\<lambda>fd. pset p (\<lambda>x. x\<lparr>p_ofile := (p_ofile x)(fd := None)\<rparr>)) in
     bind (fdalloc fr) (\<lambda>r. case r of
       None \<Rightarrow> seq (block [fileclose E fr, fileclose E fw]) (ret (-1))
     | Some fd0 \<Rightarrow> bind (fdalloc fw) (\<lambda>r. case r of
         None \<Rightarrow> seq (block [clear fd0, fileclose E fr, fileclose E fw]) (ret (-1))
       | Some fd1 \<Rightarrow>
           bind (pget p p_pagetable) (\<lambda>pt.
           bind (copyout pt fdarray (KObj (int_bytes (int fd0))) 4) (\<lambda>r0.
           bind (if r0 < 0 then ret (-1) else copyout pt (fdarray + 4) (KObj (int_bytes (int fd1))) 4) (\<lambda>r1.
           if r0 < 0 \<or> r1 < 0 then
             seq (block [clear fd0, clear fd1, fileclose E fr, fileclose E fw]) (ret (-1))
           else ret 0))))))))"

end
