(* ===== verification/Sysproc.thy ===== *)
theory Sysproc
  imports Sysfile
begin

text \<open>
  \<open>kernel/sysproc.c\<close> and the dispatch of system calls in \<open>kernel/syscall.c\<close>.
\<close>

section \<open>sysproc.c\<close>

definition sys_exit :: "('z file_state_scheme) kenv \<Rightarrow> ('z file_state_scheme, uint64) prog" where
  "sys_exit E = bind (argint 0) (\<lambda>n. seq (exit E n) (ret 0))"

definition sys_getpid :: "('z proc_state_scheme, uint64) prog" where
  "sys_getpid = bind curproc (\<lambda>p. pget p (\<lambda>x. word_of_int (p_pid x)))"

definition sys_fork :: "('z file_state_scheme, uint64) prog" where
  "sys_fork = bind fork (\<lambda>r. ret (word_of_int r))"

definition sys_wait :: "('z proc_state_scheme, unit) prog \<Rightarrow> ('z proc_state_scheme, uint64) prog" where
  "sys_wait sw = bind (argaddr 0) (\<lambda>p. bind (wait sw p) (\<lambda>r. ret (word_of_int r)))"

text \<open>The old size goes through an \<open>int\<close>.\<close>

definition sys_sbrk :: "('z proc_state_scheme, uint64) prog" where
  "sys_sbrk =
     bind (argint 0) (\<lambda>n.
     bind curproc (\<lambda>p.
     bind (pget p (\<lambda>x. sint (ucast (p_sz x) :: uint))) (\<lambda>addr.
     bind (growproc n) (\<lambda>r.
     ret (if r < 0 then -1 else word_of_int addr)))))"

text \<open>\<open>ticks - ticks0 < n\<close> compares as unsigned.\<close>

definition sys_sleep :: "('z proc_state_scheme, unit) prog \<Rightarrow> ('z proc_state_scheme, uint64) prog" where
  "sys_sleep sw =
     bind (argint 0) (\<lambda>n.
     seq (acquire TicksLock)
    (bind (gets ticks) (\<lambda>ticks0.
     loopM (\<lambda>_.
       bind (gets (\<lambda>s. ticks s - ticks0 < word_of_int n)) (\<lambda>early.
       if early then
         bind curproc (\<lambda>p. bind (pget p p_killed) (\<lambda>k.
         if k \<noteq> 0 then seq (release TicksLock) (ret (Inr (-1)))
         else seq (sleep sw ChanTicks TicksLock) (ret (Inl ()))))
       else seq (release TicksLock) (ret (Inr 0)))) ())))"

definition sys_kill :: "('z proc_state_scheme, uint64) prog" where
  "sys_kill = bind (argint 0) (\<lambda>pid. bind (kill pid) (\<lambda>r. ret (word_of_int r)))"

definition sys_uptime :: "('z proc_state_scheme, uint64) prog" where
  "sys_uptime =
     seq (acquire TicksLock)
    (bind (gets ticks) (\<lambda>xticks.
     seq (release TicksLock) (ret (ucast xticks))))"

definition sys_trace :: "('z proc_state_scheme, uint64) prog" where
  "sys_trace =
     bind (argint 0) (\<lambda>n.
     bind curproc (\<lambda>p.
     seq (pset p (\<lambda>x. x\<lparr>p_trace_mask := n\<rparr>)) (ret 0)))"

text \<open>The first argument of the call is passed as the pid and the second as the priority.\<close>

definition sys_set_priority :: "('z proc_state_scheme, uint64) prog" where
  "sys_set_priority =
     bind (argint 0) (\<lambda>new_priority.
     bind (argint 1) (\<lambda>procid.
     bind (setpriority new_priority procid) (\<lambda>r. ret (word_of_int r))))"

text \<open>\<open>waitx(addr, &wtime, &rtime)\<close> stores the child's run time in \<open>wtime\<close> and its wait time in \<open>rtime\<close>. When
  it returns early the two variables hold what the stack held.\<close>

definition sys_waitx :: "('z proc_state_scheme, unit) prog \<Rightarrow> ('z proc_state_scheme, uint64) prog" where
  "sys_waitx sw =
     bind (argaddr 0) (\<lambda>addr.
     bind (argaddr 1) (\<lambda>addr1.
     bind (argaddr 2) (\<lambda>addr2.
     bind (waitx sw addr) (\<lambda>(r, times).
     bind (gets (\<lambda>s. case times of Some t \<Rightarrow> t
       | None \<Rightarrow> (ucast (sym s ''stack''), ucast (drop_bit 32 (sym s ''stack''))))) (\<lambda>(wtime, rtime).
     bind curproc (\<lambda>p.
     bind (pget p p_pagetable) (\<lambda>pt.
     bind (copyout pt addr1 (KObj (le_bytes 4 (ucast wtime))) 4) (\<lambda>r1.
     if r1 < 0 then ret (-1)
     else bind (copyout pt addr2 (KObj (le_bytes 4 (ucast rtime))) 4) (\<lambda>r2.
     ret (if r2 < 0 then -1 else word_of_int r))))))))))"

section \<open>Dispatch\<close>

text \<open>\<open>syscalls[num]\<close>: the handler of a system call number. The null entry 0 and the numbers beyond the table
  have none.\<close>

definition syscalls :: "('z file_state_scheme) kenv \<Rightarrow> nat \<Rightarrow> ('z file_state_scheme, uint64) prog option" where
  "syscalls E num =
     (if num = 0 \<or> num > 24 then None
      else Some ([sys_fork, sys_exit E, sys_wait (e_sw E), sys_pipe E, sys_read E, sys_kill, sys_exec E, sys_fstat E,
        sys_chdir E, sys_dup, sys_getpid, sys_sbrk, sys_sleep (e_sw E), sys_uptime, sys_open E, sys_write E,
        sys_mknod E, sys_unlink E, sys_link E, sys_mkdir E, sys_close E, sys_trace, sys_set_priority,
        sys_waitx (e_sw E)] ! (num - 1)))"

definition syscall_names :: "string list" where
  "syscall_names = [''fork'', ''exit'', ''wait'', ''pipe'', ''read'', ''kill'', ''exec'', ''fstat'', ''chdir'', ''dup'',
     ''getpid'', ''sbrk'', ''sleep'', ''uptime'', ''open'', ''write'', ''mknod'', ''unlink'', ''link'', ''mkdir'', ''close'',
     ''trace'', ''set_priority'']"

definition syscall_argcnt :: "int list" where
  "syscall_argcnt = [0, 1, 1, 1, 3, 1, 2, 2, 1, 1, 0, 1, 1, 0, 2, 3, 3, 1, 2, 1, 1, 1, 2]"

text \<open>The two tables have 23 entries. What an access beyond them reads is whatever the linker put there: the
  words named \<open>argcnt_oob\<close> and \<open>name_oob\<close> of the symbol table.\<close>

definition argcnt_of :: "'z proc_state_scheme \<Rightarrow> int \<Rightarrow> int" where
  "argcnt_of s num = (if 1 \<le> num \<and> num \<le> 23 then syscall_argcnt ! nat (num - 1) else sint (ucast (sym s ''argcnt_oob'') :: uint))"

definition name_of :: "'z dev_state_scheme \<Rightarrow> int \<Rightarrow> string" where
  "name_of s num = (if 1 \<le> num \<and> num \<le> 23 then syscall_names ! nat (num - 1)
     else chars (peek (mem s) (sym s ''name_oob'') 64))"

definition trace_call :: "nat \<Rightarrow> int \<Rightarrow> int \<Rightarrow> ('z dev_state_scheme, unit) prog" where
  "trace_call p num a =
     bind (gets (\<lambda>s. name_of s num)) (\<lambda>nm.
     bind (gets (\<lambda>s. argcnt_of s num)) (\<lambda>cnt.
     block
      [printf ''syscall %s ('' [AStr (Some nm)],
       whenM (cnt > 0) (printf ''%d '' [AInt a]),
       forM [1..<nat cnt] (\<lambda>i. bind (argint (int i)) (\<lambda>n. printf ''%d '' [AInt n])),
       bind (tf_read p TF_a0) (\<lambda>r. printf ([CHR 0x08] @ '') -> %d'' @ NL) [AInt (sint (ucast r :: uint))])]))"

definition syscall :: "('z file_state_scheme) kenv \<Rightarrow> ('z file_state_scheme, unit) prog" where
  "syscall E =
     bind curproc (\<lambda>p.
     bind (tf_read p TF_a7) (\<lambda>a7.
     let num = sint (ucast a7 :: uint) in
     bind (gets (\<lambda>s. argcnt_of s num)) (\<lambda>cnt.
     bind (if cnt > 0 then argint 0 else ret 0) (\<lambda>a.
     case (if num > 0 then syscalls E (nat num) else None) of
       Some handler \<Rightarrow>
         bind handler (\<lambda>r.
         seq (tf_write p TF_a0 r)
        (bind curproc (\<lambda>q. bind (pget q p_trace_mask) (\<lambda>mask.
         whenM (bit (word_of_int mask :: uint) (nat num)) (trace_call p num a)))))
     | None \<Rightarrow>
         bind (pget p (\<lambda>x. x)) (\<lambda>x.
         seq (printf (''%d %s: unknown sys call %d'' @ NL) [AInt (p_pid x), AStr (Some (chars (p_name x))), AInt num])
             (tf_write p TF_a0 (-1)))))))"

end
