(* ===== verification/BlockCache.thy ===== *)
theory BlockCache
  imports Bio
begin

text \<open>
  The buffer cache of \<open>kernel/bio.c\<close> as its clients see it, proved for the code in theory \<open>Bio\<close>.

  The abstract \<open>cache\<close> has the contents of every block, the number of users of each, the blocks the process has
  locked, the disk, and the history of writes to it. \<open>cache_rel\<close> relates a kernel state to it: the buffers form a
  ring in both directions, no block has two buffers, valid buffers hold the contents, and a block
  without users is on the disk as it is seen. The locale \<open>block_driver\<close> is the contract of the disk driver; in it,
  reading, changing, writing, pinning and releasing a block are the corresponding abstract operations.
\<close>

section \<open>The ring of buffers\<close>

text \<open>\<open>chain f x zs y\<close>: following \<open>f\<close> from \<open>x\<close> passes through \<open>zs\<close> and arrives at \<open>y\<close>.\<close>

fun chain :: "(nat \<Rightarrow> nat) \<Rightarrow> nat \<Rightarrow> nat list \<Rightarrow> nat \<Rightarrow> bool" where
  "chain f x [] y \<longleftrightarrow> f x = y"
| "chain f x (z # zs) y \<longleftrightarrow> f x = z \<and> chain f z zs y"

lemma chain_append: "chain f x (us @ b # vs) y \<longleftrightarrow> chain f x us b \<and> chain f b vs y"
  by (induction us arbitrary: x) auto

lemma chain_cong: "(\<And>z. z = x \<or> z \<in> set zs \<Longrightarrow> f z = g z) \<Longrightarrow> chain f x zs y = chain g x zs y"
  by (induction zs arbitrary: x) auto

lemma chain_upd_other: "a \<noteq> x \<Longrightarrow> a \<notin> set zs \<Longrightarrow> chain (f(a := v)) x zs y = chain f x zs y"
  by (rule chain_cong) auto

lemma chain_first: "chain f x zs y \<Longrightarrow> f x = hd (zs @ [y])"
  by (cases zs) auto

lemma chain_redirect:
  "distinct (x # us) \<Longrightarrow> chain f x us b \<Longrightarrow> chain (f(last (x # us) := c)) x us c"
proof (induction us arbitrary: x)
  case (Cons u us)
  then have "last (u # us) \<noteq> x" by (metis distinct.simps(2) last_in_set list.distinct(1))
  with Cons show ?case by auto
qed simp

lemma chain_prepend:
  "chain f x zs y \<Longrightarrow> b \<noteq> x \<Longrightarrow> b \<notin> set zs \<Longrightarrow> x \<notin> set zs \<Longrightarrow> chain (f(b := f x, x := b)) x (b # zs) y"
  by (cases zs) (auto simp: chain_upd_other)

lemma chain_delete:
  assumes "chain f x (us @ b # vs) y" "distinct (x # us @ b # vs)"
  shows "chain (f(last (x # us) := f b)) x (us @ vs) y"
proof -
  let ?c = "last (x # us)"
  have c: "?c \<in> insert x (set us)" using last_in_set [of "x # us"] by auto
  have 1: "chain f x us b" "chain f b vs y" using assms(1) by (simp_all add: chain_append)
  have 2: "chain (f(?c := f b)) x us (f b)" using chain_redirect [of x us f b "f b"] 1 assms(2) by auto
  show ?thesis
  proof (cases vs)
    case Nil
    then show ?thesis using 1 2 by simp
  next
    case (Cons v ws)
    then have "f b = v" "chain f v ws y" using 1(2) by auto
    moreover have "?c \<noteq> v" "?c \<notin> set ws" using c assms(2) Cons by auto
    ultimately show ?thesis using 2 Cons by (simp add: chain_append chain_upd_other)
  qed
qed

lemma chain_extend:
  assumes "chain g y zs x" "distinct (y # zs)" "b \<noteq> y" "b \<notin> set zs"
  shows "chain (g(b := x, last (y # zs) := b)) y (zs @ [b]) x"
proof -
  have l: "last (y # zs) \<noteq> b" using last_in_set [of "y # zs"] assms by auto
  have "chain (g(last (y # zs) := b)) y zs b" by (rule chain_redirect) (use assms in auto)
  then have "chain (g(b := x, last (y # zs) := b)) y zs b"
    using assms l by (subst fun_upd_twist) (auto simp: chain_upd_other)
  then show ?thesis using l by (simp add: chain_append)
qed

text \<open>The buffers are linked in the order \<open>xs\<close>, most recently used first, in both directions.\<close>

definition linked :: "(nat \<Rightarrow> buf) \<Rightarrow> nat list \<Rightarrow> bool" where
  "linked B xs \<longleftrightarrow> chain (\<lambda>b. b_next (B b)) HEAD xs HEAD \<and> chain (\<lambda>b. b_prev (B b)) HEAD (rev xs) HEAD"

definition buf_ring :: "(nat \<Rightarrow> buf) \<Rightarrow> nat list \<Rightarrow> bool" where
  "buf_ring B xs \<longleftrightarrow> distinct xs \<and> set xs = {..<NBUF} \<and> linked B xs"

lemma linked_cong:
  "(\<And>b. b_next (B' b) = b_next (B b) \<and> b_prev (B' b) = b_prev (B b)) \<Longrightarrow> linked B' xs = linked B xs"
  by (simp add: linked_def)

lemma find_buf_run:
  assumes "x = hd (zs @ [HEAD])" "zs \<noteq> [] \<Longrightarrow> chain (\<lambda>b. dir (bufs s b)) (hd zs) (tl zs) HEAD" "HEAD \<notin> set zs"
  shows "find_buf dir P x s = Ok (find (\<lambda>b. P (bufs s b)) zs) s"
  using assms
proof (induction zs arbitrary: x)
  case Nil
  then show ?case
    unfolding find_buf_def by (subst loopM_unfold) (simp add: bind_def ret_def)
next
  case (Cons z zs)
  have x: "x = z" "z \<noteq> HEAD" using Cons.prems by auto
  have next_z: "dir (bufs s z) = hd (zs @ [HEAD])" using Cons.prems(2) by (cases zs) auto
  have "zs \<noteq> [] \<Longrightarrow> chain (\<lambda>b. dir (bufs s b)) (hd zs) (tl zs) HEAD" using Cons.prems(2) by (cases zs) auto
  from Cons.IH [OF next_z this] Cons.prems(3) have IH: "find_buf dir P (dir (bufs s z)) s = Ok (find (\<lambda>b. P (bufs s b)) zs) s" by simp
  show ?case
    unfolding find_buf_def
    by (subst loopM_unfold)
      (use x IH in \<open>auto simp: bind_def ret_def bget_field_def gets_def find_buf_def\<close>)
qed

lemma find_buf_ring:
  assumes "buf_ring (bufs s) xs"
  shows "find_buf b_next P (b_next (bufs s HEAD)) s = Ok (find (\<lambda>b. P (bufs s b)) xs) s"
    and "find_buf b_prev P (b_prev (bufs s HEAD)) s = Ok (find (\<lambda>b. P (bufs s b)) (rev xs)) s"
proof -
  have h: "HEAD \<notin> set xs" using assms by (auto simp: buf_ring_def)
  have c: "chain (\<lambda>b. b_next (bufs s b)) HEAD xs HEAD" "chain (\<lambda>b. b_prev (bufs s b)) HEAD (rev xs) HEAD"
    using assms by (auto simp: buf_ring_def linked_def)
  show "find_buf b_next P (b_next (bufs s HEAD)) s = Ok (find (\<lambda>b. P (bufs s b)) xs) s"
    by (rule find_buf_run) (use c(1) h in \<open>cases xs; auto\<close>)+
  show "find_buf b_prev P (b_prev (bufs s HEAD)) s = Ok (find (\<lambda>b. P (bufs s b)) (rev xs)) s"
    by (rule find_buf_run) (use c(2) h in \<open>cases "rev xs"; auto\<close>)+
qed

text \<open>What \<open>brelse\<close> does to the links of a buffer that nobody uses any more: it becomes the most recently used.\<close>

definition set_next :: "nat \<Rightarrow> nat \<Rightarrow> (nat \<Rightarrow> buf) \<Rightarrow> nat \<Rightarrow> buf" where
  "set_next b n B = B(b := (B b)\<lparr>b_next := n\<rparr>)"

definition set_prev :: "nat \<Rightarrow> nat \<Rightarrow> (nat \<Rightarrow> buf) \<Rightarrow> nat \<Rightarrow> buf" where
  "set_prev b n B = B(b := (B b)\<lparr>b_prev := n\<rparr>)"

definition unlinked :: "nat \<Rightarrow> (nat \<Rightarrow> buf) \<Rightarrow> nat \<Rightarrow> buf" where
  "unlinked b B = (let B = set_prev (b_next (B b)) (b_prev (B b)) B in set_next (b_prev (B b)) (b_next (B b)) B)"

definition fronted :: "nat \<Rightarrow> (nat \<Rightarrow> buf) \<Rightarrow> nat \<Rightarrow> buf" where
  "fronted b B =
     (let B = set_prev b HEAD (set_next b (b_next (B HEAD)) B); B = set_prev (b_next (B HEAD)) b B in set_next HEAD b B)"

definition moved :: "nat \<Rightarrow> (nat \<Rightarrow> buf) \<Rightarrow> nat \<Rightarrow> buf" where
  "moved b B = fronted b (unlinked b B)"

lemma set_link_simps:
  "b_next (set_next b n B c) = (if c = b then n else b_next (B c))" "b_prev (set_next b n B c) = b_prev (B c)"
  "b_prev (set_prev b n B c) = (if c = b then n else b_prev (B c))" "b_next (set_prev b n B c) = b_next (B c)"
  by (simp_all add: set_next_def set_prev_def)

lemma set_next_fields [simp]:
  "b_valid (set_next b n B c) = b_valid (B c)" "b_dev (set_next b n B c) = b_dev (B c)" "b_disk (set_next b n B c) = b_disk (B c)"
  "b_blockno (set_next b n B c) = b_blockno (B c)" "b_refcnt (set_next b n B c) = b_refcnt (B c)"
  "b_data (set_next b n B c) = b_data (B c)"
  by (simp_all add: set_next_def)

lemma set_prev_fields [simp]:
  "b_valid (set_prev b n B c) = b_valid (B c)" "b_dev (set_prev b n B c) = b_dev (B c)" "b_disk (set_prev b n B c) = b_disk (B c)"
  "b_blockno (set_prev b n B c) = b_blockno (B c)" "b_refcnt (set_prev b n B c) = b_refcnt (B c)"
  "b_data (set_prev b n B c) = b_data (B c)"
  by (simp_all add: set_prev_def)

lemma moved_fields [simp]:
  "b_valid (moved b B c) = b_valid (B c)" "b_dev (moved b B c) = b_dev (B c)" "b_disk (moved b B c) = b_disk (B c)"
  "b_blockno (moved b B c) = b_blockno (B c)" "b_refcnt (moved b B c) = b_refcnt (B c)" "b_data (moved b B c) = b_data (B c)"
  by (simp_all add: moved_def fronted_def unlinked_def Let_def)

lemma last_rev_hd: "last (y # rev zs) = hd (zs @ [y])"
  by (cases zs) simp_all

lemma moved_next:
  assumes "b \<noteq> HEAD" "b_next (B b) \<noteq> b"
  shows "(\<lambda>c. b_next (moved b B c)) = (let f = (\<lambda>c. b_next (B c))(b_prev (B b) := b_next (B b)) in f(b := f HEAD, HEAD := b))"
  using assms by (auto simp: moved_def fronted_def unlinked_def Let_def set_link_simps fun_eq_iff simp del: HEAD_def)

lemma moved_prev:
  assumes "b \<noteq> HEAD" "b_next (B b) \<noteq> b"
  shows "(\<lambda>c. b_prev (moved b B c)) =
    (let g = (\<lambda>c. b_prev (B c))(b_next (B b) := b_prev (B b)) in
     g(b := HEAD, ((\<lambda>c. b_next (B c))(b_prev (B b) := b_next (B b))) HEAD := b))"
  using assms by (auto simp: moved_def fronted_def unlinked_def Let_def set_link_simps fun_eq_iff simp del: HEAD_def)

lemma ring_moved:
  assumes "buf_ring B (us @ b # vs)"
  shows "buf_ring (moved b B) (b # us @ vs)"
proof -
  let ?f = "\<lambda>c. b_next (B c)" and ?g = "\<lambda>c. b_prev (B c)"
  have d: "distinct (HEAD # us @ b # vs)" using assms by (auto simp: buf_ring_def)
  have f: "chain ?f HEAD (us @ b # vs) HEAD" and g: "chain ?g HEAD (rev vs @ b # rev us) HEAD"
    using assms by (simp_all add: buf_ring_def linked_def del: HEAD_def)
  have fb: "?f b = hd (vs @ [HEAD])" and gb: "?g b = last (HEAD # us)"
    using f g chain_first [of ?f b vs HEAD] chain_first [of ?g b "rev us" HEAD]
    by (simp_all only: chain_append) (metis last_rev_hd rev_rev_ident)
  have b: "b \<noteq> HEAD" "?f b \<noteq> b" using d fb by (cases vs; auto simp del: HEAD_def)+
  let ?f2 = "?f(?g b := ?f b)" and ?g2 = "?g(?f b := ?g b)"
  have f2: "chain ?f2 HEAD (us @ vs) HEAD"
    using chain_delete [OF f d] gb by (simp only:)
  have g2: "chain ?g2 HEAD (rev vs @ rev us) HEAD"
    using chain_delete [OF g] d fb last_rev_hd [of HEAD vs] by (auto simp del: HEAD_def)
  have n: "?f2 HEAD = last (HEAD # rev vs @ rev us)"
    using chain_first [OF f2] last_rev_hd [of HEAD "us @ vs"] by (simp only: append_assoc rev_append)
  have "chain (?f2(b := ?f2 HEAD, HEAD := b)) HEAD (b # us @ vs) HEAD"
    by (rule chain_prepend [OF f2]) (use d in \<open>auto simp del: HEAD_def\<close>)
  moreover have "chain (?g2(b := HEAD, last (HEAD # rev vs @ rev us) := b)) HEAD ((rev vs @ rev us) @ [b]) HEAD"
    by (rule chain_extend [OF g2]) (use d in \<open>auto simp del: HEAD_def\<close>)
  ultimately show ?thesis
    using assms moved_next [of b B, OF b] moved_prev [of b B, OF b] n
    by (auto simp: buf_ring_def linked_def Let_def simp del: HEAD_def)
qed

section \<open>The cache as its clients see it\<close>

text \<open>The blocks of one disk: the contents a reader sees, how many users each block has, which blocks the current
  process has locked, what is on the disk, and the writes to the disk in order.\<close>

type_synonym data = "byte list"

record cache =
  c_val :: "uint \<Rightarrow> data"
  c_pins :: "uint \<Rightarrow> nat"
  c_held :: "uint set"
  c_disk :: "uint \<Rightarrow> data"
  c_log :: "(uint \<times> data) list"

definition cached :: "uint \<Rightarrow> (nat \<Rightarrow> buf) \<Rightarrow> nat \<Rightarrow> uint \<Rightarrow> bool" where
  "cached dev B b k \<longleftrightarrow> b < NBUF \<and> b_dev (B b) = dev \<and> b_blockno (B b) = k"

text \<open>At most one buffer per block; the count of users is the buffer's; a valid buffer holds the contents, and a block
  with no user is on the disk as it is seen.\<close>

definition cache_map :: "uint \<Rightarrow> (nat \<Rightarrow> buf) \<Rightarrow> cache \<Rightarrow> bool" where
  "cache_map dev B a \<longleftrightarrow>
     (\<forall>b c k. cached dev B b k \<longrightarrow> cached dev B c k \<longrightarrow> b = c)
   \<and> (\<forall>b k. cached dev B b k \<longrightarrow> c_pins a k = unat (b_refcnt (B b)))
   \<and> (\<forall>k. (\<forall>b. \<not> cached dev B b k) \<longrightarrow> c_pins a k = 0)
   \<and> (\<forall>b < NBUF. b_dev (B b) \<noteq> dev \<longrightarrow> b_refcnt (B b) = 0)
   \<and> (\<forall>b k. cached dev B b k \<longrightarrow> b_valid (B b) \<longrightarrow> c_val a k = b_data (B b))
   \<and> (\<forall>k. (\<forall>b. cached dev B b k \<longrightarrow> \<not> b_valid (B b)) \<longrightarrow> c_val a k = c_disk a k)
   \<and> (\<forall>k. c_pins a k = 0 \<longrightarrow> c_val a k = c_disk a k)
   \<and> (\<forall>k \<in> c_held a. \<exists>b. cached dev B b k \<and> b_valid (B b) \<and> b_refcnt (B b) \<noteq> 0)
   \<and> (\<forall>k. length (c_val a k) = BSIZE \<and> length (c_disk a k) = BSIZE)
   \<and> (\<forall>b < NBUF. \<not> b_disk (B b))"

definition cache_locks :: "uint \<Rightarrow> (nat \<Rightarrow> buf) \<Rightarrow> int \<Rightarrow> (sleeplk \<Rightarrow> sleeplock) \<Rightarrow> cache \<Rightarrow> bool" where
  "cache_locks dev B pid sl a \<longleftrightarrow> (\<forall>b < NBUF.
     (sl_locked (sl (BufSl b)) \<longleftrightarrow> b_dev (B b) = dev \<and> b_blockno (B b) \<in> c_held a)
   \<and> (sl_locked (sl (BufSl b)) \<longrightarrow> sl_pid (sl (BufSl b)) = pid))"

definition cache_disk :: "(nat \<Rightarrow> data) \<Rightarrow> (nat \<times> data) list \<Rightarrow> cache \<Rightarrow> bool" where
  "cache_disk D H a \<longleftrightarrow> (\<forall>k. D (unat k) = c_disk a k) \<and> H = map (\<lambda>(k, d). (unat k, d)) (c_log a)"

text \<open>The disk driver has no request under way.\<close>

definition vd_idle :: "disk \<Rightarrow> bool" where
  "vd_idle v \<longleftrightarrow> (\<forall>i < NUM. vd_free v i) \<and> vd_used_idx v = vd_avail_idx v \<and> vd_used_idx_dev v = vd_avail_idx v"

definition cache_rel :: "uint \<Rightarrow> 'z disk_state_scheme \<Rightarrow> cache \<Rightarrow> bool" where
  "cache_rel dev s a \<longleftrightarrow> quiet s \<and> (\<exists>xs. buf_ring (bufs s) xs) \<and> cache_map dev (bufs s) a
     \<and> cache_locks dev (bufs s) (curpid s) (sleeplocks s) a \<and> cache_disk (disk_data s) (disk_log s) a
     \<and> vd_idle (vd s)"

section \<open>Running under locks\<close>

lemma bufs_hart [simp]:
  "mycpu (s\<lparr>bufs := x\<rparr>) = mycpu s" "lock_idle lk (s\<lparr>bufs := x\<rparr>) = lock_idle lk s"
  "intr_ok (s\<lparr>bufs := x\<rparr>) = intr_ok s" "curpid (s\<lparr>bufs := x\<rparr>) = curpid s" "quiet (s\<lparr>bufs := x\<rparr>) = quiet s"
  by (simp_all add: mycpu_def lock_idle_def intr_ok_def intr_get_def curpid_def quiet_def)

lemma disk_fields [simp]:
  "bufs (settled s) = bufs s" "disk_data (settled s) = disk_data s" "disk_log (settled s) = disk_log s"
  "bufs (with_locks L s) = bufs s" "vd (settled s) = vd s"
  by (simp_all add: settled_def with_locks_def)

lemma quiet_settled [simp]: "quiet (settled s) = quiet s" "curpid (settled s) = curpid s"
  by (simp_all add: quiet_def curpid_def)

lemma with_locks_bufs: "(with_locks L s)\<lparr>bufs := x\<rparr> = with_locks L (s\<lparr>bufs := x\<rparr>)"
  by (rule disk_state.equality) (simp_all add: with_locks_def mycpu_def intr_get_def fun_eq_iff)

lemma settled_bufs: "(settled s)\<lparr>bufs := x\<rparr> = settled (s\<lparr>bufs := x\<rparr>)"
  by (rule disk_state.equality) (simp_all add: settled_def mycpu_def intr_get_def fun_eq_iff)

lemma settled_sleeplocks: "(settled s)\<lparr>sleeplocks := x\<rparr> = settled (s\<lparr>sleeplocks := x\<rparr>)"
  by (rule slp_state.equality) (simp_all add: settled_def mycpu_def intr_get_def fun_eq_iff)

lemma wp_bset: "wp (bset b f) Q = (\<lambda>s. Q () (s\<lparr>bufs := (bufs s)(b := f (bufs s b))\<rparr>))"
  by (simp add: bset_def wp_modify)

lemma wp_bget_field: "wp (bget_field b f) Q = (\<lambda>s. Q (f (bufs s b)) s)"
  by (simp add: bget_field_def wp_gets)

lemma cache_rel_settled [simp]: "cache_rel dev (settled s) a = cache_rel dev s a"
  by (simp add: cache_rel_def)

lemma wp_find_buf_ring:
  assumes "buf_ring (bufs s) xs"
  shows "wp (find_buf b_next P (b_next (bufs s HEAD))) Q s = Q (find (\<lambda>b. P (bufs s b)) xs) s"
    and "wp (find_buf b_prev P (b_prev (bufs s HEAD))) Q s = Q (find (\<lambda>b. P (bufs s b)) (rev xs)) s"
  using find_buf_ring [OF assms, of P] by (simp_all only: wp_Ok)

section \<open>Getting a buffer\<close>

lemma wp_bget:
  assumes q: "quiet s" and r: "buf_ring (bufs s) xs"
    and hit: "\<And>b. find (\<lambda>b. b_dev (bufs s b) = dev \<and> b_blockno (bufs s b) = k) xs = Some b \<Longrightarrow>
      \<not> sl_locked (sleeplocks s (BufSl b)) \<and>
      Q b (settled (s\<lparr>bufs := (bufs s)(b := (bufs s b)\<lparr>b_refcnt := b_refcnt (bufs s b) + 1\<rparr>), sleeplocks := sl_taken (BufSl b) s\<rparr>))"
    and miss: "find (\<lambda>b. b_dev (bufs s b) = dev \<and> b_blockno (bufs s b) = k) xs = None \<Longrightarrow>
      \<exists>b. find (\<lambda>b. b_refcnt (bufs s b) = 0) (rev xs) = Some b \<and> \<not> sl_locked (sleeplocks s (BufSl b)) \<and>
      Q b (settled (s\<lparr>bufs := (bufs s)(b := (bufs s b)\<lparr>b_dev := dev, b_blockno := k, b_valid := False, b_refcnt := 1\<rparr>),
        sleeplocks := sl_taken (BufSl b) s\<rparr>))"
  shows "wp (bget E dev k) Q s"
proof -
  let ?t = "with_locks {BcacheLock} s"
  have r': "buf_ring (bufs ?t) xs" using r by simp
  have ff: "wp (find_buf b_next P (b_next (bufs s HEAD))) R ?t = R (find (\<lambda>b. P (bufs s b)) xs) ?t"
    "wp (find_buf b_prev P (b_prev (bufs s HEAD))) R ?t = R (find (\<lambda>b. P (bufs s b)) (rev xs)) ?t" for P R
    using wp_find_buf_ring [OF r'] by (simp_all del: HEAD_def)
  have lk: "sl_taken lk (settled t) = sl_taken lk t" "sl_taken lk (t\<lparr>bufs := x\<rparr>) = sl_taken lk t" for lk x and t :: "'a disk_state_scheme"
    by (simp_all add: sl_taken_def)
  show ?thesis
  proof (cases "find (\<lambda>b. b_dev (bufs s b) = dev \<and> b_blockno (bufs s b) = k) xs")
    case None
    from miss [OF None] obtain b where b: "find (\<lambda>b. b_refcnt (bufs s b) = 0) (rev xs) = Some b" "\<not> sl_locked (sleeplocks s (BufSl b))"
      "Q b (settled (s\<lparr>bufs := (bufs s)(b := (bufs s b)\<lparr>b_dev := dev, b_blockno := k, b_valid := False, b_refcnt := 1\<rparr>),
        sleeplocks := sl_taken (BufSl b) s\<rparr>))" by blast
    show ?thesis
      using None b q
      by (simp add: bget_def wp_seq wp_bind wp_ret wp_acquire_quiet wp_bget_field wp_bset ff with_locks_bufs wp_release_quiet
          settled_sleeplocks acquiresleep_wp lk del: HEAD_def)
  next
    case (Some b)
    show ?thesis
      using Some hit [OF Some] q
      by (simp add: bget_def wp_seq wp_bind wp_ret wp_acquire_quiet wp_bget_field wp_bset ff with_locks_bufs wp_release_quiet
          settled_sleeplocks acquiresleep_wp lk del: HEAD_def)
  qed
qed

section \<open>Abstract operations\<close>

definition c_read :: "uint \<Rightarrow> cache \<Rightarrow> cache" where
  "c_read k a = a\<lparr>c_pins := (c_pins a)(k := Suc (c_pins a k)), c_held := insert k (c_held a)\<rparr>"

definition c_set :: "uint \<Rightarrow> data \<Rightarrow> cache \<Rightarrow> cache" where
  "c_set k d a = a\<lparr>c_val := (c_val a)(k := d)\<rparr>"

definition c_write :: "uint \<Rightarrow> cache \<Rightarrow> cache" where
  "c_write k a = a\<lparr>c_disk := (c_disk a)(k := c_val a k), c_log := c_log a @ [(k, c_val a k)]\<rparr>"

definition c_release :: "uint \<Rightarrow> cache \<Rightarrow> cache" where
  "c_release k a = a\<lparr>c_pins := (c_pins a)(k := c_pins a k - 1), c_held := c_held a - {k}\<rparr>"

definition c_pin :: "uint \<Rightarrow> cache \<Rightarrow> cache" where
  "c_pin k a = a\<lparr>c_pins := (c_pins a)(k := Suc (c_pins a k))\<rparr>"

definition c_unpin :: "uint \<Rightarrow> cache \<Rightarrow> cache" where
  "c_unpin k a = a\<lparr>c_pins := (c_pins a)(k := c_pins a k - 1)\<rparr>"

lemma cache_mapD:
  assumes "cache_map dev B a"
  shows "cached dev B b k \<Longrightarrow> cached dev B c k \<Longrightarrow> b = c"
    and "cached dev B b k \<Longrightarrow> c_pins a k = unat (b_refcnt (B b))"
    and "(\<And>b. \<not> cached dev B b k) \<Longrightarrow> c_pins a k = 0"
    and "b < NBUF \<Longrightarrow> b_dev (B b) \<noteq> dev \<Longrightarrow> b_refcnt (B b) = 0"
    and "cached dev B b k \<Longrightarrow> b_valid (B b) \<Longrightarrow> c_val a k = b_data (B b)"
    and "(\<And>b. cached dev B b k \<Longrightarrow> \<not> b_valid (B b)) \<Longrightarrow> c_val a k = c_disk a k"
    and "c_pins a k = 0 \<Longrightarrow> c_val a k = c_disk a k"
    and "k \<in> c_held a \<Longrightarrow> \<exists>b. cached dev B b k \<and> b_valid (B b) \<and> b_refcnt (B b) \<noteq> 0"
    and "length (c_val a k) = BSIZE" "length (c_disk a k) = BSIZE"
    and "b < NBUF \<Longrightarrow> \<not> b_disk (B b)"
  using assms by (simp_all add: cache_map_def)

lemma cached_upd:
  "b < NBUF \<Longrightarrow> b_dev y = dev \<Longrightarrow> b_blockno y = k \<Longrightarrow>
    cached dev (B(b := y)) c k' \<longleftrightarrow> (if c = b then k' = k else cached dev B c k')"
  by (auto simp: cached_def)

lemma cached_b: "cached dev B b k \<Longrightarrow> b < NBUF"
  by (simp add: cached_def)

text \<open>Buffer \<open>b\<close> becomes the buffer of block \<open>k\<close>, which it may have been before.\<close>

lemma cache_map_upd:
  assumes m: "cache_map dev B a" and b: "b < NBUF" and only: "\<And>c. cached dev B c k \<Longrightarrow> c = b"
    and evict: "\<And>k'. cached dev B b k' \<Longrightarrow> k' \<noteq> k \<Longrightarrow> c_pins a k' = 0"
    and y: "b_dev y = dev" "b_blockno y = k" "\<not> b_disk y" "c_pins a' k = unat (b_refcnt y)" "b_valid y" "b_data y = c_val a' k"
    and a': "\<And>k'. k' \<noteq> k \<Longrightarrow> c_pins a' k' = c_pins a k' \<and> c_val a' k' = c_val a k' \<and> c_disk a' k' = c_disk a k'"
    and len: "length (c_val a' k) = BSIZE" "length (c_disk a' k) = BSIZE"
    and clean: "c_pins a' k = 0 \<Longrightarrow> c_val a' k = c_disk a' k"
    and held: "\<And>k'. k' \<noteq> k \<Longrightarrow> k' \<in> c_held a' \<Longrightarrow> k' \<in> c_held a" "k \<in> c_held a' \<Longrightarrow> b_refcnt y \<noteq> 0"
  shows "cache_map dev (B(b := y)) a'"
proof -
  note D = cache_mapD [OF m]
  have cu: "cached dev (B(b := y)) c k' \<longleftrightarrow> (if c = b then k' = k else cached dev B c k')" for c k'
    by (rule cached_upd [OF b y(1,2)])
  have split: "c = b \<and> k' = k \<or> c \<noteq> b \<and> k' \<noteq> k \<and> cached dev B c k'" if "cached dev (B(b := y)) c k'" for c k'
    using that only unfolding cu by metis
  show ?thesis unfolding cache_map_def
  proof (intro conjI allI ballI impI)
    fix c1 c2 k' assume "cached dev (B(b := y)) c1 k'" "cached dev (B(b := y)) c2 k'"
    then show "c1 = c2" unfolding cu using D(1) [of c1 k' c2] only by metis
  next
    fix c k' assume c: "cached dev (B(b := y)) c k'"
    show "c_pins a' k' = unat (b_refcnt ((B(b := y)) c))"
      using split [OF c] by (rule disjE) (use y(4) a' D(2) in auto)
  next
    fix k' assume n: "\<forall>c. \<not> cached dev (B(b := y)) c k'"
    then have k: "k' \<noteq> k" using spec [OF n, of b] by (auto simp: cu)
    moreover have "c_pins a k' = 0"
    proof (cases "cached dev B b k'")
      case True then show ?thesis using evict k by auto
    next
      case False then show ?thesis using n D(3) [of k'] by (auto simp: cu split: if_splits)
    qed
    ultimately show "c_pins a' k' = 0" using a' by auto
  next
    fix c assume "c < NBUF" "b_dev ((B(b := y)) c) \<noteq> dev"
    then show "b_refcnt ((B(b := y)) c) = 0" using D(4) y by (auto split: if_splits)
  next
    fix c k' assume c: "cached dev (B(b := y)) c k'" "b_valid ((B(b := y)) c)"
    show "c_val a' k' = b_data ((B(b := y)) c)"
      using split [OF c(1)] by (rule disjE) (use c(2) y(6) a' D(5) in auto)
  next
    fix k' assume n: "\<forall>c. cached dev (B(b := y)) c k' \<longrightarrow> \<not> b_valid ((B(b := y)) c)"
    then have k: "k' \<noteq> k" using y(5) spec [OF n, of b] by (auto simp: cu)
    moreover have "c_val a k' = c_disk a k'"
    proof (cases "cached dev B b k'")
      case True then show ?thesis using evict k D(7) by auto
    next
      case False
      have "\<not> b_valid (B c)" if "cached dev B c k'" for c
        using spec [OF n, of c] that False by (cases "c = b") (auto simp: cu)
      then show ?thesis using D(6) by blast
    qed
    ultimately show "c_val a' k' = c_disk a' k'" using a' by auto
  next
    fix k' assume "c_pins a' k' = 0"
    then show "c_val a' k' = c_disk a' k'" using a' [of k'] clean D(7) [of k'] by (cases "k' = k") auto
  next
    fix k' assume h: "k' \<in> c_held a'"
    show "\<exists>c. cached dev (B(b := y)) c k' \<and> b_valid ((B(b := y)) c) \<and> b_refcnt ((B(b := y)) c) \<noteq> 0"
    proof (cases "k' = k")
      case True then show ?thesis using held(2) h y(5) by (intro exI [of _ b]) (auto simp: cu)
    next
      case False
      then obtain c where c: "cached dev B c k'" "b_valid (B c)" "b_refcnt (B c) \<noteq> 0" using held(1) h D(8) by blast
      have "c \<noteq> b" using evict [of k'] False D(2) [OF c(1)] c by (auto simp: unat_eq_0)
      then show ?thesis using c by (intro exI [of _ c]) (auto simp: cu)
    qed
  next
    fix k' show "length (c_val a' k') = BSIZE" "length (c_disk a' k') = BSIZE"
      using a' [of k'] len D(9,10) [of k'] by (cases "k' = k"; auto)+
  next
    fix c assume "c < NBUF" then show "\<not> b_disk ((B(b := y)) c)" using D(11) y by auto
  qed
qed

lemma cache_locks_upd:
  assumes l: "cache_locks dev B pid sl a" and b: "b < NBUF" and y: "b_dev y = dev" "b_blockno y = k"
    and lk: "sl_locked (sl' (BufSl b)) \<longleftrightarrow> k \<in> c_held a'" "sl_locked (sl' (BufSl b)) \<Longrightarrow> sl_pid (sl' (BufSl b)) = pid"
    and same: "\<And>c. c \<noteq> b \<Longrightarrow> sl' (BufSl c) = sl (BufSl c)"
    and held: "\<And>k'. k' \<noteq> k \<Longrightarrow> k' \<in> c_held a' \<longleftrightarrow> k' \<in> c_held a" and only: "\<And>c. cached dev B c k \<Longrightarrow> c = b"
  shows "cache_locks dev (B(b := y)) pid sl' a'"
  unfolding cache_locks_def
proof (intro allI impI)
  fix c assume c: "c < NBUF"
  show "(sl_locked (sl' (BufSl c)) \<longleftrightarrow> b_dev ((B(b := y)) c) = dev \<and> b_blockno ((B(b := y)) c) \<in> c_held a')
     \<and> (sl_locked (sl' (BufSl c)) \<longrightarrow> sl_pid (sl' (BufSl c)) = pid)"
  proof (cases "c = b")
    case False
    then have "b_dev (B c) = dev \<Longrightarrow> b_blockno (B c) \<noteq> k" using only [of c] c by (auto simp: cached_def)
    then show ?thesis using False same [of c] l c held by (auto simp: cache_locks_def)
  qed (use lk y in auto)
qed

section \<open>What an operation may disturb\<close>

definition sans_drv :: "'z disk_state_scheme \<Rightarrow> 'z disk_state_scheme" where
  "sans_drv s = (sans_procs s)\<lparr>vd := undefined, vreg_log := []\<rparr>"

definition drv_near :: "'z disk_state_scheme \<Rightarrow> 'z disk_state_scheme \<Rightarrow> bool" where
  "drv_near s t \<longleftrightarrow> sans_drv s = sans_drv t \<and> (\<forall>p. p_pid (procs t p) = p_pid (procs s p)) \<and> (vd_idle (vd s) \<longrightarrow> vd_idle (vd t))"

definition sans_bio :: "'z disk_state_scheme \<Rightarrow> 'z disk_state_scheme" where
  "sans_bio s = (sans_drv s)\<lparr>sleeplocks := (\<lambda>_. undefined), bufs := (\<lambda>_. undefined), disk_data := (\<lambda>_. []), disk_log := []\<rparr>"

definition bio_near :: "'z disk_state_scheme \<Rightarrow> 'z disk_state_scheme \<Rightarrow> bool" where
  "bio_near s t \<longleftrightarrow> sans_bio s = sans_bio t \<and> (\<forall>p. p_pid (procs t p) = p_pid (procs s p))"

lemma bio_near_refl [simp]: "bio_near s s"
  by (simp add: bio_near_def)

lemma bio_near_trans: "bio_near s t \<Longrightarrow> bio_near t u \<Longrightarrow> bio_near s u"
  by (simp add: bio_near_def)

lemma drv_near_trans: "drv_near s t \<Longrightarrow> drv_near t u \<Longrightarrow> drv_near s u"
  by (simp add: drv_near_def)

lemma near_drv_near: "near s t \<Longrightarrow> drv_near s t"
proof -
  assume n: "near s t"
  then have eq: "sans_procs s = sans_procs t" by (simp add: near_def)
  have "vd s = vd t" using arg_cong [OF eq, of vd] by (simp add: sans_procs_def)
  with n show "drv_near s t" by (simp add: near_def drv_near_def sans_drv_def)
qed

lemma drv_near_bio_near: "drv_near s t \<Longrightarrow> bio_near s t"
  by (simp add: drv_near_def bio_near_def sans_bio_def)

lemma settled_disk:
  "settled (s\<lparr>bufs := x\<rparr>) = (settled s)\<lparr>bufs := x\<rparr>" "settled (s\<lparr>sleeplocks := l\<rparr>) = (settled s)\<lparr>sleeplocks := l\<rparr>"
  "settled (s\<lparr>disk_data := d\<rparr>) = (settled s)\<lparr>disk_data := d\<rparr>" "settled (s\<lparr>disk_log := h\<rparr>) = (settled s)\<lparr>disk_log := h\<rparr>"
  by (simp_all add: settled_def mycpu_def intr_get_def)

lemma bio_near_upd [simp]:
  "bio_near s (t\<lparr>bufs := x\<rparr>) = bio_near s t" "bio_near s (t\<lparr>sleeplocks := l\<rparr>) = bio_near s t"
  "bio_near s (t\<lparr>disk_data := d\<rparr>) = bio_near s t" "bio_near s (t\<lparr>disk_log := h\<rparr>) = bio_near s t"
  "bio_near (s\<lparr>bufs := x\<rparr>) t = bio_near s t" "bio_near (s\<lparr>sleeplocks := l\<rparr>) t = bio_near s t"
  "bio_near (s\<lparr>disk_data := d\<rparr>) t = bio_near s t" "bio_near (s\<lparr>disk_log := h\<rparr>) t = bio_near s t"
  by (simp_all add: bio_near_def sans_bio_def sans_drv_def sans_procs_def settled_disk)

lemma bio_near_settled [simp]: "bio_near s (settled t) = bio_near s t" "bio_near (settled s) t = bio_near s t"
  by (simp_all add: bio_near_def sans_bio_def sans_drv_def sans_procs_def)

lemma sans_drv_upd:
  "sans_drv (s\<lparr>bufs := x\<rparr>) = (sans_drv s)\<lparr>bufs := x\<rparr>" "sans_drv (s\<lparr>sleeplocks := l\<rparr>) = (sans_drv s)\<lparr>sleeplocks := l\<rparr>"
  by (rule disk_state.equality; simp add: sans_drv_def sans_procs_def settled_disk)+

lemma drv_near_upd:
  assumes "drv_near s t"
  shows "drv_near (s\<lparr>bufs := x\<rparr>) (t\<lparr>bufs := x\<rparr>)" "drv_near (s\<lparr>sleeplocks := l\<rparr>) (t\<lparr>sleeplocks := l\<rparr>)"
  using assms by (simp_all add: drv_near_def sans_drv_upd)

lemma sans_drv_hart:
  "lock_idle lk (sans_drv s) = lock_idle lk s" "intr_ok (sans_drv s) = intr_ok s"
  "cpu_proc (mycpu (sans_drv s)) = cpu_proc (mycpu s)" "noff (mycpu (sans_drv s)) = noff (mycpu s)"
proof -
  have "lock_idle lk (u\<lparr>vd := v, vreg_log := r\<rparr>) = lock_idle lk u" "intr_ok (u\<lparr>vd := v, vreg_log := r\<rparr>) = intr_ok u"
    "mycpu (u\<lparr>vd := v, vreg_log := r\<rparr>) = mycpu u" for u :: "'a disk_state_scheme" and v r
    by (simp_all add: lock_idle_def intr_ok_def mycpu_def intr_get_def)
  then show "lock_idle lk (sans_drv s) = lock_idle lk s" "intr_ok (sans_drv s) = intr_ok s"
    "cpu_proc (mycpu (sans_drv s)) = cpu_proc (mycpu s)" "noff (mycpu (sans_drv s)) = noff (mycpu s)"
    by (simp_all add: sans_drv_def sans_procs_hart)
qed

lemma drv_near_facts:
  assumes "drv_near s t"
  shows "quiet t = quiet s" "curpid t = curpid s" "bufs t = bufs s" "sleeplocks t = sleeplocks s"
    "disk_data t = disk_data s" "disk_log t = disk_log s"
proof -
  have eq: "sans_drv s = sans_drv t" using assms by (simp add: drv_near_def)
  have c: "cpu_proc (mycpu t) = cpu_proc (mycpu s)"
    using arg_cong [OF eq, of "\<lambda>s. cpu_proc (mycpu s)"] by (simp add: sans_drv_hart)
  show "quiet t = quiet s"
    using arg_cong [OF eq, of "\<lambda>s. lock_idle lk s" for lk] arg_cong [OF eq, of intr_ok]
      arg_cong [OF eq, of "\<lambda>s. noff (mycpu s)"] c
    by (simp add: quiet_def sans_drv_hart)
  show "curpid t = curpid s" using assms c by (simp add: curpid_def drv_near_def)
  show "bufs t = bufs s" "sleeplocks t = sleeplocks s" "disk_data t = disk_data s" "disk_log t = disk_log s"
    using arg_cong [OF eq, of bufs] arg_cong [OF eq, of sleeplocks] arg_cong [OF eq, of disk_data] arg_cong [OF eq, of disk_log]
    by (simp_all add: sans_drv_def sans_procs_def)
qed

lemma cache_rel_near: "drv_near s t \<Longrightarrow> cache_rel dev s a \<Longrightarrow> cache_rel dev t a"
  by (simp add: cache_rel_def drv_near_facts) (simp add: drv_near_def)

section \<open>The contract of the disk driver\<close>

text \<open>A read fetches the block from the disk into the buffer, a write puts the buffer's data on the disk; nothing else
  that the kernel above the driver can see changes meanwhile. Block numbers are such that the sector number does not
  overflow.\<close>

locale block_driver =
  fixes E :: "('z disk_state_scheme) kenv"
  assumes rw_read: "quiet s \<Longrightarrow> vd_idle (vd s) \<Longrightarrow> b < NBUF \<Longrightarrow> \<not> b_disk (bufs s b) \<Longrightarrow> b_blockno (bufs s b) < 0x80000000 \<Longrightarrow>
      wp (e_rw E b False) (\<lambda>_. drv_near (s\<lparr>bufs := (bufs s)(b := (bufs s b)\<lparr>b_data := disk_data s (unat (b_blockno (bufs s b)))\<rparr>)\<rparr>)) s"
    and rw_write: "quiet s \<Longrightarrow> vd_idle (vd s) \<Longrightarrow> b < NBUF \<Longrightarrow> \<not> b_disk (bufs s b) \<Longrightarrow> b_blockno (bufs s b) < 0x80000000 \<Longrightarrow>
      wp (e_rw E b True) (\<lambda>_. drv_near (s\<lparr>disk_data := (disk_data s)(unat (b_blockno (bufs s b)) := b_data (bufs s b)),
        disk_log := disk_log s @ [(unat (b_blockno (bufs s b)), b_data (bufs s b))]\<rparr>)) s"

section \<open>Reading\<close>

lemma ring_links:
  assumes "buf_ring B xs" "b_next y = b_next (B b)" "b_prev y = b_prev (B b)"
  shows "buf_ring (B(b := y)) xs"
proof -
  have "linked (B(b := y)) xs = linked B xs" by (rule linked_cong) (use assms in auto)
  then show ?thesis using assms(1) by (simp add: buf_ring_def)
qed

text \<open>Buffer \<open>b\<close> can become the buffer of block \<open>k\<close>: it is, or nobody uses it.\<close>

definition fits :: "uint \<Rightarrow> uint \<Rightarrow> 'z disk_state_scheme \<Rightarrow> cache \<Rightarrow> nat \<Rightarrow> bool" where
  "fits dev k s a b \<longleftrightarrow> b < NBUF \<and> (\<forall>c. cached dev (bufs s) c k \<longrightarrow> c = b)
     \<and> (\<forall>k'. cached dev (bufs s) b k' \<longrightarrow> k' \<noteq> k \<longrightarrow> c_pins a k' = 0)"

lemma cache_rel_read:
  assumes rel: "cache_rel dev s a" and fit: "fits dev k s a b"
    and y: "b_dev y = dev" "b_blockno y = k" "\<not> b_disk y" "unat (b_refcnt y) = Suc (c_pins a k)" "b_valid y" "b_data y = c_val a k"
      "b_next y = b_next (bufs s b)" "b_prev y = b_prev (bufs s b)"
  shows "cache_rel dev (s\<lparr>bufs := (bufs s)(b := y), sleeplocks := sl_taken (BufSl b) s\<rparr>) (c_read k a)"
proof -
  obtain xs where r: "buf_ring (bufs s) xs" using rel by (auto simp: cache_rel_def)
  have m: "cache_map dev (bufs s) a" and l: "cache_locks dev (bufs s) (curpid s) (sleeplocks s) a"
    using rel by (simp_all add: cache_rel_def)
  have b: "b < NBUF" and only: "\<And>c. cached dev (bufs s) c k \<Longrightarrow> c = b"
    and evict: "\<And>k'. cached dev (bufs s) b k' \<Longrightarrow> k' \<noteq> k \<Longrightarrow> c_pins a k' = 0"
    using fit by (simp_all add: fits_def)
  have "cache_map dev ((bufs s)(b := y)) (c_read k a)"
  proof (rule cache_map_upd [OF m b only evict])
    show "b_refcnt y \<noteq> 0" if "k \<in> c_held (c_read k a)" using y(4) by auto
  qed (use y cache_mapD(9,10) [OF m] in \<open>auto simp: c_read_def\<close>)
  moreover have "cache_locks dev ((bufs s)(b := y)) (curpid s) (sl_taken (BufSl b) s) (c_read k a)"
    by (rule cache_locks_upd [OF l b y(1,2) _ _ _ _ only]) (auto simp: sl_taken_def c_read_def)
  ultimately show ?thesis
    using rel ring_links [OF r y(7,8)] by (auto simp: cache_rel_def cache_disk_def c_read_def)
qed

lemma cache_relD:
  assumes "cache_rel dev s a"
  shows "quiet s" "cache_map dev (bufs s) a" "cache_locks dev (bufs s) (curpid s) (sleeplocks s) a"
    "cache_disk (disk_data s) (disk_log s) a"
  using assms by (simp_all add: cache_rel_def)

lemma find_ring:
  assumes "buf_ring B xs"
  shows "find P xs = Some b \<Longrightarrow> b < NBUF \<and> P b" "find P xs = None \<Longrightarrow> b < NBUF \<Longrightarrow> \<not> P b"
    "find P (rev xs) = Some b \<Longrightarrow> b < NBUF \<and> P b" "find P (rev xs) = None \<Longrightarrow> b < NBUF \<Longrightarrow> \<not> P b"
proof -
  have set_xs: "set xs = {..<NBUF}" using assms by (simp add: buf_ring_def del: NBUF_def)
  have "\<exists>i < length ys. P (ys ! i) \<and> b = ys ! i" if "find P ys = Some b" for ys
    using that by (auto simp: find_Some_iff)
  then have s: "b \<in> set ys \<and> P b" if "find P ys = Some b" for ys using that by fastforce
  show "find P xs = Some b \<Longrightarrow> b < NBUF \<and> P b" "find P (rev xs) = Some b \<Longrightarrow> b < NBUF \<and> P b"
    using s [of xs] s [of "rev xs"] set_xs by (auto simp del: NBUF_def)
  show "find P xs = None \<Longrightarrow> b < NBUF \<Longrightarrow> \<not> P b" "find P (rev xs) = None \<Longrightarrow> b < NBUF \<Longrightarrow> \<not> P b"
    using set_xs by (auto simp: find_None_iff simp del: NBUF_def)
qed

text \<open>While fewer blocks than buffers are in use, some buffer is free.\<close>

lemma some_buffer_free:
  assumes m: "cache_map dev B a" and few: "card {k. c_pins a k \<noteq> 0} < NBUF"
  shows "\<exists>b < NBUF. b_refcnt (B b) = 0"
proof (rule ccontr)
  assume "\<not> ?thesis"
  then have all: "b < NBUF \<Longrightarrow> b_refcnt (B b) \<noteq> 0" for b by auto
  then have c: "b < NBUF \<Longrightarrow> cached dev B b (b_blockno (B b))" for b
    using cache_mapD(4) [OF m] by (auto simp: cached_def simp del: NBUF_def)
  have inj: "inj_on (\<lambda>b. b_blockno (B b)) {..<NBUF}"
    using c cache_mapD(1) [OF m] by (metis (no_types, lifting) inj_onI lessThan_iff)
  have sub: "(\<lambda>b. b_blockno (B b)) ` {..<NBUF} = {k. c_pins a k \<noteq> 0}"
  proof (intro set_eqI iffI)
    fix k assume "k \<in> (\<lambda>b. b_blockno (B b)) ` {..<NBUF}"
    then obtain b where b: "b < NBUF" "k = b_blockno (B b)" by auto
    with cache_mapD(2) [OF m c [OF b(1)]] all [OF b(1)] show "k \<in> {k. c_pins a k \<noteq> 0}" by (simp add: unat_gt_0)
  next
    fix k assume "k \<in> {k. c_pins a k \<noteq> 0}"
    then obtain b where "cached dev B b k" using cache_mapD(3) [OF m, of k] by auto
    then show "k \<in> (\<lambda>b. b_blockno (B b)) ` {..<NBUF}" by (auto simp: cached_def simp del: NBUF_def)
  qed
  from card_image [OF inj] have "card {k. c_pins a k \<noteq> 0} = NBUF" unfolding sub by (simp del: NBUF_def)
  with few show False by simp
qed

text \<open>A block the process may lock without waiting, while there is a buffer for it.\<close>

definition readable :: "uint \<Rightarrow> cache \<Rightarrow> bool" where
  "readable k a \<longleftrightarrow> k \<notin> c_held a \<and> k < 0x80000000 \<and> c_pins a k < 1000
     \<and> (c_pins a k \<noteq> 0 \<or> card {k. c_pins a k \<noteq> 0} < NBUF)"

lemma unat_Suc32: "unat (w :: uint) < 1000 \<Longrightarrow> unat (w + 1) = Suc (unat w)"
  by (simp add: unat_word_ariths)

text \<open>The buffers of locked blocks stay theirs.\<close>

definition steady :: "uint \<Rightarrow> cache \<Rightarrow> 'z disk_state_scheme \<Rightarrow> 'z disk_state_scheme \<Rightarrow> bool" where
  "steady dev a s t \<longleftrightarrow> bio_near s t \<and> (\<forall>b k. k \<in> c_held a \<longrightarrow> cached dev (bufs s) b k \<longrightarrow> cached dev (bufs t) b k)"

lemma steady_fits:
  assumes "cache_map dev (bufs s) a" "fits dev k s a b" "bufs t = (bufs s)(b := z)" "b_dev z = dev" "b_blockno z = k" "bio_near s t"
  shows "steady dev a s t"
  unfolding steady_def
proof (intro conjI allI impI)
  fix c k' assume h: "k' \<in> c_held a" "cached dev (bufs s) c k'"
  show "cached dev (bufs t) c k'"
  proof (cases "c = b")
    case True
    have "c_pins a k' \<noteq> 0"
      using cache_mapD(8) [OF assms(1) h(1)] cache_mapD(2) [OF assms(1)] by (metis unat_eq_0)
    then have "k' = k" using assms(2) h(2) True by (auto simp: fits_def)
    then show ?thesis using True assms h(2) by (simp add: cached_def)
  qed (use h assms in \<open>simp add: cached_def\<close>)
qed (rule assms)

context block_driver
begin

lemma fill_wp:
  assumes rel: "cache_rel dev s a" and fit: "fits dev k s a b" and k: "k < 0x80000000"
    and x: "b_dev x = dev" "b_blockno x = k" "\<not> b_disk x" "unat (b_refcnt x) = Suc (c_pins a k)"
      "b_valid x \<Longrightarrow> b_data x = c_val a k" "\<not> b_valid x \<Longrightarrow> c_val a k = c_disk a k"
      "b_next x = b_next (bufs s b)" "b_prev x = b_prev (bufs s b)"
    and t: "t = settled (s\<lparr>bufs := (bufs s)(b := x), sleeplocks := sl_taken (BufSl b) s\<rparr>)"
  shows "wp (seq (bind (bget_field b b_valid) (\<lambda>v. whenM (\<not> v) (seq (e_rw E b False) (bset b (\<lambda>x. x\<lparr>b_valid := True\<rparr>)))))
      (ret b)) (\<lambda>b' u. b' = b \<and> cached dev (bufs u) b k \<and> cache_rel dev u (c_read k a) \<and> steady dev a s u) t"
proof (cases "b_valid x")
  case True
  have "cache_rel dev t (c_read k a)"
    unfolding t cache_rel_settled by (rule cache_rel_read [OF rel fit]) (use x True in auto)
  moreover have "steady dev a s t"
    by (rule steady_fits [OF cache_relD(2) [OF rel] fit, of _ x]) (use x in \<open>simp_all add: t\<close>)
  ultimately show ?thesis
    using True fit x(1,2) by (simp add: t wp_seq wp_bind wp_bget_field wp_whenM wp_ret cached_def fits_def)
next
  case False
  let ?y = "x\<lparr>b_data := c_disk a k\<rparr>"
  have q: "quiet t" "vd_idle (vd t)" "b < NBUF" using rel fit by (simp_all add: t cache_rel_def fits_def)
  have d: "disk_data t (unat k) = c_disk a k" using cache_relD(4) [OF rel] by (simp add: t cache_disk_def)
  have xt: "bufs t b = x" by (simp add: t)
  have tt: "t\<lparr>bufs := z\<rparr> = settled (s\<lparr>bufs := z, sleeplocks := sl_taken (BufSl b) s\<rparr>)" for z
    by (rule disk_state.equality) (simp_all add: t settled_disk)
  have "wp (e_rw E b False) (\<lambda>_. drv_near (t\<lparr>bufs := (bufs t)(b := ?y)\<rparr>)) t"
    using rw_read [OF q, unfolded xt] x(2,3) k d by simp
  then have "wp (e_rw E b False) (\<lambda>_ u. cached dev (bufs (u\<lparr>bufs := (bufs u)(b := (bufs u b)\<lparr>b_valid := True\<rparr>)\<rparr>)) b k
      \<and> cache_rel dev (u\<lparr>bufs := (bufs u)(b := (bufs u b)\<lparr>b_valid := True\<rparr>)\<rparr>) (c_read k a)
      \<and> steady dev a s (u\<lparr>bufs := (bufs u)(b := (bufs u b)\<lparr>b_valid := True\<rparr>)\<rparr>)) t"
  proof (rule wp_mono)
    fix u assume n: "drv_near (t\<lparr>bufs := (bufs t)(b := ?y)\<rparr>) u"
    let ?z = "?y\<lparr>b_valid := True\<rparr>"
    have bu: "bufs u = (bufs s)(b := ?y)" using drv_near_facts(3) [OF n] by (simp add: t)
    have eq: "(bufs u)(b := (bufs u b)\<lparr>b_valid := True\<rparr>) = (bufs s)(b := ?z)" by (simp add: bu)
    have "drv_near (settled (s\<lparr>bufs := (bufs s)(b := ?z), sleeplocks := sl_taken (BufSl b) s\<rparr>)) (u\<lparr>bufs := (bufs s)(b := ?z)\<rparr>)"
      using drv_near_upd(1) [OF n, of "(bufs s)(b := ?z)"] unfolding tt [symmetric] by simp
    moreover have "cache_rel dev (s\<lparr>bufs := (bufs s)(b := ?z), sleeplocks := sl_taken (BufSl b) s\<rparr>) (c_read k a)"
      by (rule cache_rel_read [OF rel fit]) (use x False in auto)
    ultimately have "cache_rel dev (u\<lparr>bufs := (bufs s)(b := ?z)\<rparr>) (c_read k a)"
      using cache_rel_near cache_rel_settled by fast
    moreover have "steady dev a s (u\<lparr>bufs := (bufs s)(b := ?z)\<rparr>)"
      by (rule steady_fits [OF cache_relD(2) [OF rel] fit, of _ ?z])
        (use x drv_near_bio_near [OF n] in \<open>simp_all add: t\<close>)
    ultimately show "cached dev (bufs (u\<lparr>bufs := (bufs u)(b := (bufs u b)\<lparr>b_valid := True\<rparr>)\<rparr>)) b k
      \<and> cache_rel dev (u\<lparr>bufs := (bufs u)(b := (bufs u b)\<lparr>b_valid := True\<rparr>)\<rparr>) (c_read k a)
      \<and> steady dev a s (u\<lparr>bufs := (bufs u)(b := (bufs u b)\<lparr>b_valid := True\<rparr>)\<rparr>)"
      unfolding eq using x(1,2) q(3) by (simp add: cached_def t)
  qed
  then show ?thesis
    using False by (auto simp: xt wp_seq wp_bind wp_bget_field wp_bset wp_whenM wp_ret elim!: wp_mono)
qed

lemma bread_wp:
  assumes rel: "cache_rel dev s a" and k: "readable k a"
  shows "wp (bread E dev k) (\<lambda>b t. cached dev (bufs t) b k \<and> cache_rel dev t (c_read k a) \<and> steady dev a s t) s"
proof -
  obtain xs where r: "buf_ring (bufs s) xs" using rel by (auto simp: cache_rel_def)
  note q = cache_relD(1) [OF rel] and m = cache_relD(2) [OF rel] and l = cache_relD(3) [OF rel]
  let ?rest = "\<lambda>b. seq (bind (bget_field b b_valid) (\<lambda>v. whenM (\<not> v) (seq (e_rw E b False) (bset b (\<lambda>x. x\<lparr>b_valid := True\<rparr>))))) (ret b)"
  let ?P = "\<lambda>b t. cached dev (bufs t) b k \<and> cache_rel dev t (c_read k a) \<and> steady dev a s t"
  have fill: "wp (?rest b) ?P (settled (s\<lparr>bufs := (bufs s)(b := x), sleeplocks := sl_taken (BufSl b) s\<rparr>))"
    if "fits dev k s a b" "b_dev x = dev" "b_blockno x = k" "\<not> b_disk x" "unat (b_refcnt x) = Suc (c_pins a k)"
      "b_valid x \<Longrightarrow> b_data x = c_val a k" "\<not> b_valid x \<Longrightarrow> c_val a k = c_disk a k"
      "b_next x = b_next (bufs s b)" "b_prev x = b_prev (bufs s b)" for b x
    by (rule wp_mono [OF fill_wp [OF rel that(1) _ that(2-9) refl]]) (use k in \<open>auto simp: readable_def\<close>)
  have "wp (bget E dev k) (\<lambda>b. wp (?rest b) ?P) s"
  proof (rule wp_bget [OF q r])
    fix b assume "find (\<lambda>b. b_dev (bufs s b) = dev \<and> b_blockno (bufs s b) = k) xs = Some b"
    then have c: "cached dev (bufs s) b k" using find_ring(1) [OF r, of _ b] by (fastforce simp: cached_def)
    then have b: "b < NBUF" by (simp add: cached_def)
    have fit: "fits dev k s a b" using c cache_mapD(1) [OF m] by (auto simp: fits_def cached_def)
    have "\<not> sl_locked (sleeplocks s (BufSl b))" using l k c by (auto simp: cache_locks_def readable_def cached_def)
    moreover have "\<not> b_valid (bufs s b) \<Longrightarrow> c_val a k = c_disk a k"
      using cache_mapD(6) [OF m, of k] cache_mapD(1) [OF m c] by metis
    then have "wp (?rest b) ?P (settled (s\<lparr>bufs := (bufs s)(b := (bufs s b)\<lparr>b_refcnt := b_refcnt (bufs s b) + 1\<rparr>),
        sleeplocks := sl_taken (BufSl b) s\<rparr>))"
      using c k cache_mapD(2) [OF m c] cache_mapD(5) [OF m c] cache_mapD(11) [OF m b]
      by (intro fill [OF fit]) (simp_all add: cached_def readable_def unat_Suc32)
    ultimately show "\<not> sl_locked (sleeplocks s (BufSl b)) \<and> wp (?rest b) ?P
        (settled (s\<lparr>bufs := (bufs s)(b := (bufs s b)\<lparr>b_refcnt := b_refcnt (bufs s b) + 1\<rparr>), sleeplocks := sl_taken (BufSl b) s\<rparr>))" ..
  next
    assume none: "find (\<lambda>b. b_dev (bufs s b) = dev \<and> b_blockno (bufs s b) = k) xs = None"
    then have nc: "\<not> cached dev (bufs s) b k" for b using find_ring(2) [OF r none] by (auto simp: cached_def)
    then have p0: "c_pins a k = 0" using cache_mapD(3) [OF m] by blast
    then have "card {k. c_pins a k \<noteq> 0} < NBUF" using k by (simp add: readable_def)
    then obtain b0 where "b0 < NBUF" "b_refcnt (bufs s b0) = 0" using some_buffer_free [OF m] by blast
    then obtain b where f: "find (\<lambda>b. b_refcnt (bufs s b) = 0) (rev xs) = Some b"
      using find_ring(4) [OF r, of "\<lambda>b. b_refcnt (bufs s b) = 0" b0] by (cases "find (\<lambda>b. b_refcnt (bufs s b) = 0) (rev xs)") auto
    then have b: "b < NBUF" "b_refcnt (bufs s b) = 0" using find_ring(3) [OF r f] by simp_all
    have unheld: "\<not> sl_locked (sleeplocks s (BufSl b))"
    proof
      assume "sl_locked (sleeplocks s (BufSl b))"
      then have "b_dev (bufs s b) = dev" "b_blockno (bufs s b) \<in> c_held a" using l b by (simp_all add: cache_locks_def)
      moreover from this obtain c where "cached dev (bufs s) c (b_blockno (bufs s b))" "b_refcnt (bufs s c) \<noteq> 0"
        using cache_mapD(8) [OF m] by blast
      ultimately show False using cache_mapD(1) [OF m, of c _ b] b by (auto simp: cached_def)
    qed
    have fit: "fits dev k s a b" using b nc cache_mapD(2) [OF m, of b] by (auto simp: fits_def)
    have "wp (?rest b) ?P (settled (s\<lparr>bufs := (bufs s)(b := (bufs s b)\<lparr>b_dev := dev, b_blockno := k, b_valid := False, b_refcnt := 1\<rparr>),
        sleeplocks := sl_taken (BufSl b) s\<rparr>))"
      using p0 cache_mapD(7) [OF m p0] cache_mapD(11) [OF m b(1)] by (intro fill [OF fit]) simp_all
    then show "\<exists>b. find (\<lambda>b. b_refcnt (bufs s b) = 0) (rev xs) = Some b \<and> \<not> sl_locked (sleeplocks s (BufSl b)) \<and> wp (?rest b) ?P
        (settled (s\<lparr>bufs := (bufs s)(b := (bufs s b)\<lparr>b_dev := dev, b_blockno := k, b_valid := False, b_refcnt := 1\<rparr>),
        sleeplocks := sl_taken (BufSl b) s\<rparr>))" using f unheld by blast
  qed
  then show ?thesis unfolding bread_def wp_bind .
qed

end

section \<open>Using a locked buffer\<close>

text \<open>\<open>b\<close> is the buffer of block \<open>k\<close>, which the process has locked.\<close>

definition handle :: "uint \<Rightarrow> 'z disk_state_scheme \<Rightarrow> cache \<Rightarrow> nat \<Rightarrow> uint \<Rightarrow> bool" where
  "handle dev s a b k \<longleftrightarrow> cached dev (bufs s) b k \<and> k \<in> c_held a"

lemma handle_steady: "handle dev s a b k \<Longrightarrow> steady dev a s t \<Longrightarrow> k \<in> c_held a' \<Longrightarrow> handle dev t a' b k"
  by (simp add: handle_def steady_def)

lemma handle_facts:
  assumes rel: "cache_rel dev s a" and h: "handle dev s a b k"
  shows "b < NBUF" "b_dev (bufs s b) = dev" "b_blockno (bufs s b) = k" "b_valid (bufs s b)" "b_data (bufs s b) = c_val a k"
    "unat (b_refcnt (bufs s b)) = c_pins a k" "0 < c_pins a k" "\<not> b_disk (bufs s b)"
    "sl_locked (sleeplocks s (BufSl b))" "sl_pid (sleeplocks s (BufSl b)) = curpid s"
    "\<And>c. cached dev (bufs s) c k \<Longrightarrow> c = b"
proof -
  note m = cache_relD(2) [OF rel] and l = cache_relD(3) [OF rel]
  have c: "cached dev (bufs s) b k" and k: "k \<in> c_held a" using h by (simp_all add: handle_def)
  obtain b' where b': "cached dev (bufs s) b' k" "b_valid (bufs s b')" "b_refcnt (bufs s b') \<noteq> 0"
    using cache_mapD(8) [OF m k] by blast
  then have bb: "b' = b" using cache_mapD(1) [OF m _ c] by blast
  show only: "c = b" if "cached dev (bufs s) c k" for c using cache_mapD(1) [OF m that c] .
  show "b < NBUF" "b_dev (bufs s b) = dev" "b_blockno (bufs s b) = k" using c by (simp_all add: cached_def)
  then show "\<not> b_disk (bufs s b)" "sl_locked (sleeplocks s (BufSl b))" "sl_pid (sleeplocks s (BufSl b)) = curpid s"
    using cache_mapD(11) [OF m] l k by (simp_all add: cache_locks_def)
  show "b_valid (bufs s b)" using b' bb by simp
  then show "b_data (bufs s b) = c_val a k" using cache_mapD(5) [OF m c] by simp
  show p: "unat (b_refcnt (bufs s b)) = c_pins a k" using cache_mapD(2) [OF m c] by simp
  show "0 < c_pins a k" unfolding p [symmetric] using b' bb by (simp add: unat_gt_0)
qed

text \<open>Changing the buffer of a locked block.\<close>

lemma cache_rel_upd:
  assumes rel: "cache_rel dev s a" and h: "handle dev s a b k"
    and y: "b_dev y = dev" "b_blockno y = k" "\<not> b_disk y" "c_pins a' k = unat (b_refcnt y)" "b_valid y" "b_data y = c_val a' k"
      "b_next y = b_next (bufs s b)" "b_prev y = b_prev (bufs s b)"
    and a': "\<And>k'. k' \<noteq> k \<Longrightarrow> c_pins a' k' = c_pins a k' \<and> c_val a' k' = c_val a k' \<and> c_disk a' k' = c_disk a k'"
      "length (c_val a' k) = BSIZE" "c_disk a' k = c_disk a k" "c_held a' = c_held a" "0 < c_pins a' k" "c_log a' = c_log a"
  shows "cache_rel dev (s\<lparr>bufs := (bufs s)(b := y)\<rparr>) a'"
proof -
  obtain xs where r: "buf_ring (bufs s) xs" using rel by (auto simp: cache_rel_def)
  note m = cache_relD(2) [OF rel] and l = cache_relD(3) [OF rel] and f = handle_facts [OF rel h]
  have "cache_map dev ((bufs s)(b := y)) a'"
  proof (rule cache_map_upd [OF m f(1,11) _ y(1-6)])
    show "c_pins a k' = 0" if "cached dev (bufs s) b k'" "k' \<noteq> k" for k' using that f(3) by (auto simp: cached_def)
    show "length (c_disk a' k) = BSIZE" using a'(3) cache_mapD(10) [OF m] by simp
    show "b_refcnt y \<noteq> 0" using a'(5) y(4) by auto
  qed (use a' in auto)
  moreover have "cache_locks dev ((bufs s)(b := y)) (curpid s) (sleeplocks s) a'"
    by (rule cache_locks_upd [OF l f(1) y(1,2) _ _ _ _ f(11)]) (use f(9,10) h a'(4) in \<open>auto simp: handle_def\<close>)
  moreover have "c_disk a' = c_disk a" using a'(1,3) by (metis ext)
  ultimately show ?thesis
    using rel ring_links [OF r y(7,8)] a'(6) by (auto simp: cache_rel_def cache_disk_def)
qed

lemma steady_bufs:
  assumes "\<And>c. b_dev (B c) = b_dev (bufs s c) \<and> b_blockno (B c) = b_blockno (bufs s c)"
  shows "steady dev a s (s\<lparr>bufs := B\<rparr>)"
  using assms by (simp add: steady_def cached_def)

lemma steady_settled [simp]: "steady dev a s (settled t) = steady dev a s t"
  by (simp add: steady_def)

lemma steady_trans: "steady dev a s t \<Longrightarrow> steady dev a' t u \<Longrightarrow> c_held a \<subseteq> c_held a' \<Longrightarrow> steady dev a s u"
  by (auto simp: steady_def intro: bio_near_trans)

lemma bset_data_wp:
  assumes rel: "cache_rel dev s a" and h: "handle dev s a b k" and len: "length (f (c_val a k)) = BSIZE"
  shows "wp (bset b (\<lambda>x. x\<lparr>b_data := f (b_data x)\<rparr>)) (\<lambda>_ t. cache_rel dev t (c_set k (f (c_val a k)) a) \<and> steady dev a s t) s"
proof -
  let ?y = "(bufs s b)\<lparr>b_data := f (b_data (bufs s b))\<rparr>"
  note f = handle_facts [OF rel h]
  have "cache_rel dev (s\<lparr>bufs := (bufs s)(b := ?y)\<rparr>) (c_set k (f (c_val a k)) a)"
    by (rule cache_rel_upd [OF rel h]) (use f len in \<open>auto simp: c_set_def\<close>)
  then show ?thesis by (simp add: wp_bset steady_bufs)
qed

text \<open>A critical section of the cache's own lock.\<close>

lemma bcache_section:
  "quiet s \<Longrightarrow> Q () (settled (s\<lparr>bufs := (bufs s)(b := f (bufs s b))\<rparr>)) \<Longrightarrow>
    wp (block [acquire BcacheLock, bset b f, release BcacheLock]) Q s"
  by (simp add: wp_seq wp_ret wp_acquire_quiet wp_bset with_locks_bufs wp_release_quiet)

lemma bpin_wp:
  assumes rel: "cache_rel dev s a" and h: "handle dev s a b k" and few: "c_pins a k < 1000"
  shows "wp (bpin b) (\<lambda>_ t. cache_rel dev t (c_pin k a) \<and> steady dev a s t) s"
proof -
  let ?y = "(bufs s b)\<lparr>b_refcnt := b_refcnt (bufs s b) + 1\<rparr>"
  note f = handle_facts [OF rel h]
  have "cache_rel dev (s\<lparr>bufs := (bufs s)(b := ?y)\<rparr>) (c_pin k a)"
    by (rule cache_rel_upd [OF rel h])
      (use f few cache_mapD(9) [OF cache_relD(2) [OF rel], of k] in \<open>auto simp: c_pin_def unat_Suc32\<close>)
  then show ?thesis
    unfolding bpin_def by (intro bcache_section) (simp_all add: cache_relD(1) [OF rel] steady_bufs)
qed

lemma unat_pred32: "0 < unat (w :: uint) \<Longrightarrow> unat (w - 1) = unat w - 1"
  by (subst unat_sub) (simp_all add: word_le_nat_alt)

lemma bunpin_wp:
  assumes rel: "cache_rel dev s a" and h: "handle dev s a b k" and two: "1 < c_pins a k"
  shows "wp (bunpin b) (\<lambda>_ t. cache_rel dev t (c_unpin k a) \<and> steady dev a s t) s"
proof -
  let ?y = "(bufs s b)\<lparr>b_refcnt := b_refcnt (bufs s b) - 1\<rparr>"
  note f = handle_facts [OF rel h]
  have "cache_rel dev (s\<lparr>bufs := (bufs s)(b := ?y)\<rparr>) (c_unpin k a)"
    by (rule cache_rel_upd [OF rel h])
      (use f two cache_mapD(9) [OF cache_relD(2) [OF rel], of k] in \<open>auto simp: c_unpin_def unat_pred32\<close>)
  then show ?thesis
    unfolding bunpin_def by (intro bcache_section) (simp_all add: cache_relD(1) [OF rel] steady_bufs)
qed

lemma cache_map_write:
  assumes m: "cache_map dev B a" and b: "cached dev B b k" "b_valid (B b)"
  shows "cache_map dev B (c_write k a)"
proof -
  have "c_val a k' = c_disk (c_write k a) k'" if "c_val a k' = c_disk a k'" for k' using that by (auto simp: c_write_def)
  then show ?thesis
    using m cache_mapD(9) [OF m] by (auto simp: cache_map_def c_write_def)
qed

lemma cache_rel_write:
  assumes rel: "cache_rel dev s a" and h: "handle dev s a b k"
  shows "cache_rel dev (s\<lparr>disk_data := (disk_data s)(unat k := c_val a k), disk_log := disk_log s @ [(unat k, c_val a k)]\<rparr>) (c_write k a)"
proof -
  let ?t = "s\<lparr>disk_data := (disk_data s)(unat k := c_val a k), disk_log := disk_log s @ [(unat k, c_val a k)]\<rparr>"
  note f = handle_facts [OF rel h]
  have m: "cache_map dev (bufs s) (c_write k a)"
    by (rule cache_map_write) (use rel f h in \<open>simp_all add: cache_rel_def handle_def\<close>)
  have l: "cache_locks dev (bufs s) (curpid s) (sleeplocks s) (c_write k a)"
    using cache_relD(3) [OF rel] by (simp add: cache_locks_def c_write_def)
  have d: "cache_disk (disk_data ?t) (disk_log ?t) (c_write k a)"
    using cache_relD(4) [OF rel] by (auto simp: cache_disk_def c_write_def word_unat_eq_iff)
  have q: "quiet ?t" "curpid ?t = curpid s"
    using cache_relD(1) [OF rel] by (simp_all add: quiet_def curpid_def mycpu_def lock_idle_def intr_ok_def intr_get_def)
  show ?thesis using rel m l d q by (simp add: cache_rel_def)
qed

context block_driver
begin

lemma bwrite_wp:
  assumes rel: "cache_rel dev s a" and h: "handle dev s a b k" and k: "k < 0x80000000"
  shows "wp (bwrite E b) (\<lambda>_ t. cache_rel dev t (c_write k a) \<and> steady dev a s t) s"
proof -
  let ?u = "s\<lparr>disk_data := (disk_data s)(unat k := c_val a k), disk_log := disk_log s @ [(unat k, c_val a k)]\<rparr>"
  note f = handle_facts [OF rel h]
  have q: "quiet (settled s)" "vd_idle (vd (settled s))" using rel by (simp_all add: cache_rel_def)
  have w: "wp (e_rw E b True) (\<lambda>_. drv_near (settled ?u)) (settled s)"
    using rw_write [OF q f(1)] f(3,5,8) k by (simp add: settled_disk)
  have "wp (e_rw E b True) (\<lambda>_ t. cache_rel dev t (c_write k a) \<and> steady dev a s t) (settled s)"
  proof (rule wp_mono [OF w])
    fix t assume n: "drv_near (settled ?u) t"
    have "cache_rel dev t (c_write k a)" using cache_rel_near [OF n] cache_rel_write [OF rel h] by simp
    moreover have "steady dev a s t"
      using drv_near_bio_near [OF n] drv_near_facts(3) [OF n] by (simp add: steady_def)
    ultimately show "cache_rel dev t (c_write k a) \<and> steady dev a s t" ..
  qed
  then show ?thesis
    unfolding bwrite_def
    by (simp add: wp_seq wp_bind wp_whenM wp_ret) (rule holdingsleep_wp, use cache_relD(1) [OF rel] f in simp_all)
qed

end

section \<open>Releasing a buffer\<close>

lemma cached_moved [simp]: "cached dev (moved b B) c k = cached dev B c k"
  by (simp add: cached_def)

lemma cache_map_moved [simp]: "cache_map dev (moved b B) a = cache_map dev B a"
  by (simp add: cache_map_def)

lemma cache_locks_moved [simp]: "cache_locks dev (moved b B) pid sl a = cache_locks dev B pid sl a"
  by (simp add: cache_locks_def)

lemma ring_moved_ex: "buf_ring B xs \<Longrightarrow> b < NBUF \<Longrightarrow> \<exists>ys. buf_ring (moved b B) ys"
proof -
  assume r: "buf_ring B xs" "b < NBUF"
  then have "b \<in> set xs" by (simp add: buf_ring_def)
  then obtain us vs where "xs = us @ b # vs" by (auto simp: in_set_conv_decomp)
  with r(1) ring_moved show ?thesis by blast
qed

definition dropped :: "nat \<Rightarrow> (nat \<Rightarrow> buf) \<Rightarrow> nat \<Rightarrow> buf" where
  "dropped b B = (let B' = B(b := (B b)\<lparr>b_refcnt := b_refcnt (B b) - 1\<rparr>) in
     if b_refcnt (B b) = 1 then moved b B' else B')"

lemma cache_rel_release:
  assumes rel: "cache_rel dev s a" and h: "handle dev s a b k" and clean: "c_pins a k \<noteq> 1 \<or> c_val a k = c_disk a k"
  shows "cache_rel dev (s\<lparr>sleeplocks := sl_freed (BufSl b) s, bufs := dropped b (bufs s)\<rparr>) (c_release k a)"
proof -
  obtain xs where r: "buf_ring (bufs s) xs" using rel by (auto simp: cache_rel_def)
  note m = cache_relD(2) [OF rel] and l = cache_relD(3) [OF rel] and f = handle_facts [OF rel h]
  let ?y = "(bufs s b)\<lparr>b_refcnt := b_refcnt (bufs s b) - 1\<rparr>"
  let ?B = "(bufs s)(b := ?y)"
  have y: "unat (b_refcnt ?y) = c_pins a k - 1" using f(6,7) by (simp add: unat_pred32)
  have "cache_map dev ?B (c_release k a)"
  proof (rule cache_map_upd [OF m f(1,11)])
    show "c_pins a k' = 0" if "cached dev (bufs s) b k'" "k' \<noteq> k" for k' using that f(3) by (auto simp: cached_def)
    show "c_pins (c_release k a) k = unat (b_refcnt ?y)" using y by (simp add: c_release_def)
  qed (use f clean cache_mapD(9,10) [OF m, of k] in \<open>auto simp: c_release_def\<close>)
  moreover have "cache_locks dev ?B (curpid s) (sl_freed (BufSl b) s) (c_release k a)"
    by (rule cache_locks_upd [OF l f(1) _ _ _ _ _ _ f(11)]) (use f in \<open>auto simp: sl_freed_def c_release_def\<close>)
  moreover have rb: "buf_ring ?B xs" by (rule ring_links [OF r]) simp_all
  moreover have "\<exists>ys. buf_ring (moved b ?B) ys" by (rule ring_moved_ex [OF rb f(1)])
  moreover have "cache_disk (disk_data s) (disk_log s) (c_release k a)"
    using cache_relD(4) [OF rel] by (simp add: cache_disk_def c_release_def)
  moreover have "vd_idle (vd s)" using rel by (simp add: cache_rel_def)
  ultimately show ?thesis using cache_relD(1) [OF rel] by (auto simp: cache_rel_def dropped_def Let_def)
qed

lemma cached_dropped: "cached dev (dropped b B) c k = cached dev B c k"
  by (simp add: dropped_def Let_def) (simp add: cached_def)

text \<open>The two halves of \<open>brelse\<close>.\<close>

definition move_front :: "nat \<Rightarrow> ('z disk_state_scheme, unit) prog" where
  "move_front b =
     block
      [bind (bget_field b (\<lambda>x. x)) (\<lambda>x. bset (b_next x) (\<lambda>y. y\<lparr>b_prev := b_prev x\<rparr>)),
       bind (bget_field b (\<lambda>x. x)) (\<lambda>x. bset (b_prev x) (\<lambda>y. y\<lparr>b_next := b_next x\<rparr>)),
       bind (bget_field HEAD b_next) (\<lambda>n. bset b (\<lambda>x. x\<lparr>b_next := n\<rparr>)),
       bset b (\<lambda>x. x\<lparr>b_prev := HEAD\<rparr>),
       link_front b]"

lemma brelse_unfold:
  "brelse b = block [bind (holdingsleep (BufSl b)) (\<lambda>h. whenM (\<not> h) (panic ''brelse'')), releasesleep (BufSl b),
     acquire BcacheLock, bset b (\<lambda>x. x\<lparr>b_refcnt := b_refcnt x - 1\<rparr>),
     bind (bget_field b b_refcnt) (\<lambda>r. whenM (r = 0) (move_front b)), release BcacheLock]"
  by (simp only: brelse_def move_front_def)

lemma wp_bset_link:
  "wp (bset b (\<lambda>x. x\<lparr>b_next := n\<rparr>)) Q = (\<lambda>s. Q () (s\<lparr>bufs := set_next b n (bufs s)\<rparr>))"
  "wp (bset b (\<lambda>x. x\<lparr>b_prev := n\<rparr>)) Q = (\<lambda>s. Q () (s\<lparr>bufs := set_prev b n (bufs s)\<rparr>))"
  by (simp_all add: wp_bset set_next_def set_prev_def)

lemma bufs_upd_simps: "bufs (s\<lparr>bufs := x\<rparr>) = x" "s\<lparr>bufs := x, bufs := y\<rparr> = s\<lparr>bufs := y\<rparr>"
  by simp_all

lemma wp_move_front: "wp (move_front b) Q = (\<lambda>s. Q () (s\<lparr>bufs := moved b (bufs s)\<rparr>))"
  by (rule ext) (simp only: move_front_def block.simps link_front_def wp_seq wp_bind wp_ret wp_bget_field wp_bset_link
      bufs_upd_simps moved_def unlinked_def fronted_def Let_def)

lemma brelse_tail_wp:
  assumes q: "quiet s" and Q: "Q () (settled (s\<lparr>bufs := dropped b (bufs s)\<rparr>))"
  shows "wp (block [acquire BcacheLock, bset b (\<lambda>x. x\<lparr>b_refcnt := b_refcnt x - 1\<rparr>),
     bind (bget_field b b_refcnt) (\<lambda>r. whenM (r = 0) (move_front b)), release BcacheLock]) Q s"
  using q Q
  by (cases "b_refcnt (bufs s b) = 1")
    (simp_all add: wp_seq wp_bind wp_ret wp_acquire_quiet wp_bset wp_bget_field wp_whenM with_locks_bufs wp_move_front
      wp_release_quiet dropped_def Let_def)

lemma near_bufs_upd: "near s t \<Longrightarrow> drv_near (s\<lparr>bufs := x\<rparr>) (t\<lparr>bufs := x\<rparr>)"
  by (rule drv_near_upd(1)) (rule near_drv_near)

lemma brelse_wp:
  assumes rel: "cache_rel dev s a" and h: "handle dev s a b k" and clean: "c_pins a k \<noteq> 1 \<or> c_val a k = c_disk a k"
  shows "wp (brelse b) (\<lambda>_ t. cache_rel dev t (c_release k a) \<and> steady dev a s t) s"
proof -
  let ?s1 = "s\<lparr>sleeplocks := sl_freed (BufSl b) s\<rparr>"
  let ?post = "\<lambda>_ t. cache_rel dev t (c_release k a) \<and> steady dev a s t"
  note f = handle_facts [OF rel h] and q = cache_relD(1) [OF rel]
  have "wp (releasesleep (BufSl b)) (\<lambda>_. wp (block [acquire BcacheLock, bset b (\<lambda>x. x\<lparr>b_refcnt := b_refcnt x - 1\<rparr>),
     bind (bget_field b b_refcnt) (\<lambda>r. whenM (r = 0) (move_front b)), release BcacheLock]) ?post) (settled s)"
  proof (rule releasesleep_wp)
    show "quiet (settled s)" using q by simp
    fix t :: "'a disk_state_scheme" assume "near ((settled s)\<lparr>sleeplocks := sl_freed (BufSl b) (settled s)\<rparr>) t"
    then have n: "near ?s1 t" by (simp add: settled_sleeplocks sl_freed_def)
    have bt: "bufs t = bufs s" using drv_near_facts(3) [OF near_drv_near [OF n]] by simp
    have qt: "quiet t" using near_quiet(1) [OF n] q by simp
    have n2: "drv_near (?s1\<lparr>bufs := dropped b (bufs s)\<rparr>) (t\<lparr>bufs := dropped b (bufs s)\<rparr>)" by (rule near_bufs_upd [OF n])
    have "cache_rel dev (t\<lparr>bufs := dropped b (bufs s)\<rparr>) (c_release k a)"
      using cache_rel_near [OF n2] cache_rel_release [OF rel h clean] by simp
    moreover have "steady dev a s (t\<lparr>bufs := dropped b (bufs s)\<rparr>)"
      using drv_near_bio_near [OF n2] by (simp add: steady_def cached_dropped)
    ultimately show "wp (block [acquire BcacheLock, bset b (\<lambda>x. x\<lparr>b_refcnt := b_refcnt x - 1\<rparr>),
     bind (bget_field b b_refcnt) (\<lambda>r. whenM (r = 0) (move_front b)), release BcacheLock]) ?post t"
      by (intro brelse_tail_wp [OF qt]) (simp add: bt)
  qed
  moreover have "wp (holdingsleep (BufSl b)) (\<lambda>h t. h \<and> t = settled s) s"
    by (rule holdingsleep_wp) (use q f in simp_all)
  ultimately show ?thesis
    unfolding brelse_unfold by (auto simp only: block.simps wp_seq wp_bind wp_whenM wp_panic not_True_eq_False if_False elim!: wp_mono)
qed

section \<open>A concrete disk\<close>

text \<open>A machine whose cache has the blocks in \<open>B\<close>, in a ring in the order of their numbers, whose disk has the
  contents \<open>D\<close>, and whose driver is idle.\<close>

definition buf0 :: "nat \<Rightarrow> buf" where
  "buf0 b = \<lparr>b_valid = False, b_disk = False, b_dev = 0, b_blockno = 0, b_refcnt = 0,
     b_prev = (if b = 0 then HEAD else b - 1), b_next = (if b = HEAD then 0 else b + 1), b_data = replicate BSIZE 0\<rparr>"

definition vd0 :: disk where
  "vd0 = \<lparr>vd_desc = (\<lambda>_. zero_desc), vd_avail_idx = 0, vd_avail_ring = (\<lambda>_. 0), vd_used_idx_dev = 0, vd_used_ring = (\<lambda>_. 0),
     vd_free = (\<lambda>_. True), vd_used_idx = 0, vd_info_b = (\<lambda>_. None), vd_info_status = (\<lambda>_. 0),
     vd_ops = (\<lambda>_. \<lparr>rq_type = 0, rq_reserved = 0, rq_sector = 0\<rparr>)\<rparr>"

definition disk0 :: "(nat \<Rightarrow> buf) \<Rightarrow> (nat \<Rightarrow> data) \<Rightarrow> 'z \<Rightarrow> 'z disk_state_scheme" where
  "disk0 B D z = dev0 \<lparr>sleeplocks = (\<lambda>_. \<lparr>sl_locked = False, sl_name = [], sl_pid = 0\<rparr>),
     bufs = B, vd = vd0, vreg = (\<lambda>_. 0), vreg_log = [], disk_data = D, disk_log = [], \<dots> = z\<rparr>"

lemma disk0_simps [simp]:
  "bufs (disk0 B D z) = B" "disk_data (disk0 B D z) = D" "disk_log (disk0 B D z) = []"
  "sl_locked (sleeplocks (disk0 B D z) lk) = False" "cpu_proc (mycpu (disk0 B D z)) = Some 0" "quiet (disk0 B D z)" "vd (disk0 B D z) = vd0"
  by (simp_all add: disk0_def dev0_def machine0_def kmem0_def hart0_def quiet_def lock_idle_def intr_ok_def mycpu_def cpu0_def)

lemma vd0_idle: "vd_idle vd0"
  by (simp add: vd_idle_def vd0_def)

lemma chain_up: "f x = n \<Longrightarrow> \<forall>i \<in> {n..<n + d}. f i = Suc i \<Longrightarrow> f (n + d) = y \<Longrightarrow> chain f x [n..<Suc (n + d)] y"
proof (induction d arbitrary: x n)
  case (Suc d)
  have "chain f n [Suc n..<Suc (Suc n + d)] y" by (rule Suc.IH) (use Suc.prems in auto)
  moreover have "[n..<Suc (n + Suc d)] = n # [Suc n..<Suc (Suc n + d)]" by (simp only: add_Suc_right add_Suc upt_conv_Cons)
  ultimately show ?case using Suc.prems(1) by (simp del: upt_Suc)
qed simp

lemma buf0_ring: "buf_ring buf0 [0..<NBUF]"
proof -
  have "chain (\<lambda>b. b_next (buf0 b)) HEAD [0..<NBUF] HEAD" using chain_up [of "\<lambda>b. b_next (buf0 b)" HEAD 0 29 HEAD] by (simp add: buf0_def)
  moreover have "chain (\<lambda>b. b_prev (buf0 b)) HEAD (rev [0..<NBUF]) HEAD" by (simp add: upt_rec buf0_def)
  ultimately show ?thesis by (auto simp: buf_ring_def linked_def)
qed

text \<open>Every block on the disk is blank, and buffer 0 holds block 40 with new contents that are not on the disk yet.\<close>

definition blank :: data where "blank = replicate BSIZE 0"

definition dirty_buf :: "data \<Rightarrow> nat \<Rightarrow> buf" where
  "dirty_buf d = buf0(0 := (buf0 0)\<lparr>b_valid := True, b_dev := 1, b_blockno := 40, b_refcnt := 1, b_data := d\<rparr>)"

definition dirty_cache :: "data \<Rightarrow> cache" where
  "dirty_cache d = \<lparr>c_val = (\<lambda>_. blank)(40 := d), c_pins = (\<lambda>_. 0)(40 := 1), c_held = {}, c_disk = (\<lambda>_. blank), c_log = []\<rparr>"

lemma dirty_rel:
  assumes "length d = BSIZE"
  shows "cache_rel 1 (disk0 (dirty_buf d) (\<lambda>_. blank) z) (dirty_cache d)"
proof -
  have r: "buf_ring (dirty_buf d) [0..<NBUF]"
    unfolding dirty_buf_def by (rule ring_links [OF buf0_ring]) simp_all
  have c: "cached 1 (dirty_buf d) b k \<longleftrightarrow> b = 0 \<and> k = 40" for b k
    by (auto simp: cached_def dirty_buf_def buf0_def)
  have "cache_map 1 (dirty_buf d) (dirty_cache d)"
    using assms by (auto simp: cache_map_def c) (auto simp: dirty_cache_def dirty_buf_def buf0_def blank_def split: if_splits)
  then show ?thesis
    using r vd0_idle by (auto simp: cache_rel_def cache_locks_def cache_disk_def) (auto simp: dirty_cache_def)
qed

section \<open>Starting the cache\<close>

lemma linked_fronted:
  assumes "linked B xs" "distinct (HEAD # b # xs)"
  shows "linked (fronted b B) (b # xs)"
proof -
  let ?n = "\<lambda>c. b_next (B c)" let ?p = "\<lambda>c. b_prev (B c)"
  have c: "chain ?n HEAD xs HEAD" "chain ?p HEAD (rev xs) HEAD" using assms(1) by (simp_all add: linked_def)
  have h: "b_next (B HEAD) = last (HEAD # rev xs)" using chain_first [OF c(1)] last_rev_hd [of HEAD xs] by (simp only:)
  have l: "last (HEAD # rev xs) \<noteq> b" using last_in_set [of "HEAD # rev xs"] assms(2) by auto
  have "(\<lambda>c. b_next (fronted b B c)) = ?n(b := ?n HEAD, HEAD := b)"
    using assms(2) by (auto simp: fronted_def Let_def set_link_simps fun_eq_iff simp del: HEAD_def)
  then have 1: "chain (\<lambda>c. b_next (fronted b B c)) HEAD (b # xs) HEAD"
    using chain_prepend [OF c(1), of b] assms(2) by (simp del: HEAD_def)
  have "(\<lambda>c. b_prev (fronted b B c)) = ?p(b := HEAD, last (HEAD # rev xs) := b)"
    using assms(2) l h by (auto simp: fronted_def Let_def set_link_simps fun_eq_iff simp del: HEAD_def)
  moreover have "chain (?p(b := HEAD, last (HEAD # rev xs) := b)) HEAD (rev xs @ [b]) HEAD"
    by (rule chain_extend [OF c(2)]) (use assms(2) in auto)
  ultimately show ?thesis using 1 by (simp add: linked_def del: HEAD_def)
qed

lemma fronted_other:
  "b_dev (fronted b B c) = b_dev (B c)" "b_blockno (fronted b B c) = b_blockno (B c)" "b_refcnt (fronted b B c) = b_refcnt (B c)"
  "b_valid (fronted b B c) = b_valid (B c)" "b_disk (fronted b B c) = b_disk (B c)"
  by (simp_all add: fronted_def Let_def set_next_def set_prev_def)

definition fresh_bufs :: "(nat \<Rightarrow> buf) \<Rightarrow> bool" where
  "fresh_bufs B \<longleftrightarrow> (\<forall>b < NBUF. b_dev (B b) = 0 \<and> b_refcnt (B b) = 0 \<and> \<not> b_valid (B b) \<and> \<not> b_disk (B b))"

definition fresh_cache :: "(uint \<Rightarrow> data) \<Rightarrow> cache" where
  "fresh_cache D = \<lparr>c_val = D, c_pins = (\<lambda>_. 0), c_held = {}, c_disk = D, c_log = []\<rparr>"

lemma fresh_map:
  "fresh_bufs B \<Longrightarrow> dev \<noteq> 0 \<Longrightarrow> \<forall>k. length (D k) = BSIZE \<Longrightarrow> cache_map dev B (fresh_cache D)"
  by (auto simp: cache_map_def fresh_cache_def fresh_bufs_def cached_def)

definition entered :: "nat list \<Rightarrow> 'z disk_state_scheme \<Rightarrow> bool" where
  "entered bs s \<longleftrightarrow> linked (bufs s) (rev bs) \<and> fresh_bufs (bufs s) \<and> (\<forall>b \<in> set bs. \<not> sl_locked (sleeplocks s (BufSl b)))"

lemma enter_wp:
  assumes I: "entered zs s" and d: "distinct (HEAD # b # zs)"
  shows "wp (block
         [bind (bget_field HEAD b_next) (\<lambda>n. bset b (\<lambda>x. x\<lparr>b_next := n\<rparr>)),
          bset b (\<lambda>x. x\<lparr>b_prev := HEAD\<rparr>),
          initsleeplock (BufSl b) ''buffer'',
          link_front b]) (\<lambda>_. entered (zs @ [b])) s"
proof -
  have B: "linked (fronted b (bufs s)) (b # rev zs)"
    by (rule linked_fronted) (use I d in \<open>auto simp: entered_def\<close>)
  have F: "fresh_bufs (fronted b (bufs s))" using I by (simp add: entered_def fresh_bufs_def fronted_other)
  have lw: "bufs (lock_write lk f u) = bufs u" "sleeplocks (lock_write lk f u) = sleeplocks u" for lk f and u :: "'a disk_state_scheme"
    by (simp_all add: lock_write_def)
  show ?thesis
    using I B F
    by (simp add: wp_simps initsleeplock_def initlock_def wp_bind wp_bget_field wp_bset_link wp_sl_set link_front_def entered_def
        wp_modify lw fronted_def Let_def del: HEAD_def)
qed

text \<open>C6: \<open>binit\<close> sets up the cache. From zeroed buffers it builds the ring of all \<open>NBUF\<close> buffers, linked in
  both directions with the last buffer first, with every buffer free and unlocked: the buffers then represent the
  empty cache of every disk, whose contents are what is on the disk.\<close>

theorem binit_empty_cache:
  assumes "fresh_bufs (bufs s)" "dev \<noteq> 0" "\<forall>k. length (disk_data s (unat (k :: uint))) = BSIZE"
  shows "wp binit (\<lambda>_ t. buf_ring (bufs t) (rev [0..<NBUF])
    \<and> cache_map dev (bufs t) (fresh_cache (\<lambda>k. disk_data s (unat k)))
    \<and> cache_locks dev (bufs t) pid (sleeplocks t) (fresh_cache (\<lambda>k. disk_data s (unat k)))) s"
proof -
  have ready: "wp (forM [0..<NBUF] (\<lambda>b. block
         [bind (bget_field HEAD b_next) (\<lambda>n. bset b (\<lambda>x. x\<lparr>b_next := n\<rparr>)),
          bset b (\<lambda>x. x\<lparr>b_prev := HEAD\<rparr>),
          initsleeplock (BufSl b) ''buffer'',
          link_front b])) (\<lambda>_. entered [0..<NBUF]) u" if "entered [] u" for u :: "'a disk_state_scheme"
  proof (rule wp_forM [where I = entered])
    fix b zs ys and t :: "'a disk_state_scheme" assume l: "[0..<NBUF] = zs @ b # ys" and e: "entered zs t"
    have "distinct (zs @ b # ys)" "set (zs @ b # ys) = {..<NBUF}" unfolding l [symmetric] by auto
    then have "distinct (HEAD # b # zs)" by auto
    then show "wp (block
         [bind (bget_field HEAD b_next) (\<lambda>n. bset b (\<lambda>x. x\<lparr>b_next := n\<rparr>)),
          bset b (\<lambda>x. x\<lparr>b_prev := HEAD\<rparr>),
          initsleeplock (BufSl b) ''buffer'',
          link_front b]) (\<lambda>_. entered (zs @ [b])) t" by (rule enter_wp [OF e])
  qed (use that in simp_all)
  have "wp binit (\<lambda>_. entered [0..<NBUF]) s"
    unfolding binit_def initlock_def
    by (simp only: wp_block_Cons wp_block_Nil wp_modify wp_bset_link, rule ready)
      (use assms(1) in \<open>auto simp: entered_def linked_def fresh_bufs_def lock_write_def set_next_def set_prev_def\<close>)
  then show ?thesis
  proof (rule wp_mono)
    fix t :: "'a disk_state_scheme" assume e: "entered [0..<NBUF] t"
    have "cache_map dev (bufs t) (fresh_cache (\<lambda>k. disk_data s (unat k)))"
      by (rule fresh_map) (use e assms in \<open>auto simp: entered_def\<close>)
    then show "buf_ring (bufs t) (rev [0..<NBUF])
    \<and> cache_map dev (bufs t) (fresh_cache (\<lambda>k. disk_data s (unat k)))
    \<and> cache_locks dev (bufs t) pid (sleeplocks t) (fresh_cache (\<lambda>k. disk_data s (unat k)))"
      using e by (auto simp: entered_def buf_ring_def cache_locks_def fresh_cache_def)
  qed
qed

lemma binit_empty_cache_witness:
  "wp binit (\<lambda>_ t. buf_ring (bufs t) (rev [0..<NBUF])) (disk0 (\<lambda>b. (buf0 b)\<lparr>b_prev := 0, b_next := 0\<rparr>) (\<lambda>_. blank) ())"
  by (rule wp_mono [OF binit_empty_cache [of _ 1 0]]) (simp_all add: fresh_bufs_def buf0_def blank_def)

end
