(* ===== verification/Switch.thy ===== *)
theory Switch
  imports Sleeplock
begin

text \<open>
  Running code of the kernel on one hart, step by step: what taking and releasing a lock, waking up and switching
  between processes does to a state in which no lock is held. \<open>while_away\<close> is what the scheduler does while a process
  sleeps and something else happens, \<open>run_as\<close> is another process that gets the hart, makes a system call and yields;
  \<open>sleep_away_run\<close> runs \<open>sleep\<close> of \<open>kernel/proc.c\<close> against them. The disk driver and the pipes wait this way.
\<close>

section \<open>Locks and wakeups\<close>

definition unlocked :: "'z hart_state_scheme \<Rightarrow> bool" where
  "unlocked s \<longleftrightarrow> (\<forall>lk. lock_idle lk s) \<and> intr_ok s"

definition all_awake :: "chan \<Rightarrow> 'z proc_state_scheme \<Rightarrow> nat \<Rightarrow> proc" where
  "all_awake ch s = (\<lambda>p. if p < NPROC then awakened ch (cpu_proc (mycpu s)) (ticks s) p (procs s p) else procs s p)"

lemma unlocked_upd [simp]:
  "unlocked (s\<lparr>procs := P\<rparr>) = unlocked s" "unlocked (settled s) = unlocked s"
  by (simp_all add: unlocked_def)

lemma wakeup_run:
  assumes "unlocked s" "\<And>p. lk \<noteq> ProcLock p"
  shows "wakeup ch (with_locks {lk} s) = Ok () (with_locks {lk} (s\<lparr>procs := all_awake ch s\<rparr>))"
proof -
  have "wp (wakeup ch) (\<lambda>_ t. t = with_locks {lk} (s\<lparr>procs := all_awake ch s\<rparr>)) (with_locks {lk} s)"
    by (rule wp_wakeup_awakened) (use assms in \<open>simp_all add: unlocked_def all_awake_def\<close>)
  then show ?thesis by (auto simp: wp_iff)
qed

lemma acquire_run: "unlocked s \<Longrightarrow> acquire lk (settled s) = Ok () (with_locks {lk} s)"
  using acquire_first [of lk "settled s"] by (simp add: unlocked_def)

lemma release_run1: "unlocked s \<Longrightarrow> release lk (with_locks {lk} s) = Ok () (settled s)"
  using release_one_of [of "{lk}" lk s] by (simp add: unlocked_def)

lemma seq_step: "m s = Ok x t \<Longrightarrow> n t = r \<Longrightarrow> seq m n s = r"
  by (simp add: seq_def bind_def)

lemma bind_step: "m s = Ok x t \<Longrightarrow> f x t = r \<Longrightarrow> bind m f s = r"
  by (simp add: bind_def)

lemma curproc_run: "unlocked s \<Longrightarrow> cpu_proc (mycpu s) = Some p \<Longrightarrow> finite L \<Longrightarrow> curproc (with_locks L s) = Ok p (with_locks L s)"
  using wp_curproc [of "with_locks L s" p "\<lambda>x t. x = p \<and> t = with_locks L s"]
  by (simp add: wp_iff unlocked_def with_locks_intr)

section \<open>The process on the hart\<close>

definition on_hart :: "nat option \<Rightarrow> 'z hart_state_scheme \<Rightarrow> 'z hart_state_scheme" where
  "on_hart me s = mycpu_write (\<lambda>c. c\<lparr>cpu_proc := me\<rparr>) s"

definition put_proc :: "nat \<Rightarrow> (proc \<Rightarrow> proc) \<Rightarrow> 'z proc_state_scheme \<Rightarrow> 'z proc_state_scheme" where
  "put_proc p f s = s\<lparr>procs := (procs s)(p := f (procs s p))\<rparr>"

lemma on_hart_facts [simp]:
  "unlocked (on_hart me s) = unlocked s" "noff (mycpu (on_hart me s)) = noff (mycpu s)" "intr_get (on_hart me s) = intr_get s"
  "cpu_proc (mycpu (on_hart me s)) = me"
  by (simp_all add: on_hart_def unlocked_def lock_idle_def intr_ok_def mycpu_write_def intr_get_def mycpu_def)

lemma on_hart_locked [simp]: "on_hart me (with_locks L s) = with_locks L (on_hart me s)"
  by (simp add: on_hart_def with_locks_cpu_proc)

lemma on_hart_proc [simp]: "procs (on_hart me s) = procs s" "ticks (on_hart me s) = ticks s"
  by (simp_all add: on_hart_def mycpu_write_def)

lemma put_proc_facts [simp]:
  "unlocked (put_proc p f s) = unlocked s" "mycpu (put_proc p f s) = mycpu s" "intr_get (put_proc p f s) = intr_get s"
  "procs (put_proc p f s) = (procs s)(p := f (procs s p))" "ticks (put_proc p f s) = ticks s"
  by (simp_all add: put_proc_def intr_get_def)

lemma set_cpu_proc_run: "set_cpu_proc me s = Ok () (on_hart me s)"
  by (simp add: set_cpu_proc_def modify_def on_hart_def)

lemma pset_run: "pset p f (with_locks L s) = Ok () (with_locks L (put_proc p f s))"
  by (simp add: pset_def modify_def put_proc_def with_locks_procs)

lemma intena_locked:
  assumes "noff (mycpu s) = 0"
  shows "mycpu_write (\<lambda>c. c\<lparr>intena := intr_get s\<rparr>) (with_locks L s) = with_locks L s"
proof -
  have swap: "c\<lparr>noff := n, intena := i\<rparr> = c\<lparr>intena := i, noff := n\<rparr>" for c :: cpu and i n
    by (rule cpu.equality) simp_all
  show ?thesis
    by (rule hart_state.equality) (use assms in \<open>simp_all add: swap mycpu_write_def with_locks_def mycpu_def\<close>)
qed

section \<open>Switching\<close>

text \<open>What the scheduler does on a machine with one hart while a process sleeps: it lets the process go, something else
  happens, and it switches back if the process has been made runnable.\<close>

definition while_away :: "('z proc_state_scheme, unit) prog \<Rightarrow> ('z proc_state_scheme, unit) prog" where
  "while_away other =
     bind (gets (\<lambda>s. cpu_proc (mycpu s))) (\<lambda>me. case me of None \<Rightarrow> hang | Some p \<Rightarrow>
     block
      [set_cpu_proc None,
       release (ProcLock p),
       other,
       acquire (ProcLock p),
       bind (pget p p_state) (\<lambda>st. if st = RUNNABLE then pset p (\<lambda>x. x\<lparr>p_state := RUNNING\<rparr>) else hang),
       set_cpu_proc (Some p)])"

text \<open>The scheduler picks process \<open>p\<close>, which makes a system call and yields.\<close>

definition run_as :: "nat \<Rightarrow> ('z proc_state_scheme, 'a) prog \<Rightarrow> ('z proc_state_scheme, unit) prog" where
  "run_as p m =
     block
      [acquire (ProcLock p),
       pset p (\<lambda>x. x\<lparr>p_state := RUNNING\<rparr>),
       set_cpu_proc (Some p),
       release (ProcLock p),
       bind m (\<lambda>_. ret ()),
       acquire (ProcLock p),
       pset p (\<lambda>x. x\<lparr>p_state := RUNNABLE\<rparr>),
       set_cpu_proc None,
       release (ProcLock p)]"

definition switched_to :: "nat \<Rightarrow> 'z proc_state_scheme \<Rightarrow> 'z proc_state_scheme" where
  "switched_to p s = on_hart (Some p) (put_proc p (\<lambda>x. x\<lparr>p_state := RUNNING\<rparr>) s)"

definition switched_from :: "nat \<Rightarrow> 'z proc_state_scheme \<Rightarrow> 'z proc_state_scheme" where
  "switched_from p s = on_hart None (put_proc p (\<lambda>x. x\<lparr>p_state := RUNNABLE\<rparr>) s)"

lemma quiet_unlocked: "quiet s \<longleftrightarrow> unlocked s \<and> noff (mycpu s) = 0 \<and> (\<exists>p < NPROC. cpu_proc (mycpu s) = Some p)"
  by (auto simp: quiet_def unlocked_def)

lemma switched_facts [simp]:
  "unlocked (switched_to p s) = unlocked s" "unlocked (switched_from p s) = unlocked s"
  "noff (mycpu (switched_to p s)) = noff (mycpu s)" "noff (mycpu (switched_from p s)) = noff (mycpu s)"
  "intr_get (switched_to p s) = intr_get s" "intr_get (switched_from p s) = intr_get s"
  "cpu_proc (mycpu (switched_to p s)) = Some p"
  "procs (switched_to p s) = (procs s)(p := (procs s p)\<lparr>p_state := RUNNING\<rparr>)"
  "procs (switched_from p s) = (procs s)(p := (procs s p)\<lparr>p_state := RUNNABLE\<rparr>)"
  by (simp_all add: switched_to_def switched_from_def) 

lemma switch_run:
  "seq (pset p (\<lambda>x. x\<lparr>p_state := RUNNING\<rparr>)) (seq (set_cpu_proc (Some p)) m) (with_locks L s) = m (with_locks L (switched_to p s))"
  "seq (pset p (\<lambda>x. x\<lparr>p_state := RUNNABLE\<rparr>)) (seq (set_cpu_proc None) m) (with_locks L s) = m (with_locks L (switched_from p s))"
  by (simp_all add: seq_def bind_def pset_run set_cpu_proc_run switched_to_def switched_from_def)

lemma run_as_run:
  assumes "unlocked s" "m (settled (switched_to p s)) = Ok r (settled t)" "unlocked t"
  shows "run_as p m (settled s) = Ok () (settled (switched_from p t))"
  unfolding run_as_def block.simps
  by (rule seq_step, rule acquire_run, rule assms(1), unfold switch_run)
    (rule seq_step, rule release_run1, use assms(1) in simp, rule seq_step, rule bind_step, rule assms(2), rule ret_run,
      rule seq_step, rule acquire_run, rule assms(3), unfold switch_run,
      rule seq_step, rule release_run1, use assms(3) in simp, rule ret_run)

lemma while_away_run:
  assumes "unlocked s" "cpu_proc (mycpu s) = Some p"
    and "other (settled (on_hart None s)) = Ok () (settled t)" "unlocked t" "p_state (procs t p) = RUNNABLE"
  shows "while_away other (with_locks {ProcLock p} s) = Ok () (with_locks {ProcLock p} (switched_to p t))"
proof -
  have c: "gets (\<lambda>s. cpu_proc (mycpu s)) (with_locks {ProcLock p} s) = Ok (Some p) (with_locks {ProcLock p} s)"
    by (simp add: gets_def assms(2))
  have 1: "set_cpu_proc None (with_locks {ProcLock p} s) = Ok () (with_locks {ProcLock p} (on_hart None s))"
    by (simp add: set_cpu_proc_run)
  have 2: "release (ProcLock p) (with_locks {ProcLock p} (on_hart None s)) = Ok () (settled (on_hart None s))"
    by (rule release_run1) (use assms(1) in simp)
  have 3: "bind (pget p p_state) (\<lambda>st. if st = RUNNABLE then pset p (\<lambda>x. x\<lparr>p_state := RUNNING\<rparr>) else hang) (with_locks {ProcLock p} t)
      = Ok () (with_locks {ProcLock p} (put_proc p (\<lambda>x. x\<lparr>p_state := RUNNING\<rparr>) t))"
    by (simp add: bind_def pget_def gets_def pset_run assms(5))
  have 4: "set_cpu_proc (Some p) (with_locks {ProcLock p} (put_proc p (\<lambda>x. x\<lparr>p_state := RUNNING\<rparr>) t))
      = Ok () (with_locks {ProcLock p} (switched_to p t))"
    by (simp add: set_cpu_proc_run switched_to_def)
  show ?thesis
    unfolding while_away_def block.simps
    by (rule bind_step, rule c, unfold option.case)
      (rule seq_step, rule 1, rule seq_step, rule 2, rule seq_step, rule assms(3), rule seq_step, rule acquire_run [OF assms(4)],
        rule seq_step, rule 3, rule seq_step, rule 4, rule ret_run)
qed

text \<open>\<open>sched\<close> around any switch that comes back to the process with its lock held.\<close>

lemma sched_run:
  assumes u: "unlocked s" and n: "noff (mycpu s) = 0" and me: "cpu_proc (mycpu s) = Some p" and st: "p_state (procs s p) \<noteq> RUNNING"
    and sw: "sw (with_locks {ProcLock p} s) = Ok () (with_locks {ProcLock p} t)"
    and same: "noff (mycpu t) = 0" "intr_get t = intr_get s"
  shows "sched sw (with_locks {ProcLock p} s) = Ok () (with_locks {ProcLock p} t)"
proof -
  let ?s = "with_locks {ProcLock p} s"
  have off: "\<not> intr_get ?s" "noff (mycpu ?s) = 1" "intena (mycpu ?s) = intr_get s"
    using n by (simp_all add: intr_get_bit with_locks_def mycpu_def)
  have last: "modify (mycpu_write (\<lambda>c. c\<lparr>intena := intr_get s\<rparr>)) (with_locks {ProcLock p} t) = Ok () (with_locks {ProcLock p} t)"
    using intena_locked [of t "{ProcLock p}"] same by (simp add: modify_def)
  show ?thesis
    unfolding sched_def
    by (rule bind_step, rule curproc_run [OF u me], simp)
      (simp add: seq_def bind_def gets_def off n whenM_def ret_def pget_def st sw last [unfolded modify_def] modify_def)
qed

definition asleep :: "nat \<Rightarrow> chan \<Rightarrow> 'z proc_state_scheme \<Rightarrow> 'z proc_state_scheme" where
  "asleep p ch s = put_proc p (\<lambda>x. x\<lparr>p_chan := ch, p_state := SLEEPING\<rparr>) s"

definition back_up :: "nat \<Rightarrow> 'z proc_state_scheme \<Rightarrow> 'z proc_state_scheme" where
  "back_up p t = put_proc p (\<lambda>x. x\<lparr>p_chan := NoChan\<rparr>) (switched_to p t)"

lemma asleep_facts [simp]:
  "unlocked (asleep p ch s) = unlocked s" "mycpu (asleep p ch s) = mycpu s" "intr_get (asleep p ch s) = intr_get s"
  "unlocked (back_up p s) = unlocked s"
  by (simp_all add: asleep_def back_up_def)

lemma sleep_away_run:
  assumes u: "unlocked s" and n: "noff (mycpu s) = 0" and me: "cpu_proc (mycpu s) = Some p" and lk: "lk \<noteq> ProcLock p"
    and other: "other (settled (on_hart None (asleep p ch s))) = Ok () (settled t)" "unlocked t" "p_state (procs t p) = RUNNABLE"
    and same: "noff (mycpu t) = 0" "intr_get t = intr_get s"
  shows "sleep (while_away other) ch lk (with_locks {lk} s) = Ok () (with_locks {lk} (back_up p t))"
proof -
  let ?d = "asleep p ch s"
  have i: "lock_idle l s" "intr_ok s" for l using u by (simp_all add: unlocked_def)
  have 1: "acquire (ProcLock p) (with_locks {lk} s) = Ok () (with_locks {ProcLock p, lk} s)"
    by (rule acquire_more) (use i lk in simp_all)
  have 2: "release lk (with_locks {ProcLock p, lk} s) = Ok () (with_locks {ProcLock p} s)"
    using release_one_of [of "{ProcLock p, lk}" lk s] i lk by (simp add: insert_Diff_if)
  have 3: "pset p (\<lambda>x. x\<lparr>p_chan := ch, p_state := SLEEPING\<rparr>) (with_locks {ProcLock p} s) = Ok () (with_locks {ProcLock p} ?d)"
    by (simp add: pset_run asleep_def)
  have 4: "sched (while_away other) (with_locks {ProcLock p} ?d) = Ok () (with_locks {ProcLock p} (switched_to p t))"
    by (rule sched_run) (use u n me while_away_run [of ?d p other t] other same in \<open>simp_all add: asleep_def\<close>)
  have 5: "pset p (\<lambda>x. x\<lparr>p_chan := NoChan\<rparr>) (with_locks {ProcLock p} (switched_to p t)) = Ok () (with_locks {ProcLock p} (back_up p t))"
    by (simp add: pset_run back_up_def)
  show ?thesis
    unfolding sleep_def block.simps
    by (rule bind_step, rule curproc_run [OF u me], simp)
      (rule seq_step, rule 1, rule seq_step, rule 2, rule seq_step, rule 3, rule seq_step, rule 4, rule seq_step, rule 5,
       rule seq_step, rule release_run1, use other(2) in simp, rule seq_step, rule acquire_run, use other(2) in simp, rule ret_run)
qed

end
