(* ===== verification/Trap.thy ===== *)
theory Trap
  imports Sysproc BlockCache Switch
begin

text \<open>
  \<open>kernel/trap.c\<close> and \<open>kernel/plic.c\<close>: interrupts, exceptions and system calls, and the return to user space.

  The interrupt controller is what the kernel sees of it: \<open>plic_pending\<close> lists what reads of the claim register
  will return, \<open>plic_log\<close> the writes to the controller by address. Returning to user space is the jump to
  \<open>userret\<close> in the trampoline; its two arguments are the result of \<open>usertrapret\<close>. The argument \<open>kind\<close> is the
  scheduler the kernel was compiled for.
\<close>

section \<open>State\<close>

record trap_state = file_state +
  plic_pending :: "uint list"
  plic_log :: "(uint64 \<times> uint) list"
  first :: bool

section \<open>plic.c\<close>

definition PLIC_SENABLE :: "nat \<Rightarrow> uint64" where
  "PLIC_SENABLE hart = PLIC + 0x2080 + word_of_nat hart * 0x100"

definition PLIC_SPRIORITY :: "nat \<Rightarrow> uint64" where
  "PLIC_SPRIORITY hart = PLIC + 0x201000 + word_of_nat hart * 0x2000"

definition PLIC_SCLAIM :: "nat \<Rightarrow> uint64" where
  "PLIC_SCLAIM hart = PLIC + 0x201004 + word_of_nat hart * 0x2000"

definition plic_write :: "uint64 \<Rightarrow> uint \<Rightarrow> ('z trap_state_scheme, unit) prog" where
  "plic_write a v = modify (\<lambda>s. s\<lparr>plic_log := plic_log s @ [(a, v)]\<rparr>)"

definition plicinit :: "('z trap_state_scheme, unit) prog" where
  "plicinit =
     block
      [plic_write (PLIC + ucast UART0_IRQ * 4) 1,
       plic_write (PLIC + ucast VIRTIO0_IRQ * 4) 1]"

definition plicinithart :: "('z trap_state_scheme, unit) prog" where
  "plicinithart =
     bind cpuid (\<lambda>hart. block
      [plic_write (PLIC_SENABLE hart) (push_bit (unat UART0_IRQ) 1 OR push_bit (unat VIRTIO0_IRQ) 1),
       plic_write (PLIC_SPRIORITY hart) 0])"

definition plic_claim :: "('z trap_state_scheme, uint) prog" where
  "plic_claim =
     bind (gets (\<lambda>s. case plic_pending s of [] \<Rightarrow> 0 | irq # _ \<Rightarrow> irq)) (\<lambda>irq.
     seq (modify (\<lambda>s. s\<lparr>plic_pending := tl (plic_pending s)\<rparr>)) (ret irq))"

definition plic_complete :: "uint \<Rightarrow> ('z trap_state_scheme, unit) prog" where
  "plic_complete irq = bind cpuid (\<lambda>hart. plic_write (PLIC_SCLAIM hart) irq)"

section \<open>trap.c\<close>

definition trapinit :: "('z hart_state_scheme, unit) prog" where
  "trapinit = initlock TicksLock ''time''"

definition trapinithart :: "('z proc_state_scheme, unit) prog" where
  "trapinithart = modify (\<lambda>s. s\<lparr>stvec := sym s ''kernelvec''\<rparr>)"

definition clockintr :: "('z proc_state_scheme, unit) prog" where
  "clockintr =
     block
      [acquire TicksLock,
       modify (\<lambda>s. s\<lparr>ticks := ticks s + 1\<rparr>),
       RunningTime,
       wakeup ChanTicks,
       release TicksLock]"

definition devintr :: "sched_kind \<Rightarrow> ('z trap_state_scheme, nat) prog" where
  "devintr kind =
     bind (gets scause) (\<lambda>c.
     if c AND 0x8000000000000000 \<noteq> 0 \<and> c AND 0xff = 9 then
       bind plic_claim (\<lambda>irq.
       seq (if irq = UART0_IRQ then uartintr kind
            else if irq = VIRTIO0_IRQ then virtio_disk_intr
            else whenM (irq \<noteq> 0) (printf (''unexpected interrupt irq=%d'' @ NL) [uarg irq]))
      (seq (whenM (irq \<noteq> 0) (plic_complete irq)) (ret 1)))
     else if c = 0x8000000000000001 then
       seq (bind cpuid (\<lambda>hart. whenM (hart = 0) clockintr))
      (seq (modify (\<lambda>s. s\<lparr>sip := sip s AND NOT 2\<rparr>)) (ret 2))
     else ret 0)"

text \<open>The end of a time slice under MLFQ: the process goes down one level (the last one is 4) and gets the
  slice of its level; \<open>timeinQ\<close> is unsigned, so \<open>timeinQ <= 0\<close> means that it is 0.\<close>

definition demoted :: "proc \<Rightarrow> proc" where
  "demoted x =
     (if p_level x < 4 then x\<lparr>p_level := p_level x + 1, p_timeinQ := push_bit (unat (p_level x + 1)) 1\<rparr>
      else if p_level x = 4 then x\<lparr>p_timeinQ := push_bit (unat (p_level x)) 1\<rparr>
      else x)"

definition mlfq_tick :: "('z proc_state_scheme, unit) prog \<Rightarrow> nat \<Rightarrow> ('z proc_state_scheme, unit) prog" where
  "mlfq_tick sw p =
     bind (pget p p_timeinQ) (\<lambda>left.
     whenM (left \<le> 0) (block [pset p demoted, yield sw]))"

definition usertrapret :: "('z proc_state_scheme, uint64 \<times> uint64) prog" where
  "usertrapret =
     bind curproc (\<lambda>p.
     seq (block
      [intr_off,
       modify (\<lambda>s. s\<lparr>stvec := TRAMPOLINE + (sym s ''uservec'' - sym s ''trampoline'')\<rparr>),
       bind (gets satp) (\<lambda>x. tf_write p TF_kernel_satp x),
       bind (pget p p_kstack) (\<lambda>k. tf_write p TF_kernel_sp (k + PGSIZE)),
       bind (gets (\<lambda>s. sym s ''usertrap'')) (\<lambda>u. tf_write p TF_kernel_trap u),
       bind (gets tp) (\<lambda>h. tf_write p TF_kernel_hartid (word_of_nat h)),
       modify (\<lambda>s. s\<lparr>sstatus := (sstatus s AND NOT SSTATUS_SPP) OR SSTATUS_SPIE\<rparr>),
       bind (tf_read p TF_epc) (\<lambda>pc. modify (\<lambda>s. s\<lparr>sepc := pc\<rparr>))])
    (bind (pget p p_pagetable) (\<lambda>pt. ret (TRAPFRAME, MAKE_SATP pt))))"

definition usertrap :: "('z trap_state_scheme) kenv \<Rightarrow> sched_kind \<Rightarrow> ('z trap_state_scheme, uint64 \<times> uint64) prog" where
  "usertrap E kind =
     seq (bind (gets sstatus) (\<lambda>x. whenM (x AND SSTATUS_SPP \<noteq> 0) (panic ''usertrap: not from user mode'')))
    (seq (modify (\<lambda>s. s\<lparr>stvec := sym s ''kernelvec''\<rparr>))
    (bind curproc (\<lambda>p.
     seq (bind (gets sepc) (\<lambda>pc. tf_write p TF_epc pc))
    (bind (gets scause) (\<lambda>c.
     bind (if c = 8 then
             seq (bind (pget p p_killed) (\<lambda>k. whenM (k \<noteq> 0) (exit E (-1))))
            (seq (bind (tf_read p TF_epc) (\<lambda>pc. tf_write p TF_epc (pc + 4)))
            (seq intr_on
            (seq (syscall E) (ret 0))))
           else bind (devintr kind) (\<lambda>d.
             if d \<noteq> 0 then ret d
             else bind (pget p p_pid) (\<lambda>pid. bind (gets (\<lambda>s. s)) (\<lambda>s.
               seq (printf (''usertrap(): unexpected scause %p pid=%d'' @ NL) [APtr (scause s), AInt pid])
              (seq (printf (''            sepc=%p stval=%p'' @ NL) [APtr (sepc s), APtr (stval s)])
              (seq (pset p (\<lambda>x. x\<lparr>p_killed := 1\<rparr>)) (ret 0))))))) (\<lambda>which_dev.
     seq (bind (pget p p_killed) (\<lambda>k. whenM (k \<noteq> 0) (exit E (-1))))
    (seq (whenM (kind = DEFAULT_SCHEDULER \<and> which_dev = 2) (yield (e_sw E)))
    (seq (whenM (kind = MLFQ \<and> which_dev = 2) (bind curproc (mlfq_tick (e_sw E))))
         usertrapret))))))))"

text \<open>\<open>myproc() != 0 && myproc()->state == RUNNING\<close>.\<close>

definition is_running :: "('z proc_state_scheme, bool) prog" where
  "is_running = bind myproc (\<lambda>p. case p of None \<Rightarrow> ret False | Some i \<Rightarrow> pget i (\<lambda>x. p_state x = RUNNING))"

definition kerneltrap :: "('z trap_state_scheme) kenv \<Rightarrow> sched_kind \<Rightarrow> ('z trap_state_scheme, unit) prog" where
  "kerneltrap E kind =
     bind (gets sepc) (\<lambda>pc.
     bind (gets sstatus) (\<lambda>st.
     bind (gets scause) (\<lambda>c.
     seq (whenM (st AND SSTATUS_SPP = 0) (panic ''kerneltrap: not from supervisor mode''))
    (seq (bind (gets intr_get) (\<lambda>on. whenM on (panic ''kerneltrap: interrupts enabled'')))
    (bind (devintr kind) (\<lambda>which_dev.
     block
      [whenM (which_dev = 0) (block
         [printf (''scause %p'' @ NL) [APtr c],
          bind (gets (\<lambda>s. s)) (\<lambda>s. printf (''sepc=%p stval=%p'' @ NL) [APtr (sepc s), APtr (stval s)]),
          panic ''kerneltrap'']),
       whenM (kind = DEFAULT_SCHEDULER \<and> which_dev = 2)
         (bind is_running (\<lambda>r. whenM r (yield (e_sw E)))),
       whenM (kind = MLFQ \<and> which_dev = 2)
         (bind is_running (\<lambda>r. whenM r (bind curproc (mlfq_tick (e_sw E))))),
       modify (\<lambda>s. s\<lparr>sepc := pc\<rparr>),
       modify (\<lambda>s. s\<lparr>sstatus := st\<rparr>)]))))))"

text \<open>The first code a new process runs, from \<open>kernel/proc.c\<close>.\<close>

definition forkret :: "('z trap_state_scheme) kenv \<Rightarrow> ('z trap_state_scheme, uint64 \<times> uint64) prog" where
  "forkret E =
     bind curproc (\<lambda>p.
     seq (release (ProcLock p))
    (seq (bind (gets first) (\<lambda>f. whenM f (block
            [modify (\<lambda>s. s\<lparr>first := False\<rparr>), fsinit E (uint ROOTDEV)])))
         usertrapret))"

section \<open>The clock\<close>

lemma with_locks_ticks: "(with_locks L s)\<lparr>ticks := n\<rparr> = with_locks L (s\<lparr>ticks := n\<rparr>)"
  by (rule proc_state.equality) (simp_all add: with_locks_def mycpu_def intr_get_def fun_eq_iff)

lemma only_procs_locked:
  assumes "only_procs (with_locks L s) P u" "finite L" "L \<noteq> {}" "intr_ok s"
  shows "u = with_locks L (s\<lparr>procs := P\<rparr>)"
proof (rule locked_settled)
  show "settled u = with_locks L (s\<lparr>procs := P\<rparr>)"
    using assms by (simp add: only_procs_def with_locks_procs)
qed (use assms in simp_all)

definition charged :: "(nat \<Rightarrow> proc) \<Rightarrow> nat \<Rightarrow> proc" where
  "charged P p = (if p < NPROC \<and> p_state (P p) = RUNNING then tick_proc (P p) else P p)"

definition clocked :: "'z proc_state_scheme \<Rightarrow> nat \<Rightarrow> proc" where
  "clocked s p = (if p < NPROC then awakened ChanTicks (cpu_proc (mycpu s)) (ticks s + 1) p (charged (procs s) p)
     else procs s p)"

lemma charged_eq:
  "(\<lambda>p. if p < NPROC then if p_state (P p) = RUNNING then tick_proc (P p) else P p else P p) = charged P"
  by (auto simp: charged_def)

lemma clocked_eq:
  "(\<lambda>p. if p < NPROC then awakened ChanTicks (cpu_proc (mycpu s)) (ticks s + 1) p (charged (procs s) p)
     else charged (procs s) p) = clocked s"
  by (auto simp: clocked_def charged_def)

lemma clockintr_run:
  assumes "all_idle s" "intr_ok s" "lock_idle TicksLock s"
  shows "clockintr s = Ok () (settled (s\<lparr>ticks := ticks s + 1, procs := clocked s\<rparr>))"
proof -
  let ?s1 = "s\<lparr>ticks := ticks s + 1\<rparr>"
  let ?L = "{TicksLock}"
  have ok1: "all_idle ?s1" "intr_ok ?s1" "cpu_proc (mycpu ?s1) = cpu_proc (mycpu s)" "lock_idle TicksLock ?s1"
    using assms by (simp_all add: all_idle_def intr_ok_def mycpu_def intr_get_def lock_idle_def)
  have a: "acquire TicksLock s = Ok () (with_locks ?L s)" by (rule acquire_first) (rule assms)
  have "all_idle (with_locks ?L ?s1)" "intr_ok (with_locks ?L ?s1)"
    using ok1 by (simp_all add: all_idle_def with_locks_lock_idle with_locks_intr)
  from RunningTime_wp [OF this] have "wp RunningTime (\<lambda>_. only_procs (with_locks ?L ?s1) (charged (procs s))) (with_locks ?L ?s1)"
    by (rule wp_mono) (simp add: with_locks_proc charged_eq del: NPROC_def)
  then obtain u where u: "RunningTime (with_locks ?L ?s1) = Ok () u"
    "only_procs (with_locks ?L ?s1) (charged (procs s)) u" by (auto simp: wp_iff)
  then have u': "u = with_locks ?L (?s1\<lparr>procs := charged (procs s)\<rparr>)"
    using only_procs_locked [OF u(2)] ok1 by simp
  let ?s2 = "?s1\<lparr>procs := charged (procs s)\<rparr>"
  have "others_idle (cpu_proc (mycpu u)) u" "intr_ok u"
    unfolding u' using ok1 by (simp_all add: others_idle_def all_idle_def with_locks_lock_idle with_locks_intr)
  note w = wakeup_wp [OF this, of ChanTicks]
  have "cpu_proc (mycpu u) = cpu_proc (mycpu s)" "ticks u = ticks s + 1" "procs u = charged (procs s)"
    unfolding u' using ok1(3) by (simp_all add: with_locks_proc with_locks_cpu_proc)
  note w [unfolded this clocked_eq, unfolded u']
  then have "wp (wakeup ChanTicks) (\<lambda>_. only_procs (with_locks ?L ?s2) (clocked s)) u"
    unfolding u' .
  then obtain v where v: "wakeup ChanTicks u = Ok () v" "only_procs (with_locks ?L ?s2) (clocked s) v"
    by (auto simp: wp_iff)
  then have v': "v = with_locks ?L (?s2\<lparr>procs := clocked s\<rparr>)"
    using only_procs_locked [OF v(2)] ok1 by simp
  have "release TicksLock v = Ok () (settled (?s1\<lparr>procs := clocked s\<rparr>))"
    unfolding v' using release_one_of [of ?L TicksLock "?s1\<lparr>procs := clocked s\<rparr>"] ok1 by simp
  then show ?thesis
    using a u(1) v(1) by (simp add: clockintr_def seq_def bind_def modify_def ret_def with_locks_ticks with_locks_proc)
qed


section \<open>Time slices under MLFQ\<close>

text \<open>What a timer interrupt does to the level of the running process and to what is left of its slice.\<close>

definition slice_step :: "uint \<times> uint \<Rightarrow> uint \<times> uint" where
  "slice_step = (\<lambda>(l, t).
     if t - 1 \<le> 0 then (if l < 4 then (l + 1, push_bit (unat (l + 1)) 1) else if l = 4 then (l, push_bit (unat l) 1) else (l, t - 1))
     else (l, t - 1))"

definition slices :: "(uint \<times> uint) list" where
  "slices = [(0, 1), (1, 2), (1, 1), (2, 4), (2, 3), (2, 2), (2, 1),
     (3, 8), (3, 7), (3, 6), (3, 5), (3, 4), (3, 3), (3, 2), (3, 1)]"

lemma length_slices: "length slices = 15"
  by (simp add: slices_def)

lemma slices_step: "n < 14 \<Longrightarrow> slice_step (slices ! n) = slices ! Suc n"
proof -
  have "map slice_step (butlast slices) = tl slices" by code_simp
  then have "map slice_step (butlast slices) ! n = tl slices ! n" by simp
  then show "n < 14 \<Longrightarrow> slice_step (slices ! n) = slices ! Suc n"
    by (simp add: length_slices nth_butlast nth_tl)
qed

lemma slices_before_last: "n < 15 \<Longrightarrow> (slice_step ^^ n) (0, 1) = slices ! n"
  by (induction n) (simp_all add: slices_step, simp add: slices_def)

lemma slices_bounds: "n < 15 \<Longrightarrow> 1 \<le> snd (slices ! n) \<and> snd (slices ! n) \<le> 16"
proof -
  have "\<forall>p \<in> set slices. 1 \<le> snd p \<and> snd p \<le> 16" by code_simp
  moreover have "n < 15 \<Longrightarrow> slices ! n \<in> set slices" by (simp add: length_slices)
  ultimately show "n < 15 \<Longrightarrow> 1 \<le> snd (slices ! n) \<and> snd (slices ! n) \<le> 16" by blast
qed

lemma slices_level:
  assumes "j < 4" "2 ^ j - 1 \<le> n" "n < 2 ^ Suc j - 1"
  shows "fst (slices ! n) = word_of_nat j"
proof -
  consider "j = 0" "n = 0" | "j = 1" "n \<in> {1, 2}" | "j = 2" "n \<in> {3..6}" | "j = 3" "n \<in> {7..14}"
    using assms by (fastforce simp: eval_nat_numeral less_Suc_eq)
  then show ?thesis
    by cases (auto simp: slices_def atLeastAtMost_iff eval_nat_numeral le_Suc_eq)
qed

lemma slices_last: "fst ((slice_step ^^ (15 + k)) (0, 1)) = 4 \<and> 1 \<le> snd ((slice_step ^^ (15 + k)) (0, 1))
   \<and> snd ((slice_step ^^ (15 + k)) (0, 1)) \<le> 16"
proof (induction k)
  case 0
  show ?case by code_simp
next
  case (Suc k)
  obtain l t where lt: "(slice_step ^^ (15 + k)) (0, 1) = (l, t)" by force
  with Suc.IH have h: "l = 4" "1 \<le> t" "t \<le> 16" by simp_all
  have "15 + Suc k = Suc (15 + k)" by simp
  then have "(slice_step ^^ (15 + Suc k)) (0, 1) = slice_step (l, t)"
    by (simp only: funpow.simps o_apply lt)
  moreover have "t - 1 \<le> 16" "t - 1 \<noteq> 0 \<longrightarrow> 1 \<le> t - 1" using h(2,3) by uint_arith+
  ultimately show ?case using h(1) by (simp add: slice_step_def)
qed

section \<open>The timer interrupt of a running process\<close>

text \<open>Hart 0 runs process \<open>p\<close> in user mode: no lock is held there, and the process has not been killed.\<close>

definition user_on :: "nat \<Rightarrow> 'z proc_state_scheme \<Rightarrow> bool" where
  "user_on p s \<longleftrightarrow> unlocked s \<and> noff (mycpu s) = 0 \<and> cpu_proc (mycpu s) = Some p \<and> p < NPROC \<and> tp s = 0
     \<and> p_state (procs s p) = RUNNING \<and> p_killed (procs s p) = 0"

definition slice_of :: "nat \<Rightarrow> 'z proc_state_scheme \<Rightarrow> uint \<times> uint" where
  "slice_of p s = (p_level (procs s p), p_timeinQ (procs s p))"

text \<open>What the switch to the scheduler and back is assumed to do for a process that keeps running: when the
  process has yielded, hart 0 comes back to it, and meanwhile nobody has killed it or changed its level or its slice.\<close>

definition resumes :: "nat \<Rightarrow> ('z proc_state_scheme, unit) prog \<Rightarrow> bool" where
  "resumes p sw \<longleftrightarrow> (\<forall>t. unlocked t \<and> noff (mycpu t) = 0 \<and> cpu_proc (mycpu t) = Some p \<and> p < NPROC \<and> tp t = 0
       \<and> p_state (procs t p) = RUNNABLE \<and> p_killed (procs t p) = 0 \<longrightarrow>
     (\<exists>u. sw (with_locks {ProcLock p} t) = Ok () (with_locks {ProcLock p} u) \<and> user_on p u \<and> intr_get u = intr_get t
       \<and> slice_of p u = slice_of p t))"

text \<open>A timer interrupt in user mode, as the hardware and \<open>uservec\<close> deliver it to \<open>usertrap\<close>.\<close>

definition timer_trap :: "('z trap_state_scheme) kenv \<Rightarrow> uint64 \<Rightarrow> ('z trap_state_scheme, unit) prog" where
  "timer_trap E pc =
     seq (modify (\<lambda>s. s\<lparr>scause := 0x8000000000000001, sepc := pc, sstatus := sstatus s AND NOT (SSTATUS_SPP OR SSTATUS_SIE)\<rparr>))
    (bind (usertrap E MLFQ) (\<lambda>_. ret ()))"

lemma user_on_regs [simp]:
  "user_on p (s\<lparr>scause := a\<rparr>) = user_on p s" "user_on p (s\<lparr>sepc := a\<rparr>) = user_on p s" "user_on p (s\<lparr>sstatus := a\<rparr>) = user_on p s"
  "user_on p (s\<lparr>stvec := a\<rparr>) = user_on p s" "user_on p (s\<lparr>sip := a\<rparr>) = user_on p s" "user_on p (s\<lparr>mem := m\<rparr>) = user_on p s"
  by (auto simp: user_on_def unlocked_def lock_idle_def intr_ok_def mycpu_def intr_get_def)

lemma slice_regs [simp]:
  "slice_of p (s\<lparr>scause := a\<rparr>) = slice_of p s" "slice_of p (s\<lparr>sepc := a\<rparr>) = slice_of p s" "slice_of p (s\<lparr>sstatus := a\<rparr>) = slice_of p s"
  "slice_of p (s\<lparr>stvec := a\<rparr>) = slice_of p s" "slice_of p (s\<lparr>sip := a\<rparr>) = slice_of p s" "slice_of p (s\<lparr>mem := m\<rparr>) = slice_of p s"
  by (simp_all add: slice_of_def)

lemma user_on_settled [simp]: "user_on p (settled s) = user_on p s" "slice_of p (settled s) = slice_of p s"
  by (simp_all add: user_on_def slice_of_def settled_def) (auto simp: mycpu_def unlocked_def lock_idle_def intr_ok_def intr_get_def)

lemma settled_traps [simp]: "scause (settled s) = scause s" "sepc (settled s) = sepc s"
  by (simp_all add: settled_def)

lemma wp_curproc_user: "user_on p s \<Longrightarrow> wp curproc Q s = Q p (settled s)"
  by (rule wp_curproc) (simp_all add: user_on_def unlocked_def)

lemma clockintr_user:
  assumes "user_on p s"
  shows "wp clockintr (\<lambda>_ t. user_on p t \<and> slice_of p t = (fst (slice_of p s), snd (slice_of p s) - 1)) s"
proof -
  have h: "all_idle s" "intr_ok s" "lock_idle TicksLock s" using assms by (simp_all add: user_on_def unlocked_def all_idle_def)
  have c: "clocked s p = tick_proc (procs s p)"
    using assms by (simp add: user_on_def clocked_def charged_def awakened_def tick_proc_def)
  have "user_on p (s\<lparr>ticks := ticks s + 1, procs := clocked s\<rparr>)"
    using assms c by (auto simp: user_on_def unlocked_def lock_idle_def intr_ok_def mycpu_def intr_get_def tick_proc_def)
  then show ?thesis
    unfolding wp_Ok [where m = clockintr and s = s, OF clockintr_run [OF h]] user_on_settled by (simp add: slice_of_def c tick_proc_def)
qed

lemma devintr_timer:
  assumes "user_on p s" "scause s = 0x8000000000000001"
  shows "wp (devintr kind) (\<lambda>r t. r = 2 \<and> user_on p t \<and> slice_of p t = (fst (slice_of p s), snd (slice_of p s) - 1)) s"
proof -
  have "tp s = 0" using assms(1) by (simp add: user_on_def)
  with assms(2) show ?thesis
    by (simp add: devintr_def wp_bind wp_seq wp_gets wp_if wp_whenM wp_modify wp_ret cpuid_def)
      (rule wp_mono [OF clockintr_user [OF assms(1)]], simp)
qed

lemma yield_user:
  assumes "user_on p s" "resumes p sw"
  shows "wp (yield sw) (\<lambda>_ t. user_on p t \<and> slice_of p t = slice_of p s) s"
proof -
  have u: "unlocked s" "noff (mycpu s) = 0" "cpu_proc (mycpu s) = Some p" "p < NPROC" "tp s = 0" using assms(1) by (simp_all add: user_on_def)
  let ?t = "put_proc p (\<lambda>x. x\<lparr>p_sched2 := ticks s\<rparr>) (put_proc p (\<lambda>x. x\<lparr>p_state := RUNNABLE\<rparr>) s)"
  have t: "unlocked ?t" "noff (mycpu ?t) = 0" "cpu_proc (mycpu ?t) = Some p" "tp ?t = 0" "p_state (procs ?t p) = RUNNABLE"
    "p_killed (procs ?t p) = 0" "slice_of p ?t = slice_of p s" "intr_get ?t = intr_get s"
    using assms(1) u by (simp_all add: user_on_def slice_of_def) (simp add: put_proc_def)
  obtain v where v: "sw (with_locks {ProcLock p} ?t) = Ok () (with_locks {ProcLock p} v)" "user_on p v" "intr_get v = intr_get ?t"
      "slice_of p v = slice_of p ?t"
    using assms(2) t u(4) unfolding resumes_def by metis
  have v': "unlocked v" "noff (mycpu v) = 0" using v(2) by (simp_all add: user_on_def)
  have 1: "curproc s = Ok p (settled s)"
    using wp_curproc_user [OF assms(1), of "\<lambda>x t. x = p \<and> t = settled s"] by (simp add: wp_iff)
  have 2: "bind (gets ticks) (\<lambda>now. pset p (\<lambda>x. x\<lparr>p_sched2 := now\<rparr>)) (with_locks {ProcLock p} (put_proc p (\<lambda>x. x\<lparr>p_state := RUNNABLE\<rparr>) s))
      = Ok () (with_locks {ProcLock p} ?t)"
    by (simp add: bind_def gets_def pset_run)
  have 3: "sched sw (with_locks {ProcLock p} ?t) = Ok () (with_locks {ProcLock p} v)"
    by (rule sched_run) (use t v v' in simp_all)
  have "yield sw s = Ok () (settled v)"
    unfolding yield_def block.simps
    by (rule bind_step, rule 1, rule seq_step, rule acquire_run [OF u(1)], rule seq_step, rule pset_run, rule seq_step, rule 2,
        rule seq_step, rule 3, rule seq_step, rule release_run1 [OF v'(1)], rule ret_run)
  then show ?thesis using v(2,4) t(7) by (simp add: wp_Ok)
qed

lemma mlfq_tick_user:
  assumes "user_on p s" "resumes p sw"
  shows "wp (mlfq_tick sw p) (\<lambda>_ t. user_on p t \<and> slice_of p t =
     (let (l, k) = slice_of p s in if k \<le> 0 then (if l < 4 then (l + 1, push_bit (unat (l + 1)) 1)
        else if l = 4 then (l, push_bit (unat l) 1) else (l, k)) else (l, k))) s"
proof (cases "p_timeinQ (procs s p) \<le> 0")
  case True
  let ?t = "s\<lparr>procs := (procs s)(p := demoted (procs s p))\<rparr>"
  have "user_on p ?t"
    using assms(1) by (auto simp: user_on_def unlocked_def lock_idle_def intr_ok_def mycpu_def intr_get_def demoted_def)
  from yield_user [OF this assms(2)] True show ?thesis
    by (simp add: mlfq_tick_def wp_bind wp_pget wp_whenM wp_seq wp_ret wp_pset)
      (erule wp_mono, simp add: slice_of_def demoted_def)
next
  case False
  then show ?thesis
    using assms(1) by (simp add: mlfq_tick_def wp_bind wp_pget wp_whenM slice_of_def)
qed

lemma usertrapret_user:
  assumes "user_on p s"
  shows "wp usertrapret (\<lambda>_ t. user_on p t \<and> slice_of p t = slice_of p s) s"
  using assms
  by (simp add: usertrapret_def wp_bind wp_seq wp_curproc_user wp_block_Cons wp_block_Nil wp_gets wp_modify wp_pget wp_ret
      intr_off_def tf_write_def tf_read_def)

text \<open>One interrupt from user space: the process is charged, moved down if its slice is used up, and back in user mode.\<close>

lemma timer_trap_user:
  assumes "user_on p s" "resumes p (e_sw E)"
  shows "wp (timer_trap E pc) (\<lambda>_ t. user_on p t \<and> slice_of p t = slice_step (slice_of p s)) s"
proof -
  have spp: "(x AND NOT (SSTATUS_SPP OR SSTATUS_SIE)) AND SSTATUS_SPP = 0" for x :: uint64
    by (intro bit_word_eqI) (auto simp: bit_simps)
  have rest: "wp (seq (bind (pget p p_killed) (\<lambda>k. whenM (k \<noteq> 0) (exit E (-1))))
      (seq (whenM (MLFQ = DEFAULT_SCHEDULER \<and> 2 = (2 :: nat)) (yield (e_sw E)))
      (seq (whenM (MLFQ = MLFQ \<and> 2 = (2 :: nat)) (bind curproc (mlfq_tick (e_sw E)))) usertrapret)))
      (\<lambda>_ v. user_on p v \<and> slice_of p v = slice_step (slice_of p s)) t"
    if t: "user_on p t" "slice_of p t = (fst (slice_of p s), snd (slice_of p s) - 1)" for t
  proof -
    have k: "p_killed (procs t p) = 0" using t(1) by (simp add: user_on_def)
    have "user_on p (settled t)" using t(1) by simp
    from mlfq_tick_user [OF this assms(2)]
    have "wp (mlfq_tick (e_sw E) p) (\<lambda>_ u. user_on p u \<and> slice_of p u = slice_step (slice_of p s)) (settled t)"
      by (rule wp_mono) (simp add: t(2) slice_step_def split_beta Let_def)
    then have "wp (mlfq_tick (e_sw E) p) (\<lambda>_. wp usertrapret (\<lambda>_ v. user_on p v \<and> slice_of p v = slice_step (slice_of p s))) (settled t)"
      by (rule wp_mono) (clarify, rule wp_mono [OF usertrapret_user], auto)
    with k t(1) show ?thesis by (simp add: wp_seq wp_bind wp_pget wp_whenM wp_curproc_user)
  qed
  let ?Q = "\<lambda>_ v. user_on p v \<and> slice_of p v = slice_step (slice_of p s)"
  have dev: "wp (devintr MLFQ) (\<lambda>d. wp (if d \<noteq> 0 then ret d else m) (\<lambda>which_dev.
      wp (seq (bind (pget p p_killed) (\<lambda>k. whenM (k \<noteq> 0) (exit E (-1))))
        (seq (whenM (MLFQ = DEFAULT_SCHEDULER \<and> which_dev = 2) (yield (e_sw E)))
        (seq (whenM (MLFQ = MLFQ \<and> which_dev = 2) (bind curproc (mlfq_tick (e_sw E)))) usertrapret))) ?Q)) t"
    if "user_on p t" "scause t = 0x8000000000000001" "slice_of p t = slice_of p s" for m t
  proof (rule wp_mono [OF devintr_timer [OF that(1,2), of MLFQ]])
    fix d :: nat and u :: "'a trap_state_scheme" assume u: "d = 2 \<and> user_on p u \<and> slice_of p u = (fst (slice_of p t), snd (slice_of p t) - 1)"
    then have "d = 2" ..
    have "wp (seq (bind (pget p p_killed) (\<lambda>k. whenM (k \<noteq> 0) (exit E (-1))))
        (seq (whenM (MLFQ = DEFAULT_SCHEDULER \<and> d = 2) (yield (e_sw E)))
        (seq (whenM (MLFQ = MLFQ \<and> d = 2) (bind curproc (mlfq_tick (e_sw E)))) usertrapret))) ?Q u"
      unfolding \<open>d = 2\<close> by (rule rest) (use u that(3) in simp_all)
    moreover have "d \<noteq> 0" using \<open>d = 2\<close> by simp
    ultimately show "wp (if d \<noteq> 0 then ret d else m) (\<lambda>which_dev.
      wp (seq (bind (pget p p_killed) (\<lambda>k. whenM (k \<noteq> 0) (exit E (-1))))
        (seq (whenM (MLFQ = DEFAULT_SCHEDULER \<and> which_dev = 2) (yield (e_sw E)))
        (seq (whenM (MLFQ = MLFQ \<and> which_dev = 2) (bind curproc (mlfq_tick (e_sw E)))) usertrapret))) ?Q) u"
      by (simp only: if_True not_False_eq_True wp_ret)
  qed
  have head: "wp (seq (modify (\<lambda>s. s\<lparr>scause := 0x8000000000000001, sepc := pc, sstatus := sstatus s AND NOT (SSTATUS_SPP OR SSTATUS_SIE)\<rparr>))
      (bind (seq (bind (gets sstatus) (\<lambda>x. whenM (x AND SSTATUS_SPP \<noteq> 0) (panic ''usertrap: not from user mode'')))
        (seq (modify (\<lambda>s. s\<lparr>stvec := sym s ''kernelvec''\<rparr>))
        (bind curproc (\<lambda>p.
         seq (bind (gets sepc) (\<lambda>pc. tf_write p TF_epc pc))
        (bind (gets scause) (\<lambda>c. bind (if c = 8 then X p else bind (devintr MLFQ) (\<lambda>d. if d \<noteq> 0 then ret d else M p)) (K p))))))) (\<lambda>_. ret ()))) ?Q s"
    if "\<And>t. user_on p t \<Longrightarrow> scause t = 0x8000000000000001 \<Longrightarrow> slice_of p t = slice_of p s \<Longrightarrow>
       wp (devintr MLFQ) (\<lambda>d. wp (if d \<noteq> 0 then ret d else M p) (\<lambda>w. wp (K p w) ?Q)) t"
    for X and M :: "nat \<Rightarrow> ('a trap_state_scheme, nat) prog" and K :: "nat \<Rightarrow> nat \<Rightarrow> ('a trap_state_scheme, uint64 \<times> uint64) prog"
    by (simp add: wp_seq wp_bind wp_modify wp_gets wp_whenM wp_ret spp spp [simplified] wp_curproc_user [where p = p] assms(1) tf_write_def del: neq0_conv)
      (rule that, simp_all add: assms(1))
  show ?thesis unfolding timer_trap_def usertrap_def by (rule head) (rule dev)
qed

lemma timer_traps_user:
  assumes "user_on p s" "resumes p (e_sw E)"
  shows "wp (forM xs (timer_trap E)) (\<lambda>_ t. user_on p t \<and> slice_of p t = (slice_step ^^ length xs) (slice_of p s)) s"
  using assms(1)
proof (induction xs arbitrary: s)
  case Nil
  then show ?case by (simp add: wp_ret)
next
  case (Cons pc xs)
  show ?case
    unfolding forM.simps wp_seq
    by (rule wp_mono [OF timer_trap_user [OF Cons.prems assms(2)]], rule wp_mono [OF Cons.IH])
      (simp_all add: funpow_swap1)
qed

lemma resumes_alone: "resumes p (while_away (ret ()))"
proof -
  have "\<exists>u. while_away (ret ()) (with_locks {ProcLock p} t) = Ok () (with_locks {ProcLock p} u) \<and> user_on p u
      \<and> intr_get u = intr_get t \<and> slice_of p u = slice_of p t"
    if t: "unlocked t" "noff (mycpu t) = 0" "cpu_proc (mycpu t) = Some p" "p < NPROC" "tp t = 0"
      "p_state (procs t p) = RUNNABLE" "p_killed (procs t p) = 0" for t :: "'a proc_state_scheme"
  proof -
    let ?u = "switched_to p (on_hart None t)"
    have "while_away (ret ()) (with_locks {ProcLock p} t) = Ok () (with_locks {ProcLock p} ?u)"
      by (rule while_away_run) (use t in \<open>simp_all add: ret_def\<close>)
    moreover have "tp ?u = 0" using t(5) by (simp add: switched_to_def on_hart_def mycpu_write_def put_proc_def)
    ultimately show ?thesis using t by (intro exI [of _ ?u]) (simp add: user_on_def slice_of_def)
  qed
  then show ?thesis by (auto simp: resumes_def)
qed

section \<open>Properties\<close>

text \<open>C33: a timer interrupt on hart 0 (\<open>clockintr\<close>) always returns, with the kernel's locks and the interrupt
  state as they were, having done exactly this: the tick count is one more (modulo $2^{32}$); every running process
  is charged one tick (its run time, its slice, the counter of its queue); every other process that sleeps for the clock
  is runnable, stamped with the new tick; nothing else of the kernel has changed.\<close>

theorem clockintr_exact:
  assumes "all_idle s" "intr_ok s" "lock_idle TicksLock s"
  shows "\<exists>P. clockintr s = Ok () (settled (s\<lparr>ticks := ticks s + 1, procs := P\<rparr>)) \<and>
    (\<forall>p \<ge> NPROC. P p = procs s p) \<and>
    (\<forall>p < NPROC. P p =
       (if p_state (procs s p) = RUNNING then tick_proc (procs s p)
        else if cpu_proc (mycpu s) \<noteq> Some p \<and> p_state (procs s p) = SLEEPING \<and> p_chan (procs s p) = ChanTicks
        then (procs s p)\<lparr>p_state := RUNNABLE, p_sched2 := ticks s + 1\<rparr> else procs s p))"
  by (rule exI [where x = "clocked s"])
    (simp add: clockintr_run [OF assms] clocked_def charged_def awakened_def tick_proc_def del: NPROC_def)

theorem clockintr_exact_witness:
  "\<exists>t. clockintr (machine0 ()) = Ok () t \<and> ticks t = 78 \<and> p_rtime (procs t 0) = 1
     \<and> p_state (procs t 1) = RUNNABLE \<and> p_sched2 (procs t 1) = 78"
proof -
  have "all_idle (machine0 ())" by (simp add: all_idle_def)
  then obtain P where P: "clockintr (machine0 ()) = Ok () (settled ((machine0 ())\<lparr>ticks := 78, procs := P\<rparr>))"
    "\<forall>p < NPROC. P p =
       (if p_state (table0 p) = RUNNING then tick_proc (table0 p)
        else if Some 0 \<noteq> Some p \<and> p_state (table0 p) = SLEEPING \<and> p_chan (table0 p) = ChanTicks
        then (table0 p)\<lparr>p_state := RUNNABLE, p_sched2 := 78\<rparr> else table0 p)"
    using clockintr_exact [of "machine0 ()"] by auto
  have "P 0 = tick_proc (table0 0)" "P 1 = (table0 1)\<lparr>p_state := RUNNABLE, p_sched2 := 78\<rparr>"
    using P(2) by (simp_all add: table0_def)
  with P(1) show ?thesis by (simp add: settled_def tick_proc_def table0_def blank_proc_def)
qed

text \<open>C34: under MLFQ a process that keeps running falls through the queues at the pace the code sets. Hart 0 runs it
  in user mode and takes one timer interrupt after another through \<open>usertrap\<close>, and whenever the process yields it is
  resumed with its level and slice as they were (\<open>resumes\<close>: no ageing and no \<open>kill\<close> meanwhile). Starting in queue 0
  with a slice of one tick, it spends \<open>2 ^ j\<close> ticks in queue \<open>j\<close> for \<open>j < 4\<close>, is in the last queue from the
  15th tick on, and after every interrupt has a slice of 1 to 16 ticks left.\<close>

theorem mlfq_descends:
  assumes "user_on p s" "p_level (procs s p) = 0" "p_timeinQ (procs s p) = 1" "resumes p (e_sw E)"
  shows "wp (forM xs (timer_trap E)) (\<lambda>_ t. user_on p t
    \<and> (\<forall>j < 4. 2 ^ j - 1 \<le> length xs \<and> length xs < 2 ^ Suc j - 1 \<longrightarrow> p_level (procs t p) = word_of_nat j)
    \<and> (15 \<le> length xs \<longrightarrow> p_level (procs t p) = 4)
    \<and> 1 \<le> p_timeinQ (procs t p) \<and> p_timeinQ (procs t p) \<le> 16) s"
proof (rule wp_mono [OF timer_traps_user [OF assms(1,4)]])
  fix t
  let ?n = "length xs"
  assume "user_on p t \<and> slice_of p t = (slice_step ^^ ?n) (slice_of p s)"
  then have u: "user_on p t" and sl: "(p_level (procs t p), p_timeinQ (procs t p)) = (slice_step ^^ ?n) (0, 1)"
    by (simp_all add: slice_of_def assms(2,3))
  show "user_on p t \<and> (\<forall>j < 4. 2 ^ j - 1 \<le> ?n \<and> ?n < 2 ^ Suc j - 1 \<longrightarrow> p_level (procs t p) = word_of_nat j)
    \<and> (15 \<le> ?n \<longrightarrow> p_level (procs t p) = 4)
    \<and> 1 \<le> p_timeinQ (procs t p) \<and> p_timeinQ (procs t p) \<le> 16"
  proof (cases "?n < 15")
    case True
    then have "p_level (procs t p) = fst (slices ! ?n)" "p_timeinQ (procs t p) = snd (slices ! ?n)"
      using sl by (metis slices_before_last fst_conv, metis slices_before_last snd_conv)
    then show ?thesis using True u slices_bounds slices_level by simp
  next
    case False
    have "2 ^ Suc j \<le> (2::nat) ^ 4" if "j < 4" for j using that by (intro power_increasing) auto
    then have j: "\<not> (j < 4 \<and> ?n < 2 ^ Suc j - 1)" for j using False by fastforce
    have "15 + (?n - 15) = ?n" using False by simp
    then show ?thesis using slices_last [of "?n - 15"] sl u j by (metis fst_conv snd_conv)
  qed
qed

text \<open>Process 0 alone on the machine; when it yields, the scheduler comes straight back to it.\<close>

definition mlfq0 :: trap_state where
  "mlfq0 = disk0 buf0 (\<lambda>_. blank) \<lparr>log = \<lparr>lg_start = 2, lg_size = 30, lg_outstanding = 0, lg_committing = False,
      lg_dev = 1, lh_n = 0, lh_block = (\<lambda>_. 0)\<rparr>, sb = sb_of_bytes [], inodes = (\<lambda>_. \<lparr>i_dev = 0, i_inum = 0, i_ref = 0, i_valid = False,
      i_type = 0, i_major = 0, i_minor = 0, i_nlink = 0, i_size = 0, i_addrs = (\<lambda>_. 0)\<rparr>),
      files = (\<lambda>_. \<lparr>f_type = FD_NONE, f_ref = 0, f_readable = False, f_writable = False, f_pipe = 0, f_ip = None, f_off = 0, f_major = 0\<rparr>),
      pipes = (\<lambda>_. \<lparr>pi_data = (\<lambda>_. 0), pi_nread = 0, pi_nwrite = 0, pi_readopen = False, pi_writeopen = False\<rparr>),
      plic_pending = [], plic_log = [], first = False\<rparr>
    \<lparr>procs := (\<lambda>_. blank_proc)(0 := blank_proc\<lparr>p_state := RUNNING, p_timeinQ := 1\<rparr>)\<rparr>"

theorem mlfq_descends_witness:
  "wp (forM (replicate 7 0x1000) (timer_trap \<lparr>e_sw = while_away (ret ()), e_rw = (\<lambda>_ _. ret ())\<rparr>)) (\<lambda>_ t. p_level (procs t 0) = 3) mlfq0
   \<and> wp (forM (replicate 100 0x1000) (timer_trap \<lparr>e_sw = while_away (ret ()), e_rw = (\<lambda>_ _. ret ())\<rparr>)) (\<lambda>_ t. p_level (procs t 0) = 4) mlfq0"
proof -
  let ?E = "\<lparr>e_sw = while_away (ret ()), e_rw = (\<lambda>_ _. ret ())\<rparr> :: trap_state kenv"
  have m: "user_on 0 mlfq0" "p_level (procs mlfq0 0) = 0" "p_timeinQ (procs mlfq0 0) = 1" "resumes 0 (e_sw ?E)"
    by (simp_all add: user_on_def mlfq0_def resumes_alone)
      (simp_all add: blank_proc_def disk0_def dev0_def machine0_def kmem0_def hart0_def cpu0_def mycpu_def lock_idle_def intr_ok_def unlocked_def)
  have "wp (forM (replicate 7 0x1000) (timer_trap ?E)) (\<lambda>_ t. p_level (procs t 0) = 3) mlfq0"
    by (rule wp_mono [OF mlfq_descends [OF m]]) (auto dest: spec [of _ 3])
  moreover have "wp (forM (replicate 100 0x1000) (timer_trap ?E)) (\<lambda>_ t. p_level (procs t 0) = 4) mlfq0"
    by (rule wp_mono [OF mlfq_descends [OF m]]) simp
  ultimately show ?thesis ..
qed

end
