(* ===== verification/Boot.thy ===== *)
theory Boot
  imports Trap
begin

text \<open>
  \<open>kernel/start.c\<close> and \<open>kernel/main.c\<close>: from machine mode to the scheduler. The machine-mode registers are
  fields of the state; the timer is the register pair of the CLINT.
\<close>

section \<open>State\<close>

record boot_state = trap_state +
  mstatus :: uint64
  mepc :: uint64
  medeleg :: uint64
  mideleg :: uint64
  sie :: uint64
  mie :: uint64
  mtvec :: uint64
  mscratch :: uint64
  pmpaddr0 :: uint64
  pmpcfg0 :: uint64
  mhartid :: nat
  clint_mtime :: uint64
  clint_mtimecmp :: "nat \<Rightarrow> uint64"
  timer_scratch :: "nat \<Rightarrow> nat \<Rightarrow> uint64"
  started :: bool

section \<open>start.c\<close>

definition MSTATUS_MPP_MASK :: uint64 where [simp]: "MSTATUS_MPP_MASK = 0x1800"
definition MSTATUS_MPP_S :: uint64 where [simp]: "MSTATUS_MPP_S = 0x800"
definition MSTATUS_MIE :: uint64 where [simp]: "MSTATUS_MIE = 8"
definition SIE_SEIE :: uint64 where [simp]: "SIE_SEIE = 0x200"
definition SIE_STIE :: uint64 where [simp]: "SIE_STIE = 0x20"
definition SIE_SSIE :: uint64 where [simp]: "SIE_SSIE = 2"
definition MIE_MTIE :: uint64 where [simp]: "MIE_MTIE = 0x80"

definition CLINT_MTIMECMP :: "nat \<Rightarrow> uint64" where
  "CLINT_MTIMECMP hart = 0x2000000 + 0x4000 + 8 * word_of_nat hart"

definition timerinit :: "('z boot_state_scheme, unit) prog" where
  "timerinit =
     bind (gets mhartid) (\<lambda>id.
     block
      [modify (\<lambda>s. s\<lparr>clint_mtimecmp := (clint_mtimecmp s)(id := clint_mtime s + 1000000)\<rparr>),
       modify (\<lambda>s. s\<lparr>timer_scratch := (timer_scratch s)(id := (timer_scratch s id)(3 := CLINT_MTIMECMP id, 4 := 1000000))\<rparr>),
       modify (\<lambda>s. s\<lparr>mscratch := sym s ''timer_scratch'' + word_of_nat (40 * id)\<rparr>),
       modify (\<lambda>s. s\<lparr>mtvec := sym s ''timervec''\<rparr>),
       modify (\<lambda>s. s\<lparr>mstatus := mstatus s OR MSTATUS_MIE\<rparr>),
       modify (\<lambda>s. s\<lparr>mie := mie s OR MIE_MTIE\<rparr>)])"

text \<open>The final \<open>mret\<close> jumps to the address in \<open>mepc\<close>, which is \<open>main\<close>.\<close>

definition start :: "('z boot_state_scheme, unit) prog" where
  "start =
     block
      [modify (\<lambda>s. s\<lparr>mstatus := (mstatus s AND NOT MSTATUS_MPP_MASK) OR MSTATUS_MPP_S\<rparr>),
       modify (\<lambda>s. s\<lparr>mepc := sym s ''main''\<rparr>),
       modify (\<lambda>s. s\<lparr>satp := 0\<rparr>),
       modify (\<lambda>s. s\<lparr>medeleg := 0xffff, mideleg := 0xffff\<rparr>),
       modify (\<lambda>s. s\<lparr>sie := sie s OR SIE_SEIE OR SIE_STIE OR SIE_SSIE\<rparr>),
       modify (\<lambda>s. s\<lparr>pmpaddr0 := 0x3fffffffffffff, pmpcfg0 := 0xf\<rparr>),
       timerinit,
       modify (\<lambda>s. s\<lparr>tp := mhartid s\<rparr>)]"

section \<open>main.c\<close>

definition scheduler :: "sched_kind \<Rightarrow> (nat \<Rightarrow> ('z dev_state_scheme, unit) prog) \<Rightarrow> ('z dev_state_scheme, unit) prog" where
  "scheduler kind run =
     (case kind of
        DEFAULT_SCHEDULER \<Rightarrow> scheduler_default run
      | FCFS \<Rightarrow> scheduler_fcfs run
      | PBS \<Rightarrow> scheduler_pbs run
      | MLFQ \<Rightarrow> seq (printf ''MLFQ Scheduler'' []) (scheduler_mlfq run))"

definition kmain :: "('z boot_state_scheme) kenv \<Rightarrow> sched_kind \<Rightarrow> (nat \<Rightarrow> ('z boot_state_scheme, unit) prog) \<Rightarrow>
    ('z boot_state_scheme, unit) prog" where
  "kmain E kind run =
     bind cpuid (\<lambda>hart.
     block
      [if hart = 0 then block
         [consoleinit,
          printfinit,
          printf NL [],
          printf (''xv6 kernel is booting'' @ NL) [],
          printf NL [],
          pq_init,
          kinit,
          kvminit,
          kvminithart,
          procinit,
          trapinit,
          trapinithart,
          plicinit,
          plicinithart,
          binit,
          iinit,
          fileinit,
          virtio_disk_init,
          userinit E,
          modify (\<lambda>s. s\<lparr>started := True\<rparr>)]
       else block
         [loopM (\<lambda>_. bind (gets started) (\<lambda>go. ret (if go then Inr () else Inl ()))) (),
          bind cpuid (\<lambda>h. printf (''hart %d starting'' @ NL) [AInt (int h)]),
          kvminithart,
          trapinithart,
          plicinithart],
       scheduler kind run])"

end
