(* ===== verification/SleepWakeup.thy ===== *)
theory SleepWakeup
  imports Proc
begin

text \<open>
  The protocol of \<open>sleep\<close> and \<open>wakeup\<close> in \<open>kernel/proc.c\<close>, interleaved: any number of processes, all running at
  once on different harts, that wait for conditions and make them true. Every condition has a channel and is
  protected by a lock of its own; any process may wait on any channel or wake it, again and again, and a process whose
  condition holds may make it false again.

  The steps are those between two lock operations of the code, or single assignments, in its order: \<open>sleep\<close> takes
  \<open>p->lock\<close> before it releases the caller's lock, stores the channel and the state, and gives up the CPU,
  whereupon the scheduler releases \<open>p->lock\<close>; the scheduler runs a process again only when it is RUNNABLE, and
  \<open>sleep\<close> then clears the channel, reacquires the caller's lock, and the caller tests its condition again.
  \<open>wakeup\<close>, called with the caller's lock held, goes through the process table, takes the \<open>p->lock\<close> of every process
  but its own, and wakes those that sleep on its channel. \<open>kill\<close> may make a sleeping process runnable at any time.

  The theorem: a process that sleeps although its condition holds is always still ahead of some
  \<open>wakeup\<close> on its channel. No wakeup is lost.
\<close>

section \<open>State\<close>

type_synonym channel = nat

datatype pc =
    Idle
  | Wait channel          \<comment> \<open>before \<open>acquire(lk)\<close>, in the caller or at the end of \<open>sleep\<close>\<close>
  | Test channel          \<comment> \<open>holds \<open>lk\<close>, about to test the condition\<close>
  | Held channel          \<comment> \<open>holds \<open>lk\<close>, and the condition\<close>
  | Sleep1 channel        \<comment> \<open>in \<open>sleep\<close>, before \<open>acquire(&p->lock)\<close>\<close>
  | Sleep2 channel        \<comment> \<open>before \<open>release(lk)\<close>\<close>
  | Sleep3 channel        \<comment> \<open>before \<open>p->chan = chan\<close>\<close>
  | Sleep4 channel        \<comment> \<open>before \<open>p->state = SLEEPING\<close>\<close>
  | Sleep5 channel        \<comment> \<open>in \<open>sched\<close>, before the scheduler's \<open>release(&p->lock)\<close>\<close>
  | Away channel          \<comment> \<open>off the CPU\<close>
  | Back1 channel         \<comment> \<open>running again, before \<open>p->chan = 0\<close>\<close>
  | Back2 channel         \<comment> \<open>before \<open>release(&p->lock)\<close>\<close>
  | Wake1 channel         \<comment> \<open>before the waker's \<open>acquire(lk)\<close>\<close>
  | Wake2 channel         \<comment> \<open>before it makes the condition true\<close>
  | Scan channel nat      \<comment> \<open>in \<open>wakeup\<close>, at the head of the loop\<close>
  | At channel nat        \<comment> \<open>in \<open>wakeup\<close>, holding that process's lock\<close>
  | Unlock channel        \<comment> \<open>before \<open>release(lk)\<close>\<close>

record wait_system =
  wpc :: "nat \<Rightarrow> pc"
  wstate :: "nat \<Rightarrow> procstate"
  wchan :: "nat \<Rightarrow> channel option"
  cond :: "channel \<Rightarrow> bool"
  lk_by :: "channel \<Rightarrow> nat option"
  pl_by :: "nat \<Rightarrow> nat option"

abbreviation goto :: "nat \<Rightarrow> pc \<Rightarrow> wait_system \<Rightarrow> wait_system" where
  "goto p x s \<equiv> s\<lparr>wpc := (wpc s)(p := x)\<rparr>"

section \<open>Steps\<close>

text \<open>The processes are the slots \<open>0 .. n - 1\<close> of the process table.\<close>

inductive wait_step :: "nat \<Rightarrow> wait_system \<Rightarrow> wait_system \<Rightarrow> bool" for n where
  wait_start: "p < n \<Longrightarrow> wpc s p = Idle \<Longrightarrow> wait_step n s (goto p (Wait c) s)"
| wait_lock: "p < n \<Longrightarrow> wpc s p = Wait c \<Longrightarrow> lk_by s c = None \<Longrightarrow>
    wait_step n s (goto p (Test c) (s\<lparr>lk_by := (lk_by s)(c := Some p)\<rparr>))"
| test_true: "p < n \<Longrightarrow> wpc s p = Test c \<Longrightarrow> cond s c \<Longrightarrow> wait_step n s (goto p (Held c) s)"
| consume: "p < n \<Longrightarrow> wpc s p = Held c \<Longrightarrow>
    wait_step n s (goto p (Unlock c) (s\<lparr>cond := (cond s)(c := b)\<rparr>))"
| test_false: "p < n \<Longrightarrow> wpc s p = Test c \<Longrightarrow> \<not> cond s c \<Longrightarrow> wait_step n s (goto p (Sleep1 c) s)"
| sleep_acquire: "p < n \<Longrightarrow> wpc s p = Sleep1 c \<Longrightarrow> pl_by s p = None \<Longrightarrow>
    wait_step n s (goto p (Sleep2 c) (s\<lparr>pl_by := (pl_by s)(p := Some p)\<rparr>))"
| sleep_release: "p < n \<Longrightarrow> wpc s p = Sleep2 c \<Longrightarrow>
    wait_step n s (goto p (Sleep3 c) (s\<lparr>lk_by := (lk_by s)(c := None)\<rparr>))"
| sleep_chan: "p < n \<Longrightarrow> wpc s p = Sleep3 c \<Longrightarrow>
    wait_step n s (goto p (Sleep4 c) (s\<lparr>wchan := (wchan s)(p := Some c)\<rparr>))"
| sleep_state: "p < n \<Longrightarrow> wpc s p = Sleep4 c \<Longrightarrow>
    wait_step n s (goto p (Sleep5 c) (s\<lparr>wstate := (wstate s)(p := SLEEPING)\<rparr>))"
| sched_out: "p < n \<Longrightarrow> wpc s p = Sleep5 c \<Longrightarrow>
    wait_step n s (goto p (Away c) (s\<lparr>pl_by := (pl_by s)(p := None)\<rparr>))"
| sched_in: "p < n \<Longrightarrow> wpc s p = Away c \<Longrightarrow> wstate s p = RUNNABLE \<Longrightarrow> pl_by s p = None \<Longrightarrow>
    wait_step n s (goto p (Back1 c) (s\<lparr>wstate := (wstate s)(p := RUNNING), pl_by := (pl_by s)(p := Some p)\<rparr>))"
| sleep_tidy: "p < n \<Longrightarrow> wpc s p = Back1 c \<Longrightarrow>
    wait_step n s (goto p (Back2 c) (s\<lparr>wchan := (wchan s)(p := None)\<rparr>))"
| sleep_end: "p < n \<Longrightarrow> wpc s p = Back2 c \<Longrightarrow>
    wait_step n s (goto p (Wait c) (s\<lparr>pl_by := (pl_by s)(p := None)\<rparr>))"
| wake_start: "p < n \<Longrightarrow> wpc s p = Idle \<Longrightarrow> wait_step n s (goto p (Wake1 c) s)"
| wake_lock: "p < n \<Longrightarrow> wpc s p = Wake1 c \<Longrightarrow> lk_by s c = None \<Longrightarrow>
    wait_step n s (goto p (Wake2 c) (s\<lparr>lk_by := (lk_by s)(c := Some p)\<rparr>))"
| wake_set: "p < n \<Longrightarrow> wpc s p = Wake2 c \<Longrightarrow>
    wait_step n s (goto p (Scan c 0) (s\<lparr>cond := (cond s)(c := True)\<rparr>))"
| wake_self: "p < n \<Longrightarrow> wpc s p = Scan c p \<Longrightarrow> wait_step n s (goto p (Scan c (Suc p)) s)"
| wake_acquire: "p < n \<Longrightarrow> wpc s p = Scan c j \<Longrightarrow> j < n \<Longrightarrow> j \<noteq> p \<Longrightarrow> pl_by s j = None \<Longrightarrow>
    wait_step n s (goto p (At c j) (s\<lparr>pl_by := (pl_by s)(j := Some p)\<rparr>))"
| wake_one: "p < n \<Longrightarrow> wpc s p = At c j \<Longrightarrow>
    wait_step n s (goto p (Scan c (Suc j)) (s\<lparr>wstate := (wstate s)(j :=
        (if wstate s j = SLEEPING \<and> wchan s j = Some c then RUNNABLE else wstate s j)), pl_by := (pl_by s)(j := None)\<rparr>))"
| wake_end: "p < n \<Longrightarrow> wpc s p = Scan c n \<Longrightarrow> wait_step n s (goto p (Unlock c) s)"
| unlock: "p < n \<Longrightarrow> wpc s p = Unlock c \<Longrightarrow>
    wait_step n s (goto p Idle (s\<lparr>lk_by := (lk_by s)(c := None)\<rparr>))"
| kill_one: "pl_by s j = None \<Longrightarrow> wstate s j = SLEEPING \<Longrightarrow>
    wait_step n s (s\<lparr>wstate := (wstate s)(j := RUNNABLE)\<rparr>)"

inductive wait_reachable :: "nat \<Rightarrow> wait_system \<Rightarrow> bool" for n where
  start: "(\<forall>p. wpc s p = Idle \<and> wstate s p = RUNNING \<and> wchan s p = None \<and> pl_by s p = None) \<Longrightarrow> (\<forall>c. lk_by s c = None) \<Longrightarrow>
    wait_reachable n s"
| step: "wait_reachable n s \<Longrightarrow> wait_step n s t \<Longrightarrow> wait_reachable n t"

section \<open>Invariants\<close>

text \<open>The locks a process holds, by where it is.\<close>

fun holds_lk :: "pc \<Rightarrow> channel option" where
  "holds_lk (Test c) = Some c"
| "holds_lk (Held c) = Some c"
| "holds_lk (Sleep1 c) = Some c"
| "holds_lk (Sleep2 c) = Some c"
| "holds_lk (Wake2 c) = Some c"
| "holds_lk (Scan c j) = Some c"
| "holds_lk (At c j) = Some c"
| "holds_lk (Unlock c) = Some c"
| "holds_lk _ = None"

fun holds_pl :: "nat \<Rightarrow> pc \<Rightarrow> nat option" where
  "holds_pl p (Sleep2 c) = Some p"
| "holds_pl p (Sleep3 c) = Some p"
| "holds_pl p (Sleep4 c) = Some p"
| "holds_pl p (Sleep5 c) = Some p"
| "holds_pl p (Back1 c) = Some p"
| "holds_pl p (Back2 c) = Some p"
| "holds_pl p (At c j) = Some j"
| "holds_pl p _ = None"

definition locks_ok :: "wait_system \<Rightarrow> bool" where
  "locks_ok s \<longleftrightarrow> (\<forall>p c. holds_lk (wpc s p) = Some c \<longrightarrow> lk_by s c = Some p)
     \<and> (\<forall>p j. holds_pl p (wpc s p) = Some j \<longrightarrow> pl_by s j = Some p)"

text \<open>The fields of a process, by where it is.\<close>

fun fields_ok :: "pc \<Rightarrow> procstate \<Rightarrow> channel option \<Rightarrow> (channel \<Rightarrow> bool) \<Rightarrow> bool" where
  "fields_ok (Held c) st ch cn \<longleftrightarrow> st = RUNNING \<and> ch = None \<and> cn c"
| "fields_ok (Sleep1 c) st ch cn \<longleftrightarrow> st = RUNNING \<and> ch = None \<and> \<not> cn c"
| "fields_ok (Sleep2 c) st ch cn \<longleftrightarrow> st = RUNNING \<and> ch = None \<and> \<not> cn c"
| "fields_ok (Sleep4 c) st ch cn \<longleftrightarrow> st = RUNNING \<and> ch = Some c"
| "fields_ok (Sleep5 c) st ch cn \<longleftrightarrow> st = SLEEPING \<and> ch = Some c"
| "fields_ok (Away c) st ch cn \<longleftrightarrow> (st = SLEEPING \<or> st = RUNNABLE) \<and> ch = Some c"
| "fields_ok (Back1 c) st ch cn \<longleftrightarrow> st = RUNNING \<and> ch = Some c"
| "fields_ok _ st ch cn \<longleftrightarrow> st = RUNNING \<and> ch = None"

text \<open>A process that goes to sleep on channel \<open>c\<close>, or sleeps there.\<close>

fun dozes :: "pc \<Rightarrow> procstate \<Rightarrow> channel \<Rightarrow> bool" where
  "dozes (Sleep3 c) st d \<longleftrightarrow> c = d"
| "dozes (Sleep4 c) st d \<longleftrightarrow> c = d"
| "dozes (Sleep5 c) st d \<longleftrightarrow> c = d"
| "dozes (Away c) st d \<longleftrightarrow> c = d \<and> st = SLEEPING"
| "dozes _ st d \<longleftrightarrow> False"

lemma dozes_sleeping: "dozes x RUNNABLE c \<Longrightarrow> dozes x st c"
  by (cases x) auto

definition rescued :: "wait_system \<Rightarrow> channel \<Rightarrow> nat \<Rightarrow> bool" where
  "rescued s c p \<longleftrightarrow> (\<exists>k j. (wpc s k = Scan c j \<or> wpc s k = At c j) \<and> j \<le> p)"

definition wakeup_inv :: "nat \<Rightarrow> wait_system \<Rightarrow> bool" where
  "wakeup_inv n s \<longleftrightarrow> locks_ok s \<and> (\<forall>p \<ge> n. wpc s p = Idle)
     \<and> (\<forall>p. fields_ok (wpc s p) (wstate s p) (wchan s p) (cond s))
     \<and> (\<forall>p c. cond s c \<and> dozes (wpc s p) (wstate s p) c \<longrightarrow> rescued s c p)"

lemma locks_lk: "locks_ok s \<Longrightarrow> wpc s p = x \<Longrightarrow> holds_lk x = Some c \<Longrightarrow> lk_by s c = Some p"
  by (simp add: locks_ok_def)

lemma locks_pl: "locks_ok s \<Longrightarrow> wpc s p = x \<Longrightarrow> holds_pl p x = Some j \<Longrightarrow> pl_by s j = Some p"
  by (simp add: locks_ok_def)

lemma held:
  assumes "locks_ok s"
  shows "wpc s p = Test c \<Longrightarrow> lk_by s c = Some p" "wpc s p = Held c \<Longrightarrow> lk_by s c = Some p"
    "wpc s p = Sleep1 c \<Longrightarrow> lk_by s c = Some p" "wpc s p = Sleep2 c \<Longrightarrow> lk_by s c = Some p \<and> pl_by s p = Some p"
    "wpc s p = Wake2 c \<Longrightarrow> lk_by s c = Some p" "wpc s p = Scan c j \<Longrightarrow> lk_by s c = Some p"
    "wpc s p = At c j \<Longrightarrow> lk_by s c = Some p \<and> pl_by s j = Some p" "wpc s p = Unlock c \<Longrightarrow> lk_by s c = Some p"
    "wpc s p = Sleep3 c \<Longrightarrow> pl_by s p = Some p" "wpc s p = Sleep4 c \<Longrightarrow> pl_by s p = Some p"
    "wpc s p = Sleep5 c \<Longrightarrow> pl_by s p = Some p" "wpc s p = Back1 c \<Longrightarrow> pl_by s p = Some p"
    "wpc s p = Back2 c \<Longrightarrow> pl_by s p = Some p"
  using locks_lk [OF assms, of p] locks_pl [OF assms, of p] by simp_all

lemma locks_ok_goto:
  "t = goto p x u \<Longrightarrow> wpc u = wpc s \<Longrightarrow> locks_ok s
    \<Longrightarrow> (\<And>c. holds_lk x = Some c \<Longrightarrow> lk_by u c = Some p) \<Longrightarrow> (\<And>j. holds_pl p x = Some j \<Longrightarrow> pl_by u j = Some p)
    \<Longrightarrow> (\<And>q c. q \<noteq> p \<Longrightarrow> lk_by s c = Some q \<Longrightarrow> lk_by u c = Some q)
    \<Longrightarrow> (\<And>q j. q \<noteq> p \<Longrightarrow> pl_by s j = Some q \<Longrightarrow> pl_by u j = Some q) \<Longrightarrow> locks_ok t"
  by (simp add: locks_ok_def)

lemma locks_ok_step:
  assumes "wait_step n s t" "locks_ok s"
  shows "locks_ok t"
  using assms(1)
proof (cases rule: wait_step.cases)
  case (kill_one j)
  then show ?thesis using assms(2) by (simp add: locks_ok_def)
qed (rule locks_ok_goto, assumption, simp, rule assms(2); auto dest: held [OF assms(2)] split: if_splits)+

lemma fields_cond: "fields_ok x st ch cn \<Longrightarrow> holds_lk x \<noteq> Some c \<Longrightarrow> fields_ok x st ch (cn(c := b))"
  by (cases x) auto

lemma fields_wake: "fields_ok x SLEEPING ch cn \<Longrightarrow> holds_pl p x \<noteq> Some p \<Longrightarrow> fields_ok x RUNNABLE ch cn"
  by (cases x) auto

definition all_fields :: "wait_system \<Rightarrow> bool" where
  "all_fields s \<longleftrightarrow> (\<forall>p. fields_ok (wpc s p) (wstate s p) (wchan s p) (cond s))"

lemma fields_goto:
  "t = goto p x u \<Longrightarrow> wpc u = wpc s \<Longrightarrow> all_fields s \<Longrightarrow> fields_ok x (wstate u p) (wchan u p) (cond u)
    \<Longrightarrow> (\<And>q. q \<noteq> p \<Longrightarrow> fields_ok (wpc s q) (wstate s q) (wchan s q) (cond s) \<Longrightarrow> fields_ok (wpc s q) (wstate u q) (wchan u q) (cond u))
    \<Longrightarrow> all_fields t"
  by (simp add: all_fields_def)

lemma fields_at: "all_fields s \<Longrightarrow> wpc s p = x \<Longrightarrow> fields_ok x (wstate s p) (wchan s p) (cond s)"
  by (auto simp: all_fields_def)

lemma fields_step:
  assumes "wait_step n s t" "locks_ok s" "all_fields s"
  shows "all_fields t"
proof -
  note F = fields_at [OF assms(3)]
  have lk: "holds_lk (wpc s q) \<noteq> Some c" if "lk_by s c = Some p" "q \<noteq> p" for p q c
    using locks_lk [OF assms(2) refl, of q c] that by auto
  have pl: "holds_pl q (wpc s q) \<noteq> Some q" if "pl_by s q = r" "r \<noteq> Some q" for q r
    using locks_pl [OF assms(2) refl, of q q] that by auto
  show ?thesis
    using assms(1)
  proof (cases rule: wait_step.cases)
    case (consume p c b)
    then have "lk_by s c = Some p" using held(2) [OF assms(2)] by simp
    then have "holds_lk (wpc s q) \<noteq> Some c" if "q \<noteq> p" for q using lk that by blast
    with consume F [of p] show ?thesis
      by (intro fields_goto [OF consume(1) _ assms(3)]) (simp_all add: fields_cond)
  next
    case (wake_set p c)
    then have "lk_by s c = Some p" using held(5) [OF assms(2)] by simp
    then have "holds_lk (wpc s q) \<noteq> Some c" if "q \<noteq> p" for q using lk that by blast
    with wake_set F [of p] show ?thesis
      by (intro fields_goto [OF wake_set(1) _ assms(3)]) (simp_all add: fields_cond)
  next
    case (wake_one p c j)
    have h: "pl_by s j = Some p" using wake_one held(7) [OF assms(2)] by simp
    have "fields_ok (wpc s j) RUNNABLE (wchan s j) (cond s)" if "wstate s j = SLEEPING" "j \<noteq> p"
      using fields_wake [of "wpc s j" "wchan s j" "cond s" j] F [of j] that pl [OF h] by auto
    with wake_one F [of p] show ?thesis
      by (intro fields_goto [OF wake_one(1) _ assms(3)]) auto
  next
    case (kill_one j)
    then have "fields_ok (wpc s j) RUNNABLE (wchan s j) (cond s)"
      using fields_wake [of "wpc s j" "wchan s j" "cond s" j] F [of j] pl [of j None] by auto
    with kill_one(1) assms(3) show ?thesis by (simp add: all_fields_def)
  qed (rule fields_goto, assumption, simp, rule assms(3); use F in \<open>auto dest!: F\<close>)+
qed

text \<open>A rescuer stays one, unless it is the process that moves.\<close>

lemma rescued_goto:
  assumes "t = goto p x u" "wpc u = wpc s" "rescued s c q"
    and "\<And>j. wpc s p = Scan c j \<or> wpc s p = At c j \<Longrightarrow> j \<le> q \<Longrightarrow> \<exists>i. (x = Scan c i \<or> x = At c i) \<and> i \<le> q"
  shows "rescued t c q"
proof -
  obtain k j where k: "wpc s k = Scan c j \<or> wpc s k = At c j" "j \<le> q" using assms(3) by (auto simp: rescued_def)
  show ?thesis
  proof (cases "k = p")
    case True
    with k assms(4) obtain i where "x = Scan c i \<or> x = At c i" "i \<le> q" by auto
    then show ?thesis using assms(1) by (auto simp: rescued_def)
  next
    case False
    then show ?thesis using k assms(1,2) by (auto simp: rescued_def)
  qed
qed

lemma danger_step:
  assumes step: "wait_step n s t" and inv: "wakeup_inv n s" and c: "cond t c" and d: "dozes (wpc t q) (wstate t q) c"
  shows "rescued t c q"
proof -
  have L: "locks_ok s" and I: "\<And>p. p \<ge> n \<Longrightarrow> wpc s p = Idle" and F: "all_fields s"
    and R: "cond s c \<Longrightarrow> dozes (wpc s q) (wstate s q) c \<Longrightarrow> rescued s c q"
    using inv by (auto simp: wakeup_inv_def all_fields_def)
  note F' = fields_at [OF F]
  show ?thesis
    using step
  proof (cases rule: wait_step.cases)
    case (consume p b')
    then show ?thesis
      using c d R F' [of p] by (intro rescued_goto [OF consume(1)]) (auto split: if_splits)
  next
    case (sleep_release p)
    then show ?thesis
      using c d R F' [of p] by (intro rescued_goto [OF sleep_release(1)]) (auto split: if_splits)
  next
    case (wake_set p b)
    then show ?thesis
    proof (cases "b = c")
      case True
      then show ?thesis using wake_set by (auto simp: rescued_def)
    next
      case False
      then show ?thesis
        using wake_set c d R by (intro rescued_goto [OF wake_set(1)]) (auto split: if_splits)
    qed
  next
    case (wake_self p b)
    have "q \<noteq> p" using d wake_self by auto
    then show ?thesis
      using wake_self c d R by (intro rescued_goto [OF wake_self(1)]) (auto split: if_splits)
  next
    case (wake_one p b j)
    have h: "pl_by s j = Some p" "p \<noteq> q" using wake_one held(7) [OF L] d by auto
    have "rescued s c q" using c d R wake_one h by (auto split: if_splits dest: dozes_sleeping)
    moreover have "j \<noteq> q" if "b = c"
    proof
      assume "j = q"
      with h have "holds_pl q (wpc s q) \<noteq> Some q" using locks_pl [OF L refl, of q q] by auto
      with d wake_one \<open>j = q\<close> \<open>b = c\<close> h(2) F' [of q] show False
        by (cases "wpc s q") (auto split: if_splits)
    qed
    ultimately show ?thesis
      using wake_one by (intro rescued_goto [OF wake_one(1)]) auto
  next
    case (wake_end p b)
    have "wpc s q \<noteq> Idle" using d wake_end by (auto split: if_splits)
    then have "q < n" using I not_le by blast
    then show ?thesis
      using wake_end c d R by (intro rescued_goto [OF wake_end(1)]) (auto split: if_splits)
  next
    case (kill_one j)
    then show ?thesis using c d R by (auto simp: rescued_def split: if_splits dest: dozes_sleeping)
  qed (rule rescued_goto, assumption, simp; use c d R in \<open>auto split: if_splits\<close>)+
qed

lemma wait_reachable_inv: "wait_reachable n s \<Longrightarrow> wakeup_inv n s"
proof (induction rule: wait_reachable.induct)
  case (start s)
  then show ?case by (simp add: wakeup_inv_def locks_ok_def)
next
  case (step s t)
  have "locks_ok t" using locks_ok_step [OF step(2)] step.IH by (simp add: wakeup_inv_def)
  moreover have "all_fields t" using fields_step [OF step(2)] step.IH by (simp add: wakeup_inv_def all_fields_def)
  moreover have "\<forall>p \<ge> n. wpc t p = Idle"
    using step(2) step.IH by (cases rule: wait_step.cases) (auto simp: wakeup_inv_def)
  ultimately show ?case
    using danger_step [OF step(2) step.IH] by (simp add: wakeup_inv_def all_fields_def)
qed

section \<open>Properties\<close>

text \<open>C15: No wakeup is lost, over every interleaving of \<open>sleep\<close>, \<open>wakeup\<close> and \<open>kill\<close> by any number of processes on
  any channels: a process that sleeps has the channel it waits on in \<open>p->chan\<close>, and whenever the condition of that
  channel holds, another process holds the channel's lock and is inside \<open>wakeup\<close> on that channel at or before
  the sleeper's slot. So nobody sleeps on a true condition whose lock is free. A step of that waker at the
  sleeper's slot makes the sleeper runnable.\<close>

theorem no_lost_wakeup:
  assumes "wait_reachable n s" "wpc s p = Away c" "wstate s p = SLEEPING"
  shows "wchan s p = Some c
    \<and> (cond s c \<longrightarrow> (\<exists>k j. k \<noteq> p \<and> lk_by s c = Some k \<and> (wpc s k = Scan c j \<or> wpc s k = At c j) \<and> j \<le> p))
    \<and> (\<forall>k t. wpc s k = At c p \<and> wait_step n s t \<and> wpc t k \<noteq> wpc s k \<longrightarrow> wstate t p = RUNNABLE)"
proof -
  have inv: "wakeup_inv n s" by (rule wait_reachable_inv [OF assms(1)])
  then have L: "locks_ok s" and F: "all_fields s" by (simp_all add: wakeup_inv_def all_fields_def)
  have ch: "wchan s p = Some c" using fields_at [OF F assms(2)] by simp
  have "\<exists>k j. k \<noteq> p \<and> lk_by s c = Some k \<and> (wpc s k = Scan c j \<or> wpc s k = At c j) \<and> j \<le> p" if "cond s c"
  proof -
    have "dozes (wpc s p) (wstate s p) c" using assms(2,3) by simp
    with inv that have "rescued s c p" unfolding wakeup_inv_def by blast
    then obtain k j where k: "wpc s k = Scan c j \<or> wpc s k = At c j" "j \<le> p" unfolding rescued_def by blast
    then have "k \<noteq> p" "lk_by s c = Some k" using assms(2) held(6,7) [OF L] by auto
    with k show ?thesis by blast
  qed
  moreover have "wstate t p = RUNNABLE" if "wpc s k = At c p" "wait_step n s t" "wpc t k \<noteq> wpc s k" for k t
    using that(2) that(1,3) assms(2,3) ch by (cases rule: wait_step.cases) (auto split: if_splits)
  ultimately show ?thesis using ch by blast
qed

text \<open>Process 0 goes to sleep on channel 7; process 1 makes the condition true and starts its wakeup.\<close>

definition two_procs :: "pc \<Rightarrow> pc \<Rightarrow> procstate \<Rightarrow> channel option \<Rightarrow> bool \<Rightarrow> nat option \<Rightarrow> nat option \<Rightarrow> wait_system" where
  "two_procs x y st ch cn lk pl = \<lparr>wpc = (\<lambda>p. if p = 0 then x else if p = 1 then y else Idle),
     wstate = (\<lambda>p. if p = 0 then st else RUNNING), wchan = (\<lambda>p. if p = 0 then ch else None), cond = (\<lambda>c. c = 7 \<and> cn),
     lk_by = (\<lambda>c. if c = 7 then lk else None), pl_by = (\<lambda>p. if p = 0 then pl else None)\<rparr>"

lemma two_procs_step:
  assumes "wait_reachable 2 s" "wait_step 2 s t" "t = u"
  shows "wait_reachable 2 u"
  using wait_reachable.step [OF assms(1,2)] assms(3) by simp

theorem no_lost_wakeup_witness:
  "\<exists>s. wait_reachable 2 s \<and> cond s 7 \<and> wpc s 0 = Away 7 \<and> wstate s 0 = SLEEPING
     \<and> (\<exists>k j. k \<noteq> 0 \<and> (wpc s k = Scan 7 j \<or> wpc s k = At 7 j) \<and> j \<le> 0)"
proof -
  have r0: "wait_reachable 2 (two_procs Idle Idle RUNNING None False None None)"
    by (rule wait_reachable.start) (simp_all add: two_procs_def)
  have r1: "wait_reachable 2 (two_procs (Wait 7) Idle RUNNING None False None None)"
    by (rule two_procs_step [OF r0], rule wait_step.wait_start [of 0]) (auto simp: two_procs_def)
  have r2: "wait_reachable 2 (two_procs (Test 7) Idle RUNNING None False (Some 0) None)"
    by (rule two_procs_step [OF r1], rule wait_step.wait_lock [of 0 _ _ 7]) (auto simp: two_procs_def)
  have r3: "wait_reachable 2 (two_procs (Sleep1 7) Idle RUNNING None False (Some 0) None)"
    by (rule two_procs_step [OF r2], rule wait_step.test_false [of 0 _ _ 7]) (auto simp: two_procs_def)
  have r4: "wait_reachable 2 (two_procs (Sleep2 7) Idle RUNNING None False (Some 0) (Some 0))"
    by (rule two_procs_step [OF r3], rule wait_step.sleep_acquire [of 0 _ _ 7]) (auto simp: two_procs_def)
  have r5: "wait_reachable 2 (two_procs (Sleep3 7) Idle RUNNING None False None (Some 0))"
    by (rule two_procs_step [OF r4], rule wait_step.sleep_release [of 0 _ _ 7]) (auto simp: two_procs_def)
  have r6: "wait_reachable 2 (two_procs (Sleep4 7) Idle RUNNING (Some 7) False None (Some 0))"
    by (rule two_procs_step [OF r5], rule wait_step.sleep_chan [of 0 _ _ 7]) (auto simp: two_procs_def)
  have r7: "wait_reachable 2 (two_procs (Sleep5 7) Idle SLEEPING (Some 7) False None (Some 0))"
    by (rule two_procs_step [OF r6], rule wait_step.sleep_state [of 0 _ _ 7]) (auto simp: two_procs_def)
  have r8: "wait_reachable 2 (two_procs (Away 7) Idle SLEEPING (Some 7) False None None)"
    by (rule two_procs_step [OF r7], rule wait_step.sched_out [of 0 _ _ 7]) (auto simp: two_procs_def)
  have r9: "wait_reachable 2 (two_procs (Away 7) (Wake1 7) SLEEPING (Some 7) False None None)"
    by (rule two_procs_step [OF r8], rule wait_step.wake_start [of 1]) (auto simp: two_procs_def)
  have ra: "wait_reachable 2 (two_procs (Away 7) (Wake2 7) SLEEPING (Some 7) False (Some 1) None)"
    by (rule two_procs_step [OF r9], rule wait_step.wake_lock [of 1 _ _ 7]) (auto simp: two_procs_def)
  have rb: "wait_reachable 2 (two_procs (Away 7) (Scan 7 0) SLEEPING (Some 7) True (Some 1) None)"
    by (rule two_procs_step [OF ra], rule wait_step.wake_set [of 1 _ _ 7]) (auto simp: two_procs_def fun_eq_iff)
  from no_lost_wakeup [OF rb, of 0 7] rb show ?thesis
    by (intro exI [of _ "two_procs (Away 7) (Scan 7 0) SLEEPING (Some 7) True (Some 1) None"]) (auto simp: two_procs_def)
qed

end
