(* ===== verification/DiskDriver.thy ===== *)
theory DiskDriver
  imports BlockCache Switch
begin

text \<open>
  The driver of \<open>kernel/virtio_disk.c\<close> against a device that follows the virtio specification.

  \<open>serve\<close> is the device: once it has been notified it takes the available chains one after the other, checks
  the lengths and flags of the descriptors (\<open>good_chain\<close>), transfers as many bytes as the second descriptor says between
  the buffer and the sectors of the disk that begin at the one the header names, sets the status byte and puts the chain in
  the used ring. \<open>disk_wait\<close> is what happens on a
  machine with one hart while the process that asked sleeps: the scheduler lets go of it, the device serves the
  queue, its interrupt runs \<open>virtio_disk_intr\<close>, and the scheduler resumes the process if it was woken.
  \<open>virtio_run\<close> runs \<open>virtio_disk_rw\<close> from the request to the release of the descriptors, and the
  interpretation of \<open>block_driver\<close> at the end is the contract the buffer cache relies on.
\<close>

section \<open>The device\<close>

text \<open>An array of \<open>BSIZE\<close> bytes, such as the data of a buffer and a block of the disk: \<open>n\<close> bytes of it from the
  offset \<open>off\<close>, and the array with them replaced. All of the array is the list that stands for it.\<close>

definition part :: "nat \<Rightarrow> nat \<Rightarrow> byte list \<Rightarrow> byte list" where
  "part off n d = (if off = 0 \<and> n = BSIZE then d else take n (drop off d))"

definition splice :: "nat \<Rightarrow> nat \<Rightarrow> byte list \<Rightarrow> byte list \<Rightarrow> byte list" where
  "splice off n x d = (if off = 0 \<and> n = BSIZE then x else take off d @ x @ drop (off + n) d)"

text \<open>The disk is addressed in sectors of 512 bytes and kept block by block, so \<open>n\<close> bytes from the sector \<open>sec\<close> can be
  in two blocks.\<close>

definition SECTOR :: nat where [simp]: "SECTOR = 512"

definition disk_read :: "nat \<Rightarrow> nat \<Rightarrow> (nat \<Rightarrow> byte list) \<Rightarrow> byte list" where
  "disk_read sec n D =
     (let k = SECTOR * sec div BSIZE; off = SECTOR * sec mod BSIZE; n1 = min n (BSIZE - off) in
      part off n1 (D k) @ part 0 (n - n1) (D (Suc k)))"

definition disk_write :: "nat \<Rightarrow> nat \<Rightarrow> byte list \<Rightarrow> (nat \<Rightarrow> byte list) \<Rightarrow> (nat \<times> byte list) list" where
  "disk_write sec n d D =
     (let k = SECTOR * sec div BSIZE; off = SECTOR * sec mod BSIZE; n1 = min n (BSIZE - off) in
      if n1 = n then [(k, splice off n d (D k))]
      else [(k, splice off n1 (take n1 d) (D k)), (Suc k, splice 0 (n - n1) (drop n1 d) (D (Suc k)))])"

text \<open>The chains that the virtio specification (sections 2.6 and 5.2.6) lets a driver put in the queue of a block
  device: a header of 16 bytes the device reads, data in whole sectors that it writes for a read request and reads
  for a write request, and one byte it writes for the status. The data is in a buffer, so it is at most
  \<open>BSIZE\<close> bytes.\<close>

definition has_flag :: "uint16 \<Rightarrow> virtq_desc \<Rightarrow> bool" where
  "has_flag f d \<longleftrightarrow> d_flags d AND f \<noteq> 0"

definition good_chain :: "virtio_blk_req \<Rightarrow> virtq_desc \<Rightarrow> virtq_desc \<Rightarrow> virtq_desc \<Rightarrow> bool" where
  "good_chain op d0 d1 d2 \<longleftrightarrow>
     rq_type op \<in> {VIRTIO_BLK_T_IN, VIRTIO_BLK_T_OUT}
   \<and> d_len d0 = 16 \<and> has_flag VRING_DESC_F_NEXT d0 \<and> \<not> has_flag VRING_DESC_F_WRITE d0
   \<and> 0 < unat (d_len d1) \<and> unat (d_len d1) \<le> BSIZE \<and> SECTOR dvd unat (d_len d1) \<and> has_flag VRING_DESC_F_NEXT d1
   \<and> (has_flag VRING_DESC_F_WRITE d1 \<longleftrightarrow> rq_type op = VIRTIO_BLK_T_IN)
   \<and> d_len d2 = 1 \<and> \<not> has_flag VRING_DESC_F_NEXT d2 \<and> has_flag VRING_DESC_F_WRITE d2"

text \<open>What the specification says a block device does with the next available chain: the header says what and
  where, the second descriptor is the data, the last one takes the status; the head of the chain goes into the
  used ring. It says nothing of a chain that is not well-formed, so the device then does not come back. The device
  looks at the queue after the driver has notified it, with the number of the queue in the register at
  \<open>0x050\<close>, and serves it until it is empty.\<close>

definition serve_one :: "('z disk_state_scheme, bool) prog" where
  "serve_one =
     bind (gets vd) (\<lambda>v.
     if vd_used_idx_dev v = vd_avail_idx v then ret False
     else let head = vd_avail_ring v (unat (vd_used_idx_dev v) mod NUM);
              d0 = vd_desc v (unat head); d1 = vd_desc v (unat (d_next d0)); d2 = vd_desc v (unat (d_next d1)) in
       case (d_addr d0, d_addr d1, d_addr d2) of
         (DmaReq r, DmaData b, DmaStatus i) \<Rightarrow>
           let op = vd_ops v r; sec = unat (rq_sector op); n = unat (d_len d1) in
           if \<not> good_chain op d0 d1 d2 then hang
           else
           seq (if rq_type op = VIRTIO_BLK_T_OUT
                then bind (bget_field b b_data) (\<lambda>d. modify (\<lambda>s.
                       let ws = disk_write sec n (part 0 n d) (disk_data s) in
                       s\<lparr>disk_data := fold (\<lambda>(k, x) D. D(k := x)) ws (disk_data s), disk_log := disk_log s @ ws\<rparr>))
                else bind (gets (\<lambda>s. disk_read sec n (disk_data s))) (\<lambda>d.
                       bset b (\<lambda>x. x\<lparr>b_data := splice 0 n d (b_data x)\<rparr>)))
          (seq (vset (\<lambda>v. v\<lparr>vd_info_status := (vd_info_status v)(i := 0),
                  vd_used_ring := (vd_used_ring v)(unat (vd_used_idx_dev v) mod NUM := ucast head),
                  vd_used_idx_dev := vd_used_idx_dev v + 1\<rparr>))
               (ret True))
       | _ \<Rightarrow> hang)"

definition notified :: "'z disk_state_scheme \<Rightarrow> bool" where
  "notified s \<longleftrightarrow> vreg_log s \<noteq> [] \<and> last (vreg_log s) = (0x050, 0)"

definition serve :: "('z disk_state_scheme, unit) prog" where
  "serve = bind (gets notified) (\<lambda>told.
     whenM told (loopM (\<lambda>_. bind serve_one (\<lambda>more. ret (if more then Inl () else Inr ()))) ()))"

lemma array_parts:
  assumes "length d = BSIZE" "off + n \<le> BSIZE" "length x = n"
  shows "part off n d = take n (drop off d)" "splice off n x d = take off d @ x @ drop (off + n) d" "length (splice off n x d) = BSIZE"
  using assms by (auto simp: part_def splice_def)

text \<open>A request for all of a block, at the even sector where it begins.\<close>

lemma whole_block:
  assumes "even sec"
  shows "disk_read sec BSIZE D = D (sec div 2)" "disk_write sec BSIZE d D = [(sec div 2, d)]" "part 0 BSIZE d = d" "splice 0 BSIZE d x = d"
proof -
  have "512 * sec div 1024 = sec div 2" by simp
  moreover have "512 * sec mod 1024 = 0" using assms by (auto elim!: evenE)
  ultimately show "disk_read sec BSIZE D = D (sec div 2)" "disk_write sec BSIZE d D = [(sec div 2, d)]" "part 0 BSIZE d = d"
    "splice 0 BSIZE d x = d"
    by (simp_all add: disk_read_def disk_write_def part_def splice_def Let_def)
qed

text \<open>What happens on a machine with one hart while a process waits for the disk: the scheduler takes the processor from
  it and lets its lock go, the device serves the queue and interrupts, and when the process is
  runnable the scheduler switches back to it.\<close>

definition disk_wait :: "('z disk_state_scheme, unit) prog" where
  "disk_wait = while_away (seq serve virtio_disk_intr)"

section \<open>Running the driver\<close>

lemma with_locks_disk:
  "(with_locks L s)\<lparr>vd := v\<rparr> = with_locks L (s\<lparr>vd := v\<rparr>)" "(with_locks L s)\<lparr>vreg_log := r\<rparr> = with_locks L (s\<lparr>vreg_log := r\<rparr>)"
  "(settled s)\<lparr>vd := v\<rparr> = settled (s\<lparr>vd := v\<rparr>)" "(settled s)\<lparr>vreg_log := r\<rparr> = settled (s\<lparr>vreg_log := r\<rparr>)"
  by (rule disk_state.equality; simp add: with_locks_def settled_def mycpu_def intr_get_def fun_eq_iff)+

lemma with_locks_disk_get [simp]:
  "vd (with_locks L s) = vd s" "vreg (with_locks L s) = vreg s" "vreg_log (with_locks L s) = vreg_log s"
  "vreg_log (settled s) = vreg_log s" "vreg (settled s) = vreg s"
  "disk_data (with_locks L s) = disk_data s" "disk_log (with_locks L s) = disk_log s"
  by (simp_all add: with_locks_def settled_def)

lemma wp_vset: "wp (vset f) Q = (\<lambda>s. Q () (s\<lparr>vd := f (vd s)\<rparr>))"
  by (simp add: vset_def wp_modify)

lemma vset_run: "vset f s = Ok () (s\<lparr>vd := f (vd s)\<rparr>)"
  by (simp add: vset_def modify_def)

definition taken3 :: "disk \<Rightarrow> disk" where
  "taken3 v = v\<lparr>vd_free := (vd_free v)(0 := False, 1 := False, 2 := False)\<rparr>"

lemma alloc_desc_run:
  assumes "i < NUM" "vd_free (vd s) i" "\<And>j. j < i \<Longrightarrow> \<not> vd_free (vd s) j"
  shows "alloc_desc s = Ok (Some i) (s\<lparr>vd := (vd s)\<lparr>vd_free := (vd_free (vd s))(i := False)\<rparr>\<rparr>)"
proof -
  let ?f = "\<lambda>i. bind (gets (\<lambda>s. vd_free (vd s) i)) (\<lambda>free.
       if free then seq (vset (\<lambda>v. v\<lparr>vd_free := (vd_free v)(i := False)\<rparr>)) (ret (Some i)) else ret None)"
  have skip: "scanM (xs @ ys) ?f s = scanM ys ?f s" if "\<And>j. j \<in> set xs \<Longrightarrow> \<not> vd_free (vd s) j" for xs ys
    using that by (induction xs) (simp_all add: bind_def gets_def ret_def)
  have split: "[0..<NUM] = [0..<i] @ i # [Suc i..<NUM]"
    using assms(1) by (metis le_add_diff_inverse less_imp_le_nat upt_add_eq_append upt_conv_Cons zero_le add_0)
  have "scanM [0..<NUM] ?f s = scanM (i # [Suc i..<NUM]) ?f s"
    unfolding split by (rule skip) (use assms(3) in simp)
  also have "\<dots> = Ok (Some i) (s\<lparr>vd := (vd s)\<lparr>vd_free := (vd_free (vd s))(i := False)\<rparr>\<rparr>)"
    using assms(2) by (simp add: bind_def seq_def gets_def ret_def vset_run)
  finally show ?thesis unfolding alloc_desc_def .
qed

lemma alloc3_desc_run:
  assumes "\<forall>i < NUM. vd_free (vd s) i"
  shows "alloc3_desc s = Ok (Some [0, 1, 2]) (s\<lparr>vd := taken3 (vd s)\<rparr>)"
proof -
  let ?s1 = "s\<lparr>vd := (vd s)\<lparr>vd_free := (vd_free (vd s))(0 := False)\<rparr>\<rparr>"
  let ?s2 = "?s1\<lparr>vd := (vd ?s1)\<lparr>vd_free := (vd_free (vd ?s1))(1 := False)\<rparr>\<rparr>"
  let ?s3 = "?s2\<lparr>vd := (vd ?s2)\<lparr>vd_free := (vd_free (vd ?s2))(2 := False)\<rparr>\<rparr>"
  have 0: "alloc_desc s = Ok (Some 0) ?s1" by (rule alloc_desc_run) (use assms in simp_all)
  have 1: "alloc_desc ?s1 = Ok (Some 1) ?s2" by (rule alloc_desc_run) (use assms in \<open>simp_all add: less_Suc_eq\<close>)
  have 2: "alloc_desc ?s2 = Ok (Some 2) ?s3" by (rule alloc_desc_run) (use assms in \<open>auto simp: less_Suc_eq eval_nat_numeral\<close>)
  have "?s3 = s\<lparr>vd := taken3 (vd s)\<rparr>" by (simp add: taken3_def)
  with 0 1 2 show ?thesis by (simp add: alloc3_desc_def eval_nat_numeral bind_def ret_def)
qed

text \<open>One request, made of the descriptors 0, 1 and 2, is in the queue and not yet served.\<close>

definition chain3 :: "nat \<Rightarrow> bool \<Rightarrow> uint64 \<Rightarrow> disk \<Rightarrow> bool" where
  "chain3 b w sec v \<longleftrightarrow>
     vd_desc v 0 = \<lparr>d_addr = DmaReq 0, d_len = 16, d_flags = VRING_DESC_F_NEXT, d_next = 1\<rparr>
   \<and> vd_desc v 1 = \<lparr>d_addr = DmaData b, d_len = word_of_nat BSIZE, d_flags = (if w then 0 else VRING_DESC_F_WRITE) OR VRING_DESC_F_NEXT, d_next = 2\<rparr>
   \<and> vd_desc v 2 = \<lparr>d_addr = DmaStatus 0, d_len = 1, d_flags = VRING_DESC_F_WRITE, d_next = 0\<rparr>
   \<and> rq_type (vd_ops v 0) = (if w then VIRTIO_BLK_T_OUT else VIRTIO_BLK_T_IN) \<and> rq_sector (vd_ops v 0) = sec \<and> even (unat sec)
   \<and> vd_info_b v 0 = Some b
   \<and> (\<forall>i < NUM. vd_free v i \<longleftrightarrow> i \<ge> 3)"

lemma chain3_good:
  assumes "chain3 b w sec v"
  shows "good_chain (vd_ops v 0) (vd_desc v 0) (vd_desc v 1) (vd_desc v 2)"
  using assms by (cases w) (simp_all add: chain3_def good_chain_def has_flag_def)

definition pending :: "nat \<Rightarrow> bool \<Rightarrow> uint64 \<Rightarrow> disk \<Rightarrow> bool" where
  "pending b w k v \<longleftrightarrow> chain3 b w k v \<and> vd_used_idx v = vd_used_idx_dev v \<and> vd_avail_idx v = vd_used_idx_dev v + 1
     \<and> vd_avail_ring v (unat (vd_used_idx_dev v) mod NUM) = 0"

definition served :: "disk \<Rightarrow> disk" where
  "served v = v\<lparr>vd_info_status := (vd_info_status v)(0 := 0),
     vd_used_ring := (vd_used_ring v)(unat (vd_used_idx_dev v) mod NUM := 0), vd_used_idx_dev := vd_used_idx_dev v + 1\<rparr>"

definition transfer :: "bool \<Rightarrow> nat \<Rightarrow> nat \<Rightarrow> 'z disk_state_scheme \<Rightarrow> 'z disk_state_scheme" where
  "transfer w b k s =
     (if w then s\<lparr>disk_data := (disk_data s)(k := b_data (bufs s b)), disk_log := disk_log s @ [(k, b_data (bufs s b))]\<rparr>
      else s\<lparr>bufs := (bufs s)(b := (bufs s b)\<lparr>b_data := disk_data s k\<rparr>)\<rparr>)"

lemma transfer_vd [simp]: "vd (transfer w b k s) = vd s"
  by (simp add: transfer_def)

lemma serve_one_run:
  assumes "pending b w sec (vd s)"
  shows "serve_one s = Ok True ((transfer w b (unat sec div 2) s)\<lparr>vd := served (vd s)\<rparr>)"
proof -
  have c: "chain3 b w sec (vd s)" and n: "vd_used_idx_dev (vd s) \<noteq> vd_avail_idx (vd s)"
    "vd_avail_ring (vd s) (unat (vd_used_idx_dev (vd s)) mod NUM) = 0" using assms by (simp_all add: pending_def)
  have d: "d_addr (vd_desc (vd s) 0) = DmaReq 0" "d_next (vd_desc (vd s) 0) = 1" "d_addr (vd_desc (vd s) 1) = DmaData b"
    "d_next (vd_desc (vd s) 1) = 2" "d_addr (vd_desc (vd s) 2) = DmaStatus 0" "unat (d_len (vd_desc (vd s) 1)) = BSIZE"
    "rq_type (vd_ops (vd s) 0) = (if w then VIRTIO_BLK_T_OUT else VIRTIO_BLK_T_IN)" "rq_sector (vd_ops (vd s) 0) = sec"
    and e: "even (unat sec)"
    using c unfolding chain3_def by simp_all
  note g = chain3_good [OF c] and wb = whole_block [OF e]
  show ?thesis
    using n(1) unfolding serve_one_def bind_def [of "gets vd"] gets_def outcome.case Let_def n(2) unat_0 d(1-5) unat_1
    by (cases w) (simp_all add: g [unfolded One_nat_def] d [unfolded One_nat_def] wb bind_def seq_def gets_def modify_def ret_def vset_def bget_field_def bset_def transfer_def
        served_def Let_def del: BSIZE_def)
qed

lemma serve_run:
  assumes "pending b w sec (vd s)" "notified s"
  shows "serve s = Ok () ((transfer w b (unat sec div 2) s)\<lparr>vd := served (vd s)\<rparr>)"
proof -
  let ?t = "(transfer w b (unat sec div 2) s)\<lparr>vd := served (vd s)\<rparr>"
  have "vd_used_idx_dev (vd ?t) = vd_avail_idx (vd ?t)" using assms(1) by (simp add: served_def pending_def)
  then have fin: "serve_one ?t = Ok False ?t" by (simp add: serve_one_def bind_def gets_def ret_def)
  show ?thesis
    unfolding serve_def bind_def [of "gets notified"] gets_def outcome.case whenM_def eqTrueI [OF assms(2)] if_True
    by (subst loopM_unfold, simp only: bind_def serve_one_run [OF assms(1)] outcome.case ret_run if_True sum.case,
        subst loopM_unfold, simp add: bind_def fin ret_def)
qed

section \<open>The interrupt\<close>

definition acked :: "'z disk_state_scheme \<Rightarrow> 'z disk_state_scheme" where
  "acked s = s\<lparr>vreg_log := vreg_log s @ [(0x064, vreg s 0x060 AND 3)]\<rparr>"

definition finished :: "nat \<Rightarrow> 'z disk_state_scheme \<Rightarrow> 'z disk_state_scheme" where
  "finished b s = s\<lparr>bufs := (bufs s)(b := (bufs s b)\<lparr>b_disk := False\<rparr>), procs := all_awake (ChanBuf b) s,
     vd := (vd s)\<lparr>vd_used_idx := vd_used_idx (vd s) + 1\<rparr>\<rparr>"

lemma unlocked_disk [simp]:
  "unlocked (s\<lparr>bufs := B\<rparr>) = unlocked s" "unlocked (s\<lparr>vd := v\<rparr>) = unlocked s" "unlocked (s\<lparr>vreg_log := r\<rparr>) = unlocked s"
  "unlocked (s\<lparr>disk_data := d\<rparr>) = unlocked s" "unlocked (s\<lparr>disk_log := h\<rparr>) = unlocked s"
  by (simp_all add: unlocked_def lock_idle_def intr_ok_def mycpu_def intr_get_def)

lemma intr_loop_run:
  assumes "unlocked s" "vd_used_idx_dev (vd s) = vd_used_idx (vd s) + 1"
    "vd_used_ring (vd s) (unat (vd_used_idx (vd s)) mod NUM) = 0" "vd_info_status (vd s) 0 = 0" "vd_info_b (vd s) 0 = Some b"
  shows "loopM (\<lambda>_. bind (gets vd) (\<lambda>v.
         if vd_used_idx v \<noteq> vd_used_idx_dev v then
           (let id = unat (vd_used_ring v (unat (vd_used_idx v) mod NUM)) in
            seq (whenM (vd_info_status v id \<noteq> 0) (panic ''virtio_disk_intr status''))
           (case vd_info_b v id of None \<Rightarrow> panic ''kerneltrap''
            | Some b \<Rightarrow>
                seq (bset b (\<lambda>x. x\<lparr>b_disk := False\<rparr>))
               (seq (wakeup (ChanBuf b))
               (seq (vset (\<lambda>v. v\<lparr>vd_used_idx := vd_used_idx v + 1\<rparr>)) (ret (Inl ()))))))
         else ret (Inr ()))) () (with_locks {VdiskLock} s) = Ok () (with_locks {VdiskLock} (finished b s))"
    (is "loopM ?body () ?s = Ok () ?t")
proof -
  let ?s1 = "s\<lparr>bufs := (bufs s)(b := (bufs s b)\<lparr>b_disk := False\<rparr>)\<rparr>"
  let ?s2 = "?s1\<lparr>procs := all_awake (ChanBuf b) ?s1\<rparr>"
  have ne: "vd_used_idx (vd s) \<noteq> vd_used_idx_dev (vd s)" using assms(2) by simp
  have w: "wakeup (ChanBuf b) (with_locks {VdiskLock} ?s1) = Ok () (with_locks {VdiskLock} ?s2)"
    by (rule wakeup_run) (use assms(1) in simp_all)
  have aw: "all_awake (ChanBuf b) ?s1 = all_awake (ChanBuf b) s" by (simp add: all_awake_def cong: if_cong)
  have 1: "?body () ?s = Ok (Inl ()) ?t"
    using ne assms(3-5) w
    by (simp add: bind_def seq_def gets_def whenM_def ret_def bset_def modify_def vset_def with_locks_bufs with_locks_disk
        finished_def aw Let_def)
  have 2: "?body () ?t = Ok (Inr ()) ?t"
    using assms(2) by (simp add: bind_def gets_def ret_def finished_def)
  show ?thesis
    by (subst loopM_unfold, simp only: bind_def [of "?body ()"] 1 outcome.case sum.case,
        subst loopM_unfold, simp only: bind_def [of "?body ()"] 2 outcome.case sum.case ret_run)
qed

lemma intr_run:
  assumes "unlocked s" "vd_used_idx_dev (vd s) = vd_used_idx (vd s) + 1"
    "vd_used_ring (vd s) (unat (vd_used_idx (vd s)) mod NUM) = 0" "vd_info_status (vd s) 0 = 0" "vd_info_b (vd s) 0 = Some b"
  shows "virtio_disk_intr (settled s) = Ok () (settled (finished b (acked s)))"
proof -
  have a: "unlocked (acked s)" "vd (acked s) = vd s" using assms(1) by (simp_all add: acked_def)
  have f: "unlocked (finished b (acked s))" using a(1) by (simp add: finished_def)
  have 1: "bind (vread 0x060) (\<lambda>st. vwrite 0x064 (st AND 3)) (with_locks {VdiskLock} s) = Ok () (with_locks {VdiskLock} (acked s))"
    by (simp add: bind_def vread_def gets_def vwrite_def modify_def with_locks_disk acked_def)
  show ?thesis
    unfolding virtio_disk_intr_def block.simps
    by (rule seq_step, rule acquire_run, rule assms(1), rule seq_step, rule 1,
        rule seq_step, rule intr_loop_run [OF a(1), unfolded a(2), OF assms(2-5)], rule seq_step, rule release_run1 [OF f], rule ret_run)
qed

section \<open>Waiting for the disk\<close>

lemma put_proc_disk [simp]: "vd (put_proc p f s) = vd s" "bufs (put_proc p f s) = bufs s"
  by (simp_all add: put_proc_def)

lemma transfer_facts [simp]:
  "unlocked (transfer w b k s) = unlocked s" "procs (transfer w b k s) = procs s" "mycpu (transfer w b k s) = mycpu s"
  "ticks (transfer w b k s) = ticks s"
  by (simp_all add: transfer_def mycpu_def)

lemma settled_transfer: "(transfer w b k (settled s))\<lparr>vd := v\<rparr> = settled ((transfer w b k s)\<lparr>vd := v\<rparr>)"
  by (rule disk_state.equality) (simp_all add: transfer_def settled_def mycpu_def intr_get_def)

lemma on_hart_vd [simp]: "vd (on_hart me s) = vd s" "bufs (on_hart me s) = bufs s"
  by (simp_all add: on_hart_def mycpu_write_def)

lemma notified_steps [simp]:
  "notified (settled s) = notified s" "notified (on_hart me s) = notified s" "notified (asleep p ch s) = notified s"
  "notified (with_locks L s) = notified s"
  by (simp_all add: notified_def on_hart_def mycpu_write_def asleep_def put_proc_def)

text \<open>The state when the device has served the request and its interrupt has been handled, and when the process has
  returned from \<open>sleep\<close>.\<close>

definition woken :: "bool \<Rightarrow> nat \<Rightarrow> nat \<Rightarrow> 'z disk_state_scheme \<Rightarrow> 'z disk_state_scheme" where
  "woken w b k s = finished b (acked ((transfer w b k (on_hart None s))\<lparr>vd := served (vd s)\<rparr>))"

definition slept :: "nat \<Rightarrow> bool \<Rightarrow> nat \<Rightarrow> nat \<Rightarrow> 'z disk_state_scheme \<Rightarrow> 'z disk_state_scheme" where
  "slept p w b k s = back_up p (woken w b k (asleep p (ChanBuf b) s))"

lemma woken_facts [simp]:
  "unlocked (woken w b k s) = unlocked s" "noff (mycpu (woken w b k s)) = noff (mycpu s)" "intr_get (woken w b k s) = intr_get s"
proof -
  have m: "mycpu (finished b s) = mycpu s" "mycpu (acked s) = mycpu s" "mycpu (s\<lparr>vd := v\<rparr>) = mycpu s"
    "intr_get (finished b s) = intr_get s" "intr_get (acked s) = intr_get s" "intr_get (s\<lparr>vd := v\<rparr>) = intr_get s"
    "intr_get (transfer w b k s) = intr_get s" for s :: "'a disk_state_scheme" and v
    by (simp_all add: finished_def acked_def mycpu_def intr_get_def transfer_def)
  show "unlocked (woken w b k s) = unlocked s" by (simp add: woken_def) (simp add: finished_def acked_def)
  show "noff (mycpu (woken w b k s)) = noff (mycpu s)" "intr_get (woken w b k s) = intr_get s" by (simp_all add: woken_def m)
qed

lemma slept_facts [simp]:
  "unlocked (slept p w b k s) = unlocked s" "noff (mycpu (slept p w b k s)) = noff (mycpu s)"
  "cpu_proc (mycpu (slept p w b k s)) = Some p"
  by (simp_all add: slept_def) (simp_all add: back_up_def)

lemma device_run:
  assumes u: "unlocked s" and pend: "pending b w sec (vd s)" and told: "notified s"
  shows "seq serve virtio_disk_intr (settled (on_hart None s)) = Ok () (settled (woken w b (unat sec div 2) s))"
proof -
  let ?s = "(transfer w b (unat sec div 2) (on_hart None s))\<lparr>vd := served (vd s)\<rparr>"
  have 1: "serve (settled (on_hart None s)) = Ok () (settled ?s)"
    using serve_run [of b w sec "settled (on_hart None s)"] pend told by (simp add: settled_transfer)
  have 2: "virtio_disk_intr (settled ?s) = Ok () (settled (woken w b (unat sec div 2) s))"
    unfolding woken_def by (rule intr_run) (use u pend in \<open>simp_all add: pending_def chain3_def served_def\<close>)
  show ?thesis by (rule seq_step, rule 1, rule 2)
qed

lemma sleep_run:
  assumes u: "unlocked s" and n: "noff (mycpu s) = 0" and me: "cpu_proc (mycpu s) = Some p" "p < NPROC"
    and pend: "pending b w sec (vd s)" and told: "notified s"
  shows "sleep disk_wait (ChanBuf b) VdiskLock (with_locks {VdiskLock} s) = Ok () (with_locks {VdiskLock} (slept p w b (unat sec div 2) s))"
proof -
  let ?d = "asleep p (ChanBuf b) s" let ?t = "woken w b (unat sec div 2) ?d"
  have vd: "vd ?d = vd s" by (simp add: asleep_def)
  have "procs ?t p = awakened (ChanBuf b) None (ticks s) p (procs ?d p)"
    using me(2) by (simp add: woken_def finished_def acked_def all_awake_def)
      (simp add: mycpu_def on_hart_def mycpu_write_def transfer_def asleep_def)
  then have st: "p_state (procs ?t p) = RUNNABLE" by (simp add: awakened_def asleep_def)
  show ?thesis
    unfolding disk_wait_def slept_def
    by (rule sleep_away_run) (use u n me(1) st pend told vd in \<open>simp_all add: device_run\<close>)
qed

section \<open>A request\<close>

text \<open>The queue after the driver has put a request there, and the state then.\<close>

definition queued :: "nat \<Rightarrow> bool \<Rightarrow> uint64 \<Rightarrow> disk \<Rightarrow> disk" where
  "queued b w sec v0 =
     (let v = taken3 v0 in v\<lparr>vd_ops := (vd_ops v)(0 := \<lparr>rq_type = (if w then VIRTIO_BLK_T_OUT else VIRTIO_BLK_T_IN),
         rq_reserved = 0, rq_sector = sec\<rparr>),
       vd_info_status := (vd_info_status v)(0 := 0xff),
       vd_desc := (vd_desc v)(0 := \<lparr>d_addr = DmaReq 0, d_len = 16, d_flags = VRING_DESC_F_NEXT, d_next = 1\<rparr>,
         1 := \<lparr>d_addr = DmaData b, d_len = word_of_nat BSIZE, d_flags = (if w then 0 else VRING_DESC_F_WRITE) OR VRING_DESC_F_NEXT, d_next = 2\<rparr>,
         2 := \<lparr>d_addr = DmaStatus 0, d_len = 1, d_flags = VRING_DESC_F_WRITE, d_next = 0\<rparr>),
       vd_info_b := (vd_info_b v)(0 := Some b),
       vd_avail_ring := (vd_avail_ring v)(unat (vd_avail_idx v) mod NUM := 0), vd_avail_idx := vd_avail_idx v + 1\<rparr>)"

definition asked :: "nat \<Rightarrow> bool \<Rightarrow> uint64 \<Rightarrow> 'z disk_state_scheme \<Rightarrow> 'z disk_state_scheme" where
  "asked b w sec s = s\<lparr>bufs := (bufs s)(b := (bufs s b)\<lparr>b_disk := True\<rparr>), vd := queued b w sec (vd s),
     vreg_log := vreg_log s @ [(0x050, 0)]\<rparr>"

lemma queued_pending:
  assumes "vd_idle v" "even (unat sec)"
  shows "pending b w sec (queued b w sec v)"
proof -
  have "vd_free (queued b w sec v) i \<longleftrightarrow> i \<ge> 3" if "i < NUM" for i
    using assms that by (auto simp: queued_def taken3_def vd_idle_def Let_def)
  moreover have "(3 :: uint16) AND 1 \<noteq> 0" by simp
  ultimately show ?thesis
    using assms by (simp add: pending_def chain3_def queued_def Let_def) (simp add: taken3_def vd_idle_def)
qed

lemma asked_facts [simp]:
  "unlocked (asked b w sec s) = unlocked s" "mycpu (asked b w sec s) = mycpu s" "procs (asked b w sec s) = procs s"
  "vd (asked b w sec s) = queued b w sec (vd s)"
  by (simp_all add: asked_def mycpu_def)

lemma ask_run:
  "block
      [vset (\<lambda>v. v\<lparr>vd_ops := (vd_ops v)(0 := \<lparr>rq_type = (if w then VIRTIO_BLK_T_OUT else VIRTIO_BLK_T_IN),
         rq_reserved = 0, rq_sector = sec\<rparr>)\<rparr>),
       vset (desc_set 0 \<lparr>d_addr = DmaReq 0, d_len = 16, d_flags = VRING_DESC_F_NEXT, d_next = word_of_nat 1\<rparr>),
       vset (desc_set 1 \<lparr>d_addr = DmaData b, d_len = word_of_nat BSIZE,
         d_flags = (if w then 0 else VRING_DESC_F_WRITE) OR VRING_DESC_F_NEXT, d_next = word_of_nat 2\<rparr>),
       vset (\<lambda>v. v\<lparr>vd_info_status := (vd_info_status v)(0 := 0xff)\<rparr>),
       vset (desc_set 2 \<lparr>d_addr = DmaStatus 0, d_len = 1, d_flags = VRING_DESC_F_WRITE, d_next = 0\<rparr>),
       bset b (\<lambda>x. x\<lparr>b_disk := True\<rparr>),
       vset (\<lambda>v. v\<lparr>vd_info_b := (vd_info_b v)(0 := Some b)\<rparr>),
       vset (\<lambda>v. v\<lparr>vd_avail_ring := (vd_avail_ring v)(unat (vd_avail_idx v) mod NUM := word_of_nat 0)\<rparr>),
       vset (\<lambda>v. v\<lparr>vd_avail_idx := vd_avail_idx v + 1\<rparr>),
       vwrite 0x050 0] (with_locks L (s\<lparr>vd := taken3 (vd s)\<rparr>)) = Ok () (with_locks L (asked b w sec s))"
  by (simp add: seq_def bind_def ret_def vset_run bset_def vwrite_def modify_def with_locks_disk with_locks_bufs asked_def
      queued_def Let_def desc_set_def)

lemma wait_run:
  assumes u: "unlocked s" and n: "noff (mycpu s) = 0" and me: "cpu_proc (mycpu s) = Some p" "p < NPROC"
    and pend: "pending b w sec (vd s)" and told: "notified s" and busy: "b_disk (bufs s b)"
  shows "loopM (\<lambda>_. bind (bget_field b b_disk) (\<lambda>busy.
         if busy then seq (sleep disk_wait (ChanBuf b) VdiskLock) (ret (Inl ())) else ret (Inr ()))) () (with_locks {VdiskLock} s)
     = Ok () (with_locks {VdiskLock} (slept p w b (unat sec div 2) s))" (is "loopM ?body () ?s = Ok () ?t")
proof -
  have fin: "\<not> b_disk (bufs (slept p w b (unat sec div 2) s) b)"
    by (simp add: slept_def back_up_def switched_to_def woken_def finished_def)
  have 1: "?body () ?s = Ok (Inl ()) ?t"
    using busy sleep_run [OF u n me pend told] by (simp add: bind_def seq_def bget_field_def gets_def ret_def)
  have 2: "?body () ?t = Ok (Inr ()) ?t" using fin by (simp add: bind_def bget_field_def gets_def ret_def)
  show ?thesis
    by (subst loopM_unfold, simp only: bind_def [of "?body ()"] 1 outcome.case sum.case,
        subst loopM_unfold, simp only: bind_def [of "?body ()"] 2 outcome.case sum.case ret_run)
qed

section \<open>Giving the descriptors back\<close>

definition freed :: "nat \<Rightarrow> 'z disk_state_scheme \<Rightarrow> 'z disk_state_scheme" where
  "freed i s = s\<lparr>vd := (desc_set i zero_desc (vd s))\<lparr>vd_free := (vd_free (vd s))(i := True)\<rparr>, procs := all_awake ChanDisk s\<rparr>"

lemma freed_facts [simp]:
  "unlocked (freed i s) = unlocked s" "mycpu (freed i s) = mycpu s"
  "vd (freed i s) = (desc_set i zero_desc (vd s))\<lparr>vd_free := (vd_free (vd s))(i := True)\<rparr>"
  by (simp_all add: freed_def mycpu_def)

lemma free_desc_run:
  assumes u: "unlocked s" and i: "i < NUM" "\<not> vd_free (vd s) i"
  shows "free_desc i (with_locks {VdiskLock} s) = Ok () (with_locks {VdiskLock} (freed i s))"
proof -
  let ?s1 = "s\<lparr>vd := (desc_set i zero_desc (vd s))\<lparr>vd_free := (vd_free (vd s))(i := True)\<rparr>\<rparr>"
  have "wakeup ChanDisk (with_locks {VdiskLock} ?s1) = Ok () (with_locks {VdiskLock} (?s1\<lparr>procs := all_awake ChanDisk ?s1\<rparr>))"
    by (rule wakeup_run) (use u in simp_all)
  moreover have "all_awake ChanDisk ?s1 = all_awake ChanDisk s" by (simp add: all_awake_def mycpu_def cong: if_cong)
  ultimately show ?thesis
    using i by (simp add: free_desc_def seq_def bind_def whenM_def ret_def gets_def vset_run with_locks_disk desc_set_def freed_def)
qed

lemma free_chain_run:
  assumes u: "unlocked s" and d: "d_next (vd_desc (vd s) 0) = 1" "d_flags (vd_desc (vd s) 0) AND VRING_DESC_F_NEXT \<noteq> 0"
      "d_next (vd_desc (vd s) 1) = 2" "d_flags (vd_desc (vd s) 1) AND VRING_DESC_F_NEXT \<noteq> 0"
      "d_flags (vd_desc (vd s) 2) AND VRING_DESC_F_NEXT = 0"
    and f: "\<forall>i < NUM. vd_free (vd s) i \<longleftrightarrow> i \<ge> 3"
  shows "free_chain 0 (with_locks {VdiskLock} s) = Ok () (with_locks {VdiskLock} (freed 2 (freed 1 (freed 0 s))))"
proof -
  let ?body = "\<lambda>i. bind (gets (\<lambda>s. vd_desc (vd s) i)) (\<lambda>d.
       seq (free_desc i)
           (ret (if d_flags d AND VRING_DESC_F_NEXT \<noteq> 0 then Inl (unat (d_next d)) else Inr ())))"
  let ?L = "with_locks {VdiskLock}"
  have nf: "\<not> vd_free (vd s) 0" "\<not> vd_free (vd s) (Suc 0)" "\<not> vd_free (vd s) 2" using f by simp_all
  have 0: "free_desc 0 (?L s) = Ok () (?L (freed 0 s))" by (rule free_desc_run) (use u nf in simp_all)
  have 1: "free_desc 1 (?L (freed 0 s)) = Ok () (?L (freed 1 (freed 0 s)))"
    by (rule free_desc_run) (use u nf in \<open>simp_all add: desc_set_def\<close>)
  have 2: "free_desc 2 (?L (freed 1 (freed 0 s))) = Ok () (?L (freed 2 (freed 1 (freed 0 s))))"
    by (rule free_desc_run) (use u nf in \<open>simp_all add: desc_set_def\<close>)
  have b: "?body 0 (?L s) = Ok (Inl 1) (?L (freed 0 s))"
    "?body 1 (?L (freed 0 s)) = Ok (Inl 2) (?L (freed 1 (freed 0 s)))"
    "?body 2 (?L (freed 1 (freed 0 s))) = Ok (Inr ()) (?L (freed 2 (freed 1 (freed 0 s))))"
    using d 0 1 2 by (simp_all add: bind_def seq_def gets_def ret_def desc_set_def)
  show ?thesis
    unfolding free_chain_def
    by (subst loopM_unfold, simp only: bind_def [of "?body 0"] b outcome.case sum.case,
        subst loopM_unfold, simp only: bind_def [of "?body 1"] b outcome.case sum.case,
        subst loopM_unfold, simp only: bind_def [of "?body 2"] b outcome.case sum.case ret_run)
qed

definition complete :: "'z disk_state_scheme \<Rightarrow> 'z disk_state_scheme" where
  "complete s = freed 2 (freed 1 (freed 0 (s\<lparr>vd := (vd s)\<lparr>vd_info_b := (vd_info_b (vd s))(0 := None)\<rparr>\<rparr>)))"

lemma vd_slept: "vd (slept p w b k s) = (served (vd s))\<lparr>vd_used_idx := vd_used_idx (vd s) + 1\<rparr>"
  by (simp add: slept_def back_up_def switched_to_def woken_def finished_def acked_def asleep_def) (simp add: served_def)

lemma alloc3_run:
  assumes "vd_idle (vd s)"
  shows "loopM (\<lambda>_. bind alloc3_desc (\<lambda>r. case r of
         Some idx \<Rightarrow> ret (Inr idx)
       | None \<Rightarrow> seq (sleep disk_wait ChanDisk VdiskLock) (ret (Inl ())))) () (with_locks L s)
    = Ok [0, 1, 2] (with_locks L (s\<lparr>vd := taken3 (vd s)\<rparr>))"
proof -
  have "alloc3_desc (with_locks L s) = Ok (Some [0, 1, 2]) ((with_locks L s)\<lparr>vd := taken3 (vd s)\<rparr>)"
    using alloc3_desc_run [of "with_locks L s"] assms by (simp add: vd_idle_def)
  then show ?thesis by (subst loopM_unfold) (simp add: bind_def ret_def with_locks_disk)
qed

definition sector_of :: "uint \<Rightarrow> uint64" where
  "sector_of n = ucast (n * word_of_nat (BSIZE div 512))"

lemma even_sector [simp]: "even (unat (sector_of n))"
proof -
  have "unat (ucast x :: uint64) = unat x" for x :: uint by transfer (simp add: take_bit_take_bit min_def)
  moreover have "even (unat (n * 2))" unfolding unat_word_ariths by (rule dvd_mod) simp_all
  ultimately show ?thesis by (simp add: sector_of_def)
qed

lemma block_cut: "block (take n ms) s = Ok () t \<Longrightarrow> block (drop n ms) t = r \<Longrightarrow> block ms s = r"
proof (induction n arbitrary: ms s)
  case (Suc n)
  show ?case
  proof (cases ms)
    case (Cons m ms')
    then obtain u where "m s = Ok () u" "block (take n ms') u = Ok () t"
      using Suc.prems(1) by (auto simp: seq_def bind_def split: outcome.splits)
    then show ?thesis using Cons Suc by (auto simp: seq_def bind_def)
  qed (use Suc.prems in \<open>simp add: ret_def\<close>)
qed (simp add: ret_def)

lemma virtio_run:
  assumes u: "unlocked s" and n: "noff (mycpu s) = 0" and me: "cpu_proc (mycpu s) = Some p" "p < NPROC"
    and idle: "vd_idle (vd s)" and sec: "sec = sector_of (b_blockno (bufs s b))"
  shows "virtio_disk_rw disk_wait b w s = Ok () (settled (complete (slept p w b (unat sec div 2) (asked b w sec s))))"
proof -
  let ?a = "asked b w sec s" let ?z = "slept p w b (unat sec div 2) ?a"
  let ?L = "with_locks {VdiskLock}" let ?y = "?z\<lparr>vd := (vd ?z)\<lparr>vd_info_b := (vd_info_b (vd ?z))(0 := None)\<rparr>\<rparr>"
  have pend: "pending b w sec (vd ?a)" using queued_pending [OF idle, of sec] even_sector sec by simp
  have acq: "acquire VdiskLock s = Ok () (?L s)" using u by (intro acquire_first) (simp add: unlocked_def)
  have wait: "loopM (\<lambda>_. bind (bget_field b b_disk) (\<lambda>busy.
         if busy then seq (sleep disk_wait (ChanBuf b) VdiskLock) (ret (Inl ())) else ret (Inr ()))) () (?L ?a) = Ok () (?L ?z)"
    by (rule wait_run) (use u n me pend in \<open>simp_all add: asked_def mycpu_def notified_def\<close>)
  have clr: "vset (\<lambda>v. v\<lparr>vd_info_b := (vd_info_b v)(0 := None)\<rparr>) (?L ?z) = Ok () (?L ?y)"
    by (simp add: vset_run with_locks_disk)
  have fin: "free_chain 0 (?L ?y) = Ok () (?L (complete ?z))"
    unfolding complete_def
    by (rule free_chain_run) (use u pend in \<open>simp_all add: vd_slept served_def pending_def chain3_def\<close>)
  have rel: "release VdiskLock (?L (complete ?z)) = Ok () (settled (complete ?z))"
    by (rule release_run1) (use u in \<open>simp add: complete_def\<close>)
  have first: "bget_field b (\<lambda>x. ucast (b_blockno x * word_of_nat (BSIZE div 512)) :: uint64) s = Ok sec s"
    by (simp add: bget_field_def gets_def sec sector_of_def)
  have idx: "[0, 1, 2] ! 0 = (0::nat)" "[0, 1, 2] ! 1 = (1::nat)" "[0, 1, 2] ! 2 = (2::nat)" by simp_all
  show ?thesis
    unfolding virtio_disk_rw_def
    by (rule bind_step, rule first, rule seq_step, rule acq, rule bind_step, rule alloc3_run [OF idle], unfold Let_def idx,
        rule block_cut [where n = "Suc (Suc (Suc (Suc (Suc (Suc (Suc (Suc (Suc (Suc 0)))))))))"],
        unfold take_Suc_Cons take_0 drop_Suc_Cons drop_0, rule ask_run, unfold block.simps,
        rule seq_step, rule wait, rule seq_step, rule clr, rule seq_step, rule fin, rule seq_step, rule rel, rule ret_run)
qed

section \<open>The contract\<close>

lemma sans_drv_same:
  "sans_drv (settled s) = sans_drv s" "sans_drv (s\<lparr>vd := v\<rparr>) = sans_drv s" "sans_drv (s\<lparr>vreg_log := r\<rparr>) = sans_drv s"
  "sans_drv (s\<lparr>procs := P\<rparr>) = sans_drv s"
  by (rule disk_state.equality; simp add: sans_drv_def sans_procs_def settled_def mycpu_def intr_get_def)+

lemma sans_drv_on_hart: "sans_drv (on_hart me s) = on_hart me (sans_drv s)"
  by (rule disk_state.equality)
    (auto simp: sans_drv_def sans_procs_def on_hart_def mycpu_write_def settled_def mycpu_def intr_get_def)

lemma sans_drv_get: "bufs (sans_drv s) = bufs s" "disk_data (sans_drv s) = disk_data s" "disk_log (sans_drv s) = disk_log s"
  by (simp_all add: sans_drv_def sans_procs_def)

lemma sans_drv_disk_upd:
  "sans_drv (s\<lparr>disk_data := d\<rparr>) = (sans_drv s)\<lparr>disk_data := d\<rparr>" "sans_drv (s\<lparr>disk_log := h\<rparr>) = (sans_drv s)\<lparr>disk_log := h\<rparr>"
  by (rule disk_state.equality; simp add: sans_drv_def sans_procs_def settled_disk)+

definition idle_buf :: "nat \<Rightarrow> 'z disk_state_scheme \<Rightarrow> 'z disk_state_scheme" where
  "idle_buf b s = s\<lparr>bufs := (bufs s)(b := (bufs s b)\<lparr>b_disk := False\<rparr>)\<rparr>"

lemma sans_drv_steps:
  "sans_drv (transfer w b k s) = transfer w b k (sans_drv s)"
  "sans_drv (finished b s) = idle_buf b (sans_drv s)" "sans_drv (acked s) = sans_drv s" "sans_drv (put_proc p f s) = sans_drv s"
  "sans_drv (freed i s) = sans_drv s"
  "sans_drv (asked b w sec s) = (sans_drv s)\<lparr>bufs := (bufs s)(b := (bufs s b)\<lparr>b_disk := True\<rparr>)\<rparr>"
  by (simp_all add: transfer_def finished_def acked_def put_proc_def freed_def asked_def idle_buf_def
      sans_drv_same sans_drv_upd sans_drv_disk_upd sans_drv_get)

lemma on_hart_undo:
  assumes "cpu_proc (mycpu s) = Some p" "\<not> b_disk (bufs s b)"
  shows "on_hart (Some p) (idle_buf b (transfer w b k (on_hart None (s\<lparr>bufs := (bufs s)(b := (bufs s b)\<lparr>b_disk := True\<rparr>)\<rparr>)))) = transfer w b k s"
  using assms by (intro disk_state.equality)
    (auto simp: idle_buf_def on_hart_def transfer_def mycpu_write_def mycpu_def fun_eq_iff intro!: cpu.equality buf.equality)

lemma sans_drv_finish:
  assumes "cpu_proc (mycpu s) = Some p" "\<not> b_disk (bufs s b)"
  shows "sans_drv (complete (slept p w b k (asked b w sec s))) = sans_drv (transfer w b k s)"
proof -
  have "on_hart (Some p) (idle_buf b (transfer w b k (on_hart None ((sans_drv s)\<lparr>bufs := (bufs (sans_drv s))(b := (bufs (sans_drv s) b)\<lparr>b_disk := True\<rparr>)\<rparr>))))
      = transfer w b k (sans_drv s)"
    by (rule on_hart_undo) (simp_all add: assms sans_drv_hart sans_drv_get)
  then show ?thesis
    by (simp add: complete_def slept_def back_up_def switched_to_def woken_def asleep_def sans_drv_same sans_drv_steps sans_drv_on_hart sans_drv_get)
qed

lemma pids:
  "p_pid (all_awake ch s q) = p_pid (procs s q)" "p_pid (procs (put_proc p (\<lambda>x. x\<lparr>p_state := st\<rparr>) s) q) = p_pid (procs s q)"
  "p_pid (procs (put_proc p (\<lambda>x. x\<lparr>p_chan := c\<rparr>) s) q) = p_pid (procs s q)"
  "p_pid (procs (put_proc p (\<lambda>x. x\<lparr>p_chan := c, p_state := st\<rparr>) s) q) = p_pid (procs s q)"
  by (simp_all add: all_awake_def awakened_def put_proc_def)

lemma pids_finish: "p_pid (procs (complete (slept p w b k (asked b w sec s))) q) = p_pid (procs s q)"
proof -
  have f: "p_pid (procs (freed i s) q) = p_pid (procs s q)" "p_pid (procs (finished b s) q) = p_pid (procs s q)"
    "procs (acked s) = procs s" for i b and s :: "'b disk_state_scheme"
    by (simp_all add: freed_def finished_def acked_def pids)
  show ?thesis
    by (simp add: complete_def f slept_def back_up_def switched_to_def woken_def asleep_def pids del: put_proc_facts)
qed

lemma vd_finish: "vd_idle (vd s) \<Longrightarrow> vd_idle (vd (complete (slept p w b k (asked b w sec s))))"
  by (auto simp: vd_idle_def complete_def vd_slept served_def desc_set_def queued_def taken3_def Let_def)

lemma sector_half: "n < 0x80000000 \<Longrightarrow> unat (sector_of n) div 2 = unat n"
proof -
  assume n: "n < 0x80000000"
  then have "unat n < 2147483648" by (simp add: word_less_nat_alt)
  then have "unat (n * 2) = unat n * 2" by (simp add: unat_word_ariths)
  moreover have "unat (ucast x :: uint64) = unat x" for x :: uint by transfer (simp add: take_bit_take_bit min_def)
  ultimately show ?thesis by (simp add: sector_of_def)
qed

lemma virtio_wp:
  assumes q: "quiet s" and p: "cpu_proc (mycpu s) = Some p" "p < NPROC" and idle: "vd_idle (vd s)"
    and b: "\<not> b_disk (bufs s b)" "b_blockno (bufs s b) < 0x80000000"
  shows "wp (virtio_disk_rw disk_wait b w) (\<lambda>_. drv_near (transfer w b (unat (b_blockno (bufs s b))) s)) s"
proof -
  let ?k = "unat (b_blockno (bufs s b))"
  have k: "unat (sector_of (b_blockno (bufs s b))) div 2 = ?k" by (rule sector_half [OF b(2)])
  have run: "virtio_disk_rw disk_wait b w s = Ok () (settled (complete (slept p w b ?k (asked b w (sector_of (b_blockno (bufs s b))) s))))"
    using virtio_run [OF _ _ p idle refl, of b w] q unfolding k by (simp add: quiet_def unlocked_def)
  have "drv_near (transfer w b ?k s) (settled (complete (slept p w b ?k (asked b w (sector_of (b_blockno (bufs s b))) s))))"
    unfolding drv_near_def
    using sans_drv_finish [OF p(1) b(1), of w ?k "sector_of (b_blockno (bufs s b))"] vd_finish [OF idle]
    by (simp add: sans_drv_same pids_finish)
  then show ?thesis by (simp add: wp_iff run)
qed

text \<open>The disk of the machine: the driver of the source, with the device behind it.\<close>

definition virtio_env :: "('z disk_state_scheme) kenv" where
  "virtio_env = \<lparr>e_sw = disk_wait, e_rw = virtio_disk_rw disk_wait\<rparr>"

lemma virtio_read_write:
  assumes q: "quiet s" and idle: "vd_idle (vd s)" and b: "\<not> b_disk (bufs s b)" "b_blockno (bufs s b) < 0x80000000"
  shows "wp (e_rw virtio_env b w) (\<lambda>_. drv_near (transfer w b (unat (b_blockno (bufs s b))) s)) s"
proof -
  obtain p where "cpu_proc (mycpu s) = Some p" "p < NPROC" using q by (auto simp: quiet_def)
  from virtio_wp [OF q this idle b] show ?thesis by (simp add: virtio_env_def)
qed

interpretation virtio: block_driver virtio_env
proof unfold_locales
  fix s :: "'a disk_state_scheme" and b
  assume "quiet s" "vd_idle (vd s)" "b < NBUF" and b: "\<not> b_disk (bufs s b)" "b_blockno (bufs s b) < 0x80000000"
  note run = virtio_read_write [OF this(1,2) b]
  show "wp (e_rw virtio_env b False) (\<lambda>_. drv_near (s\<lparr>bufs := (bufs s)(b := (bufs s b)\<lparr>b_data := disk_data s (unat (b_blockno (bufs s b)))\<rparr>)\<rparr>)) s"
    using run [of False] by (simp add: transfer_def)
  show "wp (e_rw virtio_env b True) (\<lambda>_. drv_near (s\<lparr>disk_data := (disk_data s)(unat (b_blockno (bufs s b)) := b_data (bufs s b)),
        disk_log := disk_log s @ [(unat (b_blockno (bufs s b)), b_data (bufs s b))]\<rparr>)) s"
    using run [of True] by (simp add: transfer_def)
qed

section \<open>Properties\<close>

definition back_on :: "nat \<Rightarrow> nat \<Rightarrow> 'z disk_state_scheme \<Rightarrow> bool" where
  "back_on p b s \<longleftrightarrow> cpu_proc (mycpu s) = Some p \<and> p_state (procs s p) = RUNNING \<and> \<not> b_disk (bufs s b)"

lemma back_on_steps:
  "back_on p b (slept p w b k s)" "back_on p b s \<Longrightarrow> back_on p b (s\<lparr>vd := v\<rparr>)" "back_on p b s \<Longrightarrow> back_on p b (freed i s)"
  "back_on p b (settled s) = back_on p b s"
proof -
  show "back_on p b (slept p w b k s)" by (simp add: back_on_def) (simp add: slept_def back_up_def switched_to_def woken_def finished_def)
  show "back_on p b s \<Longrightarrow> back_on p b (s\<lparr>vd := v\<rparr>)" by (simp add: back_on_def mycpu_def)
  show "back_on p b s \<Longrightarrow> back_on p b (freed i s)"
    by (auto simp: back_on_def) (auto simp: freed_def all_awake_def awakened_def)
qed (simp add: back_on_def)

text \<open>C4: a disk request completes. When \<open>virtio_disk_rw\<close> is called by process \<open>p\<close> with the driver idle, then
  against a device that serves its queue the call returns: the process is running again, the request is over, the
  three descriptors are free and nothing is left in the rings.\<close>

theorem virtio_disk_completes:
  assumes "quiet s" "vd_idle (vd s)" "cpu_proc (mycpu s) = Some p" "p < NPROC"
  shows "\<exists>t. virtio_disk_rw disk_wait b w s = Ok () t \<and> p_state (procs t p) = RUNNING \<and> \<not> b_disk (bufs t b)
    \<and> vd_idle (vd t) \<and> cpu_proc (mycpu t) = Some p"
proof -
  let ?sec = "sector_of (b_blockno (bufs s b))"
  let ?t = "complete (slept p w b (unat ?sec div 2) (asked b w ?sec s))"
  have "virtio_disk_rw disk_wait b w s = Ok () (settled ?t)"
    using virtio_run [OF _ _ assms(3,4,2) refl] assms(1) by (simp add: quiet_def unlocked_def)
  moreover have "back_on p b ?t" unfolding complete_def by (intro back_on_steps(1-3))
  ultimately show ?thesis using vd_finish [OF assms(2)] by (simp add: back_on_def)
qed

lemma virtio_disk_completes_witness:
  "\<exists>t. virtio_disk_rw disk_wait 3 True (disk0 buf0 (\<lambda>_. blank) ()) = Ok () t \<and> p_state (procs t 0) = RUNNING \<and> \<not> b_disk (bufs t 3)
    \<and> vd_idle (vd t) \<and> cpu_proc (mycpu t) = Some 0"
  by (rule virtio_disk_completes) (simp_all add: vd0_idle)

text \<open>C3: the driver moves the right data, with a device that asks for what the virtio specification asks for:
  three descriptors of the right lengths and flags, and a notification. A read leaves the disk as it is and makes the
  contents of the buffer's block, the \<open>BSIZE\<close> bytes from the sector \<open>blockno * (BSIZE / 512)\<close>, the buffer's
  data; a write changes exactly that block of the disk, to the buffer's data, and no buffer. Everything else above the driver,
  locks and interrupt state included, is as before. This is for a process that runs with the queue idle and no
  lock held, and a block number below \<open>2 ^ 31\<close>, where the number of the sector does not wrap; the machine has one hart, and
  while the process sleeps only the device and its interrupt handler run.\<close>

theorem virtio_disk_transfers:
  assumes "quiet s" "vd_idle (vd s)" "\<not> b_disk (bufs s b)" "b_blockno (bufs s b) < 0x80000000"
  shows "wp (virtio_disk_rw disk_wait b w) (\<lambda>_ t.
      (let k = unat (b_blockno (bufs s b)) in
        bufs t = (if w then bufs s else (bufs s)(b := (bufs s b)\<lparr>b_data := disk_data s k\<rparr>))
      \<and> disk_data t = (if w then (disk_data s)(k := b_data (bufs s b)) else disk_data s)
      \<and> disk_log t = (if w then disk_log s @ [(k, b_data (bufs s b))] else disk_log s))
      \<and> bio_near s t \<and> quiet t) s"
proof -
  have "wp (virtio_disk_rw disk_wait b w) (\<lambda>_. drv_near (transfer w b (unat (b_blockno (bufs s b))) s)) s"
    using virtio_read_write [OF assms] by (simp add: virtio_env_def)
  then show ?thesis
  proof (rule wp_mono)
    fix t assume n: "drv_near (transfer w b (unat (b_blockno (bufs s b))) s) t"
    have "bio_near (transfer w b (unat (b_blockno (bufs s b))) s) t" by (rule drv_near_bio_near [OF n])
    then have "bio_near s t" by (cases w) (simp_all add: transfer_def)
    moreover have "quiet (transfer w b (unat (b_blockno (bufs s b))) s)"
      using assms(1) by (simp add: transfer_def quiet_def mycpu_def lock_idle_def intr_ok_def intr_get_def)
    ultimately show "(let k = unat (b_blockno (bufs s b)) in
        bufs t = (if w then bufs s else (bufs s)(b := (bufs s b)\<lparr>b_data := disk_data s k\<rparr>))
      \<and> disk_data t = (if w then (disk_data s)(k := b_data (bufs s b)) else disk_data s)
      \<and> disk_log t = (if w then disk_log s @ [(k, b_data (bufs s b))] else disk_log s))
      \<and> bio_near s t \<and> quiet t"
      using drv_near_facts [OF n] by (simp add: transfer_def Let_def)
  qed
qed

lemma virtio_disk_transfers_witness:
  "wp (virtio_disk_rw disk_wait 0 True) (\<lambda>_ t. disk_data t 40 = replicate BSIZE 7 \<and> disk_data t 41 = blank)
    (disk0 (dirty_buf (replicate BSIZE 7)) (\<lambda>_. blank) ())"
proof -
  let ?s = "disk0 (dirty_buf (replicate BSIZE 7)) (\<lambda>_. blank) ()"
  have "quiet ?s" "vd_idle (vd ?s)" "\<not> b_disk (bufs ?s 0)" "b_blockno (bufs ?s 0) < 0x80000000"
    by (simp_all add: vd0_idle dirty_buf_def buf0_def)
  from virtio_disk_transfers [OF this, of True] show ?thesis
    by (rule wp_mono) (simp add: dirty_buf_def Let_def)
qed

text \<open>C2: the buffer cache is coherent. In a state that represents the abstract cache \<open>a\<close>, \<open>bread\<close> of a block that
  is \<open>readable\<close> (nobody has it locked, it has fewer than 1000 users, it is in use already or there is a buffer without users for it,
  and its number is below \<open>2 ^ 31\<close>) returns a valid buffer of the block whose data is the block's contents, also when those are newer than the
  disk; the block is then locked by the caller and has one more user, and nothing else of the cache has changed. No buffer is ever evicted
  whose contents would be lost: the state represents the new abstract cache.\<close>

theorem bread_coherent:
  assumes "cache_rel dev s a" "readable k a"
  shows "wp (bread virtio_env dev k) (\<lambda>b t. b < NBUF \<and> b_valid (bufs t b) \<and> b_blockno (bufs t b) = k
      \<and> b_data (bufs t b) = c_val a k \<and> cache_rel dev t (c_read k a)) s"
proof (rule wp_mono [OF virtio.bread_wp [OF assms]])
  fix b t assume "cached dev (bufs t) b k \<and> cache_rel dev t (c_read k a) \<and> steady dev a s t"
  then have r: "cache_rel dev t (c_read k a)" and h: "handle dev t (c_read k a) b k" by (simp_all add: handle_def c_read_def)
  from handle_facts [OF r h] r
  show "b < NBUF \<and> b_valid (bufs t b) \<and> b_blockno (bufs t b) = k \<and> b_data (bufs t b) = c_val a k \<and> cache_rel dev t (c_read k a)"
    by (simp add: c_read_def)
qed

lemma bread_coherent_witness:
  "wp (bread virtio_env 1 40) (\<lambda>b t. b_data (bufs t b) = replicate BSIZE 7) (disk0 (dirty_buf (replicate BSIZE 7)) (\<lambda>_. blank) ())
   \<and> wp (bread virtio_env 1 41) (\<lambda>b t. b_data (bufs t b) = blank) (disk0 (dirty_buf (replicate BSIZE 7)) (\<lambda>_. blank) ())"
proof -
  let ?a = "dirty_cache (replicate BSIZE 7)"
  have rel: "cache_rel 1 (disk0 (dirty_buf (replicate BSIZE 7)) (\<lambda>_. blank) ()) ?a" by (rule dirty_rel) simp
  have "{k. c_pins ?a k \<noteq> 0} = {40}" by (auto simp: dirty_cache_def)
  then have ok: "readable 40 ?a" "readable 41 ?a" by (simp_all add: readable_def) (simp_all add: dirty_cache_def)
  have v: "c_val ?a 40 = replicate BSIZE 7" "c_val ?a 41 = blank" by (simp_all add: dirty_cache_def)
  from bread_coherent [OF rel ok(1)] bread_coherent [OF rel ok(2)] show ?thesis
    unfolding v by (auto elim!: wp_mono)
qed

end
