(* ===== verification/Recovery.thy ===== *)
theory Recovery
  imports DiskDriver Log
begin

text \<open>
  Crash safety of the log of \<open>kernel/log.c\<close>, for a disk driver that keeps its contract (locale \<open>log_driver\<close>).

  Each operation of the log is shown to be an operation on the abstract cache of theory \<open>BlockCache\<close>: copying a
  block to the log or to its home, writing and reading the header. The list of disk writes that \<open>commit\<close> makes
  is then analysed as such: after any prefix of it the disk satisfies \<open>crash_ok\<close>, and \<open>recover_from_log\<close> on a disk that
  does ends with the blocks outside the log all old or all new.
\<close>

section \<open>The disk under the log\<close>

text \<open>Writing a block through the cache to the disk.\<close>

definition c_put :: "uint \<Rightarrow> data \<Rightarrow> cache \<Rightarrow> cache" where
  "c_put k d a = a\<lparr>c_val := (c_val a)(k := d), c_disk := (c_disk a)(k := d), c_log := c_log a @ [(k, d)]\<rparr>"

lemma overwrite_all: "length d = length e \<Longrightarrow> overwrite d 0 e = e"
  by (simp add: overwrite_def)

lemma c_copy_net:
  assumes "k \<noteq> lb" "lb \<notin> c_held a" "k \<notin> c_held a"
  shows "c_release lb (c_release k (c_write lb (c_set lb d (c_read k (c_read lb a))))) = c_put lb d a"
    and "c_release lb (c_release k (c_write lb (c_set lb d (c_read lb (c_read k a))))) = c_put lb d a"
    and "c_release lb (c_release k (c_unpin lb (c_write lb (c_set lb d (c_read lb (c_read k a)))))) = c_unpin lb (c_put lb d a)"
  using assms
  by (auto simp: c_release_def c_write_def c_set_def c_read_def c_put_def c_unpin_def fun_eq_iff insert_Diff_if)

lemma lget_run: "lget f s = Ok (f (log s)) s"
  by (simp add: lget_def gets_def)

lemma bio_near_log: "bio_near s t \<Longrightarrow> log t = log s"
proof -
  assume "bio_near s t"
  then have eq: "sans_bio s = sans_bio t" by (simp add: bio_near_def)
  show "log t = log s" using arg_cong [OF eq, of log] by (simp add: sans_bio_def sans_drv_def sans_procs_def settled_def)
qed

text \<open>Reading two blocks one after the other.\<close>

lemma steady_held: "steady dev (c_write k a) s t = steady dev a s t" "steady dev (c_set k d a) s t = steady dev a s t"
  "steady dev (c_unpin k a) s t = steady dev a s t"
  by (simp_all add: steady_def c_write_def c_set_def c_unpin_def)

lemma held_simps [simp]:
  "c_held (c_read k a) = insert k (c_held a)" "c_held (c_set k d a) = c_held a" "c_held (c_write k a) = c_held a"
  "c_held (c_release k a) = c_held a - {k}" "c_held (c_unpin k a) = c_held a" "c_held (c_put k d a) = c_held a"
  by (simp_all add: c_read_def c_set_def c_write_def c_release_def c_unpin_def c_put_def)

lemma val_simps [simp]:
  "c_val (c_read k a) = c_val a" "c_val (c_set k d a) = (c_val a)(k := d)" "c_val (c_write k a) = c_val a"
  "c_val (c_release k a) = c_val a" "c_val (c_unpin k a) = c_val a" "c_val (c_put k d a) = (c_val a)(k := d)"
  by (simp_all add: c_read_def c_set_def c_write_def c_release_def c_unpin_def c_put_def)

lemma disk_simps [simp]:
  "c_disk (c_read k a) = c_disk a" "c_disk (c_set k d a) = c_disk a" "c_disk (c_write k a) = (c_disk a)(k := c_val a k)"
  "c_disk (c_release k a) = c_disk a" "c_disk (c_unpin k a) = c_disk a" "c_disk (c_put k d a) = (c_disk a)(k := d)"
  by (simp_all add: c_read_def c_set_def c_write_def c_release_def c_unpin_def c_put_def)

lemma pins_simps [simp]:
  "c_pins (c_read k a) = (c_pins a)(k := Suc (c_pins a k))" "c_pins (c_set k d a) = c_pins a" "c_pins (c_write k a) = c_pins a"
  "c_pins (c_release k a) = (c_pins a)(k := c_pins a k - 1)" "c_pins (c_unpin k a) = (c_pins a)(k := c_pins a k - 1)"
  "c_pins (c_put k d a) = c_pins a"
  by (simp_all add: c_read_def c_set_def c_write_def c_release_def c_unpin_def c_put_def)

lemma log_simps [simp]:
  "c_log (c_read k a) = c_log a" "c_log (c_set k d a) = c_log a" "c_log (c_write k a) = c_log a @ [(k, c_val a k)]"
  "c_log (c_release k a) = c_log a" "c_log (c_unpin k a) = c_log a" "c_log (c_put k d a) = c_log a @ [(k, d)]"
  by (simp_all add: c_read_def c_set_def c_write_def c_release_def c_unpin_def c_put_def)

text \<open>Forward steps: running an operation from a state that is related to \<open>a\<close>.\<close>

lemma bget_field_run: "bget_field b f s = Ok (f (bufs s b)) s"
  by (simp add: bget_field_def gets_def)

lemma steady_near: "steady dev a s t \<Longrightarrow> bio_near s t"
  by (simp add: steady_def)

lemma rel_length: "cache_rel dev s a \<Longrightarrow> length (c_val a k) = BSIZE"
  using cache_mapD(9) [OF cache_relD(2)] by blast

lemma rel_clean: "cache_rel dev s a \<Longrightarrow> c_pins a k = 0 \<Longrightarrow> c_val a k = c_disk a k"
  using cache_mapD(7) [OF cache_relD(2)] by blast

lemma brelse_step:
  assumes "cache_rel dev s a" "handle dev s a b k" "c_pins a k \<noteq> 1 \<or> c_val a k = c_disk a k"
  obtains t where "brelse b s = Ok () t" "cache_rel dev t (c_release k a)" "steady dev a s t"
  using brelse_wp [OF assms] by (auto simp: wp_iff)

lemma bset_step:
  assumes "cache_rel dev s a" "handle dev s a b k" "length (f (c_val a k)) = BSIZE"
  obtains t where "bset b (\<lambda>x. x\<lparr>b_data := f (b_data x)\<rparr>) s = Ok () t" "cache_rel dev t (c_set k (f (c_val a k)) a)" "steady dev a s t"
  using bset_data_wp [where f = f, OF assms(1,2)] assms(3) by (auto simp: wp_iff)

lemma bunpin_step:
  assumes "cache_rel dev s a" "handle dev s a b k" "1 < c_pins a k"
  obtains t where "bunpin b s = Ok () t" "cache_rel dev t (c_unpin k a)" "steady dev a s t"
  using bunpin_wp [OF assms] by (auto simp: wp_iff)

context block_driver
begin

lemma bread_step:
  assumes "cache_rel dev s a" "readable k a"
  obtains b t where "bread E dev k s = Ok b t" "handle dev t (c_read k a) b k" "cache_rel dev t (c_read k a)" "steady dev a s t"
  using bread_wp [OF assms] by (auto simp: wp_iff handle_def)

lemma bwrite_step:
  assumes "cache_rel dev s a" "handle dev s a b k" "k < 0x80000000"
  obtains t where "bwrite E b s = Ok () t" "cache_rel dev t (c_write k a)" "steady dev a s t"
  using bwrite_wp [OF assms] by (auto simp: wp_iff)

text \<open>Copying block \<open>from\<close> to block \<open>to\<close>, as \<open>write_log\<close> does it.\<close>

lemma log_copy:
  assumes rel: "cache_rel dev s a" and held: "c_held a = {}" and ne: "fr \<noteq> to"
    and rd: "readable to a" "readable fr (c_read to a)"
  shows "wp (bind (bread E dev to) (\<lambda>tb. bind (bread E dev fr) (\<lambda>fb. bind (bget_field fb b_data) (\<lambda>d.
      block [bset tb (\<lambda>x. x\<lparr>b_data := overwrite (b_data x) 0 (take BSIZE d)\<rparr>), bwrite E tb, brelse fb, brelse tb]))))
    (\<lambda>_ t. cache_rel dev t (c_put to (c_val a fr) a) \<and> bio_near s t) s"
proof -
  obtain tb s1 where 1: "bread E dev to s = Ok tb s1" "handle dev s1 (c_read to a) tb to" "cache_rel dev s1 (c_read to a)" "steady dev a s s1"
    by (rule bread_step [OF rel rd(1)])
  let ?a2 = "c_read fr (c_read to a)"
  obtain fb s2 where 2: "bread E dev fr s1 = Ok fb s2" "handle dev s2 ?a2 fb fr" "cache_rel dev s2 ?a2" "steady dev (c_read to a) s1 s2"
    by (rule bread_step [OF 1(3) rd(2)])
  let ?d = "c_val a fr"
  have fd: "b_data (bufs s2 fb) = ?d" using handle_facts(5) [OF 2(3,2)] by simp
  have len: "length ?d = BSIZE" "length (c_val a to) = BSIZE" using rel_length [OF rel] by auto
  have ov: "overwrite (c_val ?a2 to) 0 (take BSIZE ?d) = ?d" using len by (simp add: overwrite_all)
  have h2: "handle dev s2 ?a2 tb to" using handle_steady [OF 1(2) 2(4)] by simp
  obtain s3 where 3: "bset tb (\<lambda>x. x\<lparr>b_data := overwrite (b_data x) 0 (take BSIZE ?d)\<rparr>) s2 = Ok () s3"
    "cache_rel dev s3 (c_set to ?d ?a2)" "steady dev ?a2 s2 s3"
    by (rule bset_step [where f = "\<lambda>e. overwrite e 0 (take BSIZE ?d)", OF 2(3) h2, unfolded ov, OF len(1)])
  let ?a3 = "c_set to ?d ?a2"
  have h3: "handle dev s3 ?a3 tb to" "handle dev s3 ?a3 fb fr" using handle_steady [OF h2 3(3)] handle_steady [OF 2(2) 3(3)] by simp_all
  have k: "to < 0x80000000" using rd(1) by (simp add: readable_def)
  obtain s4 where 4: "bwrite E tb s3 = Ok () s4" "cache_rel dev s4 (c_write to ?a3)" "steady dev ?a3 s3 s4"
    by (rule bwrite_step [OF 3(2) h3(1) k])
  let ?a4 = "c_write to ?a3"
  have h4: "handle dev s4 ?a4 tb to" "handle dev s4 ?a4 fb fr"
    using handle_steady [OF h3(1) 4(3)] handle_steady [OF h3(2) 4(3)] by simp_all
  have c4: "c_pins ?a4 fr \<noteq> 1 \<or> c_val ?a4 fr = c_disk ?a4 fr" using ne rel_clean [OF rel, of fr] by (cases "c_pins a fr = 0") simp_all
  obtain s5 where 5: "brelse fb s4 = Ok () s5" "cache_rel dev s5 (c_release fr ?a4)" "steady dev ?a4 s4 s5"
    by (rule brelse_step [OF 4(2) h4(2) c4])
  have h5: "handle dev s5 (c_release fr ?a4) tb to" using handle_steady [OF h4(1) 5(3)] ne by simp
  obtain s6 where 6: "brelse tb s5 = Ok () s6" "cache_rel dev s6 (c_release to (c_release fr ?a4))" "steady dev (c_release fr ?a4) s5 s6"
    by (rule brelse_step [OF 5(2) h5]) (use ne in simp)
  have "c_release to (c_release fr ?a4) = c_put to ?d a" using c_copy_net(1) [of fr to a ?d] ne held by simp
  moreover have "bio_near s s6"
    by (rule bio_near_trans [OF steady_near [OF 1(4)]] bio_near_trans [OF steady_near [OF 2(4)]]
        bio_near_trans [OF steady_near [OF 3(3)]] bio_near_trans [OF steady_near [OF 4(3)]]
        bio_near_trans [OF steady_near [OF 5(3)]] steady_near [OF 6(3)])+
  moreover have "bind (bread E dev to) (\<lambda>tb. bind (bread E dev fr) (\<lambda>fb. bind (bget_field fb b_data) (\<lambda>d.
      block [bset tb (\<lambda>x. x\<lparr>b_data := overwrite (b_data x) 0 (take BSIZE d)\<rparr>), bwrite E tb, brelse fb, brelse tb]))) s = Ok () s6"
    by (simp only: bind_def seq_def block.simps bget_field_run fd ret_run outcome.case 1(1) 2(1) 3(1) 4(1) 5(1) 6(1))
  ultimately show ?thesis using 6(2) by (simp only: wp_Ok)
qed

text \<open>Copying block \<open>fr\<close> of the log to its home \<open>to\<close>, as \<open>install_trans\<close> does it.\<close>

lemma install_copy:
  assumes rel: "cache_rel dev s a" and held: "c_held a = {}" and ne: "fr \<noteq> to"
    and rd: "readable fr a" "readable to (c_read fr a)" and pin: "\<not> rec \<Longrightarrow> 0 < c_pins a to"
  shows "wp (bind (bread E dev fr) (\<lambda>fb. bind (bread E dev to) (\<lambda>tb. bind (bget_field fb b_data) (\<lambda>d.
      block [bset tb (\<lambda>x. x\<lparr>b_data := overwrite (b_data x) 0 (take BSIZE d)\<rparr>), bwrite E tb,
        whenM (\<not> rec) (bunpin tb), brelse fb, brelse tb]))))
    (\<lambda>_ t. cache_rel dev t (if rec then c_put to (c_val a fr) a else c_unpin to (c_put to (c_val a fr) a)) \<and> bio_near s t) s"
proof -
  obtain fb s1 where 1: "bread E dev fr s = Ok fb s1" "handle dev s1 (c_read fr a) fb fr" "cache_rel dev s1 (c_read fr a)" "steady dev a s s1"
    by (rule bread_step [OF rel rd(1)])
  let ?a2 = "c_read to (c_read fr a)"
  obtain tb s2 where 2: "bread E dev to s1 = Ok tb s2" "handle dev s2 ?a2 tb to" "cache_rel dev s2 ?a2" "steady dev (c_read fr a) s1 s2"
    by (rule bread_step [OF 1(3) rd(2)])
  let ?d = "c_val a fr"
  have h2: "handle dev s2 ?a2 fb fr" using handle_steady [OF 1(2) 2(4)] by simp
  have fd: "b_data (bufs s2 fb) = ?d" using handle_facts(5) [OF 2(3) h2] by simp
  have len: "length ?d = BSIZE" "length (c_val a to) = BSIZE" using rel_length [OF rel] by auto
  have ov: "overwrite (c_val ?a2 to) 0 (take BSIZE ?d) = ?d" using len by (simp add: overwrite_all)
  let ?a3 = "c_set to ?d ?a2"
  obtain s3 where 3: "bset tb (\<lambda>x. x\<lparr>b_data := overwrite (b_data x) 0 (take BSIZE ?d)\<rparr>) s2 = Ok () s3"
    "cache_rel dev s3 ?a3" "steady dev ?a2 s2 s3"
    by (rule bset_step [where f = "\<lambda>e. overwrite e 0 (take BSIZE ?d)", OF 2(3,2), unfolded ov, OF len(1)])
  have h3: "handle dev s3 ?a3 tb to" "handle dev s3 ?a3 fb fr" using handle_steady [OF 2(2) 3(3)] handle_steady [OF h2 3(3)] by simp_all
  have k: "to < 0x80000000" using rd(2) by (simp add: readable_def)
  let ?a4 = "c_write to ?a3"
  obtain s4 where 4: "bwrite E tb s3 = Ok () s4" "cache_rel dev s4 ?a4" "steady dev ?a3 s3 s4"
    by (rule bwrite_step [OF 3(2) h3(1) k])
  have h4: "handle dev s4 ?a4 tb to" "handle dev s4 ?a4 fb fr"
    using handle_steady [OF h3(1) 4(3)] handle_steady [OF h3(2) 4(3)] by simp_all
  let ?a5 = "if rec then ?a4 else c_unpin to ?a4"
  obtain s5 where 5: "whenM (\<not> rec) (bunpin tb) s4 = Ok () s5" "cache_rel dev s5 ?a5" "steady dev ?a4 s4 s5"
  proof (cases rec)
    case True
    have "steady dev ?a4 s4 s4" by (simp add: steady_def)
    then show ?thesis using True 4(2) by (intro that [of s4]) (simp_all add: whenM_def ret_def)
  next
    case False
    have "1 < c_pins ?a4 to" using pin False by simp
    then obtain t where "bunpin tb s4 = Ok () t" "cache_rel dev t (c_unpin to ?a4)" "steady dev ?a4 s4 t"
      by (rule bunpin_step [OF 4(2) h4(1)])
    then show ?thesis using False by (intro that [of t]) (simp_all add: whenM_def)
  qed
  have h5: "handle dev s5 ?a5 tb to" "handle dev s5 ?a5 fb fr"
    using handle_steady [OF h4(1) 5(3)] handle_steady [OF h4(2) 5(3)] by simp_all
  have c5: "c_pins ?a5 fr \<noteq> 1 \<or> c_val ?a5 fr = c_disk ?a5 fr"
    using ne rel_clean [OF rel, of fr] by (cases "c_pins a fr = 0") simp_all
  obtain s6 where 6: "brelse fb s5 = Ok () s6" "cache_rel dev s6 (c_release fr ?a5)" "steady dev ?a5 s5 s6"
    by (rule brelse_step [OF 5(2) h5(2) c5])
  have h6: "handle dev s6 (c_release fr ?a5) tb to" using handle_steady [OF h5(1) 6(3)] ne by simp
  obtain s7 where 7: "brelse tb s6 = Ok () s7" "cache_rel dev s7 (c_release to (c_release fr ?a5))" "steady dev (c_release fr ?a5) s6 s7"
    by (rule brelse_step [OF 6(2) h6]) (use ne in simp)
  have "c_release to (c_release fr ?a5) = (if rec then c_put to ?d a else c_unpin to (c_put to ?d a))"
    using c_copy_net(2,3) [of fr to a ?d] ne held by simp
  moreover have "bio_near s s7"
    by (rule bio_near_trans [OF steady_near [OF 1(4)]] bio_near_trans [OF steady_near [OF 2(4)]]
        bio_near_trans [OF steady_near [OF 3(3)]] bio_near_trans [OF steady_near [OF 4(3)]]
        bio_near_trans [OF steady_near [OF 5(3)]] bio_near_trans [OF steady_near [OF 6(3)]] steady_near [OF 7(3)])+
  moreover have "bind (bread E dev fr) (\<lambda>fb. bind (bread E dev to) (\<lambda>tb. bind (bget_field fb b_data) (\<lambda>d.
      block [bset tb (\<lambda>x. x\<lparr>b_data := overwrite (b_data x) 0 (take BSIZE d)\<rparr>), bwrite E tb,
        whenM (\<not> rec) (bunpin tb), brelse fb, brelse tb]))) s = Ok () s7"
    by (simp only: bind_def seq_def block.simps bget_field_run fd ret_run outcome.case 1(1) 2(1) 3(1) 4(1) 5(1) 6(1) 7(1))
  ultimately show ?thesis using 7(2) by (simp only: wp_Ok)
qed

end

section \<open>The header block\<close>

definition head_upto :: "log \<Rightarrow> nat \<Rightarrow> data \<Rightarrow> data" where
  "head_upto l m d = fold (\<lambda>i d. put_le 4 d (4 + 4 * i) (ucast (lh_block l i))) [0..<m] (put_le 4 d 0 (word_of_int (lh_n l)))"

definition head_data :: "log \<Rightarrow> data \<Rightarrow> data" where
  "head_data l d = head_upto l (nat (lh_n l)) d"

lemma head_upto_Suc: "head_upto l (Suc m) d = put_le 4 (head_upto l m d) (4 + 4 * m) (ucast (lh_block l m))"
  by (simp add: head_upto_def)

lemma length_head_upto: "length d = BSIZE \<Longrightarrow> m \<le> 30 \<Longrightarrow> length (head_upto l m d) = BSIZE"
proof (induction m)
  case 0
  then show ?case by (simp add: head_upto_def length_put_le)
qed (simp add: head_upto_Suc length_put_le)

lemma head_upto_n:
  assumes "length d = BSIZE" "m \<le> 30"
  shows "get_le 4 (head_upto l m d) 0 = take_bit 32 (word_of_int (lh_n l))"
  using assms(2)
proof (induction m)
  case 0
  show ?case using assms(1) by (simp add: head_upto_def get_put_same)
next
  case (Suc m)
  have "length (head_upto l m d) = BSIZE" by (rule length_head_upto) (use assms Suc in auto)
  then show ?case using Suc by (simp add: head_upto_Suc get_put_other)
qed

lemma take_bit_ucast: "take_bit 32 (ucast (w :: uint) :: uint64) = ucast w"
  by (rule bit_word_eqI) (auto simp: bit_simps dest: bit_imp_le_length)

lemma head_upto_block:
  assumes "length d = BSIZE" "m \<le> 30" "i < m"
  shows "get_le 4 (head_upto l m d) (4 + 4 * i) = ucast (lh_block l i)"
  using assms(2,3)
proof (induction m)
  case (Suc m)
  have len: "length (head_upto l m d) = BSIZE" by (rule length_head_upto) (use assms Suc in auto)
  show ?case
  proof (cases "i = m")
    case True
    then show ?thesis
      using len Suc.prems by (simp add: head_upto_Suc get_put_same take_bit_ucast)
  next
    case False
    then show ?thesis using len Suc by (simp add: head_upto_Suc get_put_other)
  qed
qed simp

lemma sint_word32: "0 \<le> n \<Longrightarrow> n < 1000 \<Longrightarrow> sint (word_of_int n :: uint) = n"
  by (simp add: sint_uint uint_word_of_int signed_take_bit_int_eq_self)

lemma hdr_n_head:
  assumes "length d = BSIZE" "0 \<le> lh_n l" "lh_n l \<le> 30"
  shows "hdr_n (head_data l d) = lh_n l"
proof -
  have "get_le 4 (head_data l d) 0 = take_bit 32 (word_of_int (lh_n l))"
    unfolding head_data_def by (rule head_upto_n) (use assms in auto)
  moreover have "ucast (take_bit 32 (word_of_int (lh_n l) :: uint64)) = (word_of_int (lh_n l) :: uint)"
    by (rule bit_word_eqI) (simp add: bit_simps)
  ultimately show ?thesis using assms by (simp add: hdr_n_def sint_word32)
qed

lemma hdr_block_head:
  assumes "length d = BSIZE" "lh_n l \<le> 30" "i < nat (lh_n l)"
  shows "hdr_block (head_data l d) i = lh_block l i"
proof -
  have "get_le 4 (head_data l d) (4 + 4 * i) = ucast (lh_block l i)"
    unfolding head_data_def by (rule head_upto_block) (use assms in auto)
  moreover have "ucast (ucast (lh_block l i) :: uint64) = lh_block l i" by (rule bit_word_eqI) (simp add: bit_simps)
  ultimately show ?thesis by (simp add: hdr_block_def)
qed

section \<open>The operations of the log\<close>

text \<open>A log in the first $2^{31}$ blocks, with fewer than \<open>LOGSIZE\<close> blocks of the transaction, none of them in the log itself.\<close>

definition log_area :: "log \<Rightarrow> uint set" where
  "log_area l = log_bno l ` {..<LOGSIZE}"

definition log_place :: "log \<Rightarrow> bool" where
  "log_place l \<longleftrightarrow> 0 \<le> lg_start l \<and> lg_start l + int LOGSIZE \<le> 0x80000000"

definition log_blocks :: "log \<Rightarrow> uint list" where
  "log_blocks l = map (lh_block l) [0..<nat (lh_n l)]"

definition log_ok :: "log \<Rightarrow> bool" where
  "log_ok l \<longleftrightarrow> log_place l \<and> 0 \<le> lh_n l \<and> lh_n l < int LOGSIZE \<and> distinct (log_blocks l)
     \<and> (\<forall>k \<in> set (log_blocks l). k \<notin> log_area l \<and> k < 0x80000000)"

lemma log_bno_unat:
  assumes "log_place l" "i < LOGSIZE"
  shows "unat (log_bno l i) = nat (lg_start l) + i"
proof -
  have r: "0 \<le> lg_start l + int i" "lg_start l + int i < 4294967296" using assms by (auto simp: log_place_def)
  have "uint (log_bno l i) = (lg_start l + int i) mod 4294967296"
    unfolding log_bno_def by (simp only: uint_word_of_int) simp
  also have "\<dots> = lg_start l + int i" using r by (rule mod_pos_pos_trivial)
  finally show ?thesis using assms(1) by (simp add: log_place_def nat_add_distrib flip: nat_uint_eq)
qed

lemma log_bno_inj: "log_place l \<Longrightarrow> i < LOGSIZE \<Longrightarrow> j < LOGSIZE \<Longrightarrow> log_bno l i = log_bno l j \<longleftrightarrow> i = j"
  using log_bno_unat [of l i] log_bno_unat [of l j] by (metis add_left_cancel)

lemma log_bno_small: "log_place l \<Longrightarrow> i < LOGSIZE \<Longrightarrow> log_bno l i < 0x80000000"
  using log_bno_unat [of l i] unfolding log_place_def word_less_nat_alt by simp linarith

lemma log_bno_area: "i < LOGSIZE \<Longrightarrow> log_bno l i \<in> log_area l"
  by (simp add: log_area_def)

definition pinned :: "uint list \<Rightarrow> cache \<Rightarrow> bool" where
  "pinned ks a \<longleftrightarrow> c_held a = {} \<and> (\<forall>k. c_pins a k = (if k \<in> set ks then 1 else 0))"

lemma pinned_readable:
  assumes "pinned ks a" "length ks < NBUF" "k < 0x80000000"
  shows "readable k a"
    and "fr \<noteq> k \<Longrightarrow> fr < 0x80000000 \<Longrightarrow> fr \<in> set ks \<or> Suc (length ks) < NBUF \<Longrightarrow> readable fr (c_read k a)"
proof -
  have "{k. c_pins a k \<noteq> 0} = set ks" using assms(1) by (auto simp: pinned_def)
  then have c: "card {k. c_pins a k \<noteq> 0} \<le> length ks" using card_length by auto
  show "readable k a" using assms c by (auto simp: readable_def pinned_def)
  assume fr: "fr \<noteq> k" "fr < 0x80000000" "fr \<in> set ks \<or> Suc (length ks) < NBUF"
  have eq: "{j. c_pins (c_read k a) j \<noteq> 0} = insert k (set ks)" using assms(1) by (auto simp: pinned_def)
  have c2: "card (insert k (set ks)) \<le> Suc (length ks)"
    using card_insert_le_m1 [of "Suc (length ks)" "set ks" k] card_length [of ks] by simp
  show "readable fr (c_read k a)"
    unfolding readable_def eq using assms(1) fr c2 by (cases "fr \<in> set ks") (simp_all add: pinned_def)
qed

lemma length_log_blocks: "length (log_blocks l) = nat (lh_n l)"
  by (simp add: log_blocks_def)

lemma log_block_in: "i < nat (lh_n l) \<Longrightarrow> lh_block l i \<in> set (log_blocks l)"
  by (auto simp: log_blocks_def)

lemma log_okD:
  assumes "log_ok l" "i < nat (lh_n l)"
  shows "lh_block l i < 0x80000000" "lh_block l i \<notin> log_area l" "Suc i < LOGSIZE" "lh_block l i \<noteq> log_bno l (Suc i)"
proof -
  show 1: "lh_block l i < 0x80000000" "lh_block l i \<notin> log_area l"
    using assms log_block_in [OF assms(2)] by (auto simp: log_ok_def)
  show 2: "Suc i < LOGSIZE" using assms by (auto simp: log_ok_def)
  show "lh_block l i \<noteq> log_bno l (Suc i)" using 1(2) log_bno_area [OF 2, of l] by auto
qed

lemma log_ok_place: "log_ok l \<Longrightarrow> log_place l"
  by (simp add: log_ok_def)

lemma nth_map_upt_0: "i < n \<Longrightarrow> map f [0..<n] ! i = f i"
  by simp

definition logged :: "log \<Rightarrow> nat \<Rightarrow> cache \<Rightarrow> cache" where
  "logged l i a = c_put (log_bno l (Suc i)) (c_val a (lh_block l i)) a"

definition installed :: "bool \<Rightarrow> log \<Rightarrow> nat \<Rightarrow> cache \<Rightarrow> cache" where
  "installed rec l i a = (let a' = c_put (lh_block l i) (c_val a (log_bno l (Suc i))) a in
     if rec then a' else c_unpin (lh_block l i) a')"

lemma pinned_put [simp]: "pinned ks (c_put k d a) = pinned ks a"
  by (simp add: pinned_def)

lemma pinned_logged: "pinned ks a \<Longrightarrow> pinned ks (fold (logged l) is a)"
  by (induction "is" arbitrary: a) (simp_all add: logged_def)

lemma lset_run: "lset f s = Ok () (s\<lparr>log := f (log s)\<rparr>)"
  by (simp add: lset_def modify_def)

context block_driver
begin

lemma counted_loop_wp:
  assumes "\<And>i a t. i < n \<Longrightarrow> cache_rel dev t a \<Longrightarrow> bio_near s t \<Longrightarrow> P i a \<Longrightarrow> wp (body i) (\<lambda>_ u. cache_rel dev u (f i a) \<and> bio_near t u) t"
    and "\<And>i a. i < n \<Longrightarrow> P i a \<Longrightarrow> P (Suc i) (f i a)" and "cache_rel dev s a" "P 0 a"
  shows "wp (forM [0..<n] body) (\<lambda>_ t. cache_rel dev t (fold f [0..<n] a) \<and> bio_near s t \<and> P n (fold f [0..<n] a)) s"
proof (rule wp_forM [where I = "\<lambda>zs t. cache_rel dev t (fold f zs a) \<and> bio_near s t \<and> P (length zs) (fold f zs a)"])
  show "cache_rel dev s (fold f [] a) \<and> bio_near s s \<and> P (length []) (fold f [] a)" using assms by simp
next
  fix x zs ys t assume sp: "[0..<n] = zs @ x # ys" and I: "cache_rel dev t (fold f zs a) \<and> bio_near s t \<and> P (length zs) (fold f zs a)"
  have "length zs < length [0..<n]" unfolding sp by simp
  then have x: "x = length zs" "x < n" using arg_cong [OF sp, of "\<lambda>xs. xs ! length zs"] by simp_all
  have "wp (body x) (\<lambda>_ u. cache_rel dev u (f x (fold f zs a)) \<and> bio_near t u) t"
    by (rule assms(1)) (use I x in auto)
  then show "wp (body x) (\<lambda>_ u. cache_rel dev u (fold f (zs @ [x]) a) \<and> bio_near s u \<and> P (length (zs @ [x])) (fold f (zs @ [x]) a)) t"
    by (rule wp_mono) (use I x assms(2) bio_near_trans in auto)
qed simp

end

lemma log_upd_rel:
  "cache_rel dev (s\<lparr>log := l\<rparr>) a = cache_rel dev s a" "handle dev (s\<lparr>log := l\<rparr>) a b k = handle dev s a b k"
  by (simp_all add: cache_rel_def handle_def quiet_def curpid_def mycpu_def lock_idle_def intr_ok_def intr_get_def)

lemma lset_loop:
  "forM [0..<m] (\<lambda>i. lset (\<lambda>l. l\<lparr>lh_block := (lh_block l)(i := f i)\<rparr>)) s =
     Ok () (s\<lparr>log := (log s)\<lparr>lh_block := (\<lambda>i. if i < m then f i else lh_block (log s) i)\<rparr>\<rparr>)"
proof -
  have "forM xs (\<lambda>i. lset (\<lambda>l. l\<lparr>lh_block := (lh_block l)(i := f i)\<rparr>)) s =
     Ok () (s\<lparr>log := (log s)\<lparr>lh_block := (\<lambda>i. if i \<in> set xs then f i else lh_block (log s) i)\<rparr>\<rparr>)" for xs
  proof (induction xs arbitrary: s)
    case (Cons x xs)
    have "(\<lambda>i. if i \<in> set xs then f i else ((lh_block (log s))(x := f x)) i)
        = (\<lambda>i. if i \<in> set (x # xs) then f i else lh_block (log s) i)" by auto
    with Cons show ?case by (simp add: seq_def bind_def lset_run fun_upd_def cong: if_cong)
  qed (simp add: ret_def)
  from this [of "[0..<m]"] show ?thesis by simp
qed

text \<open>The in-memory header after reading the header block \<open>d\<close>.\<close>

definition head_read :: "log \<Rightarrow> data \<Rightarrow> log" where
  "head_read l d = l\<lparr>lh_n := hdr_n d, lh_block := (\<lambda>i. if i < nat (hdr_n d) then hdr_block d i else lh_block l i)\<rparr>"

text \<open>The same driver under the log's state.\<close>

locale log_driver = block_driver E for E :: "('y log_state_scheme) kenv"
begin

lemma write_log_wp:
  assumes rel: "cache_rel dev s a" and ok: "log_ok (log s)" and pin: "pinned (log_blocks (log s)) a"
    and dev: "word_of_int (lg_dev (log s)) = dev"
  shows "wp (write_log E) (\<lambda>_ t. cache_rel dev t (fold (logged (log s)) [0..<nat (lh_n (log s))] a) \<and> bio_near s t
    \<and> pinned (log_blocks (log s)) (fold (logged (log s)) [0..<nat (lh_n (log s))] a)) s"
proof -
  let ?l = "log s" let ?n = "nat (lh_n ?l)"
  have "wp (forM [0..<?n] (\<lambda>tail.
       bind (lget (\<lambda>l. l)) (\<lambda>l.
       bind (bread E (word_of_int (lg_dev l)) (log_bno l (tail + 1))) (\<lambda>to.
       bind (bread E (word_of_int (lg_dev l)) (lh_block l tail)) (\<lambda>from.
       bind (bget_field from b_data) (\<lambda>d.
       block
        [bset to (\<lambda>x. x\<lparr>b_data := overwrite (b_data x) 0 (take BSIZE d)\<rparr>),
         bwrite E to,
         brelse from,
         brelse to]))))))
    (\<lambda>_ t. cache_rel dev t (fold (logged ?l) [0..<?n] a) \<and> bio_near s t
      \<and> pinned (log_blocks ?l) (fold (logged ?l) [0..<?n] a)) s"
  proof (rule counted_loop_wp [where P = "\<lambda>i a. pinned (log_blocks ?l) a"])
    fix i a' t assume i: "i < ?n" and r: "cache_rel dev t a'" and near: "bio_near s t" and p: "pinned (log_blocks ?l) a'"
    have lt: "log t = ?l" by (rule bio_near_log [OF near])
    note f = log_okD [OF ok i]
    have small: "log_bno ?l (Suc i) < 0x80000000" by (rule log_bno_small [OF log_ok_place [OF ok] f(3)])
    have few: "length (log_blocks ?l) < NBUF" using ok by (auto simp: length_log_blocks log_ok_def)
    have held: "c_held a' = {}" using p by (simp add: pinned_def)
    note copy = log_copy [OF r held f(4) pinned_readable(1) [OF p few small]
        pinned_readable(2) [OF p few small f(4) f(1) disjI1 [OF log_block_in [OF i]]]]
    show "wp (bind (lget (\<lambda>l. l)) (\<lambda>l.
       bind (bread E (word_of_int (lg_dev l)) (log_bno l (i + 1))) (\<lambda>to.
       bind (bread E (word_of_int (lg_dev l)) (lh_block l i)) (\<lambda>from.
       bind (bget_field from b_data) (\<lambda>d.
       block
        [bset to (\<lambda>x. x\<lparr>b_data := overwrite (b_data x) 0 (take BSIZE d)\<rparr>),
         bwrite E to,
         brelse from,
         brelse to]))))) (\<lambda>_ u. cache_rel dev u (logged ?l i a') \<and> bio_near t u) t"
      using copy unfolding wp_bind [of "lget (\<lambda>l. l)"] wp_Ok [OF lget_run] lt dev Suc_eq_plus1 [symmetric] logged_def .
  qed (use rel pin in \<open>simp_all add: logged_def\<close>)
  then show ?thesis unfolding write_log_def wp_bind [of "lget lh_n"] wp_Ok [OF lget_run] .
qed

lemma install_trans_wp:
  assumes rel: "cache_rel dev s a" and ok: "log_ok (log s)" and pin: "pinned (if rec then [] else log_blocks (log s)) a"
    and dev: "word_of_int (lg_dev (log s)) = dev"
  shows "wp (install_trans E rec) (\<lambda>_ t. cache_rel dev t (fold (installed rec (log s)) [0..<nat (lh_n (log s))] a) \<and> bio_near s t
    \<and> pinned [] (fold (installed rec (log s)) [0..<nat (lh_n (log s))] a)) s"
proof -
  let ?l = "log s" let ?n = "nat (lh_n ?l)" let ?ks = "\<lambda>i. if rec then [] else drop i (log_blocks ?l)"
  have "wp (forM [0..<?n] (\<lambda>tail.
       bind (lget (\<lambda>l. l)) (\<lambda>l.
       bind (bread E (word_of_int (lg_dev l)) (log_bno l (tail + 1))) (\<lambda>lbuf.
       bind (bread E (word_of_int (lg_dev l)) (lh_block l tail)) (\<lambda>dbuf.
       bind (bget_field lbuf b_data) (\<lambda>d.
       block
        [bset dbuf (\<lambda>x. x\<lparr>b_data := overwrite (b_data x) 0 (take BSIZE d)\<rparr>),
         bwrite E dbuf,
         whenM (\<not> rec) (bunpin dbuf),
         brelse lbuf,
         brelse dbuf]))))))
    (\<lambda>_ t. cache_rel dev t (fold (installed rec ?l) [0..<?n] a) \<and> bio_near s t
      \<and> pinned (?ks ?n) (fold (installed rec ?l) [0..<?n] a)) s"
  proof (rule counted_loop_wp [where P = "\<lambda>i a. pinned (?ks i) a"])
    fix i a' t assume i: "i < ?n" and r: "cache_rel dev t a'" and near: "bio_near s t" and p: "pinned (?ks i) a'"
    have lt: "log t = ?l" by (rule bio_near_log [OF near])
    note f = log_okD [OF ok i]
    have small: "log_bno ?l (Suc i) < 0x80000000" by (rule log_bno_small [OF log_ok_place [OF ok] f(3)])
    have few: "length (?ks i) < NBUF" using ok by (auto simp: length_log_blocks log_ok_def)
    have held: "c_held a' = {}" using p by (simp add: pinned_def)
    have i_in: "lh_block ?l i \<in> set (drop i (log_blocks ?l))"
      using i by (metis Cons_nth_drop_Suc length_log_blocks list.set_intros(1) log_blocks_def nth_map_upt_0)
    then have next_ok: "lh_block ?l i \<in> set (?ks i) \<or> Suc (length (?ks i)) < NBUF" by auto
    have pos: "\<not> rec \<Longrightarrow> 0 < c_pins a' (lh_block ?l i)" using p i_in by (simp add: pinned_def)
    note copy = install_copy [OF r held f(4) [symmetric] pinned_readable(1) [OF p few small]
        pinned_readable(2) [OF p few small f(4) f(1) next_ok], of rec, OF pos]
    show "wp (bind (lget (\<lambda>l. l)) (\<lambda>l.
       bind (bread E (word_of_int (lg_dev l)) (log_bno l (i + 1))) (\<lambda>lbuf.
       bind (bread E (word_of_int (lg_dev l)) (lh_block l i)) (\<lambda>dbuf.
       bind (bget_field lbuf b_data) (\<lambda>d.
       block
        [bset dbuf (\<lambda>x. x\<lparr>b_data := overwrite (b_data x) 0 (take BSIZE d)\<rparr>),
         bwrite E dbuf,
         whenM (\<not> rec) (bunpin dbuf),
         brelse lbuf,
         brelse dbuf]))))) (\<lambda>_ u. cache_rel dev u (installed rec ?l i a') \<and> bio_near t u) t"
      using copy unfolding wp_bind [of "lget (\<lambda>l. l)"] wp_Ok [OF lget_run] lt dev Suc_eq_plus1 [symmetric] installed_def Let_def .
  next
    fix i a' assume i: "i < ?n" and p: "pinned (?ks i) a'"
    show "pinned (?ks (Suc i)) (installed rec ?l i a')"
    proof (cases rec)
      case False
      have "drop i (log_blocks ?l) = lh_block ?l i # drop (Suc i) (log_blocks ?l)"
        using i by (metis Cons_nth_drop_Suc length_log_blocks log_blocks_def nth_map_upt_0)
      moreover have "distinct (drop i (log_blocks ?l))" using ok by (simp add: log_ok_def)
      ultimately show ?thesis using False p by (auto simp: pinned_def installed_def Let_def)
    qed (use p in \<open>simp add: installed_def\<close>)
  qed (use rel pin in \<open>auto split: if_splits\<close>)
  moreover have "?ks ?n = []" by (simp add: length_log_blocks)
  ultimately show ?thesis unfolding install_trans_def wp_bind [of "lget lh_n"] wp_Ok [OF lget_run] by simp
qed

lemma write_head_wp:
  assumes rel: "cache_rel dev s a" and place: "log_place (log s)" and n: "lh_n (log s) < int LOGSIZE"
    and rd: "readable (log_bno (log s) 0) a" and free: "c_held a = {}"
    and dev: "word_of_int (lg_dev (log s)) = dev"
  shows "wp (write_head E) (\<lambda>_ t. cache_rel dev t (c_put (log_bno (log s) 0) (head_data (log s) (c_val a (log_bno (log s) 0))) a)
    \<and> bio_near s t) s"
proof -
  let ?l = "log s" let ?S = "log_bno (log s) 0" let ?n = "nat (lh_n (log s))" let ?a1 = "c_read (log_bno (log s) 0) a"
  let ?d = "c_val a ?S"
  have len: "length ?d = BSIZE" by (rule rel_length [OF rel])
  obtain b s1 where 1: "bread E dev ?S s = Ok b s1" "handle dev s1 ?a1 b ?S" "cache_rel dev s1 ?a1" "steady dev a s s1"
    by (rule bread_step [OF rel rd])
  have len0: "length (put_le 4 (c_val ?a1 ?S) 0 (word_of_int (lh_n ?l))) = BSIZE" using len by (simp add: length_put_le)
  obtain s2 where 2: "bset b (\<lambda>x. x\<lparr>b_data := put_le 4 (b_data x) 0 (word_of_int (lh_n ?l))\<rparr>) s1 = Ok () s2"
    "cache_rel dev s2 (c_set ?S (head_upto ?l 0 ?d) ?a1)" "steady dev ?a1 s1 s2"
    by (rule bset_step [where f = "\<lambda>e. put_le 4 e 0 (word_of_int (lh_n ?l))", OF 1(3,2) len0]) (simp add: head_upto_def)
  have h2: "handle dev s2 ?a1 b ?S" using handle_steady [OF 1(2) 2(3)] by simp
  let ?I = "\<lambda>zs t. cache_rel dev t (c_set ?S (head_upto ?l (length zs) ?d) ?a1) \<and> handle dev t ?a1 b ?S \<and> bio_near s2 t"
  have "wp (forM [0..<?n] (\<lambda>i. bset b (\<lambda>x. x\<lparr>b_data := put_le 4 (b_data x) (4 + 4 * i) (ucast (lh_block ?l i))\<rparr>)))
     (\<lambda>_. ?I [0..<?n]) s2"
  proof (rule wp_forM [where I = ?I])
    show "?I [] s2" using 2 h2 by simp
    fix x zs ys t assume sp: "[0..<?n] = zs @ x # ys" and I: "?I zs t"
    have "length zs < length [0..<?n]" unfolding sp by simp
    then have x: "x = length zs" "x < ?n" using arg_cong [OF sp, of "\<lambda>xs. xs ! length zs"] by simp_all
    let ?ax = "c_set ?S (head_upto ?l x ?d) ?a1"
    have r: "cache_rel dev t ?ax" and h: "handle dev t ?ax b ?S" using I x by (simp_all add: handle_def)
    have lx: "length (head_upto ?l x ?d) = BSIZE" by (rule length_head_upto [OF len]) (use x n in auto)
    have lx': "length (put_le 4 (c_val ?ax ?S) (4 + 4 * x) (ucast (lh_block ?l x))) = BSIZE"
      using lx x n by (simp add: length_put_le)
    obtain u where u: "bset b (\<lambda>y. y\<lparr>b_data := put_le 4 (b_data y) (4 + 4 * x) (ucast (lh_block ?l x))\<rparr>) t = Ok () u"
      "cache_rel dev u (c_set ?S (put_le 4 (c_val ?ax ?S) (4 + 4 * x) (ucast (lh_block ?l x))) ?ax)" "steady dev ?ax t u"
      by (rule bset_step [where f = "\<lambda>e. put_le 4 e (4 + 4 * x) (ucast (lh_block ?l x))", OF r h lx'])
    have "c_set ?S (put_le 4 (c_val ?ax ?S) (4 + 4 * x) (ucast (lh_block ?l x))) ?ax = c_set ?S (head_upto ?l (Suc x) ?d) ?a1"
      by (simp add: head_upto_Suc c_set_def)
    moreover have "handle dev u ?a1 b ?S" using handle_steady [OF h u(3), of ?a1] by simp
    moreover have "bio_near s2 u" using I steady_near [OF u(3)] bio_near_trans by blast
    ultimately show "wp (bset b (\<lambda>y. y\<lparr>b_data := put_le 4 (b_data y) (4 + 4 * x) (ucast (lh_block ?l x))\<rparr>)) (\<lambda>_. ?I (zs @ [x])) t"
      using u(1,2) x(1) by (simp add: wp_Ok)
  qed
  then obtain s3 where 3: "forM [0..<?n] (\<lambda>i. bset b (\<lambda>x. x\<lparr>b_data := put_le 4 (b_data x) (4 + 4 * i) (ucast (lh_block ?l i))\<rparr>)) s2 = Ok () s3"
    "cache_rel dev s3 (c_set ?S (head_data ?l ?d) ?a1)" "handle dev s3 ?a1 b ?S" "bio_near s2 s3"
    by (auto simp: wp_iff head_data_def)
  let ?a3 = "c_set ?S (head_data ?l ?d) ?a1"
  have h3: "handle dev s3 ?a3 b ?S" using 3(3) by (simp add: handle_def)
  have k: "?S < 0x80000000" using rd by (simp add: readable_def)
  obtain s4 where 4: "bwrite E b s3 = Ok () s4" "cache_rel dev s4 (c_write ?S ?a3)" "steady dev ?a3 s3 s4"
    by (rule bwrite_step [OF 3(2) h3 k])
  have h4: "handle dev s4 (c_write ?S ?a3) b ?S" using handle_steady [OF h3 4(3)] by simp
  obtain s5 where 5: "brelse b s4 = Ok () s5" "cache_rel dev s5 (c_release ?S (c_write ?S ?a3))" "steady dev (c_write ?S ?a3) s4 s5"
    by (rule brelse_step [OF 4(2) h4]) simp
  have "c_release ?S (c_write ?S ?a3) = c_put ?S (head_data ?l ?d) a"
    using free by (auto simp: c_release_def c_write_def c_set_def c_read_def c_put_def fun_eq_iff)
  moreover have "bio_near s s5"
    by (rule bio_near_trans [OF steady_near [OF 1(4)]] bio_near_trans [OF steady_near [OF 2(3)]] bio_near_trans [OF 3(4)]
        bio_near_trans [OF steady_near [OF 4(3)]] steady_near [OF 5(3)])+
  moreover have "write_head E s = Ok () s5"
    unfolding write_head_def
    by (simp only: bind_def seq_def block.simps lget_run ret_run outcome.case dev 1(1) 2(1) 3(1) 4(1) 5(1))
  ultimately show ?thesis using 5(2) by (simp only: wp_Ok)
qed

lemma read_head_wp:
  assumes rel: "cache_rel dev s a" and rd: "readable (log_bno (log s) 0) a" and free: "c_held a = {}"
    and dev: "word_of_int (lg_dev (log s)) = dev"
  shows "wp (read_head E) (\<lambda>_ t. cache_rel dev t a \<and> log t = head_read (log s) (c_val a (log_bno (log s) 0))) s"
proof -
  let ?S = "log_bno (log s) 0" let ?a1 = "c_read (log_bno (log s) 0) a" let ?d = "c_val a (log_bno (log s) 0)"
  obtain b s1 where 1: "bread E dev ?S s = Ok b s1" "handle dev s1 ?a1 b ?S" "cache_rel dev s1 ?a1" "steady dev a s s1"
    by (rule bread_step [OF rel rd])
  have d: "b_data (bufs s1 b) = ?d" using handle_facts(5) [OF 1(3,2)] by simp
  have l1: "log s1 = log s" by (rule bio_near_log [OF steady_near [OF 1(4)]])
  let ?s2 = "s1\<lparr>log := head_read (log s) ?d\<rparr>"
  have 2: "lset (\<lambda>l. l\<lparr>lh_n := hdr_n ?d\<rparr>) s1 = Ok () (s1\<lparr>log := (log s)\<lparr>lh_n := hdr_n ?d\<rparr>\<rparr>)" by (simp add: lset_run l1)
  have 3: "forM [0..<nat (hdr_n ?d)] (\<lambda>i. lset (\<lambda>l. l\<lparr>lh_block := (lh_block l)(i := hdr_block ?d i)\<rparr>))
      (s1\<lparr>log := (log s)\<lparr>lh_n := hdr_n ?d\<rparr>\<rparr>) = Ok () ?s2"
    by (simp add: lset_loop head_read_def cong: if_cong)
  have r2: "cache_rel dev ?s2 ?a1" "handle dev ?s2 ?a1 b ?S" using 1(2,3) by (simp_all add: log_upd_rel)
  have c: "c_pins ?a1 ?S \<noteq> 1 \<or> c_val ?a1 ?S = c_disk ?a1 ?S"
    using rel_clean [OF rel, of ?S] by (cases "c_pins a ?S = 0") simp_all
  obtain s3 where 4: "brelse b ?s2 = Ok () s3" "cache_rel dev s3 (c_release ?S ?a1)" "steady dev ?a1 ?s2 s3"
    by (rule brelse_step [OF r2 c])
  have "c_release ?S ?a1 = a" using free by (auto simp: c_release_def c_read_def fun_eq_iff)
  moreover have "log s3 = head_read (log s) ?d" using bio_near_log [OF steady_near [OF 4(3)]] by simp
  moreover have "read_head E s = Ok () s3"
    unfolding read_head_def
    by (simp only: bind_def seq_def block.simps lget_run bget_field_run d ret_run outcome.case dev 1(1) 2 3 4(1))
  ultimately show ?thesis using 4(2) by (simp only: wp_Ok)
qed

end

definition committed :: "log \<Rightarrow> cache \<Rightarrow> cache" where
  "committed l a =
     (let n = nat (lh_n l); S = log_bno l 0;
          a1 = fold (logged l) [0..<n] a;
          a2 = c_put S (head_data l (c_val a1 S)) a1;
          a3 = fold (installed False l) [0..<n] a2
      in c_put S (head_data (l\<lparr>lh_n := 0\<rparr>) (c_val a3 S)) a3)"

definition recovered :: "log \<Rightarrow> cache \<Rightarrow> cache" where
  "recovered l a =
     (let n = nat (lh_n l); a1 = fold (installed True l) [0..<n] a
      in c_put (log_bno l 0) (head_data (l\<lparr>lh_n := 0\<rparr>) (c_val a1 (log_bno l 0))) a1)"

lemma log_bno_n [simp]: "log_bno (l\<lparr>lh_n := n\<rparr>) i = log_bno l i"
  by (simp add: log_bno_def)

lemma log_place_n [simp]: "log_place (l\<lparr>lh_n := n\<rparr>) = log_place l"
  by (simp add: log_place_def)

context log_driver
begin

lemma commit_wp:
  assumes rel: "cache_rel dev s a" and ok: "log_ok (log s)" and pin: "pinned (log_blocks (log s)) a"
    and dev: "word_of_int (lg_dev (log s)) = dev" and pos: "0 < lh_n (log s)"
  shows "wp (commit E) (\<lambda>_ t. cache_rel dev t (committed (log s) a) \<and> log t = (log s)\<lparr>lh_n := 0\<rparr> \<and> pinned [] (committed (log s) a)) s"
proof -
  let ?l = "log s" let ?n = "nat (lh_n ?l)" let ?S = "log_bno ?l 0"
  let ?a1 = "fold (logged ?l) [0..<?n] a"
  let ?a2 = "c_put ?S (head_data ?l (c_val ?a1 ?S)) ?a1"
  let ?a3 = "fold (installed False ?l) [0..<?n] ?a2"
  have place: "log_place ?l" and n: "lh_n ?l < int LOGSIZE" and few: "length (log_blocks ?l) < NBUF"
    using ok by (auto simp: log_ok_def length_log_blocks)
  have small: "?S < 0x80000000" by (rule log_bno_small [OF place]) simp
  obtain s1 where 1: "write_log E s = Ok () s1" "cache_rel dev s1 ?a1" "bio_near s s1" "pinned (log_blocks ?l) ?a1"
    using write_log_wp [OF rel ok pin dev] by (auto simp: wp_iff)
  have l1: "log s1 = ?l" by (rule bio_near_log [OF 1(3)])
  have free1: "c_held ?a1 = {}" using 1(4) by (simp add: pinned_def)
  obtain s2 where 2: "write_head E s1 = Ok () s2" "cache_rel dev s2 ?a2" "bio_near s1 s2"
    using write_head_wp [of dev s1 ?a1, unfolded l1, OF 1(2) place n pinned_readable(1) [OF 1(4) few small] free1 dev]
    by (auto simp: wp_iff)
  have l2: "log s2 = ?l" using bio_near_log [OF 2(3)] l1 by simp
  have p2: "pinned (if False then [] else log_blocks ?l) ?a2" using 1(4) by simp
  obtain s3 where 3: "install_trans E False s2 = Ok () s3" "cache_rel dev s3 ?a3" "bio_near s2 s3" "pinned [] ?a3"
    using install_trans_wp [of dev s2 ?a2 False, unfolded l2, OF 2(2) ok p2 dev] by (auto simp: wp_iff)
  have l3: "log s3 = ?l" using bio_near_log [OF 3(3)] l2 by simp
  let ?s4 = "s3\<lparr>log := ?l\<lparr>lh_n := 0\<rparr>\<rparr>"
  have 4: "lset (\<lambda>l. l\<lparr>lh_n := 0\<rparr>) s3 = Ok () ?s4" by (simp add: lset_run l3)
  have l4: "log ?s4 = ?l\<lparr>lh_n := 0\<rparr>" by simp
  have r4: "cache_rel dev ?s4 ?a3" using 3(2) by (simp add: log_upd_rel)
  have free3: "c_held ?a3 = {}" using 3(4) by (simp add: pinned_def)
  have 5: "wp (write_head E) (\<lambda>_ t. cache_rel dev t (committed ?l a) \<and> bio_near ?s4 t) ?s4"
    using write_head_wp [of dev ?s4 ?a3, unfolded l4, OF r4] place pinned_readable(1) [OF 3(4) _ small] free3 dev
    by (simp add: committed_def Let_def)
  then obtain s5 where 5: "write_head E ?s4 = Ok () s5" "cache_rel dev s5 (committed ?l a)" "bio_near ?s4 s5"
    by (auto simp: wp_iff)
  have l5: "log s5 = ?l\<lparr>lh_n := 0\<rparr>" using bio_near_log [OF 5(3)] by simp
  have p5: "pinned [] (committed ?l a)" using 3(4) by (simp add: committed_def Let_def)
  have "commit E s = Ok () s5"
    unfolding commit_def whenM_def
    using pos by (simp only: bind_def seq_def block.simps lget_run ret_run outcome.case if_True 1(1) 2(1) 3(1) 4 5(1))
  with 5(2) l5 p5 show ?thesis by (simp only: wp_Ok)
qed

lemma recover_wp:
  assumes rel: "cache_rel dev s a" and place: "log_place (log s)" and pin: "pinned [] a"
    and dev: "word_of_int (lg_dev (log s)) = dev"
    and ok: "log_ok (head_read (log s) (c_val a (log_bno (log s) 0)))"
  shows "wp (recover_from_log E) (\<lambda>_ t. cache_rel dev t (recovered (head_read (log s) (c_val a (log_bno (log s) 0))) a) \<and> lh_n (log t) = 0) s"
proof -
  let ?l = "head_read (log s) (c_val a (log_bno (log s) 0))"
  have same: "log_bno ?l i = log_bno (log s) i" "log_place ?l = log_place (log s)" "lg_dev ?l = lg_dev (log s)" for i
    by (simp_all add: head_read_def log_bno_def log_place_def)
  let ?S = "log_bno ?l 0" let ?a1 = "fold (installed True ?l) [0..<nat (lh_n ?l)] a"
  have small: "?S < 0x80000000" unfolding same by (rule log_bno_small [OF place]) simp
  have free: "c_held a = {}" using pin by (simp add: pinned_def)
  have rd: "readable (log_bno (log s) 0) a" by (rule pinned_readable(1) [OF pin]) (use small same in auto)
  obtain s1 where 1: "read_head E s = Ok () s1" "cache_rel dev s1 a" "log s1 = ?l"
    using read_head_wp [OF rel rd free dev] by (auto simp: wp_iff)
  have dev1: "word_of_int (lg_dev ?l) = dev" using dev by (simp add: same)
  have p1: "pinned (if True then [] else log_blocks ?l) a" using pin by simp
  obtain s2 where 2: "install_trans E True s1 = Ok () s2" "cache_rel dev s2 ?a1" "bio_near s1 s2" "pinned [] ?a1"
    using install_trans_wp [of dev s1 a True, unfolded 1(3), OF 1(2) ok p1 dev1] by (auto simp: wp_iff)
  have l2: "log s2 = ?l" using bio_near_log [OF 2(3)] 1(3) by simp
  let ?s3 = "s2\<lparr>log := ?l\<lparr>lh_n := 0\<rparr>\<rparr>"
  have 3: "lset (\<lambda>l. l\<lparr>lh_n := 0\<rparr>) s2 = Ok () ?s3" by (simp add: lset_run l2)
  have l3: "log ?s3 = ?l\<lparr>lh_n := 0\<rparr>" by simp
  have r3: "cache_rel dev ?s3 ?a1" using 2(2) by (simp add: log_upd_rel)
  have free2: "c_held ?a1 = {}" using 2(4) by (simp add: pinned_def)
  have "wp (write_head E) (\<lambda>_ t. cache_rel dev t (recovered ?l a) \<and> bio_near ?s3 t) ?s3"
    using write_head_wp [of dev ?s3 ?a1, unfolded l3, OF r3] place same pinned_readable(1) [OF 2(4) _ small] free2 dev1
    by (simp add: recovered_def Let_def)
  then obtain s4 where 4: "write_head E ?s3 = Ok () s4" "cache_rel dev s4 (recovered ?l a)" "bio_near ?s3 s4"
    by (auto simp: wp_iff)
  have "lh_n (log s4) = 0" using bio_near_log [OF 4(3)] by simp
  moreover have "recover_from_log E s = Ok () s4"
    unfolding recover_from_log_def
    by (simp only: seq_def bind_def block.simps ret_run outcome.case 1(1) 2(1) 3 4(1))
  ultimately show ?thesis using 4(2) by (simp only: wp_Ok)
qed

end

section \<open>The writes of a commit\<close>

definition apply_writes :: "('k \<times> data) list \<Rightarrow> ('k \<Rightarrow> data) \<Rightarrow> 'k \<Rightarrow> data" where
  "apply_writes W D = fold (\<lambda>(k, d) D. D(k := d)) W D"

lemma apply_writes_simps [simp]:
  "apply_writes [] D = D" "apply_writes (W @ V) D = apply_writes V (apply_writes W D)"
  "apply_writes ((k, d) # W) D = apply_writes W (D(k := d))"
  by (simp_all add: apply_writes_def)

lemma apply_writes_other: "k \<notin> fst ` set W \<Longrightarrow> apply_writes W D k = D k"
  by (induction W arbitrary: D) (auto simp: apply_writes_def)

lemma apply_writes_map_other:
  "(\<And>i. i < m \<Longrightarrow> f i \<noteq> k) \<Longrightarrow> apply_writes (map (\<lambda>i. (f i, g i)) [0..<m]) D k = D k"
  by (rule apply_writes_other) fastforce

lemma apply_writes_map:
  "inj_on f {..<m} \<Longrightarrow> i < m \<Longrightarrow> apply_writes (map (\<lambda>i. (f i, g i)) [0..<m]) D (f i) = g i"
proof (induction m)
  case (Suc m)
  show ?case
  proof (cases "i = m")
    case False
    then have "i < m" "f m \<noteq> f i" using Suc.prems by (auto simp: inj_on_def)
    moreover have "inj_on f {..<m}" using Suc.prems(1) by (rule inj_on_subset) auto
    ultimately show ?thesis using Suc.IH by simp
  qed simp
qed simp

definition trail :: "cache \<Rightarrow> (uint \<times> data) list \<Rightarrow> cache \<Rightarrow> bool" where
  "trail a W a' \<longleftrightarrow> c_log a' = c_log a @ W \<and> c_disk a' = apply_writes W (c_disk a) \<and> c_val a' = apply_writes W (c_val a)"

lemma trail_refl: "trail a [] a"
  by (simp add: trail_def)

lemma trail_trans: "trail a W a' \<Longrightarrow> trail a' V a'' \<Longrightarrow> trail a (W @ V) a''"
  by (simp add: trail_def)

lemma trail_put: "trail a [(k, d)] (c_put k d a)" "trail a [(k, d)] (c_unpin k (c_put k d a))"
  by (simp_all add: trail_def)

lemma inj_log_blocks: "log_ok l \<Longrightarrow> inj_on (lh_block l) {..<nat (lh_n l)}"
  by (simp add: log_ok_def log_blocks_def distinct_map atLeast0LessThan)

lemma inj_log_bno: "log_ok l \<Longrightarrow> inj_on (\<lambda>i. log_bno l (Suc i)) {..<nat (lh_n l)}"
  using log_bno_inj [OF log_ok_place] by (auto simp: inj_on_def log_ok_def)

definition log_writes :: "log \<Rightarrow> cache \<Rightarrow> nat \<Rightarrow> (uint \<times> data) list" where
  "log_writes l a m = map (\<lambda>i. (log_bno l (Suc i), c_val a (lh_block l i))) [0..<m]"

definition home_writes :: "log \<Rightarrow> cache \<Rightarrow> nat \<Rightarrow> (uint \<times> data) list" where
  "home_writes l a m = map (\<lambda>i. (lh_block l i, c_val a (log_bno l (Suc i)))) [0..<m]"

lemma logged_trail:
  assumes ok: "log_ok l" and m: "m \<le> nat (lh_n l)"
  shows "trail a (log_writes l a m) (fold (logged l) [0..<m] a)"
  using m
proof (induction m)
  case (Suc m)
  let ?a = "fold (logged l) [0..<m] a"
  have t: "trail a (log_writes l a m) ?a" using Suc by simp
  have "c_val ?a (lh_block l m) = c_val a (lh_block l m)"
  proof -
    have "log_bno l (Suc i) \<noteq> lh_block l m" if "i < m" for i
      using log_okD(2) [OF ok, of m] log_bno_area [of "Suc i" l] log_okD(3) [OF ok, of i] that Suc.prems by auto
    then show ?thesis using t by (simp add: trail_def log_writes_def apply_writes_map_other)
  qed
  then have "trail ?a [(log_bno l (Suc m), c_val a (lh_block l m))] (logged l m ?a)"
    by (simp add: logged_def trail_put)
  from trail_trans [OF t this] show ?case by (simp add: log_writes_def)
qed (simp add: log_writes_def trail_refl)

lemma installed_trail:
  assumes ok: "log_ok l" and m: "m \<le> nat (lh_n l)"
  shows "trail a (home_writes l a m) (fold (installed rec l) [0..<m] a)"
  using m
proof (induction m)
  case (Suc m)
  let ?a = "fold (installed rec l) [0..<m] a"
  have t: "trail a (home_writes l a m) ?a" using Suc by simp
  have "c_val ?a (log_bno l (Suc m)) = c_val a (log_bno l (Suc m))"
  proof -
    have "lh_block l i \<noteq> log_bno l (Suc m)" if "i < m" for i
      using log_okD(2) [OF ok, of i] log_bno_area [of "Suc m" l] log_okD(3) [OF ok, of m] that Suc.prems by auto
    then show ?thesis using t by (simp add: trail_def home_writes_def apply_writes_map_other)
  qed
  then have "trail ?a [(lh_block l m, c_val a (log_bno l (Suc m)))] (installed rec l m ?a)"
    by (simp add: installed_def Let_def trail_put)
  from trail_trans [OF t this] show ?case by (simp add: home_writes_def)
qed (simp add: home_writes_def trail_refl)

lemma commit_trail:
  assumes ok: "log_ok l" and len: "length (c_val a (log_bno l 0)) = BSIZE"
  shows "\<exists>h h0. length h = BSIZE \<and> hdr_n h = lh_n l \<and> (\<forall>i < nat (lh_n l). hdr_block h i = lh_block l i) \<and> hdr_n h0 = 0
    \<and> length h0 = BSIZE
    \<and> trail a (log_writes l a (nat (lh_n l)) @ (log_bno l 0, h) #
        map (\<lambda>i. (lh_block l i, c_val a (lh_block l i))) [0..<nat (lh_n l)] @ [(log_bno l 0, h0)]) (committed l a)"
proof -
  let ?n = "nat (lh_n l)" let ?S = "log_bno l 0"
  let ?a1 = "fold (logged l) [0..<?n] a"
  let ?h = "head_data l (c_val ?a1 ?S)" let ?a2 = "c_put ?S ?h ?a1"
  let ?a3 = "fold (installed False l) [0..<?n] ?a2"
  let ?hz = "head_data (l\<lparr>lh_n := 0\<rparr>) (c_val ?a3 ?S)"
  have n: "0 \<le> lh_n l" "lh_n l < int LOGSIZE" and place: "log_place l" using ok by (simp_all add: log_ok_def)
  have nS: "log_bno l (Suc i) \<noteq> ?S" if "i < ?n" for i
    using log_bno_inj [OF place, of "Suc i" 0] that n by auto
  have t1: "trail a (log_writes l a ?n) ?a1" by (rule logged_trail [OF ok order_refl])
  then have v1: "c_val ?a1 ?S = c_val a ?S"
    using nS by (simp add: trail_def log_writes_def apply_writes_map_other)
  have lenh: "length ?h = BSIZE"
    using length_head_upto [OF len, of ?n l] n unfolding v1 head_data_def by auto
  have h: "hdr_n ?h = lh_n l" "\<And>i. i < ?n \<Longrightarrow> hdr_block ?h i = lh_block l i"
    using hdr_n_head [OF len n(1)] hdr_block_head [OF len] n unfolding v1 by auto
  have t2: "trail ?a1 [(?S, ?h)] ?a2" by (rule trail_put)
  have t3: "trail ?a2 (home_writes l ?a2 ?n) ?a3" by (rule installed_trail [OF ok order_refl])
  have v2: "c_val ?a2 (log_bno l (Suc i)) = c_val a (lh_block l i)" if "i < ?n" for i
  proof -
    have "c_val ?a1 (log_bno l (Suc i)) = c_val a (lh_block l i)"
      using t1 apply_writes_map [OF inj_log_bno [OF ok] that] by (simp add: trail_def log_writes_def)
    then show ?thesis using nS [OF that] by simp
  qed
  have hw: "home_writes l ?a2 ?n = map (\<lambda>i. (lh_block l i, c_val a (lh_block l i))) [0..<?n]"
    unfolding home_writes_def by (rule map_cong [OF refl]) (use v2 in simp)
  have "lh_block l i \<noteq> ?S" if "i < ?n" for i
    using log_okD(2) [OF ok that] log_bno_area [of 0 l] by auto
  then have v3: "c_val ?a3 ?S = ?h"
    using t3 by (simp add: trail_def home_writes_def apply_writes_map_other)
  have "head_data (l\<lparr>lh_n := 0\<rparr>) ?h = head_upto (l\<lparr>lh_n := 0\<rparr>) 0 ?h" by (subst head_data_def) simp
  then have h0: "hdr_n ?hz = 0" "length ?hz = BSIZE"
    unfolding v3 using hdr_n_head [OF lenh, of "l\<lparr>lh_n := 0\<rparr>"] length_head_upto [OF lenh, of 0 "l\<lparr>lh_n := 0\<rparr>"] by auto
  have "trail ?a3 [(?S, ?hz)] (committed l a)"
    using trail_put(1) by (simp add: committed_def Let_def)
  from trail_trans [OF trail_trans [OF trail_trans [OF t1 t2] t3 [unfolded hw]] this]
  have "trail a (log_writes l a ?n @ (?S, ?h) # map (\<lambda>i. (lh_block l i, c_val a (lh_block l i))) [0..<?n] @ [(?S, ?hz)]) (committed l a)"
    by simp
  with lenh h h0 show ?thesis by (intro exI [of _ ?h] exI [of _ ?hz]) blast
qed

section \<open>Crashing and recovering\<close>

text \<open>What a disk in the middle of a commit may look like: its header is empty and the blocks outside the log are all
  old or all new, or the header and the log hold the whole transaction.\<close>

definition crash_ok :: "log \<Rightarrow> cache \<Rightarrow> (uint \<Rightarrow> data) \<Rightarrow> bool" where
  "crash_ok l a D \<longleftrightarrow>
     (hdr_n (D (log_bno l 0)) = 0 \<and>
        ((\<forall>k. k \<notin> log_area l \<longrightarrow> D k = c_disk a k) \<or> (\<forall>k. k \<notin> log_area l \<longrightarrow> D k = c_val a k)))
   \<or> (hdr_n (D (log_bno l 0)) = lh_n l
      \<and> (\<forall>i < nat (lh_n l). hdr_block (D (log_bno l 0)) i = lh_block l i \<and> D (log_bno l (Suc i)) = c_val a (lh_block l i))
      \<and> (\<forall>k. k \<notin> log_area l \<longrightarrow> k \<notin> set (log_blocks l) \<longrightarrow> D k = c_val a k))"

lemma home_read:
  assumes "log_ok l"
  shows "apply_writes (map (\<lambda>i. (lh_block l i, c_val a (lh_block l i))) [0..<nat (lh_n l)]) D k =
    (if k \<in> set (log_blocks l) then c_val a k else D k)"
proof (cases "k \<in> set (log_blocks l)")
  case True
  then obtain i where i: "i < nat (lh_n l)" "k = lh_block l i" by (auto simp: log_blocks_def)
  then show ?thesis using apply_writes_map [OF inj_log_blocks [OF assms] i(1)] True by simp
next
  case False
  then show ?thesis by (subst apply_writes_map_other) (auto simp: log_blocks_def)
qed

lemma home_prefix:
  assumes "m \<le> nat (lh_n l)" "k \<notin> set (log_blocks l)"
  shows "apply_writes (map (\<lambda>i. (lh_block l i, c_val a (lh_block l i))) [0..<m]) D k = D k"
  using assms by (intro apply_writes_map_other) (auto simp: log_blocks_def image_iff)

lemma commit_prefix:
  assumes ok: "log_ok l" and clean: "\<And>k. k \<notin> set (log_blocks l) \<Longrightarrow> c_val a k = c_disk a k"
    and empty: "hdr_n (c_disk a (log_bno l 0)) = 0"
    and h: "hdr_n h = lh_n l" "\<And>i. i < nat (lh_n l) \<Longrightarrow> hdr_block h i = lh_block l i" and z: "hdr_n hz = 0"
  shows "crash_ok l a (apply_writes (take j (log_writes l a (nat (lh_n l)) @ (log_bno l 0, h) #
    map (\<lambda>i. (lh_block l i, c_val a (lh_block l i))) [0..<nat (lh_n l)] @ [(log_bno l 0, hz)])) (c_disk a))"
proof -
  let ?n = "nat (lh_n l)" let ?S = "log_bno l 0" let ?D = "c_disk a"
  let ?L = "log_writes l a ?n" let ?H = "\<lambda>m. map (\<lambda>i. (lh_block l i, c_val a (lh_block l i))) [0..<m]"
  have n: "0 \<le> lh_n l" "lh_n l < int LOGSIZE" and place: "log_place l" using ok by (simp_all add: log_ok_def)
  have lenL: "length ?L = ?n" by (simp add: log_writes_def)
  have nS: "log_bno l (Suc i) \<noteq> ?S" if "i < ?n" for i
    using log_bno_inj [OF place, of "Suc i" 0] that n by auto
  have bS: "lh_block l i \<noteq> ?S" if "i < ?n" for i
    using log_okD(2) [OF ok that] log_bno_area [of 0 l] by auto
  have area: "log_bno l (Suc i) \<in> log_area l" if "i < ?n" for i by (rule log_bno_area) (use that n in auto)
  have S_area: "?S \<in> log_area l" by (rule log_bno_area) simp
  have outL: "apply_writes (log_writes l a m) D k = D k" if "k \<notin> log_area l" "m \<le> ?n" for D k m
    unfolding log_writes_def by (rule apply_writes_map_other) (use that area in auto)
  have outS: "apply_writes (log_writes l a m) D ?S = D ?S" if "m \<le> ?n" for D m
    unfolding log_writes_def by (rule apply_writes_map_other) (use that nS in auto)
  have inL: "apply_writes ?L D (log_bno l (Suc i)) = c_val a (lh_block l i)" if "i < ?n" for D i
    unfolding log_writes_def by (rule apply_writes_map [OF inj_log_bno [OF ok] that])
  consider (1) "j \<le> ?n" | (2) m where "j = Suc (?n + m)" "m \<le> ?n" | (3) "j \<ge> Suc (Suc (?n + ?n))"
  proof (cases "j \<le> ?n")
    case False
    then obtain m where m: "j = Suc (?n + m)" using less_imp_Suc_add [of ?n j] by auto
    show ?thesis
    proof (cases "m \<le> ?n")
      case True
      with m show ?thesis by (rule that(2))
    next
      case False
      with m show ?thesis by (intro that(3)) simp
    qed
  qed (rule that(1))
  then show ?thesis
  proof cases
    case 1
    then have "take j (?L @ (?S, h) # ?H ?n @ [(?S, hz)]) = log_writes l a j"
      by (simp add: lenL) (simp add: log_writes_def take_map)
    then show ?thesis using 1 outL outS empty by (simp add: crash_ok_def)
  next
    case 2
    then have eq: "take j (?L @ (?S, h) # ?H ?n @ [(?S, hz)]) = ?L @ (?S, h) # ?H m" by (simp add: lenL take_map)
    let ?E = "apply_writes (?L @ (?S, h) # ?H m) ?D"
    have "?E ?S = h" using bS 2(2) by (simp add: apply_writes_map_other)
    moreover have "?E (log_bno l (Suc i)) = c_val a (lh_block l i)" if "i < ?n" for i
    proof -
      have "lh_block l i' \<noteq> log_bno l (Suc i)" if "i' < m" for i'
        using log_okD(2) [OF ok, of i'] area [OF \<open>i < ?n\<close>] that 2(2) by auto
      then show ?thesis using inL [OF that] nS [OF that] by (simp add: apply_writes_map_other)
    qed
    moreover have "?E k = c_val a k" if "k \<notin> log_area l" "k \<notin> set (log_blocks l)" for k
      using that S_area outL [OF that(1) order_refl] clean [OF that(2)] by (auto simp: home_prefix [OF 2(2)])
    ultimately show ?thesis unfolding eq crash_ok_def using h by auto
  next
    case 3
    then have eq: "take j (?L @ (?S, h) # ?H ?n @ [(?S, hz)]) = ?L @ (?S, h) # ?H ?n @ [(?S, hz)]" by (simp add: lenL)
    let ?E = "apply_writes (?L @ (?S, h) # ?H ?n @ [(?S, hz)]) ?D"
    have "?E k = c_val a k" if "k \<notin> log_area l" for k
    proof -
      have "?E k = (if k \<in> set (log_blocks l) then c_val a k else apply_writes ?L ?D k)"
        using that S_area by (auto simp: home_read [OF ok])
      then show ?thesis using outL [OF that order_refl] clean by simp
    qed
    then show ?thesis unfolding eq crash_ok_def using z by simp
  qed
qed

lemma recovered_trail:
  assumes "log_ok l"
  shows "\<exists>h. trail b (home_writes l b (nat (lh_n l)) @ [(log_bno l 0, h)]) (recovered l b)"
proof -
  let ?b = "fold (installed True l) [0..<nat (lh_n l)] b"
  have "trail ?b [(log_bno l 0, head_data (l\<lparr>lh_n := 0\<rparr>) (c_val ?b (log_bno l 0)))] (recovered l b)"
    unfolding recovered_def Let_def by (rule trail_put)
  from trail_trans [OF installed_trail [OF assms order_refl] this] show ?thesis by blast
qed

lemma recovered_result:
  assumes crash: "crash_ok l a D" and ok: "log_ok l" and b: "c_val b = D" "c_disk b = D"
    and l0: "lg_start l0 = lg_start l"
  shows "log_ok (head_read l0 (D (log_bno l 0)))"
    and "(\<forall>k. k \<notin> log_area l \<longrightarrow> c_disk (recovered (head_read l0 (D (log_bno l 0))) b) k = c_disk a k) \<or>
      (\<forall>k. k \<notin> log_area l \<longrightarrow> c_disk (recovered (head_read l0 (D (log_bno l 0))) b) k = c_val a k)"
proof -
  let ?d = "D (log_bno l 0)" let ?l = "head_read l0 ?d"
  have bno: "log_bno ?l i = log_bno l i" for i using l0 by (simp add: head_read_def log_bno_def)
  have area: "log_area ?l = log_area l" by (simp add: log_area_def bno)
  have place: "log_place ?l" using ok l0 by (simp add: log_ok_def log_place_def head_read_def)
  have n: "lh_n ?l = hdr_n ?d" by (simp add: head_read_def)
  have S: "k \<notin> log_area l \<Longrightarrow> k \<noteq> log_bno l 0" for k using log_bno_area [of 0 l] by auto
  have "log_ok ?l \<and> ((\<forall>k. k \<notin> log_area l \<longrightarrow> c_disk (recovered ?l b) k = c_disk a k) \<or>
      (\<forall>k. k \<notin> log_area l \<longrightarrow> c_disk (recovered ?l b) k = c_val a k))"
  proof (cases "hdr_n ?d = 0")
    case True
    then have okl: "log_ok ?l" using place n by (simp add: log_ok_def log_blocks_def)
    obtain h where "trail b (home_writes ?l b (nat (lh_n ?l)) @ [(log_bno ?l 0, h)]) (recovered ?l b)"
      using recovered_trail [OF okl] by blast
    then have "c_disk (recovered ?l b) = D(log_bno l 0 := h)" using True n b bno by (simp add: trail_def home_writes_def)
    moreover have "(\<forall>k. k \<notin> log_area l \<longrightarrow> D k = c_disk a k) \<or> (\<forall>k. k \<notin> log_area l \<longrightarrow> D k = c_val a k)"
      using crash True unfolding crash_ok_def log_blocks_def by auto
    ultimately show ?thesis using okl S by auto
  next
    case False
    with crash have c: "hdr_n ?d = lh_n l" "\<And>i. i < nat (lh_n l) \<Longrightarrow> hdr_block ?d i = lh_block l i"
      "\<And>i. i < nat (lh_n l) \<Longrightarrow> D (log_bno l (Suc i)) = c_val a (lh_block l i)"
      "\<And>k. k \<notin> log_area l \<Longrightarrow> k \<notin> set (log_blocks l) \<Longrightarrow> D k = c_val a k"
      unfolding crash_ok_def by blast+
    have blk: "lh_block ?l i = lh_block l i" if "i < nat (lh_n l)" for i using c(1,2) that by (simp add: head_read_def)
    have blks: "log_blocks ?l = log_blocks l" unfolding log_blocks_def n c(1) by (rule map_cong [OF refl]) (use blk in simp)
    have okl: "log_ok ?l" using ok place n c(1) blks area by (simp add: log_ok_def)
    obtain h where t: "trail b (home_writes ?l b (nat (lh_n ?l)) @ [(log_bno ?l 0, h)]) (recovered ?l b)"
      using recovered_trail [OF okl] by blast
    have "home_writes ?l b (nat (lh_n ?l)) = map (\<lambda>i. (lh_block l i, c_val a (lh_block l i))) [0..<nat (lh_n l)]"
      unfolding home_writes_def n c(1) by (rule map_cong [OF refl]) (use blk bno b(1) c(3) in simp)
    then have "c_disk (recovered ?l b) k = c_val a k" if "k \<notin> log_area l" for k
      using t b S [OF that] c(4) [OF that] by (simp add: trail_def bno home_read [OF ok])
    with okl show ?thesis by blast
  qed
  then show "log_ok ?l"
    and "(\<forall>k. k \<notin> log_area l \<longrightarrow> c_disk (recovered ?l b) k = c_disk a k) \<or>
      (\<forall>k. k \<notin> log_area l \<longrightarrow> c_disk (recovered ?l b) k = c_val a k)" by blast+
qed

lemma apply_writes_unat:
  assumes "\<And>k. F (unat k) = D k"
  shows "apply_writes (map (\<lambda>(k, d). (unat k, d)) W) F (unat (k :: uint)) = apply_writes W D k"
  using assms
proof (induction W arbitrary: F D)
  case (Cons w W)
  obtain k' d where w: "w = (k', d)" by (cases w)
  have "(F(unat k' := d)) (unat j) = (D(k' := d)) j" for j using Cons.prems by (simp add: word_unat_eq_iff)
  from Cons.IH [of "F(unat k' := d)" "D(k' := d)", OF this] show ?case by (simp add: w cong: map_cong del: fun_upd_apply)
qed simp

lemma rel_disk: "cache_rel dev s a \<Longrightarrow> disk_data s (unat k) = c_disk a k"
  "cache_rel dev s a \<Longrightarrow> disk_log s = map (\<lambda>(k, d). (unat k, d)) (c_log a)"
  by (simp_all add: cache_rel_def cache_disk_def)

text \<open>A freshly booted kernel on the disk \<open>D\<close>: nothing is cached yet, and the log is where it was.\<close>

definition rebooted :: "uint \<Rightarrow> log \<Rightarrow> (nat \<Rightarrow> data) \<Rightarrow> 'z log_state_scheme \<Rightarrow> bool" where
  "rebooted dev l D u \<longleftrightarrow> disk_data u = D \<and> lg_start (log u) = lg_start l \<and> lg_dev (log u) = lg_dev l
     \<and> (\<exists>b. cache_rel dev u b \<and> c_pins b = (\<lambda>_. 0) \<and> c_held b = {})"

context log_driver
begin

lemma recovery_wp:
  assumes ok: "log_ok l" and dev: "word_of_int (lg_dev l) = dev" and crash: "crash_ok l a D"
    and u: "rebooted dev l F u" and F: "\<And>k. F (unat k) = D k"
  shows "wp (recover_from_log E) (\<lambda>_ v. lh_n (log v) = 0 \<and>
      ((\<forall>k. k \<notin> log_area l \<longrightarrow> disk_data v (unat k) = c_disk a k) \<or>
       (\<forall>k. k \<notin> log_area l \<longrightarrow> disk_data v (unat k) = c_val a k))) u"
proof -
  obtain b where rel: "cache_rel dev u b" and p: "c_pins b = (\<lambda>_. 0)" "c_held b = {}" and D: "disk_data u = F"
    and lu: "lg_start (log u) = lg_start l" "lg_dev (log u) = lg_dev l" using u by (auto simp: rebooted_def)
  have db: "c_disk b = D" using rel_disk(1) [OF rel] D F by auto
  moreover have "c_val b k = c_disk b k" for k using rel_clean [OF rel] p by simp
  ultimately have vb: "c_val b = D" by (simp add: fun_eq_iff)
  have S: "log_bno (log u) 0 = log_bno l 0" by (simp add: log_bno_def lu)
  note r = recovered_result [OF crash ok vb db lu(1)]
  have "wp (recover_from_log E) (\<lambda>_ t. cache_rel dev t (recovered (head_read (log u) (D (log_bno l 0))) b) \<and> lh_n (log t) = 0) u"
    using recover_wp [OF rel] ok p r(1) dev lu S vb by (simp add: log_ok_def log_place_def pinned_def)
  then show ?thesis by (rule wp_mono) (use r(2) rel_disk(1) in force)
qed

lemma commit_crash:
  assumes rel: "cache_rel dev s a" and ok: "log_ok (log s)" and pin: "pinned (log_blocks (log s)) a"
    and dev: "word_of_int (lg_dev (log s)) = dev" and empty: "hdr_n (c_disk a (log_bno (log s) 0)) = 0"
  shows "\<exists>W. wp (commit E) (\<lambda>_ t. disk_log t = disk_log s @ W \<and> lh_n (log t) = 0) s
    \<and> (\<forall>j. \<exists>D. crash_ok (log s) a D \<and> (\<forall>k. apply_writes (take j W) (disk_data s) (unat k) = D k))"
proof (cases "0 < lh_n (log s)")
  case True
  let ?l = "log s" let ?S = "log_bno (log s) 0" let ?H = "map (\<lambda>i. (lh_block ?l i, c_val a (lh_block ?l i))) [0..<nat (lh_n ?l)]"
  obtain h hz where h: "hdr_n h = lh_n ?l" "\<forall>i < nat (lh_n ?l). hdr_block h i = lh_block ?l i" "hdr_n hz = 0"
    and t: "trail a (log_writes ?l a (nat (lh_n ?l)) @ (?S, h) # ?H @ [(?S, hz)]) (committed ?l a)"
    using commit_trail [OF ok rel_length [OF rel]] by blast
  let ?W = "log_writes ?l a (nat (lh_n ?l)) @ (?S, h) # ?H @ [(?S, hz)]"
  have clean: "c_val a k = c_disk a k" if "k \<notin> set (log_blocks ?l)" for k
    using rel_clean [OF rel, of k] pin that by (simp add: pinned_def)
  have "wp (commit E) (\<lambda>_ t. disk_log t = disk_log s @ map (\<lambda>(k, d). (unat k, d)) ?W \<and> lh_n (log t) = 0) s"
    by (rule wp_mono [OF commit_wp [OF rel ok pin dev True]])
      (use t rel_disk(2) [OF rel] in \<open>auto simp: trail_def dest!: rel_disk(2)\<close>)
  moreover have "crash_ok ?l a (apply_writes (take j ?W) (c_disk a)) \<and>
      apply_writes (take j (map (\<lambda>(k, d). (unat k, d)) ?W)) (disk_data s) (unat k) = apply_writes (take j ?W) (c_disk a) k" for j k
    using commit_prefix [OF ok clean empty h(1) _ h(3)] h(2) apply_writes_unat [of "disk_data s" "c_disk a" "take j ?W" k] rel_disk(1) [OF rel]
    by (simp only: take_map) blast
  ultimately show ?thesis by blast
next
  case False
  then have n0: "lh_n (log s) = 0" using ok by (simp add: log_ok_def)
  have "commit E s = Ok () s" using n0 by (simp add: commit_def bind_def lget_run whenM_def ret_def)
  then have "wp (commit E) (\<lambda>_ t. disk_log t = disk_log s @ [] \<and> lh_n (log t) = 0) s" using n0 by (simp add: wp_Ok)
  moreover have "crash_ok (log s) a (c_disk a)" using empty by (simp add: crash_ok_def)
  ultimately show ?thesis using rel_disk(1) [OF rel] by (intro exI [of _ "[]"]) auto
qed

end

interpretation virtio_log: log_driver virtio_env
  by unfold_locales

text \<open>C1: the log makes a transaction atomic. Let the kernel commit a transaction: the buffers hold the new contents of
  the blocks in the log header, the disk still has the old ones and an empty log. Then \<open>commit\<close> finishes, and whatever
  prefix of its disk writes a crash lets through, recovery at the next boot finishes with an empty log
  and leaves every block outside the log area as it was before the transaction, or every block as it was to be
  after it.\<close>

theorem log_crash_safe:
  assumes "cache_rel dev s a" "log_ok (log s)" "pinned (log_blocks (log s)) a" "word_of_int (lg_dev (log s)) = dev"
    and "hdr_n (disk_data s (unat (log_bno (log s) 0))) = 0"
  shows "\<exists>W. wp (commit virtio_env) (\<lambda>_ t. disk_log t = disk_log s @ W \<and> lh_n (log t) = 0) s
    \<and> (\<forall>j. \<forall>u :: 'a log_state_scheme. rebooted dev (log s) (apply_writes (take j W) (disk_data s)) u \<longrightarrow>
        wp (recover_from_log virtio_env) (\<lambda>_ v. lh_n (log v) = 0 \<and>
          ((\<forall>k. k \<notin> log_area (log s) \<longrightarrow> disk_data v (unat k) = disk_data s (unat k)) \<or>
           (\<forall>k. k \<notin> log_area (log s) \<longrightarrow> disk_data v (unat k) = c_val a k))) u)"
proof -
  have d: "disk_data s (unat k) = c_disk a k" for k by (rule rel_disk(1) [OF assms(1)])
  obtain W where W: "wp (commit virtio_env) (\<lambda>_ t. disk_log t = disk_log s @ W \<and> lh_n (log t) = 0) s"
    "\<And>j. \<exists>D. crash_ok (log s) a D \<and> (\<forall>k. apply_writes (take j W) (disk_data s) (unat k) = D k)"
    using virtio_log.commit_crash [OF assms(1-4)] assms(5) unfolding d by blast
  have "wp (recover_from_log virtio_env) (\<lambda>_ v. lh_n (log v) = 0 \<and>
          ((\<forall>k. k \<notin> log_area (log s) \<longrightarrow> disk_data v (unat k) = disk_data s (unat k)) \<or>
           (\<forall>k. k \<notin> log_area (log s) \<longrightarrow> disk_data v (unat k) = c_val a k))) u"
    if u: "rebooted dev (log s) (apply_writes (take j W) (disk_data s)) u" for j and u :: "'a log_state_scheme"
  proof -
    obtain D where D: "crash_ok (log s) a D" "\<And>k. apply_writes (take j W) (disk_data s) (unat k) = D k" using W(2) by blast
    show ?thesis unfolding d by (rule virtio_log.recovery_wp [OF assms(2,4) D(1) u D(2)])
  qed
  with W(1) show ?thesis by blast
qed

text \<open>A transaction on block 40: the log starts at block 2.\<close>

definition log0 :: "data \<Rightarrow> log_state" where
  "log0 d = disk0 (dirty_buf d) (\<lambda>_. blank) \<lparr>log = \<lparr>lg_start = 2, lg_size = 30, lg_outstanding = 0, lg_committing = True,
     lg_dev = 1, lh_n = 1, lh_block = (\<lambda>_. 40)\<rparr>\<rparr>"

lemma log0_simps [simp]:
  "lg_start (log (log0 d)) = 2" "lg_dev (log (log0 d)) = 1" "lh_n (log (log0 d)) = 1" "lh_block (log (log0 d)) = (\<lambda>_. 40)"
  "disk_data (log0 d) = (\<lambda>_. blank)" "disk_log (log0 d) = []"
  by (simp_all add: log0_def) (simp_all add: disk0_def dev0_def machine0_def kmem0_def hart0_def)

lemma log0_place: "log_place (log (log0 d))"
  by (simp add: log_place_def)

lemma log0_area: "40 \<notin> log_area (log (log0 d))"
proof
  assume "40 \<in> log_area (log (log0 d))"
  then obtain i where i: "i < LOGSIZE" "40 = log_bno (log (log0 d)) i" by (auto simp: log_area_def)
  then have "unat (40 :: uint) = 2 + i" using log_bno_unat [OF log0_place i(1), of d] by simp
  with i(1) show False by simp
qed

lemma log0_ok: "log_ok (log (log0 d))" "pinned (log_blocks (log (log0 d))) (dirty_cache d)"
  using log0_area log0_place by (simp_all add: log_ok_def log_blocks_def pinned_def) (simp add: dirty_cache_def)

lemma rebooted0: "rebooted 1 (log (log0 d)) (\<lambda>_. blank) (disk0 buf0 (\<lambda>_. blank) \<lparr>log = log (log0 d)\<rparr> :: log_state)"
proof -
  have m: "cache_map 1 buf0 (fresh_cache (\<lambda>_. blank))" by (rule fresh_map) (simp_all add: fresh_bufs_def buf0_def blank_def)
  have "cache_rel 1 (disk0 buf0 (\<lambda>_. blank) \<lparr>log = log (log0 d)\<rparr> :: log_state) (fresh_cache (\<lambda>_. blank))"
    using buf0_ring m vd0_idle by (auto simp: cache_rel_def cache_locks_def cache_disk_def) (auto simp: fresh_cache_def)
  then show ?thesis
    by (auto simp: rebooted_def intro!: exI [of _ "fresh_cache (\<lambda>_. blank)"]) (simp_all add: fresh_cache_def disk0_def dev0_def machine0_def kmem0_def hart0_def)
qed

lemma log_crash_safe_witness:
  "(\<exists>u :: log_state. rebooted 1 (log (log0 (replicate BSIZE 7))) (\<lambda>_. blank) u)
    \<and> (\<exists>W. wp (commit virtio_env) (\<lambda>_ t. disk_log t = W \<and> lh_n (log t) = 0) (log0 (replicate BSIZE 7))
    \<and> (\<forall>j. \<forall>u :: log_state. rebooted 1 (log (log0 (replicate BSIZE 7))) (apply_writes (take j W) (\<lambda>_. blank)) u \<longrightarrow>
        wp (recover_from_log virtio_env) (\<lambda>_ v. disk_data v 40 = blank \<or> disk_data v 40 = replicate BSIZE 7) u))"
proof -
  let ?d = "replicate BSIZE 7 :: data" let ?s = "log0 ?d"
  have rel: "cache_rel 1 ?s (dirty_cache ?d)" unfolding log0_def by (rule dirty_rel) simp
  have hdr: "hdr_n blank = 0" by (simp add: hdr_n_def blank_def get_le_def numeral_eq_Suc)
  have v: "c_val (dirty_cache ?d) 40 = ?d" by (simp add: dirty_cache_def)
  from log_crash_safe [OF rel log0_ok] hdr
  obtain W where W: "wp (commit virtio_env) (\<lambda>_ t. disk_log t = W \<and> lh_n (log t) = 0) ?s"
    "\<And>j u :: log_state. rebooted 1 (log ?s) (apply_writes (take j W) (\<lambda>_. blank)) u \<Longrightarrow>
        wp (recover_from_log virtio_env) (\<lambda>_ v. lh_n (log v) = 0 \<and>
          ((\<forall>k. k \<notin> log_area (log ?s) \<longrightarrow> disk_data v (unat k) = blank) \<or>
           (\<forall>k. k \<notin> log_area (log ?s) \<longrightarrow> disk_data v (unat k) = c_val (dirty_cache ?d) k))) u"
    by auto
  have "wp (recover_from_log virtio_env) (\<lambda>_ v. disk_data v 40 = blank \<or> disk_data v 40 = ?d) u"
    if "rebooted 1 (log ?s) (apply_writes (take j W) (\<lambda>_. blank)) u" for j and u :: log_state
    by (rule wp_mono [OF W(2) [OF that]]) (use log0_area v in force)
  moreover have "\<exists>u :: log_state. rebooted 1 (log ?s) (\<lambda>_. blank) u" using rebooted0 by blast
  ultimately show ?thesis using W(1) by blast
qed

end
