(* ===== verification/Usys.thy ===== *)
theory Usys
  imports Console
begin

text \<open>
  User programs: \<open>user/user.h\<close> and what the programs under \<open>user/\<close> are built from.

  A program runs on the system calls of \<open>user.h\<close>, which are the argument \<open>U\<close> of everything here; a call that
  moves bytes takes or returns the list of them. \<open>exit\<close> does not return: a program ends with \<open>Inl\<close> of its exit
  status, or goes on with \<open>Inr\<close> of a value. A string is the list of its bytes before the NUL. Memory that the heap
  hands out is not modelled here (theory \<open>Umalloc\<close> is about \<open>malloc\<close> itself).
\<close>

section \<open>System calls\<close>

type_synonym cstring = "byte list"

record ustat =
  us_type :: int
  us_ino :: uint
  us_size :: uint64

record 's usys =
  u_fork :: "('s, int) prog"
  u_exec :: "cstring \<Rightarrow> cstring list \<Rightarrow> ('s, int) prog"
  u_wait :: "('s, int) prog"
  u_waitx :: "('s, int \<times> int \<times> int) prog"
  u_read :: "int \<Rightarrow> int \<Rightarrow> ('s, int \<times> byte list) prog"
  u_write :: "int \<Rightarrow> byte list \<Rightarrow> ('s, int) prog"
  u_open :: "cstring \<Rightarrow> int \<Rightarrow> ('s, int) prog"
  u_close :: "int \<Rightarrow> ('s, int) prog"
  u_dup :: "int \<Rightarrow> ('s, int) prog"
  u_pipe :: "('s, int \<times> int \<times> int) prog"
  u_fstat :: "int \<Rightarrow> ('s, int \<times> ustat) prog"
  u_chdir :: "cstring \<Rightarrow> ('s, int) prog"
  u_mkdir :: "cstring \<Rightarrow> ('s, int) prog"
  u_mknod :: "cstring \<Rightarrow> int \<Rightarrow> int \<Rightarrow> ('s, int) prog"
  u_link :: "cstring \<Rightarrow> cstring \<Rightarrow> ('s, int) prog"
  u_unlink :: "cstring \<Rightarrow> ('s, int) prog"
  u_kill :: "int \<Rightarrow> ('s, int) prog"
  u_sleep :: "int \<Rightarrow> ('s, int) prog"
  u_trace :: "int \<Rightarrow> ('s, int) prog"
  u_set_priority :: "int \<Rightarrow> int \<Rightarrow> ('s, int) prog"

section \<open>Programs that can exit\<close>

type_synonym ('s, 'a) uprog = "('s, int + 'a) prog"

definition uret :: "'a \<Rightarrow> ('s, 'a) uprog" where
  "uret x = ret (Inr x)"

definition uexit :: "int \<Rightarrow> ('s, 'a) uprog" where
  "uexit st = ret (Inl st)"

definition ubind :: "('s, 'a) uprog \<Rightarrow> ('a \<Rightarrow> ('s, 'b) uprog) \<Rightarrow> ('s, 'b) uprog" where
  "ubind m f = bind m (\<lambda>r. case r of Inl st \<Rightarrow> ret (Inl st) | Inr x \<Rightarrow> f x)"

definition useq :: "('s, 'a) uprog \<Rightarrow> ('s, 'b) uprog \<Rightarrow> ('s, 'b) uprog" where
  "useq m n = ubind m (\<lambda>_. n)"

definition sys :: "('s, 'a) prog \<Rightarrow> ('s, 'a) uprog" where
  "sys m = bind m uret"

definition call :: "('s, 'a) prog \<Rightarrow> ('s, unit) uprog" where
  "call m = bind m (\<lambda>_. uret ())"

definition uwhen :: "bool \<Rightarrow> ('s, unit) uprog \<Rightarrow> ('s, unit) uprog" where
  "uwhen c m = (if c then m else uret ())"

primrec ublock :: "('s, unit) uprog list \<Rightarrow> ('s, unit) uprog" where
  "ublock [] = uret ()"
| "ublock (m # ms) = useq m (ublock ms)"

primrec uforM :: "'x list \<Rightarrow> ('x \<Rightarrow> ('s, unit) uprog) \<Rightarrow> ('s, unit) uprog" where
  "uforM [] f = uret ()"
| "uforM (x # xs) f = useq (f x) (uforM xs f)"

definition uloop :: "('x \<Rightarrow> ('s, 'x + 'r) uprog) \<Rightarrow> 'x \<Rightarrow> ('s, 'r) uprog" where
  "uloop body = loopM (\<lambda>x. bind (body x) (\<lambda>r. case r of
     Inl st \<Rightarrow> ret (Inr (Inl st)) | Inr (Inl y) \<Rightarrow> ret (Inl y) | Inr (Inr v) \<Rightarrow> ret (Inr (Inr v))))"

lemma uloop_unfold:
  "uloop body x = ubind (body x) (\<lambda>r. case r of Inl y \<Rightarrow> uloop body y | Inr v \<Rightarrow> uret v)"
  unfolding uloop_def
  by (subst loopM_unfold)
    (auto simp: ubind_def uret_def bind_def ret_def fun_eq_iff split: outcome.splits sum.splits)

lemma uret_run: "uret x s = Ok (Inr x) s"
  by (simp add: uret_def ret_def)

lemma ubind_run: "m s = Ok (Inr x) t \<Longrightarrow> ubind m f s = f x t"
  by (simp add: ubind_def bind_def)

lemma useq_run: "m s = Ok (Inr x) t \<Longrightarrow> useq m n s = n t"
  by (simp add: useq_def ubind_run)

lemma sys_run: "m s = Ok x t \<Longrightarrow> sys m s = Ok (Inr x) t"
  by (simp add: sys_def bind_def uret_run)

lemma call_run: "m s = Ok x t \<Longrightarrow> call m s = Ok (Inr ()) t"
  by (simp add: call_def bind_def uret_run)

lemma useq_step: "m s = Ok (Inr x) t \<Longrightarrow> n t = r \<Longrightarrow> useq m n s = r"
  by (simp add: useq_run)

lemma ubind_step: "m s = Ok (Inr x) t \<Longrightarrow> f x t = r \<Longrightarrow> ubind m f s = r"
  by (simp add: ubind_run)

section \<open>A process reading and writing\<close>

text \<open>What \<open>read\<close> and \<open>write\<close> promise a process that reads one input to its end: a read returns some of the bytes
  that are left, at most as many as asked for, and 0 only when none are left or none are asked for. How many it
  returns is up to the kernel: the list \<open>st_grants\<close> decides, when it is used up as many as there are. A write
  appends all of its bytes to what has been written to that descriptor.\<close>

record stream =
  st_in :: "byte list"
  st_grants :: "nat list"
  st_out :: "int \<Rightarrow> byte list"

definition granted :: "stream \<Rightarrow> int \<Rightarrow> nat" where
  "granted s n = min (length (st_in s)) (case st_grants s of [] \<Rightarrow> nat n | g # _ \<Rightarrow> min (nat n) (Suc g))"

definition stream_read :: "int \<Rightarrow> int \<Rightarrow> (stream, int \<times> byte list) prog" where
  "stream_read fd n s = (let k = granted s n in
     Ok (int k, take k (st_in s)) (s\<lparr>st_in := drop k (st_in s), st_grants := tl (st_grants s)\<rparr>))"

definition stream_write :: "int \<Rightarrow> byte list \<Rightarrow> (stream, int) prog" where
  "stream_write fd bs s = Ok (int (length bs)) (s\<lparr>st_out := (st_out s)(fd := st_out s fd @ bs)\<rparr>)"

lemma granted_bounds: "granted s n \<le> length (st_in s)" "granted s n \<le> nat n"
  "0 < n \<Longrightarrow> st_in s \<noteq> [] \<Longrightarrow> 0 < granted s n"
  by (auto simp: granted_def split: list.splits)

end
