(* ===== verification/Ulib.thy ===== *)
theory Ulib
  imports Usys
begin

text \<open>
  \<open>user/ulib.c\<close> and \<open>user/printf.c\<close>. The functions on memory work on the byte memory of theory \<open>Cstring\<close>; a search for
  a NUL that is not there does not return, which is \<open>None\<close>.
\<close>

section \<open>ulib.c\<close>

definition u_strcpy :: "mem \<Rightarrow> uint64 \<Rightarrow> uint64 \<Rightarrow> mem option" where
  "u_strcpy m s t =
     (case while_option (\<lambda>(m, s, t). m t \<noteq> 0) (\<lambda>(m, s, t). (m(s := m t), s + 1, t + 1)) (m, s, t) of
        None \<Rightarrow> None | Some (m, s, t) \<Rightarrow> Some (m(s := m t)))"

definition u_strcmp :: "mem \<Rightarrow> uint64 \<Rightarrow> uint64 \<Rightarrow> int option" where
  "u_strcmp m p q =
     (case while_option (\<lambda>(p, q). m p \<noteq> 0 \<and> m p = m q) (\<lambda>(p, q). (p + 1, q + 1)) (p, q) of
        None \<Rightarrow> None | Some (p, q) \<Rightarrow> Some (uint (m p) - uint (m q)))"

definition u_strlen :: "mem \<Rightarrow> uint64 \<Rightarrow> nat option" where
  "u_strlen m s = while_option (\<lambda>n. m (s + word_of_nat n) \<noteq> 0) Suc 0"

definition u_memset :: "mem \<Rightarrow> uint64 \<Rightarrow> uint \<Rightarrow> uint \<Rightarrow> mem" where
  "u_memset m dst c n = fold (\<lambda>i m. m(dst + word_of_nat i := ucast c)) [0..<unat n] m"

definition u_strchr :: "mem \<Rightarrow> uint64 \<Rightarrow> byte \<Rightarrow> uint64 option" where
  "u_strchr m s c =
     (case while_option (\<lambda>s. m s \<noteq> 0 \<and> m s \<noteq> c) (\<lambda>s. s + 1) s of
        None \<Rightarrow> None | Some s \<Rightarrow> Some (if m s \<noteq> 0 then s else 0))"

text \<open>\<open>gets\<close> gives the bytes it puts into the buffer before the NUL.\<close>

definition u_gets :: "'s usys \<Rightarrow> int \<Rightarrow> ('s, byte list) uprog" where
  "u_gets U mx =
     uloop (\<lambda>buf.
       if int (length buf) + 1 < mx then
         ubind (sys (u_read U 0 1)) (\<lambda>(cc, bs).
         if cc < 1 then uret (Inr buf)
         else if hd bs = 10 \<or> hd bs = 13 then uret (Inr (buf @ [hd bs]))
         else uret (Inl (buf @ [hd bs])))
       else uret (Inr buf)) []"

definition u_stat :: "'s usys \<Rightarrow> cstring \<Rightarrow> ('s, int \<times> ustat) uprog" where
  "u_stat U n =
     ubind (sys (u_open U n 0)) (\<lambda>fd.
     if fd < 0 then uret (-1, \<lparr>us_type = 0, us_ino = 0, us_size = 0\<rparr>)
     else ubind (sys (u_fstat U fd)) (\<lambda>(r, st).
          useq (call (u_close U fd)) (uret (r, st))))"

definition digit_byte :: "byte \<Rightarrow> bool" where
  "digit_byte c \<longleftrightarrow> 48 \<le> c \<and> c \<le> 57"

definition u_atoi :: "cstring \<Rightarrow> int" where
  "u_atoi s = sint (fold (\<lambda>c n. n * 10 + ucast c - 48) (takeWhile digit_byte s) (0 :: uint))"

definition u_memmove :: "mem \<Rightarrow> uint64 \<Rightarrow> uint64 \<Rightarrow> int \<Rightarrow> mem" where
  "u_memmove m dst src n = (if src > dst then copy_up (nat n) m dst src
     else copy_down (nat n) m dst src)"

primrec u_memcmp_loop :: "nat \<Rightarrow> mem \<Rightarrow> uint64 \<Rightarrow> uint64 \<Rightarrow> int" where
  "u_memcmp_loop 0 m p1 p2 = 0"
| "u_memcmp_loop (Suc n) m p1 p2 =
     (if m p1 \<noteq> m p2 then uint (m p1) - uint (m p2) else u_memcmp_loop n m (p1 + 1) (p2 + 1))"

definition u_memcmp :: "mem \<Rightarrow> uint64 \<Rightarrow> uint64 \<Rightarrow> uint \<Rightarrow> int" where
  "u_memcmp m s1 s2 n = u_memcmp_loop (unat n) m s1 s2"

definition u_memcpy :: "mem \<Rightarrow> uint64 \<Rightarrow> uint64 \<Rightarrow> uint \<Rightarrow> mem" where
  "u_memcpy m dst src n = u_memmove m dst src (sint n)"

section \<open>printf.c\<close>

text \<open>An argument is a 64-bit slot or a string; a conversion takes the part of the slot it wants. Asking for a string
  where there is none, or for more arguments than there are, is undefined: a fault.\<close>

datatype uarg = UVal uint64 | UStr "cstring option"

definition bytes :: "string \<Rightarrow> cstring" where
  "bytes s = map of_char s"

definition u_putc :: "'s usys \<Rightarrow> int \<Rightarrow> byte \<Rightarrow> ('s, unit) uprog" where
  "u_putc U fd c = call (u_write U fd [c])"

definition u_digit :: "nat \<Rightarrow> byte" where
  "u_digit n = bytes ''0123456789ABCDEF'' ! n"

function u_digits_of :: "nat \<Rightarrow> nat \<Rightarrow> byte list" where
  "u_digits_of base x =
     u_digit (x mod base) # (if x div base = 0 \<or> base < 2 then [] else u_digits_of base (x div base))"
  by auto
termination by (relation "measure snd") (auto simp: div_greater_zero_iff)

declare u_digits_of.simps [simp del]

definition u_printint_buf :: "int \<Rightarrow> nat \<Rightarrow> bool \<Rightarrow> byte list" where
  "u_printint_buf xx base sg =
     (let neg = (sg \<and> xx < 0); x = (word_of_int (if neg then - xx else xx) :: uint) in
      u_digits_of base (unat x) @ (if neg then [45] else []))"

definition u_printint :: "'s usys \<Rightarrow> int \<Rightarrow> int \<Rightarrow> nat \<Rightarrow> bool \<Rightarrow> ('s, unit) uprog" where
  "u_printint U fd xx base sg = uforM (rev (u_printint_buf xx base sg)) (u_putc U fd)"

definition u_printptr :: "'s usys \<Rightarrow> int \<Rightarrow> uint64 \<Rightarrow> ('s, unit) uprog" where
  "u_printptr U fd x =
     useq (u_putc U fd 48)
    (useq (u_putc U fd 120)
          (uforM [0..<16] (\<lambda>i. u_putc U fd (u_digit (unat (drop_bit 60 (push_bit (4 * i) x)))))))"

definition slot_int :: "uint64 \<Rightarrow> int" where
  "slot_int w = sint (ucast w :: uint)"

fun u_vprintf_loop :: "'s usys \<Rightarrow> int \<Rightarrow> bool \<Rightarrow> string \<Rightarrow> uarg list \<Rightarrow> ('s, unit) uprog" where
  "u_vprintf_loop U fd pct [] args = uret ()"
| "u_vprintf_loop U fd False (c # fmt) args =
     (if c = CHR ''%'' then u_vprintf_loop U fd True fmt args
      else useq (u_putc U fd (of_char c)) (u_vprintf_loop U fd False fmt args))"
| "u_vprintf_loop U fd True (c # fmt) args =
     (if c = CHR ''d'' then (case args of UVal w # as \<Rightarrow>
          useq (u_printint U fd (slot_int w) 10 True) (u_vprintf_loop U fd False fmt as) | _ \<Rightarrow> panic ''va_arg'')
      else if c = CHR ''l'' then (case args of UVal w # as \<Rightarrow>
          useq (u_printint U fd (slot_int w) 10 False) (u_vprintf_loop U fd False fmt as) | _ \<Rightarrow> panic ''va_arg'')
      else if c = CHR ''x'' then (case args of UVal w # as \<Rightarrow>
          useq (u_printint U fd (slot_int w) 16 False) (u_vprintf_loop U fd False fmt as) | _ \<Rightarrow> panic ''va_arg'')
      else if c = CHR ''p'' then (case args of UVal w # as \<Rightarrow>
          useq (u_printptr U fd w) (u_vprintf_loop U fd False fmt as) | _ \<Rightarrow> panic ''va_arg'')
      else if c = CHR ''s'' then (case args of UStr t # as \<Rightarrow>
          useq (uforM (case t of None \<Rightarrow> bytes ''(null)'' | Some u \<Rightarrow> u) (u_putc U fd)) (u_vprintf_loop U fd False fmt as)
        | _ \<Rightarrow> panic ''va_arg'')
      else if c = CHR ''c'' then (case args of UVal w # as \<Rightarrow>
          useq (u_putc U fd (ucast w)) (u_vprintf_loop U fd False fmt as) | _ \<Rightarrow> panic ''va_arg'')
      else if c = CHR ''%'' then useq (u_putc U fd (of_char c)) (u_vprintf_loop U fd False fmt args)
      else useq (u_putc U fd 37) (useq (u_putc U fd (of_char c)) (u_vprintf_loop U fd False fmt args)))"

definition u_vprintf :: "'s usys \<Rightarrow> int \<Rightarrow> string \<Rightarrow> uarg list \<Rightarrow> ('s, unit) uprog" where
  "u_vprintf U fd fmt args = u_vprintf_loop U fd False fmt args"

definition u_fprintf :: "'s usys \<Rightarrow> int \<Rightarrow> string \<Rightarrow> uarg list \<Rightarrow> ('s, unit) uprog" where
  "u_fprintf U fd fmt args = u_vprintf U fd fmt args"

definition u_printf :: "'s usys \<Rightarrow> string \<Rightarrow> uarg list \<Rightarrow> ('s, unit) uprog" where
  "u_printf U fmt args = u_vprintf U 1 fmt args"

definition UInt :: "int \<Rightarrow> uarg" where
  "UInt i = UVal (word_of_int i)"

section \<open>The library's memmove and the kernel's\<close>

lemma u_memmove_copy:
  assumes n: "0 \<le> n" "n < 2147483648"
    and src: "unat src + nat n < 18446744073709551616" and dst: "unat dst + nat n < 18446744073709551616"
  shows "u_memmove m dst src n = copy_range m dst src (nat n)"
proof -
  have k: "nat n < 18446744073709551616" using n by simp
  have off: "unat (p + word_of_nat i) = unat p + i" if "unat p + nat n < 18446744073709551616" "i < nat n" for p :: uint64 and i
    using that by (subst unat_add64) (simp_all add: unat_word_of_nat64)
  show ?thesis
  proof (cases "src > dst")
    case True
    have "copy_up (nat n) m dst src = copy_range m dst src (nat n)"
    proof (rule copy_up_range [OF k])
      fix i assume i: "i < nat n"
      then have le: "dst \<le> src + word_of_nat i" using True src by (simp add: word_le_nat_alt word_less_nat_alt off)
      then have "unat (src + word_of_nat i - dst) = unat src + i - unat dst"
        using off [OF src i] by (simp add: unat_diff64)
      then show "\<not> in_range (src + word_of_nat i) dst i" using True by (simp add: in_range_def word_less_nat_alt)
    qed
    then show ?thesis using True by (simp add: u_memmove_def)
  next
    case False
    have "copy_down (nat n) m dst src = copy_range m dst src (nat n)"
    proof (rule copy_down_range [OF k])
      fix i j assume "i < j" "j < nat n"
      then have "unat (src + word_of_nat i) < unat (dst + word_of_nat j)"
        using False src dst by (simp add: off word_less_nat_alt not_less word_le_nat_alt)
      then show "src + word_of_nat i \<noteq> dst + word_of_nat j" by auto
    qed
    then show ?thesis using False by (simp add: u_memmove_def)
  qed
qed

end
