(* ===== verification/Utils.thy ===== *)
theory Utils
  imports Ulib
begin

text \<open>
  The small programs of \<open>user/\<close>: each is its \<open>main\<close> with the functions it uses. \<open>argv\<close> is the list of the arguments, the
  program's name first; an argument that is not there is a null pointer, and using it a fault.
\<close>

definition uarg_at :: "cstring list \<Rightarrow> nat \<Rightarrow> ('s, cstring) uprog" where
  "uarg_at argv i = (if i < length argv then uret (argv ! i) else panic ''null pointer'')"

definition msg :: "string \<Rightarrow> string" where
  "msg s = s @ [CHR 0x0A]"

section \<open>cat and wc\<close>

definition cat :: "'s usys \<Rightarrow> int \<Rightarrow> ('s, unit) uprog" where
  "cat U fd =
     ubind (uloop (\<lambda>_.
       ubind (sys (u_read U fd 512)) (\<lambda>(n, bs).
       if n > 0 then
         ubind (sys (u_write U 1 bs)) (\<lambda>k.
         if k \<noteq> n then useq (u_fprintf U 2 (msg ''cat: write error'') []) (uexit 1)
         else uret (Inl ()))
       else uret (Inr n))) ()) (\<lambda>n.
     uwhen (n < 0) (useq (u_fprintf U 2 (msg ''cat: read error'') []) (uexit 1)))"

text \<open>Running a function on every file that is named, or on standard input.\<close>

definition each_file :: "'s usys \<Rightarrow> cstring list \<Rightarrow> (cstring \<Rightarrow> ('s, unit) uprog) \<Rightarrow> (int \<Rightarrow> cstring \<Rightarrow> ('s, unit) uprog) \<Rightarrow> ('s, unit) uprog" where
  "each_file U files complain f =
     useq (uforM files (\<lambda>name.
       ubind (sys (u_open U name 0)) (\<lambda>fd.
       if fd < 0 then useq (complain name) (uexit 1)
       else useq (f fd name) (call (u_close U fd))))) (uexit 0)"

definition cat_main :: "'s usys \<Rightarrow> cstring list \<Rightarrow> ('s, unit) uprog" where
  "cat_main U argv =
     (if length argv \<le> 1 then useq (cat U 0) (uexit 0)
      else each_file U (tl argv) (\<lambda>name. u_fprintf U 2 (msg ''cat: cannot open %s'') [UStr (Some name)]) (\<lambda>fd _. cat U fd))"

text \<open>The counters of \<open>wc\<close>: lines, words and characters, and whether the last character was in a word.\<close>

record counts =
  wc_l :: int
  wc_w :: int
  wc_c :: int
  wc_inword :: bool

definition is_space :: "byte \<Rightarrow> bool" where
  "is_space ch \<longleftrightarrow> ch \<in> {32, 13, 9, 10, 11}"

definition wc_char :: "byte \<Rightarrow> counts \<Rightarrow> counts" where
  "wc_char ch k =
     (let k = k\<lparr>wc_c := wc_c k + 1\<rparr>;
          k = (if ch = 10 then k\<lparr>wc_l := wc_l k + 1\<rparr> else k) in
      if is_space ch then k\<lparr>wc_inword := False\<rparr>
      else if \<not> wc_inword k then k\<lparr>wc_w := wc_w k + 1, wc_inword := True\<rparr> else k)"

definition wc :: "'s usys \<Rightarrow> int \<Rightarrow> cstring \<Rightarrow> ('s, unit) uprog" where
  "wc U fd name =
     ubind (uloop (\<lambda>k.
       ubind (sys (u_read U fd 512)) (\<lambda>(n, bs).
       if n > 0 then uret (Inl (fold wc_char bs k))
       else uret (Inr (n, k)))) \<lparr>wc_l = 0, wc_w = 0, wc_c = 0, wc_inword = False\<rparr>) (\<lambda>(n, k).
     useq (uwhen (n < 0) (useq (u_printf U (msg ''wc: read error'') []) (uexit 1)))
          (u_printf U (msg ''%d %d %d %s'') [UInt (wc_l k), UInt (wc_w k), UInt (wc_c k), UStr (Some name)]))"

definition wc_main :: "'s usys \<Rightarrow> cstring list \<Rightarrow> ('s, unit) uprog" where
  "wc_main U argv =
     (if length argv \<le> 1 then useq (wc U 0 []) (uexit 0)
      else each_file U (tl argv) (\<lambda>name. u_printf U (msg ''wc: cannot open %s'') [UStr (Some name)]) (wc U))"

section \<open>ls\<close>

definition DIRSZ :: nat where [simp]: "DIRSZ = 14"

text \<open>The last element of a path, padded with blanks to the length of a name.\<close>

definition fmtname :: "cstring \<Rightarrow> cstring" where
  "fmtname path =
     (let p = rev (takeWhile (\<lambda>c. c \<noteq> 47) (rev path)) in
      if length p \<ge> DIRSZ then p else p @ replicate (DIRSZ - length p) 32)"

definition ls_row :: "'s usys \<Rightarrow> string \<Rightarrow> cstring \<Rightarrow> ustat \<Rightarrow> ('s, unit) uprog" where
  "ls_row U fmt name st =
     u_printf U (msg fmt) [UStr (Some (fmtname name)), UInt (us_type st), UVal (ucast (us_ino st)), UVal (us_size st)]"

definition ls_dir :: "'s usys \<Rightarrow> int \<Rightarrow> cstring \<Rightarrow> ('s, unit) uprog" where
  "ls_dir U fd path =
     uloop (\<lambda>_.
       ubind (sys (u_read U fd 16)) (\<lambda>(n, de).
       if n \<noteq> 16 then uret (Inr ())
       else if de ! 0 = 0 \<and> de ! 1 = 0 then uret (Inl ())
       else let buf = path @ [47] @ takeWhile (\<lambda>c. c \<noteq> 0) (take DIRSZ (drop 2 de)) in
         ubind (u_stat U buf) (\<lambda>(r, st).
         useq (if r < 0 then u_printf U (msg ''ls: cannot stat %s'') [UStr (Some buf)]
               else ls_row U ''%s %d %d %d'' buf st)
              (uret (Inl ()))))) ()"

definition ls :: "'s usys \<Rightarrow> cstring \<Rightarrow> ('s, unit) uprog" where
  "ls U path =
     ubind (sys (u_open U path 0)) (\<lambda>fd.
     if fd < 0 then u_fprintf U 2 (msg ''ls: cannot open %s'') [UStr (Some path)]
     else
       ubind (sys (u_fstat U fd)) (\<lambda>(r, st).
       if r < 0 then
         useq (u_fprintf U 2 (msg ''ls: cannot stat %s'') [UStr (Some path)]) (call (u_close U fd))
       else
         useq (if us_type st = 2 then ls_row U ''%s %d %d %l'' path st
               else if us_type st = 1 then
                 (if length path + 1 + DIRSZ + 1 > 512 then u_printf U (msg ''ls: path too long'') []
                  else ls_dir U fd path)
               else uret ())
              (call (u_close U fd))))"

definition ls_main :: "'s usys \<Rightarrow> cstring list \<Rightarrow> ('s, unit) uprog" where
  "ls_main U argv =
     (if length argv < 2 then useq (ls U (bytes ''.'')) (uexit 0)
      else useq (uforM (tl argv) (ls U)) (uexit 0))"

section \<open>Programs around one system call\<close>

definition echo_main :: "'s usys \<Rightarrow> cstring list \<Rightarrow> ('s, unit) uprog" where
  "echo_main U argv =
     useq (uforM [1..<length argv] (\<lambda>i.
       useq (call (u_write U 1 (argv ! i)))
            (call (u_write U 1 (if i + 1 < length argv then [32] else [10]))))) (uexit 0)"

definition kill_main :: "'s usys \<Rightarrow> cstring list \<Rightarrow> ('s, unit) uprog" where
  "kill_main U argv =
     (if length argv < 2 then useq (u_fprintf U 2 (msg ''usage: kill pid...'') []) (uexit 1)
      else useq (uforM (tl argv) (\<lambda>a. call (u_kill U (u_atoi a)))) (uexit 0))"

definition ln_main :: "'s usys \<Rightarrow> cstring list \<Rightarrow> ('s, unit) uprog" where
  "ln_main U argv =
     (if length argv \<noteq> 3 then useq (u_fprintf U 2 (msg ''Usage: ln old new'') []) (uexit 1)
      else
        ubind (sys (u_link U (argv ! 1) (argv ! 2))) (\<lambda>r.
        useq (uwhen (r < 0) (u_fprintf U 2 (msg ''link %s %s: failed'') [UStr (Some (argv ! 1)), UStr (Some (argv ! 2))]))
             (uexit 0)))"

text \<open>Until the first failure.\<close>

definition until_failure :: "cstring list \<Rightarrow> (cstring \<Rightarrow> ('s, int) prog) \<Rightarrow> (cstring \<Rightarrow> ('s, unit) uprog) \<Rightarrow> ('s, unit) uprog" where
  "until_failure args f complain =
     uloop (\<lambda>args. case args of [] \<Rightarrow> uret (Inr ())
       | a # rest \<Rightarrow> ubind (sys (f a)) (\<lambda>r. if r < 0 then useq (complain a) (uret (Inr ())) else uret (Inl rest))) args"

definition mkdir_main :: "'s usys \<Rightarrow> cstring list \<Rightarrow> ('s, unit) uprog" where
  "mkdir_main U argv =
     (if length argv < 2 then useq (u_fprintf U 2 (msg ''Usage: mkdir files...'') []) (uexit 1)
      else useq (until_failure (tl argv) (u_mkdir U) (\<lambda>a. u_fprintf U 2 (msg ''mkdir: %s failed to create'') [UStr (Some a)]))
                (uexit 0))"

definition rm_main :: "'s usys \<Rightarrow> cstring list \<Rightarrow> ('s, unit) uprog" where
  "rm_main U argv =
     (if length argv < 2 then useq (u_fprintf U 2 (msg ''Usage: rm files...'') []) (uexit 1)
      else useq (until_failure (tl argv) (u_unlink U) (\<lambda>a. u_fprintf U 2 (msg ''rm: %s failed to delete'') [UStr (Some a)]))
                (uexit 0))"

text \<open>\<open>strace\<close> copies the pointers of its arguments into an array on the stack that it neither clears nor ends with a
  null pointer: the strings that the rest of the array happens to point to are the argument \<open>junk\<close>.\<close>

definition strace_main :: "'s usys \<Rightarrow> cstring list \<Rightarrow> cstring list \<Rightarrow> ('s, unit) uprog" where
  "strace_main U junk argv =
     ubind (uarg_at argv 1) (\<lambda>a.
     useq (call (u_trace U (u_atoi a)))
    (let exec_args = drop 2 argv @ junk in
     ubind (uarg_at exec_args 0) (\<lambda>path.
     useq (call (u_exec U path exec_args)) (uexit 0))))"

definition setpriority_main :: "'s usys \<Rightarrow> cstring list \<Rightarrow> ('s, unit) uprog" where
  "setpriority_main U argv =
     ubind (uarg_at argv 2) (\<lambda>a. let pid = u_atoi a in
     ubind (uarg_at argv 1) (\<lambda>b. let priority = u_atoi b in
     useq (call (u_set_priority U priority pid)) (uexit 0)))"

definition time_main :: "'s usys \<Rightarrow> cstring list \<Rightarrow> ('s, unit) uprog" where
  "time_main U argv =
     ubind (sys (u_fork U)) (\<lambda>pid.
     if pid < 0 then useq (u_printf U (msg ''fork(): failed'') []) (uexit 1)
     else if pid = 0 then
       (if length argv = 1 then useq (call (u_sleep U 10)) (uexit 0)
        else ubind (uarg_at argv 1) (\<lambda>path.
          useq (call (u_exec U path (tl argv)))
         (useq (u_printf U (msg ''exec(): failed'') []) (uexit 1))))
     else
       ubind (sys (u_waitx U)) (\<lambda>(_, wtime, rtime).
       useq (u_printf U (msg (CHR 0x0A # ''waiting:%d'' @ msg '''' @ ''running:%d'')) [UInt wtime, UInt rtime]) (uexit 0)))"

definition zombie_main :: "'s usys \<Rightarrow> ('s, unit) uprog" where
  "zombie_main U =
     ubind (sys (u_fork U)) (\<lambda>pid.
     useq (uwhen (pid > 0) (call (u_sleep U 5))) (uexit 0))"

text \<open>\<open>schedulertest\<close>: ten children, half of them sleeping and half counting; then the average times. The flag says
  whether the program was built for the priority scheduler; counting to a thousand million leaves nothing behind.\<close>

definition schedulertest_child :: "'s usys \<Rightarrow> int \<Rightarrow> ('s, unit) uprog" where
  "schedulertest_child U n =
     useq (uwhen (n < 5) (call (u_sleep U 200)))
    (useq (u_printf U (msg ''Process %d finished'') [UInt n]) (uexit 0))"

definition schedulertest_main :: "bool \<Rightarrow> 's usys \<Rightarrow> ('s, unit) uprog" where
  "schedulertest_main pbs U =
     ubind (uloop (\<lambda>n.
       if n < 10 then
         ubind (sys (u_fork U)) (\<lambda>pid.
         if pid < 0 then uret (Inr n)
         else if pid = 0 then useq (schedulertest_child U n) (uret (Inl (n + 1)))
         else useq (uwhen pbs (call (u_set_priority U (60 - 5 + n) pid))) (uret (Inl (n + 1))))
       else uret (Inr n)) (0 :: int)) (\<lambda>n.
     ubind (uloop (\<lambda>(n, trtime, twtime).
       if n > 0 then
         ubind (sys (u_waitx U)) (\<lambda>(r, rtime, wtime).
         uret (Inl (if r \<ge> 0 then (n - 1, trtime + rtime, twtime + wtime) else (n - 1, trtime, twtime))))
       else uret (Inr (trtime, twtime))) (n, 0, 0)) (\<lambda>(trtime, twtime).
     useq (u_printf U (msg ''Average rtime %d,  wtime %d'') [UInt (trtime sdiv 10), UInt (twtime sdiv 10)])
          (uret ())))"

section \<open>init\<close>

definition init_main :: "'s usys \<Rightarrow> ('s, unit) uprog" where
  "init_main U =
     useq (ubind (sys (u_open U (bytes ''console'') 2)) (\<lambda>fd.
       uwhen (fd < 0)
         (useq (call (u_mknod U (bytes ''console'') 1 0)) (call (u_open U (bytes ''console'') 2)))))
    (useq (call (u_dup U 0))
    (useq (call (u_dup U 0))
    (uloop (\<lambda>_.
       useq (u_printf U (msg ''init: starting sh'') [])
      (ubind (sys (u_fork U)) (\<lambda>pid.
       if pid < 0 then useq (u_printf U (msg ''init: fork failed'') []) (uexit 1)
       else if pid = 0 then
         useq (call (u_exec U (bytes ''sh'') [bytes ''sh'']))
        (useq (u_printf U (msg ''init: exec sh failed'') []) (uexit 1))
       else
         useq (uloop (\<lambda>_.
           ubind (sys (u_wait U)) (\<lambda>wpid.
           if wpid = pid then uret (Inr ())
           else if wpid < 0 then useq (u_printf U (msg ''init: wait returned an error'') []) (uexit 1)
           else uret (Inl ()))) ())
         (uret (Inl ()))))) ())))"

end
