(* ===== verification/Grep.thy ===== *)
theory Grep
  imports Utils
begin

text \<open>
  \<open>user/grep.c\<close>: the regular expression matcher and the program around it, with \<open>wc\<close> of \<open>user/wc.c\<close> as a second
  filter. \<open>prefix_matches\<close> says what a pattern means, independently of the matcher; the properties are that the
  matcher decides it, and that the programs compute the right result however the kernel cuts their input
  into reads (theory \<open>Usys\<close>).
\<close>

section \<open>The matcher\<close>

text \<open>A string is the list of its bytes before the NUL: reading the byte at the end gives 0.\<close>

definition ch :: "char \<Rightarrow> byte" where
  "ch c = of_char c"

definition at0 :: "byte list \<Rightarrow> byte" where
  "at0 s = (case s of [] \<Rightarrow> 0 | c # _ \<Rightarrow> c)"

lemma ch_simps [simp]:
  "ch CHR ''*'' = 42" "ch CHR ''.'' = 46" "ch CHR ''$'' = 36" "ch CHR ''^'' = 94"
  by (simp_all add: ch_def)

function (sequential) matchhere :: "byte list \<Rightarrow> byte list \<Rightarrow> bool"
  and matchstar :: "byte \<Rightarrow> byte list \<Rightarrow> byte list \<Rightarrow> bool" where
  "matchhere [] str = True"
| "matchhere (c # re) str =
     (if at0 re = ch CHR ''*'' then matchstar c (tl re) str
      else if c = ch CHR ''$'' \<and> re = [] then str = []
      else if str \<noteq> [] \<and> (c = ch CHR ''.'' \<or> c = hd str) then matchhere re (tl str)
      else False)"
| "matchstar c re str =
     (if matchhere re str then True
      else if str \<noteq> [] \<and> (hd str = c \<or> c = ch CHR ''.'') then matchstar c re (tl str)
      else False)"
  by pat_completeness auto
termination
  by (relation "measures [\<lambda>x. case x of Inl (re, str) \<Rightarrow> length re + length str | Inr (c, re, str) \<Rightarrow> Suc (length re + length str),
      \<lambda>x. case x of Inl _ \<Rightarrow> 0 | Inr _ \<Rightarrow> 1]") (auto simp: at0_def split: list.splits)

fun search :: "byte list \<Rightarrow> byte list \<Rightarrow> bool" where
  "search re str = (if matchhere re str then True else case str of [] \<Rightarrow> False | _ # xs \<Rightarrow> search re xs)"

definition match :: "byte list \<Rightarrow> byte list \<Rightarrow> bool" where
  "match re str = (if at0 re = ch CHR ''^'' then matchhere (tl re) str else search re str)"

declare matchhere.simps [simp del] matchstar.simps [simp del] search.simps [simp del]

section \<open>What the patterns mean\<close>

text \<open>A pattern is a sequence of items, possibly anchored at the end: a byte, any byte, or zero or more of these. An
  item describes a set of strings, and a pattern the concatenation.\<close>

datatype item = Byte byte | AnyByte | Star item

definition item_of :: "byte \<Rightarrow> item" where
  "item_of c = (if c = ch CHR ''.'' then AnyByte else Byte c)"

fun items :: "byte list \<Rightarrow> item list \<times> bool" where
  "items [] = ([], False)"
| "items (c # re) =
     (if at0 re = ch CHR ''*'' then apfst (Cons (Star (item_of c))) (items (tl re))
      else if c = ch CHR ''$'' \<and> re = [] then ([], True)
      else apfst (Cons (item_of c)) (items re))"

inductive denotes :: "item \<Rightarrow> byte list \<Rightarrow> bool" where
  Byte: "denotes (Byte c) [c]"
| AnyByte: "denotes AnyByte [c]"
| Star_none: "denotes (Star i) []"
| Star_more: "denotes i u \<Longrightarrow> denotes (Star i) v \<Longrightarrow> denotes (Star i) (u @ v)"

inductive_cases denotes_ByteE: "denotes (Byte c) u"
inductive_cases denotes_AnyByteE: "denotes AnyByte u"
inductive_cases denotes_StarE: "denotes (Star i) u"
inductive_simps denotes_single: "denotes (Byte c) u" "denotes AnyByte u"

definition in_pattern :: "item list \<Rightarrow> byte list \<Rightarrow> bool" where
  "in_pattern is u \<longleftrightarrow> (\<exists>us. u = concat us \<and> list_all2 denotes is us)"

lemma in_pattern_Nil [simp]: "in_pattern [] u \<longleftrightarrow> u = []"
  by (simp add: in_pattern_def)

lemma in_pattern_Cons: "in_pattern (i # is) u \<longleftrightarrow> (\<exists>v w. u = v @ w \<and> denotes i v \<and> in_pattern is w)"
proof
  assume "in_pattern (i # is) u"
  then obtain v us where "u = v @ concat us" "denotes i v" "list_all2 denotes is us"
    by (auto simp: in_pattern_def list_all2_Cons1)
  then show "\<exists>v w. u = v @ w \<and> denotes i v \<and> in_pattern is w" by (auto simp: in_pattern_def)
next
  assume "\<exists>v w. u = v @ w \<and> denotes i v \<and> in_pattern is w"
  then obtain v us where "u = concat (v # us)" "list_all2 denotes (i # is) (v # us)" by (auto simp: in_pattern_def)
  then show "in_pattern (i # is) u" unfolding in_pattern_def by blast
qed

text \<open>The pattern describes a beginning of the str, all of it if the pattern is anchored.\<close>

definition prefix_matches :: "item list \<times> bool \<Rightarrow> byte list \<Rightarrow> bool" where
  "prefix_matches p str \<longleftrightarrow> (\<exists>u v. str = u @ v \<and> in_pattern (fst p) u \<and> (snd p \<longrightarrow> v = []))"

lemma prefix_matches_Cons:
  "prefix_matches (i # is, e) str \<longleftrightarrow> (\<exists>u v. str = u @ v \<and> denotes i u \<and> prefix_matches (is, e) v)"
proof
  assume "prefix_matches (i # is, e) str"
  then obtain a b v where "str = (a @ b) @ v" "denotes i a" "in_pattern is b" "e \<longrightarrow> v = []"
    unfolding prefix_matches_def in_pattern_Cons fst_conv snd_conv by blast
  then have "str = a @ (b @ v)" "denotes i a" "prefix_matches (is, e) (b @ v)" by (auto simp: prefix_matches_def)
  then show "\<exists>u v. str = u @ v \<and> denotes i u \<and> prefix_matches (is, e) v" by blast
next
  assume "\<exists>u v. str = u @ v \<and> denotes i u \<and> prefix_matches (is, e) v"
  then obtain a b v where "str = (a @ b) @ v" "denotes i a" "in_pattern is b" "e \<longrightarrow> v = []"
    unfolding prefix_matches_def fst_conv snd_conv by (metis append.assoc)
  then show "prefix_matches (i # is, e) str" unfolding prefix_matches_def in_pattern_Cons fst_conv snd_conv by blast
qed

lemma denotes_one: "denotes (item_of c) u \<longleftrightarrow> (\<exists>d. u = [d] \<and> (c = ch CHR ''.'' \<or> c = d))"
  by (auto simp: denotes_single item_of_def)

lemma star_unfold:
  "denotes (Star (item_of c)) u \<longleftrightarrow> u = [] \<or> (\<exists>d v. u = d # v \<and> (c = ch CHR ''.'' \<or> c = d) \<and> denotes (Star (item_of c)) v)"
  (is "?L \<longleftrightarrow> ?R")
proof
  assume ?L
  then show ?R by (rule denotes_StarE) (auto simp: denotes_one)
next
  assume ?R
  then show ?L
  proof
    assume "u = []"
    then show ?L by (simp only: Star_none)
  next
    assume "\<exists>d v. u = d # v \<and> (c = ch CHR ''.'' \<or> c = d) \<and> denotes (Star (item_of c)) v"
    then obtain d v where u: "u = [d] @ v" "denotes (item_of c) [d]" "denotes (Star (item_of c)) v"
      by (auto simp: denotes_one)
    show ?L unfolding u(1) by (rule Star_more [OF u(2,3)])
  qed
qed

lemma prefix_star:
  "prefix_matches (Star (item_of c) # is, e) str \<longleftrightarrow> prefix_matches (is, e) str
     \<or> (str \<noteq> [] \<and> (c = ch CHR ''.'' \<or> c = hd str) \<and> prefix_matches (Star (item_of c) # is, e) (tl str))"
proof -
  have split: "(\<exists>u v. str = u @ v \<and> (u = [] \<or> (\<exists>d w. u = d # w \<and> Q d \<and> D w)) \<and> P v) \<longleftrightarrow>
      (\<exists>u v. str = u @ v \<and> u = [] \<and> P v) \<or> (\<exists>d u v. str = d # u @ v \<and> Q d \<and> D u \<and> P v)" (is "?L \<longleftrightarrow> ?R") for Q D P
  proof
    show "?L \<Longrightarrow> ?R" by auto
    show "?R \<Longrightarrow> ?L" by (metis append_Cons)
  qed
  have "prefix_matches (Star (item_of c) # is, e) str \<longleftrightarrow>
      (\<exists>u v. str = u @ v \<and> u = [] \<and> prefix_matches (is, e) v) \<or>
      (\<exists>d u v. str = d # u @ v \<and> (c = ch CHR ''.'' \<or> c = d) \<and> denotes (Star (item_of c)) u \<and> prefix_matches (is, e) v)"
    unfolding prefix_matches_Cons by (subst star_unfold, rule split)
  also have "\<dots> \<longleftrightarrow> prefix_matches (is, e) str
     \<or> (str \<noteq> [] \<and> (c = ch CHR ''.'' \<or> c = hd str) \<and> (\<exists>u v. tl str = u @ v \<and> denotes (Star (item_of c)) u \<and> prefix_matches (is, e) v))"
    by (cases str) auto
  finally show ?thesis by (simp only: prefix_matches_Cons)
qed

lemma prefix_one:
  "prefix_matches (item_of c # is, e) str \<longleftrightarrow> str \<noteq> [] \<and> (c = ch CHR ''.'' \<or> c = hd str) \<and> prefix_matches (is, e) (tl str)"
proof (cases str)
  case Nil
  then show ?thesis by (simp add: prefix_matches_Cons denotes_one)
next
  case (Cons d xs)
  have "prefix_matches (item_of c # is, e) str \<longleftrightarrow> (\<exists>u v. d # xs = u @ v \<and> (\<exists>d. u = [d] \<and> (c = ch CHR ''.'' \<or> c = d)) \<and> prefix_matches (is, e) v)"
    unfolding prefix_matches_Cons denotes_one Cons ..
  also have "\<dots> \<longleftrightarrow> (c = ch CHR ''.'' \<or> c = d) \<and> prefix_matches (is, e) xs"
    by (metis append_Cons append_Nil list.inject)
  finally show ?thesis by (simp add: Cons)
qed

lemma matcher_correct:
  "matchhere re str = prefix_matches (items re) str"
  "matchstar c re str = prefix_matches (apfst (Cons (Star (item_of c))) (items re)) str"
proof (induction re str and c re str rule: matchhere_matchstar.induct)
  case (1 str)
  show ?case by (simp add: matchhere.simps prefix_matches_def)
next
  case (2 c re str)
  show ?case
  proof (cases "at0 re = ch CHR ''*''")
    case True
    with 2(1) show ?thesis by (simp add: matchhere.simps)
  next
    case False
    show ?thesis
    proof (cases "c = ch CHR ''$'' \<and> re = []")
      case True
      then show ?thesis using False by (auto simp: matchhere.simps prefix_matches_def)
    next
      case ne: False
      show ?thesis
        using 2(2) [OF False ne] False ne prefix_one [of c "fst (items re)" "snd (items re)" str]
        by (auto simp: matchhere.simps apfst_def map_prod_def split_beta)
    qed
  qed
next
  case (3 c re str)
  then show ?case
    using prefix_star [of c "fst (items re)" "snd (items re)" str]
    by (auto simp: matchstar.simps [of c re str] apfst_def map_prod_def split_beta)
qed

lemma search_matches: "search re str \<longleftrightarrow> (\<exists>u v. str = u @ v \<and> prefix_matches (items re) v)"
proof (induction str)
  case Nil
  show ?case by (simp add: search.simps matcher_correct)
next
  case (Cons c str)
  have split: "(\<exists>u v. c # str = u @ v \<and> P v) \<longleftrightarrow> P (c # str) \<or> (\<exists>u v. str = u @ v \<and> P v)" for P
  proof
    assume "\<exists>u v. c # str = u @ v \<and> P v"
    then obtain u v where "c # str = u @ v" "P v" by blast
    then show "P (c # str) \<or> (\<exists>u v. str = u @ v \<and> P v)" by (cases u) auto
  qed (metis append_Cons append_Nil)
  show ?case using Cons split [of "prefix_matches (items re)"] by (simp add: search.simps [of re "c # str"] matcher_correct)
qed

section \<open>The program\<close>

text \<open>The buffer is the list of the \<open>m\<close> bytes in it. \<open>cut_line\<close> is what \<open>strchr(p, newline)\<close> finds: a line feed before
  the first NUL.\<close>

definition LF :: byte where "LF = 10"

lemma LF_neq_0 [simp]: "LF \<noteq> 0"
  by (simp add: LF_def)

definition cut_line :: "byte list \<Rightarrow> (byte list \<times> byte list) option" where
  "cut_line p = (let q = takeWhile (\<lambda>c. c \<noteq> LF \<and> c \<noteq> 0) p in
     if length q < length p \<and> p ! length q = LF then Some (q, drop (Suc (length q)) p) else None)"

function grep_lines :: "'s usys \<Rightarrow> cstring \<Rightarrow> byte list \<Rightarrow> ('s, byte list) uprog" where
  "grep_lines U pattern p = (case cut_line p of
     None \<Rightarrow> uret p
   | Some (l, rest) \<Rightarrow>
       useq (uwhen (match pattern l) (call (u_write U 1 (l @ [LF])))) (grep_lines U pattern rest))"
  by pat_completeness auto
termination
  by (relation "measure (\<lambda>(_, _, p). length p)") (auto simp: cut_line_def Let_def split: if_splits)

declare grep_lines.simps [simp del]

definition grep :: "'s usys \<Rightarrow> cstring \<Rightarrow> int \<Rightarrow> ('s, unit) uprog" where
  "grep U pattern fd =
     uloop (\<lambda>buf.
       ubind (sys (u_read U fd (1024 - int (length buf) - 1))) (\<lambda>(n, bs).
       if n > 0 then ubind (grep_lines U pattern (buf @ bs)) (\<lambda>rest. uret (Inl rest))
       else uret (Inr ()))) []"

section \<open>Lines\<close>

definition line_of :: "byte list \<Rightarrow> bool" where
  "line_of l \<longleftrightarrow> LF \<notin> set l \<and> 0 \<notin> set l"

definition unlines :: "byte list list \<Rightarrow> byte list" where
  "unlines lns = concat (map (\<lambda>l. l @ [LF]) lns)"

lemma unlines_simps [simp]: "unlines [] = []" "unlines (l # lns) = l @ LF # unlines lns" "unlines (lns @ ms) = unlines lns @ unlines ms"
  by (simp_all add: unlines_def)

lemma takeWhile_line: "line_of l \<Longrightarrow> takeWhile (\<lambda>c. c \<noteq> LF \<and> c \<noteq> 0) (l @ r) = l @ takeWhile (\<lambda>c. c \<noteq> LF \<and> c \<noteq> 0) r"
  by (rule takeWhile_append2) (auto simp: line_of_def)

lemma cut_line_some: "line_of l \<Longrightarrow> cut_line (l @ LF # r) = Some (l, r)"
  by (simp add: cut_line_def takeWhile_line Let_def)

lemma cut_line_none: "line_of p \<Longrightarrow> cut_line p = None"
  using takeWhile_line [of p "[]"] by (simp add: cut_line_def Let_def)

text \<open>A beginning of the text consists of whole lines and a part of the next one.\<close>

lemma prefix_lines:
  assumes "p @ q = unlines lns @ last_part" "\<forall>l \<in> set lns. line_of l" "line_of last_part"
  shows "\<exists>done_ls rest more. p = unlines done_ls @ rest \<and> lns = done_ls @ more \<and> line_of rest \<and> rest @ q = unlines more @ last_part"
  using assms
proof (induction lns arbitrary: p)
  case Nil
  then show ?case by (intro exI [of _ "[]"] exI [of _ p]) (auto simp: line_of_def)
next
  case (Cons l lns)
  show ?case
  proof (cases "length p \<le> length l")
    case True
    with Cons.prems(1) have "\<exists>us. l = p @ us" by (auto simp: append_eq_append_conv2)
    then have "line_of p" using Cons.prems(2) by (auto simp: line_of_def)
    then show ?thesis using Cons.prems(1) by (intro exI [of _ "[]"] exI [of _ p] exI [of _ "l # lns"]) auto
  next
    case False
    with Cons.prems(1) obtain p' where p: "p = l @ LF # p'"
      by (auto simp: append_eq_append_conv2 append_eq_Cons_conv)
    then have "p' @ q = unlines lns @ last_part" using Cons.prems(1) by simp
    from Cons.IH [OF this] Cons.prems(2,3) obtain d r m where
      "p' = unlines d @ r" "lns = d @ m" "line_of r" "r @ q = unlines m @ last_part" by auto
    then show ?thesis using p by (intro exI [of _ "l # d"] exI [of _ r] exI [of _ m]) simp
  qed
qed

section \<open>On a stream\<close>

definition matching :: "cstring \<Rightarrow> byte list list \<Rightarrow> byte list" where
  "matching pattern lns = unlines (filter (match pattern) lns)"

definition emit :: "byte list \<Rightarrow> stream \<Rightarrow> stream" where
  "emit bs s = s\<lparr>st_out := (st_out s)(1 := st_out s 1 @ bs)\<rparr>"

lemma emit_simps [simp]: "emit [] s = s" "emit b (emit a s) = emit (a @ b) s" "st_in (emit a s) = st_in s"
  "st_grants (emit a s) = st_grants s"
  by (simp_all add: emit_def)

lemma grep_lines_run:
  assumes "u_write U = stream_write" "line_of r" "\<forall>l \<in> set lns. line_of l"
  shows "grep_lines U pattern (unlines lns @ r) s = Ok (Inr r) (emit (matching pattern lns) s)"
  using assms(3)
proof (induction lns arbitrary: s)
  case Nil
  then show ?case by (simp add: grep_lines.simps cut_line_none [OF assms(2)] uret_run matching_def)
next
  case (Cons l lns)
  have w: "call (u_write U 1 (l @ [LF])) s = Ok (Inr ()) (emit (l @ [LF]) s)"
    by (rule call_run [where x = "int (length (l @ [LF]))"]) (simp add: assms(1) stream_write_def emit_def)
  have c: "cut_line (unlines (l # lns) @ r) = Some (l, unlines lns @ r)" using Cons.prems by (simp add: cut_line_some)
  have IH: "grep_lines U pattern (unlines lns @ r) t = Ok (Inr r) (emit (matching pattern lns) t)" for t
    using Cons by simp
  let ?t = "if match pattern l then emit (l @ [LF]) s else s"
  have "uwhen (match pattern l) (call (u_write U 1 (l @ [LF]))) s = Ok (Inr ()) ?t"
    by (simp add: uwhen_def w uret_run)
  then have "grep_lines U pattern (unlines (l # lns) @ r) s = grep_lines U pattern (unlines lns @ r) ?t"
    by (subst grep_lines.simps) (simp only: c option.case prod.case useq_def ubind_def bind_def outcome.case sum.case)
  also have "\<dots> = Ok (Inr r) (emit (matching pattern lns) ?t)" by (rule IH)
  also have "emit (matching pattern lns) ?t = emit (matching pattern (l # lns)) s" by (simp add: matching_def)
  finally show ?case .
qed

lemma read_run: "sys (u_read U fd n) s = Ok (Inr (int (granted s n), take (granted s n) (st_in s)))
    (s\<lparr>st_in := drop (granted s n) (st_in s), st_grants := tl (st_grants s)\<rparr>)" if "u_read U = stream_read"
  by (rule sys_run) (simp add: that stream_read_def Let_def)

text \<open>The buffer holds the beginning of a line; what has been printed and what is still to come make up the whole.\<close>

definition grep_body :: "'s usys \<Rightarrow> cstring \<Rightarrow> int \<Rightarrow> byte list \<Rightarrow> ('s, byte list + unit) uprog" where
  "grep_body U pattern fd = (\<lambda>buf.
       ubind (sys (u_read U fd (1024 - int (length buf) - 1))) (\<lambda>(n, bs).
       if n > 0 then ubind (grep_lines U pattern (buf @ bs)) (\<lambda>rest. uret (Inl rest))
       else uret (Inr ())))"

lemma grep_loop_run:
  assumes U: "u_read U = stream_read" "u_write U = stream_write"
    and input: "buf @ st_in s = unlines lns @ last_part" "\<forall>l \<in> set lns. line_of l \<and> length l < 1023" "line_of last_part" "line_of buf"
  shows "\<exists>t. uloop (grep_body U pattern fd) buf s = Ok (Inr ()) t \<and> st_out t = (st_out s)(1 := st_out s 1 @ matching pattern lns)"
  using input
proof (induction "length (st_in s)" arbitrary: s buf lns rule: less_induct)
  case less
  let ?n = "1024 - int (length buf) - 1"
  let ?k = "granted s ?n"
  let ?s1 = "s\<lparr>st_in := drop ?k (st_in s), st_grants := tl (st_grants s)\<rparr>"
  have read: "sys (u_read U fd ?n) s = Ok (Inr (int ?k, take ?k (st_in s))) ?s1" by (rule read_run [OF U(1)])
  show ?case
  proof (cases "?k = 0")
    case True
    have "lns = []"
    proof (rule ccontr)
      assume "lns \<noteq> []"
      then obtain l lns' where lns: "lns = l # lns'" by (cases lns) auto
      have l: "line_of l" "length l < 1023" using less.prems(2) lns by auto
      have "length buf \<le> length l"
      proof (rule ccontr)
        assume "\<not> length buf \<le> length l"
        then have "LF \<in> set buf" using less.prems(1) lns
          by (auto simp: append_eq_append_conv2 append_eq_Cons_conv)
        then show False using less.prems(4) by (simp add: line_of_def)
      qed
      moreover from this have "st_in s \<noteq> []" using arg_cong [OF less.prems(1), of length] lns by auto
      ultimately show False using granted_bounds(3) [of ?n s] True l by simp
    qed
    then have "uloop (grep_body U pattern fd) buf s = Ok (Inr ()) ?s1" using True read
      by (subst uloop_unfold) (simp add: grep_body_def ubind_def bind_def uret_run)
    then show ?thesis using \<open>lns = []\<close> by (simp add: matching_def)
  next
    case False
    have "(buf @ take ?k (st_in s)) @ drop ?k (st_in s) = unlines lns @ last_part" using less.prems(1) by simp
    from prefix_lines [OF this _ less.prems(3)] less.prems(2) obtain d r m where
      p: "buf @ take ?k (st_in s) = unlines d @ r" "lns = d @ m" "line_of r" "r @ drop ?k (st_in s) = unlines m @ last_part" by auto
    let ?s2 = "emit (matching pattern d) ?s1"
    have lines: "grep_lines U pattern (buf @ take ?k (st_in s)) ?s1 = Ok (Inr r) ?s2"
      unfolding p(1) by (rule grep_lines_run [OF U(2) p(3)]) (use less.prems(2) p(2) in simp)
    have body: "grep_body U pattern fd buf s = Ok (Inr (Inl r)) ?s2"
      unfolding grep_body_def ubind_def bind_def read outcome.case sum.case prod.case
      by (subst if_P, use False in simp) (simp only: lines outcome.case sum.case uret_run)
    have "length (st_in ?s2) < length (st_in s)" using False granted_bounds(1) [of s ?n] by simp
    from less.hyps [OF this, of r m] p(2-4) less.prems(2,3)
    obtain t where t: "uloop (grep_body U pattern fd) r ?s2 = Ok (Inr ()) t"
      "st_out t = (st_out ?s2)(1 := st_out ?s2 1 @ matching pattern m)" by auto
    have "uloop (grep_body U pattern fd) buf s = Ok (Inr ()) t"
      by (subst uloop_unfold) (simp only: ubind_def bind_def body outcome.case sum.case t(1))
    moreover have "st_out t = (st_out s)(1 := st_out s 1 @ matching pattern lns)"
      using t(2) p(2) by (simp add: emit_def matching_def)
    ultimately show ?thesis by blast
  qed
qed

section \<open>grep: main\<close>

definition grep_main :: "'s usys \<Rightarrow> cstring list \<Rightarrow> ('s, unit) uprog" where
  "grep_main U argv =
     (if length argv \<le> 1 then useq (u_fprintf U 2 (msg ''usage: grep pattern [file ...]'') []) (uexit 1)
      else let pattern = argv ! 1 in
        if length argv \<le> 2 then useq (grep U pattern 0) (uexit 0)
        else each_file U (drop 2 argv) (\<lambda>name. u_printf U (msg ''grep: cannot open %s'') [UStr (Some name)])
               (\<lambda>fd _. grep U pattern fd))"

lemma grep_unfold: "grep U pattern fd = uloop (grep_body U pattern fd) []"
  by (simp add: grep_def grep_body_def)

text \<open>C35: \<open>grep\<close>'s matcher implements its patterns. Read as a sequence of items (a character, \<open>.\<close> for any character, either
  with \<open>*\<close> for any number of repetitions), anchored at the end by a final \<open>$\<close> and at the beginning by a leading
  \<open>^\<close>, a pattern matches a line exactly when the line, or some part of it where it is not anchored, is a
  concatenation of strings of the items. The recursion of \<open>matchhere\<close> and \<open>matchstar\<close> ends on every input.\<close>

theorem grep_matcher_language:
  "match re line \<longleftrightarrow>
     (if at0 re = ch CHR ''^'' then prefix_matches (items (tl re)) line
      else \<exists>u v. line = u @ v \<and> prefix_matches (items re) v)"
  by (simp add: match_def matcher_correct search_matches)

text \<open>C36: \<open>grep\<close> prints exactly the lines that match, whatever amounts of its input the kernel returns from each read:
  lines that straddle the end of the buffer are put together. It needs every line to fit into the buffer with
  its line feed (less than 1023 characters); a last line without a line feed is not printed.\<close>

theorem grep_prints_matching_lines:
  assumes "u_read U = stream_read" "u_write U = stream_write"
    and "st_in s = concat (map (\<lambda>l. l @ [LF]) lines) @ last_part"
    and "\<forall>l \<in> set lines. LF \<notin> set l \<and> 0 \<notin> set l \<and> length l < 1023" "LF \<notin> set last_part" "0 \<notin> set last_part"
  shows "\<exists>t. grep U pattern fd s = Ok (Inr ()) t
    \<and> st_out t = (st_out s)(1 := st_out s 1 @ concat (map (\<lambda>l. l @ [LF]) (filter (match pattern) lines)))"
  unfolding grep_unfold
  using grep_loop_run [of U "[]" s lines last_part] assms by (simp add: line_of_def unlines_def matching_def)

text \<open>The calls that the examples do not make fail.\<close>

definition stream_sys :: "stream usys" where
  "stream_sys = \<lparr>u_fork = ret (-1), u_exec = (\<lambda>_ _. ret (-1)), u_wait = ret (-1), u_waitx = ret (-1, 0, 0),
     u_read = stream_read, u_write = stream_write, u_open = (\<lambda>_ _. ret (-1)), u_close = (\<lambda>_. ret (-1)), u_dup = (\<lambda>_. ret (-1)),
     u_pipe = ret (-1, 0, 0), u_fstat = (\<lambda>_. ret (-1, \<lparr>us_type = 0, us_ino = 0, us_size = 0\<rparr>)), u_chdir = (\<lambda>_. ret (-1)),
     u_mkdir = (\<lambda>_. ret (-1)), u_mknod = (\<lambda>_ _ _. ret (-1)), u_link = (\<lambda>_ _. ret (-1)), u_unlink = (\<lambda>_. ret (-1)),
     u_kill = (\<lambda>_. ret (-1)), u_sleep = (\<lambda>_. ret 0), u_trace = (\<lambda>_. ret (-1)), u_set_priority = (\<lambda>_ _. ret (-1))\<rparr>"

lemma grep_prints_matching_lines_witness:
  "\<exists>t. grep stream_sys [97, 98, 42] 0 \<lparr>st_in = [97, 98, LF, 99, LF, 97, LF, 97], st_grants = [0, 3, 0], st_out = (\<lambda>_. [])\<rparr> = Ok (Inr ()) t
    \<and> st_out t 1 = [97, 98, LF, 97, LF]"
proof -
  let ?s = "\<lparr>st_in = [97, 98, LF, 99, LF, 97, LF, 97], st_grants = [0, 3, 0], st_out = (\<lambda>_. [])\<rparr> :: stream"
  have "match [97, 98, 42] [97, 98]" "\<not> match [97, 98, 42] [99]" "match [97, 98, 42] [97]"
    by (simp_all add: match_def at0_def search.simps matchhere.simps matchstar.simps)
  moreover have "\<exists>t. grep stream_sys [97, 98, 42] 0 ?s = Ok (Inr ()) t
    \<and> st_out t = (st_out ?s)(1 := st_out ?s 1 @ concat (map (\<lambda>l. l @ [LF]) (filter (match [97, 98, 42]) [[97, 98], [99], [97]])))"
    by (rule grep_prints_matching_lines [where last_part = "[97]"]) (simp_all add: stream_sys_def, simp_all add: LF_def)
  ultimately show ?thesis by auto
qed

section \<open>wc\<close>

definition word_starts :: "bool \<Rightarrow> byte list \<Rightarrow> nat" where
  "word_starts inword bs = card {i. i < length bs \<and> \<not> is_space (bs ! i) \<and> (if i = 0 then \<not> inword else is_space (bs ! (i - 1)))}"

lemma word_starts_Cons:
  "word_starts w (b # bs) = (if \<not> is_space b \<and> \<not> w then 1 else 0) + word_starts (\<not> is_space b) bs"
proof -
  let ?P = "\<lambda>i. i < length (b # bs) \<and> \<not> is_space ((b # bs) ! i) \<and> (if i = 0 then \<not> w else is_space ((b # bs) ! (i - 1)))"
  let ?Q = "\<lambda>i. i < length bs \<and> \<not> is_space (bs ! i) \<and> (if i = 0 then \<not> (\<not> is_space b) else is_space (bs ! (i - 1)))"
  have "{i. ?P i} = {i. i = 0 \<and> ?P i} \<union> Suc ` {i. ?Q i}"
  proof (rule set_eqI)
    fix i show "i \<in> {i. ?P i} \<longleftrightarrow> i \<in> {i. i = 0 \<and> ?P i} \<union> Suc ` {i. ?Q i}"
      by (cases i) (auto simp: nth_Cons' split: if_splits)
  qed
  then have "card {i. ?P i} = card {i. i = 0 \<and> ?P i} + card {i. ?Q i}"
    by (simp only:) (subst card_Un_disjoint, auto simp: card_image)
  moreover have "card {i. i = 0 \<and> ?P i} = (if \<not> is_space b \<and> \<not> w then 1 else 0)"
    by (auto simp: Collect_conv_if)
  ultimately show ?thesis by (simp only: word_starts_def)
qed

lemma word_starts_Nil: "word_starts w [] = 0"
  by (simp add: word_starts_def)

lemma word_starts_positions:
  "word_starts False bs = card {i. i < length bs \<and> \<not> is_space (bs ! i) \<and> (i = 0 \<or> is_space (bs ! (i - 1)))}"
  unfolding word_starts_def by (rule arg_cong [where f = card]) auto

lemma wc_char_fold:
  "fold wc_char bs k = \<lparr>wc_l = wc_l k + int (count_list bs 10), wc_w = wc_w k + int (word_starts (wc_inword k) bs),
     wc_c = wc_c k + int (length bs), wc_inword = (if bs = [] then wc_inword k else \<not> is_space (last bs))\<rparr>"
proof (induction bs arbitrary: k)
  case Nil
  show ?case by (simp add: word_starts_Nil)
next
  case (Cons b bs)
  have "wc_inword (wc_char b k) = (\<not> is_space b)" "wc_l (wc_char b k) = wc_l k + (if b = 10 then 1 else 0)"
    "wc_c (wc_char b k) = wc_c k + 1" "wc_w (wc_char b k) = wc_w k + (if \<not> is_space b \<and> \<not> wc_inword k then 1 else 0)"
    by (auto simp: wc_char_def Let_def is_space_def)
  then show ?case using Cons [of "wc_char b k"] by (simp add: word_starts_Cons)
qed

lemma wc_loop_run:
  assumes "u_read U = stream_read"
  shows "\<exists>t. uloop (\<lambda>k.
       ubind (sys (u_read U fd 512)) (\<lambda>(n, bs).
       if n > 0 then uret (Inl (fold wc_char bs k)) else uret (Inr (n, k)))) k s
     = Ok (Inr (0, fold wc_char (st_in s) k)) t \<and> st_out t = st_out s" (is "\<exists>t. uloop ?body k s = _ t \<and> _ t")
proof (induction "length (st_in s)" arbitrary: s k rule: less_induct)
  case less
  let ?g = "granted s 512"
  let ?s1 = "s\<lparr>st_in := drop ?g (st_in s), st_grants := tl (st_grants s)\<rparr>"
  have read: "sys (u_read U fd 512) s = Ok (Inr (int ?g, take ?g (st_in s))) ?s1" by (rule read_run [OF assms])
  show ?case
  proof (cases "?g = 0")
    case True
    then have "st_in s = []" using granted_bounds(3) [of 512 s] by auto
    moreover have "uloop ?body k s = Ok (Inr (0, k)) ?s1"
      using True by (subst uloop_unfold) (simp add: ubind_def bind_def read uret_run)
    ultimately show ?thesis by simp
  next
    case False
    have body: "?body k s = Ok (Inr (Inl (fold wc_char (take ?g (st_in s)) k))) ?s1"
      using False by (simp add: ubind_def bind_def read uret_run)
    have "length (st_in ?s1) < length (st_in s)" using False granted_bounds(1) [of s 512] by simp
    from less.hyps [OF this, of "fold wc_char (take ?g (st_in s)) k"] obtain t where
      t: "uloop ?body (fold wc_char (take ?g (st_in s)) k) ?s1 = Ok (Inr (0, fold wc_char (drop ?g (st_in s)) (fold wc_char (take ?g (st_in s)) k))) t"
        "st_out t = st_out s" by auto
    have "fold wc_char (drop ?g (st_in s)) (fold wc_char (take ?g (st_in s)) k) = fold wc_char (st_in s) k"
      by (simp flip: fold_append [THEN fun_cong, unfolded comp_def])
    moreover have "uloop ?body k s = uloop ?body (fold wc_char (take ?g (st_in s)) k) ?s1"
      by (subst uloop_unfold) (simp only: ubind_def [of "?body k"] bind_def [of "?body k"] body outcome.case sum.case)
    ultimately show ?thesis using t by auto
  qed
qed

text \<open>C37: \<open>wc\<close> counts right, whatever amounts of its input the kernel returns from each read: what it prints are the number
  of line feeds, the number of places where a word begins (a character that is not white space, at the beginning or after white
  space), and the number of characters of the input. The counters are integers here and \<open>int\<close> in the program: they
  are the same up to \<open>2 ^ 31 - 1\<close> characters, and \<open>printf\<close> prints the lower 32 bits.\<close>

theorem wc_counts:
  assumes "u_read U = stream_read"
  shows "\<exists>t. st_out t = st_out s \<and> wc U fd name s = u_printf U (msg ''%d %d %d %s'')
    [UInt (int (count_list (st_in s) 10)),
     UInt (int (card {i. i < length (st_in s) \<and> \<not> is_space (st_in s ! i) \<and> (i = 0 \<or> is_space (st_in s ! (i - 1)))})),
     UInt (int (length (st_in s))), UStr (Some name)] t"
proof -
  let ?k = "\<lparr>wc_l = 0, wc_w = 0, wc_c = 0, wc_inword = False\<rparr>"
  obtain t where t: "uloop (\<lambda>k.
       ubind (sys (u_read U fd 512)) (\<lambda>(n, bs).
       if n > 0 then uret (Inl (fold wc_char bs k)) else uret (Inr (n, k)))) ?k s
     = Ok (Inr (0, fold wc_char (st_in s) ?k)) t" "st_out t = st_out s"
    using wc_loop_run [OF assms] by blast
  have "wc U fd name s = u_printf U (msg ''%d %d %d %s'')
      [UInt (int (count_list (st_in s) 10)), UInt (int (word_starts False (st_in s))), UInt (int (length (st_in s))), UStr (Some name)] t"
    unfolding wc_def
    by (subst ubind_run, rule t(1)) (simp add: wc_char_fold uwhen_def useq_def ubind_def bind_def uret_run)
  then show ?thesis using t(2) unfolding word_starts_positions by blast
qed

lemma wc_counts_witness:
  "\<exists>t :: stream. wc stream_sys 0 [] \<lparr>st_in = [104, 105, 32, 104, 111, 10], st_grants = [0, 1], st_out = (\<lambda>_. [])\<rparr>
    = u_printf stream_sys (msg ''%d %d %d %s'') [UInt 1, UInt 2, UInt 6, UStr (Some [])] t"
proof -
  let ?s = "\<lparr>st_in = [104, 105, 32, 104, 111, 10], st_grants = [0, 1], st_out = (\<lambda>_. [])\<rparr> :: stream"
  have "word_starts False (st_in ?s) = 2" by (simp add: word_starts_Cons word_starts_Nil is_space_def)
  moreover have "u_read stream_sys = stream_read" by (simp add: stream_sys_def)
  ultimately show ?thesis using wc_counts [of stream_sys ?s 0 "[]", folded word_starts_positions] by auto
qed

end
