(* ===== verification/Shell.thy ===== *)
theory Shell
  imports Utils
begin

text \<open>
  \<open>user/sh.c\<close>: the shell. A command line is the list \<open>b\<close> of its bytes, and a pointer into it a position; the byte at
  position \<open>length b\<close> (the pointer \<open>es\<close>) is the NUL. The parser builds a tree of commands in which a word is a pair of
  positions, its beginning and its end (\<open>argv\<close> and \<open>eargv\<close>); \<open>nulterminate\<close> then writes a NUL at the end of every
  word. The shell's \<open>panic\<close> is the result \<open>Syntax\<close>. The loops and the functions that call each other in a cycle through
  \<open>parseblock\<close> have fuel: four times the length of the line is enough, as \<open>parser_wp\<close> shows. Nodes of the tree are allocated with \<open>malloc\<close>,
  which is taken to succeed (the source does not look at its result).
\<close>

section \<open>Commands\<close>

definition MAXARGS :: nat where [simp]: "MAXARGS = 10"

datatype shcmd =
    EXEC "(nat \<times> nat) list"
  | REDIR shcmd nat nat int int
  | PIPE shcmd shcmd
  | LIST shcmd shcmd
  | BACK shcmd

definition REDIR_IN :: int where [simp]: "REDIR_IN = 0"
definition REDIR_OUT :: int where [simp]: "REDIR_OUT = 0x601"
definition REDIR_APP :: int where [simp]: "REDIR_APP = 0x201"

section \<open>Tokens\<close>

definition whitespace :: "byte list" where [code_unfold]: "whitespace = [32, 9, 13, 10, 11]"
definition symbols :: "byte list" where [code_unfold]: "symbols = bytes ''<|>&;()''"

definition byte_at :: "byte list \<Rightarrow> nat \<Rightarrow> byte" where
  "byte_at b s = (if s < length b then b ! s else 0)"

definition ws :: "byte \<Rightarrow> bool" where
  "ws c \<longleftrightarrow> c \<in> set whitespace"

definition ordinary :: "byte \<Rightarrow> bool" where
  "ordinary c \<longleftrightarrow> \<not> ws c \<and> c \<notin> set symbols"

definition skip_ws :: "byte list \<Rightarrow> nat \<Rightarrow> nat" where
  "skip_ws b s = s + length (takeWhile ws (drop s b))"

definition skip_word :: "byte list \<Rightarrow> nat \<Rightarrow> nat" where
  "skip_word b s = s + length (takeWhile ordinary (drop s b))"

text \<open>The token, where it begins and ends, and where to go on. 97 (\<open>a\<close>) stands for a word and 43 (\<open>+\<close>) for \<open>>>\<close>.\<close>

definition gettoken :: "byte list \<Rightarrow> nat \<Rightarrow> int \<times> nat \<times> nat \<times> nat" where
  "gettoken b s =
     (let q = skip_ws b s; c = byte_at b q;
          (r, eq) =
            (if c = 0 then (0, q)
             else if c \<in> set (bytes ''|();&<'') then (uint c, q + 1)
             else if c = 62 then (if byte_at b (q + 1) = 62 then (43, q + 2) else (62, q + 1))
             else (97, skip_word b q)) in
      (r, q, eq, skip_ws b eq))"

definition peek :: "byte list \<Rightarrow> nat \<Rightarrow> string \<Rightarrow> nat \<times> bool" where
  "peek b s toks =
     (let s = skip_ws b s in (s, byte_at b s \<noteq> 0 \<and> byte_at b s \<in> set (bytes toks)))"

definition after_token :: "byte list \<Rightarrow> nat \<Rightarrow> nat" where
  "after_token b s = (case gettoken b s of (_, _, _, s) \<Rightarrow> s)"

section \<open>The parser\<close>

datatype 'a parsed = Parsed 'a | Syntax string | NoFuel

definition parse_bind :: "'a parsed \<Rightarrow> ('a \<Rightarrow> 'b parsed) \<Rightarrow> 'b parsed" where
  "parse_bind r f = (case r of Parsed x \<Rightarrow> f x | Syntax m \<Rightarrow> Syntax m | NoFuel \<Rightarrow> NoFuel)"

text \<open>A loop: a turn goes round again with \<open>Inl\<close> and ends with \<open>Inr\<close>.\<close>

primrec turns :: "nat \<Rightarrow> ('x \<Rightarrow> ('x + 'r) parsed) \<Rightarrow> 'x \<Rightarrow> 'r parsed" where
  "turns 0 body x = NoFuel"
| "turns (Suc n) body x = parse_bind (body x) (\<lambda>r. case r of Inl y \<Rightarrow> turns n body y | Inr v \<Rightarrow> Parsed v)"

definition redir_turn :: "byte list \<Rightarrow> shcmd \<times> nat \<Rightarrow> (shcmd \<times> nat + shcmd \<times> nat) parsed" where
  "redir_turn b = (\<lambda>(cmd, s).
     case peek b s ''<>'' of (s, yes) \<Rightarrow>
     if yes then
       (case gettoken b s of (tok, _, _, s) \<Rightarrow>
        case gettoken b s of (w, q, eq, s) \<Rightarrow>
        if w \<noteq> 97 then Syntax ''missing file for redirection''
        else Parsed (Inl
          (if tok = 60 then REDIR cmd q eq REDIR_IN 0
           else if tok = 62 then REDIR cmd q eq REDIR_OUT 1
           else if tok = 43 then REDIR cmd q eq REDIR_APP 1
           else cmd, s)))
     else Parsed (Inr (cmd, s)))"

definition parseredirs :: "byte list \<Rightarrow> shcmd \<Rightarrow> nat \<Rightarrow> (shcmd \<times> nat) parsed" where
  "parseredirs b cmd s = turns (Suc (length b)) (redir_turn b) (cmd, s)"

text \<open>\<open>parseexec\<close> stores the words in the node it allocated first, which redirections have been wrapped around since.\<close>

fun add_arg :: "nat \<times> nat \<Rightarrow> shcmd \<Rightarrow> shcmd" where
  "add_arg w (EXEC args) = EXEC (args @ [w])"
| "add_arg w (REDIR c q eq mode fd) = REDIR (add_arg w c) q eq mode fd"
| "add_arg w c = c"

definition exec_turn :: "byte list \<Rightarrow> nat \<times> shcmd \<times> nat \<Rightarrow> (nat \<times> shcmd \<times> nat + shcmd \<times> nat) parsed" where
  "exec_turn b = (\<lambda>(argc, ret, s).
     case peek b s ''|)&;'' of (s, stop) \<Rightarrow>
     if stop then Parsed (Inr (ret, s))
     else (case gettoken b s of (tok, q, eq, s) \<Rightarrow>
       if tok = 0 then Parsed (Inr (ret, s))
       else if tok \<noteq> 97 then Syntax ''syntax''
       else if argc + 1 \<ge> MAXARGS then Syntax ''too many args''
       else parse_bind (parseredirs b (add_arg (q, eq) ret) s) (\<lambda>(ret, s). Parsed (Inl (argc + 1, ret, s)))))"

definition exec_args :: "byte list \<Rightarrow> shcmd \<Rightarrow> nat \<Rightarrow> (shcmd \<times> nat) parsed" where
  "exec_args b cmd s = turns (Suc (length b)) (exec_turn b) (0, cmd, s)"

definition back_turn :: "byte list \<Rightarrow> shcmd \<times> nat \<Rightarrow> (shcmd \<times> nat + shcmd \<times> nat) parsed" where
  "back_turn b = (\<lambda>(cmd, s).
     case peek b s ''&'' of (s, yes) \<Rightarrow>
     if yes then Parsed (Inl (BACK cmd, after_token b s)) else Parsed (Inr (cmd, s)))"

definition backs :: "byte list \<Rightarrow> shcmd \<Rightarrow> nat \<Rightarrow> (shcmd \<times> nat) parsed" where
  "backs b cmd s = turns (Suc (length b)) (back_turn b) (cmd, s)"

fun parseline :: "nat \<Rightarrow> byte list \<Rightarrow> nat \<Rightarrow> (shcmd \<times> nat) parsed"
  and parsepipe :: "nat \<Rightarrow> byte list \<Rightarrow> nat \<Rightarrow> (shcmd \<times> nat) parsed"
  and parseexec :: "nat \<Rightarrow> byte list \<Rightarrow> nat \<Rightarrow> (shcmd \<times> nat) parsed"
  and parseblock :: "nat \<Rightarrow> byte list \<Rightarrow> nat \<Rightarrow> (shcmd \<times> nat) parsed" where
  "parseline 0 b s = NoFuel"
| "parseline (Suc n) b s =
     parse_bind (parsepipe n b s) (\<lambda>(cmd, s).
     parse_bind (backs b cmd s) (\<lambda>(cmd, s).
     case peek b s '';'' of (s, yes) \<Rightarrow>
     if yes then parse_bind (parseline n b (after_token b s)) (\<lambda>(right, s). Parsed (LIST cmd right, s))
     else Parsed (cmd, s)))"
| "parsepipe 0 b s = NoFuel"
| "parsepipe (Suc n) b s =
     parse_bind (parseexec n b s) (\<lambda>(cmd, s).
     case peek b s ''|'' of (s, yes) \<Rightarrow>
     if yes then parse_bind (parsepipe n b (after_token b s)) (\<lambda>(right, s). Parsed (PIPE cmd right, s))
     else Parsed (cmd, s))"
| "parseexec 0 b s = NoFuel"
| "parseexec (Suc n) b s =
     (case peek b s ''('' of (s, yes) \<Rightarrow>
      if yes then parseblock n b s
      else parse_bind (parseredirs b (EXEC []) s) (\<lambda>(cmd, s). exec_args b cmd s))"
| "parseblock 0 b s = NoFuel"
| "parseblock (Suc n) b s =
     (case peek b s ''('' of (s, yes) \<Rightarrow>
      if \<not> yes then Syntax ''parseblock''
      else
        parse_bind (parseline n b (after_token b s)) (\<lambda>(cmd, s).
        case peek b s '')'' of (s, yes) \<Rightarrow>
        if \<not> yes then Syntax ''syntax - missing )''
        else parseredirs b cmd (after_token b s)))"

text \<open>The buffer \<open>buf\<close> includes the NUL at the end of the line.\<close>

fun nulterminate :: "shcmd \<Rightarrow> byte list \<Rightarrow> byte list" where
  "nulterminate (EXEC args) buf = fold (\<lambda>(q, eq) buf. buf[eq := 0]) args buf"
| "nulterminate (REDIR c q eq mode fd) buf = (nulterminate c buf)[eq := 0]"
| "nulterminate (PIPE l r) buf = nulterminate r (nulterminate l buf)"
| "nulterminate (LIST l r) buf = nulterminate r (nulterminate l buf)"
| "nulterminate (BACK c) buf = nulterminate c buf"

text \<open>The tree and the buffer with the NULs, or a complaint.\<close>

definition sh_panic :: "'s usys \<Rightarrow> string \<Rightarrow> ('s, 'a) uprog" where
  "sh_panic U s = useq (u_fprintf U 2 (msg ''%s'') [UStr (Some (bytes s))]) (uexit 1)"

definition parsecmd :: "'s usys \<Rightarrow> byte list \<Rightarrow> ('s, shcmd \<times> byte list) uprog" where
  "parsecmd U b = (case parseline (4 * length b + 4) b 0 of
     Parsed (cmd, s) \<Rightarrow>
       (case peek b s '''' of (s, _) \<Rightarrow>
        if s \<noteq> length b then
          useq (u_fprintf U 2 (msg ''leftovers: %s'') [UStr (Some (drop s b))]) (sh_panic U ''syntax'')
        else uret (cmd, nulterminate cmd (b @ [0])))
   | Syntax m \<Rightarrow> sh_panic U m
   | NoFuel \<Rightarrow> hang)"

section \<open>Running commands\<close>

definition word_in :: "byte list \<Rightarrow> nat \<Rightarrow> cstring" where
  "word_in buf q = takeWhile (\<lambda>c. c \<noteq> 0) (drop q buf)"

definition fork1 :: "'s usys \<Rightarrow> ('s, int) uprog" where
  "fork1 U =
     ubind (sys (u_fork U)) (\<lambda>pid.
     if pid = -1 then sh_panic U ''fork'' else uret pid)"

text \<open>\<open>runcmd\<close> does not return.\<close>

fun runcmd :: "'s usys \<Rightarrow> byte list \<Rightarrow> shcmd \<Rightarrow> ('s, unit) uprog" where
  "runcmd U buf (EXEC args) =
     (case args of [] \<Rightarrow> uexit 1
      | (q, _) # _ \<Rightarrow>
          useq (call (u_exec U (word_in buf q) (map (\<lambda>(q, _). word_in buf q) args)))
         (useq (u_fprintf U 2 (msg ''exec %s failed'') [UStr (Some (word_in buf q))]) (uexit 0)))"
| "runcmd U buf (REDIR c q eq mode fd) =
     useq (call (u_close U fd))
    (ubind (sys (u_open U (word_in buf q) mode)) (\<lambda>r.
     if r < 0 then useq (u_fprintf U 2 (msg ''open %s failed'') [UStr (Some (word_in buf q))]) (uexit 1)
     else useq (runcmd U buf c) (uexit 0)))"
| "runcmd U buf (LIST l r) =
     ubind (fork1 U) (\<lambda>pid.
     useq (uwhen (pid = 0) (runcmd U buf l))
    (useq (call (u_wait U))
    (useq (runcmd U buf r) (uexit 0))))"
| "runcmd U buf (PIPE l r) =
     ubind (sys (u_pipe U)) (\<lambda>(res, p0, p1).
     if res < 0 then sh_panic U ''pipe''
     else
       ubind (fork1 U) (\<lambda>pid.
       useq (uwhen (pid = 0) (ublock
         [call (u_close U 1), call (u_dup U p1), call (u_close U p0), call (u_close U p1), runcmd U buf l]))
      (ubind (fork1 U) (\<lambda>pid.
       useq (uwhen (pid = 0) (ublock
         [call (u_close U 0), call (u_dup U p0), call (u_close U p0), call (u_close U p1), runcmd U buf r]))
       (ublock [call (u_close U p0), call (u_close U p1), call (u_wait U), call (u_wait U), uexit 0])))))"
| "runcmd U buf (BACK c) =
     ubind (fork1 U) (\<lambda>pid.
     useq (uwhen (pid = 0) (runcmd U buf c)) (uexit 0))"

definition getcmd :: "'s usys \<Rightarrow> int \<Rightarrow> ('s, byte list option) uprog" where
  "getcmd U nbuf =
     useq (u_fprintf U 2 ''$ '' [])
    (ubind (u_gets U nbuf) (\<lambda>line.
     let buf = takeWhile (\<lambda>c. c \<noteq> 0) line in
     uret (if buf = [] then None else Some buf)))"

definition sh_main :: "'s usys \<Rightarrow> ('s, unit) uprog" where
  "sh_main U =
     useq (uloop (\<lambda>_.
       ubind (sys (u_open U (bytes ''console'') 2)) (\<lambda>fd.
       if fd < 0 then uret (Inr ())
       else if fd \<ge> 3 then useq (call (u_close U fd)) (uret (Inr ()))
       else uret (Inl ()))) ())
    (useq (uloop (\<lambda>_.
       ubind (getcmd U 100) (\<lambda>line. case line of
         None \<Rightarrow> uret (Inr ())
       | Some buf \<Rightarrow>
           if take 3 buf = bytes ''cd '' then
             (let dir = drop 3 (butlast buf) in
              ubind (sys (u_chdir U dir)) (\<lambda>r.
              useq (uwhen (r < 0) (u_fprintf U 2 (msg ''cannot cd %s'') [UStr (Some dir)])) (uret (Inl ()))))
           else
             ubind (fork1 U) (\<lambda>pid.
             useq (uwhen (pid = 0) (ubind (parsecmd U buf) (\<lambda>(cmd, buf). runcmd U buf cmd)))
            (useq (call (u_wait U)) (uret (Inl ())))))) ())
    (uexit 0))"

section \<open>Tokens and positions\<close>

lemma skip_ws_bounds: "s \<le> skip_ws b s" "s \<le> length b \<Longrightarrow> skip_ws b s \<le> length b"
proof -
  show "s \<le> skip_ws b s" by (simp add: skip_ws_def)
  show "s \<le> length b \<Longrightarrow> skip_ws b s \<le> length b"
    using length_takeWhile_le [of ws "drop s b"] by (simp add: skip_ws_def)
qed

lemma skip_word_bounds: "s \<le> skip_word b s" "s \<le> length b \<Longrightarrow> skip_word b s \<le> length b"
proof -
  show "s \<le> skip_word b s" by (simp add: skip_word_def)
  show "s \<le> length b \<Longrightarrow> skip_word b s \<le> length b"
    using length_takeWhile_le [of ordinary "drop s b"] by (simp add: skip_word_def)
qed

lemma skip_at: "s < length b \<Longrightarrow> ordinary (b ! s) \<Longrightarrow> s < skip_word b s"
  by (simp add: skip_word_def flip: Cons_nth_drop_Suc)

lemma skip_ws_at: "s \<le> length b \<Longrightarrow> skip_ws b s = length b \<or> \<not> ws (b ! skip_ws b s)"
proof -
  assume s: "s \<le> length b"
  let ?n = "length (takeWhile ws (drop s b))"
  show ?thesis
  proof (cases "?n < length (drop s b)")
    case True
    then have "\<not> ws (drop s b ! ?n)" by (rule nth_length_takeWhile)
    then show ?thesis using s True by (simp add: skip_ws_def)
  next
    case False
    then show ?thesis using s length_takeWhile_le [of ws "drop s b"] by (simp add: skip_ws_def)
  qed
qed

text \<open>A token that is not the end is consumed.\<close>

lemma gettoken_progress:
  assumes "gettoken b s = (r, q, eq, s')" "r \<noteq> 0" "s \<le> length b"
  shows "s \<le> q" "q < eq" "eq \<le> s'" "s' \<le> length b"
proof -
  let ?q = "skip_ws b s"
  have q: "q = ?q" "s' = skip_ws b eq" using assms(1) by (auto simp: gettoken_def Let_def split: prod.splits if_splits)
  have n0: "byte_at b ?q \<noteq> 0" using assms(1,2) by (auto simp: gettoken_def Let_def split: if_splits)
  then have lt: "?q < length b" by (auto simp: byte_at_def split: if_splits)
  have "\<not> ws (b ! ?q)" using skip_ws_at [OF assms(3)] lt by auto
  then have w: "byte_at b ?q \<notin> set (bytes ''|();&<'') \<Longrightarrow> byte_at b ?q \<noteq> 62 \<Longrightarrow> ?q < skip_word b ?q"
    using lt by (intro skip_at [OF lt]) (auto simp: ordinary_def byte_at_def symbols_def bytes_def)
  have two: "byte_at b (?q + 1) = 62 \<Longrightarrow> ?q + 2 \<le> length b" by (auto simp: byte_at_def split: if_splits)
  have "?q < eq \<and> eq \<le> length b"
    using assms(1) n0 w two lt skip_word_bounds(2) [of ?q b]
    by (auto simp: gettoken_def Let_def split: if_splits)
  then show "s \<le> q" "q < eq" "eq \<le> s'" "s' \<le> length b"
    using q skip_ws_bounds by auto
qed

section \<open>Reasoning about the parser\<close>

definition complaints :: "string set" where
  "complaints = {''missing file for redirection'', ''syntax'', ''too many args'', ''parseblock'', ''syntax - missing )''}"

definition parse_wp :: "'a parsed \<Rightarrow> ('a \<Rightarrow> bool) \<Rightarrow> bool" where
  "parse_wp r P = (case r of Parsed x \<Rightarrow> P x | Syntax m \<Rightarrow> m \<in> complaints | NoFuel \<Rightarrow> False)"

lemma parse_wp_simps [simp]:
  "parse_wp (Parsed x) P = P x" "parse_wp (Syntax m) P = (m \<in> complaints)" "parse_wp NoFuel P = False"
  "parse_wp (parse_bind r f) P = parse_wp r (\<lambda>x. parse_wp (f x) P)"
  by (simp_all add: parse_wp_def parse_bind_def split: parsed.split)

lemma parse_wp_mono: "parse_wp r P \<Longrightarrow> (\<And>x. P x \<Longrightarrow> Q x) \<Longrightarrow> parse_wp r Q"
  by (auto simp: parse_wp_def split: parsed.splits)

lemma turns_wp:
  assumes "\<And>x. I x \<Longrightarrow> parse_wp (body x) (\<lambda>r. case r of Inl y \<Rightarrow> I y \<and> m y < m x | Inr v \<Rightarrow> Q v)"
    and "I x" "m x < n"
  shows "parse_wp (turns n body x) Q"
  using assms(2,3)
proof (induction n arbitrary: x)
  case (Suc n)
  show ?case
    unfolding turns.simps parse_wp_simps
    by (rule parse_wp_mono [OF assms(1) [OF Suc.prems(1)]]) (use Suc in \<open>auto split: sum.splits\<close>)
qed simp

text \<open>A word is a run of ordinary characters that extends as far as possible in both directions; the parser is always at a
  position that no word crosses.\<close>

definition word_at :: "byte list \<Rightarrow> nat \<Rightarrow> nat \<Rightarrow> bool" where
  "word_at b q eq \<longleftrightarrow> q < eq \<and> eq \<le> length b \<and> (\<forall>i. q \<le> i \<and> i < eq \<longrightarrow> ordinary (b ! i))
     \<and> (eq < length b \<longrightarrow> \<not> ordinary (b ! eq)) \<and> (0 < q \<longrightarrow> \<not> ordinary (b ! (q - 1)))"

definition boundary :: "byte list \<Rightarrow> nat \<Rightarrow> bool" where
  "boundary b s \<longleftrightarrow> s \<le> length b \<and> (0 < s \<longrightarrow> s < length b \<longrightarrow> \<not> ordinary (b ! (s - 1)) \<or> \<not> ordinary (b ! s))"

lemma boundary_0 [simp]: "boundary b 0"
  by (simp add: boundary_def)

lemma takeWhile_holds: "i < length (takeWhile P xs) \<Longrightarrow> P (xs ! i)"
  using nth_mem [of i "takeWhile P xs"] by (auto simp: takeWhile_nth dest: set_takeWhileD)

lemma skip_ws_boundary:
  assumes s: "boundary b s"
  shows "boundary b (skip_ws b s)"
proof -
  let ?n = "length (takeWhile ws (drop s b))"
  have n: "?n \<le> length b - s" "s \<le> length b" using length_takeWhile_le [of ws "drop s b"] s by (simp_all add: boundary_def)
  show ?thesis
  proof (cases "?n = 0")
    case False
    then have "ws (drop s b ! (?n - 1))" using takeWhile_holds [of "?n - 1" ws "drop s b"] by simp
    then have "ws (b ! (s + ?n - 1))" using False n by (simp add: nth_drop)
    then show ?thesis using n by (auto simp: boundary_def ordinary_def skip_ws_def)
  qed (use s in \<open>simp add: skip_ws_def\<close>)
qed

lemma peek_wp:
  assumes "boundary b s" "\<And>s'. boundary b s' \<Longrightarrow> s \<le> s' \<Longrightarrow> \<not> byte_at b s' \<in> set (bytes toks) - {0} \<Longrightarrow> parse_wp (f (s', False)) P"
    "\<And>s'. boundary b s' \<Longrightarrow> s \<le> s' \<Longrightarrow> s' < length b \<Longrightarrow> skip_ws b s' = s' \<Longrightarrow> byte_at b s' \<in> set (bytes toks) - {0} \<Longrightarrow> parse_wp (f (s', True)) P"
  shows "parse_wp (f (peek b s toks)) P"
proof -
  let ?s = "skip_ws b s"
  have b: "boundary b ?s" "s \<le> ?s" using skip_ws_boundary [OF assms(1)] skip_ws_bounds(1) by auto
  have idem: "skip_ws b ?s = ?s"
  proof -
    have "?s = length b \<or> \<not> ws (b ! ?s)" using assms(1) by (intro skip_ws_at) (simp add: boundary_def)
    then show ?thesis using b(1) by (cases "?s < length b") (auto simp: skip_ws_def [of b ?s] skip_ws_def [of b "length b"] boundary_def simp flip: Cons_nth_drop_Suc)
  qed
  show ?thesis
  proof (cases "byte_at b ?s \<in> set (bytes toks) - {0}")
    case True
    then have "?s < length b" by (auto simp: byte_at_def split: if_splits)
    then show ?thesis using True assms(3) [OF b _ idem True] by (simp add: peek_def Let_def)
  next
    case False
    then show ?thesis using assms(2) [OF b False] by (auto simp: peek_def Let_def)
  qed
qed

lemma word_skipped:
  assumes "boundary b q" "q < length b" "ordinary (b ! q)"
  shows "word_at b q (skip_word b q)"
proof -
  let ?n = "length (takeWhile ordinary (drop q b))"
  have n: "?n \<le> length b - q" using length_takeWhile_le [of ordinary "drop q b"] by simp
  have "ordinary (b ! i)" if "q \<le> i" "i < q + ?n" for i
  proof -
    have "i - q < ?n" using that by auto
    then have "ordinary (drop q b ! (i - q))" by (rule takeWhile_holds)
    then show ?thesis using that assms(2) by (simp add: nth_drop)
  qed
  moreover have "\<not> ordinary (b ! (q + ?n))" if "q + ?n < length b"
    using nth_length_takeWhile [of ordinary "drop q b"] that by simp
  ultimately show ?thesis
    using assms skip_at [OF assms(2,3)] n by (auto simp: word_at_def skip_word_def boundary_def)
qed

lemma symbol_not_ordinary: "c \<in> set (bytes ''|();&<'') \<or> c = 62 \<Longrightarrow> \<not> ordinary c"
  by (auto simp: ordinary_def symbols_def bytes_def)

lemma gettoken_wp:
  assumes s: "boundary b s"
    and Q: "\<And>r q eq s'. boundary b s' \<Longrightarrow> s \<le> s' \<Longrightarrow> (byte_at b (skip_ws b s) \<noteq> 0 \<Longrightarrow> s < s') \<Longrightarrow> (r \<noteq> 0 \<Longrightarrow> s < s')
      \<Longrightarrow> (r = 97 \<Longrightarrow> word_at b q eq) \<Longrightarrow> parse_wp (f (r, q, eq, s')) P"
  shows "parse_wp (f (gettoken b s)) P"
proof -
  obtain r q eq s' where g: "gettoken b s = (r, q, eq, s')" by (metis prod_cases4)
  let ?q = "skip_ws b s" let ?c = "byte_at b ?q"
  have sl: "s \<le> length b" using s by (simp add: boundary_def)
  have q: "q = ?q" "s' = skip_ws b eq" using g by (auto simp: gettoken_def Let_def split: prod.splits if_splits)
  have bq: "boundary b ?q" by (rule skip_ws_boundary [OF s])
  have lt: "?c \<noteq> 0 \<Longrightarrow> ?q < length b \<and> b ! ?q = ?c" by (auto simp: byte_at_def split: if_splits)
  have word: "word_at b ?q (skip_word b ?q)" if "?c \<noteq> 0" "?c \<notin> set (bytes ''|();&<'')" "?c \<noteq> 62"
  proof (rule word_skipped [OF bq])
    show "?q < length b" using lt that by simp
    then have "\<not> ws (b ! ?q)" using skip_ws_at [OF sl] by auto
    then show "ordinary (b ! ?q)" using lt that by (auto simp: ordinary_def symbols_def bytes_def)
  qed
  have after: "boundary b (Suc k)" if "k < length b" "\<not> ordinary (b ! k)" for k using that by (simp add: boundary_def)
  have after_word: "boundary b (skip_word b ?q)" if "word_at b ?q (skip_word b ?q)"
    using that by (auto simp: word_at_def boundary_def)
  have "boundary b eq \<and> ?q \<le> eq \<and> (?c \<noteq> 0 \<longrightarrow> ?q < eq) \<and> (r \<noteq> 0 \<longleftrightarrow> ?c \<noteq> 0) \<and> (r = 97 \<longrightarrow> word_at b ?q eq)"
  proof -
    consider (nul) "?c = 0" | (sym) "?c \<noteq> 0" "?c \<in> set (bytes ''|();&<'')"
      | (gt) "?c = 62" "byte_at b (?q + 1) \<noteq> 62" | (gtgt) "?c = 62" "byte_at b (?q + 1) = 62"
      | (word) "?c \<noteq> 0" "?c \<notin> set (bytes ''|();&<'')" "?c \<noteq> 62" by blast
    then show ?thesis
    proof cases
      case nul
      then show ?thesis using g bq by (auto simp: gettoken_def Let_def)
    next
      case sym
      have "uint ?c \<noteq> 97" "uint ?c \<noteq> 0" using sym by (auto simp: bytes_def unsigned_eq_0_iff)
      then show ?thesis using g sym lt after [of ?q] symbol_not_ordinary by (auto simp: gettoken_def Let_def)
    next
      case gt
      then show ?thesis using g lt after [of ?q] symbol_not_ordinary [of ?c] by (auto simp: gettoken_def Let_def bytes_def)
    next
      case gtgt
      then have "?q + 1 < length b \<and> b ! (?q + 1) = 62" by (auto simp: byte_at_def split: if_splits)
      then show ?thesis
        using gtgt g after [of "?q + 1"] symbol_not_ordinary [of 62] by (auto simp: gettoken_def Let_def bytes_def)
    next
      case word
      then show ?thesis using g \<open>?c \<noteq> 0 \<Longrightarrow> _ \<Longrightarrow> _ \<Longrightarrow> word_at b ?q (skip_word b ?q)\<close> after_word
        by (auto simp: gettoken_def Let_def word_at_def)
    qed
  qed
  then have e: "boundary b eq" "?q \<le> eq" "?c \<noteq> 0 \<Longrightarrow> ?q < eq" "r \<noteq> 0 \<longleftrightarrow> ?c \<noteq> 0" "r = 97 \<Longrightarrow> word_at b ?q eq" by blast+
  have "s \<le> ?q" "eq \<le> s'" "boundary b s'" using q skip_ws_bounds(1) skip_ws_boundary [OF e(1)] by auto
  then show ?thesis unfolding g by (intro Q) (use e q in auto)
qed

section \<open>Well-formed commands\<close>

definition redir_kinds :: "(int \<times> int) set" where
  "redir_kinds = {(REDIR_IN, 0), (REDIR_OUT, 1), (REDIR_APP, 1)}"

fun wf_cmd :: "byte list \<Rightarrow> shcmd \<Rightarrow> bool" where
  "wf_cmd b (EXEC args) \<longleftrightarrow> length args < MAXARGS \<and> (\<forall>(q, eq) \<in> set args. word_at b q eq)"
| "wf_cmd b (REDIR c q eq mode fd) \<longleftrightarrow> wf_cmd b c \<and> word_at b q eq \<and> (mode, fd) \<in> redir_kinds"
| "wf_cmd b (PIPE l r) \<longleftrightarrow> wf_cmd b l \<and> wf_cmd b r"
| "wf_cmd b (LIST l r) \<longleftrightarrow> wf_cmd b l \<and> wf_cmd b r"
| "wf_cmd b (BACK c) \<longleftrightarrow> wf_cmd b c"

text \<open>The node that \<open>parseexec\<close> adds words to.\<close>

fun args_of :: "shcmd \<Rightarrow> (nat \<times> nat) list option" where
  "args_of (EXEC args) = Some args"
| "args_of (REDIR c q eq mode fd) = args_of c"
| "args_of c = None"

lemma add_arg_facts:
  "args_of c = Some args \<Longrightarrow> args_of (add_arg w c) = Some (args @ [w])"
  "wf_cmd b c \<Longrightarrow> args_of c = Some args \<Longrightarrow> Suc (length args) < MAXARGS \<Longrightarrow> word_at b (fst w) (snd w) \<Longrightarrow> wf_cmd b (add_arg w c)"
  by (induction c) auto

lemma redir_turn_wp:
  assumes c: "wf_cmd b c" "boundary b s"
    and fin: "\<And>s'. boundary b s' \<Longrightarrow> s \<le> s' \<Longrightarrow> P (Inr (c, s'))"
    and next_turn: "\<And>c' s'. wf_cmd b c' \<Longrightarrow> args_of c' = args_of c \<Longrightarrow> boundary b s' \<Longrightarrow> s < s' \<Longrightarrow> P (Inl (c', s'))"
  shows "parse_wp (redir_turn b (c, s)) P"
  unfolding redir_turn_def prod.case
proof (rule peek_wp [OF c(2)], goal_cases)
  case (2 s1)
  show ?case
    unfolding prod.case if_True
  proof (rule gettoken_wp [OF 2(1)], unfold prod.case, rule gettoken_wp, goal_cases)
    case (2 tok q0 eq0 s2 w q eq s3)
    then show ?case
      using \<open>s \<le> s1\<close> c(1) by (cases "w = 97") (auto simp: complaints_def redir_kinds_def intro!: next_turn)
  qed
qed (use fin in auto)

lemma parseredirs_wp:
  assumes "wf_cmd b cmd" "boundary b s"
    and Q: "\<And>c s'. wf_cmd b c \<Longrightarrow> boundary b s' \<Longrightarrow> s \<le> s' \<Longrightarrow> args_of c = args_of cmd \<Longrightarrow> P (c, s')"
  shows "parse_wp (parseredirs b cmd s) P"
  unfolding parseredirs_def
proof (rule turns_wp [where I = "\<lambda>(c, s'). wf_cmd b c \<and> boundary b s' \<and> s \<le> s' \<and> args_of c = args_of cmd"
      and m = "\<lambda>(c, s'). length b - s'"], goal_cases)
  case (1 x)
  obtain c s1 where x: "x = (c, s1)" by (cases x)
  show ?case
    unfolding x by (rule redir_turn_wp) (use 1 x Q in \<open>auto simp: boundary_def\<close>)
qed (use assms in auto)

lemma after_token_facts:
  assumes "boundary b s" "skip_ws b s = s" "byte_at b s \<noteq> 0"
  shows "boundary b (after_token b s)" "s < after_token b s"
proof -
  have "parse_wp ((\<lambda>(_, _, _, s'). Parsed s') (gettoken b s)) (\<lambda>s'. boundary b s' \<and> s < s')"
    by (rule gettoken_wp [OF assms(1)]) (use assms(2,3) in auto)
  then show "boundary b (after_token b s)" "s < after_token b s"
    by (auto simp: after_token_def split: prod.splits)
qed

lemma exec_turn_wp:
  assumes c: "wf_cmd b c" "boundary b s" "args_of c = Some args" "length args = argc" "argc < MAXARGS"
    and fin: "\<And>s'. boundary b s' \<Longrightarrow> s \<le> s' \<Longrightarrow> P (Inr (c, s'))"
    and next_turn: "\<And>c' s' args'. wf_cmd b c' \<Longrightarrow> args_of c' = Some args' \<Longrightarrow> length args' = Suc argc \<Longrightarrow> Suc argc < MAXARGS
      \<Longrightarrow> boundary b s' \<Longrightarrow> s < s' \<Longrightarrow> P (Inl (Suc argc, c', s'))"
  shows "parse_wp (exec_turn b (argc, c, s)) P"
  unfolding exec_turn_def prod.case
proof (rule peek_wp [OF c(2)], goal_cases)
  case (1 s1)
  show ?case
    unfolding prod.case if_False
  proof (rule gettoken_wp [OF 1(1)], unfold prod.case, goal_cases)
    case (1 tok q eq s2)
    consider "tok = 0" | "tok \<noteq> 0" "tok \<noteq> 97" | "tok = 97" "argc + 1 \<ge> MAXARGS" | (word) "tok = 97" "Suc argc < MAXARGS" by fastforce
    then show ?case
    proof cases
      case word
      have wf: "wf_cmd b (add_arg (q, eq) c)"
        by (rule add_arg_facts(2) [OF c(1,3)]) (use word c(4) 1(5) in auto)
      have "parse_wp (parseredirs b (add_arg (q, eq) c) s2) (\<lambda>(c', s'). P (Inl (Suc argc, c', s')))"
      proof (rule parseredirs_wp [OF wf 1(1)], unfold prod.case)
        fix c' s' assume a: "wf_cmd b c'" "boundary b s'" "s2 \<le> s'" "args_of c' = args_of (add_arg (q, eq) c)"
        show "P (Inl (Suc argc, c', s'))"
          by (rule next_turn [OF a(1) a(4) [unfolded add_arg_facts(1) [OF c(3)]] _ word(2) a(2)])
            (use c(4) a(3) 1(2,4) \<open>s \<le> s1\<close> word(1) in auto)
      qed
      then show ?thesis using word by (simp add: case_prod_beta')
    qed (use fin 1 \<open>s \<le> s1\<close> in \<open>auto simp: complaints_def\<close>)
  qed
qed (use fin in auto)

lemma exec_args_wp:
  assumes "wf_cmd b c" "boundary b s" "args_of c = Some []"
    and Q: "\<And>c s'. wf_cmd b c \<Longrightarrow> boundary b s' \<Longrightarrow> s \<le> s' \<Longrightarrow> P (c, s')"
  shows "parse_wp (exec_args b c s) P"
  unfolding exec_args_def
proof (rule turns_wp [where I = "\<lambda>(argc, c, s'). wf_cmd b c \<and> boundary b s' \<and> s \<le> s'
      \<and> (\<exists>args. args_of c = Some args \<and> length args = argc \<and> argc < MAXARGS)"
      and m = "\<lambda>(_, _, s'). length b - s'"], goal_cases)
  case (1 x)
  then obtain argc c s1 args where x: "x = (argc, c, s1)" and I: "wf_cmd b c" "boundary b s1" "s \<le> s1"
    "args_of c = Some args" "length args = argc" "argc < MAXARGS" by (cases x) auto
  show ?case
    unfolding x by (rule exec_turn_wp [OF I(1,2,4-6)]) (use I Q in \<open>auto simp: boundary_def\<close>)
qed (use assms in auto)

lemma backs_wp:
  assumes "wf_cmd b c" "boundary b s"
    and Q: "\<And>c s'. wf_cmd b c \<Longrightarrow> boundary b s' \<Longrightarrow> s \<le> s' \<Longrightarrow> P (c, s')"
  shows "parse_wp (backs b c s) P"
  unfolding backs_def
proof (rule turns_wp [where I = "\<lambda>(c, s'). wf_cmd b c \<and> boundary b s' \<and> s \<le> s'" and m = "\<lambda>(_, s'). length b - s'"], goal_cases)
  case (1 x)
  then obtain c s1 where x: "x = (c, s1)" and I: "wf_cmd b c" "boundary b s1" "s \<le> s1" by (cases x) auto
  show ?case
    unfolding x back_turn_def prod.case
  proof (rule peek_wp [OF I(2)], goal_cases)
    case (2 s2)
    then have "boundary b (after_token b s2)" "s2 < after_token b s2" using after_token_facts [of b s2] by auto
    then show ?case using 2 I by (auto simp: boundary_def)
  qed (use I Q in auto)
qed (use assms in auto)

text \<open>The four functions, with the fuel that each needs at its position.\<close>

definition parses :: "byte list \<Rightarrow> nat \<Rightarrow> (shcmd \<times> nat) parsed \<Rightarrow> bool" where
  "parses b s r \<longleftrightarrow> parse_wp r (\<lambda>(c, s'). wf_cmd b c \<and> boundary b s' \<and> s \<le> s')"

lemma parses_mono: "parses b s' r \<Longrightarrow> s \<le> s' \<Longrightarrow> parses b s r"
  unfolding parses_def by (erule parse_wp_mono) auto

lemma parses_Parsed: "wf_cmd b c \<Longrightarrow> boundary b s' \<Longrightarrow> s \<le> s' \<Longrightarrow> parses b s (Parsed (c, s'))"
  by (simp add: parses_def)

lemma parses_bind:
  assumes "parses b s r" "\<And>c s'. wf_cmd b c \<Longrightarrow> boundary b s' \<Longrightarrow> s \<le> s' \<Longrightarrow> parses b s (f (c, s'))"
  shows "parses b s (parse_bind r f)"
  using assms unfolding parses_def parse_wp_simps by (elim parse_wp_mono) auto

lemma parses_peek:
  assumes "boundary b s" "\<And>s'. boundary b s' \<Longrightarrow> s \<le> s' \<Longrightarrow> parses b s (f (s', False))"
    "\<And>s'. boundary b s' \<Longrightarrow> s \<le> s' \<Longrightarrow> boundary b (after_token b s') \<Longrightarrow> s' < after_token b s' \<Longrightarrow> after_token b s' \<le> length b
      \<Longrightarrow> parses b s (f (s', True))"
  shows "parses b s (f (peek b s toks))"
  unfolding parses_def
proof (rule peek_wp [OF assms(1)], goal_cases)
  case (2 s')
  note t = after_token_facts [OF 2(1,4)]
  show ?case
    using assms(3) [of s'] 2 t by (auto simp: parses_def boundary_def)
qed (use assms(2) in \<open>auto simp: parses_def\<close>)

lemma parses_loops:
  assumes "wf_cmd b c" "boundary b s"
  shows "parses b s (parseredirs b c s)" "parses b s (backs b c s)" "args_of c = Some [] \<Longrightarrow> parses b s (exec_args b c s)"
  unfolding parses_def
  by (rule parseredirs_wp backs_wp exec_args_wp; use assms in simp)+

lemma parser_wp:
  "boundary b s \<Longrightarrow> 4 * (length b - s) + 4 \<le> n \<Longrightarrow> parses b s (parseline n b s)"
  "boundary b s \<Longrightarrow> 4 * (length b - s) + 3 \<le> n \<Longrightarrow> parses b s (parsepipe n b s)"
  "boundary b s \<Longrightarrow> 4 * (length b - s) + 2 \<le> n \<Longrightarrow> parses b s (parseexec n b s)"
  "boundary b s \<Longrightarrow> 4 * (length b - s) + 1 \<le> n \<Longrightarrow> parses b s (parseblock n b s)"
proof (induction n arbitrary: s)
  case (Suc n)
  note IH = Suc
  {
    case 1
    show ?case
      unfolding parseline.simps
    proof (rule parses_bind [OF IH(2)], goal_cases)
      case (3 c s1)
      show ?case
        unfolding prod.case
      proof (rule parses_bind [OF parses_mono [OF parses_loops(2) [OF 3(1,2)] 3(3)]], unfold prod.case)
        fix c2 s2 assume c2: "wf_cmd b c2" "boundary b s2" "s \<le> s2"
        show "parses b s (case peek b s2 '';'' of (s, yes) \<Rightarrow>
          if yes then parse_bind (parseline n b (after_token b s)) (\<lambda>(right, s). Parsed (LIST c2 right, s)) else Parsed (c2, s))"
        proof (rule parses_mono [OF parses_peek [OF c2(2)] c2(3)], goal_cases)
          case (1 s3)
          then show ?case using c2 by (simp add: parses_Parsed)
        next
          case (2 s3)
          have "parses b (after_token b s3) (parseline n b (after_token b s3))"
            by (rule IH(1)) (use 2 c2 \<open>4 * (length b - s) + 4 \<le> Suc n\<close> in auto)
          then have "parses b s2 (parseline n b (after_token b s3))" by (rule parses_mono) (use 2 in simp)
          then show ?case
            unfolding prod.case if_True by (rule parses_bind) (use c2 in \<open>simp add: parses_Parsed\<close>)
        qed
      qed
    qed (use 1 in auto)
  next
    case 2
    show ?case
      unfolding parsepipe.simps
    proof (rule parses_bind [OF IH(3)], goal_cases)
      case (3 c s2)
      show ?case
        unfolding prod.case
      proof (rule parses_mono [OF parses_peek [OF 3(2)] 3(3)], goal_cases)
        case (1 s3)
        then show ?case using 3 by (simp add: parses_Parsed)
      next
        case (2 s3)
        have "parses b (after_token b s3) (parsepipe n b (after_token b s3))"
          by (rule IH(2)) (use 2 3 \<open>4 * (length b - s) + 3 \<le> Suc n\<close> in auto)
        then have "parses b s2 (parsepipe n b (after_token b s3))" by (rule parses_mono) (use 2 in simp)
        then show ?case
          unfolding prod.case if_True by (rule parses_bind) (use 3 in \<open>simp add: parses_Parsed\<close>)
      qed
    qed (use 2 in auto)
  next
    case 3
    show ?case
      unfolding parseexec.simps
    proof (rule parses_peek [OF 3(1)], goal_cases)
      case (1 s1)
      show ?case
        unfolding prod.case if_False
      proof (rule parses_mono [OF _ 1(2)], unfold parses_def parse_wp_simps, rule parseredirs_wp [OF _ 1(1)], goal_cases)
        case (2 c s2)
        then have "parses b s2 (exec_args b c s2)" by (intro parses_loops(3)) simp_all
        then show ?case using parses_mono [OF _ 2(3)] by (simp add: parses_def)
      qed simp
    next
      case (2 s1)
      have "parses b s1 (parseblock n b s1)" by (rule IH(4)) (use 2 3 in auto)
      then show ?case using parses_mono [OF _ 2(2)] by simp
    qed
  next
    case 4
    show ?case
      unfolding parseblock.simps
    proof (rule parses_peek [OF 4(1)], goal_cases)
      case (1 s1)
      then show ?case by (simp add: parses_def complaints_def)
    next
      case (2 s1)
      have "parses b (after_token b s1) (parseline n b (after_token b s1))"
        by (rule IH(1)) (use 2 4 in auto)
      then have "parses b s (parseline n b (after_token b s1))" by (rule parses_mono) (use 2 in simp)
      then show ?case
        unfolding prod.case not_True_eq_False if_False
      proof (rule parses_bind, unfold prod.case)
        fix c s2 assume c: "wf_cmd b c" "boundary b s2" "s \<le> s2"
        show "parses b s (case peek b s2 '')'' of (s, yes) \<Rightarrow>
            if \<not> yes then Syntax ''syntax - missing )'' else parseredirs b c (after_token b s))"
        proof (rule parses_mono [OF parses_peek [OF c(2)] c(3)], goal_cases)
          case (1 s3)
          then show ?case by (simp add: parses_def complaints_def)
        next
          case (2 s3)
          have "parses b (after_token b s3) (parseredirs b c (after_token b s3))" by (rule parses_loops(1) [OF c(1) 2(3)])
          then show ?case using parses_mono 2 by simp
        qed
      qed
    qed
  }
qed (simp_all add: parses_def)

section \<open>The strings of a command\<close>

fun words :: "shcmd \<Rightarrow> (nat \<times> nat) list" where
  "words (EXEC args) = args"
| "words (REDIR c q eq mode fd) = words c @ [(q, eq)]"
| "words (PIPE l r) = words l @ words r"
| "words (LIST l r) = words l @ words r"
| "words (BACK c) = words c"

lemma nulterminate_words: "nulterminate c buf = fold (\<lambda>(q, eq) buf. buf[eq := 0]) (words c) buf"
  by (induction c arbitrary: buf) simp_all

lemma nul_nth:
  "i < length buf \<Longrightarrow> fold (\<lambda>(q, eq) buf. buf[eq := 0]) us buf ! i = (if i \<in> snd ` set us then 0 else buf ! i)"
  "length (fold (\<lambda>(q, eq) buf. buf[eq := 0]) us buf) = length buf"
  by (induction us arbitrary: buf) (auto simp: nth_list_update split: prod.splits)

lemma wf_words: "wf_cmd b c \<Longrightarrow> (q, eq) \<in> set (words c) \<Longrightarrow> word_at b q eq"
  by (induction c) auto

lemma terminated_word:
  assumes wf: "wf_cmd b c" and w: "(q, eq) \<in> set (words c)" and nz: "0 \<notin> set b"
  shows "word_in (nulterminate c (b @ [0])) q = take (eq - q) (drop q b)"
proof -
  let ?buf = "nulterminate c (b @ [0])"
  have at: "word_at b q eq" by (rule wf_words [OF wf w])
  have nth: "i < Suc (length b) \<Longrightarrow> ?buf ! i = (if i \<in> snd ` set (words c) then 0 else (b @ [0]) ! i)" for i
    unfolding nulterminate_words by (subst nul_nth) auto
  have len: "length ?buf = Suc (length b)" by (simp add: nulterminate_words nul_nth(2))
  have inside: "?buf ! i = b ! i" if "q \<le> i" "i < eq" for i
  proof -
    have i: "i < length b" "ordinary (b ! i)" using at that by (auto simp: word_at_def)
    have "i \<notin> snd ` set (words c)"
    proof
      assume "i \<in> snd ` set (words c)"
      then obtain q' where "word_at b q' i" using wf_words [OF wf] by force
      then show False using i by (auto simp: word_at_def)
    qed
    then show ?thesis using nth i by (simp add: nth_append)
  qed
  have e: "?buf ! eq = 0" using nth [of eq] at w by (force simp: word_at_def)
  have "drop q ?buf = take (eq - q) (drop q b) @ 0 # drop (Suc eq) ?buf"
  proof (rule nth_equalityI)
    show "length (drop q ?buf) = length (take (eq - q) (drop q b) @ 0 # drop (Suc eq) ?buf)"
      using at len by (auto simp: word_at_def)
  next
    fix i assume i: "i < length (drop q ?buf)"
    consider "i < eq - q" | "i = eq - q" | "eq - q < i" by linarith
    then show "drop q ?buf ! i = (take (eq - q) (drop q b) @ 0 # drop (Suc eq) ?buf) ! i"
    proof cases
      case 1
      then show ?thesis using at inside [of "q + i"] len by (auto simp: word_at_def nth_append)
    next
      case 2
      then show ?thesis using at e len by (auto simp: word_at_def nth_append)
    next
      case 3
      then obtain j where j: "i = Suc (eq - q) + j" by (metis less_iff_Suc_add add_Suc)
      then show ?thesis using at len i by (auto simp: word_at_def nth_append)
    qed
  qed
  moreover have "takeWhile (\<lambda>c. c \<noteq> 0) (take (eq - q) (drop q b) @ 0 # r) = take (eq - q) (drop q b)" for r
    using nz by (subst takeWhile_append2) (auto dest: in_set_takeD in_set_dropD)
  ultimately show ?thesis by (simp only: word_in_def)
qed

section \<open>Properties\<close>

text \<open>C38: the shell's parser returns on every line, either with one of its five complaints or with a well-typed
  command: at most nine words in a simple command, redirections only of the three kinds that \<open>runcmd\<close> knows
  (\<open><\<close> of descriptor 0, \<open>>\<close> and \<open>>>\<close> of descriptor 1, each with its open mode), and every word and file name a
  maximal run of ordinary characters inside the line.\<close>

theorem parser_well_typed:
  "(\<exists>c s. parseline (4 * length b + 4) b 0 = Parsed (c, s) \<and> wf_cmd b c \<and> s \<le> length b)
   \<or> (\<exists>m \<in> {''missing file for redirection'', ''syntax'', ''too many args'', ''parseblock'', ''syntax - missing )''}.
        parseline (4 * length b + 4) b 0 = Syntax m)"
  using parser_wp(1) [of b 0 "4 * length b + 4"]
  by (cases "parseline (4 * length b + 4) b 0") (auto simp: parses_def complaints_def boundary_def)

text \<open>C39: what \<open>runcmd\<close> gets are the words of the line. Whatever the parser accepts, once \<open>nulterminate\<close> has
  put the NULs in, the C string at the beginning of every argument and file name of the command is exactly that word as it
  stands in the line: no NUL cuts another word, and none runs into the next.\<close>

theorem nulterminate_words_intact:
  assumes "parseline n b 0 = Parsed (c, s)" "4 * length b + 4 \<le> n" "0 \<notin> set b" "(q, eq) \<in> set (words c)"
  shows "word_in (nulterminate c (b @ [0])) q = take (eq - q) (drop q b)
    \<and> q < eq \<and> eq \<le> length b \<and> (\<forall>i \<in> {q..<eq}. ordinary (b ! i))"
proof -
  have wf: "wf_cmd b c" using parser_wp(1) [of b 0 n] assms(1,2) by (simp add: parses_def)
  from wf_words [OF wf assms(4)] show ?thesis
    using terminated_word [OF wf assms(4,3)] by (auto simp: word_at_def)
qed

definition line0 :: "byte list" where
  "line0 = bytes ''cat <a|wc -l>>b &''"

lemma line0_parse:
  "parseline 80 line0 0 = Parsed (BACK (PIPE (REDIR (EXEC [(0, 3)]) 5 6 REDIR_IN 0) (REDIR (EXEC [(7, 9), (10, 12)]) 14 15 REDIR_APP 1)), 17)"
  by code_simp

lemma nulterminate_words_intact_witness:
  "word_in (nulterminate (BACK (PIPE (REDIR (EXEC [(0, 3)]) 5 6 REDIR_IN 0) (REDIR (EXEC [(7, 9), (10, 12)]) 14 15 REDIR_APP 1)))
     (line0 @ [0])) 7 = bytes ''wc''"
proof -
  have w: "4 * length line0 + 4 \<le> 80" "0 \<notin> set line0" "take (9 - 7) (drop 7 line0) = bytes ''wc''" by (simp_all add: line0_def bytes_def)
  have "(7, 9) \<in> set (words (BACK (PIPE (REDIR (EXEC [(0, 3)]) 5 6 REDIR_IN 0) (REDIR (EXEC [(7, 9), (10, 12)]) 14 15 REDIR_APP 1))))"
    by simp
  from nulterminate_words_intact [OF line0_parse w(1,2) this] w(3) show ?thesis by simp
qed

end
