(* ===== verification/Umalloc.thy ===== *)
theory Umalloc
  imports Usys
begin

text \<open>
  \<open>user/umalloc.c\<close>: Kernighan and Ritchie's allocator. A header is at an address and takes 16 bytes, so \<open>p + n\<close> on a
  \<open>Header *\<close> is the address \<open>p + 16 n\<close>; the headers are two maps from addresses, the static \<open>base\<close> is one of them, and the
  memory between the headers belongs to the callers. The break is part of the state, 32 bits of it as \<open>growproc\<close> has it;
  \<open>sbrk\<close> is the system call as \<open>sys_sbrk\<close> and \<open>growproc\<close> provide it, and \<open>h_room\<close> says to which sizes the kernel
  has the memory to grow the process.

  The property is a refinement: the circular list of free blocks stands for the set of the free bytes, \<open>free\<close> adds a
  block to that set, and \<open>malloc\<close> takes a block from it or from memory that \<open>sbrk\<close> has just added, or fails and changes
  nothing.
\<close>

section \<open>The allocator\<close>

record uheap =
  h_ptr :: "uint64 \<Rightarrow> uint64"
  h_size :: "uint64 \<Rightarrow> uint"
  h_base :: uint64
  h_freep :: uint64
  h_brk :: uint
  h_room :: "uint \<Rightarrow> bool"

definition units :: "uint \<Rightarrow> uint64" where
  "units n = 16 * ucast n"

definition sbrk :: "int \<Rightarrow> (uheap, uint64) prog" where
  "sbrk n s = (let sz = h_brk s; new = sz + word_of_int n; addr = scast sz in
     if n > 0 then
       if new < sz then Ok addr s
       else if h_room s new then Ok addr (s\<lparr>h_brk := new\<rparr>) else Ok (-1) s
     else if n < 0 \<and> new < sz then Ok addr (s\<lparr>h_brk := new\<rparr>) else Ok addr s)"

definition free_turn :: "uint64 \<Rightarrow> uint64 \<Rightarrow> (uheap, uint64 + uint64) prog" where
  "free_turn bp = (\<lambda>p.
       bind (gets (\<lambda>s. h_ptr s p)) (\<lambda>nx.
       ret (if bp > p \<and> bp < nx then Inr p
            else if p \<ge> nx \<and> (bp > p \<or> bp < nx) then Inr p
            else Inl nx)))"

definition u_free :: "uint64 \<Rightarrow> (uheap, unit) prog" where
  "u_free ap = (let bp = ap - 16 in
     bind (gets h_freep) (\<lambda>start.
     bind (loopM (free_turn bp) start) (\<lambda>p.
     block
      [modify (\<lambda>s. let nx = h_ptr s p in
         if bp + units (h_size s bp) = nx
         then s\<lparr>h_size := (h_size s)(bp := h_size s bp + h_size s nx), h_ptr := (h_ptr s)(bp := h_ptr s nx)\<rparr>
         else s\<lparr>h_ptr := (h_ptr s)(bp := nx)\<rparr>),
       modify (\<lambda>s.
         if p + units (h_size s p) = bp
         then s\<lparr>h_size := (h_size s)(p := h_size s p + h_size s bp), h_ptr := (h_ptr s)(p := h_ptr s bp)\<rparr>
         else s\<lparr>h_ptr := (h_ptr s)(p := bp)\<rparr>),
       modify (\<lambda>s. s\<lparr>h_freep := p\<rparr>)])))"

definition morecore :: "uint \<Rightarrow> (uheap, uint64) prog" where
  "morecore nu = (let nu = (if nu < 4096 then 4096 else nu) in
     bind (sbrk (sint (ucast (units nu) :: uint))) (\<lambda>p.
     if p = -1 then ret 0
     else
       seq (modify (\<lambda>s. s\<lparr>h_size := (h_size s)(p := nu)\<rparr>))
      (seq (u_free (p + 16))
           (gets h_freep))))"

definition nunits_of :: "uint \<Rightarrow> uint" where
  "nunits_of nbytes = ucast ((ucast nbytes + 16 - 1) div 16 + 1 :: uint64)"

definition take_block :: "uint64 \<Rightarrow> uint64 \<Rightarrow> uint \<Rightarrow> (uheap, uint64) prog" where
  "take_block prevp p nunits =
     bind (gets (\<lambda>s. h_size s p)) (\<lambda>sz.
     bind (if sz = nunits
       then seq (modify (\<lambda>s. s\<lparr>h_ptr := (h_ptr s)(prevp := h_ptr s p)\<rparr>)) (ret p)
       else
         (let q = p + units (sz - nunits) in
          seq (modify (\<lambda>s. s\<lparr>h_size := (h_size s)(p := sz - nunits, q := nunits)\<rparr>)) (ret q))) (\<lambda>p.
     seq (modify (\<lambda>s. s\<lparr>h_freep := prevp\<rparr>)) (ret (p + 16))))"

definition malloc_turn :: "uint \<Rightarrow> uint64 \<times> uint64 \<Rightarrow> (uheap, uint64 \<times> uint64 + uint64) prog" where
  "malloc_turn nunits = (\<lambda>(prevp, p).
     bind (gets (\<lambda>s. s)) (\<lambda>s.
     if h_size s p \<ge> nunits then bind (take_block prevp p nunits) (\<lambda>r. ret (Inr r))
     else
       bind (if p = h_freep s then morecore nunits else ret p) (\<lambda>p'.
       if p = h_freep s \<and> p' = 0 then ret (Inr 0)
       else bind (gets (\<lambda>s. h_ptr s p')) (\<lambda>nx. ret (Inl (p', nx))))))"

definition malloc :: "uint \<Rightarrow> (uheap, uint64) prog" where
  "malloc nbytes = (let nunits = nunits_of nbytes in
     seq (bind (gets h_freep) (\<lambda>f. whenM (f = 0)
       (modify (\<lambda>s. s\<lparr>h_ptr := (h_ptr s)(h_base s := h_base s), h_freep := h_base s, h_size := (h_size s)(h_base s := 0)\<rparr>))))
    (bind (gets h_freep) (\<lambda>prevp.
     bind (gets (\<lambda>s. h_ptr s prevp)) (\<lambda>p.
     loopM (malloc_turn nunits) (prevp, p)))))"

section \<open>The free list\<close>

text \<open>\<open>links P xs y\<close>: every block of \<open>xs\<close> points to the one after it, the last one to \<open>y\<close>.\<close>

fun links :: "(uint64 \<Rightarrow> uint64) \<Rightarrow> uint64 list \<Rightarrow> uint64 \<Rightarrow> bool" where
  "links P [] y \<longleftrightarrow> True"
| "links P (x # xs) y \<longleftrightarrow> P x = hd (xs @ [y]) \<and> links P xs y"

lemma links_append: "links P (xs @ ys) y \<longleftrightarrow> links P xs (hd (ys @ [y])) \<and> links P ys y"
  by (induction xs) (auto simp: hd_append)

lemma links_upd: "a \<notin> set xs \<Longrightarrow> links (P(a := v)) xs y = links P xs y"
  by (induction xs) auto

definition fin :: "uheap \<Rightarrow> uint64 \<Rightarrow> nat" where
  "fin s p = unat p + 16 * unat (h_size s p)"

definition area :: "uheap \<Rightarrow> uint64 \<Rightarrow> nat set" where
  "area s p = {unat p..<fin s p}"

definition free_set :: "uheap \<Rightarrow> uint64 list \<Rightarrow> nat set" where
  "free_set s ps = (\<Union>p \<in> set ps. area s p)"

text \<open>The free blocks in the order of their addresses, the static header first; blocks do not overlap and end below
  the break. The kernel has far less than 2 GB to give to a process.\<close>

definition list_ok :: "uheap \<Rightarrow> uint64 list \<Rightarrow> bool" where
  "list_ok s ps \<longleftrightarrow> (\<exists>qs. ps = h_base s # qs) \<and> links (h_ptr s) ps (h_base s)
     \<and> sorted_wrt (\<lambda>p q. p < q \<and> fin s p \<le> unat q) ps
     \<and> (\<forall>p \<in> set (tl ps). 0 < h_size s p \<and> fin s p \<le> unat (h_brk s))
     \<and> h_size s (h_base s) = 0 \<and> 0 < h_base s \<and> unat (h_base s) < unat (h_brk s) \<and> unat (h_brk s) < 0x80000000
     \<and> (\<forall>n. h_room s n \<longrightarrow> unat n < 0x80000000)"

definition heap_ok :: "uheap \<Rightarrow> uint64 list \<Rightarrow> bool" where
  "heap_ok s ps \<longleftrightarrow> list_ok s ps \<and> h_freep s \<in> set ps"

section \<open>free\<close>

text \<open>A block that is being freed lies between the blocks below and above it.\<close>

lemma walk_list:
  assumes "\<And>x. x \<in> set xs \<Longrightarrow> body x s = Ok (Inl (P x)) s" "links P xs p" "body p s = Ok (Inr p) s"
  shows "loopM body (hd (xs @ [p])) s = Ok (p :: uint64) s"
  using assms(1,2)
proof (induction xs)
  case Nil
  then show ?case using assms(3) by (subst loopM_unfold) (simp add: bind_def ret_def)
next
  case (Cons x xs)
  then have "body x s = Ok (Inl (hd (xs @ [p]))) s" "loopM body (hd (xs @ [p])) s = Ok p s" by auto
  then show ?case by (subst loopM_unfold) (simp add: bind_def)
qed

lemma find_place:
  assumes ok: "heap_ok s (us @ p # vs)" and bp: "p < bp" "\<forall>v \<in> set vs. bp < v"
  shows "loopM (free_turn bp) (h_freep s) s = Ok p s"
proof -
  let ?P = "h_ptr s" let ?b = "h_base s"
  have l: "links ?P us p" "?P p = hd (vs @ [?b])" "links ?P vs ?b"
    and so: "sorted_wrt (\<lambda>p q. p < q \<and> fin s p \<le> unat q) (us @ p # vs)"
    and f: "h_freep s \<in> set (us @ p # vs)"
    using ok by (auto simp: heap_ok_def list_ok_def links_append)
  have hd: "hd (us @ [p]) = ?b" using ok by (cases us) (auto simp: heap_ok_def list_ok_def)
  have at: "free_turn bp x s = Ok (if bp > x \<and> bp < ?P x then Inr x else if x \<ge> ?P x \<and> (bp > x \<or> bp < ?P x) then Inr x else Inl (?P x)) s" for x
    by (simp add: free_turn_def bind_def gets_def ret_def)
  have lt: "x < p" if "x \<in> set us" for x using so that by (auto simp: sorted_wrt_append)
  have b_le: "?b \<le> p" using hd lt by (cases us) (auto intro: less_imp_le)
  have low: "free_turn bp x s = Ok (Inl (?P x)) s" if "x \<in> set us" for x
  proof -
    obtain as cs where us: "us = as @ x # cs" using \<open>x \<in> set us\<close> by (auto simp: in_set_conv_decomp)
    then have px: "?P x = hd (cs @ [p])" using l(1) by (simp add: links_append)
    have "x < ?P x" "?P x \<le> p" using so unfolding us px by (cases cs; auto simp: sorted_wrt_append intro: less_imp_le)+
    then show ?thesis using bp(1) by (auto simp: at)
  qed
  have high: "free_turn bp x s = Ok (Inl (?P x)) s" if "x \<in> set vs" for x
  proof -
    obtain as cs where vs: "vs = as @ x # cs" using \<open>x \<in> set vs\<close> by (auto simp: in_set_conv_decomp)
    then have px: "?P x = hd (cs @ [?b])" using l(3) by (simp add: links_append)
    have x: "bp < x" using bp(2) that by simp
    have "cs \<noteq> [] \<Longrightarrow> x < ?P x" using so unfolding vs px by (cases cs) (auto simp: sorted_wrt_append)
    moreover have "cs = [] \<Longrightarrow> ?P x \<le> bp" using px b_le bp(1) by auto
    ultimately show ?thesis using x by (cases cs) (auto simp: at not_less)
  qed
  have here: "free_turn bp p s = Ok (Inr p) s"
  proof (cases vs)
    case Nil
    then show ?thesis using l(2) b_le bp(1) by (auto simp: at)
  next
    case (Cons v ws)
    then show ?thesis using l(2) bp by (auto simp: at)
  qed
  show ?thesis
  proof (cases "h_freep s \<in> set vs")
    case True
    then obtain as cs where vs: "vs = as @ h_freep s # cs" by (auto simp: in_set_conv_decomp)
    have "links ?P ((h_freep s # cs) @ us) p" using l hd unfolding links_append by (simp add: vs links_append)
    from walk_list [where body = "free_turn bp" and P = ?P and s = s and p = p, OF _ this here] low high hd
    show ?thesis by (auto simp: vs)
  next
    case False
    with f obtain as cs where u: "us @ [p] = as @ h_freep s # cs" by (force simp: in_set_conv_decomp)
    show ?thesis
    proof (cases cs rule: rev_cases)
      case Nil
      then have "h_freep s = p" using u by simp
      then show ?thesis using walk_list [of "[]" "free_turn bp" s ?P p] here by simp
    next
      case (snoc ds d)
      then have u': "us = as @ h_freep s # ds" "d = p" using u by auto
      then have "links ?P (h_freep s # ds) p" using l(1) by (simp add: links_append)
      from walk_list [where body = "free_turn bp" and P = ?P and s = s and p = p, OF _ this here] low
      show ?thesis by (auto simp: u')
    qed
  qed
qed

text \<open>Linking a block in, and merging two blocks of which one ends where the other begins.\<close>

definition link_in :: "uint64 \<Rightarrow> uint64 \<Rightarrow> uheap \<Rightarrow> uheap" where
  "link_in p bp s = s\<lparr>h_ptr := (h_ptr s)(bp := h_ptr s p, p := bp)\<rparr>"

definition merge :: "uint64 \<Rightarrow> uint64 \<Rightarrow> uheap \<Rightarrow> uheap" where
  "merge x y s = s\<lparr>h_size := (h_size s)(x := h_size s x + h_size s y), h_ptr := (h_ptr s)(x := h_ptr s y)\<rparr>"

lemma sorted_wrt_distinct: "sorted_wrt (\<lambda>p q. p < q \<and> Q p q) (ps :: uint64 list) \<Longrightarrow> distinct ps"
  by (induction ps) auto

lemma list_ok_distinct: "list_ok s ps \<Longrightarrow> distinct ps"
  by (auto simp: list_ok_def intro: sorted_wrt_distinct)

lemma list_okI:
  assumes "ps = h_base s # qs" "links (h_ptr s) ps (h_base s)" "sorted_wrt (\<lambda>p q. p < q \<and> fin s p \<le> unat q) ps"
    and "\<And>p. p \<in> set qs \<Longrightarrow> 0 < h_size s p \<and> fin s p \<le> unat (h_brk s)"
    and "h_size s (h_base s) = 0" "0 < h_base s" "unat (h_base s) < unat (h_brk s)" "unat (h_brk s) < 0x80000000" "\<And>n. h_room s n \<Longrightarrow> unat n < 0x80000000"
  shows "list_ok s ps"
  using assms by (auto simp: list_ok_def)

lemma sorted_wrt_fin_cong:
  "(\<And>p. p \<in> set ps \<Longrightarrow> fin t p = fin s p) \<Longrightarrow> sorted_wrt (\<lambda>p q. p < q \<and> fin t p \<le> unat q) ps = sorted_wrt (\<lambda>p q. p < q \<and> fin s p \<le> unat q) ps"
  by (induction ps) auto

lemma link_in_ok:
  assumes ok: "list_ok s (us @ p # vs)"
    and bp: "p < bp" "fin s p \<le> unat bp" "0 < h_size s bp" "fin s bp \<le> unat (h_brk s)" "\<forall>v \<in> set vs. bp < v \<and> fin s bp \<le> unat v"
  shows "list_ok (link_in p bp s) (us @ p # bp # vs)" "free_set (link_in p bp s) (us @ p # bp # vs) = free_set s (us @ p # vs) \<union> area s bp"
proof -
  let ?t = "link_in p bp s" let ?b = "h_base s"
  have fin: "fin ?t = fin s" by (simp add: fun_eq_iff fin_def link_in_def)
  obtain qs where qs: "us @ p # vs = ?b # qs" using ok by (auto simp: list_ok_def)
  have so: "sorted_wrt (\<lambda>p q. p < q \<and> fin s p \<le> unat q) (us @ p # vs)" using ok by (simp add: list_ok_def)
  have d: "distinct (us @ p # vs)" by (rule list_ok_distinct [OF ok])
  have usp: "u < p \<and> fin s u \<le> unat p" if "u \<in> set us" for u using so that by (auto simp: sorted_wrt_append)
  have notin: "bp \<notin> set us" "bp \<notin> set vs" "bp \<noteq> p" using usp [of bp] bp(1,5) by auto
  obtain qs' where qs': "us @ p # bp # vs = ?b # qs'" using qs by (cases us) auto
  show "list_ok ?t (us @ p # bp # vs)"
  proof (rule list_okI)
    show "us @ p # bp # vs = h_base ?t # qs'" using qs' by (simp add: link_in_def)
    show "links (h_ptr ?t) (us @ p # bp # vs) (h_base ?t)"
      using ok d notin by (auto simp: list_ok_def links_append link_in_def links_upd)
    show "sorted_wrt (\<lambda>p q. p < q \<and> fin ?t p \<le> unat q) (us @ p # bp # vs)"
      unfolding fin using so bp usp
      by (auto simp: sorted_wrt_append word_less_nat_alt dest: usp)
  next
    fix x assume "x \<in> set qs'"
    then have "x \<in> set qs \<or> x = bp" using qs qs' by (cases us) auto
    then show "0 < h_size ?t x \<and> fin ?t x \<le> unat (h_brk ?t)"
      using ok qs bp unfolding fin by (auto simp: list_ok_def link_in_def)
  qed (use ok in \<open>auto simp: list_ok_def link_in_def\<close>)
  show "free_set ?t (us @ p # bp # vs) = free_set s (us @ p # vs) \<union> area s bp"
    by (auto simp: free_set_def area_def fin)
qed

lemma merge_ok:
  assumes ok: "list_ok s (us @ x # y # vs)" and adj: "fin s x = unat y"
  shows "list_ok (merge x y s) (us @ x # vs)" "free_set (merge x y s) (us @ x # vs) = free_set s (us @ x # y # vs)"
    "area (merge x y s) x = area s x \<union> area s y"
proof -
  let ?t = "merge x y s" let ?b = "h_base s"
  have so: "sorted_wrt (\<lambda>p q. p < q \<and> fin s p \<le> unat q) (us @ x # y # vs)" using ok by (simp add: list_ok_def)
  have d: "distinct (us @ x # y # vs)" by (rule list_ok_distinct [OF ok])
  obtain qs where qs: "us @ x # y # vs = ?b # qs" using ok by (auto simp: list_ok_def)
  have y: "0 < h_size s y" "fin s y \<le> unat (h_brk s)" using ok by (cases us; auto simp: list_ok_def)+
  have brk: "unat (h_brk s) < 0x80000000" using ok by (auto simp: list_ok_def word_le_nat_alt)
  have sum: "unat (h_size s x + h_size s y) = unat (h_size s x) + unat (h_size s y)"
    by (rule unat_add_lem [THEN iffD1]) (use adj y(2) brk in \<open>simp add: fin_def\<close>)
  have finx: "fin ?t x = fin s y" using adj by (simp add: fin_def merge_def sum)
  have fin: "fin ?t z = fin s z" if "z \<noteq> x" for z using that by (simp add: fin_def merge_def)
  have vs: "fin s y \<le> unat v" "x < v" if "v \<in> set vs" for v using so that by (auto simp: sorted_wrt_append)
  have us: "u < x" "fin s u \<le> unat x" if "u \<in> set us" for u using so that by (auto simp: sorted_wrt_append)
  have fus: "fin ?t u = fin s u" if "u \<in> set us" for u using fin [of u] us(1) [OF that] by auto
  have nx: "us \<noteq> []"
  proof
    assume "us = []"
    then have "x = ?b" "x < y" using qs so by auto
    then show False using ok adj by (simp add: fin_def list_ok_def word_less_nat_alt)
  qed
  obtain us' where us': "us = ?b # us'" "qs = us' @ x # y # vs" using qs nx by (cases us) auto
  let ?qs = "us' @ x # vs"
  show "list_ok ?t (us @ x # vs)"
  proof (rule list_okI)
    show "us @ x # vs = h_base ?t # ?qs" using us' by (simp add: merge_def)
    show "links (h_ptr ?t) (us @ x # vs) (h_base ?t)"
      using ok d by (auto simp: list_ok_def links_append merge_def links_upd)
    have "sorted_wrt (\<lambda>p q. p < q \<and> fin ?t p \<le> unat q) us \<and> sorted_wrt (\<lambda>p q. p < q \<and> fin ?t p \<le> unat q) vs"
      using so d fin by (subst (1 2) sorted_wrt_fin_cong [where s = s]) (auto simp: sorted_wrt_append)
    then show "sorted_wrt (\<lambda>p q. p < q \<and> fin ?t p \<le> unat q) (us @ x # vs)"
      using so us vs finx fus by (auto simp: sorted_wrt_append)
  next
    fix z assume "z \<in> set ?qs"
    then have z: "z \<in> set qs" using us'(2) by auto
    have "0 < h_size s x + h_size s y" using y(1) sum by (simp add: word_less_nat_alt)
    then show "0 < h_size ?t z \<and> fin ?t z \<le> unat (h_brk ?t)"
      using ok qs z y finx fin [of z] by (cases "z = x") (auto simp: list_ok_def merge_def)
  next
    show "h_size ?t (h_base ?t) = 0" using ok nx qs d by (cases us) (auto simp: list_ok_def merge_def)
  qed (use ok in \<open>auto simp: list_ok_def merge_def\<close>)
  have "unat x \<le> unat y" "unat y \<le> fin s y" using so by (auto simp: sorted_wrt_append fin_def intro: less_imp_le)
  then show a: "area ?t x = area s x \<union> area s y"
    unfolding area_def finx adj by (auto simp: fin_def)
  have "area ?t z = area s z" if "z \<in> set us \<union> set vs" for z 
  proof -
    have "z \<noteq> x" using d that by auto
    then show ?thesis using fin by (simp add: area_def)
  qed
  then show "free_set ?t (us @ x # vs) = free_set s (us @ x # y # vs)"
    unfolding free_set_def by (auto simp: a)
qed

text \<open>\<open>free\<close> links the block in and merges it with its neighbours.\<close>

lemma unat_end: "unat p + 16 * unat (n :: uint) < 0x80000000 \<Longrightarrow> unat (p + units n) = unat p + 16 * unat n"
proof -
  assume a: "unat p + 16 * unat n < 0x80000000"
  have "unat (units n) = 16 * unat n" using a by (simp add: units_def unat_word_ariths unat_ucast_32_64)
  then show ?thesis using a by (subst unat_add64) simp_all
qed

lemma free_run:
  assumes place: "loopM (free_turn bp) (h_freep s) s = Ok p s" and ne: "p \<noteq> bp" "h_ptr s p \<noteq> bp" "bp + units (h_size s bp) \<noteq> p"
  shows "u_free (bp + 16) s = Ok () ((let s1 = link_in p bp s;
      s2 = (if bp + units (h_size s bp) = h_ptr s p then merge bp (h_ptr s p) s1 else s1);
      s3 = (if p + units (h_size s p) = bp then merge p bp s2 else s2) in s3)\<lparr>h_freep := p\<rparr>)"
proof -
  let ?m1 = "\<lambda>s. let nx = h_ptr s p in
         if bp + units (h_size s bp) = nx
         then s\<lparr>h_size := (h_size s)(bp := h_size s bp + h_size s nx), h_ptr := (h_ptr s)(bp := h_ptr s nx)\<rparr>
         else s\<lparr>h_ptr := (h_ptr s)(bp := nx)\<rparr>"
  let ?m2 = "\<lambda>s. if p + units (h_size s p) = bp
         then s\<lparr>h_size := (h_size s)(p := h_size s p + h_size s bp), h_ptr := (h_ptr s)(p := h_ptr s bp)\<rparr>
         else s\<lparr>h_ptr := (h_ptr s)(p := bp)\<rparr>"
  have "u_free (bp + 16) s = Ok () ((?m2 (?m1 s))\<lparr>h_freep := p\<rparr>)"
    unfolding u_free_def Let_def add_diff_cancel_right'
    by (subst bind_Ok [OF gets_run], subst bind_Ok [where m = "loopM (free_turn bp) (h_freep s)" and s = s, OF place])
      (simp add: seq_def bind_def modify_def ret_def Let_def)
  moreover have "?m2 (?m1 s) = (let s1 = link_in p bp s;
      s2 = (if bp + units (h_size s bp) = h_ptr s p then merge bp (h_ptr s p) s1 else s1);
      s3 = (if p + units (h_size s p) = bp then merge p bp s2 else s2) in s3)"
    using ne by (auto simp: Let_def link_in_def merge_def fun_upd_twist intro!: uheap.equality)
  ultimately show ?thesis by simp
qed

lemma block_end: "fin s p < 0x80000000 \<Longrightarrow> p + units (h_size s p) = q \<longleftrightarrow> fin s p = unat q"
  using unat_end [of p "h_size s p"] by (auto simp: fin_def word_unat_eq_iff)

lemma list_below:
  assumes "list_ok s ps" "x \<in> set ps"
  shows "unat (h_base s) \<le> unat x" "unat x < unat (h_brk s)" "fin s x \<le> unat (h_brk s)" "unat (h_brk s) < 0x80000000"
    "x \<noteq> h_base s \<Longrightarrow> 0 < h_size s x \<and> h_base s < x"
proof -
  obtain qs where ps: "ps = h_base s # qs" using assms(1) by (auto simp: list_ok_def)
  have q: "0 < h_size s x \<and> fin s x \<le> unat (h_brk s) \<and> h_base s < x" if "x \<in> set qs"
    using assms(1) that by (auto simp: list_ok_def ps)
  have b: "fin s (h_base s) = unat (h_base s)" "unat (h_base s) < unat (h_brk s)" using assms(1) by (auto simp: list_ok_def fin_def)
  show "unat (h_brk s) < 0x80000000" using assms(1) by (simp add: list_ok_def)
  have x: "x = h_base s \<or> x \<in> set qs" using assms(2) ps by auto
  have lt: "0 < h_size s x \<Longrightarrow> unat x < fin s x" by (simp add: fin_def word_less_nat_alt)
  show "unat (h_base s) \<le> unat x" "unat x < unat (h_brk s)" "fin s x \<le> unat (h_brk s)"
    "x \<noteq> h_base s \<Longrightarrow> 0 < h_size s x \<and> h_base s < x"
    using x q b lt by (auto simp: word_less_nat_alt)
qed

lemma free_list:
  assumes ok: "heap_ok s ps" and bp: "h_base s < bp" "0 < h_size s bp" "fin s bp \<le> unat (h_brk s)"
    and dis: "area s bp \<inter> free_set s ps = {}"
  shows "\<exists>t qs. u_free (bp + 16) s = Ok () t \<and> heap_ok t qs \<and> free_set t qs = free_set s ps \<union> area s bp
    \<and> (\<exists>x \<in> set qs. area s bp \<subseteq> area t x) \<and> h_brk t = h_brk s \<and> h_room t = h_room s \<and> h_base t = h_base s
    \<and> (\<forall>z. unat z \<notin> free_set s ps \<union> area s bp \<longrightarrow> h_size t z = h_size s z)"
proof -
  have l: "list_ok s ps" and f: "h_freep s \<in> set ps" using ok by (auto simp: heap_ok_def)
  have "\<exists>x \<in> set ps. x < bp" using l bp(1) by (auto simp: list_ok_def)
  from split_list_last_prop [OF this] obtain us p vs where
    ps: "ps = us @ p # vs" and p: "p < bp" and vs: "\<forall>v \<in> set vs. \<not> v < bp" by auto
  have brk: "unat (h_brk s) < 0x80000000" using l by (simp add: list_ok_def)
  have szbp: "unat bp < fin s bp" using bp(2) by (simp add: fin_def word_less_nat_alt)
  have apart: "fin s x \<le> unat bp \<or> fin s bp \<le> unat x" if "x \<in> set ps" for x
  proof (rule ccontr)
    assume a: "\<not> ?thesis"
    have "unat x < fin s x" using a p list_below(5) [OF l that] bp(1) l
      by (cases "x = h_base s") (auto simp: fin_def list_ok_def word_less_nat_alt)
    then have "max (unat x) (unat bp) \<in> area s bp \<inter> area s x" using a szbp by (auto simp: area_def)
    then show False using dis that by (auto simp: free_set_def)
  qed
  have p2: "fin s p \<le> unat bp" using apart [of p] p szbp by (auto simp: ps word_less_nat_alt)
  have vs2: "bp < v \<and> fin s bp \<le> unat v" if "v \<in> set vs" for v
  proof -
    have "\<not> fin s v \<le> unat bp"
    proof
      assume a: "fin s v \<le> unat bp"
      moreover have "unat v \<le> fin s v" by (simp add: fin_def)
      ultimately have "v = bp" using vs that by (auto simp: word_less_nat_alt word_unat_eq_iff)
      then show False using a szbp by simp
    qed
    then show ?thesis using apart [of v] that szbp by (auto simp: ps word_less_nat_alt)
  qed
  let ?s1 = "link_in p bp s"
  have l1: "list_ok ?s1 (us @ p # bp # vs)" and f1: "free_set ?s1 (us @ p # bp # vs) = free_set s ps \<union> area s bp"
    using link_in_ok [OF l [unfolded ps] p p2 bp(2,3)] vs2 by (auto simp: ps)
  let ?c = "bp + units (h_size s bp) = h_ptr s p"
  have hp: "h_ptr s p = hd (vs @ [h_base s])" using l by (auto simp: list_ok_def ps links_append)
  have c: "?c \<longleftrightarrow> fin s bp = unat (h_ptr s p)" using bp(3) brk by (intro block_end) simp
  have ne: "p \<noteq> bp" "h_ptr s p \<noteq> bp" "bp + units (h_size s bp) \<noteq> p"
    using p hp vs2 [of "hd vs"] bp(1) szbp bp(3) brk block_end [of s bp p]
    by (cases vs; force simp: word_less_nat_alt)+
  have ends: "p + units (h_size s p) = bp \<longleftrightarrow> fin s p = unat bp"
    using list_below(3) [OF l, of p] brk by (intro block_end) (simp add: ps)
  obtain ws s2 where s2: "s2 = (if ?c then merge bp (h_ptr s p) ?s1 else ?s1)" and l2: "list_ok s2 (us @ p # bp # ws)"
    and f2: "free_set s2 (us @ p # bp # ws) = free_set s ps \<union> area s bp" and a2: "area s bp \<subseteq> area s2 bp"
  proof (cases ?c)
    case True
    have "vs \<noteq> []" using True c hp bp(1) szbp by (auto simp: word_less_nat_alt)
    then obtain ws where w: "vs = h_ptr s p # ws" using hp by (cases vs) auto
    have l1': "list_ok ?s1 ((us @ [p]) @ bp # h_ptr s p # ws)" using l1 w by simp
    have adj: "fin ?s1 bp = unat (h_ptr s p)" using True c by (simp add: fin_def link_in_def)
    have "area ?s1 bp = area s bp" by (simp add: area_def fin_def link_in_def)
    then show ?thesis using that [of "merge bp (h_ptr s p) ?s1" ws] True f1 w merge_ok [OF l1' adj] by simp
  next
    case False
    then show ?thesis using that [of ?s1 vs] l1 f1 by (simp add: area_def fin_def link_in_def)
  qed
  have same: "h_size s2 z = h_size s z" if "z \<noteq> bp" for z using that by (simp add: s2 merge_def link_in_def)
  have k2: "h_brk s2 = h_brk s" "h_room s2 = h_room s" "h_base s2 = h_base s" by (auto simp: s2 merge_def link_in_def)
  let ?d = "p + units (h_size s p) = bp"
  obtain qs s3 where s3: "s3 = (if ?d then merge p bp s2 else s2)" and l3: "list_ok s3 qs" "p \<in> set qs"
    and f3: "free_set s3 qs = free_set s ps \<union> area s bp" and a3: "\<exists>x \<in> set qs. area s bp \<subseteq> area s3 x"
  proof (cases ?d)
    case True
    have adj: "fin s2 p = unat bp" using True ends same [of p] ne(1) by (simp add: fin_def)
    show ?thesis using that [of "merge p bp s2" "us @ p # ws"] True f2 a2 merge_ok [OF l2 adj] by auto
  next
    case False
    then show ?thesis using that [of s2 "us @ p # bp # ws"] l2 f2 a2 by auto
  qed
  have run: "u_free (bp + 16) s = Ok () (s3\<lparr>h_freep := p\<rparr>)"
    using free_run [OF find_place [OF ok [unfolded ps] p] ne] vs2 by (simp add: Let_def s2 s3)
  have pin: "unat p \<in> free_set s ps" if ?d
    using that ends p by (auto simp: free_set_def area_def ps word_less_nat_alt)
  have zs: "h_size s3 z = h_size s z" if "unat z \<notin> free_set s ps \<union> area s bp" for z
  proof -
    have "z \<noteq> bp" using that szbp by (auto simp: area_def)
    moreover have "?d \<Longrightarrow> z \<noteq> p" using that pin by auto
    ultimately show ?thesis using same by (simp add: s3 merge_def)
  qed
  have k3: "h_brk s3 = h_brk s" "h_room s3 = h_room s" "h_base s3 = h_base s" using k2 by (auto simp: s3 merge_def)
  have up: "free_set (s3\<lparr>h_freep := p\<rparr>) = free_set s3" "area (s3\<lparr>h_freep := p\<rparr>) = area s3"
    "list_ok (s3\<lparr>h_freep := p\<rparr>) = list_ok s3"
    by (simp_all add: fun_eq_iff free_set_def area_def fin_def list_ok_def)
  show ?thesis
    using run l3 f3 a3 zs k3 by (intro exI [of _ "s3\<lparr>h_freep := p\<rparr>"] exI [of _ qs]) (simp add: heap_ok_def up)
qed


section \<open>malloc\<close>

lemma links_last: "links P xs y \<Longrightarrow> xs \<noteq> [] \<Longrightarrow> P (last xs) = y"
  by (induction xs) (auto split: if_splits)

lemma links_map: "links P xs y \<longleftrightarrow> map P xs = tl (xs @ [y])"
proof (induction xs)
  case (Cons x xs)
  then show ?case by (cases xs) auto
qed simp

lemma one_before:
  assumes ok: "list_ok s ps" and x: "pr \<in> set ps" "x \<in> set ps" "h_ptr s pr = x" "x \<noteq> h_base s"
  shows "\<exists>us vs. ps = us @ pr # x # vs"
proof -
  obtain us vs where ps: "ps = us @ x # vs" using x(2) by (auto simp: in_set_conv_decomp)
  then have "us \<noteq> []" using ok x(4) by (auto simp: list_ok_def)
  then obtain us' q where us: "us = us' @ [q]" by (cases us rule: rev_cases) auto
  obtain rest where r: "ps = h_base s # rest" using ok by (auto simp: list_ok_def)
  have "map (h_ptr s) ps = rest @ [h_base s]" using ok unfolding list_ok_def links_map by (simp add: r)
  then have "distinct (map (h_ptr s) ps)" using list_ok_distinct [OF ok] by (simp add: r)
  then have inj: "inj_on (h_ptr s) (set ps)" by (simp add: distinct_map)
  have "h_ptr s q = x" using ok unfolding list_ok_def ps us links_append by simp
  then have "q = pr" using inj_onD [OF inj, of q pr] x(1,3) by (simp add: ps us)
  then show ?thesis using ps us by auto
qed

lemma free_set_diff: "(\<And>z. z \<in> set ps \<Longrightarrow> area t z = area s z - A) \<Longrightarrow> free_set t ps = free_set s ps - A"
  by (auto simp: free_set_def)

lemma take_block_ok:
  assumes ok: "heap_ok s ps" and x: "pr \<in> set ps" "x \<in> set ps" "pr \<noteq> x" "h_ptr s pr = x" and n: "0 < n" "n \<le> h_size s x"
  shows "\<exists>t qs a. take_block pr x n s = Ok (a + 16) t \<and> heap_ok t qs \<and> h_size t a = n \<and> area t a \<subseteq> free_set s ps
    \<and> free_set t qs = free_set s ps - area t a \<and> h_brk t = h_brk s \<and> h_room t = h_room s \<and> h_base t = h_base s
    \<and> (\<forall>z. unat z \<notin> free_set s ps \<longrightarrow> h_size t z = h_size s z)"
proof -
  have l: "list_ok s ps" using ok by (simp add: heap_ok_def)
  have xb: "x \<noteq> h_base s" using n l by (auto simp: list_ok_def)
  obtain us vs where ps: "ps = us @ pr # x # vs" using one_before [OF l x(1,2,4) xb] by auto
  have d: "distinct ps" by (rule list_ok_distinct [OF l])
  have ax: "unat x \<in> area s x" using list_below(5) [OF l x(2) xb] by (simp add: area_def fin_def word_less_nat_alt)
  have sub: "area s x \<subseteq> free_set s ps" using x(2) by (auto simp: free_set_def)
  have so: "sorted_wrt (\<lambda>p q. p < q \<and> fin s p \<le> unat q) (us @ pr # x # vs)" using l by (simp add: list_ok_def ps)
  show ?thesis
  proof (cases "h_size s x = n")
    case True
    let ?t = "s\<lparr>h_ptr := (h_ptr s)(pr := h_ptr s x), h_freep := pr\<rparr>"
    have f: "fin ?t = fin s" by (simp add: fun_eq_iff fin_def)
    obtain qs where qs: "us @ pr # x # vs = h_base s # qs" using l ps by (auto simp: list_ok_def)
    have b0: "x \<noteq> hd (us @ [pr])" using qs xb by (cases us) auto
    obtain qs' where qs': "us @ pr # vs = h_base s # qs'" using qs by (cases us) auto
    have "list_ok ?t (us @ pr # vs)"
    proof (rule list_okI)
      show "us @ pr # vs = h_base ?t # qs'" using qs' by simp
      show "links (h_ptr ?t) (us @ pr # vs) (h_base ?t)"
        using l d by (auto simp: list_ok_def ps links_append links_upd)
      show "sorted_wrt (\<lambda>p q. p < q \<and> fin ?t p \<le> unat q) (us @ pr # vs)"
        unfolding f using so by (auto simp: sorted_wrt_append)
    next
      fix z assume "z \<in> set qs'"
      then have "z \<in> set qs" using qs qs' by (cases us) auto
      then show "0 < h_size ?t z \<and> fin ?t z \<le> unat (h_brk ?t)"
        using l qs unfolding f by (auto simp: list_ok_def ps)
    qed (use l in \<open>auto simp: list_ok_def\<close>)
    moreover have "free_set ?t (us @ pr # vs) = free_set s ps - area s x"
    proof -
      have at: "area ?t = area s" by (simp add: fun_eq_iff area_def f)
      have "area s z \<inter> area s x = {}" if "z \<in> set us \<union> {pr} \<union> set vs" for z
        using so that by (auto simp: sorted_wrt_append area_def)
      then show ?thesis unfolding free_set_def at ps by auto
    qed
    moreover have "take_block pr x n s = Ok (x + 16) ?t"
      using True by (simp add: take_block_def bind_def gets_def seq_def modify_def ret_def)
    ultimately show ?thesis
      using True sub f by (intro exI [of _ ?t] exI [of _ "us @ pr # vs"] exI [of _ x]) (simp add: heap_ok_def area_def)
  next
    case False
    let ?m = "h_size s x - n" let ?q = "x + units ?m"
    let ?t = "s\<lparr>h_size := (h_size s)(x := ?m, ?q := n), h_freep := pr\<rparr>"
    have sz: "unat ?m = unat (h_size s x) - unat n" "0 < unat ?m" "0 < unat n" "unat n < unat (h_size s x)"
      using False n by (auto simp: unat_sub word_le_nat_alt word_less_nat_alt word_unat_eq_iff)
    have q: "unat ?q = unat x + 16 * unat ?m"
      using list_below(3,4) [OF l x(2)] sz by (intro unat_end) (simp add: fin_def)
    have qin: "unat ?q \<in> area s x" "?q \<noteq> x" using sz q by (auto simp: area_def fin_def word_unat_eq_iff)
    have fx: "fin ?t x = unat ?q" and fq: "fin ?t ?q = fin s x" using sz q qin(2) by (auto simp: fin_def)
    have dj: "area s z \<inter> area s x = {}" if "z \<in> set ps" "z \<noteq> x" for z
      using so that by (auto simp: ps sorted_wrt_append area_def)
    have qn: "?q \<notin> set ps"
    proof
      assume a: "?q \<in> set ps"
      have "unat (h_base s) < unat ?q" using list_below(5) [OF l x(2) xb] q by (simp add: word_less_nat_alt)
      then have "?q \<noteq> h_base s" by auto
      then have "unat ?q \<in> area s ?q" using list_below(5) [OF l a] by (auto simp: area_def fin_def word_less_nat_alt)
      then show False using dj [OF a qin(2)] qin(1) by blast
    qed
    have fz: "fin ?t z = fin s z" if "z \<in> set ps" "z \<noteq> x" for z using that qn by (auto simp: fin_def)
    have le: "fin ?t z \<le> fin s z" if "z \<in> set ps" for z
    proof (cases "z = x")
      case True
      then show ?thesis using fx q sz by (simp add: fin_def)
    qed (use fz [OF that] in simp)
    have "list_ok ?t ps"
    proof (rule list_okI)
      obtain qs where qs: "ps = h_base s # qs" using l by (auto simp: list_ok_def)
      then show "ps = h_base ?t # tl ps" by simp
      show "links (h_ptr ?t) ps (h_base ?t)" using l by (simp add: list_ok_def)
      show "sorted_wrt (\<lambda>p q. p < q \<and> fin ?t p \<le> unat q) ps"
        by (rule sorted_wrt_mono_rel [OF _ so [folded ps]]) (use le order_trans in blast)
      show "0 < h_size ?t z \<and> fin ?t z \<le> unat (h_brk ?t)" if "z \<in> set (tl ps)" for z
      proof -
        have z: "z \<in> set ps" "z \<noteq> h_base s" using that qs d by auto
        then have "0 < h_size ?t z" using list_below(5) [OF l z(1)] sz(2) n(1) by (auto simp: word_less_nat_alt)
        then show ?thesis using le [OF z(1)] list_below(3) [OF l z(1)] by simp
      qed
      have "h_base s \<in> set ps" using qs by simp
      then have "h_base s \<noteq> ?q" using qn by metis
      then show "h_size ?t (h_base ?t) = 0" using l xb by (simp add: list_ok_def)
    qed (use l in \<open>auto simp: list_ok_def\<close>)
    have ax2: "area s x = area ?t x \<union> area ?t ?q" "area ?t x \<inter> area ?t ?q = {}"
      unfolding area_def fx fq using q sz by (auto simp: fin_def)
    have qsub: "area ?t ?q \<subseteq> free_set s ps" using ax2(1) sub by blast
    have "area ?t z = area s z - area ?t ?q" if "z \<in> set ps" for z
    proof (cases "z = x")
      case True
      then show ?thesis using ax2 by blast
    next
      case False
      then have "area ?t z = area s z" using fz [OF that] by (simp add: area_def)
      then show ?thesis using dj [OF that False] ax2(1) by blast
    qed
    then have "free_set ?t ps = free_set s ps - area ?t ?q" by (rule free_set_diff)
    moreover note qsub
    moreover have "take_block pr x n s = Ok (?q + 16) ?t"
      using False by (simp add: take_block_def bind_def gets_def seq_def modify_def ret_def Let_def)
    moreover have "\<forall>z. unat z \<notin> free_set s ps \<longrightarrow> h_size ?t z = h_size s z"
      using ax qin(1) sub by auto
    moreover have "heap_ok ?t ps" using \<open>list_ok ?t ps\<close> x(1) by (simp add: heap_ok_def)
    ultimately show ?thesis
      by (intro exI [of _ ?t] exI [of _ ps] exI [of _ ?q]) simp
  qed
qed

text \<open>The walk from the block after \<open>h_freep\<close> around to \<open>h_freep\<close> itself.\<close>

lemma malloc_walk:
  "links (h_ptr s) (pr # xs) y \<Longrightarrow> h_freep s \<notin> set xs \<Longrightarrow> \<forall>x \<in> set xs. h_size s x < n
    \<Longrightarrow> loopM (malloc_turn n) (pr, hd (xs @ [y])) s = loopM (malloc_turn n) (last (pr # xs), y) s"
proof (induction xs arbitrary: pr)
  case (Cons x xs)
  have "malloc_turn n (pr, x) s = Ok (Inl (x, hd (xs @ [y]))) s"
    using Cons.prems by (auto simp: malloc_turn_def bind_def gets_def ret_def not_le)
  then have "loopM (malloc_turn n) (pr, x) s = loopM (malloc_turn n) (x, hd (xs @ [y])) s"
    by (subst loopM_unfold) (simp add: bind_def)
  then show ?case using Cons.IH [of x] Cons.prems by simp
qed simp

lemma around:
  assumes "heap_ok s ps"
  shows "\<exists>zs. links (h_ptr s) (h_freep s # zs) (h_freep s) \<and> set (h_freep s # zs) = set ps \<and> distinct (h_freep s # zs)"
proof -
  from assms obtain us vs where ps: "ps = us @ h_freep s # vs" by (auto simp: heap_ok_def in_set_conv_decomp)
  have l: "list_ok s (us @ h_freep s # vs)" using assms ps by (simp add: heap_ok_def)
  then have "hd (us @ [h_freep s]) = h_base s" by (cases us) (auto simp: list_ok_def)
  then have "links (h_ptr s) (h_freep s # vs @ us) (h_freep s)"
    using l by (cases vs) (auto simp: list_ok_def links_append hd_append)
  then show ?thesis using list_ok_distinct [OF l] ps by (intro exI [of _ "vs @ us"]) auto
qed

lemma malloc_found:
  assumes ok: "heap_ok s ps" and big: "x0 \<in> set ps" "n \<le> h_size s x0" and n: "0 < n"
  shows "\<exists>pr x. loopM (malloc_turn n) (h_freep s, h_ptr s (h_freep s)) s = take_block pr x n s
    \<and> pr \<in> set ps \<and> x \<in> set ps \<and> pr \<noteq> x \<and> h_ptr s pr = x \<and> n \<le> h_size s x"
proof -
  let ?f = "h_freep s"
  obtain zs where zs: "links (h_ptr s) (?f # zs) ?f" "set (?f # zs) = set ps" "distinct (?f # zs)" using around [OF ok] by blast
  have here: "loopM (malloc_turn n) (pr, x) s = take_block pr x n s" if "n \<le> h_size s x" for pr x
    using that by (subst loopM_unfold) (auto simp: malloc_turn_def bind_def gets_def ret_def fun_eq_iff split: outcome.splits)
  have "\<exists>x \<in> set (zs @ [?f]). n \<le> h_size s x" using big zs(2) by auto
  from split_list_first_prop [OF this] obtain as x bs where
    d: "zs @ [?f] = as @ x # bs" and x: "n \<le> h_size s x" and as: "\<forall>y \<in> set as. \<not> n \<le> h_size s y" by auto
  have lk: "links (h_ptr s) (?f # as) x" and fas: "?f \<notin> set as" and sub: "set (?f # as) \<subseteq> set ps" "x \<in> set ps"
  proof -
    consider "bs = []" "zs = as" "x = ?f" | bs' where "bs = bs' @ [?f]" "zs = as @ x # bs'"
      using d by (cases bs rule: rev_cases) auto
    then have "links (h_ptr s) (?f # as) x \<and> ?f \<notin> set as \<and> set (?f # as) \<subseteq> set (?f # zs) \<and> x \<in> set (?f # zs)"
      using zs(1,3) by cases (auto simp: links_append hd_append)
    then show "links (h_ptr s) (?f # as) x" "?f \<notin> set as" "set (?f # as) \<subseteq> set ps" "x \<in> set ps"
      unfolding zs(2) by blast+
  qed
  have px: "h_ptr s (last (?f # as)) = x" using links_last [OF lk] by simp
  have xb: "x \<noteq> h_base s" using x n ok by (auto simp: heap_ok_def list_ok_def)
  have "h_base s \<in> set ps" using ok by (auto simp: heap_ok_def list_ok_def)
  have ne: "last (?f # as) \<noteq> x"
  proof (cases "x = ?f")
    case True
    then have "zs \<noteq> []" using xb \<open>h_base s \<in> set ps\<close> zs(2) [symmetric] by (cases zs) auto
    moreover have "as = zs" using True d zs(3) fas by (cases bs rule: rev_cases) auto
    ultimately show ?thesis using True fas last_in_set [of zs] by (metis last_ConsR)
  next
    case False
    then obtain bs' where z: "zs = as @ x # bs'" using d by (cases bs rule: rev_cases) auto
    then have "x \<notin> set (?f # as)" using zs(3) by auto
    moreover have "last (?f # as) \<in> set (?f # as)" by (rule last_in_set) simp
    ultimately show ?thesis by (metis (no_types))
  qed
  have small: "\<forall>y \<in> set as. h_size s y < n" using as by (simp add: not_le)
  obtain pr where pr: "last (?f # as) = pr" by simp
  have "loopM (malloc_turn n) (?f, hd (as @ [x])) s = take_block pr x n s"
    using malloc_walk [OF lk fas small] here [OF x] unfolding pr by (simp only:)
  moreover have "h_ptr s ?f = hd (as @ [x])" using lk by simp
  ultimately have run: "loopM (malloc_turn n) (?f, h_ptr s ?f) s = take_block pr x n s" by simp
  have "pr \<in> set (?f # as)" unfolding pr [symmetric] by (rule last_in_set) simp
  then have "pr \<in> set ps" using sub(1) by (rule rev_subsetD)
  then show ?thesis using run sub(2) ne px x unfolding pr by blast
qed

lemma sbrk_grows:
  assumes "0 < k" "k < 0x80000000" "unat (h_brk s) < 0x80000000"
  shows "\<exists>new. unat new = unat (h_brk s) + k
    \<and> sbrk (int k) s = (if h_room s new then Ok (ucast (h_brk s)) (s\<lparr>h_brk := new\<rparr>) else Ok (-1) s)"
proof -
  obtain new where n: "h_brk s + word_of_int (int k) = new" by simp
  then have new: "unat new = unat (h_brk s) + k" using assms by (auto simp: unat_word_ariths unat_of_nat)
  then have nl: "\<not> new < h_brk s" by (simp add: word_less_nat_alt)
  have sc: "scast (h_brk s) = (ucast (h_brk s) :: uint64)"
    unfolding scast_eq ucast_eq sint_unat [OF assms(3)] by simp
  have "sbrk (int k) s = (if h_room s new then Ok (ucast (h_brk s)) (s\<lparr>h_brk := new\<rparr>) else Ok (-1) s)"
    unfolding sbrk_def Let_def n sc using nl assms(1) by simp
  then show ?thesis using new by blast
qed

lemma morecore_ok:
  assumes ok: "heap_ok s ps" and nu: "unat nu < 0x8000000"
  shows "morecore nu s = Ok 0 s \<and> \<not> h_room s (h_brk s + 16 * max 4096 nu) \<or> (\<exists>t qs. morecore nu s = Ok (h_freep t) t \<and> heap_ok t qs \<and> unat (h_brk s) \<le> unat (h_brk t)
    \<and> free_set t qs = free_set s ps \<union> {unat (h_brk s)..<unat (h_brk t)} \<and> (\<exists>x \<in> set qs. nu \<le> h_size t x)
    \<and> h_room t = h_room s \<and> h_base t = h_base s \<and> (\<forall>z. unat z \<notin> free_set t qs \<longrightarrow> h_size t z = h_size s z))"
proof -
  obtain m :: uint where m: "(if nu < 4096 then 4096 else nu) = m" by simp
  let ?k = "16 * unat m"
  have l: "list_ok s ps" using ok by (simp add: heap_ok_def)
  have brk: "unat (h_brk s) < 0x80000000" using l by (simp add: list_ok_def)
  have nu': "unat m < 0x8000000" "nu \<le> m" "0 < m" using nu m by (auto simp: word_less_nat_alt word_le_nat_alt split: if_splits)
  have k: "0 < ?k" "?k < 0x80000000" using nu'(1,3) by (auto simp: word_less_nat_alt)
  have un: "unat (units m) = ?k" using k unat_end [of 0 m] by simp
  have "unat (ucast (units m) :: uint) = ?k" using un k(2) by (simp add: unsigned_ucast_eq take_bit_nat_eq_self)
  then have arg: "sint (ucast (units m) :: uint) = int ?k" using k(2) by (subst sint_unat) simp_all
  obtain new where new: "unat new = unat (h_brk s) + ?k"
    and r: "sbrk (int ?k) s = (if h_room s new then Ok (ucast (h_brk s)) (s\<lparr>h_brk := new\<rparr>) else Ok (-1) s)"
    using sbrk_grows [OF k brk] by blast
  show ?thesis
  proof (cases "h_room s new")
    case False
    have "unat (h_brk s + 16 * m) = unat new" using new nu'(1) brk by (simp add: unat_word_ariths)
    moreover have "m = max 4096 nu" using m by (auto simp: max_def)
    ultimately have room: "\<not> h_room s (h_brk s + 16 * max 4096 nu)" using False by (metis word_unat_eq_iff)
    have "morecore nu s = Ok 0 s" using False unfolding morecore_def Let_def m arg by (simp add: bind_def r [simplified] ret_def)
    then show ?thesis using room by simp
  next
    case True
    let ?p = "ucast (h_brk s) :: uint64"
    let ?s1 = "s\<lparr>h_brk := new, h_size := (h_size s)(?p := m)\<rparr>"
    have lim: "unat new < 0x80000000" using l True by (auto simp: list_ok_def)
    have pn: "?p \<noteq> -1" 
    proof
      assume "?p = -1"
      then have "unat ?p = unat (-1 :: uint64)" by (simp only:)
      then show False using brk unfolding unat_ucast_32_64 by (simp add: unsigned_minus_1_eq_mask mask_eq_exp_minus_1)
    qed
    have fz: "fin ?s1 z = fin s z" "area ?s1 z = area s z" "z \<noteq> ?p" if "z \<in> set ps" for z
      using list_below(2) [OF l that] by (auto simp: fin_def area_def)
    have "list_ok ?s1 ps"
    proof (rule list_okI)
      obtain qs where qs: "ps = h_base s # qs" using l by (auto simp: list_ok_def)
      then show "ps = h_base ?s1 # tl ps" by simp
      show "links (h_ptr ?s1) ps (h_base ?s1)" using l by (simp add: list_ok_def)
      show "sorted_wrt (\<lambda>p q. p < q \<and> fin ?s1 p \<le> unat q) ps"
        using l fz(1) by (subst sorted_wrt_fin_cong [where s = s]) (simp_all add: list_ok_def)
      show "0 < h_size ?s1 z \<and> fin ?s1 z \<le> unat (h_brk ?s1)" if "z \<in> set (tl ps)" for z
        using l that fz [of z] new qs by (auto simp: list_ok_def)
      show "h_size ?s1 (h_base ?s1) = 0" using l fz(3) [of "h_base s"] qs by (simp add: list_ok_def)
    qed (use l lim new in \<open>auto simp: list_ok_def\<close>)
    then have ok1: "heap_ok ?s1 ps" using ok by (simp add: heap_ok_def)
    have fs: "free_set ?s1 ps = free_set s ps" using fz by (simp add: free_set_def)
    have ap: "area ?s1 ?p = {unat (h_brk s)..<unat new}" using new by (simp add: area_def fin_def)
    have dis: "area ?s1 ?p \<inter> free_set ?s1 ps = {}"
      unfolding ap fs using list_below(3) [OF l] by (fastforce simp: free_set_def area_def)
    have low: "h_base ?s1 < ?p" using l by (simp add: list_ok_def word_less_nat_alt)
    obtain t qs where t: "u_free (?p + 16) ?s1 = Ok () t" "heap_ok t qs" "free_set t qs = free_set s ps \<union> area ?s1 ?p"
      "\<exists>x \<in> set qs. area ?s1 ?p \<subseteq> area t x" "h_brk t = new" "h_room t = h_room s" "h_base t = h_base s"
      "\<forall>z. unat z \<notin> free_set s ps \<union> area ?s1 ?p \<longrightarrow> h_size t z = h_size ?s1 z"
      using free_list [OF ok1 low _ _ dis] nu'(3) new fs by (auto simp: fin_def)
    have "morecore nu s = Ok (h_freep t) t"
      using True pn t(1) unfolding morecore_def Let_def m arg by (simp add: bind_def r [simplified] seq_def modify_def gets_def)
    moreover have "\<exists>x \<in> set qs. nu \<le> h_size t x"
    proof -
      from t(4) obtain x where x: "x \<in> set qs" "{unat (h_brk s)..<unat new} \<subseteq> {unat x..<fin t x}"
        unfolding ap by (auto simp: area_def)
      then have "unat m \<le> unat (h_size t x)" using new k(1) by (simp add: fin_def)
      then have "nu \<le> h_size t x" using nu'(2) by (simp add: word_le_nat_alt)
      then show ?thesis using x(1) by blast
    qed
    moreover have "h_size t z = h_size s z" if "unat z \<notin> free_set t qs" for z
      using t(3,8) that new k ap by (auto split: if_splits)
    ultimately show ?thesis using t new by (auto simp: ap)
  qed
qed

lemma malloc_grow:
  assumes ok: "heap_ok s ps" and small: "\<forall>x \<in> set ps. h_size s x < n"
  shows "loopM (malloc_turn n) (h_freep s, h_ptr s (h_freep s)) s
    = bind (morecore n) (\<lambda>p. if p = 0 then ret 0 else bind (gets (\<lambda>s. h_ptr s p)) (\<lambda>nx. loopM (malloc_turn n) (p, nx))) s"
proof -
  let ?f = "h_freep s"
  obtain zs where zs: "links (h_ptr s) (?f # zs) ?f" "set (?f # zs) = set ps" "distinct (?f # zs)" using around [OF ok] by blast
  have f: "h_size s ?f < n" and z: "\<forall>x \<in> set zs. h_size s x < n" "?f \<notin> set zs" using small zs(2) [symmetric] zs(3) by auto
  have "loopM (malloc_turn n) (?f, h_ptr s ?f) s = loopM (malloc_turn n) (last (?f # zs), ?f) s"
    using malloc_walk [OF zs(1) z(2,1)] zs(1) by simp
  also have "\<dots> = bind (morecore n) (\<lambda>p. if p = 0 then ret 0 else bind (gets (\<lambda>s. h_ptr s p)) (\<lambda>nx. loopM (malloc_turn n) (p, nx))) s"
    using f by (subst loopM_unfold) (auto simp: malloc_turn_def bind_def gets_def ret_def not_le split: outcome.splits)
  finally show ?thesis .
qed

definition given :: "uheap \<Rightarrow> uheap \<Rightarrow> nat set \<Rightarrow> nat set" where
  "given s t F = F \<union> {unat (h_brk s)..<unat (h_brk t)}"

lemma malloc_loop:
  assumes ok: "heap_ok s ps" and n: "0 < n" "unat n < 0x8000000"
  shows "loopM (malloc_turn n) (h_freep s, h_ptr s (h_freep s)) s = Ok 0 s \<and> \<not> h_room s (h_brk s + 16 * max 4096 n)
    \<or> (\<exists>t qs a. loopM (malloc_turn n) (h_freep s, h_ptr s (h_freep s)) s = Ok (a + 16) t \<and> heap_ok t qs \<and> h_size t a = n
        \<and> area t a \<subseteq> given s t (free_set s ps) \<and> free_set t qs = given s t (free_set s ps) - area t a
        \<and> unat (h_brk s) \<le> unat (h_brk t) \<and> h_base t = h_base s
        \<and> (\<forall>z. unat z \<notin> given s t (free_set s ps) \<longrightarrow> h_size t z = h_size s z))"
proof (cases "\<exists>x \<in> set ps. n \<le> h_size s x")
  case True
  then obtain x0 where x0: "x0 \<in> set ps" "n \<le> h_size s x0" by blast
  obtain pr x where r: "loopM (malloc_turn n) (h_freep s, h_ptr s (h_freep s)) s = take_block pr x n s"
    and x: "pr \<in> set ps" "x \<in> set ps" "pr \<noteq> x" "h_ptr s pr = x" "n \<le> h_size s x" using malloc_found [OF ok x0 n(1)] by blast
  obtain t qs a where "take_block pr x n s = Ok (a + 16) t" "heap_ok t qs" "h_size t a = n" "area t a \<subseteq> free_set s ps"
    "free_set t qs = free_set s ps - area t a" "h_brk t = h_brk s" "h_base t = h_base s"
    "\<forall>z. unat z \<notin> free_set s ps \<longrightarrow> h_size t z = h_size s z" using take_block_ok [OF ok x(1-4) n(1) x(5)] by blast
  then show ?thesis unfolding r by (intro disjI2 exI [of _ t] exI [of _ qs] exI [of _ a]) (simp add: given_def)
next
  case False
  then have small: "\<forall>x \<in> set ps. h_size s x < n" by (simp add: not_le)
  from morecore_ok [OF ok n(2)] show ?thesis
  proof
    assume "morecore n s = Ok 0 s \<and> \<not> h_room s (h_brk s + 16 * max 4096 n)"
    then show ?thesis unfolding malloc_grow [OF ok small] by (simp add: bind_def ret_def)
  next
    assume "\<exists>t qs. morecore n s = Ok (h_freep t) t \<and> heap_ok t qs \<and> unat (h_brk s) \<le> unat (h_brk t)
      \<and> free_set t qs = free_set s ps \<union> {unat (h_brk s)..<unat (h_brk t)} \<and> (\<exists>x \<in> set qs. n \<le> h_size t x)
      \<and> h_room t = h_room s \<and> h_base t = h_base s \<and> (\<forall>z. unat z \<notin> free_set t qs \<longrightarrow> h_size t z = h_size s z)"
    then obtain t qs x0 where m: "morecore n s = Ok (h_freep t) t" and ok': "heap_ok t qs" and le: "unat (h_brk s) \<le> unat (h_brk t)"
      and F: "free_set t qs = given s t (free_set s ps)" and x0: "x0 \<in> set qs" "n \<le> h_size t x0" and b: "h_base t = h_base s"
      and z: "\<forall>z. unat z \<notin> free_set t qs \<longrightarrow> h_size t z = h_size s z" unfolding given_def by blast
    have "list_ok t qs" "h_freep t \<in> set qs" using ok' by (auto simp: heap_ok_def)
    then have "h_freep t \<noteq> 0" using list_below(1) [of t qs "h_freep t"] by (auto simp: list_ok_def word_less_nat_alt)
    then have g: "loopM (malloc_turn n) (h_freep s, h_ptr s (h_freep s)) s
        = loopM (malloc_turn n) (h_freep t, h_ptr t (h_freep t)) t"
      unfolding malloc_grow [OF ok small] by (simp add: bind_def m gets_def)
    obtain pr x where r: "loopM (malloc_turn n) (h_freep t, h_ptr t (h_freep t)) t = take_block pr x n t"
      and x: "pr \<in> set qs" "x \<in> set qs" "pr \<noteq> x" "h_ptr t pr = x" "n \<le> h_size t x" using malloc_found [OF ok' x0 n(1)] by blast
    obtain u us a where "take_block pr x n t = Ok (a + 16) u" "heap_ok u us" "h_size u a = n" "area u a \<subseteq> free_set t qs"
      "free_set u us = free_set t qs - area u a" "h_brk u = h_brk t" "h_base u = h_base t"
      "\<forall>z. unat z \<notin> free_set t qs \<longrightarrow> h_size u z = h_size t z" using take_block_ok [OF ok' x(1-4) n(1) x(5)] by blast
    moreover have "given s u (free_set s ps) = given s t (free_set s ps)" if "h_brk u = h_brk t" using that by (simp add: given_def)
    ultimately show ?thesis unfolding g r using F b z le
      by (intro disjI2 exI [of _ u] exI [of _ us] exI [of _ a]) simp
  qed
qed

section \<open>What the allocator provides\<close>

text \<open>The set of the free bytes that the allocator's state stands for. Before the first \<open>malloc\<close> there is no list.\<close>

definition unused :: "uheap \<Rightarrow> bool" where
  "unused s \<longleftrightarrow> h_freep s = 0 \<and> 0 < h_base s \<and> unat (h_base s) < unat (h_brk s) \<and> unat (h_brk s) < 0x80000000
     \<and> (\<forall>n. h_room s n \<longrightarrow> unat n < 0x80000000)"

definition free_bytes :: "uheap \<Rightarrow> nat set \<Rightarrow> bool" where
  "free_bytes s F \<longleftrightarrow> unused s \<and> F = {} \<or> (\<exists>ps. heap_ok s ps \<and> free_set s ps = F)"

lemma nunits_of_bounds:
  assumes "nbytes \<le> 0x7FFFFFE0"
  shows "unat (nunits_of nbytes) = (unat nbytes + 15) div 16 + 1"
proof -
  have b: "unat nbytes \<le> 0x7FFFFFE0" using assms by (simp add: word_le_nat_alt)
  have 1: "unat (ucast nbytes + 16 - 1 :: uint64) = unat nbytes + 15" using b by (simp add: unat_word_ariths)
  have "unat ((ucast nbytes + 16 - 1) div 16 + 1 :: uint64) = (unat nbytes + 15) div 16 + 1"
    using b by (simp add: unat_word_ariths(1) unat_div 1)
  then show ?thesis using b unfolding nunits_of_def by (simp add: unsigned_ucast_eq take_bit_nat_eq_self)
qed

text \<open>The first call sets up the list with the static header only.\<close>

lemma malloc_start:
  assumes "free_bytes s F"
  shows "\<exists>s1 ps. malloc nbytes s = loopM (malloc_turn (nunits_of nbytes)) (h_freep s1, h_ptr s1 (h_freep s1)) s1 \<and> heap_ok s1 ps
    \<and> free_set s1 ps = F \<and> h_brk s1 = h_brk s \<and> h_room s1 = h_room s \<and> h_base s1 = h_base s
    \<and> (\<forall>z. z \<noteq> h_base s \<longrightarrow> h_size s1 z = h_size s z)"
proof (cases "h_freep s = 0")
  case True
  let ?s1 = "s\<lparr>h_ptr := (h_ptr s)(h_base s := h_base s), h_freep := h_base s, h_size := (h_size s)(h_base s := 0)\<rparr>"
  have "\<not> heap_ok s ps" for ps
    using True list_below(1) [of s ps 0] by (auto simp: heap_ok_def list_ok_def word_less_nat_alt)
  then have "unused s" "F = {}" using assms by (auto simp: free_bytes_def)
  then have "heap_ok ?s1 [h_base s]" "free_set ?s1 [h_base s] = F"
    by (auto simp: heap_ok_def list_ok_def unused_def free_set_def area_def fin_def)
  then show ?thesis using True
    by (intro exI [of _ ?s1] exI [of _ "[h_base s]"]) (simp add: malloc_def bind_def seq_def gets_def whenM_def modify_def)
next
  case False
  then obtain ps where "heap_ok s ps" "free_set s ps = F" using assms by (auto simp: free_bytes_def unused_def)
  then show ?thesis using False
    by (intro exI [of _ s] exI [of _ ps]) (simp add: malloc_def bind_def seq_def gets_def whenM_def ret_def)
qed

lemma given_gap: "unat (h_brk s) \<le> unat (h_brk t) \<Longrightarrow> F - A \<union> A = F \<union> (A :: nat set)"
  by auto

text \<open>C40: \<open>malloc\<close> and \<open>free\<close> keep account of the free memory. For a request of at most \<open>0x7FFFFFE0\<close> bytes, so that the
  16 bytes a unit has times the number of units is still a positive \<open>int\<close> (\<open>morecore_truncates\<close> is what happens beyond
  that), and a heap whose free list describes the free bytes \<open>F\<close>, \<open>malloc\<close> comes back. Either it returns 0, which
  it does only when the kernel has no room for the memory it needs, and the free bytes are as they were; or it returns
  the address of a block of at least as many bytes as were asked for, header included, that is taken from the free
  bytes and those that \<open>sbrk\<close> has added and is free no more, and \<open>free\<close> of that address gives all of them back. The
  headers of the blocks that are in use keep their sizes.\<close>

theorem malloc_takes_free_memory:
  assumes F: "free_bytes s F" and nb: "nbytes \<le> 0x7FFFFFE0"
  shows "\<exists>r t G. malloc nbytes s = Ok r t \<and> free_bytes t G \<and> unat (h_brk s) \<le> unat (h_brk t)
    \<and> (r = 0 \<and> G = F \<and> h_brk t = h_brk s \<and> \<not> h_room s (h_brk s + 16 * max 4096 (nunits_of nbytes))
       \<or> r \<noteq> 0 \<and> unat nbytes + 16 \<le> 16 * unat (h_size t (r - 16)) \<and> area t (r - 16) \<subseteq> given s t F
         \<and> G = given s t F - area t (r - 16) \<and> (\<exists>u. u_free r t = Ok () u \<and> free_bytes u (given s t F)))
    \<and> (\<forall>z. z \<noteq> h_base s \<and> unat z \<notin> given s t F \<longrightarrow> h_size t z = h_size s z)"
proof -
  let ?n = "nunits_of nbytes"
  have n: "unat ?n = (unat nbytes + 15) div 16 + 1" by (rule nunits_of_bounds [OF nb])
  have nb': "unat nbytes \<le> 0x7FFFFFE0" using nb by (simp add: word_le_nat_alt)
  have n': "0 < ?n" "unat ?n < 0x8000000" "unat nbytes + 16 \<le> 16 * unat ?n"
    using n nb' by (simp_all add: word_less_nat_alt)
  obtain s1 ps where r: "malloc nbytes s = loopM (malloc_turn ?n) (h_freep s1, h_ptr s1 (h_freep s1)) s1"
    and ok: "heap_ok s1 ps" "free_set s1 ps = F" and k: "h_brk s1 = h_brk s" "h_room s1 = h_room s" "h_base s1 = h_base s"
    and z1: "\<forall>z. z \<noteq> h_base s \<longrightarrow> h_size s1 z = h_size s z" using malloc_start [OF F] by blast
  have g: "given s1 t F = given s t F" for t by (simp add: given_def k(1))
  from malloc_loop [OF ok(1) n'(1,2)] show ?thesis
  proof
    assume "loopM (malloc_turn ?n) (h_freep s1, h_ptr s1 (h_freep s1)) s1 = Ok 0 s1 \<and> \<not> h_room s1 (h_brk s1 + 16 * max 4096 ?n)"
    then show ?thesis using r ok z1 k by (intro exI [of _ 0] exI [of _ s1] exI [of _ F]) (auto simp: free_bytes_def)
  next
    assume "\<exists>t qs a. loopM (malloc_turn ?n) (h_freep s1, h_ptr s1 (h_freep s1)) s1 = Ok (a + 16) t \<and> heap_ok t qs \<and> h_size t a = ?n
      \<and> area t a \<subseteq> given s1 t (free_set s1 ps) \<and> free_set t qs = given s1 t (free_set s1 ps) - area t a
      \<and> unat (h_brk s1) \<le> unat (h_brk t) \<and> h_base t = h_base s1
      \<and> (\<forall>z. unat z \<notin> given s1 t (free_set s1 ps) \<longrightarrow> h_size t z = h_size s1 z)"
    then obtain t qs a where t: "malloc nbytes s = Ok (a + 16) t" "heap_ok t qs" "h_size t a = ?n" "area t a \<subseteq> given s t F"
      "free_set t qs = given s t F - area t a" "unat (h_brk s) \<le> unat (h_brk t)" "h_base t = h_base s"
      "\<forall>z. unat z \<notin> given s t F \<longrightarrow> h_size t z = h_size s1 z" unfolding r ok(2) g k by blast
    have lt: "list_ok t qs" using t(2) by (simp add: heap_ok_def)
    have brk: "unat (h_brk t) < 0x80000000" using lt by (simp add: list_ok_def)
    have low: "unat (h_base s) < y \<and> y < unat (h_brk t)" if "y \<in> given s t F" for y
    proof (cases "y \<in> F")
      case True
      have l1: "list_ok s1 ps" using ok(1) by (simp add: heap_ok_def)
      obtain x where x: "x \<in> set ps" "y \<in> area s1 x" using True ok(2) by (auto simp: free_set_def)
      then have "x \<noteq> h_base s1" using l1 by (auto simp: area_def fin_def list_ok_def)
      then show ?thesis using list_below(3,5) [OF l1 x(1)] x(2) k t(6) by (auto simp: area_def word_less_nat_alt)
    next
      case False
      then show ?thesis using that ok(1) k by (auto simp: given_def heap_ok_def list_ok_def)
    qed
    have ina: "unat a \<in> area t a" using n'(1) t(3) by (simp add: area_def fin_def word_less_nat_alt)
    then have a: "unat (h_base s) < unat a" "unat a < unat (h_brk t)" using low t(4) by auto
    have fa: "fin t a \<le> unat (h_brk t)"
    proof -
      have "fin t a - 1 \<in> area t a" using ina by (auto simp: area_def)
      then have "fin t a - 1 < unat (h_brk t)" using low t(4) by blast
      then show ?thesis by simp
    qed
    have "unat (a + 16) = unat a + 16" using a(2) brk by (simp add: unat_word_ariths)
    then have nz: "a + 16 \<noteq> 0" by auto
    have "\<exists>u us. u_free (a + 16) t = Ok () u \<and> heap_ok u us \<and> free_set u us = free_set t qs \<union> area t a"
      using free_list [OF t(2), of a] a(1) fa n'(1) t(3,5,7) by (fastforce simp: word_less_nat_alt)
    then have "\<exists>u. u_free (a + 16) t = Ok () u \<and> free_bytes u (given s t F)"
      using t(4,5) unfolding free_bytes_def by (metis Un_Diff_cancel2 Un_absorb2)
    moreover have "\<forall>z. z \<noteq> h_base s \<and> unat z \<notin> given s t F \<longrightarrow> h_size t z = h_size s z" using t(8) z1 by simp
    ultimately show ?thesis using t nz n'(3)
      by (intro exI [of _ "a + 16"] exI [of _ t] exI [of _ "free_set t qs"]) (auto simp: free_bytes_def)
  qed
qed

definition heap0 :: uheap where
  "heap0 = \<lparr>h_ptr = (\<lambda>_. 0), h_size = (\<lambda>_. 0), h_base = 0x1000, h_freep = 0, h_brk = 0x4000, h_room = (\<lambda>n. n \<le> 0x8000000)\<rparr>"

theorem malloc_takes_free_memory_witness:
  "\<exists>r t. malloc 100 heap0 = Ok r t \<and> r \<noteq> 0 \<and> 116 \<le> 16 * unat (h_size t (r - 16))
     \<and> (\<exists>u. u_free r t = Ok () u \<and> free_bytes u (given heap0 t {}))"
proof -
  have f: "free_bytes heap0 {}"
    by (auto simp: free_bytes_def unused_def heap0_def word_le_nat_alt)
  have nu: "max 4096 (nunits_of 100) = 4096" by (simp add: nunits_of_def max_def)
  have room: "h_room heap0 (h_brk heap0 + 16 * max 4096 (nunits_of 100))" unfolding nu by (simp add: heap0_def)
  obtain r t G where "malloc 100 heap0 = Ok r t" "r \<noteq> 0" "unat (100 :: uint) + 16 \<le> 16 * unat (h_size t (r - 16))"
    "\<exists>u. u_free r t = Ok () u \<and> free_bytes u (given heap0 t {})"
    using malloc_takes_free_memory [OF f, of 100] room by auto
  then show ?thesis by (intro exI [of _ r] exI [of _ t]) simp
qed

text \<open>A request near the top of the range of \<open>nbytes\<close>: the number of bytes that \<open>morecore\<close> asks for does not fit the
  \<open>int\<close> that \<open>sbrk\<close> takes. \<open>sbrk\<close> adds 16 bytes, and the block gets a header that says 4 GB.\<close>

lemma morecore_truncates:
  "nunits_of 0xFFFFFFF8 = 0x10000001" "sint (ucast (units 0x10000001) :: uint) = 16"
  by (simp_all add: nunits_of_def units_def)

end
