(* ===== verification/Mkfs.thy ===== *)
theory Mkfs
  imports Fs Ulib
begin

text \<open>
  \<open>mkfs/mkfs.c\<close>: the tool that builds the initial file system image on the host.

  The image is a file of the host, here a map from sectors to their bytes with the number of sectors it has; \<open>m_io\<close> says
  on which sectors the host can read and write. The host is little-endian; what the tool keeps of an inode in memory
  is the record of theory \<open>Fs\<close>, and its layout on disk is the kernel's. \<open>assert\<close> is a panic, \<open>die\<close> the exit status 1.
  What the tool prints is left out.
\<close>

section \<open>The tool\<close>

record mkfs =
  m_img :: "nat \<Rightarrow> byte list"
  m_len :: nat
  m_io :: "nat \<Rightarrow> bool"
  m_sb :: superblock
  m_freeinode :: uint
  m_freeblock :: uint

definition NINODES :: nat where [simp]: "NINODES = 200"
definition nbitmap :: nat where [simp]: "nbitmap = FSSIZE div (BSIZE * 8) + 1"
definition ninodeblocks :: nat where [simp]: "ninodeblocks = NINODES div IPB + 1"
definition nlog :: nat where [simp]: "nlog = LOGSIZE"
definition nmeta :: nat where [simp]: "nmeta = 2 + nlog + ninodeblocks + nbitmap"
definition nblocks :: nat where [simp]: "nblocks = FSSIZE - nmeta"

definition die :: "(mkfs, 'a) uprog" where
  "die = uexit 1"

definition assertM :: "bool \<Rightarrow> (mkfs, unit) uprog" where
  "assertM c = (if c then uret () else panic ''assert'')"

definition zeroes :: "byte list" where "zeroes = replicate BSIZE 0"

text \<open>The bytes of the result are stored one by one and read back as an integer.\<close>

definition xshort :: "uint16 \<Rightarrow> uint16" where
  "xshort x = ucast (get_le 2 (le_bytes 2 (ucast x)) 0)"

definition xint :: "uint \<Rightarrow> uint" where
  "xint x = ucast (get_le 4 (le_bytes 4 (ucast x)) 0)"

definition sector :: "uint \<Rightarrow> nat" where
  "sector sec = unat (sec * word_of_nat BSIZE) div BSIZE"

definition wsect :: "uint \<Rightarrow> byte list \<Rightarrow> (mkfs, unit) uprog" where
  "wsect sec buf = ubind (sys (gets m_io)) (\<lambda>io. let b = sector sec in
     if \<not> io b then die
     else call (modify (\<lambda>s. s\<lparr>m_img := (m_img s)(b := buf), m_len := max (m_len s) (b + 1)\<rparr>)))"

definition rsect :: "uint \<Rightarrow> (mkfs, byte list) uprog" where
  "rsect sec = ubind (sys (gets (\<lambda>s. s))) (\<lambda>s. let b = sector sec in
     if \<not> m_io s b \<or> b \<ge> m_len s then die else uret (m_img s b))"

definition dinode0 :: inode where
  "dinode0 = \<lparr>i_dev = 0, i_inum = 0, i_ref = 0, i_valid = False, i_type = 0, i_major = 0, i_minor = 0, i_nlink = 0,
     i_size = 0, i_addrs = (\<lambda>_. 0)\<rparr>"

definition winode :: "uint \<Rightarrow> inode \<Rightarrow> (mkfs, unit) uprog" where
  "winode inum ip =
     ubind (sys (gets m_sb)) (\<lambda>S. let bn = IBLOCK inum S in
     ubind (rsect bn) (\<lambda>buf.
     wsect bn (overwrite buf (64 * (unat inum mod IPB)) (dinode_bytes ip))))"

definition rinode :: "uint \<Rightarrow> (mkfs, inode) uprog" where
  "rinode inum =
     ubind (sys (gets m_sb)) (\<lambda>S. let bn = IBLOCK inum S in
     ubind (rsect bn) (\<lambda>buf.
     uret (dinode_load buf (unat inum mod IPB) dinode0)))"

definition mk_ialloc :: "uint16 \<Rightarrow> (mkfs, uint) uprog" where
  "mk_ialloc type =
     ubind (sys (gets m_freeinode)) (\<lambda>inum.
     useq (call (modify (\<lambda>s. s\<lparr>m_freeinode := inum + 1\<rparr>)))
    (useq (winode inum (dinode0\<lparr>i_type := xshort type, i_nlink := xshort 1, i_size := xint 0\<rparr>))
          (uret inum)))"

definition mk_balloc :: "uint \<Rightarrow> (mkfs, unit) uprog" where
  "mk_balloc used =
     useq (assertM (sint used < int BSIZE * 8))
    (let buf = fold (\<lambda>i b. bm_set b i) [0..<nat (sint used)] zeroes in
     ubind (sys (gets m_sb)) (\<lambda>S. wsect (sb_bmapstart S) buf))"

definition new_block :: "(mkfs, uint) uprog" where
  "new_block =
     ubind (sys (gets m_freeblock)) (\<lambda>b.
     useq (call (modify (\<lambda>s. s\<lparr>m_freeblock := b + 1\<rparr>))) (uret (xint b)))"

definition addr_of :: "inode \<Rightarrow> nat \<Rightarrow> (mkfs, uint \<times> inode) uprog" where
  "addr_of din j =
     ubind (if xint (i_addrs din j) = 0
            then ubind new_block (\<lambda>b. uret (din\<lparr>i_addrs := (i_addrs din)(j := b)\<rparr>))
            else uret din) (\<lambda>din.
     uret (xint (i_addrs din j), din))"

definition block_for :: "inode \<Rightarrow> uint \<Rightarrow> (mkfs, uint \<times> inode) uprog" where
  "block_for din fbn =
     (if fbn < word_of_nat NDIRECT then addr_of din (unat fbn)
      else
        ubind (addr_of din NDIRECT) (\<lambda>(a, din).
        ubind (rsect a) (\<lambda>indirect. let k = unat (fbn - word_of_nat NDIRECT) in
        ubind (if get_le 4 indirect (4 * k) = 0
               then ubind new_block (\<lambda>b. let indirect = put_le 4 indirect (4 * k) (ucast b) in
                    useq (wsect (xint (i_addrs din NDIRECT)) indirect) (uret indirect))
               else uret indirect) (\<lambda>indirect.
        uret (xint (ucast (get_le 4 indirect (4 * k))), din)))))"

definition iappend_turn :: "uint \<times> uint \<times> byte list \<times> inode \<Rightarrow> (mkfs, (uint \<times> uint \<times> byte list \<times> inode) + uint \<times> inode) uprog" where
  "iappend_turn = (\<lambda>(off, n, p, din).
     if sint n > 0 then
       (let fbn = off div word_of_nat BSIZE in
        useq (assertM (fbn < word_of_nat MAXFILE))
       (ubind (block_for din fbn) (\<lambda>(x, din).
        let n1 = min n ((fbn + 1) * word_of_nat BSIZE - off) in
        ubind (rsect x) (\<lambda>buf.
        useq (wsect x (overwrite buf (unat (off - fbn * word_of_nat BSIZE)) (take (unat n1) p)))
             (uret (Inl (off + n1, n - n1, drop (unat n1) p, din)))))))
     else uret (Inr (off, din)))"

definition iappend :: "uint \<Rightarrow> byte list \<Rightarrow> uint \<Rightarrow> (mkfs, unit) uprog" where
  "iappend inum xp n =
     ubind (rinode inum) (\<lambda>din.
     ubind (uloop iappend_turn (xint (i_size din), n, xp, din)) (\<lambda>(off, din).
     winode inum (din\<lparr>i_size := xint off\<rparr>)))"

definition sb_bytes :: "superblock \<Rightarrow> byte list" where
  "sb_bytes S = concat (map (\<lambda>w. le_bytes 4 (ucast w)) [sb_magic S, sb_size S, sb_nblocks S, sb_ninodes S, sb_nlog S,
     sb_logstart S, sb_inodestart S, sb_bmapstart S])"

definition mkfs_sb :: superblock where
  "mkfs_sb = \<lparr>sb_magic = FSMAGIC, sb_size = xint (word_of_nat FSSIZE), sb_nblocks = xint (word_of_nat nblocks),
     sb_ninodes = xint (word_of_nat NINODES), sb_nlog = xint (word_of_nat nlog), sb_logstart = xint 2,
     sb_inodestart = xint (word_of_nat (2 + nlog)), sb_bmapstart = xint (word_of_nat (2 + nlog + ninodeblocks))\<rparr>"

text \<open>\<open>strcpy\<close> into the name of a zeroed entry.\<close>

definition dot_entry :: "byte list \<Rightarrow> uint \<Rightarrow> byte list" where
  "dot_entry name inum = le_bytes 2 (ucast (xshort (ucast inum))) @ overwrite (replicate DIRSIZ 0) 0 (name @ [0])"

text \<open>A host file is the list of the pieces that one \<open>read\<close> after the other returns.\<close>

definition shortname :: "cstring \<Rightarrow> cstring" where
  "shortname arg = (if take 5 arg = bytes ''user/'' then drop 5 arg else arg)"

definition skip_underscore :: "cstring \<Rightarrow> cstring" where
  "skip_underscore name = (if name \<noteq> [] \<and> hd name = 95 then tl name else name)"

definition add_file :: "(cstring \<Rightarrow> byte list list option) \<Rightarrow> uint \<Rightarrow> cstring \<Rightarrow> (mkfs, unit) uprog" where
  "add_file files rootino arg = (let name = shortname arg in
     useq (assertM (47 \<notin> set name))
    (case files arg of None \<Rightarrow> die
     | Some pieces \<Rightarrow> (let name = skip_underscore name in
         ubind (mk_ialloc T_FILE) (\<lambda>inum.
         useq (iappend rootino (dirent_bytes name inum) 16)
              (uforM (takeWhile (\<lambda>buf. buf \<noteq> []) pieces) (\<lambda>buf. iappend inum buf (word_of_nat (length buf))))))))"

definition fix_root :: "uint \<Rightarrow> (mkfs, unit) uprog" where
  "fix_root rootino =
     ubind (rinode rootino) (\<lambda>din.
     let off = xint (i_size din); off = (off div word_of_nat BSIZE + 1) * word_of_nat BSIZE in
     winode rootino (din\<lparr>i_size := xint off\<rparr>))"

definition mkfs_main :: "(cstring \<Rightarrow> bool) \<Rightarrow> (cstring \<Rightarrow> byte list list option) \<Rightarrow> cstring list \<Rightarrow> (mkfs, unit) uprog" where
  "mkfs_main creat files argv =
     (if length argv < 2 then uexit 1
      else if \<not> creat (argv ! 1) then die
      else
        useq (call (modify (\<lambda>s. s\<lparr>m_img := (\<lambda>_. zeroes), m_len := 0, m_sb := mkfs_sb, m_freeblock := word_of_nat nmeta\<rparr>)))
       (useq (uforM [0..<FSSIZE] (\<lambda>i. wsect (word_of_nat i) zeroes))
       (useq (ubind (sys (gets m_sb)) (\<lambda>S. wsect 1 (overwrite zeroes 0 (sb_bytes S))))
       (ubind (mk_ialloc T_DIR) (\<lambda>rootino.
        useq (assertM (rootino = ROOTINO))
       (useq (iappend rootino (dot_entry (bytes ''.'') rootino) 16)
       (useq (iappend rootino (dot_entry (bytes ''..'') rootino) 16)
       (useq (uforM (drop 2 argv) (add_file files rootino))
       (useq (fix_root rootino)
       (ubind (sys (gets m_freeblock)) (\<lambda>used. useq (mk_balloc used) (uexit 0))))))))))))"

section \<open>Integers and sectors\<close>

lemma xshort_id [simp]: "xshort x = x"
  using get_le_le_bytes [of 2 "ucast x" "[]"] by (simp add: xshort_def ucast_take_bit16)

lemma xint_id [simp]: "xint x = x"
  using get_le_le_bytes [of 4 "ucast x" "[]"] by (simp add: xint_def ucast_take_bit32)

lemma sector_small: "unat sec < 4194304 \<Longrightarrow> sector sec = unat sec"
  by (simp add: sector_def unat_word_ariths)

section \<open>What a file of the image holds\<close>

text \<open>The block of the disk that holds block \<open>j\<close> of a file, as the format of \<open>fs.h\<close> says; 0 when there is none.\<close>

definition blk :: "(nat \<Rightarrow> byte list) \<Rightarrow> inode \<Rightarrow> nat \<Rightarrow> uint" where
  "blk d x j = (if j < NDIRECT then i_addrs x j else if i_addrs x NDIRECT = 0 then 0
     else ucast (get_le 4 (d (unat (i_addrs x NDIRECT))) (4 * (j - NDIRECT))))"

definition file_bytes :: "(nat \<Rightarrow> byte list) \<Rightarrow> inode \<Rightarrow> byte list" where
  "file_bytes d x = map (\<lambda>i. d (unat (blk d x (i div BSIZE))) ! (i mod BSIZE)) [0..<unat (i_size x)]"

definition owned :: "(nat \<Rightarrow> byte list) \<Rightarrow> inode \<Rightarrow> nat set" where
  "owned d x = {unat (blk d x j) |j. j < MAXFILE \<and> blk d x j \<noteq> 0} \<union> (if i_addrs x NDIRECT = 0 then {} else {unat (i_addrs x NDIRECT)})"

text \<open>A file has exactly the blocks its size needs, each once, among the blocks that have been handed out, and the rest of
  its last block is zero.\<close>

definition file_ok :: "(nat \<Rightarrow> byte list) \<Rightarrow> nat \<Rightarrow> inode \<Rightarrow> bool" where
  "file_ok d fb x \<longleftrightarrow> unat (i_size x) \<le> MAXFILE * BSIZE
     \<and> (\<forall>j < MAXFILE. blk d x j \<noteq> 0 \<longleftrightarrow> j * BSIZE < unat (i_size x))
     \<and> (i_addrs x NDIRECT \<noteq> 0 \<longleftrightarrow> NDIRECT * BSIZE < unat (i_size x))
     \<and> (\<forall>i < MAXFILE. \<forall>j < MAXFILE. blk d x i \<noteq> 0 \<longrightarrow> blk d x i = blk d x j \<longrightarrow> i = j)
     \<and> (\<forall>j < MAXFILE. i_addrs x NDIRECT \<noteq> 0 \<longrightarrow> blk d x j \<noteq> i_addrs x NDIRECT)
     \<and> owned d x \<subseteq> {nmeta..<fb}
     \<and> (\<forall>i < MAXFILE * BSIZE. unat (i_size x) \<le> i \<longrightarrow> blk d x (i div BSIZE) \<noteq> 0 \<longrightarrow> d (unat (blk d x (i div BSIZE))) ! (i mod BSIZE) = 0)"

text \<open>The number of blocks a file of that size takes.\<close>

definition used :: "nat \<Rightarrow> nat" where
  "used sz = (sz + 1023) div 1024 + (if 12288 < sz then 1 else 0)"

lemma blk_cong:
  "(\<And>b. b \<in> owned d x \<Longrightarrow> d' b = d b) \<Longrightarrow> blk d' x j = blk d x j"
  by (auto simp: blk_def owned_def)

lemma owned_cong: "(\<And>b. b \<in> owned d x \<Longrightarrow> d' b = d b) \<Longrightarrow> owned d' x = owned d x"
  using blk_cong [of d x d'] by (simp add: owned_def)

lemma blk_in_owned: "j < MAXFILE \<Longrightarrow> blk d x j \<noteq> 0 \<Longrightarrow> unat (blk d x j) \<in> owned d x"
  by (auto simp: owned_def)

lemma file_ok_cong: "(\<And>b. b \<in> owned d x \<Longrightarrow> d' b = d b) \<Longrightarrow> file_ok d fb x \<Longrightarrow> file_ok d' fb x"
proof -
  assume same: "\<And>b. b \<in> owned d x \<Longrightarrow> d' b = d b" and ok: "file_ok d fb x"
  have e: "blk d' x = blk d x" "owned d' x = owned d x" using blk_cong [OF same] owned_cong [OF same] by auto
  have z: "d' (unat (blk d x (i div BSIZE))) = d (unat (blk d x (i div BSIZE)))" if "i < MAXFILE * BSIZE" "blk d x (i div BSIZE) \<noteq> 0" for i
    by (rule same, rule blk_in_owned) (use that in simp_all)
  show ?thesis unfolding file_ok_def e using z ok by (auto simp: file_ok_def)
qed

lemma file_blk: "file_ok d fb x \<Longrightarrow> j < MAXFILE \<Longrightarrow> blk d x j \<noteq> 0 \<longleftrightarrow> j * 1024 < unat (i_size x)"
  by (simp add: file_ok_def)

lemma file_indirect: "file_ok d fb x \<Longrightarrow> i_addrs x NDIRECT \<noteq> 0 \<longleftrightarrow> 12288 < unat (i_size x)"
  by (simp add: file_ok_def)

lemma file_blk_inj: "file_ok d fb x \<Longrightarrow> i < MAXFILE \<Longrightarrow> j < MAXFILE \<Longrightarrow> blk d x i \<noteq> 0 \<Longrightarrow> blk d x i = blk d x j \<Longrightarrow> i = j"
  unfolding file_ok_def by blast

lemma file_blk_ne: "file_ok d fb x \<Longrightarrow> j < MAXFILE \<Longrightarrow> i_addrs x NDIRECT \<noteq> 0 \<Longrightarrow> blk d x j \<noteq> i_addrs x NDIRECT"
  unfolding file_ok_def by blast

lemma file_owned: "file_ok d fb x \<Longrightarrow> b \<in> owned d x \<Longrightarrow> nmeta \<le> b \<and> b < fb"
  unfolding file_ok_def by auto

lemma file_bytes_cong:
  assumes ok: "file_ok d fb x" and same: "\<And>b. b \<in> owned d x \<Longrightarrow> d' b = d b"
  shows "file_bytes d' x = file_bytes d x"
proof -
  have "d' (unat (blk d' x (i div BSIZE))) = d (unat (blk d x (i div BSIZE)))" if "i < unat (i_size x)" for i
  proof -
    have "i div BSIZE < MAXFILE" "i div BSIZE * BSIZE < unat (i_size x)" using ok that by (auto simp: file_ok_def)
    then have "unat (blk d x (i div BSIZE)) \<in> owned d x" using ok by (intro blk_in_owned) (auto simp: file_ok_def)
    then show ?thesis using same blk_cong [OF same] by simp
  qed
  then show ?thesis by (simp add: file_bytes_def)
qed

lemma file_ok_mono: "file_ok d fb x \<Longrightarrow> fb \<le> fb' \<Longrightarrow> file_ok d fb' x"
  by (auto simp: file_ok_def)

section \<open>Sectors and blocks of the tool\<close>

definition good :: "mkfs \<Rightarrow> bool" where
  "good s \<longleftrightarrow> (\<forall>b. m_io s b) \<and> m_len s = FSSIZE \<and> (\<forall>b. length (m_img s b) = BSIZE)
     \<and> (\<forall>b \<ge> unat (m_freeblock s). m_img s b = zeroes)"

lemma rsect_run: "good s \<Longrightarrow> unat sec < FSSIZE \<Longrightarrow> rsect sec s = Ok (Inr (m_img s (unat sec))) s"
  by (simp add: rsect_def good_def ubind_def sys_def bind_def gets_def uret_def ret_def sector_small)

lemma wsect_run:
  "good s \<Longrightarrow> unat sec < FSSIZE \<Longrightarrow> wsect sec buf s = Ok (Inr ()) (s\<lparr>m_img := (m_img s)(unat sec := buf)\<rparr>)"
  by (simp add: wsect_def good_def ubind_def sys_def call_def bind_def gets_def modify_def uret_def ret_def sector_small max_def Let_def)

lemma new_block_run: "new_block s = Ok (Inr (m_freeblock s)) (s\<lparr>m_freeblock := m_freeblock s + 1\<rparr>)"
  by (simp add: new_block_def ubind_def useq_def sys_def call_def bind_def gets_def modify_def uret_def ret_def)

lemma mkfs_same: "\<exists>d f. s = s\<lparr>m_img := d, m_freeblock := f\<rparr>" "\<exists>A. x = x\<lparr>i_addrs := A\<rparr>"
proof -
  show "\<exists>d f. s = s\<lparr>m_img := d, m_freeblock := f\<rparr>" by (intro exI [of _ "m_img s"] exI [of _ "m_freeblock s"]) simp
  show "\<exists>A. x = x\<lparr>i_addrs := A\<rparr>" by (intro exI [of _ "i_addrs x"]) simp
qed

lemma blk_size [simp]: "blk d (x\<lparr>i_size := w\<rparr>) = blk d x"
  by (simp add: fun_eq_iff blk_def)

lemma owned_size [simp]: "owned d (x\<lparr>i_size := w\<rparr>) = owned d x"
  by (simp add: owned_def)

text \<open>\<open>grows fb off\<close>: how many blocks the turn at offset \<open>off\<close> allocates.\<close>

definition grows :: "nat \<Rightarrow> nat" where
  "grows off = (if off mod 1024 = 0 then (if off = 12288 then 2 else 1) else 0)"

lemma grows_0: "grows n = 0 \<longleftrightarrow> n div 1024 * 1024 < n"
proof -
  have "n div 1024 * 1024 + n mod 1024 = n" by simp
  then have "n div 1024 * 1024 < n \<longleftrightarrow> n mod 1024 \<noteq> 0" by linarith
  then show ?thesis by (simp add: grows_def)
qed

definition placed :: "mkfs \<Rightarrow> inode \<Rightarrow> nat \<Rightarrow> nat \<Rightarrow> mkfs \<Rightarrow> inode \<Rightarrow> uint \<Rightarrow> bool" where
  "placed s x off j t x' a \<longleftrightarrow>
     good t \<and> (\<exists>d f. t = s\<lparr>m_img := d, m_freeblock := f\<rparr>) \<and> (\<exists>A. x' = x\<lparr>i_addrs := A\<rparr>)
     \<and> unat (m_freeblock t) = unat (m_freeblock s) + grows off
     \<and> (\<forall>i < MAXFILE. blk (m_img t) x' i = (if i = j then a else blk (m_img s) x i))
     \<and> (i_addrs x' NDIRECT = i_addrs x NDIRECT \<and> (i_addrs x NDIRECT = 0 \<longrightarrow> j < NDIRECT)
        \<or> i_addrs x NDIRECT = 0 \<and> unat (i_addrs x' NDIRECT) = unat (m_freeblock s) \<and> off = 12288)
     \<and> a \<noteq> 0 \<and> unat a < unat (m_freeblock t) \<and> (j \<ge> NDIRECT \<longrightarrow> a \<noteq> i_addrs x' NDIRECT)
     \<and> (if grows off = 0 then a = blk (m_img s) x j else unat (m_freeblock s) \<le> unat a \<and> m_img t (unat a) = zeroes)
     \<and> (\<forall>b < unat (m_freeblock s). \<not> (i_addrs x NDIRECT \<noteq> 0 \<and> b = unat (i_addrs x NDIRECT)) \<longrightarrow> m_img t b = m_img s b)"

lemma addr_of_run:
  "addr_of x j s = (if i_addrs x j = 0
     then Ok (Inr (m_freeblock s, x\<lparr>i_addrs := (i_addrs x)(j := m_freeblock s)\<rparr>)) (s\<lparr>m_freeblock := m_freeblock s + 1\<rparr>)
     else Ok (Inr (i_addrs x j, x)) s)"
  by (simp add: addr_of_def ubind_run [where m = "ubind new_block _"] ubind_run [OF new_block_run] ubind_run [OF uret_run] uret_run
      ubind_def bind_def new_block_run)

lemma good_alloc: "good s \<Longrightarrow> unat (m_freeblock s) < FSSIZE \<Longrightarrow> good (s\<lparr>m_freeblock := m_freeblock s + 1\<rparr>)"
  by (simp add: good_def unat_word_ariths)

lemma place_direct:
  assumes g: "good s" and ok: "file_ok (m_img s) (unat (m_freeblock s)) (x\<lparr>i_size := w\<rparr>)"
    and j: "unat fbn = unat w div 1024" "unat fbn < NDIRECT" and space: "unat (m_freeblock s) + grows (unat w) \<le> FSSIZE"
    and fb: "nmeta \<le> unat (m_freeblock s)"
  shows "\<exists>t x' a. block_for x fbn s = Ok (Inr (a, x')) t \<and> placed s x (unat w) (unat fbn) t x' a"
proof -
  let ?j = "unat fbn"
  have lt: "fbn < word_of_nat NDIRECT" using j by (simp add: word_less_nat_alt)
  have grows0: "grows (unat w) = 0 \<longleftrightarrow> ?j * 1024 < unat w" unfolding j(1) by (rule grows_0)
  then have nz: "i_addrs x ?j \<noteq> 0 \<longleftrightarrow> grows (unat w) = 0"
    using file_blk [OF ok, of ?j] j(2) by (simp add: blk_def)
  show ?thesis
  proof (cases "grows (unat w) = 0")
    case True
    then have run: "block_for x fbn s = Ok (Inr (i_addrs x ?j, x)) s" using nz lt by (simp add: block_for_def addr_of_run)
    have b: "i_addrs x ?j = blk (m_img s) x ?j" using j by (simp add: blk_def)
    then have "unat (i_addrs x ?j) \<in> owned (m_img s) x" using nz True j by (simp add: blk_in_owned)
    then have "unat (i_addrs x ?j) < unat (m_freeblock s)" using file_owned [OF ok] by simp
    then have "placed s x (unat w) ?j s x (i_addrs x ?j)"
      using g True nz b j unfolding placed_def by (simp add: mkfs_same)
    then show ?thesis using run by blast
  next
    case False
    let ?f = "m_freeblock s"
    let ?t = "s\<lparr>m_freeblock := ?f + 1\<rparr>" let ?x = "x\<lparr>i_addrs := (i_addrs x)(?j := ?f)\<rparr>"
    have run: "block_for x fbn s = Ok (Inr (?f, ?x)) ?t" using False nz lt by (simp add: block_for_def addr_of_run)
    have g1: "grows (unat w) = 1" using False j by (auto simp: grows_def split: if_splits)
    have f: "unat (?f + 1) = unat ?f + 1" using space g1 by (simp add: unat_word_ariths)
    have gt: "good ?t" using g space g1 by (intro good_alloc) auto
    have ex: "\<exists>d f. ?t = s\<lparr>m_img := d, m_freeblock := f\<rparr>" by (intro exI [of _ "m_img s"] exI [of _ "?f + 1"]) simp
    have bl: "blk (m_img ?t) ?x i = (if i = ?j then ?f else blk (m_img s) x i)" for i using j by (simp add: blk_def)
    have "m_img ?t (unat ?f) = zeroes" using g by (simp add: good_def)
    moreover have "?f \<noteq> 0" using fb by auto
    ultimately have "placed s x (unat w) ?j ?t ?x ?f"
      unfolding placed_def using gt ex bl f g1 j by auto
    then show ?thesis using run by blast
  qed
qed

lemma le_value_small: "length xs \<le> n \<Longrightarrow> n \<le> 8 \<Longrightarrow> take_bit (8 * n) (le_value xs) = le_value xs"
proof (induction xs arbitrary: n)
  case (Cons b xs)
  then obtain m where m: "n = Suc m" by (cases n) auto
  have "take_bit (8 * m) (le_value xs) = le_value xs" using Cons m by simp
  then have i: "bit (le_value xs) i \<Longrightarrow> i < 8 * m" for i by (metis bit_take_bit_iff)
  have "j < 8 * n" if "bit (le_value (b # xs)) j" for j
  proof (cases "j < 8")
    case False
    then have "bit (le_value xs) (j - 8)" using that by (auto simp: bit_simps dest: bit_imp_le_length)
    then show ?thesis using i [of "j - 8"] m by simp
  qed (use m in simp)
  then show ?case by (intro bit_word_eqI) (metis bit_take_bit_iff)
qed simp

lemma get_le_4_zero: "(ucast (get_le 4 d i) :: uint) = 0 \<longleftrightarrow> get_le 4 d i = 0"
proof -
  have "take_bit 32 (get_le 4 d i) = get_le 4 d i" using le_value_small [of "take 4 (drop i d)" 4] by (simp add: get_le_def)
  moreover have "take_bit 32 (get_le 4 d i) = (ucast (ucast (get_le 4 d i) :: uint) :: uint64)"
    by (rule bit_word_eqI) (auto simp: bit_simps)
  ultimately show ?thesis by (metis ucast_0)
qed

lemma get_le_zeroes: "get_le n zeroes i = 0"
proof -
  have "le_value (replicate m 0) = 0" for m by (induction m) simp_all
  then show ?thesis by (simp add: get_le_def zeroes_def)
qed

lemma block_for_indirect_run:
  assumes j: "NDIRECT \<le> unat fbn" "unat fbn < MAXFILE" and a: "addr_of x NDIRECT s = Ok (Inr (a, x1)) s1" "i_addrs x1 NDIRECT = a"
    and g: "good s1" "unat a < FSSIZE"
      "get_le 4 (m_img s1 (unat a)) (4 * (unat fbn - NDIRECT)) = 0 \<Longrightarrow> unat (m_freeblock s1) < FSSIZE"
  shows "block_for x fbn s = (let d = m_img s1 (unat a); k = unat fbn - NDIRECT; f = m_freeblock s1 in
      if get_le 4 d (4 * k) = 0
      then Ok (Inr (f, x1)) (s1\<lparr>m_freeblock := f + 1, m_img := (m_img s1)(unat a := put_le 4 d (4 * k) (ucast f))\<rparr>)
      else Ok (Inr (ucast (get_le 4 d (4 * k)), x1)) s1)"
proof -
  let ?d = "m_img s1 (unat a)" and ?k = "unat (fbn - word_of_nat NDIRECT)" and ?f = "m_freeblock s1"
  have lt: "\<not> fbn < word_of_nat NDIRECT" using j by (simp add: word_less_nat_alt)
  have k: "?k = unat fbn - NDIRECT" using j by (simp add: unat_sub word_le_nat_alt)
  have len: "length ?d = 1024" using g(1) by (simp add: good_def)
  have rd: "ucast (get_le 4 (put_le 4 ?d (4 * ?k) (ucast ?f)) (4 * ?k)) = ?f"
    using j len k by (simp add: get_put_same ucast_take_bit32)
  show ?thesis
  proof (cases "get_le 4 ?d (4 * ?k) = 0")
    case True
    then have "unat ?f < FSSIZE" using g(3) k by simp
    then have w: "wsect a bs (s1\<lparr>m_freeblock := ?f + 1\<rparr>)
        = Ok (Inr ()) (s1\<lparr>m_freeblock := ?f + 1, m_img := (m_img s1)(unat a := bs)\<rparr>)" for bs
      using wsect_run [OF good_alloc [OF g(1)] g(2)] by simp
    show ?thesis
      unfolding block_for_def if_not_P [OF lt] k [symmetric]
      using rd True by (simp add: Let_def ubind_def bind_def a rsect_run [OF g(1,2)] new_block_run useq_def w uret_run del: NDIRECT_def)
  next
    case False
    then show ?thesis
      unfolding block_for_def if_not_P [OF lt] k [symmetric]
      by (simp add: Let_def ubind_run [where m = "addr_of x NDIRECT" and s = s, OF a(1)]
        ubind_run [where m = "rsect a" and s = s1, OF rsect_run [OF g(1,2)]] ubind_run [OF uret_run] uret_run del: NDIRECT_def)
  qed
qed

lemma good_upd:
  assumes "good s" "unat (m_freeblock s) < FSSIZE" "unat b \<le> unat (m_freeblock s)" "length bs = BSIZE"
  shows "good (s\<lparr>m_freeblock := m_freeblock s + 1, m_img := (m_img s)(unat b := bs)\<rparr>)"
proof -
  have "unat (m_freeblock s + 1) = unat (m_freeblock s) + 1" using assms(2) by (simp add: unat_word_ariths)
  then show ?thesis using assms by (auto simp: good_def)
qed

lemma indirect_put:
  "length d = 1024 \<Longrightarrow> i < 256 \<Longrightarrow> k < 256
    \<Longrightarrow> get_le 4 (put_le 4 d (4 * k) w) (4 * i) = (if i = k then take_bit 32 w else get_le 4 d (4 * i))"
proof -
  assume a: "length d = 1024" "i < 256" "k < 256"
  have "i = k \<or> 4 * i + 4 \<le> 4 * k \<or> 4 * k + 4 \<le> 4 * i" by linarith
  then show ?thesis using a get_put_same [of "4 * k" d w] get_put_other [of "4 * k" d "4 * i" w] by auto
qed

lemma place_indirect:
  assumes g: "good s" and ok: "file_ok (m_img s) (unat (m_freeblock s)) (x\<lparr>i_size := w\<rparr>)"
    and j: "unat fbn = unat w div 1024" "NDIRECT \<le> unat fbn" "unat fbn < MAXFILE"
    and space: "unat (m_freeblock s) + grows (unat w) \<le> FSSIZE" and fb: "nmeta \<le> unat (m_freeblock s)"
  shows "\<exists>t x' a. block_for x fbn s = Ok (Inr (a, x')) t \<and> placed s x (unat w) (unat fbn) t x' a"
proof -
  let ?j = "unat fbn" and ?f = "m_freeblock s" and ?i = "i_addrs x NDIRECT"
  have w: "12288 \<le> unat w" using j by simp
  have grows0: "grows (unat w) = 0 \<longleftrightarrow> blk (m_img s) x ?j \<noteq> 0"
    using file_blk [OF ok j(3)] grows_0 [of "unat w"] by (simp add: j(1))
  show ?thesis
  proof (cases "?i = 0")
    case False
    have i: "unat ?i < unat ?f" using file_owned [OF ok, of "unat ?i"] False by (simp add: owned_def)
    let ?d = "m_img s (unat ?i)"
    have len: "length ?d = 1024" using g by (simp add: good_def)
    have a: "addr_of x NDIRECT s = Ok (Inr (?i, x)) s" using False by (simp add: addr_of_run del: NDIRECT_def)
    have e: "get_le 4 ?d (4 * (?j - NDIRECT)) = 0 \<longleftrightarrow> blk (m_img s) x ?j = 0"
      using False j(2) by (simp add: blk_def get_le_4_zero)
    have w2: "unat w \<noteq> 12288" using file_indirect [OF ok] False by auto
    show ?thesis
    proof (cases "grows (unat w) = 0")
      case True
      let ?a = "blk (m_img s) x ?j"
      have "?i \<noteq> 0 \<and> unat ?i < FSSIZE" "unat ?f \<le> FSSIZE" using False i space by auto
      have bv: "blk (m_img s) x ?j = ucast (get_le 4 ?d (4 * (?j - NDIRECT)))" using False j(2) by (simp add: blk_def)
      have run: "block_for x fbn s = Ok (Inr (?a, x)) s"
        using block_for_indirect_run [OF j(2,3) a refl g] i space e True grows0 unfolding bv by (simp add: Let_def)
      have "unat ?a < unat ?f" using file_owned [OF ok] blk_in_owned [OF j(3)] True grows0 by auto
      then have "placed s x (unat w) ?j s x ?a"
        using g True grows0 False j file_blk_ne [OF ok j(3)] unfolding placed_def by (simp add: mkfs_same)
      then show ?thesis using run by blast
    next
      case False2: False
      then have g1: "grows (unat w) = 1" using w2 by (auto simp: grows_def split: if_splits)
      have lim: "unat ?f < FSSIZE" using space g1 by simp
      have f: "unat (?f + 1) = unat ?f + 1" using lim by (simp add: unat_word_ariths)
      let ?p = "put_le 4 ?d (4 * (?j - NDIRECT)) (ucast ?f)"
      let ?t = "s\<lparr>m_freeblock := ?f + 1, m_img := (m_img s)(unat ?i := ?p)\<rparr>"
      have lp: "length ?p = BSIZE" using len j by (simp add: length_put_le)
      have run: "block_for x fbn s = Ok (Inr (?f, x)) ?t"
        using block_for_indirect_run [OF j(2,3) a refl g] i lim e False2 grows0 by (simp add: Let_def)
      have gt: "good ?t" by (rule good_upd [OF g lim _ lp]) (use i in simp)
      have ex: "\<exists>d f. ?t = s\<lparr>m_img := d, m_freeblock := f\<rparr>" by (intro exI [of _ "(m_img s)(unat ?i := ?p)"] exI [of _ "?f + 1"]) simp
      have bl: "blk (m_img ?t) x n = (if n = ?j then ?f else blk (m_img s) x n)" if "n < MAXFILE" for n
      proof (cases "n < NDIRECT")
        case True
        then show ?thesis using j(2) by (simp add: blk_def)
      next
        case n: False
        have "get_le 4 ?p (4 * (n - NDIRECT)) = (if n = ?j then ucast ?f else get_le 4 ?d (4 * (n - NDIRECT)))"
          using indirect_put [of ?d "n - NDIRECT" "?j - NDIRECT" "ucast ?f"] n that j(2,3) len by (auto simp: take_bit_ucast32)
        then show ?thesis using n False by (simp add: blk_def)
      qed
      have "m_img ?t (unat ?f) = zeroes" using g i by (simp add: good_def)
      moreover have "?f \<noteq> 0" using fb by auto
      moreover have "?f \<noteq> ?i" using i by auto
      ultimately have "placed s x (unat w) ?j ?t x ?f"
        unfolding placed_def using gt ex bl f g1 j False by (auto simp: mkfs_same)
      then show ?thesis using run by blast
    qed
  next
    case True
    then have w: "unat w = 12288" "?j = 12" using file_indirect [OF ok] j by auto
    have g2: "grows (unat w) = 2" using w by (simp add: grows_def)
    have f: "unat (?f + 1) = unat ?f + 1" "unat (?f + 1 + 1) = unat ?f + 2" using space g2 by (simp_all add: unat_word_ariths)
    let ?s1 = "s\<lparr>m_freeblock := ?f + 1\<rparr>" let ?x = "x\<lparr>i_addrs := (i_addrs x)(NDIRECT := ?f)\<rparr>"
    have g1: "good ?s1" by (rule good_alloc [OF g]) (use space g2 in simp)
    have a: "addr_of x NDIRECT s = Ok (Inr (?f, ?x)) ?s1" using True by (simp add: addr_of_run del: NDIRECT_def)
    have d: "m_img s (unat ?f) = zeroes" using g by (simp add: good_def)
    let ?p = "put_le 4 zeroes 0 (ucast (?f + 1))"
    let ?t = "s\<lparr>m_freeblock := ?f + 1 + 1, m_img := (m_img s)(unat ?f := ?p)\<rparr>"
    have lz: "length zeroes = 1024" by (simp add: zeroes_def)
    have run: "block_for x fbn s = Ok (Inr (?f + 1, ?x)) ?t"
      using block_for_indirect_run [OF j(2,3) a _ g1] space g2 f w by (simp add: Let_def d get_le_zeroes)
    have gt: "good ?t" using good_upd [OF g1, of ?f ?p] f space g2 lz by (simp add: length_put_le)
    have ex: "\<exists>d f. ?t = s\<lparr>m_img := d, m_freeblock := f\<rparr>" by (intro exI [of _ "(m_img s)(unat ?f := ?p)"] exI [of _ "?f + 1 + 1"]) simp
    have fnz: "?f \<noteq> 0" "?f + 1 \<noteq> 0" "?f + 1 \<noteq> ?f" using fb f by (auto simp: word_unat_eq_iff)
    have bl: "blk (m_img ?t) ?x n = (if n = ?j then ?f + 1 else blk (m_img s) x n)" if "n < MAXFILE" for n
    proof (cases "n < NDIRECT")
      case True
      then show ?thesis using w by (simp add: blk_def)
    next
      case n: False
      have "get_le 4 ?p (4 * (n - NDIRECT)) = (if n = ?j then ucast (?f + 1) else 0)"
        using indirect_put [of zeroes "n - NDIRECT" 0 "ucast (?f + 1)"] n that w lz
        by (auto simp: take_bit_ucast32 get_le_zeroes)
      then show ?thesis using n True fnz by (simp add: blk_def)
    qed
    have "m_img ?t (unat (?f + 1)) = zeroes" using g f by (simp add: good_def)
    then have "placed s x (unat w) ?j ?t ?x (?f + 1)"
      unfolding placed_def using gt ex bl f g2 w True fnz by (auto simp: mkfs_same)
    then show ?thesis using run by blast
  qed
qed

lemma place:
  assumes "good s" "file_ok (m_img s) (unat (m_freeblock s)) (x\<lparr>i_size := w\<rparr>)" "unat fbn = unat w div 1024" "unat fbn < MAXFILE"
    "unat (m_freeblock s) + grows (unat w) \<le> FSSIZE" "nmeta \<le> unat (m_freeblock s)"
  shows "\<exists>t x' a. block_for x fbn s = Ok (Inr (a, x')) t \<and> placed s x (unat w) (unat fbn) t x' a"
  using place_direct [OF assms(1-3) _ assms(5,6)] place_indirect [OF assms(1-3) _ assms(4-6)] by (cases "unat fbn < NDIRECT") (simp_all del: NDIRECT_def)

section \<open>Appending to a file\<close>

definition appended :: "mkfs \<Rightarrow> inode \<Rightarrow> uint \<Rightarrow> byte list \<Rightarrow> mkfs \<Rightarrow> inode \<Rightarrow> uint \<Rightarrow> bool" where
  "appended s x w bs t x' w' \<longleftrightarrow>
     good t \<and> (\<exists>d f. t = s\<lparr>m_img := d, m_freeblock := f\<rparr>) \<and> (\<exists>A. x' = x\<lparr>i_addrs := A\<rparr>)
     \<and> file_ok (m_img t) (unat (m_freeblock t)) (x'\<lparr>i_size := w'\<rparr>) \<and> unat w' = unat w + length bs
     \<and> file_bytes (m_img t) (x'\<lparr>i_size := w'\<rparr>) = file_bytes (m_img s) (x\<lparr>i_size := w\<rparr>) @ bs
     \<and> unat (m_freeblock t) + used (unat w) = unat (m_freeblock s) + used (unat w')
     \<and> (\<forall>b < unat (m_freeblock s). b \<notin> owned (m_img s) x \<longrightarrow> m_img t b = m_img s b)
     \<and> owned (m_img t) x' \<subseteq> owned (m_img s) x \<union> {unat (m_freeblock s)..<unat (m_freeblock t)}"

lemma used_grows: "0 < n \<Longrightarrow> n \<le> 1024 - off mod 1024 \<Longrightarrow> used (off + n) = used off + grows off"
proof -
  assume n: "0 < n" "n \<le> 1024 - off mod 1024"
  obtain q r where r: "off mod 1024 = r" and q: "off = q * 1024 + r" "r < 1024"
    by (rule that [of "off mod 1024" "off div 1024"]) simp_all
  have n': "n + r \<le> 1024" using n(2) q(2) unfolding r by linarith
  have "1024 * (q + 1) \<le> off + n + 1023" "off + n + 1023 < 1024 * Suc (q + 1)" using n(1) n' q by simp_all
  then have 1: "(off + n + 1023) div 1024 = q + 1" by (rule div_nat_eqI)
  have 2: "(off + 1023) div 1024 = (if r = 0 then q else q + 1)"
    by (rule div_nat_eqI) (use q in \<open>simp_all split: if_splits\<close>)
  have 3: "12288 < off + n \<longleftrightarrow> 12 \<le> q" using n(1) n' q by linarith
  have 4: "12288 < off \<longleftrightarrow> 12 < q \<or> 12 = q \<and> r \<noteq> 0" using q by linarith
  have "q = 12 \<and> r = 0" if "off = 12288"
  proof -
    have "12 \<le> q" using q that by linarith
    moreover have "q \<le> 12" using q that by linarith
    ultimately have q12: "q = 12" by simp
    show ?thesis using q that unfolding q12 by simp
  qed
  then have 5: "off = 12288 \<longleftrightarrow> q = 12 \<and> r = 0" using q by auto
  show ?thesis unfolding used_def grows_def 1 2 3 4 5 r by auto
qed

lemma placed_ne:
  assumes p: "placed s x (unat w) j t x' a" and ok: "file_ok (m_img s) (unat (m_freeblock s)) (x\<lparr>i_size := w\<rparr>)" and j: "j < MAXFILE" "j = unat w div 1024"
    and nz: "i_addrs x' NDIRECT \<noteq> 0"
  shows "a \<noteq> i_addrs x' NDIRECT"
proof (cases "j < NDIRECT")
  case False
  then show ?thesis using p by (simp add: placed_def)
next
  case True
  show ?thesis
  proof (cases "i_addrs x NDIRECT = 0")
    case True2: True
    then have "unat w = 12288" using p nz by (auto simp: placed_def)
    then show ?thesis using True j(2) by simp
  next
    case False
    then have same: "i_addrs x' NDIRECT = i_addrs x NDIRECT" using p by (auto simp: placed_def)
    have "unat (i_addrs x NDIRECT) < unat (m_freeblock s)" using file_owned [OF ok, of "unat (i_addrs x NDIRECT)"] False by (simp add: owned_def)
    then show ?thesis using p same file_blk_ne [OF ok j(1)] False by (auto simp: placed_def split: if_splits)
  qed
qed

lemma nth_overwrite:
  assumes "off + length bs \<le> length d"
  shows "i < off \<Longrightarrow> overwrite d off bs ! i = d ! i" "k < length bs \<Longrightarrow> overwrite d off bs ! (off + k) = bs ! k"
    "off + length bs \<le> i \<Longrightarrow> i < length d \<Longrightarrow> overwrite d off bs ! i = d ! i"
  using assms by (auto simp: overwrite_def nth_append)

text \<open>The pure part of a turn: the block that was found or allocated is filled from the offset on.\<close>

definition fill_at :: "mkfs \<Rightarrow> inode \<Rightarrow> uint \<Rightarrow> nat \<Rightarrow> mkfs \<Rightarrow> inode \<Rightarrow> uint \<Rightarrow> byte list \<Rightarrow> mkfs \<Rightarrow> uint \<Rightarrow> bool" where
  "fill_at s x w j t x' a bs u w' \<longleftrightarrow> placed s x (unat w) j t x' a \<and> file_ok (m_img s) (unat (m_freeblock s)) (x\<lparr>i_size := w\<rparr>)
     \<and> j = unat w div 1024 \<and> j < MAXFILE \<and> unat w' = unat w + length bs \<and> bs \<noteq> [] \<and> length bs \<le> 1024 - unat w mod 1024
     \<and> nmeta \<le> unat (m_freeblock s)
     \<and> u = t\<lparr>m_img := (m_img t)(unat a := overwrite (m_img t (unat a)) (unat w mod 1024) bs)\<rparr>"

lemma fill_range:
  assumes "fill_at s x w j t x' a bs u w'"
  shows "unat w = j * 1024 + unat w mod 1024" "j * 1024 \<le> unat w" "unat w < (j + 1) * 1024" "unat w' \<le> (j + 1) * 1024" "unat w < unat w'"
proof -
  have f: "j = unat w div 1024" "unat w' = unat w + length bs" "bs \<noteq> []" "length bs \<le> 1024 - unat w mod 1024"
    using assms by (simp_all add: fill_at_def)
  obtain r where r: "unat w mod 1024 = r" by simp
  have "j * 1024 + r = unat w" "r < 1024" unfolding f(1) r [symmetric] by simp_all
  moreover have "0 < length bs" using f(3) by simp
  ultimately show "unat w = j * 1024 + unat w mod 1024" "j * 1024 \<le> unat w" "unat w < (j + 1) * 1024" "unat w' \<le> (j + 1) * 1024" "unat w < unat w'"
    using f(2,4) unfolding r by simp_all
qed

lemma fill_old:
  assumes "fill_at s x w j t x' a bs u w'" "i < MAXFILE" "blk (m_img s) x i \<noteq> 0"
  shows "unat (blk (m_img s) x i) < unat (m_freeblock s)" "m_img t (unat (blk (m_img s) x i)) = m_img s (unat (blk (m_img s) x i))"
proof -
  have ok: "file_ok (m_img s) (unat (m_freeblock s)) (x\<lparr>i_size := w\<rparr>)"
    and fr: "\<And>b. b < unat (m_freeblock s) \<Longrightarrow> \<not> (i_addrs x NDIRECT \<noteq> 0 \<and> b = unat (i_addrs x NDIRECT)) \<Longrightarrow> m_img t b = m_img s b"
    using assms(1) by (auto simp: fill_at_def placed_def)
  show low: "unat (blk (m_img s) x i) < unat (m_freeblock s)" using file_owned [OF ok] blk_in_owned [OF assms(2,3)] by auto
  show "m_img t (unat (blk (m_img s) x i)) = m_img s (unat (blk (m_img s) x i))"
    by (rule fr [OF low]) (use file_blk_ne [OF ok assms(2)] in \<open>auto simp: word_unat_eq_iff\<close>)
qed

lemma fill_block:
  assumes F: "fill_at s x w j t x' a bs u w'"
  shows "a \<noteq> 0" "unat a < unat (m_freeblock u)"
    "a = blk (m_img s) x j \<and> blk (m_img s) x j \<noteq> 0 \<or> unat (m_freeblock s) \<le> unat a \<and> blk (m_img s) x j = 0 \<and> m_img t (unat a) = zeroes"
    "i < MAXFILE \<Longrightarrow> blk (m_img u) x' i = (if i = j then a else blk (m_img s) x i)"
    "i < MAXFILE \<Longrightarrow> i \<noteq> j \<Longrightarrow> a \<noteq> blk (m_img s) x i"
    "i_addrs x' NDIRECT \<noteq> 0 \<Longrightarrow> a \<noteq> i_addrs x' NDIRECT"
proof -
  have p: "placed s x (unat w) j t x' a" and ok: "file_ok (m_img s) (unat (m_freeblock s)) (x\<lparr>i_size := w\<rparr>)"
    and j: "j = unat w div 1024" "j < MAXFILE" and u: "u = t\<lparr>m_img := (m_img t)(unat a := overwrite (m_img t (unat a)) (unat w mod 1024) bs)\<rparr>"
    using F unfolding fill_at_def by blast+
  show a: "a \<noteq> 0" and "unat a < unat (m_freeblock u)" using p u by (auto simp: placed_def)
  have aa: "if grows (unat w) = 0 then a = blk (m_img s) x j else unat (m_freeblock s) \<le> unat a \<and> m_img t (unat a) = zeroes"
    and b1: "\<And>i. i < MAXFILE \<Longrightarrow> blk (m_img t) x' i = (if i = j then a else blk (m_img s) x i)" using p by (auto simp: placed_def)
  show fresh: "a = blk (m_img s) x j \<and> blk (m_img s) x j \<noteq> 0 \<or> unat (m_freeblock s) \<le> unat a \<and> blk (m_img s) x j = 0 \<and> m_img t (unat a) = zeroes"
    using aa a file_blk [OF ok j(2)] grows_0 [of "unat w"] by (auto simp: j(1) split: if_splits)
  show ne: "i_addrs x' NDIRECT \<noteq> 0 \<Longrightarrow> a \<noteq> i_addrs x' NDIRECT" by (rule placed_ne [OF p ok j(2,1)])
  show "blk (m_img u) x' i = (if i = j then a else blk (m_img s) x i)" if "i < MAXFILE"
  proof -
    have "blk (m_img u) x' i = blk (m_img t) x' i" using ne by (auto simp: blk_def u word_unat_eq_iff)
    then show ?thesis using b1 [OF that] by simp
  qed
  show "a \<noteq> blk (m_img s) x i" if "i < MAXFILE" "i \<noteq> j"
    using fresh file_blk_inj [OF ok j(2) that(1)] that fill_old(1) [OF F that(1)] a by fastforce
qed

lemma fill_owned:
  assumes F: "fill_at s x w j t x' a bs u w'"
  shows "owned (m_img u) x' \<subseteq> owned (m_img s) x \<union> {unat (m_freeblock s)..<unat (m_freeblock u)}"
proof
  have ind: "i_addrs x' NDIRECT = i_addrs x NDIRECT \<or> unat (i_addrs x' NDIRECT) = unat (m_freeblock s) \<and> unat w = 12288"
    and f: "unat (m_freeblock u) = unat (m_freeblock s) + grows (unat w)"
    using F by (auto simp: fill_at_def placed_def)
  fix b assume "b \<in> owned (m_img u) x'"
  then consider i where "i < MAXFILE" "blk (m_img u) x' i \<noteq> 0" "b = unat (blk (m_img u) x' i)"
    | "i_addrs x' NDIRECT \<noteq> 0" "b = unat (i_addrs x' NDIRECT)" unfolding owned_def by (auto split: if_splits)
  then show "b \<in> owned (m_img s) x \<union> {unat (m_freeblock s)..<unat (m_freeblock u)}"
  proof cases
    case 1
    then show ?thesis using fill_block [OF F] blk_in_owned [of i "m_img s" x] by (auto split: if_splits)
  next
    case 2
    then show ?thesis using ind f by (auto simp: owned_def grows_def)
  qed
qed

lemma fill_indirect:
  assumes F: "fill_at s x w j t x' a bs u w'"
  shows "i_addrs x' NDIRECT \<noteq> 0 \<longleftrightarrow> 12288 < unat w'"
    "i < MAXFILE \<Longrightarrow> i_addrs x' NDIRECT \<noteq> 0 \<Longrightarrow> blk (m_img u) x' i \<noteq> i_addrs x' NDIRECT"
proof -
  have ok: "file_ok (m_img s) (unat (m_freeblock s)) (x\<lparr>i_size := w\<rparr>)" and fb: "nmeta \<le> unat (m_freeblock s)"
    and ind: "i_addrs x' NDIRECT = i_addrs x NDIRECT \<and> (i_addrs x NDIRECT = 0 \<longrightarrow> j < NDIRECT)
        \<or> i_addrs x NDIRECT = 0 \<and> unat (i_addrs x' NDIRECT) = unat (m_freeblock s) \<and> unat w = 12288"
    using F by (auto simp: fill_at_def placed_def)
  have "i_addrs x NDIRECT \<noteq> 0 \<longleftrightarrow> 12288 < unat w" using file_indirect [OF ok] by simp
  moreover have "j < 12 \<Longrightarrow> unat w' \<le> 12288" using fill_range(4) [OF F] by simp
  moreover have "unat (i_addrs x' NDIRECT) = unat (m_freeblock s) \<Longrightarrow> i_addrs x' NDIRECT \<noteq> 0" using fb by auto
  ultimately show "i_addrs x' NDIRECT \<noteq> 0 \<longleftrightarrow> 12288 < unat w'" using ind fill_range(5) [OF F] by auto
  show "blk (m_img u) x' i \<noteq> i_addrs x' NDIRECT" if i: "i < MAXFILE" "i_addrs x' NDIRECT \<noteq> 0"
  proof (cases "i = j \<or> blk (m_img s) x i = 0")
    case True
    then show ?thesis using fill_block [OF F] i by (auto split: if_splits)
  next
    case False
    then have "blk (m_img u) x' i = blk (m_img s) x i" "unat (blk (m_img s) x i) < unat (m_freeblock s)"
      using fill_block(4) [OF F i(1)] fill_old(1) [OF F i(1)] by auto
    then show ?thesis using ind i(2) file_blk_ne [OF ok i(1)] by auto
  qed
qed

text \<open>The byte at \<open>i\<close> of the file, before and after.\<close>

lemma fill_byte:
  assumes F: "fill_at s x w j t x' a bs u w'" and i: "i div 1024 < MAXFILE" "blk (m_img u) x' (i div 1024) \<noteq> 0"
  shows "m_img u (unat (blk (m_img u) x' (i div 1024))) ! (i mod 1024) =
    (if unat w \<le> i \<and> i < unat w' then bs ! (i - unat w)
     else if i div 1024 = j \<and> blk (m_img s) x j = 0 then 0 else m_img s (unat (blk (m_img s) x (i div 1024))) ! (i mod 1024))"
proof -
  let ?r = "unat w mod 1024" and ?d = "m_img t (unat a)"
  have len: "length ?d = 1024" "?r + length bs \<le> length ?d" and w': "unat w' = unat w + length bs"
    and u: "u = t\<lparr>m_img := (m_img t)(unat a := overwrite ?d ?r bs)\<rparr>"
    using F by (auto simp: fill_at_def placed_def good_def)
  have idx: "unat w \<le> i \<and> i < unat w' \<longleftrightarrow> i div 1024 = j \<and> ?r \<le> i mod 1024 \<and> i mod 1024 < ?r + length bs"
  proof (cases "i div 1024 = j")
    case True
    then have "i = j * 1024 + i mod 1024" using div_mult_mod_eq [of i 1024] by simp
    then show ?thesis using True fill_range(1) [OF F] w' by linarith
  next
    case False
    then show ?thesis using fill_range(2,4) [OF F] div_mult_mod_eq [of i 1024] by (auto simp: nat_less_iff)
  qed
  show ?thesis
  proof (cases "i div 1024 = j")
    case False
    then have "blk (m_img u) x' (i div 1024) = blk (m_img s) x (i div 1024)" using fill_block(4) [OF F i(1)] by simp
    moreover have "a \<noteq> blk (m_img s) x (i div 1024)" using fill_block(5) [OF F i(1) False] .
    ultimately show ?thesis using False idx fill_old(2) [OF F i(1)] i(2) by (auto simp: u word_unat_eq_iff)
  next
    case True
    then have b: "m_img u (unat (blk (m_img u) x' (i div 1024))) = overwrite ?d ?r bs" using fill_block(4) [OF F i(1)] by (simp add: u)
    have k: "i mod 1024 < ?r + length bs \<Longrightarrow> ?r \<le> i mod 1024 \<Longrightarrow> i - unat w = i mod 1024 - ?r"
      using True fill_range(1) [OF F] div_mult_mod_eq [of i 1024] by linarith
    show ?thesis
    proof (cases "?r \<le> i mod 1024 \<and> i mod 1024 < ?r + length bs")
      case in_new: True
      then have "i mod 1024 - ?r < length bs" by linarith
      then show ?thesis using in_new b idx True k nth_overwrite(2) [OF len(2), of "i mod 1024 - ?r"] by auto
    next
      case False
      then have "overwrite ?d ?r bs ! (i mod 1024) = ?d ! (i mod 1024)"
        using nth_overwrite(1,3) [OF len(2), of "i mod 1024"] len(1) by auto
      moreover have "?d ! (i mod 1024) = (if blk (m_img s) x j = 0 then 0 else m_img s (unat (blk (m_img s) x (i div 1024))) ! (i mod 1024))"
        using fill_block(3) [OF F] fill_old(2) [OF F i(1)] True by (auto simp: zeroes_def)
      ultimately show ?thesis using b idx True False by auto
    qed
  qed
qed

lemma fill_file_ok:
  assumes F: "fill_at s x w j t x' a bs u w'"
  shows "file_ok (m_img u) (unat (m_freeblock u)) (x'\<lparr>i_size := w'\<rparr>)"
proof -
  let ?d = "m_img s" and ?d2 = "m_img u"
  have ok: "file_ok ?d (unat (m_freeblock s)) (x\<lparr>i_size := w\<rparr>)" and j: "j < MAXFILE" and fb: "nmeta \<le> unat (m_freeblock s)"
    and f: "unat (m_freeblock u) = unat (m_freeblock s) + grows (unat w)"
    using F by (auto simp: fill_at_def placed_def)
  note b2 = fill_block(4) [OF F] and wj = fill_range [OF F]
  show ?thesis
    unfolding file_ok_def
  proof (intro conjI allI impI)
    fix i assume i: "i < MAXFILE"
    show "(blk ?d2 (x'\<lparr>i_size := w'\<rparr>) i \<noteq> 0) = (i * BSIZE < unat (i_size (x'\<lparr>i_size := w'\<rparr>)))"
      using b2 [OF i] fill_block(1) [OF F] file_blk [OF ok i] wj by (cases "i = j") auto
    show "blk ?d2 (x'\<lparr>i_size := w'\<rparr>) i \<noteq> i_addrs (x'\<lparr>i_size := w'\<rparr>) NDIRECT" if "i_addrs (x'\<lparr>i_size := w'\<rparr>) NDIRECT \<noteq> 0"
      using fill_indirect(2) [OF F i] that by simp
  next
    fix i k assume "i < MAXFILE" "k < MAXFILE" "blk ?d2 (x'\<lparr>i_size := w'\<rparr>) i \<noteq> 0" "blk ?d2 (x'\<lparr>i_size := w'\<rparr>) i = blk ?d2 (x'\<lparr>i_size := w'\<rparr>) k"
    then show "i = k" using b2 fill_block(5) [OF F] file_blk_inj [OF ok] by (auto split: if_splits)
  next
    show "unat (i_size (x'\<lparr>i_size := w'\<rparr>)) \<le> MAXFILE * BSIZE" using wj(4) j by simp
    show "(i_addrs (x'\<lparr>i_size := w'\<rparr>) NDIRECT \<noteq> 0) = (NDIRECT * BSIZE < unat (i_size (x'\<lparr>i_size := w'\<rparr>)))"
      using fill_indirect(1) [OF F] by simp
    have "owned ?d x \<subseteq> {nmeta..<unat (m_freeblock s)}" using file_owned [OF ok] by auto
    then have "owned ?d x \<union> {unat (m_freeblock s)..<unat (m_freeblock u)} \<subseteq> {nmeta..<unat (m_freeblock u)}" using fb f by auto
    then show "owned ?d2 (x'\<lparr>i_size := w'\<rparr>) \<subseteq> {nmeta..<unat (m_freeblock u)}" using fill_owned [OF F] by auto
  next
    fix i assume i: "i < MAXFILE * BSIZE" "unat (i_size (x'\<lparr>i_size := w'\<rparr>)) \<le> i" "blk ?d2 (x'\<lparr>i_size := w'\<rparr>) (i div BSIZE) \<noteq> 0"
    have k: "i div 1024 < MAXFILE" "unat w \<le> i" using i(1,2) wj(5) by simp_all
    have "blk ?d x (i div 1024) \<noteq> 0 \<Longrightarrow> ?d (unat (blk ?d x (i div 1024))) ! (i mod 1024) = 0"
      using ok i(1) k(2) by (simp add: file_ok_def)
    moreover have "i div 1024 = j \<or> blk ?d x (i div 1024) \<noteq> 0" using b2 [OF k(1)] i(3) by (auto split: if_splits)
    ultimately show "?d2 (unat (blk ?d2 (x'\<lparr>i_size := w'\<rparr>) (i div BSIZE))) ! (i mod BSIZE) = 0"
      using fill_byte [OF F k(1)] i(2,3) by auto
  qed
qed

lemma fill_file_bytes:
  assumes F: "fill_at s x w j t x' a bs u w'"
  shows "file_bytes (m_img u) (x'\<lparr>i_size := w'\<rparr>) = file_bytes (m_img s) (x\<lparr>i_size := w\<rparr>) @ bs"
proof (rule nth_equalityI)
  have w': "unat w' = unat w + length bs" using F by (simp add: fill_at_def)
  show "length (file_bytes (m_img u) (x'\<lparr>i_size := w'\<rparr>)) = length (file_bytes (m_img s) (x\<lparr>i_size := w\<rparr>) @ bs)"
    using w' by (simp add: file_bytes_def)
  fix i assume "i < length (file_bytes (m_img u) (x'\<lparr>i_size := w'\<rparr>))"
  then have i: "i < unat w'" by (simp add: file_bytes_def)
  have ok: "file_ok (m_img u) (unat (m_freeblock u)) (x'\<lparr>i_size := w'\<rparr>)" "file_ok (m_img s) (unat (m_freeblock s)) (x\<lparr>i_size := w\<rparr>)" and j: "j < MAXFILE"
    using fill_file_ok [OF F] F by (simp_all add: fill_at_def)
  have k: "i div 1024 < MAXFILE" using i fill_range(4) [OF F] j by simp
  then have nz: "blk (m_img u) x' (i div 1024) \<noteq> 0" "i < unat w \<Longrightarrow> blk (m_img s) x (i div 1024) \<noteq> 0"
    using file_blk [OF ok(1) k] file_blk [OF ok(2) k] i by simp_all
  have "file_bytes (m_img u) (x'\<lparr>i_size := w'\<rparr>) ! i = m_img u (unat (blk (m_img u) x' (i div 1024))) ! (i mod 1024)"
    using i by (simp add: file_bytes_def)
  then show "file_bytes (m_img u) (x'\<lparr>i_size := w'\<rparr>) ! i = (file_bytes (m_img s) (x\<lparr>i_size := w\<rparr>) @ bs) ! i"
    using fill_byte [OF F k nz(1)] i nz(2) by (auto simp: file_bytes_def nth_append)
qed

lemma fill_frame:
  assumes F: "fill_at s x w j t x' a bs u w'" and b: "b < unat (m_freeblock s)" "b \<notin> owned (m_img s) x"
  shows "m_img u b = m_img s b"
proof -
  have j: "j < MAXFILE" and u: "u = t\<lparr>m_img := (m_img t)(unat a := overwrite (m_img t (unat a)) (unat w mod 1024) bs)\<rparr>"
    and fr: "\<And>b. b < unat (m_freeblock s) \<Longrightarrow> \<not> (i_addrs x NDIRECT \<noteq> 0 \<and> b = unat (i_addrs x NDIRECT)) \<Longrightarrow> m_img t b = m_img s b"
    using F by (auto simp: fill_at_def placed_def)
  have "b \<noteq> unat a" using fill_block(3) [OF F] b blk_in_owned [OF j] by fastforce
  moreover have "m_img t b = m_img s b" by (rule fr [OF b(1)]) (use b(2) in \<open>auto simp: owned_def\<close>)
  ultimately show ?thesis by (simp add: u)
qed

lemma used_mono: "m \<le> n \<Longrightarrow> used m \<le> used n"
  by (auto simp: used_def intro!: add_mono div_le_mono)

lemma mkfs_same2: "\<exists>d f. t = s\<lparr>m_img := d, m_freeblock := f\<rparr> \<Longrightarrow> \<exists>d f. u = t\<lparr>m_img := d, m_freeblock := f\<rparr>
    \<Longrightarrow> \<exists>d f. u = s\<lparr>m_img := d, m_freeblock := f\<rparr>" for s t u :: mkfs
  by (elim exE) (simp, blast)

lemma appended_refl:
  "good s \<Longrightarrow> file_ok (m_img s) (unat (m_freeblock s)) (x\<lparr>i_size := w\<rparr>) \<Longrightarrow> appended s x w [] s x w"
  by (simp add: appended_def mkfs_same)

lemma appended_trans:
  assumes 1: "appended s x w bs t y w1" and 2: "appended t y w1 cs u z w2"
  shows "appended s x w (bs @ cs) u z w2"
proof -
  let ?fs = "unat (m_freeblock s)" and ?ft = "unat (m_freeblock t)" and ?fu = "unat (m_freeblock u)"
  have "used (unat w) \<le> used (unat w1)" "used (unat w1) \<le> used (unat w2)" using 1 2 by (auto simp: appended_def intro!: used_mono)
  then have le: "?fs \<le> ?ft" "?ft \<le> ?fu" using 1 2 by (auto simp: appended_def)
  have o: "owned (m_img t) y \<subseteq> owned (m_img s) x \<union> {?fs..<?ft}" "owned (m_img u) z \<subseteq> owned (m_img t) y \<union> {?ft..<?fu}"
    using 1 2 by (simp_all add: appended_def)
  then have "owned (m_img u) z \<subseteq> owned (m_img s) x \<union> {?fs..<?fu}" using le by fastforce
  moreover have "m_img u b = m_img s b" if b: "b < ?fs" "b \<notin> owned (m_img s) x" for b
  proof -
    have "b \<notin> owned (m_img t) y" using o(1) b by auto
    then show ?thesis using 1 2 b le by (simp add: appended_def)
  qed
  moreover have "\<exists>d f. u = s\<lparr>m_img := d, m_freeblock := f\<rparr>" "\<exists>A. z = x\<lparr>i_addrs := A\<rparr>"
    using mkfs_same2 [of t s u] 1 2 by (auto simp: appended_def)
  moreover have "?ft + used (unat w) = ?fs + used (unat w1)" "?fu + used (unat w1) = ?ft + used (unat w2)"
    using 1 2 by (simp_all add: appended_def)
  then have "?fu + used (unat w) = ?fs + used (unat w2)" by linarith
  ultimately show ?thesis using 1 2 by (simp add: appended_def)
qed

lemma block_rest:
  fixes w :: uint
  assumes "unat w < 274432"
  shows "unat ((w div word_of_nat BSIZE + 1) * word_of_nat BSIZE - w) = 1024 - unat w mod 1024"
    "unat (w - w div word_of_nat BSIZE * word_of_nat BSIZE) = unat w mod 1024"
proof -
  let ?fbn = "w div word_of_nat BSIZE"
  have fbn: "unat ?fbn = unat w div 1024" by (simp add: unat_div)
  obtain q r where r: "unat w mod 1024 = r" "unat w = q * 1024 + r" "r < 1024" "unat ?fbn = q"
    using fbn by (metis div_mult_mod_eq mod_less_divisor zero_less_numeral)
  have q: "q < 268" using r assms by simp
  have up: "unat ((?fbn + 1) * word_of_nat BSIZE) = (q + 1) * 1024" "unat (?fbn * word_of_nat BSIZE) = q * 1024"
    using q r(4) by (simp_all add: unat_word_ariths)
  have "w \<le> (?fbn + 1) * word_of_nat BSIZE" unfolding word_le_nat_alt up(1) using r(2,3) by simp
  then show "unat ((?fbn + 1) * word_of_nat BSIZE - w) = 1024 - unat w mod 1024" unfolding r(1) by (simp only: unat_sub up(1) r(2)) simp
  have "?fbn * word_of_nat BSIZE \<le> w" unfolding word_le_nat_alt up(2) using r(2) by simp
  then show "unat (w - ?fbn * word_of_nat BSIZE) = unat w mod 1024"
    unfolding r(1) by (simp only: unat_sub up(2) r(2) add_diff_cancel_left')
qed

lemma iappend_turn_ok:
  assumes g: "good s" and ok: "file_ok (m_img s) (unat (m_freeblock s)) (x\<lparr>i_size := w\<rparr>)" and fb: "nmeta \<le> unat (m_freeblock s)"
    and n: "0 < unat n" "unat n < 0x80000000" "unat n \<le> length p" "unat w + unat n \<le> MAXFILE * BSIZE"
    and space: "unat (m_freeblock s) + used (unat w + unat n) \<le> FSSIZE + used (unat w)"
  defines "m \<equiv> min (unat n) (1024 - unat w mod 1024)"
  shows "\<exists>u x' w'. iappend_turn (w, n, p, x) s = Ok (Inr (Inl (w', n - word_of_nat m, drop m p, x'))) u
    \<and> appended s x w (take m p) u x' w'"
proof -
  let ?fbn = "w div word_of_nat BSIZE" and ?r = "unat w mod 1024"
  have fbn: "unat ?fbn = unat w div 1024" by (simp add: unat_div)
  have w: "unat w < 274432" using n(1,4) by simp
  have j: "unat ?fbn < MAXFILE" using w fbn by simp
  have m: "0 < m" "m \<le> 1024 - ?r" "m \<le> unat n" "m \<le> length p" using n by (auto simp: m_def)
  have ug: "used (unat w + m) = used (unat w) + grows (unat w)" by (rule used_grows [OF m(1,2)])
  have "used (unat w + m) \<le> used (unat w + unat n)" by (rule used_mono) (use m in simp)
  then have sp: "unat (m_freeblock s) + grows (unat w) \<le> FSSIZE" using space ug by simp
  obtain t x' a where run: "block_for x ?fbn s = Ok (Inr (a, x')) t" and p: "placed s x (unat w) (unat ?fbn) t x' a"
    using place [OF g ok fbn j sp fb] by blast
  have gt: "good t" and at: "unat a < unat (m_freeblock t)" and ft: "unat (m_freeblock t) = unat (m_freeblock s) + grows (unat w)"
    using p by (simp_all add: placed_def)
  have al: "unat a < FSSIZE" using at ft sp by simp
  let ?n1 = "min n ((?fbn + 1) * word_of_nat BSIZE - w)"
  note rest = block_rest(1) [OF w] and off = block_rest(2) [OF w]
  have n1: "unat ?n1 = m" using rest by (simp add: m_def min_def word_le_nat_alt)
  then have n1': "?n1 = word_of_nat m" by (metis of_nat_unat word_of_int_uint of_int_of_nat_eq)
  have w': "unat (w + word_of_nat m) = unat w + m" using w m by (simp add: unat_word_ariths unat_of_nat)
  let ?v = "overwrite (m_img t (unat a)) ?r (take m p)" and ?w' = "w + word_of_nat m :: uint"
  let ?u = "t\<lparr>m_img := (m_img t)(unat a := ?v)\<rparr>"
  have lt: "sint n > 0" using n(1,2) by (simp only: sint_unat of_nat_0_less_iff)
  have as: "assertM (?fbn < word_of_nat MAXFILE) s = Ok (Inr ()) s" using j by (simp add: assertM_def word_less_nat_alt uret_run)
  have r2: "rsect a t = Ok (Inr (m_img t (unat a))) t" by (rule rsect_run [OF gt al])
  have r3: "wsect a ?v t = Ok (Inr ()) ?u" by (rule wsect_run [OF gt al])
  have "iappend_turn (w, n, p, x) s = Ok (Inr (Inl (?w', n - word_of_nat m, drop m p, x'))) ?u"
    unfolding iappend_turn_def prod.case if_P [OF lt] Let_def
    by (rule useq_step, rule as, rule ubind_step, rule run, unfold prod.case, rule ubind_step, rule r2,
        rule useq_step, unfold n1 off, rule r3, unfold n1', rule uret_run)
  moreover have "appended s x w (take m p) ?u x' ?w'"
  proof -
    have bs: "take m p \<noteq> []" "length (take m p) \<le> 1024 - ?r" "length (take m p) = m" using m by auto
    have w2: "unat ?w' = unat w + length (take m p)" using w' bs(3) by simp
    have F: "fill_at s x w (unat ?fbn) t x' a (take m p) ?u ?w'" using p ok fbn j w2 bs(1,2) fb unfolding fill_at_def by blast
    note fill = fill_file_ok [OF F] fill_file_bytes [OF F] fill_frame [OF F] fill_owned [OF F]
    have "good ?u" using gt at m by (auto simp: good_def length_overwrite)
    moreover have ts: "\<exists>d f. t = s\<lparr>m_img := d, m_freeblock := f\<rparr>" and "\<exists>A. x' = x\<lparr>i_addrs := A\<rparr>"
      using p unfolding placed_def by blast+
    moreover have "\<exists>d f. ?u = t\<lparr>m_img := d, m_freeblock := f\<rparr>"
      by (intro exI [of _ "(m_img t)(unat a := ?v)"] exI [of _ "m_freeblock t"]) simp
    from mkfs_same2 [OF ts this] have "\<exists>d f. ?u = s\<lparr>m_img := d, m_freeblock := f\<rparr>" .
    ultimately show ?thesis using fill w2 ft ug bs(3) by (simp add: appended_def)
  qed
  ultimately show ?thesis by blast
qed

lemma iappend_loop:
  assumes "good s" "file_ok (m_img s) (unat (m_freeblock s)) (x\<lparr>i_size := w\<rparr>)" "nmeta \<le> unat (m_freeblock s)"
    and "unat n < 0x80000000" "unat n \<le> length p" "unat w + unat n \<le> MAXFILE * BSIZE"
    and "unat (m_freeblock s) + used (unat w + unat n) \<le> FSSIZE + used (unat w)"
  shows "\<exists>u x' w'. uloop iappend_turn (w, n, p, x) s = Ok (Inr (w', x')) u \<and> appended s x w (take (unat n) p) u x' w'"
  using assms
proof (induction "unat n" arbitrary: s x w n p rule: less_induct)
  case less
  note g = less.prems(1) and ok = less.prems(2)
  show ?case
  proof (cases "unat n = 0")
    case True
    then have "sint n = 0" by (simp add: sint_unat)
    then have "iappend_turn (w, n, p, x) s = Ok (Inr (Inr (w, x))) s" by (simp add: iappend_turn_def uret_run)
    then have "uloop iappend_turn (w, n, p, x) s = Ok (Inr (w, x)) s"
      by (subst uloop_unfold) (simp add: ubind_run uret_run)
    then show ?thesis using True appended_refl [OF g ok] by auto
  next
    case False
    let ?m = "min (unat n) (1024 - unat w mod 1024)"
    let ?n = "n - word_of_nat ?m :: uint"
    obtain t y w1 where run: "iappend_turn (w, n, p, x) s = Ok (Inr (Inl (w1, ?n, drop ?m p, y))) t"
      and a1: "appended s x w (take ?m p) t y w1"
      using iappend_turn_ok [OF g ok less.prems(3) _ less.prems(4-7)] False by auto
    have m: "0 < ?m" "?m \<le> unat n" using False by (auto simp: min_def)
    have nn: "unat ?n = unat n - ?m"
    proof -
      have "unat (word_of_nat ?m :: uint) = ?m" using m(2) unat_less32 [of n] by (simp add: unat_of_nat)
      then show ?thesis using m(2) by (subst unat_sub) (simp_all only: word_le_nat_alt)
    qed
    have w1: "unat w1 = unat w + ?m" using a1 less.prems(5) by (simp add: appended_def min_def)
    have f1: "unat (m_freeblock t) + used (unat w) = unat (m_freeblock s) + used (unat w1)" using a1 by (simp add: appended_def)
    have "used (unat w) \<le> used (unat w1)" by (rule used_mono) (use w1 in simp)
    then have le: "unat (m_freeblock s) \<le> unat (m_freeblock t)" using f1 by simp
    have sum: "unat w1 + unat ?n = unat w + unat n" using w1 nn m by simp
    obtain u z w2 where run2: "uloop iappend_turn (w1, ?n, drop ?m p, y) t = Ok (Inr (w2, z)) u"
      and a2: "appended t y w1 (take (unat ?n) (drop ?m p)) u z w2"
    proof -
      have t: "good t" "file_ok (m_img t) (unat (m_freeblock t)) (y\<lparr>i_size := w1\<rparr>)" using a1 by (simp_all add: appended_def)
      have sp: "unat (m_freeblock t) + used (unat w1 + unat ?n) \<le> FSSIZE + used (unat w1)"
        unfolding sum using f1 less.prems(7) by linarith
      have "\<exists>u x' w'. uloop iappend_turn (w1, ?n, drop ?m p, y) t = Ok (Inr (w', x')) u \<and> appended t y w1 (take (unat ?n) (drop ?m p)) u x' w'"
      proof (rule less.hyps [OF _ t _ _ _ _ sp])
        show "unat ?n < unat n" using nn m by simp
        show "nmeta \<le> unat (m_freeblock t)" using le less.prems(3) by simp
        show "unat ?n < 0x80000000" unfolding nn using less.prems(4) by linarith
        show "unat ?n \<le> length (drop ?m p)" unfolding nn length_drop using less.prems(5) by (rule diff_le_mono)
        show "unat w1 + unat ?n \<le> MAXFILE * BSIZE" unfolding sum by (rule less.prems(6))
      qed
      then show ?thesis using that by blast
    qed
    have "take ?m p @ take (unat ?n) (drop ?m p) = take (unat n) p" using nn m by (simp add: take_add [symmetric])
    then have "appended s x w (take (unat n) p) u z w2" using appended_trans [OF a1 a2] by simp
    moreover have "uloop iappend_turn (w, n, p, x) s = Ok (Inr (w2, z)) u"
      unfolding uloop_unfold [of iappend_turn "(w, n, p, x)"] by (rule ubind_step, rule run) (simp add: run2)
    ultimately show ?thesis by blast
  qed
qed

section \<open>The image\<close>

definition iblock :: "nat \<Rightarrow> nat" where
  "iblock i = 32 + i div 16"

definition dnode :: "mkfs \<Rightarrow> nat \<Rightarrow> inode" where
  "dnode s i = dinode_load (m_img s (iblock i)) (i mod 16) dinode0"

definition contents :: "mkfs \<Rightarrow> nat \<Rightarrow> byte list" where
  "contents s i = file_bytes (m_img s) (dnode s i)"

definition inums :: "mkfs \<Rightarrow> nat set" where
  "inums s = {1..<unat (m_freeinode s)}"

text \<open>Every inode up to \<open>freeinode\<close> is a file, and no block belongs to two files.\<close>

definition image_ok :: "mkfs \<Rightarrow> bool" where
  "image_ok s \<longleftrightarrow> good s \<and> m_sb s = mkfs_sb \<and> nmeta \<le> unat (m_freeblock s) \<and> unat (m_freeblock s) \<le> FSSIZE
     \<and> 1 \<le> unat (m_freeinode s) \<and> unat (m_freeinode s) \<le> NINODES
     \<and> (\<forall>i \<in> inums s. file_ok (m_img s) (unat (m_freeblock s)) (dnode s i))
     \<and> (\<forall>i \<in> inums s. \<forall>k \<in> inums s. i \<noteq> k \<longrightarrow> owned (m_img s) (dnode s i) \<inter> owned (m_img s) (dnode s k) = {})"

lemma IBLOCK_mkfs: "unat inum < NINODES \<Longrightarrow> unat (IBLOCK inum mkfs_sb) = iblock (unat inum)"
  by (simp add: IBLOCK_def mkfs_sb_def iblock_def unat_word_ariths unat_div)

lemma blk_same_on_disk: "same_on_disk x y \<Longrightarrow> blk d x = blk d y" "same_on_disk x y \<Longrightarrow> i_addrs x NDIRECT = i_addrs y NDIRECT"
  by (auto simp: same_on_disk_def blk_def fun_eq_iff)

lemma same_on_disk_views:
  assumes "same_on_disk x y"
  shows "owned d x = owned d y" "file_ok d fb x = file_ok d fb y" "file_bytes d x = file_bytes d y"
proof -
  have sz: "i_size x = i_size y" using assms by (simp add: same_on_disk_def)
  note b = blk_same_on_disk [OF assms]
  show o: "owned d x = owned d y" unfolding owned_def b ..
  show "file_ok d fb x = file_ok d fb y" unfolding file_ok_def b o sz ..
  show "file_bytes d x = file_bytes d y" unfolding file_bytes_def b sz ..
qed

lemma rinode_run:
  assumes "good s" "m_sb s = mkfs_sb" "unat inum < NINODES"
  shows "rinode inum s = Ok (Inr (dnode s (unat inum))) s"
proof -
  have bn: "unat (IBLOCK inum mkfs_sb) = iblock (unat inum)" by (rule IBLOCK_mkfs [OF assms(3)])
  then have "rsect (IBLOCK inum mkfs_sb) s = Ok (Inr (m_img s (iblock (unat inum)))) s"
    using rsect_run [OF assms(1), of "IBLOCK inum mkfs_sb"] assms(3) by (simp add: iblock_def)
  then show ?thesis unfolding rinode_def
    by (intro ubind_step, simp add: sys_run gets_run, simp only: Let_def assms(2), intro ubind_step, assumption) (simp add: uret_run dnode_def)
qed

lemma winode_run:
  assumes "good s" "m_sb s = mkfs_sb" "unat inum < NINODES"
  shows "winode inum x s = Ok (Inr ()) (s\<lparr>m_img := (m_img s)(iblock (unat inum) :=
    overwrite (m_img s (iblock (unat inum))) (64 * (unat inum mod 16)) (dinode_bytes x))\<rparr>)"
proof -
  have bn: "unat (IBLOCK inum mkfs_sb) = iblock (unat inum)" by (rule IBLOCK_mkfs [OF assms(3)])
  have lim: "unat (IBLOCK inum mkfs_sb) < FSSIZE" using bn assms(3) by (simp add: iblock_def)
  have r: "rsect (IBLOCK inum mkfs_sb) s = Ok (Inr (m_img s (iblock (unat inum)))) s"
    using rsect_run [OF assms(1) lim] bn by simp
  show ?thesis unfolding winode_def
    by (intro ubind_step, simp add: sys_run gets_run, simp only: Let_def assms(2), intro ubind_step, rule r)
      (use wsect_run [OF assms(1) lim] bn in simp)
qed

definition put_inode :: "mkfs \<Rightarrow> nat \<Rightarrow> inode \<Rightarrow> mkfs" where
  "put_inode s i x = s\<lparr>m_img := (m_img s)(iblock i := overwrite (m_img s (iblock i)) (64 * (i mod 16)) (dinode_bytes x))\<rparr>"

lemma put_inode_fields [simp]: "m_freeblock (put_inode s i x) = m_freeblock s" "m_freeinode (put_inode s i x) = m_freeinode s"
  "m_sb (put_inode s i x) = m_sb s"
  by (simp_all add: put_inode_def)

lemma dnode_put:
  assumes "good s"
  shows "same_on_disk x (dnode (put_inode s i x) i)" "k \<noteq> i \<Longrightarrow> dnode (put_inode s i x) k = dnode s k"
proof -
  have len: "length (m_img s (iblock i)) = BSIZE" using assms by (simp add: good_def)
  show "same_on_disk x (dnode (put_inode s i x) i)"
    using dinode_written [OF len, of "i mod 16" x dinode0] by (simp add: dnode_def put_inode_def)
  show "dnode (put_inode s i x) k = dnode s k" if "k \<noteq> i"
  proof (cases "iblock k = iblock i")
    case True
    then have "k mod 16 \<noteq> i mod 16" using that div_mult_mod_eq [of k 16] div_mult_mod_eq [of i 16] by (auto simp: iblock_def)
    then show ?thesis using dinode_untouched [OF len, of "i mod 16" "k mod 16" x dinode0] True by (simp add: dnode_def put_inode_def)
  qed (simp add: dnode_def put_inode_def)
qed

lemma good_put: "good s \<Longrightarrow> i < NINODES \<Longrightarrow> nmeta \<le> unat (m_freeblock s) \<Longrightarrow> good (put_inode s i x)"
  by (auto simp: good_def put_inode_def iblock_def length_overwrite)

lemma put_inode_data: "i < NINODES \<Longrightarrow> nmeta \<le> b \<Longrightarrow> m_img (put_inode s i x) b = m_img s b"
  by (auto simp: put_inode_def iblock_def)

lemma iappend_run:
  assumes im: "image_ok s" and i: "unat inum \<in> inums s"
    and n: "length bs < 0x80000000" "unat (i_size (dnode s (unat inum))) + length bs \<le> MAXFILE * BSIZE"
    and sp: "unat (m_freeblock s) + used (unat (i_size (dnode s (unat inum))) + length bs) \<le> FSSIZE + used (unat (i_size (dnode s (unat inum))))"
  shows "\<exists>u x' w'. iappend inum bs (word_of_nat (length bs)) s = Ok (Inr ()) (put_inode u (unat inum) (x'\<lparr>i_size := w'\<rparr>))
    \<and> appended s (dnode s (unat inum)) (i_size (dnode s (unat inum))) bs u x' w'"
proof -
  let ?x = "dnode s (unat inum)" and ?n = "word_of_nat (length bs) :: uint"
  have g: "good s" and sb: "m_sb s = mkfs_sb" and fb: "nmeta \<le> unat (m_freeblock s)" and lim: "unat inum < NINODES"
    and ok: "file_ok (m_img s) (unat (m_freeblock s)) (?x\<lparr>i_size := i_size ?x\<rparr>)"
    using im i by (auto simp: image_ok_def inums_def)
  have un: "unat ?n = length bs" using n(1) by (simp add: unat_of_nat)
  obtain u x' w' where run: "uloop iappend_turn (i_size ?x, ?n, bs, ?x) s = Ok (Inr (w', x')) u"
    and ap: "appended s ?x (i_size ?x) bs u x' w'"
    using iappend_loop [OF g ok fb, of ?n bs] n sp un by auto
  have gu: "good u" and su: "m_sb u = mkfs_sb" using ap sb by (auto simp: appended_def)
  have "iappend inum bs ?n s = Ok (Inr ()) (put_inode u (unat inum) (x'\<lparr>i_size := w'\<rparr>))"
    unfolding iappend_def xint_id
    by (rule ubind_step, rule rinode_run [OF g sb lim], rule ubind_step, rule run, unfold prod.case put_inode_def, rule winode_run [OF gu su lim])
  then show ?thesis using ap by blast
qed

text \<open>What \<open>iappend\<close> leaves alone: the blocks before the inodes, and the numbers of inodes and types.\<close>

definition beside :: "mkfs \<Rightarrow> mkfs \<Rightarrow> nat set \<Rightarrow> bool" where
  "beside s t F \<longleftrightarrow> (\<forall>b < 32. m_img t b = m_img s b)
     \<and> (\<forall>k \<in> inums s - F. contents t k = contents s k \<and> i_size (dnode t k) = i_size (dnode s k)) \<and> inums s \<subseteq> inums t
     \<and> (\<forall>k \<in> inums s. i_type (dnode t k) = i_type (dnode s k))"

lemma disjoint_grow: "A \<subseteq> A' \<union> N \<Longrightarrow> B \<subseteq> B' \<Longrightarrow> A' \<inter> B' = {} \<Longrightarrow> B' \<inter> N = {} \<Longrightarrow> A \<inter> B = {}"
  by blast

lemma iappend_ok:
  assumes im: "image_ok s" and i: "unat inum \<in> inums s"
    and n: "length bs < 0x80000000" "unat (i_size (dnode s (unat inum))) + length bs \<le> MAXFILE * BSIZE"
    and sp: "unat (m_freeblock s) + used (unat (i_size (dnode s (unat inum))) + length bs) \<le> FSSIZE + used (unat (i_size (dnode s (unat inum))))"
  shows "\<exists>t. iappend inum bs (word_of_nat (length bs)) s = Ok (Inr ()) t \<and> image_ok t
    \<and> contents t (unat inum) = contents s (unat inum) @ bs
    \<and> unat (i_size (dnode t (unat inum))) = unat (i_size (dnode s (unat inum))) + length bs
    \<and> beside s t {unat inum} \<and> m_freeinode t = m_freeinode s
    \<and> unat (m_freeblock t) + used (unat (i_size (dnode s (unat inum)))) = unat (m_freeblock s) + used (unat (i_size (dnode t (unat inum))))"
proof -
  let ?i = "unat inum" let ?x = "dnode s ?i" let ?w = "i_size ?x"
  obtain u x' w' where run: "iappend inum bs (word_of_nat (length bs)) s = Ok (Inr ()) (put_inode u ?i (x'\<lparr>i_size := w'\<rparr>))"
    and ap: "appended s ?x ?w bs u x' w'" using iappend_run [OF im i n sp] by blast
  let ?X = "x'\<lparr>i_size := w'\<rparr>" let ?t = "put_inode u ?i ?X"
  have gu: "good u" and u: "\<exists>d f. u = s\<lparr>m_img := d, m_freeblock := f\<rparr>" and x': "\<exists>A. x' = ?x\<lparr>i_addrs := A\<rparr>"
    and okX: "file_ok (m_img u) (unat (m_freeblock u)) ?X" and w': "unat w' = unat ?w + length bs"
    and fbs: "file_bytes (m_img u) ?X = file_bytes (m_img s) (?x\<lparr>i_size := ?w\<rparr>) @ bs"
    and fbu: "unat (m_freeblock u) + used (unat ?w) = unat (m_freeblock s) + used (unat w')"
    and fr: "\<And>b. b < unat (m_freeblock s) \<Longrightarrow> b \<notin> owned (m_img s) ?x \<Longrightarrow> m_img u b = m_img s b"
    and ow: "owned (m_img u) x' \<subseteq> owned (m_img s) ?x \<union> {unat (m_freeblock s)..<unat (m_freeblock u)}"
    using ap unfolding appended_def by blast+
  have fb: "nmeta \<le> unat (m_freeblock s)" and oks: "\<And>k. k \<in> inums s \<Longrightarrow> file_ok (m_img s) (unat (m_freeblock s)) (dnode s k)"
    and dj: "\<And>k l. k \<in> inums s \<Longrightarrow> l \<in> inums s \<Longrightarrow> k \<noteq> l \<Longrightarrow> owned (m_img s) (dnode s k) \<inter> owned (m_img s) (dnode s l) = {}"
    and lim: "?i < NINODES" and ins: "\<And>k. k \<in> inums s \<Longrightarrow> k < 200" and sbs: "m_sb s = mkfs_sb" and fi: "unat (m_freeinode s) \<le> NINODES" "1 \<le> unat (m_freeinode s)"
    using im i by (auto simp: image_ok_def inums_def)
  have "used (unat ?w) \<le> used (unat w')" by (rule used_mono) (use w' in simp)
  then have le: "unat (m_freeblock s) \<le> unat (m_freeblock u)" "unat (m_freeblock u) \<le> FSSIZE" using fbu sp w' by simp_all
  have meta: "m_img u b = m_img s b" if "b < nmeta" for b
    by (rule fr) (use that fb file_owned [OF oks [OF i]] in fastforce)+
  have dk: "dnode u k = dnode s k" if "k < 200" for k using meta [of "iblock k"] that by (simp add: dnode_def iblock_def)
  have dt: "same_on_disk ?X (dnode ?t ?i)" and dtk: "\<And>k. k \<noteq> ?i \<Longrightarrow> k < 200 \<Longrightarrow> dnode ?t k = dnode s k"
    using dnode_put [OF gu] dk by simp_all
  have data: "m_img ?t b = m_img u b" if "nmeta \<le> b" for b by (rule put_inode_data [OF lim that])
  have sameX: "m_img ?t b = m_img u b" if "b \<in> owned (m_img u) ?X" for b using data file_owned [OF okX that] by simp
  have samek: "m_img ?t b = m_img s b" if "k \<in> inums s" "k \<noteq> ?i" "b \<in> owned (m_img s) (dnode s k)" for k b
    using data fr file_owned [OF oks [OF that(1)] that(3)] dj [OF that(1) i that(2)] that(3) by auto
  note vX = same_on_disk_views [OF dt]
  have i1: "owned (m_img ?t) (dnode ?t ?i) = owned (m_img u) x'" using vX(1) owned_cong [OF sameX] by simp
  have i2: "file_ok (m_img ?t) (unat (m_freeblock ?t)) (dnode ?t ?i)" using vX(2) file_ok_cong [OF sameX okX] by simp
  have i3: "contents ?t ?i = contents s ?i @ bs"
  proof -
    have "file_bytes (m_img ?t) ?X = file_bytes (m_img u) ?X" by (rule file_bytes_cong [OF okX]) (rule sameX)
    then show ?thesis unfolding contents_def vX(3) [symmetric] using fbs by simp
  qed
  have k1: "owned (m_img ?t) (dnode ?t k) = owned (m_img s) (dnode s k)"
    and k2: "file_ok (m_img ?t) (unat (m_freeblock ?t)) (dnode ?t k)" and k3: "contents ?t k = contents s k" if "k \<in> inums s" "k \<noteq> ?i" for k
    using dtk [OF that(2) ins [OF that(1)]] owned_cong [OF samek [OF that]] file_bytes_cong [OF oks [OF that(1)] samek [OF that]]
      file_ok_mono [OF file_ok_cong [OF samek [OF that] oks [OF that(1)]] le(1)] by (simp_all add: contents_def)
  have ui: "m_freeinode u = m_freeinode s" "m_sb u = mkfs_sb" using u sbs by auto
  have inu: "inums ?t = inums s" using ui by (simp add: inums_def)
  have sz: "i_size (dnode ?t ?i) = w'" and ty: "i_type (dnode ?t ?i) = i_type ?x" using dt x' by (auto simp: same_on_disk_def)
  have "image_ok ?t"
    unfolding image_ok_def inu
  proof (intro conjI ballI impI)
    show "good ?t" by (rule good_put [OF gu lim]) (use fb le in simp)
    fix k assume k: "k \<in> inums s"
    show "file_ok (m_img ?t) (unat (m_freeblock ?t)) (dnode ?t k)" using i2 k2 [OF k] by (cases "k = ?i") auto
    fix l assume l: "l \<in> inums s" "k \<noteq> l"
    have lowk: "owned (m_img s) (dnode s m) \<inter> {unat (m_freeblock s)..<unat (m_freeblock u)} = {}" if "m \<in> inums s" for m
      using file_owned [OF oks [OF that]] by fastforce
    have ti: "owned (m_img ?t) (dnode ?t ?i) \<inter> owned (m_img ?t) (dnode ?t m) = {}" if "m \<in> inums s" "m \<noteq> ?i" for m
      unfolding i1 k1 [OF that] by (rule disjoint_grow [OF ow order_refl dj [OF i that(1) that(2) [symmetric]] lowk [OF that(1)]])
    show "owned (m_img ?t) (dnode ?t k) \<inter> owned (m_img ?t) (dnode ?t l) = {}"
    proof (cases "k = ?i \<or> l = ?i")
      case True
      then show ?thesis using ti [OF k] ti [OF l(1)] l(2) by (metis Int_commute)
    next
      case False
      then show ?thesis using k1 [OF k] k1 [OF l(1)] dj [OF k l] by simp
    qed
  qed (use ui fb le fi in simp_all)
  moreover have "beside s ?t {?i}"
    unfolding beside_def
  proof (intro conjI ballI allI impI)
    show "m_img ?t b = m_img s b" if "b < 32" for b using meta [of b] that by (simp add: put_inode_def iblock_def)
    show "contents ?t k = contents s k" "i_size (dnode ?t k) = i_size (dnode s k)" if "k \<in> inums s - {?i}" for k
      using k3 [of k] dtk [of k] ins [of k] that by auto
    show "i_type (dnode ?t k) = i_type (dnode s k)" if "k \<in> inums s" for k
      using ty dtk [of k] ins [OF that] by (cases "k = ?i") auto
  qed (simp add: inu)
  ultimately show ?thesis using run i3 sz w' fbu ui by (intro exI [of _ ?t]) simp
qed

lemma beside_trans: "beside s t F \<Longrightarrow> beside t u G \<Longrightarrow> beside s u (F \<union> G)"
  by (auto simp: beside_def subset_iff)

lemma length_contents: "length (contents s i) = unat (i_size (dnode s i))"
  by (simp add: contents_def file_bytes_def)

text \<open>One append after the other; \<open>room s i n\<close> says that \<open>n\<close> more bytes of file \<open>i\<close> find a place.\<close>

definition room :: "mkfs \<Rightarrow> nat \<Rightarrow> nat \<Rightarrow> bool" where
  "room s i n \<longleftrightarrow> length (contents s i) + n \<le> MAXFILE * BSIZE
     \<and> unat (m_freeblock s) + used (length (contents s i) + n) \<le> FSSIZE + used (length (contents s i))"

definition holds :: "mkfs \<Rightarrow> nat \<Rightarrow> byte list \<Rightarrow> mkfs \<Rightarrow> bool" where
  "holds s i bs t \<longleftrightarrow> image_ok t \<and> contents t i = contents s i @ bs \<and> beside s t {i} \<and> m_freeinode t = m_freeinode s
     \<and> unat (m_freeblock t) + used (length (contents s i)) = unat (m_freeblock s) + used (length (contents t i))"

lemma iappend_holds:
  assumes "image_ok s" "unat inum \<in> inums s" "room s (unat inum) (length bs)"
  shows "\<exists>t. iappend inum bs (word_of_nat (length bs)) s = Ok (Inr ()) t \<and> holds s (unat inum) bs t"
proof -
  have "length bs < 0x80000000" using assms(3) by (simp add: room_def)
  then show ?thesis using iappend_ok [OF assms(1,2), of bs] assms(3) by (auto simp: room_def holds_def length_contents)
qed

lemma holds_trans: "holds s i bs t \<Longrightarrow> holds t i cs u \<Longrightarrow> holds s i (bs @ cs) u"
  using beside_trans [of s t "{i}" u "{i}"] by (auto simp: holds_def)

lemma iappend_all:
  assumes "image_ok s" "unat inum \<in> inums s" "room s (unat inum) (length (concat ps))"
  shows "\<exists>t. uforM ps (\<lambda>buf. iappend inum buf (word_of_nat (length buf))) s = Ok (Inr ()) t \<and> holds s (unat inum) (concat ps) t"
  using assms
proof (induction ps arbitrary: s)
  case Nil
  then have "holds s (unat inum) [] s" by (auto simp: holds_def beside_def)
  then show ?case by (simp add: uret_run)
next
  case (Cons p ps)
  have "used (length (contents s (unat inum)) + length p) \<le> used (length (contents s (unat inum)) + length (concat (p # ps)))"
    by (rule used_mono) simp
  then have "room s (unat inum) (length p)" using Cons.prems(3) by (simp add: room_def)
  then obtain t where run: "iappend inum p (word_of_nat (length p)) s = Ok (Inr ()) t" and h: "holds s (unat inum) p t"
    using iappend_holds [OF Cons.prems(1,2)] by blast
  have "length (contents t (unat inum)) = length (contents s (unat inum)) + length p"
    "unat (m_freeblock t) + used (length (contents s (unat inum))) = unat (m_freeblock s) + used (length (contents t (unat inum)))"
    using h by (simp_all add: holds_def)
  then have "room t (unat inum) (length (concat ps))" using Cons.prems(3) unfolding room_def by (simp add: add.assoc)
  moreover have "image_ok t" "unat inum \<in> inums t" using h Cons.prems(2) by (auto simp: holds_def inums_def)
  ultimately obtain u where run2: "uforM ps (\<lambda>buf. iappend inum buf (word_of_nat (length buf))) t = Ok (Inr ()) u"
    and h2: "holds t (unat inum) (concat ps) u" using Cons.IH by blast
  have "uforM (p # ps) (\<lambda>buf. iappend inum buf (word_of_nat (length buf))) s = Ok (Inr ()) u"
    unfolding uforM.simps by (rule useq_step, rule run, rule run2)
  then show ?case using holds_trans [OF h h2] by auto
qed

lemma ialloc_ok:
  assumes im: "image_ok s" and lim: "unat (m_freeinode s) < NINODES"
  shows "\<exists>t. mk_ialloc ty s = Ok (Inr (m_freeinode s)) t \<and> image_ok t \<and> contents t (unat (m_freeinode s)) = []
    \<and> i_type (dnode t (unat (m_freeinode s))) = ty \<and> beside s t {} \<and> m_freeblock t = m_freeblock s
    \<and> unat (m_freeinode t) = unat (m_freeinode s) + 1"
proof -
  let ?f = "m_freeinode s" let ?i = "unat ?f"
  let ?x = "dinode0\<lparr>i_type := ty, i_nlink := 1, i_size := 0\<rparr>"
  let ?s1 = "s\<lparr>m_freeinode := ?f + 1\<rparr>" let ?t = "put_inode ?s1 ?i ?x"
  have g: "good s" and sb: "m_sb s = mkfs_sb" and fb: "nmeta \<le> unat (m_freeblock s)" "unat (m_freeblock s) \<le> FSSIZE"
    and oks: "\<And>k. k \<in> inums s \<Longrightarrow> file_ok (m_img s) (unat (m_freeblock s)) (dnode s k)"
    and dj: "\<And>k l. k \<in> inums s \<Longrightarrow> l \<in> inums s \<Longrightarrow> k \<noteq> l \<Longrightarrow> owned (m_img s) (dnode s k) \<inter> owned (m_img s) (dnode s l) = {}"
    and fi: "1 \<le> ?i" using im by (auto simp: image_ok_def)
  have g1: "good ?s1" using g by (simp add: good_def)
  have f1: "unat (?f + 1) = ?i + 1" using lim by (simp add: unat_word_ariths)
  have run: "mk_ialloc ty s = Ok (Inr ?f) ?t"
    unfolding mk_ialloc_def xshort_id xint_id
    by (rule ubind_step, simp add: sys_run gets_run, rule useq_step, rule call_run, rule modify_run, rule useq_step,
        rule winode_run [OF g1 _ lim]) (simp_all add: sb uret_run put_inode_def)
  have dt: "same_on_disk ?x (dnode ?t ?i)" by (rule dnode_put(1) [OF g1])
  have dk: "dnode ?t k = dnode s k" if "k \<noteq> ?i" for k using dnode_put(2) [OF g1 that] by (simp add: dnode_def)
  note v = same_on_disk_views [OF dt]
  have ob: "owned d ?x = {}" for d by (simp add: owned_def blk_def dinode0_def)
  have okx: "file_ok d fb ?x" for d fb unfolding file_ok_def ob by (simp add: blk_def dinode0_def)
  have data: "m_img ?t b = m_img s b" if "nmeta \<le> b" for b using put_inode_data [of ?i b ?s1 ?x] lim that by simp
  have same: "m_img ?t b = m_img s b" if "k \<in> inums s" "b \<in> owned (m_img s) (dnode s k)" for k b
    using data file_owned [OF oks [OF that(1)] that(2)] by simp
  have inu: "inums ?t = insert ?i (inums s)" "?i \<notin> inums s" using f1 fi by (auto simp: inums_def)
  have ki: "k \<noteq> ?i" if "k \<in> inums s" for k using that inu(2) by auto
  have i1: "owned (m_img ?t) (dnode ?t ?i) = {}" "file_ok (m_img ?t) (unat (m_freeblock ?t)) (dnode ?t ?i)"
    using v(1,2) ob okx by auto
  have k1: "owned (m_img ?t) (dnode ?t k) = owned (m_img s) (dnode s k)"
    and k2: "file_ok (m_img ?t) (unat (m_freeblock ?t)) (dnode ?t k)" and k3: "contents ?t k = contents s k" if "k \<in> inums s" for k
    using dk [OF ki [OF that]] owned_cong [OF same [OF that]] file_bytes_cong [OF oks [OF that] same [OF that]]
      file_ok_cong [OF same [OF that] oks [OF that]] by (simp_all add: contents_def)
  have "image_ok ?t"
    unfolding image_ok_def inu
  proof (intro conjI ballI impI)
    show "good ?t" by (rule good_put [OF g1 lim]) (use fb in simp)
    fix k assume k: "k \<in> insert ?i (inums s)"
    then show "file_ok (m_img ?t) (unat (m_freeblock ?t)) (dnode ?t k)" using i1 k2 by blast
    fix l assume l: "l \<in> insert ?i (inums s)" "k \<noteq> l"
    show "owned (m_img ?t) (dnode ?t k) \<inter> owned (m_img ?t) (dnode ?t l) = {}"
      using k l i1 k1 dj by blast
  qed (use sb fb f1 lim in simp_all)
  moreover have "contents ?t ?i = []"
    unfolding contents_def v(3) [symmetric] by (simp add: file_bytes_def)
  moreover have "i_type (dnode ?t ?i) = ty" using dt by (simp add: same_on_disk_def)
  moreover have "beside s ?t {}" using k3 dk ki inu by (auto simp: beside_def put_inode_def iblock_def)
  ultimately show ?thesis using run f1 by (intro exI [of _ ?t]) simp
qed

section \<open>The files of the image\<close>

definition file_data :: "(cstring \<Rightarrow> byte list list option) \<Rightarrow> cstring \<Rightarrow> byte list" where
  "file_data files arg = (case files arg of None \<Rightarrow> [] | Some ps \<Rightarrow> concat (takeWhile (\<lambda>buf. buf \<noteq> []) ps))"

definition root_entries :: "cstring list \<Rightarrow> byte list" where
  "root_entries args = dot_entry (bytes ''.'') 1 @ dot_entry (bytes ''..'') 1
     @ concat (map (\<lambda>k. dirent_bytes (skip_underscore (shortname (args ! k))) (word_of_nat (k + 2))) [0..<length args])"

definition data_blocks :: "(cstring \<Rightarrow> byte list list option) \<Rightarrow> cstring list \<Rightarrow> nat" where
  "data_blocks files args = nmeta + used (16 * (2 + length args)) + sum_list (map (\<lambda>a. used (length (file_data files a))) args)"

definition made :: "(cstring \<Rightarrow> byte list list option) \<Rightarrow> mkfs \<Rightarrow> cstring list \<Rightarrow> bool" where
  "made files s args \<longleftrightarrow> image_ok s \<and> unat (m_freeinode s) = 2 + length args \<and> contents s 1 = root_entries args
     \<and> i_type (dnode s 1) = T_DIR \<and> (\<forall>k < length args. contents s (k + 2) = file_data files (args ! k) \<and> i_type (dnode s (k + 2)) = T_FILE)
     \<and> sb_of_bytes (m_img s 1) = mkfs_sb \<and> unat (m_freeblock s) = data_blocks files args"

lemma length_dirent [simp]: "length (dirent_bytes name i) = 16"
  by (simp add: dirent_bytes_def Let_def)

lemma length_root_entries: "length (root_entries args) = 16 * (2 + length args)"
proof -
  have "length (concat (map (\<lambda>k. dirent_bytes (skip_underscore (shortname (args ! k))) (word_of_nat (k + 2))) [0..<n])) = 16 * n" for n
    by (induction n) simp_all
  then show ?thesis by (simp add: root_entries_def dot_entry_def bytes_def overwrite_def)
qed

lemma root_entries_snoc: "root_entries (args @ [a]) = root_entries args @ dirent_bytes (skip_underscore (shortname a)) (word_of_nat (length args + 2))"
  by (auto simp: root_entries_def nth_append intro!: arg_cong [where f = concat] map_cong)

lemma data_blocks_snoc:
  "data_blocks files (args @ [a]) + used (16 * (2 + length args))
    = data_blocks files args + used (16 * (3 + length args)) + used (length (file_data files a))"
  by (simp add: data_blocks_def)

lemma add_file_made:
  assumes m: "made files s args" and a: "files a \<noteq> None" "47 \<notin> set (shortname a)" "length (file_data files a) \<le> MAXFILE * BSIZE"
    and lim: "length args < 198" and sp: "data_blocks files (args @ [a]) \<le> FSSIZE"
  shows "\<exists>t. add_file files 1 a s = Ok (Inr ()) t \<and> made files t (args @ [a])"
proof -
  obtain ps where ps: "files a = Some ps" using a(1) by auto
  let ?ps = "takeWhile (\<lambda>buf. buf \<noteq> []) ps" let ?i = "m_freeinode s" let ?e = "dirent_bytes (skip_underscore (shortname a)) ?i"
  have data: "file_data files a = concat ?ps" using ps by (simp add: file_data_def)
  have im: "image_ok s" and fi: "unat ?i = 2 + length args" and root: "contents s 1 = root_entries args" "1 \<in> inums s"
    and fbs: "unat (m_freeblock s) = data_blocks files args" using m by (auto simp: made_def inums_def)
  obtain t1 where r1: "mk_ialloc T_FILE s = Ok (Inr ?i) t1" and im1: "image_ok t1" and c1: "contents t1 (unat ?i) = []"
    and ty1: "i_type (dnode t1 (unat ?i)) = T_FILE" and b1: "beside s t1 {}" and fb1: "m_freeblock t1 = m_freeblock s"
    and fi1: "unat (m_freeinode t1) = unat ?i + 1" using ialloc_ok [OF im, of T_FILE] fi lim by auto
  have root1: "contents t1 1 = root_entries args" "1 \<in> inums t1" "unat ?i \<in> inums t1" using b1 root fi fi1 by (auto simp: beside_def inums_def)
  have u16: "used (16 * (2 + length args)) \<le> used (16 * (3 + length args))" by (rule used_mono) simp
  have "room t1 1 (length ?e)"
    unfolding room_def root1(1) length_root_entries using fb1 fbs sp data_blocks_snoc [of files args a] lim by (simp add: algebra_simps)
  then obtain t2 where r2: "iappend 1 ?e (word_of_nat (length ?e)) t1 = Ok (Inr ()) t2" and h2: "holds t1 1 ?e t2"
    using iappend_holds [OF im1, of 1 ?e] root1(2) by auto
  have c2: "contents t2 (unat ?i) = []" "unat ?i \<in> inums t2" using h2 c1 root1(3) fi by (auto simp: holds_def beside_def inums_def)
  have f2: "unat (m_freeblock t2) + used (16 * (2 + length args)) = data_blocks files args + used (16 * (3 + length args))"
    using h2 fb1 fbs root1(1) length_root_entries [of args] by (simp add: holds_def)
  have "room t2 (unat ?i) (length (concat ?ps))"
    using a(3) sp data_blocks_snoc [of files args a] f2 unfolding room_def c2(1) data by (simp add: used_def)
  then obtain t where r3: "uforM ?ps (\<lambda>buf. iappend ?i buf (word_of_nat (length buf))) t2 = Ok (Inr ()) t"
    and h3: "holds t2 (unat ?i) (concat ?ps) t" using iappend_all [of t2 ?i ?ps] h2 c2(2) by (auto simp: holds_def)
  have as: "assertM (47 \<notin> set (shortname a)) s = Ok (Inr ()) s" using a(2) by (simp add: assertM_def uret_run)
  have r2': "iappend 1 ?e 16 t1 = Ok (Inr ()) t2" using r2 by simp
  have run: "add_file files 1 a s = Ok (Inr ()) t"
    unfolding add_file_def Let_def ps option.case
    by (rule useq_step, rule as, rule ubind_step, rule r1, rule useq_step, rule r2', rule r3)
  have i: "?i = word_of_nat (length args + 2)" using fi lim by (simp add: word_unat_eq_iff unat_word_ariths unat_of_nat)
  have b: "beside s t ({1} \<union> {unat ?i})" using beside_trans [OF b1 beside_trans] h2 h3 by (fastforce simp: holds_def)
  have old: "contents t (k + 2) = contents s (k + 2)" "i_type (dnode t (k + 2)) = i_type (dnode s (k + 2))" if "k < length args" for k
    using b that fi by (auto simp: beside_def inums_def)
  have root3: "contents t 1 = root_entries args @ ?e" "i_type (dnode t 1) = T_DIR"
    using b m h2 h3 root(2) root1 fi by (auto simp: holds_def beside_def made_def inums_def)
  have new: "contents t (unat ?i) = file_data files a" "i_type (dnode t (unat ?i)) = T_FILE"
    using h2 h3 c2 ty1 root1(3) data fi by (auto simp: holds_def beside_def)
  have fbt: "unat (m_freeblock t) = data_blocks files (args @ [a])"
    using h3 c2(1) new(1) f2 data_blocks_snoc [of files args a] by (simp add: holds_def) (simp add: used_def)
  have "made files t (args @ [a])"
    unfolding made_def
  proof (intro conjI allI impI)
    show "contents t 1 = root_entries (args @ [a])" using root3(1) unfolding root_entries_snoc i by simp
    fix k assume "k < length (args @ [a])"
    then have kl: "k < length args \<or> k = length args" by auto
    have o: "contents t (k + 2) = file_data files ((args @ [a]) ! k) \<and> i_type (dnode t (k + 2)) = T_FILE" if "k < length args"
      using old [OF that] m that by (simp add: made_def nth_append)
    have n: "contents t (k + 2) = file_data files ((args @ [a]) ! k) \<and> i_type (dnode t (k + 2)) = T_FILE" if "k = length args"
    proof -
      have "k + 2 = unat ?i" using that fi by simp
      then show ?thesis using new that by (simp add: nth_append)
    qed
    show "contents t (k + 2) = file_data files ((args @ [a]) ! k)" "i_type (dnode t (k + 2)) = T_FILE" using kl o n by blast+
  qed (use h3 h2 root3 fi fi1 m b fbt in \<open>auto simp: holds_def made_def beside_def\<close>)
  then show ?thesis using run by blast
qed

lemma data_blocks_mono: "data_blocks files args \<le> data_blocks files (args @ bs)"
proof -
  have "used (16 * (2 + length args)) \<le> used (16 * (2 + length (args @ bs)))" by (rule used_mono) simp
  then show ?thesis by (simp add: data_blocks_def)
qed

lemma add_files_made:
  assumes "made files s args" "\<And>a. a \<in> set bs \<Longrightarrow> files a \<noteq> None \<and> 47 \<notin> set (shortname a) \<and> length (file_data files a) \<le> MAXFILE * BSIZE"
    "length (args @ bs) \<le> 198" "data_blocks files (args @ bs) \<le> FSSIZE"
  shows "\<exists>t. uforM bs (add_file files 1) s = Ok (Inr ()) t \<and> made files t (args @ bs)"
  using assms
proof (induction bs arbitrary: s args)
  case Nil
  then show ?case by (simp add: uret_run)
next
  case (Cons b bs)
  have "data_blocks files (args @ [b]) \<le> FSSIZE" using data_blocks_mono [of files "args @ [b]" bs] Cons.prems(4) by simp
  then obtain t where r1: "add_file files 1 b s = Ok (Inr ()) t" and m1: "made files t (args @ [b])"
    using add_file_made [OF Cons.prems(1), of b] Cons.prems(2) [of b] Cons.prems(3) by auto
  obtain u where r2: "uforM bs (add_file files 1) t = Ok (Inr ()) u" and m2: "made files u ((args @ [b]) @ bs)"
    using Cons.IH [OF m1] Cons.prems(2-4) by auto
  have "uforM (b # bs) (add_file files 1) s = Ok (Inr ()) u"
    unfolding uforM.simps by (rule useq_step, rule r1, rule r2)
  then show ?case using m2 by auto
qed

lemma uforM_append: "uforM (xs @ ys) f = useq (uforM xs f) (uforM ys f)"
  by (induction xs) (simp_all add: useq_def ubind_def uret_def bind_assoc fun_eq_iff bind_def ret_def split: outcome.splits sum.splits)

lemma zero_image:
  assumes "\<And>b. m_io s b" "m_img s = (\<lambda>_. zeroes)" "m_len s = 0"
  shows "n \<le> FSSIZE \<Longrightarrow> uforM [0..<n] (\<lambda>i. wsect (word_of_nat i) zeroes) s = Ok (Inr ()) (s\<lparr>m_len := n\<rparr>)"
proof (induction n)
  case 0
  then show ?case using assms(3) by (simp add: uret_run)
next
  case (Suc n)
  have u: "unat (word_of_nat n :: uint) = n" using Suc.prems by (simp add: unat_of_nat)
  have "wsect (word_of_nat n) zeroes (s\<lparr>m_len := n\<rparr>) = Ok (Inr ()) (s\<lparr>m_len := Suc n\<rparr>)"
    using Suc.prems assms u
    by (simp add: wsect_def ubind_def sys_def call_def bind_def gets_def modify_def uret_def ret_def sector_small Let_def max_def fun_upd_idem)
  then show ?case using Suc by (simp add: uforM_append) (rule useq_step, assumption, rule useq_step, assumption, rule uret_run)
qed

lemma sb_roundtrip: "sb_of_bytes (overwrite zeroes 0 (sb_bytes S)) = S"
proof -
  let ?ws = "[sb_magic S, sb_size S, sb_nblocks S, sb_ninodes S, sb_nlog S, sb_logstart S, sb_inodestart S, sb_bmapstart S]"
  have b: "sb_bytes S = concat (map (le_bytes 4) (map ucast ?ws))" by (simp add: sb_bytes_def)
  have len: "length (sb_bytes S) = 32" "length zeroes = 1024" by (simp_all add: sb_bytes_def zeroes_def)
  have f: "(ucast (get_le 4 (overwrite zeroes 0 (sb_bytes S)) (4 * i)) :: uint) = ?ws ! i" if "i < 8" for i
  proof -
    have "get_le 4 (overwrite zeroes 0 (sb_bytes S)) (0 + 4 * i) = get_le 4 (sb_bytes S) (4 * i)"
      by (rule get_le_overwrite) (use len that in simp_all)
    also have "\<dots> = take_bit 32 (map ucast ?ws ! i)" unfolding b using get_le_concat [of i "map ucast ?ws" 4] that by simp
    also have "map ucast ?ws ! i = (ucast (?ws ! i) :: uint64)" using that by (intro nth_map) simp
    finally show ?thesis by (simp add: take_bit_ucast32)
  qed
  show ?thesis
    using f [of 0] f [of 1] f [of 2] f [of 3] f [of 4] f [of 5] f [of 6] f [of 7]
    by (simp add: sb_of_bytes_def Let_def)
qed

lemma made_start:
  assumes "\<And>b. m_io s b" "m_freeinode s = 1" "m_img s = (\<lambda>_. zeroes)(1 := overwrite zeroes 0 (sb_bytes mkfs_sb))" "m_len s = FSSIZE"
    "m_sb s = mkfs_sb" "m_freeblock s = word_of_nat nmeta"
  shows "\<exists>t u v. mk_ialloc T_DIR s = Ok (Inr 1) t \<and> iappend 1 (dot_entry (bytes ''.'') 1) 16 t = Ok (Inr ()) u
    \<and> iappend 1 (dot_entry (bytes ''..'') 1) 16 u = Ok (Inr ()) v \<and> made files v []"
proof -
  have fb: "unat (m_freeblock s) = 46" using assms(6) by simp
  have g: "good s" using assms fb by (auto simp: good_def zeroes_def length_overwrite sb_bytes_def)
  have im: "image_ok s" unfolding image_ok_def using g assms(2,5) fb by (simp add: inums_def)
  let ?d = "dot_entry (bytes ''.'') 1" and ?dd = "dot_entry (bytes ''..'') 1"
  have len: "length ?d = 16" "length ?dd = 16" by (simp_all add: dot_entry_def bytes_def overwrite_def)
  obtain t where r1: "mk_ialloc T_DIR s = Ok (Inr 1) t" and im1: "image_ok t" and c1: "contents t 1 = []" and ty1: "i_type (dnode t 1) = T_DIR"
    and b1: "beside s t {}" and fb1: "m_freeblock t = m_freeblock s" and fi1: "unat (m_freeinode t) = 2"
    using ialloc_ok [OF im, of T_DIR] assms(2) by auto
  have "room t 1 (length ?d)" using c1 fb1 fb len by (simp add: room_def used_def)
  then obtain u where r2: "iappend 1 ?d (word_of_nat (length ?d)) t = Ok (Inr ()) u" and h2: "holds t 1 ?d u"
    using iappend_holds [OF im1, of 1 ?d] fi1 by (auto simp: inums_def)
  have "room u 1 (length ?dd)" using h2 c1 fb1 fb len by (simp add: room_def holds_def used_def)
  then obtain v where r3: "iappend 1 ?dd (word_of_nat (length ?dd)) u = Ok (Inr ()) v" and h3: "holds u 1 ?dd v"
    using iappend_holds [of u 1 ?dd] fi1 h2 by (auto simp: inums_def holds_def)
  have b: "beside s v ({1} \<union> {1})" using beside_trans [OF b1 beside_trans] h2 h3 by (fastforce simp: holds_def)
  have "made files v []"
    unfolding made_def
  proof (intro conjI allI impI)
    show "contents v 1 = root_entries []" using h2 h3 c1 by (simp add: holds_def root_entries_def)
    show "i_type (dnode v 1) = T_DIR" using h2 h3 ty1 fi1 by (auto simp: holds_def beside_def inums_def)
    show "sb_of_bytes (m_img v 1) = mkfs_sb" using b assms(3) sb_roundtrip [of mkfs_sb] by (simp add: beside_def)
    show "unat (m_freeblock v) = data_blocks files []" using h2 h3 c1 fb1 fb len by (simp add: holds_def used_def data_blocks_def)
    show "unat (m_freeinode v) = 2 + length ([] :: cstring list)" using h2 h3 fi1 by (simp add: holds_def)
  qed (use h3 in \<open>auto simp: holds_def\<close>)
  then show ?thesis using r1 r2 r3 len by auto
qed

section \<open>The free map and the root\<close>

lemma bm_fold:
  assumes "b < 8192"
  shows "n \<le> 8192 \<Longrightarrow> length (fold (\<lambda>i b. bm_set b i) [0..<n] zeroes) = 1024 \<and> (bm_bit (fold (\<lambda>i b. bm_set b i) [0..<n] zeroes) b \<longleftrightarrow> b < n)"
proof (induction n)
  case 0
  have "zeroes ! (b div 8) = 0" using assms by (simp add: zeroes_def)
  then show ?case by (simp add: zeroes_def bm_bit_def)
next
  case (Suc n)
  let ?d = "fold (\<lambda>i b. bm_set b i) [0..<n] zeroes"
  have d: "length ?d = BSIZE" "n < BPB" "b < BPB" using Suc assms by auto
  show ?case using bm_bit_set(1) [OF d] Suc by (auto simp: bm_set_def)
qed

text \<open>What the finished image holds.\<close>

definition file_system :: "(cstring \<Rightarrow> byte list list option) \<Rightarrow> cstring list \<Rightarrow> mkfs \<Rightarrow> bool" where
  "file_system files args t \<longleftrightarrow>
     sb_of_bytes (m_img t 1) = mkfs_sb
     \<and> i_type (dnode t 1) = T_DIR \<and> take (16 * (2 + length args)) (contents t 1) = root_entries args
     \<and> (\<forall>i < length (contents t 1). 16 * (2 + length args) \<le> i \<longrightarrow> blk (m_img t) (dnode t 1) (i div BSIZE) \<noteq> 0 \<longrightarrow> contents t 1 ! i = 0)
     \<and> (\<forall>k < length args. i_type (dnode t (k + 2)) = T_FILE \<and> contents t (k + 2) = file_data files (args ! k))
     \<and> (\<forall>b < FSSIZE. bm_bit (m_img t 45) b \<longleftrightarrow> b < data_blocks files args)
     \<and> (\<forall>i \<in> {1..<2 + length args}. owned (m_img t) (dnode t i) \<subseteq> {nmeta..<data_blocks files args})
     \<and> (\<forall>i \<in> {1..<2 + length args}. \<forall>k \<in> {1..<2 + length args}. i \<noteq> k \<longrightarrow> owned (m_img t) (dnode t i) \<inter> owned (m_img t) (dnode t k) = {})"

lemma finished:
  assumes m: "made files s args" and lim: "length args \<le> 198"
    and data: "\<And>b. nmeta \<le> b \<or> b < 32 \<Longrightarrow> m_img u b = m_img s b"
    and d1: "same_on_disk ((dnode s 1)\<lparr>i_size := new\<rparr>) (dnode u 1)" and dk: "\<And>k. k \<in> inums s \<Longrightarrow> k \<noteq> 1 \<Longrightarrow> dnode u k = dnode s k"
    and bits: "m_img u 45 = fold (\<lambda>i b. bm_set b i) [0..<data_blocks files args] zeroes"
    and new: "16 * (2 + length args) < unat new" "unat new \<le> MAXFILE * BSIZE"
  shows "file_system files args u"
proof -
  let ?x = "dnode s 1" let ?off = "16 * (2 + length args)" let ?d = "m_img s" let ?n = "data_blocks files args"
  have im: "image_ok s" and fi: "inums s = {1..<2 + length args}" and root: "contents s 1 = root_entries args" and fbs: "unat (m_freeblock s) = ?n"
    and sb: "sb_of_bytes (?d 1) = mkfs_sb" and ty: "i_type ?x = T_DIR"
    and fil: "\<And>k. k < length args \<Longrightarrow> contents s (k + 2) = file_data files (args ! k) \<and> i_type (dnode s (k + 2)) = T_FILE"
    using m by (auto simp: made_def inums_def)
  have fb: "nmeta \<le> ?n" "?n \<le> FSSIZE" and oks: "\<And>k. k \<in> inums s \<Longrightarrow> file_ok ?d ?n (dnode s k)"
    and dj: "\<And>k l. k \<in> inums s \<Longrightarrow> l \<in> inums s \<Longrightarrow> k \<noteq> l \<Longrightarrow> owned ?d (dnode s k) \<inter> owned ?d (dnode s l) = {}"
    using im fbs by (auto simp: image_ok_def)
  have one: "1 \<in> inums s" using fi by simp
  have same: "m_img u b = ?d b" if "k \<in> inums s" "b \<in> owned ?d (dnode s k)" for k b
    using data file_owned [OF oks [OF that(1)] that(2)] by simp
  note v = same_on_disk_views [OF d1] blk_same_on_disk [OF d1]
  have o1: "owned (m_img u) (dnode u k) = owned ?d (dnode s k)" if "k \<in> inums s" for k
    using owned_cong [of ?d "dnode s k" "m_img u", OF same [OF that]] v(1) [of "m_img u"] dk [OF that] by (cases "k = 1") simp_all
  have ck: "contents u k = contents s k" if "k \<in> inums s" "k \<noteq> 1" for k
    using file_bytes_cong [OF oks [OF that(1)] same [OF that(1)]] dk [OF that] by (simp add: contents_def)
  have off: "unat (i_size ?x) = ?off" using length_contents [of s 1] root length_root_entries [of args] by simp
  have b1: "blk (m_img u) (dnode u 1) = blk ?d ?x" using v(4) [of "m_img u"] blk_cong [of ?d ?x "m_img u", OF same [OF one]] by (simp add: fun_eq_iff)
  have s1: "i_size (dnode u 1) = new" using d1 by (simp add: same_on_disk_def)
  have at: "contents u 1 ! i = ?d (unat (blk ?d ?x (i div BSIZE))) ! (i mod BSIZE)"
    if "i < unat new" "blk ?d ?x (i div BSIZE) \<noteq> 0" for i
  proof -
    have "contents u 1 ! i = m_img u (unat (blk ?d ?x (i div BSIZE))) ! (i mod BSIZE)"
      using that(1) by (simp only: contents_def file_bytes_def b1 s1) simp
    also have "m_img u (unat (blk ?d ?x (i div BSIZE))) = ?d (unat (blk ?d ?x (i div BSIZE)))"
      by (rule same [OF one], rule blk_in_owned) (use that new in simp_all)
    finally show ?thesis .
  qed
  have len: "length (contents u 1) = unat new" using s1 by (simp add: length_contents)
  show ?thesis
    unfolding file_system_def
  proof (intro conjI allI ballI impI)
    show "sb_of_bytes (m_img u 1) = mkfs_sb" using data [of 1] sb by simp
    show "i_type (dnode u 1) = T_DIR" using d1 ty by (simp add: same_on_disk_def)
    show "take ?off (contents u 1) = root_entries args"
    proof (rule nth_equalityI)
      show "length (take ?off (contents u 1)) = length (root_entries args)" using len new by (simp add: length_root_entries)
      fix i assume "i < length (take ?off (contents u 1))"
      then have i: "i < ?off" "i < unat new" using new by simp_all
      have "i div BSIZE < MAXFILE" using i new by simp
      then have "blk ?d ?x (i div BSIZE) \<noteq> 0" using file_blk [OF oks [OF one], of "i div BSIZE"] off i by simp
      then have "contents u 1 ! i = contents s 1 ! i" using at [OF i(2)] i(1) off by (simp add: contents_def file_bytes_def)
      then show "take ?off (contents u 1) ! i = root_entries args ! i" using i root by simp
    qed
  next
    fix i assume i: "i < length (contents u 1)" "?off \<le> i" "blk (m_img u) (dnode u 1) (i div BSIZE) \<noteq> 0"
    then have "contents u 1 ! i = ?d (unat (blk ?d ?x (i div BSIZE))) ! (i mod BSIZE)" using at len b1 by simp
    also have "\<dots> = 0" using oks [OF one] i len new off unfolding b1 by (simp add: file_ok_def)
    finally show "contents u 1 ! i = 0" .
  next
    fix k assume k: "k < length args"
    then have "k + 2 \<in> inums s" "k + 2 \<noteq> 1" using fi by auto
    then show "i_type (dnode u (k + 2)) = T_FILE" "contents u (k + 2) = file_data files (args ! k)" using ck dk fil [OF k] by simp_all
  next
    fix b assume "b < FSSIZE"
    then show "bm_bit (m_img u 45) b = (b < ?n)" unfolding bits using bm_fold [of b ?n] fb by simp
  next
    fix i k assume ik: "i \<in> {1..<2 + length args}" "k \<in> {1..<2 + length args}" "i \<noteq> k"
    then show "owned (m_img u) (dnode u i) \<inter> owned (m_img u) (dnode u k) = {}" using o1 dj fi by simp
  next
    fix i assume "i \<in> {1..<2 + length args}"
    then show "owned (m_img u) (dnode u i) \<subseteq> {nmeta..<?n}" using o1 [of i] file_owned [OF oks, of i] fi by auto
  qed
qed

lemma finish:
  assumes m: "made files s args" and lim: "length args \<le> 198"
  shows "\<exists>t u. fix_root 1 s = Ok (Inr ()) t \<and> mk_balloc (m_freeblock t) t = Ok (Inr ()) u \<and> file_system files args u"
proof -
  let ?off = "i_size (dnode s 1)" let ?new = "(?off div word_of_nat BSIZE + 1) * word_of_nat BSIZE"
  let ?n = "data_blocks files args" let ?map = "fold (\<lambda>i b. bm_set b i) [0..<?n] zeroes"
  have im: "image_ok s" and fi: "inums s = {1..<2 + length args}" and fbs: "unat (m_freeblock s) = ?n" and root: "contents s 1 = root_entries args"
    using m by (auto simp: made_def inums_def)
  have g: "good s" and sb: "m_sb s = mkfs_sb" and fb: "nmeta \<le> unat (m_freeblock s)" "?n \<le> FSSIZE" using im fbs by (auto simp: image_ok_def)
  obtain X where X: "(dnode s 1)\<lparr>i_size := ?new\<rparr> = X" by simp
  obtain t where t: "put_inode s 1 X = t" by simp
  have un: "unat (1 :: uint) = 1" by simp
  have "winode 1 X s = Ok (Inr ()) t" using winode_run [OF g sb, of 1 X] unfolding un t [symmetric] put_inode_def by simp
  moreover have "rinode 1 s = Ok (Inr (dnode s 1)) s" using rinode_run [OF g sb, of 1] unfolding un by simp
  ultimately have r1: "fix_root 1 s = Ok (Inr ()) t"
    unfolding fix_root_def xint_id Let_def by (intro ubind_step) (assumption, simp only: X)
  have gt: "good t" and tf: "m_freeblock t = m_freeblock s" "m_sb t = mkfs_sb" using good_put [OF g, of 1 X] fb sb by (auto simp: t [symmetric])
  let ?u = "t\<lparr>m_img := (m_img t)(45 := ?map)\<rparr>"
  have r2: "mk_balloc (m_freeblock t) t = Ok (Inr ()) ?u"
  proof -
    have sg: "sint (m_freeblock t) = int ?n" using fbs fb tf by (subst sint_unat) simp_all
    have as: "assertM (int ?n < int BSIZE * 8) t = Ok (Inr ()) t" using fb by (simp add: assertM_def uret_run)
    have bs: "unat (sb_bmapstart mkfs_sb) = 45" by (simp add: mkfs_sb_def)
    have w: "wsect (sb_bmapstart mkfs_sb) ?map t = Ok (Inr ()) ?u" using wsect_run [OF gt, of "sb_bmapstart mkfs_sb"] bs by simp
    show ?thesis unfolding mk_balloc_def Let_def sg nat_int
      by (rule useq_step, rule as, rule ubind_step, rule sys_run, rule gets_run, unfold tf, rule w)
  qed
  have off: "unat ?off = 16 * (2 + length args)" using length_contents [of s 1] root length_root_entries [of args] by simp
  have new: "unat ?off < unat ?new" "unat ?new \<le> MAXFILE * BSIZE"
  proof -
    have q: "unat ?off div 1024 < 4" "unat ?off < (unat ?off div 1024 + 1) * 1024" using off lim dividend_less_div_times [of 1024 "unat ?off"] by simp_all
    then have "unat ?new = (unat ?off div 1024 + 1) * 1024" by (simp add: unat_word_ariths unat_div)
    then show "unat ?off < unat ?new" "unat ?new \<le> MAXFILE * BSIZE" using q by simp_all
  qed
  have "file_system files args ?u"
  proof (rule finished [OF m lim, where new = ?new])
    show "m_img ?u b = m_img s b" if "nmeta \<le> b \<or> b < 32" for b using that by (auto simp: t [symmetric] put_inode_def iblock_def)
    have du: "dnode ?u k = dnode t k" if "k < 200" for k using that by (simp add: dnode_def iblock_def)
    show "same_on_disk ((dnode s 1)\<lparr>i_size := ?new\<rparr>) (dnode ?u 1)" using dnode_put(1) [OF g, of X 1] du [of 1] X t by simp
    show "dnode ?u k = dnode s k" if "k \<in> inums s" "k \<noteq> 1" for k
      using dnode_put(2) [OF g that(2), of X] du [of k] that fi lim t by simp
  qed (use new off in simp_all)
  then show ?thesis using r1 r2 by blast
qed

text \<open>C5: The image that \<open>mkfs\<close> writes holds the files it was given. When the host does its part, the files exist and are not too
  big, and the disk is large enough for them, the tool exits with status 0 and leaves an image in which the super block
  reads back as the layout of the disk; inode 1 is a directory with the entries \<open>.\<close>, \<open>..\<close> and one per file, in order, under its
  name without \<open>user/\<close> and a leading underscore, and zeros behind them; inode 2 and up are the files, and reading them
  through the block addresses of the inode, direct and indirect, gives exactly the bytes of the host file; no block
  belongs to two files, and the free map marks exactly the blocks that have been given out.\<close>

theorem mkfs_builds_file_system:
  assumes argv: "2 \<le> length argv" "creat (argv ! 1)" and host: "\<And>b. m_io s b" and fresh: "m_freeinode s = 1"
    and fs: "\<And>a. a \<in> set (drop 2 argv) \<Longrightarrow> files a \<noteq> None \<and> 47 \<notin> set (shortname a) \<and> length (file_data files a) \<le> MAXFILE * BSIZE"
    and size: "length argv \<le> 200" "data_blocks files (drop 2 argv) \<le> FSSIZE"
  shows "\<exists>t. mkfs_main creat files argv s = Ok (Inl 0) t \<and> file_system files (drop 2 argv) t"
proof -
  let ?args = "drop 2 argv"
  let ?s1 = "s\<lparr>m_img := (\<lambda>_. zeroes), m_len := 0, m_sb := mkfs_sb, m_freeblock := word_of_nat nmeta\<rparr>"
  let ?s2 = "?s1\<lparr>m_len := FSSIZE\<rparr>" let ?s3 = "?s2\<lparr>m_img := (\<lambda>_. zeroes)(1 := overwrite zeroes 0 (sb_bytes mkfs_sb))\<rparr>"
  have r1: "uforM [0..<FSSIZE] (\<lambda>i. wsect (word_of_nat i) zeroes) ?s1 = Ok (Inr ()) ?s2"
    by (rule zero_image) (simp_all add: host)
  have "good ?s2" using host by (simp add: good_def zeroes_def)
  then have w: "wsect 1 (overwrite zeroes 0 (sb_bytes mkfs_sb)) ?s2 = Ok (Inr ()) ?s3" using wsect_run [of ?s2 1] by simp
  have r2: "ubind (sys (gets m_sb)) (\<lambda>S. wsect 1 (overwrite zeroes 0 (sb_bytes S))) ?s2 = Ok (Inr ()) ?s3"
    by (rule ubind_step, rule sys_run, rule gets_run) (use w in simp)
  obtain t1 t2 t3 where r3: "mk_ialloc T_DIR ?s3 = Ok (Inr 1) t1" "iappend 1 (dot_entry (bytes ''.'') 1) 16 t1 = Ok (Inr ()) t2"
    "iappend 1 (dot_entry (bytes ''..'') 1) 16 t2 = Ok (Inr ()) t3" and m: "made files t3 []"
    using made_start [of ?s3 files] host fresh by auto
  have len: "length ?args \<le> 198" using size(1) by simp
  obtain t4 where r4: "uforM ?args (add_file files 1) t3 = Ok (Inr ()) t4" and m4: "made files t4 ?args"
    using add_files_made [OF m, of ?args] fs size(2) len by auto
  obtain t5 u where r5: "fix_root 1 t4 = Ok (Inr ()) t5" "mk_balloc (m_freeblock t5) t5 = Ok (Inr ()) u" and fin: "file_system files ?args u"
    using finish [OF m4 len] by auto
  have as: "assertM (1 = ROOTINO) t1 = Ok (Inr ()) t1" by (simp add: assertM_def uret_run)
  have ex: "uexit 0 u = Ok (Inl 0) u" by (simp add: uexit_def ret_def)
  have c: "\<not> length argv < 2" "\<not> \<not> creat (argv ! 1)" using argv by auto
  have "mkfs_main creat files argv s = Ok (Inl 0) u"
    unfolding mkfs_main_def if_not_P [OF c(1)] if_not_P [OF c(2)]
    by (rule useq_step, rule call_run, rule modify_run, rule useq_step, rule r1, rule useq_step, rule r2, rule ubind_step, rule r3(1),
        rule useq_step, rule as, rule useq_step, rule r3(2), rule useq_step, rule r3(3), rule useq_step, rule r4,
        rule useq_step, rule r5(1), rule ubind_step, rule sys_run, rule gets_run, rule useq_step, rule r5(2), rule ex)
  then show ?thesis using fin by blast
qed

definition mkfs0 :: mkfs where
  "mkfs0 = \<lparr>m_img = (\<lambda>_. zeroes), m_len = 0, m_io = (\<lambda>_. True), m_sb = mkfs_sb, m_freeinode = 1, m_freeblock = 0\<rparr>"

definition files0 :: "cstring \<Rightarrow> byte list list option" where
  "files0 = [bytes ''user/_ls'' \<mapsto> [[1, 2, 3], [4]], bytes ''README'' \<mapsto> [replicate 1024 7]]"

theorem mkfs_builds_file_system_witness:
  "\<exists>t. mkfs_main (\<lambda>_. True) files0 [bytes ''mkfs'', bytes ''fs.img'', bytes ''user/_ls'', bytes ''README''] mkfs0 = Ok (Inl 0) t
     \<and> contents t 2 = [1, 2, 3, 4] \<and> contents t 3 = replicate 1024 7 \<and> bm_bit (m_img t 45) 48 \<and> \<not> bm_bit (m_img t 45) 49"
proof -
  let ?argv = "[bytes ''mkfs'', bytes ''fs.img'', bytes ''user/_ls'', bytes ''README'']"
  have f: "files0 (bytes ''user/_ls'') = Some [[1, 2, 3], [4]]" "files0 (bytes ''README'') = Some [replicate 1024 7]"
    by (simp_all add: files0_def bytes_def)
  have d: "file_data files0 (bytes ''user/_ls'') = [1, 2, 3, 4]" "file_data files0 (bytes ''README'') = replicate 1024 7"
    by (simp_all add: file_data_def f)
  have n: "shortname (bytes ''user/_ls'') = bytes ''_ls''" "shortname (bytes ''README'') = bytes ''README''"
    by (simp_all add: shortname_def bytes_def)
  have s: "47 \<notin> set (bytes ''_ls'')" "47 \<notin> set (bytes ''README'')" by (simp_all add: bytes_def)
  have b: "data_blocks files0 [bytes ''user/_ls'', bytes ''README''] = 49" by (simp add: data_blocks_def d used_def)
  obtain t where t: "mkfs_main (\<lambda>_. True) files0 ?argv mkfs0 = Ok (Inl 0) t" "file_system files0 [bytes ''user/_ls'', bytes ''README''] t"
  proof -
    have "\<exists>t. mkfs_main (\<lambda>_. True) files0 ?argv mkfs0 = Ok (Inl 0) t \<and> file_system files0 (drop 2 ?argv) t"
    proof (rule mkfs_builds_file_system)
      show "files0 a \<noteq> None \<and> 47 \<notin> set (shortname a) \<and> length (file_data files0 a) \<le> MAXFILE * BSIZE" if "a \<in> set (drop 2 ?argv)" for a
        using that f d n s by auto
    qed (use b in \<open>simp_all add: mkfs0_def\<close>)
    then show ?thesis using that by auto
  qed
  have k: "contents t (k + 2) = file_data files0 ([bytes ''user/_ls'', bytes ''README''] ! k)" if "k < 2" for k
    using t(2) that by (simp add: file_system_def)
  have m: "bm_bit (m_img t 45) k \<longleftrightarrow> k < 49" if "k < 1000" for k using t(2) that b by (simp add: file_system_def)
  show ?thesis using t(1) k [of 0] k [of 1] d m [of 48] m [of 49] by (intro exI [of _ t]) (simp add: numeral_eq_Suc)
qed

end
