(* ===== verification/FileTools.thy ===== *)
theory FileTools
  imports Utils "HOL-Library.Signed_Division"
begin

text \<open>
  The file tools of \<open>Assignment-1\<close>: \<open>1.c\<close> writes a file backwards, \<open>2.c\<close> a part of it, \<open>3.c\<close> reports on the permissions of
  what they wrote. They run on the host: its files are a map from names to contents, \<open>io_open\<close> says which names can be
  opened for writing (once \<open>mkdir\<close> has run), \<open>io_mode\<close> is what \<open>stat\<close> finds, and the two files a tool has open have their offsets. The arithmetic
  of offsets is that of the source, where an unsigned \<open>size_t\<close> meets signed types. What the tools print while they work
  is left out; \<open>3.c\<close> only prints, and its output is modelled.
\<close>

section \<open>The host\<close>

record hostio =
  io_fs :: "cstring \<Rightarrow> byte list option"
  io_open :: "cstring \<Rightarrow> bool"
  io_mode :: "cstring \<Rightarrow> uint option"
  io_src :: cstring
  io_dst :: cstring
  io_pos :: int
  io_dpos :: nat
  io_out :: "byte list"

datatype whence = SEEK_SET | SEEK_CUR | SEEK_END

definition src_bytes :: "hostio \<Rightarrow> byte list" where
  "src_bytes s = (case io_fs s (io_src s) of None \<Rightarrow> [] | Some bs \<Rightarrow> bs)"

definition lseek_src :: "int \<Rightarrow> whence \<Rightarrow> (hostio, int) prog" where
  "lseek_src off wh s =
     (let p = (case wh of SEEK_SET \<Rightarrow> off | SEEK_CUR \<Rightarrow> io_pos s + off | SEEK_END \<Rightarrow> int (length (src_bytes s)) + off) in
      if p < 0 then Ok (-1) s else Ok p (s\<lparr>io_pos := p\<rparr>))"

definition read_src :: "nat \<Rightarrow> (hostio, byte list) prog" where
  "read_src n s = (let bs = take n (drop (nat (io_pos s)) (src_bytes s)) in
     Ok bs (s\<lparr>io_pos := io_pos s + int (length bs)\<rparr>))"

definition write_dst :: "byte list \<Rightarrow> (hostio, unit) prog" where
  "write_dst bs s = (let old = (case io_fs s (io_dst s) of None \<Rightarrow> [] | Some d \<Rightarrow> d) in
     Ok () (s\<lparr>io_fs := (io_fs s)(io_dst s \<mapsto> take (io_dpos s) old @ bs @ drop (io_dpos s + length bs) old),
              io_dpos := io_dpos s + length bs\<rparr>))"

definition open_src :: "cstring \<Rightarrow> (hostio, bool) prog" where
  "open_src name s = (case io_fs s name of None \<Rightarrow> Ok False s | Some _ \<Rightarrow> Ok True (s\<lparr>io_src := name, io_pos := 0\<rparr>))"

text \<open>\<open>O_CREAT\<close> without \<open>O_TRUNC\<close>: what the file holds stays.\<close>

definition open_dst :: "cstring \<Rightarrow> (hostio, bool) prog" where
  "open_dst name s = (if \<not> io_open s name then Ok False s
     else Ok True (s\<lparr>io_dst := name, io_dpos := 0,
       io_fs := (if io_fs s name = None then (io_fs s)(name \<mapsto> []) else io_fs s)\<rparr>))"

definition to_int :: "int \<Rightarrow> int" where
  "to_int x = sint (word_of_int x :: uint)"

text \<open>\<open>a += b\<close> on an \<open>int\<close>: overflow is undefined.\<close>

definition add_int :: "int \<Rightarrow> int \<Rightarrow> ('s, int) prog" where
  "add_int a b = (if - (2 ^ 31) \<le> a + b \<and> a + b < 2 ^ 31 then ret (a + b) else panic ''undefined: signed overflow'')"

definition to_size :: "int \<Rightarrow> uint64" where
  "to_size x = word_of_int x"

section \<open>Writing a file backwards: 1.c and 2.c\<close>

definition last_index :: "cstring \<Rightarrow> int" where
  "last_index a = fold (\<lambda>i l. if a ! i = 47 then int i else l) [0..<length a] (-1)"

definition output_name :: "string \<Rightarrow> cstring \<Rightarrow> cstring" where
  "output_name prefix a = bytes prefix @ drop (nat (last_index a + 1)) a"

definition reversed :: "byte list \<Rightarrow> byte list" where
  "reversed og = map (\<lambda>i. og ! (length og - i - 1)) [0..<length og]"

definition reverse_turn :: "int \<Rightarrow> int \<times> int \<Rightarrow> (hostio, int \<times> int + unit) prog" where
  "reverse_turn len = (\<lambda>(to_read, char_read).
     if char_read < len then
       bind (read_src (unat (to_size to_read))) (\<lambda>og. let br = int (length og) in
       seq (write_dst (reversed og))
      (bind (lseek_src 0 SEEK_CUR) (\<lambda>cur.
       if to_size cur - to_size br - 1024 < 0
       then seq (lseek_src 0 SEEK_CUR) (bind (add_int char_read br) (\<lambda>cr. ret (Inl (to_int (cur - br), cr))))
       else seq (lseek_src (sint (- to_size br - 1024)) SEEK_CUR) (bind (add_int char_read br) (\<lambda>cr. ret (Inl (1024, cr)))))))
     else ret (Inr ()))"

text \<open>The name is printed into a block of 100 bytes; a longer one is written past its end.\<close>

definition print_name :: "string \<Rightarrow> cstring \<Rightarrow> (hostio, cstring) uprog" where
  "print_name prefix a = (let name = output_name prefix a in
     if length name + 1 \<le> 100 then uret name else panic ''undefined: heap overflow'')"

text \<open>Both tools: open the files, find the end of the part to write, go back by at most \<open>size\<close> bytes and start.\<close>

definition reverse_from :: "int \<Rightarrow> whence \<Rightarrow> (hostio, unit) prog" where
  "reverse_from len wh =
     (if to_size len < 1024
      then seq (lseek_src (- len) wh) (loopM (reverse_turn len) (len, 0))
      else seq (lseek_src (sint (- 1024 :: uint64)) wh) (loopM (reverse_turn len) (1024, 0)))"

definition open_both :: "string \<Rightarrow> cstring \<Rightarrow> (hostio, unit) uprog" where
  "open_both prefix a =
     ubind (sys (open_src a)) (\<lambda>ok.
     if \<not> ok then uexit (-1)
     else ubind (print_name prefix a) (\<lambda>name.
       ubind (sys (open_dst name)) (\<lambda>ok. if \<not> ok then uexit (-1) else uret ())))"

definition reverse_main :: "cstring list \<Rightarrow> (hostio, unit) uprog" where
  "reverse_main argv =
     ubind (uarg_at argv 1) (\<lambda>a.
     useq (open_both ''Assignment/1_'' a)
    (ubind (sys (lseek_src 0 SEEK_END)) (\<lambda>e. let len = to_int e in
     useq (call (reverse_from len SEEK_END)) (uexit 0))))"

definition digit_arg :: "cstring \<Rightarrow> int" where
  "digit_arg a = (case a of [] \<Rightarrow> - 48 | c # _ \<Rightarrow> sint c - 48)"

definition reverse_part_main :: "cstring list \<Rightarrow> (hostio, unit) uprog" where
  "reverse_part_main argv =
     ubind (uarg_at argv 1) (\<lambda>x.
     useq (open_both ''Assignment/2_'' x)
    (ubind (sys (lseek_src 0 SEEK_END)) (\<lambda>e. let len = to_int e in
     ubind (uarg_at argv 2) (\<lambda>sa.
     ubind (uarg_at argv 3) (\<lambda>sb. let a = digit_arg sa; b = digit_arg sb in
     if a = 0 then panic ''SIGFPE''
     else (let len = len sdiv a in
       useq (call (lseek_src (to_int (b * len)) SEEK_SET))
      (useq (call (reverse_from len SEEK_CUR)) (uexit 0))))))))"

section \<open>Reporting the permissions: 3.c\<close>

definition say :: "byte list \<Rightarrow> (hostio, unit) uprog" where
  "say bs = call (modify (\<lambda>s. s\<lparr>io_out := io_out s @ bs\<rparr>))"

definition perm_bits :: "(string \<times> string \<times> uint) list" where
  "perm_bits = [(''User'', ''read'', 0x100), (''User'', ''write'', 0x80), (''User'', ''execute'', 0x40),
     (''Group'', ''read'', 0x20), (''Group'', ''write'', 0x10), (''Group'', ''execute'', 8),
     (''Others'', ''read'', 4), (''Others'', ''write'', 2), (''Others'', ''execute'', 1)]"

definition perm_report :: "string \<Rightarrow> uint \<Rightarrow> (hostio, unit) uprog" where
  "perm_report what mode = uforM perm_bits (\<lambda>(who, perm, m).
     useq (say (bytes (who @ '' has '' @ perm @ '' permission on '' @ what @ '': '') @ [0]))
          (if mode AND m \<noteq> 0 then say (bytes ''Yes'' @ [10, 0]) else say (bytes ''No'' @ [10, 0])))"

definition report_on :: "string \<Rightarrow> cstring \<Rightarrow> (hostio, unit) uprog" where
  "report_on what name =
     ubind (sys (gets (\<lambda>s. io_mode s name))) (\<lambda>m. case m of None \<Rightarrow> uexit (-1) | Some mode \<Rightarrow> perm_report what mode)"

text \<open>\<open>if(err = -1)\<close> is an assignment: its value is -1, whatever \<open>stat\<close> returned.\<close>

definition permissions_main :: "cstring list \<Rightarrow> (hostio, unit) uprog" where
  "permissions_main argv =
     ubind (uarg_at argv 1) (\<lambda>a.
     ubind (sys (gets (\<lambda>s. if io_mode s (bytes ''Assignment'') = None then -1 else 0 :: int))) (\<lambda>err. let err = -1 in
     if err \<noteq> (0 :: int) then
       useq (say (bytes ''Directory is created: Yes'' @ [10]))
      (useq (ubind (print_name ''Assignment/1_'' a) (report_on ''output_file_1''))
      (useq (ubind (print_name ''Assignment/2_'' a) (report_on ''output_file_2''))
      (useq (report_on ''directory'' (bytes ''Assignment'')) (uexit 0))))
     else useq (say (bytes ''Directory is created: No'' @ [10])) (uexit 0)))"

section \<open>What the tools write\<close>

lemma reversed_rev [simp]: "reversed og = rev og"
  by (rule nth_equalityI) (simp_all add: reversed_def rev_nth)

lemma last_index_slash: "last_index a = -1 \<or> 0 \<le> last_index a \<and> nat (last_index a) < length a \<and> a ! nat (last_index a) = 47"
proof -
  have "fold (\<lambda>i l. if a ! i = 47 then int i else l) [0..<n] (-1) = -1
      \<or> (\<exists>k < n. fold (\<lambda>i l. if a ! i = 47 then int i else l) [0..<n] (-1) = int k \<and> a ! k = 47)" for n
    by (induction n) (auto intro: less_SucI)
  from this [of "length a"] show ?thesis unfolding last_index_def by auto
qed

text \<open>The file a tool writes is never the one it reads: its last path element is longer.\<close>

lemma output_name_ne:
  assumes "bytes prefix \<noteq> []" "last (bytes prefix) \<noteq> 47"
  shows "output_name prefix a \<noteq> a"
proof
  assume eq: "output_name prefix a = a"
  let ?k = "nat (last_index a + 1)" and ?n = "length (bytes prefix)"
  have "?k \<le> length a" using last_index_slash [of a] by auto
  moreover have len: "?n + (length a - ?k) = length a" using arg_cong [OF eq, of length] by (simp add: output_name_def)
  ultimately have k: "?k = ?n" by simp
  have n: "0 < ?n" using assms(1) by simp
  have "a ! (?n - 1) = last (bytes prefix)"
    using n by (subst eq [symmetric]) (simp add: output_name_def nth_append last_conv_nth)
  moreover have "nat (last_index a) = ?n - 1" "last_index a \<noteq> -1" using k n by auto
  then have "a ! (?n - 1) = 47" using last_index_slash [of a] by auto
  ultimately show False using assms(2) by simp
qed

definition offset_after :: "nat \<Rightarrow> nat \<Rightarrow> nat" where
  "offset_after p n = (if p < 1024 then p + n else p - 1024)"

definition written :: "hostio \<Rightarrow> byte list \<Rightarrow> byte list \<Rightarrow> nat \<Rightarrow> hostio" where
  "written s old W p = s\<lparr>io_fs := (io_fs s)(io_dst s \<mapsto> W @ drop (length W) old), io_pos := int p, io_dpos := length W\<rparr>"

lemma to_size_small: "0 \<le> x \<Longrightarrow> x < 2 ^ 63 \<Longrightarrow> uint (to_size x) = x"
  by (simp add: to_size_def uint_word_of_int)

lemma sint_back: "n \<le> 1024 \<Longrightarrow> sint (- to_size (int n) - 1024) = - int n - 1024"
proof -
  assume n: "n \<le> 1024"
  have "- to_size (int n) - 1024 = word_of_int (- int n - 1024)"
    unfolding to_size_def by (simp only: wi_hom_syms word_of_int_numeral flip: word_of_int_numeral)
  moreover have "signed_take_bit 63 (- int n - 1024) = - int n - 1024" using n by (simp add: signed_take_bit_int_eq_self)
  ultimately show ?thesis by (simp only: signed_of_int) simp
qed

lemma reverse_turn_run:
  assumes "io_src s \<noteq> io_dst s" "io_fs s (io_src s) = Some bs" "cr < len" "to_read \<le> 1024" "c = take to_read (drop p bs)"
    and "0 \<le> cr" "cr + int (length c) < 2 ^ 31"
  shows "reverse_turn len (int to_read, cr) (written s old W p) =
    Ok (Inl (1024, cr + int (length c))) (written s old (W @ rev c) (offset_after p (length c)))"
proof -
  have c: "length c \<le> 1024" using assms(4,5) by simp
  have u: "unat (to_size (int to_read)) = to_read" using assms(4) by (simp add: to_size_def unat_of_nat)
  have r: "read_src to_read (written s old W p) = Ok c (written s old W (p + length c))"
  proof -
    have "src_bytes (written s old W p) = bs" "nat (io_pos (written s old W p)) = p"
      using assms(1,2) by (simp_all add: written_def src_bytes_def)
    then show ?thesis unfolding read_src_def Let_def assms(5) by (simp add: written_def)
  qed
  have w: "write_dst (rev c) (written s old W q) = Ok () (written s old (W @ rev c) q)" for q
    by (simp add: write_dst_def written_def Let_def add.commute)
  have k: "lseek_src 0 SEEK_CUR (written s old W' q) = Ok (int q) (written s old W' q)" for W' q
    by (simp add: lseek_src_def written_def Let_def)
  have l: "\<exists>v. lseek_src (sint (- to_size (int (length c)) - 1024)) SEEK_CUR (written s old W' (p + length c)) =
      Ok v (written s old W' (offset_after p (length c)))" for W'
    unfolding sint_back [OF c] by (simp add: lseek_src_def written_def offset_after_def Let_def)
  show ?thesis using assms(3) r w k l [of "W @ rev c"] assms(6,7)
    by (auto simp: reverse_turn_def run_simps u Let_def add_int_def)
qed

lemma loop_turn: "body x s = Ok (Inl y) t \<Longrightarrow> loopM body y t = r \<Longrightarrow> loopM body x s = r"
  by (subst loopM_unfold) (simp add: run_simps)

lemma loop_stop: "body x s = Ok (Inr v) t \<Longrightarrow> loopM body x s = Ok v t"
  by (subst loopM_unfold) (simp add: run_simps)

lemma reverse_done: "len \<le> cr \<Longrightarrow> loopM (reverse_turn len) (n, cr) s = Ok () s"
  by (rule loop_stop) (simp add: reverse_turn_def run_simps)

text \<open>The turns go back through the file block by block until less than a block is left in front of the offset.\<close>

lemma reverse_block:
  assumes "io_src s \<noteq> io_dst s" "io_fs s (io_src s) = Some bs" "cr < len" "p + 1024 \<le> length bs"
    and "0 \<le> cr" "cr + 1024 < 2 ^ 31"
  shows "loopM (reverse_turn len) (1024, cr) (written s old W p) = loopM (reverse_turn len) (1024, cr + 1024)
    (written s old (W @ rev (take 1024 (drop p bs))) (offset_after p 1024))"
proof (rule loop_turn)
  have "length (take 1024 (drop p bs)) = 1024" using assms(4) by simp
  then show "reverse_turn len (1024, cr) (written s old W p) =
      Ok (Inl (1024, cr + 1024)) (written s old (W @ rev (take 1024 (drop p bs))) (offset_after p 1024))"
    using reverse_turn_run [OF assms(1-3), of 1024 "take 1024 (drop p bs)" p old W] assms(5,6) by simp
qed simp

lemma reverse_blocks:
  assumes "io_src s \<noteq> io_dst s" "io_fs s (io_src s) = Some bs"
  shows "r + 1024 * Suc k \<le> length bs \<Longrightarrow> cr + 1024 * int k < len \<Longrightarrow> 0 \<le> cr \<Longrightarrow> cr + 1024 * int (Suc k) < 2 ^ 31 \<Longrightarrow>
     loopM (reverse_turn len) (1024, cr) (written s old W (r + 1024 * k)) =
     loopM (reverse_turn len) (1024, cr + 1024 * int (Suc k)) (written s old (W @ rev (take (1024 * Suc k) (drop r bs))) (offset_after r 1024))"
proof (induction k arbitrary: W cr)
  case 0
  then show ?case using reverse_block [OF assms(1,2), of cr len r old W] by (simp add: offset_after_def)
next
  case (Suc k)
  let ?c = "take 1024 (drop (r + 1024 * Suc k) bs)"
  have c: "take (1024 * Suc (Suc k)) (drop r bs) = take (1024 * Suc k) (drop r bs) @ ?c"
    using take_add [of "1024 * Suc k" 1024 "drop r bs"] by (simp add: algebra_simps)
  have "loopM (reverse_turn len) (1024, cr) (written s old W (r + 1024 * Suc k)) =
      loopM (reverse_turn len) (1024, cr + 1024) (written s old (W @ rev ?c) (r + 1024 * k))"
    using reverse_block [OF assms(1,2), of cr len "r + 1024 * Suc k" old W] Suc.prems by (simp add: offset_after_def)
  also have "\<dots> = loopM (reverse_turn len) (1024, cr + 1024 + 1024 * int (Suc k))
      (written s old ((W @ rev ?c) @ rev (take (1024 * Suc k) (drop r bs))) (offset_after r 1024))"
    by (rule Suc.IH) (use Suc.prems in simp_all)
  finally show ?case unfolding c by (simp add: algebra_simps)
qed

text \<open>What ends up in the output for a file with the contents \<open>bs\<close>. A file that is longer than a block and not a multiple of
  it does not come out right: the bytes in front of its last full block are lost, and a block is written twice.\<close>

definition reversal :: "byte list \<Rightarrow> byte list" where
  "reversal bs = (let n = length bs; r = n mod 1024 in
     if n \<le> 1024 \<or> r = 0 then rev bs
     else rev (drop r bs) @ rev (take 1024 (drop (if n < 2048 then r else r + 1024) bs)))"

lemma reverse_rest:
  assumes "io_src s \<noteq> io_dst s" "io_fs s (io_src s) = Some bs" "length bs = r + 1024 * Suc k" "0 < r" "r < 1024"
    and "length bs \<le> 2 ^ 31 - 1024"
  shows "\<exists>p. loopM (reverse_turn (int (length bs))) (1024, 1024 * int (Suc k)) (written s old W (r + 1024)) =
    Ok () (written s old (W @ rev (take 1024 (drop (if k = 0 then r else r + 1024) bs))) p)"
proof (cases k)
  case 0
  let ?w = "written s old W (r + 1024)"
  have "drop (r + 1024) bs = []" using assms(3) 0 by simp
  then have t: "reverse_turn (int (length bs)) (1024, 1024 * int (Suc k)) ?w = Ok (Inl (1024, 1024)) (written s old W r)"
    using reverse_turn_run [OF assms(1,2), of 1024 "int (length bs)" 1024 "[]" "r + 1024" old W] assms(3,4,6) 0
    by (simp add: offset_after_def)
  have "loopM (reverse_turn (int (length bs))) (1024, 1024 * int (Suc k)) ?w =
      loopM (reverse_turn (int (length bs))) (1024, 2048) (written s old (W @ rev (take 1024 (drop r bs))) (offset_after r 1024))"
    by (rule loop_turn, rule t) (use reverse_block [OF assms(1,2), of 1024 "int (length bs)" r old W] assms(3,4) 0 in simp)
  moreover have "int (length bs) \<le> 2048" using assms(3,5) 0 by simp
  ultimately show ?thesis using 0 by (simp add: reverse_done) blast
next
  case (Suc j)
  then have "loopM (reverse_turn (int (length bs))) (1024, 1024 * int (Suc k)) (written s old W (r + 1024)) =
      loopM (reverse_turn (int (length bs))) (1024, 1024 * int (Suc k) + 1024)
        (written s old (W @ rev (take 1024 (drop (r + 1024) bs))) (offset_after (r + 1024) 1024))"
    using reverse_block [OF assms(1,2), of "1024 * int (Suc k)" "int (length bs)" "r + 1024" old W] assms(3,4,6) by simp
  moreover have "int (length bs) \<le> 1024 * int (Suc k) + 1024" using assms(3,5) by simp
  ultimately show ?thesis using Suc by (simp add: reverse_done) blast
qed

lemma reverse_loop:
  assumes "io_src s \<noteq> io_dst s" "io_fs s (io_src s) = Some bs" "1024 < length bs"
    and "length bs \<le> 2 ^ 31 - 1024"
  shows "\<exists>p. loopM (reverse_turn (int (length bs))) (1024, 0) (written s old [] (length bs - 1024)) = Ok () (written s old (reversal bs) p)"
proof -
  let ?n = "length bs"
  obtain k r where kr: "?n = r + 1024 * Suc k" "r < 1024" "r = ?n mod 1024"
  proof -
    have "0 < ?n div 1024" using assms(3) by (simp add: div_greater_zero_iff)
    then obtain k where "?n div 1024 = Suc k" by (cases "?n div 1024") auto
    then show ?thesis using that [of "?n mod 1024" k] mod_mult_div_eq [of ?n 1024] by simp
  qed
  have "loopM (reverse_turn (int ?n)) (1024, 0) (written s old [] (r + 1024 * k)) =
      loopM (reverse_turn (int ?n)) (1024, 1024 * int (Suc k)) (written s old (rev (take (1024 * Suc k) (drop r bs))) (r + 1024))"
    using reverse_blocks [OF assms(1,2), of r k 0 "int ?n" old "[]"] kr(1,2) assms(4) by (simp add: offset_after_def)
  moreover have "take (1024 * Suc k) (drop r bs) = drop r bs" using kr(1) by simp
  moreover have "r + 1024 * k = ?n - 1024" using kr(1) by simp
  ultimately have run: "loopM (reverse_turn (int ?n)) (1024, 0) (written s old [] (?n - 1024)) =
      loopM (reverse_turn (int ?n)) (1024, 1024 * int (Suc k)) (written s old (rev (drop r bs)) (r + 1024))" by simp
  show ?thesis
  proof (cases "r = 0")
    case True
    have "?n mod 1024 = 0" using True kr(3) by simp
    then have "reversal bs = rev bs" by (simp add: reversal_def Let_def)
    moreover have "int ?n \<le> 1024 * int (Suc k)" using True kr(1) by simp
    ultimately show ?thesis unfolding run using True by (simp add: reverse_done) blast
  next
    case False
    have "?n < 2048 \<longleftrightarrow> k = 0" using kr(1,2) by auto
    then have "reversal bs = rev (drop r bs) @ rev (take 1024 (drop (if k = 0 then r else r + 1024) bs))"
      using assms(3) kr(3) False by (simp add: reversal_def Let_def)
    then show ?thesis unfolding run using reverse_rest [OF assms(1,2) kr(1) _ kr(2) assms(4)] False by simp
  qed
qed

definition contents_of :: "hostio \<Rightarrow> cstring \<Rightarrow> byte list" where
  "contents_of s name = (case io_fs s name of None \<Rightarrow> [] | Some bs \<Rightarrow> bs)"

definition opened :: "hostio \<Rightarrow> string \<Rightarrow> cstring \<Rightarrow> hostio" where
  "opened s prefix a = s\<lparr>io_src := a, io_dst := output_name prefix a\<rparr>"

lemma opened_fields [simp]: "io_src (opened s prefix a) = a" "io_dst (opened s prefix a) = output_name prefix a" "io_fs (opened s prefix a) = io_fs s"
  by (simp_all add: opened_def)

lemma print_name_run: "length (output_name prefix a) < 100 \<Longrightarrow> print_name prefix a s = Ok (Inr (output_name prefix a)) s"
  by (simp add: print_name_def Let_def uret_run)

lemma open_both_run:
  assumes "io_fs s a = Some bs" "io_open s (output_name prefix a)" "length (output_name prefix a) < 100"
  shows "open_both prefix a s = Ok (Inr ()) (written (opened s prefix a) (contents_of s (output_name prefix a)) [] 0)"
proof -
  let ?o = "output_name prefix a" and ?s1 = "s\<lparr>io_src := a, io_pos := 0\<rparr>"
  have r1: "open_src a s = Ok True ?s1" by (simp add: open_src_def assms(1))
  have r2: "open_dst ?o ?s1 = Ok True (written (opened s prefix a) (contents_of s ?o) [] 0)"
  proof (cases "io_fs s ?o")
    case (Some d)
    then have "(io_fs s)(?o \<mapsto> d) = io_fs s" by auto
    then have "written (opened s prefix a) (contents_of s ?o) [] 0 = s\<lparr>io_src := a, io_dst := ?o, io_pos := 0, io_dpos := 0\<rparr>"
      using Some by (simp add: written_def opened_def contents_of_def)
    then show ?thesis using Some assms(2) by (simp add: open_dst_def)
  qed (use assms(2) in \<open>simp add: open_dst_def written_def opened_def contents_of_def\<close>)
  show ?thesis unfolding open_both_def
    by (rule ubind_step, rule sys_run, rule r1, simp, rule ubind_step, rule print_name_run [OF assms(3)],
        rule ubind_step, rule sys_run, rule r2, simp add: uret_run)
qed

lemma to_int_small: "n < 2 ^ 31 \<Longrightarrow> to_int (int n) = int n"
  unfolding to_int_def by (simp only: signed_of_int) (simp add: signed_take_bit_int_eq_self)

lemma seek_end:
  assumes "io_src s \<noteq> io_dst s" "io_fs s (io_src s) = Some bs" "0 \<le> int (length bs) + off"
  shows "lseek_src off SEEK_END (written s old W p) = Ok (int (length bs) + off) (written s old W (nat (int (length bs) + off)))"
  using assms by (simp add: lseek_src_def written_def src_bytes_def Let_def)

lemma seek_set: "0 \<le> off \<Longrightarrow> lseek_src off SEEK_SET (written s old W p) = Ok off (written s old W (nat off))"
  by (simp add: lseek_src_def written_def Let_def)

lemma seek_cur: "0 \<le> int p + off \<Longrightarrow> lseek_src off SEEK_CUR (written s old W p) = Ok (int p + off) (written s old W (nat (int p + off)))"
  by (simp add: lseek_src_def written_def Let_def)

lemma reverse_from_short:
  assumes "io_src s \<noteq> io_dst s" "io_fs s (io_src s) = Some bs" "n \<le> e" "e \<le> length bs" "n \<le> 1024"
    and seek: "\<And>off. 0 \<le> int e + off \<Longrightarrow> lseek_src off wh (written s old [] e) = Ok (int e + off) (written s old [] (nat (int e + off)))"
  shows "\<exists>p. reverse_from (int n) wh (written s old [] e) = Ok () (written s old (rev (take n (drop (e - n) bs))) p)"
proof -
  have len: "length (take n (drop (e - n) bs)) = n" using assms(3,4) by simp
  show ?thesis
  proof (cases "n = 1024")
    case True
    have "lseek_src (- 1024) wh (written s old [] e) = Ok (int e - 1024) (written s old [] (e - 1024))"
      using seek [of "- 1024"] assms(3) True by (simp add: nat_diff_distrib')
    then have "reverse_from (int n) wh (written s old [] e) = loopM (reverse_turn 1024) (1024, 0) (written s old [] (e - 1024))"
      using True by (simp add: reverse_from_def to_size_def run_simps)
    then show ?thesis
      using reverse_block [OF assms(1,2), of 0 1024 "e - 1024" old "[]"] True assms(3,4) by (simp add: reverse_done) blast
  next
    case False
    have "lseek_src (- int n) wh (written s old [] e) = Ok (int e - int n) (written s old [] (e - n))"
      using seek [of "- int n"] assms(3) by (simp add: nat_diff_distrib')
    then have r: "reverse_from (int n) wh (written s old [] e) = loopM (reverse_turn (int n)) (int n, 0) (written s old [] (e - n))"
      using False assms(5) by (simp add: reverse_from_def to_size_def word_less_nat_alt unat_of_nat run_simps)
    show ?thesis
    proof (cases "n = 0")
      case True
      then show ?thesis using r by (simp add: reverse_done) blast
    next
      case False
      then have "reverse_turn (int n) (int n, 0) (written s old [] (e - n)) =
          Ok (Inl (1024, int n)) (written s old (rev (take n (drop (e - n) bs))) (offset_after (e - n) n))"
        using reverse_turn_run [OF assms(1,2), of 0 "int n" n "take n (drop (e - n) bs)" "e - n" old "[]"] assms(5) unfolding len by simp
      then have "loopM (reverse_turn (int n)) (int n, 0) (written s old [] (e - n)) =
          loopM (reverse_turn (int n)) (1024, int n) (written s old (rev (take n (drop (e - n) bs))) (offset_after (e - n) n))"
        by (rule loop_turn) (rule refl)
      then show ?thesis using r by (simp add: reverse_done) blast
    qed
  qed
qed

lemma reverse_from_long:
  assumes "1024 < n" "n < 2 ^ 31" "n \<le> e"
    and seek: "\<And>off. 0 \<le> int e + off \<Longrightarrow> lseek_src off wh (written s old [] e) = Ok (int e + off) (written s old [] (nat (int e + off)))"
  shows "reverse_from (int n) wh (written s old [] e) = loopM (reverse_turn (int n)) (1024, 0) (written s old [] (e - 1024))"
proof -
  have "lseek_src (- 1024) wh (written s old [] e) = Ok (int e - 1024) (written s old [] (e - 1024))"
    using seek [of "- 1024"] assms(1,3) by (simp add: nat_diff_distrib')
  then show ?thesis using assms(1,2) by (simp add: reverse_from_def to_size_def word_less_nat_alt unat_of_nat run_simps)
qed

text \<open>C24: \<open>1.c\<close>, called on a file of at most $2^{31} - 1024$ bytes that it can read, whose name after the last slash has at most
  86 bytes, with an output file it can open, exits with status 0 and
  writes to \<open>Assignment/1_\<close> with the last element of the path: the bytes of the file in reverse order if the file has at
  most 1024 bytes or a multiple of that; otherwise the reverse of the file without its first bytes, up to the last
  multiple of 1024 from the end, followed by a block of 1024 bytes that has been written before. What the output
  file held behind that stays. No other file changes.\<close>

theorem reverse_main_writes:
  assumes "2 \<le> length argv" "io_fs s (argv ! 1) = Some bs" "length bs \<le> 2 ^ 31 - 1024" "io_open s (output_name ''Assignment/1_'' (argv ! 1))"
    and "length (output_name ''Assignment/1_'' (argv ! 1)) < 100"
  shows "\<exists>t. reverse_main argv s = Ok (Inl 0) t \<and> io_fs t = (io_fs s)(output_name ''Assignment/1_'' (argv ! 1) \<mapsto>
    reversal bs @ drop (length (reversal bs)) (contents_of s (output_name ''Assignment/1_'' (argv ! 1))))"
proof -
  let ?a = "argv ! 1" let ?o = "output_name ''Assignment/1_'' ?a" let ?s = "opened s ''Assignment/1_'' ?a"
  let ?w = "written ?s (contents_of s ?o)" and ?n = "length bs"
  have small: "?n < 2 ^ 31" using assms(3) by simp
  have a: "uarg_at argv 1 s = Ok (Inr ?a) s" using assms(1) by (simp add: uarg_at_def uret_run)
  have ne: "io_src ?s \<noteq> io_dst ?s" and src: "io_fs ?s (io_src ?s) = Some bs"
    using output_name_ne [of "''Assignment/1_''" ?a] assms(2) by (auto simp: bytes_def)
  have seek: "lseek_src off SEEK_END (?w [] p) = Ok (int ?n + off) (?w [] (nat (int ?n + off)))" if "0 \<le> int ?n + off" for off p
    by (rule seek_end [OF ne src that])
  have e: "lseek_src 0 SEEK_END (?w [] 0) = Ok (int ?n) (?w [] ?n)" using seek [of 0] by simp
  obtain p where r: "reverse_from (int ?n) SEEK_END (?w [] ?n) = Ok () (?w (reversal bs) p)"
  proof (cases "?n \<le> 1024")
    case True
    then show ?thesis using reverse_from_short [OF ne src order.refl order.refl True seek] that by (auto simp: reversal_def)
  next
    case False
    then show ?thesis using reverse_from_long [OF _ small order.refl seek] reverse_loop [OF ne src _ assms(3)] that by auto
  qed
  have "reverse_main argv s = Ok (Inl 0) (?w (reversal bs) p)" unfolding reverse_main_def
    by (rule ubind_step, rule a, rule useq_step, rule open_both_run [OF assms(2,4,5)], rule ubind_step, rule sys_run, rule e,
        simp only: Let_def to_int_small [OF small], rule useq_step, rule call_run, rule r, simp add: uexit_def ret_def)
  then show ?thesis by (intro exI conjI) (auto simp: written_def)
qed

text \<open>A file of 1500 bytes comes out with 2048 bytes: its first 476 bytes are missing, the other 1024 are there twice.\<close>

theorem reverse_main_writes_witness:
  "\<exists>t. reverse_main [bytes ''1'', bytes ''d/f''] \<lparr>io_fs = [bytes ''d/f'' \<mapsto> replicate 476 1 @ replicate 1024 2], io_open = (\<lambda>_. True),
       io_mode = (\<lambda>_. None), io_src = [], io_dst = [], io_pos = 0, io_dpos = 0, io_out = []\<rparr> = Ok (Inl 0) t
     \<and> io_fs t (bytes ''Assignment/1_f'') = Some (replicate 2048 2)"
proof -
  let ?s = "\<lparr>io_fs = [bytes ''d/f'' \<mapsto> replicate 476 1 @ replicate 1024 2], io_open = (\<lambda>_. True),
       io_mode = (\<lambda>_. None), io_src = [], io_dst = [], io_pos = 0, io_dpos = 0, io_out = []\<rparr> :: hostio"
  let ?bs = "replicate 476 1 @ replicate 1024 2 :: byte list"
  have o: "output_name ''Assignment/1_'' (bytes ''d/f'') = bytes ''Assignment/1_f''" by (simp add: output_name_def last_index_def bytes_def)
  have c: "contents_of ?s (bytes ''Assignment/1_f'') = []" by (simp add: contents_of_def bytes_def)
  have l: "length (bytes ''Assignment/1_f'') < 100" by (simp add: bytes_def)
  have "reversal ?bs = replicate 1024 2 @ replicate 1024 2" by (simp add: reversal_def)
  then have r: "reversal ?bs = replicate 2048 2" by (simp only: replicate_add [symmetric]) simp
  show ?thesis using reverse_main_writes [of "[bytes ''1'', bytes ''d/f'']" ?s ?bs] by (auto simp: o c r l)
qed

text \<open>\<open>2.c\<close> with the arguments \<open>a\<close> and \<open>b\<close>: a part of at most 1024 bytes is reversed; of a longer part, whole blocks are, from its
  end backwards, so that bytes in front of the part are written too when its length is not a multiple of 1024.\<close>

lemma reverse_part_main_writes:
  assumes "4 \<le> length argv" "io_fs s (argv ! 1) = Some bs" "length bs < 2 ^ 31" "io_open s (output_name ''Assignment/2_'' (argv ! 1))"
    and len: "length (output_name ''Assignment/2_'' (argv ! 1)) < 100"
    and ab: "digit_arg (argv ! 2) = int a" "digit_arg (argv ! 3) = int b" "0 < b" "b \<le> a"
    and n: "n = length bs div a" and m: "m = (n + 1023) div 1024" "n \<le> 1024 \<or> 1024 * m \<le> b * n"
    and out: "out = (if n \<le> 1024 then rev (take n (drop ((b - 1) * n) bs)) else rev (take (1024 * m) (drop (b * n - 1024 * m) bs)))"
  shows "\<exists>t. reverse_part_main argv s = Ok (Inl 0) t \<and> io_fs t = (io_fs s)(output_name ''Assignment/2_'' (argv ! 1) \<mapsto>
    out @ drop (length out) (contents_of s (output_name ''Assignment/2_'' (argv ! 1))))"
proof -
  let ?a = "argv ! 1" let ?o = "output_name ''Assignment/2_'' ?a" let ?s = "opened s ''Assignment/2_'' ?a"
  let ?w = "written ?s (contents_of s ?o)" and ?e = "b * n"
  have arg: "uarg_at argv i s' = Ok (Inr (argv ! i)) s'" if "i < 4" for i and s' :: hostio
    using assms(1) that by (simp add: uarg_at_def uret_run)
  have ne: "io_src ?s \<noteq> io_dst ?s" and src: "io_fs ?s (io_src ?s) = Some bs"
    using output_name_ne [of "''Assignment/2_''" ?a] assms(2) by (auto simp: bytes_def)
  have an: "a * n \<le> length bs" unfolding n by (rule times_div_less_eq_dividend)
  have e: "?e \<le> length bs" by (rule order_trans [OF mult_le_mono1 [OF ab(4)] an])
  have ne': "n \<le> ?e" using ab(3) by simp
  have l: "lseek_src 0 SEEK_END (?w [] 0) = Ok (int (length bs)) (?w [] (length bs))" using seek_end [OF ne src, of 0] by simp
  have sdiv: "to_int (int (length bs)) sdiv digit_arg (argv ! 2) = int n" "digit_arg (argv ! 2) \<noteq> 0"
    using ab to_int_small [OF assms(3)] by (cases "bs = []"; simp add: n signed_divide_int_def zdiv_int)+
  have "to_int (int b * int n) = int ?e" using to_int_small [of ?e] e assms(3) by simp
  then have k: "lseek_src (to_int (digit_arg (argv ! 3) * int n)) SEEK_SET (?w [] p) = Ok (int ?e) (?w [] ?e)" for p
    using seek_set [of "int ?e"] by (simp add: ab(2) nat_mult_distrib)
  obtain p where r: "reverse_from (int n) SEEK_CUR (?w [] ?e) = Ok () (?w out p)"
  proof (cases "n \<le> 1024")
    case True
    have "?e - n = (b - 1) * n" by (simp add: diff_mult_distrib)
    then show ?thesis using reverse_from_short [OF ne src ne' e True seek_cur] that True by (auto simp: out)
  next
    case False
    have "0 < m" using m(1) False by (simp add: div_greater_zero_iff)
    then obtain k where k: "m = Suc k" by (cases m) simp_all
    have mn: "n \<le> 1024 * m" "1024 * k < n" using m(1) k by simp_all
    have "1024 * m \<le> ?e" using m(2) False by simp
    then have small: "1024 * Suc k < 2 ^ 31" using e assms(3) k by simp
    from \<open>1024 * m \<le> ?e\<close> have "?e - 1024 * m + 1024 * Suc k \<le> length bs" "?e - 1024 * m + 1024 * k = ?e - 1024" using e k by simp_all
    then have "loopM (reverse_turn (int n)) (1024, 0) (?w [] (?e - 1024)) = Ok () (?w out (offset_after (?e - 1024 * m) 1024))"
      using reverse_blocks [OF ne src, of "?e - 1024 * m" k 0 "int n" "contents_of s ?o" "[]"] mn k False small by (simp add: reverse_done out)
    moreover have "n < 2 ^ 31" using order_trans [OF ne' e] assms(3) by (rule order.strict_trans1)
    ultimately show ?thesis using reverse_from_long [OF _ _ ne' seek_cur] that False by auto
  qed
  have "reverse_part_main argv s = Ok (Inl 0) (?w out p)" unfolding reverse_part_main_def
    by (rule ubind_step, rule arg, simp, rule useq_step, rule open_both_run [OF assms(2,4) assms(5)], rule ubind_step, rule sys_run, rule l,
        subst Let_def, rule ubind_step, rule arg, simp, rule ubind_step, rule arg, simp, simp only: Let_def sdiv if_False,
        rule useq_step, rule call_run, rule k, rule useq_step, rule call_run, rule r, simp add: uexit_def ret_def)
  then show ?thesis by (intro exI conjI) (auto simp: written_def)
qed

text \<open>\<open>3.c\<close> says that the directory exists whether it does or not.\<close>

definition perm_text :: "string \<Rightarrow> uint \<Rightarrow> byte list" where
  "perm_text what mode = concat (map (\<lambda>(who, perm, m). bytes (who @ '' has '' @ perm @ '' permission on '' @ what @ '': '') @ [0]
     @ (if mode AND m \<noteq> 0 then bytes ''Yes'' @ [10, 0] else bytes ''No'' @ [10, 0])) perm_bits)"

lemma say_run: "say bs s = Ok (Inr ()) (s\<lparr>io_out := io_out s @ bs\<rparr>)"
  by (simp add: say_def call_def run_simps uret_run)

lemma uforM_say:
  assumes "\<And>x s. x \<in> set xs \<Longrightarrow> f x s = Ok (Inr ()) (s\<lparr>io_out := io_out s @ g x\<rparr>)"
  shows "uforM xs f s = Ok (Inr ()) (s\<lparr>io_out := io_out s @ concat (map g xs)\<rparr>)"
  using assms
proof (induction xs arbitrary: s)
  case (Cons x xs)
  show ?case by (simp, rule useq_step, rule Cons.prems, simp, subst Cons.IH) (use Cons.prems in simp_all)
qed (simp add: uret_run)

lemma perm_report_run: "perm_report what mode s = Ok (Inr ()) (s\<lparr>io_out := io_out s @ perm_text what mode\<rparr>)"
  unfolding perm_report_def perm_text_def by (rule uforM_say) (auto simp: useq_run [OF say_run] say_run)

lemma report_on_run:
  "report_on what name s = (case io_mode s name of None \<Rightarrow> Ok (Inl (-1)) s
     | Some mode \<Rightarrow> Ok (Inr ()) (s\<lparr>io_out := io_out s @ perm_text what mode\<rparr>))"
  by (simp add: report_on_def ubind_run [OF sys_run [OF gets_run]] perm_report_run uexit_def ret_def split: option.split)

lemma permissions_main_without_directory:
  assumes "2 \<le> length argv" "io_mode s = (\<lambda>_. None)" "length (output_name ''Assignment/1_'' (argv ! 1)) < 100"
  shows "permissions_main argv s = Ok (Inl (-1)) (s\<lparr>io_out := io_out s @ bytes ''Directory is created: Yes'' @ [10]\<rparr>)"
proof -
  have a: "uarg_at argv 1 s = Ok (Inr (argv ! 1)) s" using assms(1) by (simp add: uarg_at_def uret_run)
  show ?thesis unfolding permissions_main_def
    by (rule ubind_step, rule a, rule ubind_step, rule sys_run, rule gets_run, simp only: Let_def, simp, rule useq_step, rule say_run)
       (simp add: useq_def ubind_def bind_def print_name_run assms(3) [simplified] report_on_run assms(2) ret_def uexit_def)
qed

lemma permissions_main_report:
  assumes "2 \<le> length argv" "io_mode s (output_name ''Assignment/1_'' (argv ! 1)) = Some m1"
    "io_mode s (output_name ''Assignment/2_'' (argv ! 1)) = Some m2" "io_mode s (bytes ''Assignment'') = Some m3"
    and len: "length (output_name ''Assignment/1_'' (argv ! 1)) < 100" "length (output_name ''Assignment/2_'' (argv ! 1)) < 100"
  shows "permissions_main argv s = Ok (Inl 0) (s\<lparr>io_out := io_out s @ bytes ''Directory is created: Yes'' @ [10]
     @ perm_text ''output_file_1'' m1 @ perm_text ''output_file_2'' m2 @ perm_text ''directory'' m3\<rparr>)"
proof -
  obtain x where x: "argv ! 1 = x" by simp
  have a: "uarg_at argv 1 s = Ok (Inr x) s" using assms(1) x by (simp add: uarg_at_def uret_run)
  have r: "report_on ''output_file_1'' (output_name ''Assignment/1_'' x) t = Ok (Inr ()) (t\<lparr>io_out := io_out t @ perm_text ''output_file_1'' m1\<rparr>)"
    "report_on ''output_file_2'' (output_name ''Assignment/2_'' x) t = Ok (Inr ()) (t\<lparr>io_out := io_out t @ perm_text ''output_file_2'' m2\<rparr>)"
    "report_on ''directory'' (bytes ''Assignment'') t = Ok (Inr ()) (t\<lparr>io_out := io_out t @ perm_text ''directory'' m3\<rparr>)"
    if "io_mode t = io_mode s" for t :: hostio
    using that assms(2-4) x by (simp_all add: report_on_run)
  show ?thesis unfolding permissions_main_def
    by (rule ubind_step, rule a, rule ubind_step, rule sys_run, rule gets_run, simp only: Let_def, simp,
        rule useq_step, rule say_run, rule useq_step, rule ubind_step, rule print_name_run [OF len(1) [unfolded x]], rule r, simp,
        rule useq_step, rule ubind_step, rule print_name_run [OF len(2) [unfolded x]], rule r, simp,
        rule useq_step, rule r, simp, simp add: uexit_def ret_def)
qed

end
