(* ===== verification/DictServer.thy ===== *)
theory DictServer
  imports Ulib "HOL-Library.Sublist" "HOL-Library.Multiset"
begin

text \<open>
  The dictionary server of \<open>Assignment 5/Q3\<close>: \<open>server.cpp\<close>. A hundred strings, each with a mutex, are shared by worker
  threads that take client requests from a queue. The methods of \<open>LockedString\<close> are lists of instructions, one per access to
  shared memory or mutex operation, so that the threads interleave as they do in the program; what a worker does with a
  request is a tree of method calls and replies, a continuation for each outcome of a method. A step of the server is a
  step of one worker (\<open>wstep\<close>) or of the thread that accepts connections. What the clients send is the argument \<open>inp\<close>, the
  thread ids are \<open>tid\<close>. Memory is sequentially consistent: the tests of \<open>empty\<close> that are made without the lock read what the
  last write left there. One field is instrumentation: \<open>s_log\<close> records, in the order in which they happen, the calls of
  methods, the tests of \<open>empty\<close> and what they found, the moments at which a method has all its locks, the writes to
  \<open>empty\<close>, and the returns.
\<close>

section \<open>The dictionary\<close>

record locked_string =
  l_str :: cstring
  l_empty :: bool

type_synonym dict = "nat \<Rightarrow> locked_string"

datatype instr = FailIf nat bool | Lock nat | Unlock nat | SetStr nat cstring | SetEmpty nat bool | Save nat | AppendStr nat nat | AppendSaved nat

datatype meth = UpdateString nat cstring | InsertString nat cstring | GetString nat | Concat nat nat | Remove nat

text \<open>\<open>FailIf k b\<close> is \<open>if(empty == b) return -1;\<close>, read without the lock; \<open>Save k\<close> copies the string to the local variable of the method.\<close>

definition UpdateString_code :: "nat \<Rightarrow> cstring \<Rightarrow> instr list" where
  "UpdateString_code k new_str = [FailIf k True, Lock k, SetStr k new_str, Unlock k]"

definition InsertString_code :: "nat \<Rightarrow> cstring \<Rightarrow> instr list" where
  "InsertString_code k new_str = [FailIf k False, Lock k, SetStr k new_str, SetEmpty k False, Unlock k]"

definition GetString_code :: "nat \<Rightarrow> instr list" where
  "GetString_code k = [Lock k, Save k, Unlock k]"

definition concat_code :: "nat \<Rightarrow> nat \<Rightarrow> instr list" where
  "concat_code k other = [FailIf other True, FailIf k True] @
     (if k < other then [Lock k, Lock other, Save k, AppendStr k other, AppendSaved other, Unlock other, Unlock k]
      else if other < k then [Lock other, Lock k, Save k, AppendStr k other, AppendSaved other, Unlock k, Unlock other]
      else [Lock k, AppendStr k k, Unlock k])"

definition Remove_code :: "nat \<Rightarrow> instr list" where
  "Remove_code k = [FailIf k True, Lock k, SetStr k [], SetEmpty k True, Unlock k]"

fun code :: "meth \<Rightarrow> instr list" where
  "code (UpdateString k v) = UpdateString_code k v"
| "code (InsertString k v) = InsertString_code k v"
| "code (GetString k) = GetString_code k"
| "code (Concat k other) = concat_code k other"
| "code (Remove k) = Remove_code k"

fun act :: "instr \<Rightarrow> cstring \<times> dict \<Rightarrow> cstring \<times> dict" where
  "act (SetStr k v) (s, d) = (s, d(k := (d k)\<lparr>l_str := v\<rparr>))"
| "act (SetEmpty k b) (s, d) = (s, d(k := (d k)\<lparr>l_empty := b\<rparr>))"
| "act (Save k) (s, d) = (l_str (d k), d)"
| "act (AppendStr i j) (s, d) = (s, d(i := (d i)\<lparr>l_str := l_str (d i) @ l_str (d j)\<rparr>))"
| "act (AppendSaved j) (s, d) = (s, d(j := (d j)\<lparr>l_str := l_str (d j) @ s\<rparr>))"
| "act _ x = x"

section \<open>Requests\<close>

datatype handler = End | Crash | Send cstring handler | IfEmpty nat handler handler | Call meth handler "cstring \<Rightarrow> handler"

definition space :: "byte \<Rightarrow> bool" where
  "space c \<longleftrightarrow> c = 32 \<or> 9 \<le> c \<and> c \<le> 13"

function split_words :: "cstring \<Rightarrow> cstring list" where
  "split_words [] = []"
| "split_words (c # cs) = (if space c then split_words cs
     else (c # takeWhile (Not \<circ> space) cs) # split_words (dropWhile (Not \<circ> space) cs))"
  by pat_completeness auto
termination by (relation "measure length") (auto simp: length_dropWhile_le less_Suc_eq_le)

text \<open>\<open>ss >> word\<close>: at the end of the input the variable keeps its value.\<close>

definition next_word :: "cstring \<times> cstring list \<Rightarrow> cstring \<times> cstring list" where
  "next_word = (\<lambda>(word, ws). case ws of [] \<Rightarrow> (word, []) | w # ws \<Rightarrow> (w, ws))"

text \<open>\<open>stoi\<close>: the exceptions it throws are not caught and end the process.\<close>

definition stoi :: "cstring \<Rightarrow> int option" where
  "stoi w = (let neg = (w \<noteq> [] \<and> hd w = 45); ds = takeWhile digit_byte (if w \<noteq> [] \<and> hd w \<in> {43, 45} then tl w else w);
     v = fold (\<lambda>c n. n * 10 + (uint c - 48)) ds 0; v = (if neg then - v else v) in
     if ds = [] \<or> v < - (2 ^ 31) \<or> 2 ^ 31 \<le> v then None else Some v)"

definition with_number :: "cstring \<Rightarrow> (int \<Rightarrow> handler) \<Rightarrow> handler" where
  "with_number w h = (case stoi w of None \<Rightarrow> Crash | Some i \<Rightarrow> h i)"

text \<open>\<open>dict[i]\<close>: an index that is out of range is undefined behaviour.\<close>

definition at_key :: "int \<Rightarrow> (nat \<Rightarrow> handler) \<Rightarrow> handler" where
  "at_key i h = (if 0 \<le> i \<and> i < 100 then h (nat i) else Crash)"

definition reply :: "cstring \<Rightarrow> cstring \<Rightarrow> handler" where
  "reply thread_id s2 = Send (thread_id @ bytes '' : '' @ s2) End"

definition insert_request :: "cstring \<Rightarrow> nat \<Rightarrow> cstring \<Rightarrow> handler" where
  "insert_request tid key v = Call (InsertString key v) (reply tid (bytes ''Key already exists'')) (\<lambda>_. reply tid (bytes ''Insertion successful''))"

definition update_request :: "cstring \<Rightarrow> nat \<Rightarrow> cstring \<Rightarrow> handler" where
  "update_request tid key v = Call (UpdateString key v) (reply tid (bytes ''Key does not exist'')) (\<lambda>_. Call (GetString key) End (reply tid))"

definition fetch_request :: "cstring \<Rightarrow> nat \<Rightarrow> handler" where
  "fetch_request tid key = IfEmpty key (reply tid (bytes ''Key does not exist'')) (Call (GetString key) End (reply tid))"

text \<open>The strings are fetched two more times for the message on the server's terminal.\<close>

definition concat_request :: "cstring \<Rightarrow> nat \<Rightarrow> nat \<Rightarrow> handler" where
  "concat_request tid key key2 =
     Call (Concat key key2) (reply tid (bytes ''Concat failed as at least one of the keys does not exist''))
      (\<lambda>_. Call (GetString key2) End (\<lambda>ret. Call (GetString key) End (\<lambda>_. Call (GetString key2) End (\<lambda>_. reply tid ret))))"

definition delete_request :: "cstring \<Rightarrow> nat \<Rightarrow> handler" where
  "delete_request tid key = (let remove = Call (Remove key) End (\<lambda>_. End) in
     IfEmpty key (Send (tid @ bytes '' : No such key exists'') remove) remove)"

definition clear_request :: handler where
  "clear_request = foldr (\<lambda>i h. Call (Remove i) h (\<lambda>_. h)) [0..<100] (Send (bytes ''cleared'') End)"

definition request_handler :: "cstring \<Rightarrow> cstring option \<Rightarrow> handler" where
  "request_handler tid inp = (case inp of None \<Rightarrow> Crash | Some request \<Rightarrow>
     if takeWhile (\<lambda>c. c \<noteq> 0) request = bytes ''clear'' then clear_request
     else (let (type, ws) = next_word ([], split_words request); (kw, ws) = next_word (type, ws) in
       with_number kw (\<lambda>key.
         let v = fst (next_word (kw, ws)) in
         if type = bytes ''insert'' then at_key key (\<lambda>k. insert_request tid k v)
         else if type = bytes ''update'' then at_key key (\<lambda>k. update_request tid k v)
         else if type = bytes ''fetch'' then at_key key (fetch_request tid)
         else if type = bytes ''concat'' then with_number v (\<lambda>key2. at_key key (\<lambda>k. at_key key2 (concat_request tid k)))
         else if type = bytes ''delete'' then at_key key (delete_request tid)
         else reply tid (bytes ''Invalid request''))))"

section \<open>The threads\<close>

datatype pc = Start | Waiting | Awake | Run nat handler | In nat meth "instr list" cstring handler "cstring \<Rightarrow> handler"

datatype event = Called nat meth | Tested nat nat bool | Effect nat | Flagged nat | Returned nat "cstring option" | Looked nat nat bool

datatype main_pc = Accepting | Signalling

record server =
  s_dict :: dict
  s_lock :: "nat \<Rightarrow> nat option"
  s_queue :: "nat list"
  s_pc :: "nat \<Rightarrow> pc"
  s_main :: main_pc
  s_sent :: "(nat \<times> cstring) list"
  s_closed :: "nat list"
  s_crashed :: bool
  s_log :: "event list"

definition goto :: "nat \<Rightarrow> pc \<Rightarrow> server \<Rightarrow> server" where
  "goto w p s = s\<lparr>s_pc := (s_pc s)(w := p)\<rparr>"

definition emit :: "event list \<Rightarrow> server \<Rightarrow> server" where
  "emit es s = s\<lparr>s_log := s_log s @ es\<rparr>"

definition is_Lock :: "instr \<Rightarrow> bool" where
  "is_Lock i = (case i of Lock _ \<Rightarrow> True | _ \<Rightarrow> False)"

fun run_step :: "nat \<Rightarrow> nat \<Rightarrow> handler \<Rightarrow> server \<Rightarrow> server" where
  "run_step w fd End s = goto w Start (s\<lparr>s_closed := s_closed s @ [fd]\<rparr>)"
| "run_step w fd Crash s = goto w Start (s\<lparr>s_crashed := True\<rparr>)"
| "run_step w fd (Send m h) s = goto w (Run fd h) (s\<lparr>s_sent := s_sent s @ [(fd, m)]\<rparr>)"
| "run_step w fd (IfEmpty k h1 h2) s = goto w (Run fd (if l_empty (s_dict s k) then h1 else h2)) (emit [Looked w k (l_empty (s_dict s k))] s)"
| "run_step w fd (Call m f g) s = goto w (In fd m (code m) [] f g) (emit [Called w m] s)"

text \<open>A method that returns: \<open>Returned w None\<close> is -1, \<open>Returned w (Some x)\<close> is 0 or a string, with the value of the local variable.\<close>

fun in_step :: "nat \<Rightarrow> nat \<Rightarrow> meth \<Rightarrow> instr list \<Rightarrow> cstring \<Rightarrow> handler \<Rightarrow> (cstring \<Rightarrow> handler) \<Rightarrow> server \<Rightarrow> server option" where
  "in_step w fd m [] x f g s = Some (goto w (Run fd (g x)) (emit [Returned w (Some x)] s))"
| "in_step w fd m (FailIf k b # is) x f g s =
     (if l_empty (s_dict s k) = b then Some (goto w (Run fd f) (emit [Tested w k b, Returned w None] s))
      else Some (goto w (In fd m is x f g) (emit [Tested w k (\<not> b)] s)))"
| "in_step w fd m (Lock k # is) x f g s =
     (if s_lock s k \<noteq> None then None
      else Some (goto w (In fd m is x f g) (emit (if list_ex is_Lock is then [] else [Effect w]) (s\<lparr>s_lock := (s_lock s)(k \<mapsto> w)\<rparr>))))"
| "in_step w fd m (Unlock k # is) x f g s = Some (goto w (In fd m is x f g) (s\<lparr>s_lock := (s_lock s)(k := None)\<rparr>))"
| "in_step w fd m (i # is) x f g s =
     (let (x, d) = act i (x, s_dict s) in
      Some (goto w (In fd m is x f g) (emit (case i of SetEmpty _ _ \<Rightarrow> [Flagged w] | _ \<Rightarrow> []) (s\<lparr>s_dict := d\<rparr>))))"

fun wstep :: "(nat \<Rightarrow> cstring option) \<Rightarrow> (nat \<Rightarrow> cstring) \<Rightarrow> nat \<Rightarrow> server \<Rightarrow> server option" where
  "wstep inp tid w s = (if s_crashed s then None else
     case s_pc s w of
       Start \<Rightarrow> Some (goto w Waiting s)
     | Waiting \<Rightarrow> None
     | Awake \<Rightarrow> (case s_queue s of [] \<Rightarrow> Some (s\<lparr>s_crashed := True\<rparr>)
         | fd # q \<Rightarrow> Some (goto w (Run fd (request_handler (tid w) (inp fd))) (s\<lparr>s_queue := q\<rparr>)))
     | Run fd h \<Rightarrow> Some (run_step w fd h s)
     | In fd m is x f g \<Rightarrow> in_step w fd m is x f g s)"

text \<open>\<open>n\<close> workers. POSIX lets a wait on a condition variable end without a signal; \<open>sp\<close> says whether that happens.\<close>

inductive srv_step :: "bool \<Rightarrow> (nat \<Rightarrow> cstring option) \<Rightarrow> (nat \<Rightarrow> cstring) \<Rightarrow> nat \<Rightarrow> server \<Rightarrow> server \<Rightarrow> bool"
  for sp inp tid n where
  accept: "s_main s = Accepting \<Longrightarrow> \<not> s_crashed s \<Longrightarrow> srv_step sp inp tid n s (s\<lparr>s_queue := s_queue s @ [fd], s_main := Signalling\<rparr>)"
| signal_one: "s_main s = Signalling \<Longrightarrow> \<not> s_crashed s \<Longrightarrow> w < n \<Longrightarrow> s_pc s w = Waiting \<Longrightarrow>
    srv_step sp inp tid n s (goto w Awake (s\<lparr>s_main := Accepting\<rparr>))"
| signal_none: "s_main s = Signalling \<Longrightarrow> \<not> s_crashed s \<Longrightarrow> \<forall>w < n. s_pc s w \<noteq> Waiting \<Longrightarrow>
    srv_step sp inp tid n s (s\<lparr>s_main := Accepting\<rparr>)"
| spurious: "sp \<Longrightarrow> \<not> s_crashed s \<Longrightarrow> w < n \<Longrightarrow> s_pc s w = Waiting \<Longrightarrow> srv_step sp inp tid n s (goto w Awake s)"
| work: "w < n \<Longrightarrow> wstep inp tid w s = Some t \<Longrightarrow> srv_step sp inp tid n s t"

definition server0 :: server where
  "server0 = \<lparr>s_dict = (\<lambda>_. \<lparr>l_str = [], l_empty = True\<rparr>), s_lock = (\<lambda>_. None), s_queue = [], s_pc = (\<lambda>_. Start), s_main = Accepting,
     s_sent = [], s_closed = [], s_crashed = False, s_log = []\<rparr>"

section \<open>Locks are taken in the order of their indices\<close>

fun foot :: "instr \<Rightarrow> nat set" where
  "foot (SetStr k v) = {k}"
| "foot (SetEmpty k b) = {k}"
| "foot (Save k) = {k}"
| "foot (AppendStr i j) = {i, j}"
| "foot (AppendSaved j) = {j}"
| "foot _ = {}"

definition is_Unlock :: "instr \<Rightarrow> bool" where
  "is_Unlock i = (case i of Unlock _ \<Rightarrow> True | _ \<Rightarrow> False)"

text \<open>What is left of a method, when the thread holds the locks in \<open>H\<close>: tests without a lock, then locks in ascending order, then
  accesses to strings whose locks are held, then all locks are released.\<close>

fun disciplined :: "nat set \<Rightarrow> instr list \<Rightarrow> bool" where
  "disciplined H [] \<longleftrightarrow> H = {}"
| "disciplined H (FailIf k b # is) \<longleftrightarrow> H = {} \<and> disciplined H is"
| "disciplined H (Lock k # is) \<longleftrightarrow> (\<forall>h \<in> H. h < k) \<and> disciplined (insert k H) is"
| "disciplined H (Unlock k # is) \<longleftrightarrow> k \<in> H \<and> list_all is_Unlock is \<and> disciplined (H - {k}) is"
| "disciplined H (i # is) \<longleftrightarrow> foot i \<subseteq> H \<and> \<not> list_ex is_Lock is \<and> disciplined H is"

lemma code_disciplined: "disciplined {} (code m)"
  by (cases m) (auto simp: UpdateString_code_def InsertString_code_def GetString_code_def concat_code_def Remove_code_def is_Lock_def is_Unlock_def)

definition held :: "server \<Rightarrow> nat \<Rightarrow> nat set" where
  "held s w = {k. s_lock s k = Some w}"

definition ordered :: "server \<Rightarrow> bool" where
  "ordered s \<longleftrightarrow> (\<forall>w. case s_pc s w of In fd m is x f g \<Rightarrow> disciplined (held s w) is \<and> suffix is (code m) | _ \<Rightarrow> held s w = {})"

section \<open>What the methods do\<close>

text \<open>The specification. A method that is called tests the emptiness of its entries, one after the other; where a
  test finds what it looks for, the method returns -1. Otherwise it changes the strings, all at once, and
  then, in a second moment, the emptiness of its entry if it is an insertion or a removal; then it returns 0 or the string it
  read. Between these moments other methods may do theirs.\<close>

type_synonym strings = "nat \<Rightarrow> cstring"

fun tests :: "meth \<Rightarrow> (nat \<times> bool) list" where
  "tests (UpdateString k v) = [(k, True)]"
| "tests (InsertString k v) = [(k, False)]"
| "tests (GetString k) = []"
| "tests (Concat k other) = [(other, True), (k, True)]"
| "tests (Remove k) = [(k, True)]"

fun effect :: "meth \<Rightarrow> strings \<Rightarrow> strings" where
  "effect (UpdateString k v) d = d(k := v)"
| "effect (InsertString k v) d = d(k := v)"
| "effect (GetString k) d = d"
| "effect (Concat i j) d = d(i := d i @ d j, j := d j @ d i)"
| "effect (Remove k) d = d(k := [])"

fun flag :: "meth \<Rightarrow> (nat \<times> bool) option" where
  "flag (InsertString k v) = Some (k, False)"
| "flag (Remove k) = Some (k, True)"
| "flag _ = None"

text \<open>The string a method returns (or has saved, which nobody looks at).\<close>

fun result :: "meth \<Rightarrow> strings \<Rightarrow> cstring" where
  "result (GetString k) d = d k"
| "result (Concat i j) d = (if i = j then [] else d i)"
| "result _ d = []"

datatype phase = Idle | Testing meth "(nat \<times> bool) list" | Flagging meth cstring | Over "cstring option"

record spec =
  sp_str :: strings
  sp_empty :: "nat \<Rightarrow> bool"
  sp_at :: "nat \<Rightarrow> phase"

definition at :: "nat \<Rightarrow> phase \<Rightarrow> spec \<Rightarrow> spec" where
  "at w p A = A\<lparr>sp_at := (sp_at A)(w := p)\<rparr>"

fun spec_step :: "event \<Rightarrow> spec \<Rightarrow> spec option" where
  "spec_step (Called w m) A = (if sp_at A w = Idle then Some (at w (Testing m (tests m)) A) else None)"
| "spec_step (Tested w k e) A = (case sp_at A w of
     Testing m ((j, b) # ts) \<Rightarrow>
       if k = j \<and> e = sp_empty A k then Some (at w (if e = b then Over None else Testing m ts) A) else None
   | _ \<Rightarrow> None)"
| "spec_step (Effect w) A = (case sp_at A w of
     Testing m [] \<Rightarrow> let r = result m (sp_str A) in
       Some (at w (if flag m = None then Over (Some r) else Flagging m r) (A\<lparr>sp_str := effect m (sp_str A)\<rparr>))
   | _ \<Rightarrow> None)"
| "spec_step (Flagged w) A = (case sp_at A w of
     Flagging m r \<Rightarrow> (case flag m of Some (k, b) \<Rightarrow> Some (at w (Over (Some r)) (A\<lparr>sp_empty := (sp_empty A)(k := b)\<rparr>)) | None \<Rightarrow> None)
   | _ \<Rightarrow> None)"
| "spec_step (Returned w r) A = (if sp_at A w = Over r then Some (at w Idle A) else None)"
| "spec_step (Looked w k e) A = (if sp_at A w = Idle \<and> e = sp_empty A k then Some A else None)"

fun spec_run :: "event list \<Rightarrow> spec \<Rightarrow> spec option" where
  "spec_run [] A = Some A"
| "spec_run (e # es) A = (case spec_step e A of None \<Rightarrow> None | Some B \<Rightarrow> spec_run es B)"

definition spec0 :: spec where
  "spec0 = \<lparr>sp_str = (\<lambda>_. []), sp_empty = (\<lambda>_. True), sp_at = (\<lambda>_. Idle)\<rparr>"

lemma spec_run_append: "spec_run (es @ fs) A = (case spec_run es A of None \<Rightarrow> None | Some B \<Rightarrow> spec_run fs B)"
  by (induction es arbitrary: A) (auto split: option.splits)

section \<open>The methods do what is specified\<close>

text \<open>What the strings a thread has locked will be when it has finished with them.\<close>

fun settle :: "instr list \<Rightarrow> cstring \<times> dict \<Rightarrow> cstring \<times> dict" where
  "settle [] y = y"
| "settle (i # is) y = (if foot i = {} then y else settle is (act i y))"

definition strs :: "dict \<Rightarrow> strings" where
  "strs d k = l_str (d k)"

definition pending :: "server \<Rightarrow> nat \<Rightarrow> strings" where
  "pending s w = strs (case s_pc s w of In fd m is x f g \<Rightarrow> snd (settle is (x, s_dict s)) | _ \<Rightarrow> s_dict s)"

definition view :: "server \<Rightarrow> strings" where
  "view s k = (case s_lock s k of None \<Rightarrow> strs (s_dict s) k | Some w \<Rightarrow> pending s w k)"

lemmas codes = UpdateString_code_def InsertString_code_def GetString_code_def concat_code_def Remove_code_def

definition tests_of :: "instr list \<Rightarrow> (nat \<times> bool) list" where
  "tests_of is = concat (map (\<lambda>i. case i of FailIf k b \<Rightarrow> [(k, b)] | _ \<Rightarrow> []) is)"

definition is_SetEmpty :: "instr \<Rightarrow> bool" where
  "is_SetEmpty i = (case i of SetEmpty _ _ \<Rightarrow> True | _ \<Rightarrow> False)"

lemma settle_effect:
  assumes "suffix (Lock k # is) (code m)" "\<not> list_ex is_Lock is"
  shows "strs (snd (settle is (x, d))) = effect m (strs d)"
  using assms
  by (cases m) (auto simp: codes is_Lock_def strs_def fun_eq_iff suffix_Cons split: if_splits)

lemma settle_result:
  assumes "suffix (Lock k # is) (code m)" "\<not> list_ex is_Lock is"
  shows "fst (settle is ([], d)) = result m (strs d)"
  using assms
  by (cases m) (auto simp: codes is_Lock_def strs_def suffix_Cons split: if_splits)

lemma test_then_lock: "suffix (FailIf k b # is) (code m) \<Longrightarrow> list_ex is_Lock is"
  by (cases m) (auto simp: codes is_Lock_def suffix_Cons split: if_splits)

lemma lock_then_flag:
  assumes "suffix (Lock k # is) (code m)"
  shows "tests_of (Lock k # is) = []" "tests_of is = []" "\<not> list_ex is_Lock is \<Longrightarrow> list_ex is_SetEmpty is \<longleftrightarrow> flag m \<noteq> None"
  using assms
  by (cases m; auto simp: codes is_Lock_def is_SetEmpty_def tests_of_def suffix_Cons split: if_splits)+

lemma flag_last: "suffix (SetEmpty k b # is) (code m) \<Longrightarrow> flag m = Some (k, b) \<and> \<not> list_ex is_SetEmpty is"
  by (cases m) (auto simp: codes is_SetEmpty_def suffix_Cons split: if_splits)

lemma code_tests: "tests_of (code m) = tests m"
  by (cases m) (auto simp: codes tests_of_def)

lemma code_locks: "list_ex is_Lock (code m)"
  by (cases m) (auto simp: codes is_Lock_def)

lemma act_frame: "k \<notin> foot i \<Longrightarrow> snd (act i (x, d)) k = d k"
  by (cases i) auto

lemma act_cong: "\<forall>k \<in> H. strs d k = strs d' k \<Longrightarrow> foot i \<subseteq> H \<Longrightarrow>
    fst (act i (x, d)) = fst (act i (x, d')) \<and> (\<forall>k \<in> H. strs (snd (act i (x, d))) k = strs (snd (act i (x, d'))) k)"
  by (cases i) (auto simp: strs_def)

lemma disciplined_body: "disciplined H (i # is) \<Longrightarrow> foot i \<noteq> {} \<Longrightarrow> foot i \<subseteq> H \<and> \<not> list_ex is_Lock is \<and> disciplined H is"
  by (cases i) auto

lemma settle_frame: "disciplined H is \<Longrightarrow> k \<notin> H \<Longrightarrow> snd (settle is (x, d)) k = d k"
proof (induction "is" arbitrary: x d)
  case (Cons i "is")
  show ?case
  proof (cases "foot i = {}")
    case False
    then have b: "foot i \<subseteq> H" "disciplined H is" using disciplined_body [OF Cons.prems(1)] by auto
    obtain x' d' where a: "act i (x, d) = (x', d')" by fastforce
    then have "d' k = d k" using act_frame [of k i x d] b(1) Cons.prems(2) by auto
    then show ?thesis using Cons.IH [OF b(2) Cons.prems(2), of x' d'] False a by simp
  qed simp
qed simp

lemma settle_cong:
  "disciplined H is \<Longrightarrow> \<forall>k \<in> H. strs d k = strs d' k \<Longrightarrow>
   fst (settle is (x, d)) = fst (settle is (x, d')) \<and> (\<forall>k \<in> H. strs (snd (settle is (x, d))) k = strs (snd (settle is (x, d'))) k)"
proof (induction "is" arbitrary: x d d')
  case (Cons i "is")
  show ?case
  proof (cases "foot i = {}")
    case False
    then have b: "foot i \<subseteq> H" "disciplined H is" using disciplined_body [OF Cons.prems(1)] by auto
    obtain x1 d1 x2 d2 where a: "act i (x, d) = (x1, d1)" "act i (x, d') = (x2, d2)" by fastforce
    then have "x1 = x2" "\<forall>k \<in> H. strs d1 k = strs d2 k" using act_cong [OF Cons.prems(2) b(1), of x] by auto
    then show ?thesis using Cons.IH [OF b(2), of d1 d2 x1] False a by simp
  qed (use Cons.prems in simp)
qed simp

lemma settle_locks: "disciplined H is \<Longrightarrow> H \<noteq> {} \<Longrightarrow> list_ex is_Lock is \<Longrightarrow> settle is y = y"
proof (cases "is")
  case (Cons i js)
  then show "disciplined H is \<Longrightarrow> H \<noteq> {} \<Longrightarrow> list_ex is_Lock is \<Longrightarrow> settle is y = y"
    by (cases i) (auto simp: is_Lock_def)
qed simp

lemma settle_unlocks: "list_all is_Unlock is \<Longrightarrow> settle is y = y"
  by (cases "is") (auto simp: is_Unlock_def split: instr.splits)

lemma goto_fields [simp]:
  "s_dict (goto w p s) = s_dict s" "s_lock (goto w p s) = s_lock s" "s_queue (goto w p s) = s_queue s" "s_pc (goto w p s) = (s_pc s)(w := p)"
  "s_main (goto w p s) = s_main s" "s_crashed (goto w p s) = s_crashed s" "s_log (goto w p s) = s_log s" "s_sent (goto w p s) = s_sent s"
  by (simp_all add: goto_def)

lemma emit_fields [simp]:
  "s_dict (emit es s) = s_dict s" "s_lock (emit es s) = s_lock s" "s_queue (emit es s) = s_queue s" "s_pc (emit es s) = s_pc s"
  "s_main (emit es s) = s_main s" "s_crashed (emit es s) = s_crashed s" "s_log (emit es s) = s_log s @ es" "s_sent (emit es s) = s_sent s"
  by (simp_all add: emit_def)

definition pc_ok :: "nat set \<Rightarrow> pc \<Rightarrow> bool" where
  "pc_ok H p \<longleftrightarrow> (case p of In fd m is x f g \<Rightarrow> disciplined H is \<and> suffix is (code m) | _ \<Rightarrow> H = {})"

lemma ordered_iff: "ordered s \<longleftrightarrow> (\<forall>w. pc_ok (held s w) (s_pc s w))"
  by (simp add: ordered_def pc_ok_def)

lemma pc_ok_simps [simp]:
  "pc_ok H Start \<longleftrightarrow> H = {}" "pc_ok H Waiting \<longleftrightarrow> H = {}" "pc_ok H Awake \<longleftrightarrow> H = {}" "pc_ok H (Run fd h) \<longleftrightarrow> H = {}"
  "pc_ok H (In fd m is x f g) \<longleftrightarrow> disciplined H is \<and> suffix is (code m)"
  by (simp_all add: pc_ok_def)

text \<open>What another thread has pending does not depend on strings it has not locked.\<close>

lemma pending_other:
  assumes "ordered s" "s_pc t v = s_pc s v" "\<forall>j \<in> held s v. s_dict t j = s_dict s j" "k \<in> held s v"
  shows "pending t v k = pending s v k"
proof -
  have "pc_ok (held s v) (s_pc s v)" using assms(1) by (simp add: ordered_iff)
  then show ?thesis using assms settle_cong [of "held s v" _ "s_dict t" "s_dict s"]
    by (auto simp: pending_def strs_def split: pc.splits)
qed

lemma quiet:
  assumes o: "ordered s" and h: "held s w = {}" and t: "s_dict t = s_dict s" "s_lock t = s_lock s" "s_pc t = (s_pc s)(w := p)" and p: "pc_ok {} p"
  shows "ordered t \<and> view t = view s"
proof
  have hd: "held t = held s" by (simp add: held_def fun_eq_iff t)
  show "ordered t" using o h p by (auto simp: ordered_iff hd t)
  show "view t = view s"
  proof
    fix k
    show "view t k = view s k"
    proof (cases "s_lock s k")
      case (Some v)
      then have "v \<noteq> w" using h by (auto simp: held_def)
      then show ?thesis using Some pending_other [OF o, of t v k] t by (auto simp: view_def held_def)
    qed (simp add: view_def t)
  qed
qed

lemma view_own: "s_pc s w = In fd m (Lock k # is) x f g \<Longrightarrow> s_lock s k = None \<Longrightarrow> i \<in> insert k (held s w) \<Longrightarrow> view s i = strs (s_dict s) i"
  by (auto simp: view_def pending_def held_def)

lemma locking:
  assumes o: "ordered s" and pc: "s_pc s w = In fd m (Lock k # is) x f g" and free: "s_lock s k = None"
    and t: "s_dict t = s_dict s" "s_lock t = (s_lock s)(k \<mapsto> w)" "s_pc t = (s_pc s)(w := In fd m is x f g)"
  shows "ordered t \<and> view t = (if list_ex is_Lock is then view s else effect m (view s))"
proof -
  have ok: "pc_ok (held s v) (s_pc s v)" for v using o by (simp add: ordered_iff)
  have d: "\<forall>h \<in> held s w. h < k" "disciplined (insert k (held s w)) is" and suf: "suffix (Lock k # is) (code m)"
    using ok [of w] by (simp_all add: pc)
  have hd: "held t v = (if v = w then insert k (held s w) else held s v)" for v
    using free by (auto simp: held_def t)
  have "suffix is (code m)" using suf by (meson suffix_ConsD)
  then have "ordered t" using ok d(2) by (auto simp: ordered_iff hd t)
  moreover have "view t j = (if list_ex is_Lock is then view s else effect m (view s)) j" for j
  proof -
    let ?H = "insert k (held s w)"
    define D where "D = (\<lambda>i. \<lparr>l_str = view s i, l_empty = True\<rparr>)"
    have D: "strs D = view s" by (simp add: D_def strs_def fun_eq_iff)
    have vs: "view s i = strs (s_dict s) i" if "i \<in> ?H" for i
      using view_own [OF pc free that] .
    have vt: "view t i = strs (snd (settle is (x, s_dict s))) i" if "i \<in> ?H" for i
      using that by (auto simp: view_def pending_def held_def t)
    have out: "view t i = view s i" if "i \<notin> ?H" for i
    proof (cases "s_lock s i")
      case (Some v)
      then have "v \<noteq> w" "i \<noteq> k" using that by (auto simp: held_def)
      then show ?thesis using Some pending_other [OF o, of t v i] t by (auto simp: view_def held_def)
    qed (use that in \<open>auto simp: view_def t held_def\<close>)
    show ?thesis
    proof (cases "list_ex is_Lock is")
      case True
      have "settle is (x, s_dict s) = (x, s_dict s)" by (rule settle_locks [OF d(2) _ True]) simp
      then show ?thesis using True vt vs out by (cases "j \<in> ?H") auto
    next
      case False
      have e: "effect m (view s) = strs (snd (settle is (x, D)))" using settle_effect [OF suf False, of x D] D by simp
      show ?thesis
      proof (cases "j \<in> ?H")
        case True
        then show ?thesis using False e vt [OF True] settle_cong [OF d(2), of "s_dict s" D x] vs D by simp
      next
        case out': False
        then show ?thesis using False e out [OF out'] settle_frame [OF d(2) out', of x D] D by (simp add: strs_def) (simp add: D_def)
      qed
    qed
  qed
  ultimately show ?thesis by blast
qed

lemma unlocking:
  assumes o: "ordered s" and pc: "s_pc s w = In fd m (Unlock k # is) x f g"
    and t: "s_dict t = s_dict s" "s_lock t = (s_lock s)(k := None)" "s_pc t = (s_pc s)(w := In fd m is x f g)"
  shows "ordered t \<and> view t = view s"
proof -
  have ok: "pc_ok (held s v) (s_pc s v)" for v using o by (simp add: ordered_iff)
  have d: "k \<in> held s w" "list_all is_Unlock is" "disciplined (held s w - {k}) is" and suf: "suffix (Unlock k # is) (code m)"
    using ok [of w] by (simp_all add: pc)
  have hd: "held t v = (if v = w then held s w - {k} else held s v)" for v
    using d(1) by (auto simp: held_def t)
  have "suffix is (code m)" using suf by (meson suffix_ConsD)
  then have "ordered t" using ok d(3) by (auto simp: ordered_iff hd t)
  moreover have "view t j = view s j" for j
  proof (cases "s_lock s j")
    case (Some v)
    show ?thesis
    proof (cases "v = w")
      case True
      then show ?thesis using Some settle_unlocks [OF d(2)] by (simp add: view_def pending_def pc t)
    next
      case False
      then have "j \<noteq> k" using Some d(1) by (auto simp: held_def)
      then show ?thesis using Some False pending_other [OF o, of t v j] t by (auto simp: view_def held_def)
    qed
  qed (simp add: view_def t)
  ultimately show ?thesis by blast
qed

lemma acting:
  assumes o: "ordered s" and pc: "s_pc s w = In fd m (i # is) x f g" and i: "foot i \<noteq> {}" and a: "act i (x, s_dict s) = (x', d')"
    and t: "s_dict t = d'" "s_lock t = s_lock s" "s_pc t = (s_pc s)(w := In fd m is x' f g)"
  shows "ordered t \<and> view t = view s"
proof -
  have ok: "pc_ok (held s v) (s_pc s v)" for v using o by (simp add: ordered_iff)
  have dw: "disciplined (held s w) (i # is)" and suf: "suffix (i # is) (code m)" using ok [of w] by (simp_all add: pc)
  note b = disciplined_body [OF dw i]
  have hd: "held t = held s" by (simp add: held_def fun_eq_iff t)
  have "suffix is (code m)" using suf by (meson suffix_ConsD)
  then have "ordered t" using ok b by (auto simp: ordered_iff hd t)
  moreover have "view t j = view s j" for j
  proof (cases "s_lock s j")
    case None
    then have "j \<notin> foot i" using b by (auto simp: held_def)
    then show ?thesis using None act_frame [of j i x "s_dict s"] a by (simp add: view_def strs_def t)
  next
    case (Some v)
    show ?thesis
    proof (cases "v = w")
      case True
      then show ?thesis using Some i a by (simp add: view_def pending_def pc t)
    next
      case False
      have "s_dict t l = s_dict s l" if "l \<in> held s v" for l
      proof -
        have "l \<notin> foot i" using b that False by (auto simp: held_def)
        then show ?thesis using act_frame [of l i x "s_dict s"] a by (simp add: t)
      qed
      then show ?thesis using Some False pending_other [OF o, of t v j] t by (auto simp: view_def held_def)
    qed
  qed
  ultimately show ?thesis by blast
qed

text \<open>The state of the specification: the strings as they will be, the emptiness as it is, and what every
  thread has left to do.\<close>

definition phase_of :: "pc \<Rightarrow> dict \<Rightarrow> phase" where
  "phase_of p d = (case p of
     In fd m is x f g \<Rightarrow>
       if list_ex is_Lock is then Testing m (tests_of is)
       else if list_ex is_SetEmpty is then Flagging m (fst (settle is (x, d)))
       else Over (Some (fst (settle is (x, d))))
   | _ \<Rightarrow> Idle)"

definition abs :: "server \<Rightarrow> spec" where
  "abs s = \<lparr>sp_str = view s, sp_empty = (\<lambda>k. l_empty (s_dict s k)), sp_at = (\<lambda>w. phase_of (s_pc s w) (s_dict s))\<rparr>"

lemma phase_other:
  assumes "ordered s" "s_pc t v = s_pc s v" "\<forall>j \<in> held s v. s_dict t j = s_dict s j"
  shows "phase_of (s_pc t v) (s_dict t) = phase_of (s_pc s v) (s_dict s)"
proof -
  have "pc_ok (held s v) (s_pc s v)" using assms(1) by (simp add: ordered_iff)
  then show ?thesis using assms settle_cong [of "held s v" _ "s_dict t" "s_dict s"]
    by (auto simp: phase_of_def strs_def split: pc.splits)
qed

definition fresh_local :: "pc \<Rightarrow> bool" where
  "fresh_local p \<longleftrightarrow> (case p of In fd m is x f g \<Rightarrow> list_ex is_Lock is \<longrightarrow> x = [] | _ \<Rightarrow> True)"

definition logged :: "server \<Rightarrow> bool" where
  "logged s \<longleftrightarrow> ordered s \<and> (\<forall>w. fresh_local (s_pc s w)) \<and> spec_run (s_log s) spec0 = Some (abs s)"

lemma loggedI:
  assumes s: "logged s" and o: "ordered t" and p: "s_pc t = (s_pc s)(w := p)" "fresh_local p"
    and d: "\<And>v j. v \<noteq> w \<Longrightarrow> j \<in> held s v \<Longrightarrow> s_dict t j = s_dict s j" and l: "s_log t = s_log s @ L"
    and r: "spec_run L (abs s) = Some (at w (phase_of p (s_dict t)) (abs s\<lparr>sp_str := view t, sp_empty := \<lambda>k. l_empty (s_dict t k)\<rparr>))"
  shows "logged t"
proof -
  have o': "ordered s" and run: "spec_run (s_log s) spec0 = Some (abs s)" and fl: "\<forall>w. fresh_local (s_pc s w)"
    using s by (auto simp: logged_def)
  have "phase_of (s_pc t v) (s_dict t) = phase_of (s_pc s v) (s_dict s)" if "v \<noteq> w" for v
    by (rule phase_other [OF o']) (use p(1) d that in auto)
  then have "at w (phase_of p (s_dict t)) (abs s\<lparr>sp_str := view t, sp_empty := \<lambda>k. l_empty (s_dict t k)\<rparr>) = abs t"
    by (simp add: at_def abs_def fun_eq_iff p(1))
  then show ?thesis using o p fl by (simp add: logged_def spec_run_append l run r)
qed

lemma abs_fields [simp]:
  "sp_str (abs s) = view s" "sp_empty (abs s) k = l_empty (s_dict s k)" "sp_at (abs s) w = phase_of (s_pc s w) (s_dict s)"
  by (simp_all add: abs_def)

lemma abs_same: "abs s\<lparr>sp_str := view s, sp_empty := \<lambda>k. l_empty (s_dict s k)\<rparr> = abs s"
  by (simp add: abs_def)

lemma at_same: "sp_at A w = p \<Longrightarrow> at w p A = A"
  by (cases A) (auto simp: at_def)

lemma act_flags: "\<not> is_SetEmpty i \<Longrightarrow> l_empty (snd (act i (x, d)) k) = l_empty (d k)"
  by (cases i) (auto simp: is_SetEmpty_def)

lemma in_step_act:
  assumes "foot i \<noteq> {}" "act i (x, s_dict s) = (x', d')"
  shows "in_step w fd m (i # is) x f g s =
    Some (goto w (In fd m is x' f g) (emit (if is_SetEmpty i then [Flagged w] else []) (s\<lparr>s_dict := d'\<rparr>)))"
  using assms by (cases i) (auto simp: is_SetEmpty_def)

lemma in_step_logged:
  assumes "logged s" "s_pc s w = In fd m is x f g" "in_step w fd m is x f g s = Some t"
  shows "logged t"
proof -
  have o: "ordered s" and fl: "list_ex is_Lock is \<Longrightarrow> x = []"
    using assms(1,2) by (auto simp: logged_def fresh_local_def dest!: spec [of _ w])
  have ok: "disciplined (held s w) is" "suffix is (code m)" using o assms(2) by (auto simp: ordered_iff dest!: spec [of _ w])
  note inv = loggedI [OF assms(1)]
  show ?thesis
  proof (cases "is")
    case Nil
    then have t: "t = goto w (Run fd (g x)) (emit [Returned w (Some x)] s)" using assms(3) by simp
    have "ordered t \<and> view t = view s" using quiet [OF o, of w t "Run fd (g x)"] ok(1) Nil t by simp
    then show ?thesis by (intro inv [of t w "Run fd (g x)"]) (auto simp: t Nil fresh_local_def phase_of_def abs_same assms(2))
  next
    case (Cons i js)
    consider k b where "i = FailIf k b" | k where "i = Lock k" | k where "i = Unlock k" | "foot i \<noteq> {}" by (cases i) auto
    then show ?thesis
    proof cases
      case 1
      let ?e = "l_empty (s_dict s k)"
      let ?p = "if ?e = b then Run fd f else In fd m js x f g" and ?L = "if ?e = b then [Tested w k b, Returned w None] else [Tested w k (\<not> b)]"
      have l: "list_ex is_Lock js" using test_then_lock ok(2) Cons 1 by simp
      have h: "held s w = {}" "disciplined {} js" "suffix js (code m)" using ok Cons 1 by (auto dest: suffix_ConsD)
      have t: "t = goto w ?p (emit ?L s)" using assms(3) Cons 1 by auto
      have "ordered t \<and> view t = view s" using quiet [OF o h(1), of t ?p] h t by simp
      moreover have "sp_at (abs s) w = Testing m ((k, b) # tests_of js)"
        using l by (simp add: assms(2) phase_of_def Cons 1 is_Lock_def tests_of_def)
      ultimately show ?thesis using fl l
        by (intro inv [of t w ?p ?L]) (auto simp: t Cons 1 fresh_local_def phase_of_def is_Lock_def abs_same at_def)
    next
      case 2
      let ?p = "In fd m js x f g" and ?L = "if list_ex is_Lock js then [] else [Effect w]"
      have free: "s_lock s k = None" using assms(3) Cons 2 by (auto split: if_splits)
      then have t: "t = goto w ?p (emit ?L (s\<lparr>s_lock := (s_lock s)(k \<mapsto> w)\<rparr>))" using assms(3) Cons 2 by simp
      have x: "x = []" using fl Cons 2 by (simp add: is_Lock_def)
      have suf: "suffix (Lock k # js) (code m)" using ok(2) Cons 2 by simp
      note lf = lock_then_flag [OF suf]
      have ov: "ordered t" "view t = (if list_ex is_Lock js then view s else effect m (view s))"
        using locking [OF o, of w fd m k js x f g t] assms(2) free Cons 2 by (auto simp: t)
      have res: "fst (settle js ([], s_dict s)) = result m (view s)" if "\<not> list_ex is_Lock js"
      proof -
        define D where "D = (\<lambda>i. \<lparr>l_str = view s i, l_empty = True\<rparr>)"
        have D: "strs D = view s" by (simp add: D_def strs_def fun_eq_iff)
        have "disciplined (insert k (held s w)) js" using ok(1) Cons 2 by simp
        then have "fst (settle js ([], s_dict s)) = fst (settle js ([], D))"
          using settle_cong [of _ js "s_dict s" D "[]"] view_own [of s w fd m k js x f g] assms(2) free Cons 2 D by auto
        then show ?thesis using settle_result [OF suf that, of D] D by simp
      qed
      have ph: "sp_at (abs s) w = Testing m []" by (simp add: assms(2) phase_of_def Cons 2 is_Lock_def lf [unfolded 2])
      show ?thesis using ov x ph res lf
        by (intro inv [of t w ?p ?L]) (auto simp: t Cons 2 fresh_local_def phase_of_def abs_same at_same abs_def at_def Let_def)
    next
      case 3
      let ?p = "In fd m js x f g"
      have t: "t = goto w ?p (s\<lparr>s_lock := (s_lock s)(k := None)\<rparr>)" using assms(3) Cons 3 by simp
      have u: "list_all is_Unlock js" using ok(1) Cons 3 by simp
      have "\<not> list_ex is_Lock js" "\<not> list_ex is_SetEmpty js"
        using u by (auto simp: list_all_iff list_ex_iff is_Lock_def is_SetEmpty_def is_Unlock_def split: instr.splits)
      moreover have "ordered t \<and> view t = view s" using unlocking [OF o, of w fd m k js x f g t] assms(2) Cons 3 t by simp
      ultimately show ?thesis
        by (intro inv [of t w ?p "[]"])
          (auto simp: t Cons 3 fresh_local_def phase_of_def assms(2) is_Lock_def is_SetEmpty_def settle_unlocks [OF u] abs_same at_same)
    next
      case 4
      obtain x' d' where a: "act i (x, s_dict s) = (x', d')" by fastforce
      let ?p = "In fd m js x' f g" and ?L = "if is_SetEmpty i then [Flagged w] else []"
      have t: "t = goto w ?p (emit ?L (s\<lparr>s_dict := d'\<rparr>))" using assms(3) in_step_act [OF 4 a] Cons by simp
      have b: "foot i \<subseteq> held s w" "\<not> list_ex is_Lock js" using disciplined_body [of "held s w" i js] ok(1) 4 Cons by auto
      have frame: "d' j = s_dict s j" if "v \<noteq> w" "j \<in> held s v" for v j
      proof -
        have "j \<notin> foot i" using that b(1) by (auto simp: held_def)
        then show ?thesis using act_frame [of j i x "s_dict s"] a by simp
      qed
      have ov: "ordered t \<and> view t = view s" using acting [OF o _ 4 a, of w fd m js f g t] assms(2) Cons t by simp
      have nl: "\<not> is_Lock i" using 4 by (cases i) (auto simp: is_Lock_def)
      show ?thesis
      proof (cases "is_SetEmpty i")
        case True
        then obtain k c where i: "i = SetEmpty k c" by (cases i) (auto simp: is_SetEmpty_def)
        have fl': "flag m = Some (k, c)" "\<not> list_ex is_SetEmpty js" using flag_last [of k c js m] ok(2) Cons i by simp_all
        have d': "x' = x" "d' = (s_dict s)(k := (s_dict s k)\<lparr>l_empty := c\<rparr>)" using a i by auto
        have ph: "sp_at (abs s) w = Flagging m (fst (settle js (x, d')))"
          using b(2) nl by (simp add: assms(2) phase_of_def Cons i is_Lock_def is_SetEmpty_def d'(2))
        have "spec_run ?L (abs s) = Some (at w (phase_of ?p (s_dict t)) (abs s\<lparr>sp_str := view t, sp_empty := \<lambda>k. l_empty (s_dict t k)\<rparr>))"
          using True ph fl' b(2) ov by (simp add: t phase_of_def abs_def at_def fun_eq_iff d')
        then show ?thesis using frame ov b(2) by (intro inv [of t w ?p ?L]) (auto simp: t fresh_local_def)
      next
        case False
        have em: "l_empty (d' k) = l_empty (s_dict s k)" for k using act_flags [OF False, of x "s_dict s" k] a by simp
        have "phase_of ?p d' = sp_at (abs s) w"
          using b(2) nl False 4 a by (simp add: assms(2) phase_of_def Cons)
        then have "spec_run ?L (abs s) = Some (at w (phase_of ?p (s_dict t)) (abs s\<lparr>sp_str := view t, sp_empty := \<lambda>k. l_empty (s_dict t k)\<rparr>))"
          using False ov em by (simp add: t at_same abs_same del: abs_fields(3))
        then show ?thesis using frame ov b(2) by (intro inv [of t w ?p ?L]) (auto simp: t fresh_local_def)
      qed
    qed
  qed
qed

lemma quiet_logged:
  assumes "logged s" "held s w = {}" "pc_ok {} p" "fresh_local p"
    and t: "s_dict t = s_dict s" "s_lock t = s_lock s" "s_pc t = (s_pc s)(w := p)" "s_log t = s_log s @ L"
    and r: "spec_run L (abs s) = Some (at w (phase_of p (s_dict s)) (abs s))"
  shows "logged t"
proof -
  have "ordered t \<and> view t = view s" using quiet [OF _ assms(2) t(1-3) assms(3)] assms(1) by (auto simp: logged_def)
  then show ?thesis using assms by (intro loggedI [OF assms(1), of t w p L]) (auto simp: abs_same)
qed

lemma same_logged:
  assumes "logged s" "s_dict t = s_dict s" "s_lock t = s_lock s" "s_pc t = s_pc s" "s_log t = s_log s"
  shows "logged t"
proof -
  have "held t = held s" "view t = view s"
    by (auto intro!: ext simp: assms(2-5) held_def view_def pending_def split: option.split pc.split)
  then show ?thesis using assms by (simp add: logged_def ordered_iff abs_def)
qed

lemma wstep_logged:
  assumes "logged s" "wstep inp tid w s = Some t"
  shows "logged t"
proof -
  have cr: "\<not> s_crashed s" using assms(2) by (auto split: if_splits)
  have ok: "pc_ok (held s w) (s_pc s w)" using assms(1) by (simp add: logged_def ordered_iff)
  have q: "logged t" if "held s w = {}" "pc_ok {} p" "fresh_local p" "t = goto w p (emit L u)"
    "s_dict u = s_dict s" "s_lock u = s_lock s" "s_pc u = s_pc s" "s_log u = s_log s"
    "spec_run L (abs s) = Some (at w (phase_of p (s_dict s)) (abs s))" for p u L
    using quiet_logged [OF assms(1) that(1-3), of t L] that by simp
  have e: "goto w p u = goto w p (emit [] u)" for p u by (simp add: goto_def emit_def)
  show ?thesis
  proof (cases "s_pc s w")
    case (In fd m "is" x f g)
    then show ?thesis using in_step_logged [OF assms(1) In] assms(2) cr by simp
  next
    case (Run fd h)
    then have c: "held s w = {}" and i: "sp_at (abs s) w = Idle" using ok by (simp_all add: phase_of_def)
    note same = at_same [OF i]
    show ?thesis
    proof (cases h)
      case Crash
      then show ?thesis using q [OF c, of Start "[]" "s\<lparr>s_crashed := True\<rparr>"] assms(2) cr Run same
        by (auto simp: fresh_local_def phase_of_def e [symmetric])
    next
      case (Call m f g)
      then show ?thesis using q [OF c, of "In fd m (code m) [] f g" "[Called w m]" s] assms(2) cr Run i
        by (auto simp: fresh_local_def phase_of_def code_disciplined code_locks code_tests)
    next
      case End
      then show ?thesis using q [OF c, of Start "[]" "s\<lparr>s_closed := s_closed s @ [fd]\<rparr>"] assms(2) cr Run same
        by (auto simp: fresh_local_def phase_of_def e [symmetric])
    next
      case (Send a h')
      then show ?thesis using q [OF c, of "Run fd h'" "[]" "s\<lparr>s_sent := s_sent s @ [(fd, a)]\<rparr>"] assms(2) cr Run same
        by (auto simp: fresh_local_def phase_of_def e [symmetric])
    next
      case (IfEmpty k h1 h2)
      then show ?thesis using q [OF c, of "Run fd (if l_empty (s_dict s k) then h1 else h2)" "[Looked w k (l_empty (s_dict s k))]" s] assms(2) cr Run i same
        by (auto simp: fresh_local_def phase_of_def)
    qed
  next
    case Awake
    then have c: "held s w = {}" and i: "sp_at (abs s) w = Idle" using ok by (simp_all add: phase_of_def)
    note same = at_same [OF i]
    show ?thesis
    proof (cases "s_queue s")
      case Nil
      then show ?thesis using same_logged [OF assms(1), of t] assms(2) cr Awake by auto
    next
      case (Cons fd r)
      then show ?thesis using q [OF c, of "Run fd (request_handler (tid w) (inp fd))" "[]" "s\<lparr>s_queue := r\<rparr>"] assms(2) cr Awake same
        by (auto simp: fresh_local_def phase_of_def e [symmetric])
    qed
  next
    case Start
    then have "sp_at (abs s) w = Idle" by (simp add: phase_of_def)
    then show ?thesis using q [of Waiting "[]" s] ok assms(2) cr Start at_same [of "abs s" w Idle]
      by (auto simp: fresh_local_def phase_of_def e [symmetric])
  qed (use assms(2) cr in auto)
qed

lemma woken_logged:
  assumes "logged s" "s_pc s w = Waiting" "s_dict t = s_dict s" "s_lock t = s_lock s" "s_pc t = (s_pc s)(w := Awake)" "s_log t = s_log s"
  shows "logged t"
proof -
  have "held s w = {}" using assms(1,2) by (auto simp: logged_def ordered_iff dest!: spec [of _ w])
  moreover have "at w Idle (abs s) = abs s" by (rule at_same) (simp add: assms(2) phase_of_def)
  ultimately show ?thesis using assms
    by (intro quiet_logged [OF assms(1), of w Awake t "[]"]) (auto simp: fresh_local_def phase_of_def)
qed

lemma srv_step_logged: "srv_step sp inp tid n s t \<Longrightarrow> logged s \<Longrightarrow> logged t"
proof (induction rule: srv_step.induct)
  case (work w s t)
  then show ?case by (blast intro: wstep_logged)
next
  case (accept s fd)
  then show ?case by (auto intro: same_logged)
next
  case (signal_none s)
  then show ?case by (auto intro: same_logged)
qed (auto intro: woken_logged)

lemma server0_logged: "logged server0"
proof -
  have "held server0 w = {}" for w by (simp add: held_def server0_def)
  moreover have "view server0 = (\<lambda>_. [])" by (rule ext) (simp add: view_def server0_def strs_def)
  ultimately show ?thesis by (simp add: logged_def ordered_iff fresh_local_def abs_def) (simp add: server0_def spec0_def phase_of_def)
qed

lemma reach_logged: "(srv_step sp inp tid n)\<^sup>*\<^sup>* server0 s \<Longrightarrow> logged s"
  by (induction rule: rtranclp_induct) (auto intro: server0_logged srv_step_logged)

section \<open>No deadlock\<close>

definition busy :: "server \<Rightarrow> nat \<Rightarrow> bool" where
  "busy s w \<longleftrightarrow> (case s_pc s w of Run fd h \<Rightarrow> True | In fd m is x f g \<Rightarrow> True | _ \<Rightarrow> False)"

lemma blocked_iff:
  assumes "\<not> s_crashed s" "busy s w"
  shows "wstep inp tid w s = None \<longleftrightarrow> (\<exists>fd m k is x f g. s_pc s w = In fd m (Lock k # is) x f g \<and> s_lock s k \<noteq> None)"
proof (cases "s_pc s w")
  case (In fd m "is" x f g)
  show ?thesis
  proof (cases "is")
    case (Cons i js)
    then show ?thesis using In assms(1) by (cases i) (auto split: prod.splits)
  qed (use In assms(1) in auto)
qed (use assms in \<open>auto simp: busy_def\<close>)

text \<open>A thread that waits for a lock waits for a higher one than those it holds, so the thread that waits for the highest waits
  for one that can go on.\<close>

lemma no_deadlock:
  assumes o: "ordered s" and cr: "\<not> s_crashed s" and idle: "\<forall>w \<ge> n. s_pc s w = Start" and b: "w < n" "busy s w"
  shows "\<exists>v < n. busy s v \<and> wstep inp tid v s \<noteq> None"
proof (rule ccontr)
  assume "\<not> ?thesis"
  then have blocked: "\<exists>fd m k is x f g. s_pc s v = In fd m (Lock k # is) x f g \<and> s_lock s k \<noteq> None" if "v < n" "busy s v" for v
    using that blocked_iff [OF cr, of v inp tid] by blast
  let ?wants = "\<lambda>v k. \<exists>fd m is x f g. s_pc s v = In fd m (Lock k # is) x f g" and ?S = "{k. \<exists>v < n. \<exists>fd m is x f g. s_pc s v = In fd m (Lock k # is) x f g}"
  have "?S \<subseteq> (\<lambda>v. case s_pc s v of In fd m (Lock k # is) x f g \<Rightarrow> k | _ \<Rightarrow> 0) ` {..<n}" by force
  then have fin: "finite ?S" by (rule finite_subset) simp
  have "?S \<noteq> {}" using blocked [OF b] b(1) by blast
  then have "Max ?S \<in> ?S" by (rule Max_in [OF fin])
  then obtain v where v: "v < n" "?wants v (Max ?S)" by blast
  then have "busy s v" by (auto simp: busy_def)
  then obtain u where u: "s_lock s (Max ?S) = Some u" using blocked [OF v(1)] v(2) by auto
  have ok: "pc_ok (held s u) (s_pc s u)" using o by (simp add: ordered_iff)
  have "Max ?S \<in> held s u" using u by (simp add: held_def)
  then have "busy s u" "u < n" using ok idle not_less [of u n] by (auto simp: busy_def split: pc.split)
  then obtain k where k: "?wants u k" using blocked by blast
  then have "Max ?S < k" using ok \<open>Max ?S \<in> held s u\<close> by auto
  moreover have "k \<le> Max ?S" by (rule Max_ge [OF fin]) (use k \<open>u < n\<close> in blast)
  ultimately show False by simp
qed

section \<open>Every request ends\<close>

inductive fits :: "nat \<Rightarrow> handler \<Rightarrow> bool" where
  "fits b End"
| "fits b Crash"
| "fits b h \<Longrightarrow> b < c \<Longrightarrow> fits c (Send a h)"
| "fits b h1 \<Longrightarrow> fits b h2 \<Longrightarrow> b < c \<Longrightarrow> fits c (IfEmpty k h1 h2)"
| "fits b f \<Longrightarrow> (\<And>r. fits b (g r)) \<Longrightarrow> b + length (code m) + 1 < c \<Longrightarrow> fits c (Call m f g)"

inductive_cases fits_Send: "fits c (Send a h)"
inductive_cases fits_IfEmpty: "fits c (IfEmpty k h1 h2)"
inductive_cases fits_Call: "fits c (Call m f g)"

lemma fits_mono: "fits b h \<Longrightarrow> b \<le> c \<Longrightarrow> fits c h"
  by (induction arbitrary: c rule: fits.induct) (blast intro: fits.intros order.strict_trans2)+

lemma fits_lt: "fits a h \<Longrightarrow> a < c \<Longrightarrow> c < b \<Longrightarrow> \<exists>c < b - Suc 0. fits c h"
  by (intro exI [of _ a]) auto

lemma code_short: "length (code m) \<le> 9"
  by (cases m) (auto simp: UpdateString_code_def InsertString_code_def GetString_code_def concat_code_def Remove_code_def)

lemma fits_reply: "fits 1 (reply tid a)"
  by (auto simp: reply_def intro: fits.intros)

lemma fits_call: "fits b f \<Longrightarrow> (\<And>r. fits b (g r)) \<Longrightarrow> b + 11 \<le> c \<Longrightarrow> fits c (Call m f g)"
  by (rule fits.intros(5)) (use code_short [of m] in auto)

lemma fits_clear: "fits (11 * length ks + 1) (foldr (\<lambda>i h. Call (Remove i) h (\<lambda>_. h)) ks (Send a End))"
  by (induction ks) (auto intro: fits.intros fits_call)

lemma fits_request_handler: "fits 2000 (request_handler tid i)"
proof -
  have r: "fits b (reply tid a)" if "1 \<le> b" for a b using fits_mono [OF fits_reply that] .
  have e: "fits b End" for b by (rule fits.intros)
  have "fits 2000 (insert_request tid k v)" "fits 2000 (update_request tid k v)" "fits 2000 (fetch_request tid k)"
    "fits 2000 (concat_request tid k j)" "fits 2000 (delete_request tid k)" for k j v
    unfolding insert_request_def update_request_def fetch_request_def concat_request_def delete_request_def Let_def
    by (rule fits_call [of 1], rule r, simp, rule r, simp, simp)
       (rule fits_call [of 12], rule r, simp, rule fits_call [of 1], rule e, rule r, simp, simp, simp,
        rule fits.intros(4) [of 12], rule r, simp, rule fits_call [of 1], rule e, rule r, simp, simp, simp,
        rule fits_call [of 34], rule r, simp, rule fits_call [of 23], rule e, rule fits_call [of 12], rule e,
        rule fits_call [of 1], rule e, rule r, simp, simp, simp, simp, simp,
        rule fits.intros(4) [of 12], rule fits.intros(3) [of 11], rule fits_call [of 0], rule e, rule e, simp, simp,
        rule fits_call [of 0], rule e, rule e, simp, simp)
  moreover have "fits 2000 clear_request"
    unfolding clear_request_def by (rule fits_mono [OF fits_clear]) simp
  ultimately show ?thesis using fits.intros(2) [of 2000] r [of 2000]
    by (auto simp: request_handler_def with_number_def at_key_def Let_def split: option.split prod.split)
qed

definition pc_fits :: "nat \<Rightarrow> pc \<Rightarrow> bool" where
  "pc_fits b p \<longleftrightarrow> (case p of Run fd h \<Rightarrow> \<exists>c < b. fits c h
     | In fd m is x f g \<Rightarrow> \<exists>c. c + length is + 1 < b \<and> fits c f \<and> (\<forall>r. fits c (g r)) | _ \<Rightarrow> True)"

lemma busy_step_fits:
  assumes "busy s w" "wstep inp tid w s = Some t" "pc_fits b (s_pc s w)"
  shows "0 < b \<and> pc_fits (b - 1) (s_pc t w)"
proof (cases "s_pc s w")
  case (Run fd h)
  then obtain c where c: "c < b" "fits c h" using assms(3) by (auto simp: pc_fits_def)
  show ?thesis
  proof (cases h)
    case (Call m f g)
    then obtain d where "fits d f" "\<And>r. fits d (g r)" "d + length (code m) + 1 < c" using c(2) by (auto elim: fits_Call)
    then show ?thesis using assms(2) Run Call c(1) by (auto simp: pc_fits_def split: if_splits intro!: exI [of _ d])
  qed (use assms(2) Run c in \<open>auto simp: pc_fits_def split: if_splits elim!: fits_Send fits_IfEmpty intro: fits_lt\<close>)
next
  case (In fd m "is" x f g)
  then obtain c where c: "c + length is + 1 < b" "fits c f" "\<And>r. fits c (g r)" using assms(3) by (auto simp: pc_fits_def)
  have cr: "\<not> s_crashed s" using assms(2) by (auto split: if_splits)
  show ?thesis
  proof (cases "is")
    case (Cons i js)
    then have "0 < b" "pc_fits (b - 1) (In fd m js x' f g)" "pc_fits (b - 1) (Run fd f)" for x'
      using c by (auto simp: pc_fits_def intro!: exI [of _ c])
    then show ?thesis using assms(2) In Cons cr by (cases i) (auto split: if_splits prod.splits)
  qed (use assms(2) In c cr in \<open>auto simp: pc_fits_def intro!: exI [of _ c]\<close>)
qed (use assms(1) in \<open>simp_all add: busy_def\<close>)

lemma wstep_pc: "wstep inp tid w s = Some t \<Longrightarrow> v \<noteq> w \<Longrightarrow> s_pc t v = s_pc s v"
proof -
  assume a: "wstep inp tid w s = Some t" "v \<noteq> w"
  then have cr: "\<not> s_crashed s" by (auto split: if_splits)
  show ?thesis
  proof (cases "s_pc s w")
    case (In fd m "is" x f g)
    show ?thesis
    proof (cases "is")
      case (Cons i js)
      then show ?thesis using a In cr by (cases i) (auto split: if_splits prod.splits)
    qed (use a In cr in auto)
  next
    case (Run fd h)
    then show ?thesis using a cr by (cases h) auto
  qed (use a cr in \<open>auto split: list.splits\<close>)
qed

definition well_formed :: "nat \<Rightarrow> server \<Rightarrow> bool" where
  "well_formed n s \<longleftrightarrow> (\<forall>w \<ge> n. s_pc s w = Start) \<and> (\<forall>w. \<exists>b. pc_fits b (s_pc s w))"

lemma wstep_fits:
  assumes "\<exists>b. pc_fits b (s_pc s w)" "wstep inp tid w s = Some t"
  shows "\<exists>b. pc_fits b (s_pc t w)"
proof (cases "busy s w")
  case True
  then show ?thesis using busy_step_fits assms by blast
next
  case False
  have "pc_fits 2001 (Run fd (request_handler (tid w) (inp fd)))" for fd
    using fits_request_handler by (auto simp: pc_fits_def intro: exI [of _ 2000])
  then show ?thesis using False assms(2)
    by (cases "s_pc s w") (fastforce simp: busy_def pc_fits_def split: if_splits list.splits)+
qed

lemma srv_step_well_formed: "srv_step sp inp tid n s t \<Longrightarrow> well_formed n s \<Longrightarrow> well_formed n t"
proof (induction rule: srv_step.induct)
  case (work w s t)
  then have "s_pc t v = s_pc s v" if "v \<noteq> w" for v using wstep_pc that by blast
  moreover have "\<exists>b. pc_fits b (s_pc t w)" using wstep_fits [OF _ work.hyps(2)] work.prems by (simp add: well_formed_def)
  ultimately show ?case using work.prems work.hyps(1) by (simp add: well_formed_def) (metis not_less)
qed (auto simp: well_formed_def pc_fits_def)

lemma reach_well_formed: "(srv_step sp inp tid n)\<^sup>*\<^sup>* server0 s \<Longrightarrow> well_formed n s"
  by (induction rule: rtranclp_induct) (auto intro: srv_step_well_formed, simp add: well_formed_def server0_def pc_fits_def)

text \<open>A step of a worker that has a request.\<close>

definition busy_step :: "(nat \<Rightarrow> cstring option) \<Rightarrow> (nat \<Rightarrow> cstring) \<Rightarrow> nat \<Rightarrow> server \<Rightarrow> server \<Rightarrow> bool" where
  "busy_step inp tid n s t \<longleftrightarrow> (\<exists>w < n. busy s w \<and> wstep inp tid w s = Some t)"

lemma busy_steps_bounded:
  "(busy_step inp tid n ^^ k) s t \<Longrightarrow> \<forall>w < n. pc_fits (b w) (s_pc s w) \<Longrightarrow> k \<le> (\<Sum>w<n. b w)"
proof (induction k arbitrary: s b)
  case (Suc k)
  then obtain u where u: "busy_step inp tid n s u" "(busy_step inp tid n ^^ k) u t" using relpowp_Suc_D2 by metis
  then obtain w where w: "w < n" "busy s w" "wstep inp tid w s = Some u" by (auto simp: busy_step_def)
  then have bw: "0 < b w" "pc_fits (b w - 1) (s_pc u w)" using busy_step_fits Suc.prems(2) by blast+
  have "\<forall>v < n. pc_fits ((b(w := b w - 1)) v) (s_pc u v)" using bw(2) Suc.prems(2) wstep_pc [OF w(3)] by auto
  then have "k \<le> (\<Sum>v<n. (b(w := b w - 1)) v)" by (rule Suc.IH [OF u(2)])
  moreover have "(\<Sum>v<n. (b(w := b w - 1)) v) + b w = (\<Sum>v<n. b v) + (b w - 1)" using sum_change_one [OF w(1), of "b(w := b w - 1)" b] by simp
  ultimately show ?case using bw(1) by simp
qed simp

lemma busy_steps_reach: "(busy_step inp tid n)\<^sup>*\<^sup>* s t \<Longrightarrow> (srv_step sp inp tid n)\<^sup>*\<^sup>* s t"
  by (induction rule: rtranclp_induct) (auto simp: busy_step_def simp del: wstep.simps intro: rtranclp.rtrancl_into_rtrancl srv_step.work)

section \<open>The queue\<close>

definition awake :: "nat \<Rightarrow> server \<Rightarrow> nat" where
  "awake n s = card {w. w < n \<and> s_pc s w = Awake}"

lemma awake_upd:
  assumes "w < n" "s_pc t = (s_pc s)(w := p)"
  shows "awake n t + (if s_pc s w = Awake then 1 else 0) = awake n s + (if p = Awake then 1 else 0)"
proof -
  obtain A where A: "A = {v. v < n \<and> s_pc s v = Awake} - {w}" by simp
  have "{v. v < n \<and> s_pc t v = Awake} = (if p = Awake then insert w A else A)"
    "{v. v < n \<and> s_pc s v = Awake} = (if s_pc s w = Awake then insert w A else A)" using assms by (auto simp: A)
  moreover have "finite A" "w \<notin> A" by (auto simp: A)
  ultimately show ?thesis by (simp add: awake_def)
qed

lemma wstep_queue:
  assumes "wstep inp tid w s = Some t" "s_pc s w \<noteq> Awake"
  shows "s_queue t = s_queue s \<and> s_main t = s_main s \<and> s_pc t w \<noteq> Awake"
proof -
  have cr: "\<not> s_crashed s" using assms(1) by (auto split: if_splits)
  show ?thesis
  proof (cases "s_pc s w")
    case (In fd m "is" x f g)
    show ?thesis
    proof (cases "is")
      case (Cons i js)
      then show ?thesis using assms(1) In cr by (cases i) (auto split: if_splits prod.splits)
    qed (use assms(1) In cr in auto)
  next
    case (Run fd h)
    then show ?thesis using assms(1) cr by (cases h) auto
  qed (use assms cr in auto)
qed

definition enough_requests :: "nat \<Rightarrow> server \<Rightarrow> bool" where
  "enough_requests n s \<longleftrightarrow> awake n s + (if s_main s = Signalling then 1 else 0) \<le> length (s_queue s)"

lemma srv_step_queue: "srv_step sp inp tid n s t \<Longrightarrow> \<not> sp \<Longrightarrow> enough_requests n s \<Longrightarrow> enough_requests n t"
proof (induction rule: srv_step.induct)
  case (signal_one s w)
  then show ?case using awake_upd [of w n "goto w Awake (s\<lparr>s_main := Accepting\<rparr>)" s Awake] by (simp add: enough_requests_def)
next
  case (work w s t)
  have p: "s_pc t = (s_pc s)(w := s_pc t w)" using wstep_pc [OF work.hyps(2)] by auto
  show ?case
  proof (cases "s_pc s w = Awake")
    case True
    then show ?thesis using work awake_upd [OF work.hyps(1) p] by (auto simp: enough_requests_def split: if_splits list.splits)
  next
    case False
    then show ?thesis using wstep_queue [OF work.hyps(2) False] awake_upd [OF work.hyps(1) p] work.prems by (simp add: enough_requests_def)
  qed
qed (auto simp: enough_requests_def awake_def)

text \<open>Unless a wait ends without a signal, a worker that has been woken finds a request.\<close>

lemma woken_finds_request:
  assumes "(srv_step False inp tid n)\<^sup>*\<^sup>* server0 s" "w < n" "s_pc s w = Awake"
  shows "s_queue s \<noteq> []"
proof -
  have "enough_requests n s" using assms(1)
    by (induction rule: rtranclp_induct) (auto intro: srv_step_queue, simp add: enough_requests_def awake_def server0_def)
  moreover have "{v. v < n \<and> s_pc s v = Awake} \<noteq> {}" using assms(2,3) by auto
  then have "0 < awake n s" unfolding awake_def by (simp add: card_gt_0_iff)
  ultimately show ?thesis by (auto simp: enough_requests_def)
qed

text \<open>But a signal that finds no worker waiting is lost: the first request can stay in the queue while every worker waits.\<close>

fun drive :: "(nat \<Rightarrow> cstring option) \<Rightarrow> (nat \<Rightarrow> cstring) \<Rightarrow> nat list \<Rightarrow> server \<Rightarrow> server option" where
  "drive inp tid [] s = Some s"
| "drive inp tid (w # ws) s = (case wstep inp tid w s of None \<Rightarrow> None | Some t \<Rightarrow> drive inp tid ws t)"

lemma drive_reach: "drive inp tid ws s = Some t \<Longrightarrow> set ws \<subseteq> {..<n} \<Longrightarrow> (srv_step sp inp tid n)\<^sup>*\<^sup>* s t"
  by (induction ws arbitrary: s)
     (auto simp del: wstep.simps split: option.splits intro: converse_rtranclp_into_rtranclp srv_step.work)

lemma request_stranded:
  "\<exists>s. (srv_step False inp tid 1)\<^sup>*\<^sup>* server0 s \<and> s_queue s = [fd] \<and> (\<forall>w < 1. s_pc s w = Waiting) \<and> s_main s = Accepting"
proof -
  let ?s1 = "server0\<lparr>s_queue := [fd], s_main := Signalling\<rparr>" let ?s2 = "?s1\<lparr>s_main := Accepting\<rparr>"
  have a: "srv_step False inp tid 1 server0 ?s1" using srv_step.accept [of server0 False inp tid 1 fd] by (simp add: server0_def)
  have b: "srv_step False inp tid 1 ?s1 ?s2" using srv_step.signal_none [of ?s1 1 False inp tid] by (simp add: server0_def)
  have c: "srv_step False inp tid 1 ?s2 (goto 0 Waiting ?s2)"
    using srv_step.work [of 0 1 inp tid ?s2] by (simp add: server0_def)
  have "(srv_step False inp tid 1)\<^sup>*\<^sup>* server0 (goto 0 Waiting ?s2)"
    by (rule converse_rtranclp_into_rtranclp, rule a, rule converse_rtranclp_into_rtranclp, rule b, rule r_into_rtranclp, rule c)
  then show ?thesis by (intro exI conjI) auto
qed

section \<open>Properties\<close>

text \<open>C20: The methods of the dictionary do what they should, whatever way the instructions of the workers interleave. The
  history of a run is one of the specification (\<open>spec_step\<close>): every method that is called tests the emptiness of its
  entries and finds it as it is at that moment; it returns -1 exactly when a test finds what it looks for; otherwise it
  changes the strings it works on in one moment, and in a second one the emptiness, and returns the string that was there. When a
  string is not locked it is what the specification has, and the emptiness always is. The tests are
  made before the lock is taken, so they say nothing of the moment of the change: two insertions under one key can both
  succeed.\<close>

theorem dict_refines:
  assumes "(srv_step sp inp tid n)\<^sup>*\<^sup>* server0 s"
  shows "\<exists>A. spec_run (s_log s) spec0 = Some A \<and> (\<forall>k. l_empty (s_dict s k) = sp_empty A k)
    \<and> (\<forall>k. s_lock s k = None \<longrightarrow> l_str (s_dict s k) = sp_str A k)"
proof (intro exI conjI allI impI)
  show "spec_run (s_log s) spec0 = Some (abs s)" using reach_logged [OF assms] by (simp add: logged_def)
qed (simp_all add: view_def strs_def)

text \<open>Two clients insert under the same key and both are told that the insertion was successful: the emptiness test is
  outside the critical section.\<close>

definition two_inserts :: "nat \<Rightarrow> cstring option" where
  "two_inserts fd = Some (if fd = 7 then bytes ''insert 5 a'' else bytes ''insert 5 b'')"

definition both_in :: server where
  "both_in = server0\<lparr>s_pc := (s_pc server0)(0 := Awake, 1 := Awake), s_queue := [7, 8]\<rparr>"

lemma both_in_reach: "(srv_step False two_inserts tid 2)\<^sup>*\<^sup>* server0 both_in"
proof -
  let ?S = "srv_step False two_inserts tid 2"
  let ?s1 = "goto 1 Waiting (goto 0 Waiting server0)" let ?s2 = "?s1\<lparr>s_queue := [7], s_main := Signalling\<rparr>"
  let ?s3 = "goto 0 Awake (?s2\<lparr>s_main := Accepting\<rparr>)" let ?s4 = "?s3\<lparr>s_queue := [7, 8], s_main := Signalling\<rparr>"
  let ?s5 = "goto 1 Awake (?s4\<lparr>s_main := Accepting\<rparr>)"
  have "drive two_inserts tid [0, 1] server0 = Some ?s1" by (simp add: server0_def goto_def)
  then have "?S\<^sup>*\<^sup>* server0 ?s1" by (rule drive_reach) simp
  also have "?S ?s1 ?s2" using srv_step.accept [of ?s1 False two_inserts tid 2 7] by (simp add: server0_def goto_def)
  also have "?S ?s2 ?s3" using srv_step.signal_one [of ?s2 0 2 False two_inserts tid] by (simp add: server0_def goto_def)
  also have "?S ?s3 ?s4" using srv_step.accept [of ?s3 False two_inserts tid 2 8] by (simp add: server0_def goto_def)
  also have "?S ?s4 ?s5" using srv_step.signal_one [of ?s4 1 2 False two_inserts tid] by (simp add: server0_def goto_def)
  also have "?s5 = both_in" by (simp add: both_in_def server0_def goto_def fun_eq_iff)
  finally show ?thesis .
qed

lemma two_inserts_parsed:
  "request_handler t (two_inserts 7) = insert_request t 5 (bytes ''a'')" "request_handler t (two_inserts 8) = insert_request t 5 (bytes ''b'')"
  by (simp_all add: two_inserts_def request_handler_def bytes_def next_word_def space_def with_number_def at_key_def stoi_def digit_byte_def)

definition two_history :: "event list" where
  "two_history =
     [Called 0 (InsertString 5 (bytes ''a'')), Called 1 (InsertString 5 (bytes ''b'')), Tested 0 5 True, Tested 1 5 True,
      Effect 0, Flagged 0, Returned 0 (Some []), Effect 1, Flagged 1, Returned 1 (Some [])]"

lemma two_inserts_succeed:
  "\<exists>s. (srv_step False two_inserts (\<lambda>_. []) 2)\<^sup>*\<^sup>* server0 s \<and> s_lock s = (\<lambda>_. None)
     \<and> s_log s = two_history
     \<and> s_sent s = [(7, bytes '' : Insertion successful''), (8, bytes '' : Insertion successful'')]"
proof -
  have "\<exists>s. drive two_inserts (\<lambda>_. []) [0, 1, 0, 1, 0, 1, 0, 0, 0, 0, 0, 0, 0, 1, 1, 1, 1, 1, 1, 1] both_in = Some s \<and> s_lock s = (\<lambda>_. None)
     \<and> s_log s = two_history
     \<and> s_sent s = [(7, bytes '' : Insertion successful''), (8, bytes '' : Insertion successful'')]"
    by (simp add: both_in_def server0_def goto_def two_inserts_parsed insert_request_def InsertString_code_def is_Lock_def reply_def bytes_def emit_def two_history_def)
  then show ?thesis using rtranclp_trans [OF both_in_reach drive_reach] by fastforce
qed

theorem dict_refines_witness:
  "\<exists>s A. (srv_step False two_inserts (\<lambda>_. []) 2)\<^sup>*\<^sup>* server0 s \<and> s_log s = two_history \<and> spec_run two_history spec0 = Some A
     \<and> s_dict s 5 = \<lparr>l_str = bytes ''b'', l_empty = False\<rparr> \<and> l_str (s_dict s 5) = sp_str A 5
     \<and> s_sent s = [(7, bytes '' : Insertion successful''), (8, bytes '' : Insertion successful'')]"
proof -
  obtain s where s: "(srv_step False two_inserts (\<lambda>_. []) 2)\<^sup>*\<^sup>* server0 s" "s_lock s = (\<lambda>_. None)" "s_log s = two_history"
    "s_sent s = [(7, bytes '' : Insertion successful''), (8, bytes '' : Insertion successful'')]"
    using two_inserts_succeed by blast
  obtain A where A: "spec_run two_history spec0 = Some A" "l_empty (s_dict s 5) = sp_empty A 5" "l_str (s_dict s 5) = sp_str A 5"
    using dict_refines [OF s(1)] s(2,3) by auto
  have "sp_str A 5 = bytes ''b'' \<and> \<not> sp_empty A 5" using A(1) by (auto simp: two_history_def spec0_def at_def)
  then show ?thesis using s A by (intro exI [of _ s] exI [of _ A]) simp
qed

text \<open>C21: The workers never block each other for good. From any state the server can reach, however the steps of the workers
  that have a request are scheduled, there are only finitely many of them, and when none of these workers can take a
  step, none of them has a request any more (or a malformed request has ended the process). This is what taking the
  locks in the order of the indices is for.\<close>

theorem requests_complete:
  assumes "(srv_step sp inp tid n)\<^sup>*\<^sup>* server0 s"
  shows "\<exists>B. (\<forall>k t. (busy_step inp tid n ^^ k) s t \<longrightarrow> k \<le> B) \<and>
    (\<forall>t. (busy_step inp tid n)\<^sup>*\<^sup>* s t \<and> (\<nexists>u. busy_step inp tid n t u) \<longrightarrow> s_crashed t \<or> (\<forall>w < n. \<not> busy t w))"
proof -
  obtain b where b: "\<forall>w. pc_fits (b w) (s_pc s w)" using reach_well_formed [OF assms] unfolding well_formed_def by metis
  have "s_crashed t \<or> (\<forall>w < n. \<not> busy t w)" if "(busy_step inp tid n)\<^sup>*\<^sup>* s t" "\<nexists>u. busy_step inp tid n t u" for t
  proof (rule ccontr)
    assume "\<not> (s_crashed t \<or> (\<forall>w < n. \<not> busy t w))"
    then obtain w where w: "\<not> s_crashed t" "w < n" "busy t w" by auto
    have r: "(srv_step sp inp tid n)\<^sup>*\<^sup>* server0 t" using assms busy_steps_reach [OF that(1)] by (rule rtranclp_trans)
    have "ordered t" "\<forall>v \<ge> n. s_pc t v = Start"
      using reach_logged [OF r] reach_well_formed [OF r] by (simp_all add: logged_def well_formed_def)
    then have "\<exists>v < n. busy t v \<and> wstep inp tid v t \<noteq> None" using no_deadlock w by blast
    then show False using that(2) unfolding busy_step_def by blast
  qed
  moreover have "k \<le> (\<Sum>w<n. b w)" if "(busy_step inp tid n ^^ k) s t" for k t
    by (rule busy_steps_bounded [OF that]) (use b in blast)
  ultimately show ?thesis by blast
qed

theorem requests_complete_witness:
  "\<exists>s B. busy s 0 \<and> busy s 1 \<and> (\<forall>k t. (busy_step two_inserts (\<lambda>_. []) 2 ^^ k) s t \<longrightarrow> k \<le> B)"
proof -
  have "\<exists>s. drive two_inserts (\<lambda>_. []) [0, 1] both_in = Some s \<and> busy s 0 \<and> busy s 1"
    by (simp add: both_in_def server0_def goto_def busy_def)
  then obtain s where s: "drive two_inserts (\<lambda>_. []) [0, 1] both_in = Some s" "busy s 0" "busy s 1" by blast
  have "(srv_step False two_inserts (\<lambda>_. []) 2)\<^sup>*\<^sup>* both_in s" by (rule drive_reach [OF s(1)]) simp
  then have "(srv_step False two_inserts (\<lambda>_. []) 2)\<^sup>*\<^sup>* server0 s" by (rule rtranclp_trans [OF both_in_reach])
  from requests_complete [OF this] s show ?thesis by blast
qed

end
