(* ===== verification/CourseAlloc.thy ===== *)
theory CourseAlloc
  imports Prelude
begin

text \<open>
  The course allocation of \<open>Assignment 5/Q1\<close>: \<open>main.c\<close>. Every course and every student is a thread. A course looks for a
  teaching assistant (TA) by trying the locks of the TAs, keeps the lock of the one it finds while the tutorial lasts,
  and tells as many waiting students as there are seats. A step of the relation is one access to shared data or one
  operation on a mutex or a condition variable; random choices are left open. \<open>sp\<close> says whether a wait on a condition variable
  may end without a signal, as POSIX allows. Three fields are instrumentation: the TAships so far, and for every course
  the seats it has given out and the students it has admitted.
\<close>

section \<open>Courses, labs, students\<close>

record alloc_setup =
  num_courses :: nat
  num_stu :: nat
  ta_num :: "nat \<Rightarrow> nat"
  max_turns :: "nat \<Rightarrow> nat"
  num_labs :: "nat \<Rightarrow> nat"
  max_slots :: "nat \<Rightarrow> nat"
  pref :: "nat \<Rightarrow> nat \<Rightarrow> nat"

datatype course_pc = Search nat nat | Check nat nat | Found nat nat | Seats nat nat nat | Teaching nat nat | Leaving nat nat
  | Releasing nat nat | Closing | Ended

datatype student_pc = Arrive | Try nat | Enter nat | Waits nat | Woken nat | Back nat | Seat nat | ToTut nat | InTut nat | Decide nat
  | Finished "nat option"

record alloc =
  turns_left :: "nat \<Rightarrow> nat \<Rightarrow> int"
  ta_lock :: "nat \<Rightarrow> nat \<Rightarrow> nat option"
  course_end :: "nat \<Rightarrow> bool"
  students_attending :: "nat \<Rightarrow> int"
  tut_lock :: "nat \<Rightarrow> bool"
  c_pc :: "nat \<Rightarrow> course_pc"
  s_pc :: "nat \<Rightarrow> student_pc"
  a_ships :: "(nat \<times> nat \<times> nat) list"
  a_slots :: "nat \<Rightarrow> nat"
  a_seated :: "nat \<Rightarrow> nat"

definition cgo :: "nat \<Rightarrow> course_pc \<Rightarrow> alloc \<Rightarrow> alloc" where
  "cgo c p s = s\<lparr>c_pc := (c_pc s)(c := p)\<rparr>"

definition sgo :: "nat \<Rightarrow> student_pc \<Rightarrow> alloc \<Rightarrow> alloc" where
  "sgo x p s = s\<lparr>s_pc := (s_pc s)(x := p)\<rparr>"

definition set_ta :: "nat \<Rightarrow> nat \<Rightarrow> nat option \<Rightarrow> alloc \<Rightarrow> alloc" where
  "set_ta i j v s = s\<lparr>ta_lock := (ta_lock s)(i := (ta_lock s i)(j := v))\<rparr>"

text \<open>Broadcasts: everyone who waits for the seats of the course, everyone who sits in its tutorial.\<close>

definition broadcast_tut :: "alloc_setup \<Rightarrow> nat \<Rightarrow> alloc \<Rightarrow> alloc" where
  "broadcast_tut A c s = s\<lparr>s_pc := (\<lambda>x. case s_pc s x of Waits p \<Rightarrow> if pref A x p = c then Woken p else Waits p | q \<Rightarrow> q)\<rparr>"

definition broadcast_in_tut :: "alloc_setup \<Rightarrow> nat \<Rightarrow> alloc \<Rightarrow> alloc" where
  "broadcast_in_tut A c s = s\<lparr>s_pc := (\<lambda>x. case s_pc s x of InTut p \<Rightarrow> if pref A x p = c then Decide p else InTut p | q \<Rightarrow> q)\<rparr>"

text \<open>The loop over the labs goes through \<open>lab_list[i]\<close>, not through the labs of the course.\<close>

inductive course_step :: "alloc_setup \<Rightarrow> nat \<Rightarrow> alloc \<Rightarrow> alloc \<Rightarrow> bool" for A c where
  next_lab: "c_pc s c = Search i j \<Longrightarrow> i < num_labs A c \<Longrightarrow> ta_num A i \<le> j \<Longrightarrow> course_step A c s (cgo c (Search (Suc i) 0) s)"
| try_busy: "c_pc s c = Search i j \<Longrightarrow> i < num_labs A c \<Longrightarrow> j < ta_num A i \<Longrightarrow> ta_lock s i j \<noteq> None \<Longrightarrow>
    course_step A c s (cgo c (Search i (Suc j)) s)"
| try_free: "c_pc s c = Search i j \<Longrightarrow> i < num_labs A c \<Longrightarrow> j < ta_num A i \<Longrightarrow> ta_lock s i j = None \<Longrightarrow>
    course_step A c s (cgo c (Check i j) (set_ta i j (Some c) s))"
| take_ta: "c_pc s c = Check i j \<Longrightarrow> 0 < turns_left s i j \<Longrightarrow>
    course_step A c s (cgo c (Found i j) (s\<lparr>turns_left := (turns_left s)(i := (turns_left s i)(j := turns_left s i j - 1)),
      a_ships := (c, i, j) # a_ships s\<rparr>))"
| no_turns: "c_pc s c = Check i j \<Longrightarrow> turns_left s i j \<le> 0 \<Longrightarrow> course_step A c s (cgo c (Search i (Suc j)) (set_ta i j None s))"
| no_ta: "c_pc s c = Search i j \<Longrightarrow> num_labs A c \<le> i \<Longrightarrow>
    course_step A c s (cgo c Closing (s\<lparr>course_end := (course_end s)(c := True)\<rparr>))"
| close: "c_pc s c = Closing \<Longrightarrow> course_step A c s (cgo c Ended (broadcast_tut A c s))"
| open_seats: "c_pc s c = Found i j \<Longrightarrow> \<not> tut_lock s c \<Longrightarrow> 1 \<le> r \<Longrightarrow> r \<le> max_slots A c \<Longrightarrow>
    course_step A c s (cgo c (Seats i j r) (s\<lparr>tut_lock := (tut_lock s)(c := True), a_slots := (a_slots s)(c := a_slots s c + r)\<rparr>))"
| signal: "c_pc s c = Seats i j (Suc r) \<Longrightarrow> s_pc s x = Waits p \<Longrightarrow> pref A x p = c \<Longrightarrow>
    course_step A c s (cgo c (Seats i j r) (sgo x (Woken p) s))"
| signal_none: "c_pc s c = Seats i j (Suc r) \<Longrightarrow> \<forall>x p. s_pc s x = Waits p \<longrightarrow> pref A x p \<noteq> c \<Longrightarrow>
    course_step A c s (cgo c (Seats i j r) s)"
| seats_done: "c_pc s c = Seats i j 0 \<Longrightarrow> course_step A c s (cgo c (Teaching i j) (s\<lparr>tut_lock := (tut_lock s)(c := False)\<rparr>))"
| end_tut: "c_pc s c = Teaching i j \<Longrightarrow> course_step A c s (cgo c (Leaving i j) (broadcast_in_tut A c s))"
| reset: "c_pc s c = Leaving i j \<Longrightarrow>
    course_step A c s (cgo c (Releasing i j) (s\<lparr>students_attending := (students_attending s)(c := 0)\<rparr>))"
| release_ta: "c_pc s c = Releasing i j \<Longrightarrow> course_step A c s (cgo c (Search 0 0) (set_ta i j None s))"

inductive student_step :: "bool \<Rightarrow> alloc_setup \<Rightarrow> nat \<Rightarrow> alloc \<Rightarrow> alloc \<Rightarrow> bool" for sp A x where
  arrive: "s_pc s x = Arrive \<Longrightarrow> student_step sp A x s (sgo x (Try 0) s)"
| none_left: "s_pc s x = Try 3 \<Longrightarrow> student_step sp A x s (sgo x (Finished None) s)"
| skip: "s_pc s x = Try p \<Longrightarrow> p < 3 \<Longrightarrow> course_end s (pref A x p) \<Longrightarrow> student_step sp A x s (sgo x (Try (Suc p)) s)"
| want: "s_pc s x = Try p \<Longrightarrow> p < 3 \<Longrightarrow> \<not> course_end s (pref A x p) \<Longrightarrow> student_step sp A x s (sgo x (Enter p) s)"
| cond_wait: "s_pc s x = Enter p \<Longrightarrow> \<not> tut_lock s (pref A x p) \<Longrightarrow> student_step sp A x s (sgo x (Waits p) s)"
| leave_wait: "s_pc s x = Woken p \<Longrightarrow> \<not> tut_lock s (pref A x p) \<Longrightarrow> student_step sp A x s (sgo x (Back p) s)"
| course_gone: "s_pc s x = Back p \<Longrightarrow> course_end s (pref A x p) \<Longrightarrow> student_step sp A x s (sgo x (Try (Suc p)) s)"
| course_on: "s_pc s x = Back p \<Longrightarrow> \<not> course_end s (pref A x p) \<Longrightarrow> student_step sp A x s (sgo x (Seat p) s)"
| sit: "s_pc s x = Seat p \<Longrightarrow> c = pref A x p \<Longrightarrow>
    student_step sp A x s (sgo x (ToTut p) (s\<lparr>students_attending := (students_attending s)(c := students_attending s c + 1),
      a_seated := (a_seated s)(c := Suc (a_seated s c))\<rparr>))"
| attend: "s_pc s x = ToTut p \<Longrightarrow> student_step sp A x s (sgo x (InTut p) s)"
| select: "s_pc s x = Decide p \<Longrightarrow> student_step sp A x s (sgo x (Finished (Some p)) s)"
| withdraw: "s_pc s x = Decide p \<Longrightarrow> student_step sp A x s (sgo x (Try (Suc p)) s)"
| spurious_tut: "sp \<Longrightarrow> s_pc s x = Waits p \<Longrightarrow> student_step sp A x s (sgo x (Woken p) s)"
| spurious_in: "sp \<Longrightarrow> s_pc s x = InTut p \<Longrightarrow> student_step sp A x s (sgo x (Decide p) s)"

inductive alloc_step :: "bool \<Rightarrow> alloc_setup \<Rightarrow> alloc \<Rightarrow> alloc \<Rightarrow> bool" for sp A where
  course: "c < num_courses A \<Longrightarrow> course_step A c s t \<Longrightarrow> alloc_step sp A s t"
| student: "x < num_stu A \<Longrightarrow> student_step sp A x s t \<Longrightarrow> alloc_step sp A s t"

definition alloc0 :: "alloc_setup \<Rightarrow> alloc" where
  "alloc0 A = \<lparr>turns_left = (\<lambda>i j. int (max_turns A i)), ta_lock = (\<lambda>_ _. None), course_end = (\<lambda>_. False), students_attending = (\<lambda>_. 0),
     tut_lock = (\<lambda>_. False), c_pc = (\<lambda>_. Search 0 0), s_pc = (\<lambda>_. Arrive), a_ships = [], a_slots = (\<lambda>_. 0), a_seated = (\<lambda>_. 0)\<rparr>"

section \<open>Teaching assistants\<close>

fun teaches :: "course_pc \<Rightarrow> (nat \<times> nat) option" where
  "teaches (Check i j) = Some (i, j)"
| "teaches (Found i j) = Some (i, j)"
| "teaches (Seats i j r) = Some (i, j)"
| "teaches (Teaching i j) = Some (i, j)"
| "teaches (Leaving i j) = Some (i, j)"
| "teaches (Releasing i j) = Some (i, j)"
| "teaches _ = None"

definition ships :: "alloc \<Rightarrow> nat \<Rightarrow> nat \<Rightarrow> nat" where
  "ships s i j = count_list (map snd (a_ships s)) (i, j)"

definition ta_inv :: "alloc_setup \<Rightarrow> alloc \<Rightarrow> bool" where
  "ta_inv A s \<longleftrightarrow> (\<forall>i j c. ta_lock s i j = Some c \<longleftrightarrow> teaches (c_pc s c) = Some (i, j))
     \<and> (\<forall>i j. 0 \<le> turns_left s i j \<and> turns_left s i j + int (ships s i j) = int (max_turns A i))
     \<and> (\<forall>c i j. teaches (c_pc s c) = Some (i, j) \<longrightarrow> i < num_labs A c \<and> j < ta_num A i)
     \<and> (\<forall>(c, i, j) \<in> set (a_ships s). c < num_courses A \<and> i < num_labs A c \<and> j < ta_num A i)"

lemma alloc_fields [simp]:
  "turns_left (cgo c p s) = turns_left s" "ta_lock (cgo c p s) = ta_lock s" "course_end (cgo c p s) = course_end s"
  "tut_lock (cgo c p s) = tut_lock s" "c_pc (cgo c p s) = (c_pc s)(c := p)" "s_pc (cgo c p s) = s_pc s" "a_ships (cgo c p s) = a_ships s"
  "a_slots (cgo c p s) = a_slots s" "a_seated (cgo c p s) = a_seated s" "students_attending (cgo c p s) = students_attending s"
  "turns_left (sgo x q s) = turns_left s" "ta_lock (sgo x q s) = ta_lock s" "course_end (sgo x q s) = course_end s"
  "tut_lock (sgo x q s) = tut_lock s" "c_pc (sgo x q s) = c_pc s" "s_pc (sgo x q s) = (s_pc s)(x := q)" "a_ships (sgo x q s) = a_ships s"
  "a_slots (sgo x q s) = a_slots s" "a_seated (sgo x q s) = a_seated s" "students_attending (sgo x q s) = students_attending s"
  by (simp_all add: cgo_def sgo_def)

lemma set_ta_fields [simp]:
  "turns_left (set_ta i j v s) = turns_left s" "ta_lock (set_ta i j v s) = (ta_lock s)(i := (ta_lock s i)(j := v))" "course_end (set_ta i j v s) = course_end s"
  "tut_lock (set_ta i j v s) = tut_lock s" "c_pc (set_ta i j v s) = c_pc s" "s_pc (set_ta i j v s) = s_pc s" "a_ships (set_ta i j v s) = a_ships s"
  "a_slots (set_ta i j v s) = a_slots s" "a_seated (set_ta i j v s) = a_seated s"
  by (simp_all add: set_ta_def)

lemma broadcast_fields [simp]:
  "turns_left (broadcast_tut A c s) = turns_left s" "ta_lock (broadcast_tut A c s) = ta_lock s" "c_pc (broadcast_tut A c s) = c_pc s"
  "a_ships (broadcast_tut A c s) = a_ships s" "course_end (broadcast_tut A c s) = course_end s" "a_slots (broadcast_tut A c s) = a_slots s"
  "a_seated (broadcast_tut A c s) = a_seated s" "tut_lock (broadcast_tut A c s) = tut_lock s"
  "turns_left (broadcast_in_tut A c s) = turns_left s" "ta_lock (broadcast_in_tut A c s) = ta_lock s" "c_pc (broadcast_in_tut A c s) = c_pc s"
  "a_ships (broadcast_in_tut A c s) = a_ships s" "course_end (broadcast_in_tut A c s) = course_end s" "a_slots (broadcast_in_tut A c s) = a_slots s"
  "a_seated (broadcast_in_tut A c s) = a_seated s" "tut_lock (broadcast_in_tut A c s) = tut_lock s"
  by (simp_all add: broadcast_tut_def broadcast_in_tut_def)

lemma ta_same:
  assumes "ta_inv A s" "ta_lock t = ta_lock s" "turns_left t = turns_left s" "a_ships t = a_ships s" "\<And>c. teaches (c_pc t c) = teaches (c_pc s c)"
  shows "ta_inv A t"
  using assms by (simp add: ta_inv_def ships_def)

lemma teaches_unique: "ta_inv A s \<Longrightarrow> teaches (c_pc s c) = Some (i, j) \<Longrightarrow> teaches (c_pc s d) = Some (i, j) \<Longrightarrow> c = d"
  unfolding ta_inv_def by (metis option.inject)

lemma student_step_ta: "student_step sp A x s t \<Longrightarrow> ta_inv A s \<Longrightarrow> ta_inv A t"
  by (induction rule: student_step.induct) (auto intro: ta_same)

lemma course_step_ta:
  assumes "course_step A c s t" "ta_inv A s" "c < num_courses A"
  shows "ta_inv A t"
  using assms
proof (induction rule: course_step.induct)
  case (try_free s i j)
  then have "teaches (c_pc s d) \<noteq> Some (i, j)" for d by (auto simp: ta_inv_def) (metis option.simps(3))
  then show ?case using try_free by (auto simp: ta_inv_def ships_def)
next
  case (take_ta s i j)
  then have "i < num_labs A c" "j < ta_num A i" unfolding ta_inv_def by (metis teaches.simps(1))+
  then show ?case using take_ta by (auto simp: ta_inv_def ships_def)
next
  case (no_turns s i j)
  then have "teaches (c_pc s d) \<noteq> Some (i, j)" if "d \<noteq> c" for d using teaches_unique [of A s c i j d] that by auto
  then show ?case using no_turns by (auto simp: ta_inv_def ships_def)
next
  case (release_ta s i j)
  then have "teaches (c_pc s d) \<noteq> Some (i, j)" if "d \<noteq> c" for d using teaches_unique [of A s c i j d] that by auto
  then show ?case using release_ta by (auto simp: ta_inv_def ships_def)
qed (auto intro: ta_same)

lemma reach_ta: "(alloc_step sp A)\<^sup>*\<^sup>* (alloc0 A) s \<Longrightarrow> ta_inv A s"
proof (induction rule: rtranclp_induct)
  case base
  show ?case by (simp add: ta_inv_def alloc0_def ships_def)
next
  case (step s t)
  from step.hyps(2) step.IH show ?case by cases (auto intro: course_step_ta student_step_ta)
qed

lemma ships_bound:
  assumes "ta_inv A s" "\<forall>c < num_courses A. num_labs A c \<le> N"
  shows "length (a_ships s) \<le> (\<Sum>i<N. ta_num A i * max_turns A i)"
proof -
  have sub: "snd ` set (a_ships s) \<subseteq> (SIGMA i : {..<N}. {..<ta_num A i})"
    using assms unfolding ta_inv_def by (auto simp: image_def) (metis (no_types, lifting) case_prodD order.strict_trans2)+
  have "length (a_ships s) = length (map snd (a_ships s))" by simp
  also have "\<dots> = (\<Sum>a \<in> (SIGMA i : {..<N}. {..<ta_num A i}). count_list (map snd (a_ships s)) a)"
    by (rule sum_count_set [symmetric]) (use sub in auto)
  also have "\<dots> = (\<Sum>i<N. \<Sum>j<ta_num A i. ships s i j)"
    unfolding ships_def by (subst sum.Sigma) (simp_all add: case_prod_unfold)
  also have "\<dots> \<le> (\<Sum>i<N. ta_num A i * max_turns A i)"
  proof (rule sum_mono)
    fix i assume "i \<in> {..<N}"
    have "ships s i j \<le> max_turns A i" for j
    proof -
      have "0 \<le> turns_left s i j" "turns_left s i j + int (ships s i j) = int (max_turns A i)" using assms(1) by (auto simp: ta_inv_def)
      then show ?thesis by linarith
    qed
    then show "(\<Sum>j<ta_num A i. ships s i j) \<le> ta_num A i * max_turns A i"
      using sum_bounded_above [of "{..<ta_num A i}" "ships s i" "max_turns A i"] by simp
  qed
  finally show ?thesis .
qed

section \<open>Seats\<close>

text \<open>Students who have been told of a seat and have not been counted yet.\<close>

definition promised :: "alloc_setup \<Rightarrow> nat \<Rightarrow> bool \<Rightarrow> nat \<Rightarrow> student_pc \<Rightarrow> nat" where
  "promised A c e x q = (case q of Seat p \<Rightarrow> if pref A x p = c then 1 else 0
     | Woken p \<Rightarrow> if pref A x p = c \<and> \<not> e then 1 else 0 | Back p \<Rightarrow> if pref A x p = c \<and> \<not> e then 1 else 0 | _ \<Rightarrow> 0)"

fun signals_left :: "course_pc \<Rightarrow> nat" where
  "signals_left (Seats i j r) = r"
| "signals_left _ = 0"

definition promises :: "alloc_setup \<Rightarrow> alloc \<Rightarrow> nat \<Rightarrow> nat" where
  "promises A s c = (\<Sum>x<num_stu A. promised A c (course_end s c) x (s_pc s x))"

definition seat_inv :: "alloc_setup \<Rightarrow> alloc \<Rightarrow> bool" where
  "seat_inv A s \<longleftrightarrow> (\<forall>c. a_seated s c + promises A s c + signals_left (c_pc s c) \<le> a_slots s c)
     \<and> (\<forall>c. c_pc s c = Closing \<longrightarrow> course_end s c) \<and> (\<forall>x \<ge> num_stu A. s_pc s x = Arrive)"

lemma promises_upd:
  assumes "x < num_stu A" "s_pc t = (s_pc s)(x := q)" "course_end t = course_end s"
  shows "promises A t c + promised A c (course_end s c) x (s_pc s x) = promises A s c + promised A c (course_end s c) x q"
  using sum_change_one [OF assms(1), of "\<lambda>y. promised A c (course_end s c) y (s_pc t y)" "\<lambda>y. promised A c (course_end s c) y (s_pc s y)"] assms(2,3)
  by (simp add: promises_def)

lemma seatI:
  assumes "seat_inv A s" "\<And>d. a_seated t d + promises A t d + signals_left (c_pc t d) + a_slots s d
      \<le> a_seated s d + promises A s d + signals_left (c_pc s d) + a_slots t d"
    "\<And>c. c_pc t c = Closing \<Longrightarrow> course_end t c" "\<And>x. num_stu A \<le> x \<Longrightarrow> s_pc t x = Arrive"
  shows "seat_inv A t"
proof -
  have "a_seated t d + promises A t d + signals_left (c_pc t d) \<le> a_slots t d" for d
  proof -
    have "a_seated s d + promises A s d + signals_left (c_pc s d) \<le> a_slots s d" using assms(1) by (simp add: seat_inv_def)
    then show ?thesis using assms(2) [of d] by linarith
  qed
  then show ?thesis using assms(3,4) by (simp add: seat_inv_def)
qed

lemma student_step_seats:
  assumes "student_step False A x s t" "seat_inv A s" "x < num_stu A"
  shows "seat_inv A t"
proof -
  have pc: "\<exists>q. s_pc t = (s_pc s)(x := q) \<and> course_end t = course_end s \<and> c_pc t = c_pc s \<and> a_slots t = a_slots s \<and>
      (\<forall>c. a_seated t c + promised A c (course_end s c) x q \<le> a_seated s c + promised A c (course_end s c) x (s_pc s x))"
    using assms(1) by cases (auto simp: promised_def)
  then obtain q where q: "s_pc t = (s_pc s)(x := q)" "course_end t = course_end s" "c_pc t = c_pc s" "a_slots t = a_slots s"
    "\<And>c. a_seated t c + promised A c (course_end s c) x q \<le> a_seated s c + promised A c (course_end s c) x (s_pc s x)" by auto
  show ?thesis
  proof (rule seatI [OF assms(2)])
    show "a_seated t d + promises A t d + signals_left (c_pc t d) + a_slots s d
        \<le> a_seated s d + promises A s d + signals_left (c_pc s d) + a_slots t d" for d
      using promises_upd [OF assms(3) q(1,2), of d] q(3,4) q(5) [of d] by simp
  qed (use assms(2,3) q in \<open>auto simp: seat_inv_def\<close>)
qed

lemma promises_mono:
  assumes "\<And>x. promised A c (course_end t c) x (s_pc t x) \<le> promised A c (course_end s c) x (s_pc s x)"
  shows "promises A t c \<le> promises A s c"
  unfolding promises_def by (rule sum_mono) (rule assms)

lemma course_step_seats:
  assumes "course_step A c s t" "seat_inv A s"
  shows "seat_inv A t"
  using assms
proof (induction rule: course_step.induct)
  case (signal s i j r x p)
  have x: "x < num_stu A" using signal by (auto simp: seat_inv_def) (metis not_less student_pc.distinct(5))
  let ?t = "cgo c (Seats i j r) (sgo x (Woken p) s)"
  have "promises A ?t d + signals_left (c_pc ?t d) \<le> promises A s d + signals_left (c_pc s d)" for d
    using promises_upd [OF x, of ?t s "Woken p" d] signal by (auto simp: promised_def)
  moreover have "c_pc ?t d = Closing \<longrightarrow> course_end ?t d" "num_stu A \<le> y \<longrightarrow> s_pc ?t y = Arrive" for d y
    using signal x by (auto simp: seat_inv_def)
  ultimately show ?case by (intro seatI [OF signal.prems]) auto
next
  case (no_ta s i j)
  let ?t = "cgo c Closing (s\<lparr>course_end := (course_end s)(c := True)\<rparr>)"
  have "promises A ?t d \<le> promises A s d" for d
    by (rule promises_mono) (auto simp: promised_def split: student_pc.split)
  then show ?case using no_ta by (intro seatI [OF no_ta.prems]) (auto simp: seat_inv_def)
next
  case (close s)
  let ?t = "cgo c Ended (broadcast_tut A c s)"
  have "promises A ?t d \<le> promises A s d" for d
    using close by (intro promises_mono) (auto simp: promised_def broadcast_tut_def seat_inv_def split: student_pc.split)
  then show ?case using close by (intro seatI [OF close.prems]) (auto simp: seat_inv_def broadcast_tut_def split: if_splits)
next
  case (end_tut s i j)
  let ?t = "cgo c (Leaving i j) (broadcast_in_tut A c s)"
  have "promises A ?t d \<le> promises A s d" for d
    by (intro promises_mono) (auto simp: promised_def broadcast_in_tut_def split: student_pc.split)
  then show ?case using end_tut by (intro seatI [OF end_tut.prems]) (auto simp: seat_inv_def broadcast_in_tut_def split: if_splits)
qed ((rule seatI, assumption); auto simp: promises_def seat_inv_def split: if_splits)+

lemma reach_seats: "(alloc_step False A)\<^sup>*\<^sup>* (alloc0 A) s \<Longrightarrow> seat_inv A s"
proof (induction rule: rtranclp_induct)
  case base
  show ?case by (simp add: seat_inv_def alloc0_def promises_def promised_def)
next
  case (step s t)
  from step.hyps(2) step.IH show ?case by cases (auto intro: course_step_seats student_step_seats)
qed

text \<open>A student looks at \<open>course_end\<close>, then the course ends and tells everyone who waits, then the student starts to wait: nothing can
  happen any more, and the student's thread never returns.\<close>

definition lonely :: alloc_setup where
  "lonely = \<lparr>num_courses = 1, num_stu = 1, ta_num = (\<lambda>_. 0), max_turns = (\<lambda>_. 0), num_labs = (\<lambda>_. 0), max_slots = (\<lambda>_. 1), pref = (\<lambda>_ _. 0)\<rparr>"

lemma student_waits_forever:
  "\<exists>s. (alloc_step False lonely)\<^sup>*\<^sup>* (alloc0 lonely) s \<and> s_pc s 0 = Waits 0 \<and> (\<nexists>t. alloc_step False lonely s t)"
proof -
  let ?S = "alloc_step False lonely"
  let ?s0 = "alloc0 lonely" let ?s1 = "sgo 0 (Try 0) ?s0" let ?s2 = "sgo 0 (Enter 0) ?s1"
  let ?s3 = "cgo 0 Closing (?s2\<lparr>course_end := (course_end ?s2)(0 := True)\<rparr>)" let ?s4 = "cgo 0 Ended (broadcast_tut lonely 0 ?s3)"
  let ?s5 = "sgo 0 (Waits 0) ?s4"
  have l: "num_courses lonely = 1" "num_stu lonely = 1" "num_labs lonely = (\<lambda>_. 0)" "pref lonely = (\<lambda>_ _. 0)" by (simp_all add: lonely_def)
  have a: "?S ?s0 ?s1" by (rule alloc_step.student [of 0], simp add: l, rule student_step.arrive) (simp add: alloc0_def)
  have b: "?S ?s1 ?s2" by (rule alloc_step.student [of 0], simp add: l, rule student_step.want) (simp_all add: alloc0_def)
  have c: "?S ?s2 ?s3" by (rule alloc_step.course [of 0], simp add: l, rule course_step.no_ta) (simp_all add: alloc0_def l)
  have d: "?S ?s3 ?s4" by (rule alloc_step.course [of 0], simp add: l, rule course_step.close) simp
  have e: "?S ?s4 ?s5" by (rule alloc_step.student [of 0], simp add: l, rule student_step.cond_wait)
      (simp_all add: broadcast_tut_def alloc0_def)
  have "?S\<^sup>*\<^sup>* ?s0 ?s5"
    by (rule converse_rtranclp_into_rtranclp, rule a, rule converse_rtranclp_into_rtranclp, rule b, rule converse_rtranclp_into_rtranclp, rule c, rule converse_rtranclp_into_rtranclp, rule d, rule r_into_rtranclp, rule e)
  moreover have "s_pc ?s5 0 = Waits 0" "c_pc ?s5 0 = Ended" by simp_all
  moreover have "\<not> ?S ?s5 t" for t
  proof
    assume "?S ?s5 t"
    then show False by cases (use l in \<open>auto elim!: course_step.cases student_step.cases\<close>)
  qed
  ultimately show ?thesis by blast
qed

text \<open>A course is taken off the offerings when its TAs are busy, although they have turns left.\<close>

definition contended :: alloc_setup where
  "contended = \<lparr>num_courses = 2, num_stu = 0, ta_num = (\<lambda>_. 1), max_turns = (\<lambda>_. 5), num_labs = (\<lambda>_. 1), max_slots = (\<lambda>_. 1), pref = (\<lambda>_ _. 0)\<rparr>"

lemma course_removed_too_early:
  "\<exists>s. (alloc_step False contended)\<^sup>*\<^sup>* (alloc0 contended) s \<and> course_end s 1 \<and> turns_left s 0 0 = 4 \<and> c_pc s 0 = Found 0 0"
proof -
  let ?S = "alloc_step False contended"
  let ?s0 = "alloc0 contended" let ?s1 = "cgo 0 (Check 0 0) (set_ta 0 0 (Some 0) ?s0)"
  let ?s2 = "cgo 0 (Found 0 0) (?s1\<lparr>turns_left := (turns_left ?s1)(0 := (turns_left ?s1 0)(0 := turns_left ?s1 0 0 - 1)), a_ships := (0, 0, 0) # a_ships ?s1\<rparr>)"
  let ?s3 = "cgo 1 (Search 0 (Suc 0)) ?s2" let ?s4 = "cgo 1 (Search (Suc 0) 0) ?s3"
  let ?s5 = "cgo 1 Closing (?s4\<lparr>course_end := (course_end ?s4)(1 := True)\<rparr>)"
  have l: "num_courses contended = 2" "num_labs contended = (\<lambda>_. 1)" "ta_num contended = (\<lambda>_. 1)" "max_turns contended = (\<lambda>_. 5)" by (simp_all add: contended_def)
  have a: "?S ?s0 ?s1" by (rule alloc_step.course [of 0], simp add: l, rule course_step.try_free) (simp_all add: alloc0_def l)
  have b: "?S ?s1 ?s2" by (rule alloc_step.course [of 0], simp add: l, rule course_step.take_ta) (simp_all add: alloc0_def l)
  have c: "?S ?s2 ?s3" by (rule alloc_step.course [of 1], simp add: l, rule course_step.try_busy) (simp_all add: alloc0_def l)
  have d: "?S ?s3 ?s4" by (rule alloc_step.course [of 1], simp add: l, rule course_step.next_lab) (auto simp: alloc0_def l)
  have e: "?S ?s4 ?s5" by (rule alloc_step.course [of 1], simp add: l, rule course_step.no_ta [of _ _ "Suc 0" 0]) (simp_all add: alloc0_def l)
  have "?S\<^sup>*\<^sup>* ?s0 ?s5"
    by (rule converse_rtranclp_into_rtranclp, rule a, rule converse_rtranclp_into_rtranclp, rule b, rule converse_rtranclp_into_rtranclp, rule c, rule converse_rtranclp_into_rtranclp, rule d, rule r_into_rtranclp, rule e)
  then show ?thesis by (intro exI [of _ ?s5]) (simp add: alloc0_def l)
qed

section \<open>Properties\<close>

text \<open>C22: Whatever way the threads of courses and students interleave: a TA holds tutorials for one course at a time, and every
  TA of a lab has at most as many TAships as the lab allows, the turns that are left being the rest. The tutorials of all
  courses together therefore are at most as many as the turns of all TAs. And as long as no wait ends without a signal, no
  course admits more students than it has given out seats.\<close>

theorem allocation_limits:
  assumes "(alloc_step sp A)\<^sup>*\<^sup>* (alloc0 A) s"
  shows "(\<forall>c d a. teaches (c_pc s c) = Some a \<and> teaches (c_pc s d) = Some a \<longrightarrow> c = d)
    \<and> (\<forall>i j. ships s i j \<le> max_turns A i \<and> turns_left s i j = int (max_turns A i - ships s i j))
    \<and> (\<forall>N. (\<forall>c < num_courses A. num_labs A c \<le> N) \<longrightarrow> length (a_ships s) \<le> (\<Sum>i<N. ta_num A i * max_turns A i))
    \<and> (\<not> sp \<longrightarrow> (\<forall>c. a_seated s c \<le> a_slots s c))"
proof -
  have inv: "ta_inv A s" by (rule reach_ta [OF assms])
  have t: "ships s i j \<le> max_turns A i \<and> turns_left s i j = int (max_turns A i - ships s i j)" for i j
  proof -
    have "0 \<le> turns_left s i j" "turns_left s i j + int (ships s i j) = int (max_turns A i)" using inv by (auto simp: ta_inv_def)
    then show ?thesis by linarith
  qed
  have "length (a_ships s) \<le> (\<Sum>i<N. ta_num A i * max_turns A i)" if N: "\<forall>c < num_courses A. num_labs A c \<le> N" for N
    using ships_bound [OF inv N] .
  moreover have "a_seated s c \<le> a_slots s c" if "\<not> sp" for c
  proof -
    have "a_seated s c + promises A s c + signals_left (c_pc s c) \<le> a_slots s c"
      using reach_seats [of A s] assms that by (simp add: seat_inv_def)
    then show ?thesis by simp
  qed
  ultimately show ?thesis using t teaches_unique [OF inv] by auto
qed

theorem allocation_limits_witness:
  "\<exists>s. (alloc_step False contended)\<^sup>*\<^sup>* (alloc0 contended) s \<and> course_end s 1 \<and> ships s 0 0 = 1 \<and> length (a_ships s) \<le> 5"
proof -
  obtain s where s: "(alloc_step False contended)\<^sup>*\<^sup>* (alloc0 contended) s" "course_end s 1" "turns_left s 0 0 = 4"
    using course_removed_too_early by blast
  note l = allocation_limits [OF s(1)]
  have "max_turns contended 0 = 5" by (simp add: contended_def)
  moreover have "ships s 0 0 \<le> max_turns contended 0" "turns_left s 0 0 = int (max_turns contended 0 - ships s 0 0)" using l by blast+
  ultimately have "ships s 0 0 = 1" using s(3) by simp
  moreover have "\<forall>c < num_courses contended. num_labs contended c \<le> 1" by (simp add: contended_def)
  then have "length (a_ships s) \<le> (\<Sum>i<1. ta_num contended i * max_turns contended i)" using l by blast
  then have "length (a_ships s) \<le> 5" by (simp add: contended_def)
  ultimately show ?thesis using s by blast
qed

end
