(* ===== verification/Stadium.thy ===== *)
theory Stadium
  imports Prelude
begin

text \<open>
  The stadium of \<open>Assignment 5/Q2\<close>: \<open>main.c\<close>. Spectators, zones and chances to score are threads. The free seats of a zone are a
  semaphore. A zone's thread takes a seat and puts it back when there is one, and then signals the fans who may sit there; a
  spectator who has been signalled tries the zones that are open to him. A step is one operation on a semaphore or a
  condition variable or one access to shared data. The clock is left out: a timed wait may time out at any moment, and it may
  return at any moment without a signal or a broadcast: POSIX allows that, and the wait for a seat may
  fail with \<open>EINVAL\<close>, as its \<open>tv_nsec\<close> is not initialised; the code treats every result but \<open>ETIMEDOUT\<close> alike.
\<close>

section \<open>Zones and fans\<close>

text \<open>0 is home, 1 neutral, 2 away.\<close>

definition team_char_to_int :: "char \<Rightarrow> int" where
  "team_char_to_int c = (if c = CHR ''H'' then 0 else if c = CHR ''A'' then 2 else if c = CHR ''N'' then 1 else -1)"

definition team_int_to_char :: "int \<Rightarrow> char option" where
  "team_int_to_char i = (if i = 0 then Some (CHR ''H'') else if i = 2 then Some (CHR ''A'') else if i = 1 then Some (CHR ''N'') else None)"

record stadium_setup =
  seating_capacity :: "int \<Rightarrow> nat"
  num_people :: nat
  fan_type :: "nat \<Rightarrow> char"
  goal_limit :: "nat \<Rightarrow> int"
  num_goals :: nat
  team_id :: "nat \<Rightarrow> char"

datatype person_pc = Coming | AtGate | Queued | Trying "int list" | Seated int | Watching int | Looking int | Going int | Gone

datatype zone_pc = Loop | Holding | Telling "int list" | Stopped

datatype goal_pc = Chance | Scored | Cheering | Over

record stadium =
  capacity :: "int \<Rightarrow> int"
  goals_count :: "int \<Rightarrow> int"
  s_done :: bool
  p_pc :: "nat \<Rightarrow> person_pc"
  z_pc :: "int \<Rightarrow> zone_pc"
  g_pc :: "nat \<Rightarrow> goal_pc"

definition fan :: "stadium_setup \<Rightarrow> nat \<Rightarrow> int" where
  "fan A x = team_char_to_int (fan_type A x)"

definition zones_for :: "int \<Rightarrow> int list" where
  "zones_for i = (if i = 0 then [0, 1] else if i = 1 then [0, 1, 2] else [2])"

definition told_by :: "int \<Rightarrow> int list" where
  "told_by z = (if z = 0 \<or> z = 1 then [0, 1] else if z = 2 then [1, 2] else [])"

definition pgo :: "nat \<Rightarrow> person_pc \<Rightarrow> stadium \<Rightarrow> stadium" where
  "pgo x p s = s\<lparr>p_pc := (p_pc s)(x := p)\<rparr>"

definition zgo :: "int \<Rightarrow> zone_pc \<Rightarrow> stadium \<Rightarrow> stadium" where
  "zgo z p s = s\<lparr>z_pc := (z_pc s)(z := p)\<rparr>"

definition ggo :: "nat \<Rightarrow> goal_pc \<Rightarrow> stadium \<Rightarrow> stadium" where
  "ggo g p s = s\<lparr>g_pc := (g_pc s)(g := p)\<rparr>"

definition sem_add :: "int \<Rightarrow> int \<Rightarrow> stadium \<Rightarrow> stadium" where
  "sem_add z d s = s\<lparr>capacity := (capacity s)(z := capacity s z + d)\<rparr>"

inductive spectator_step :: "stadium_setup \<Rightarrow> nat \<Rightarrow> stadium \<Rightarrow> stadium \<Rightarrow> bool" for A x where
  reach: "p_pc s x = Coming \<Longrightarrow> spectator_step A x s (pgo x AtGate s)"
| cond_wait: "p_pc s x = AtGate \<Longrightarrow> spectator_step A x s (pgo x Queued s)"
| no_seat: "p_pc s x = Queued \<Longrightarrow> spectator_step A x s (pgo x Gone s)"
| woken: "p_pc s x = Queued \<Longrightarrow> spectator_step A x s (pgo x (Trying (zones_for (fan A x))) s)"
| trywait: "p_pc s x = Trying (z # zs) \<Longrightarrow> 0 < capacity s z \<Longrightarrow> spectator_step A x s (pgo x (Seated z) (sem_add z (-1) s))"
| zone_full: "p_pc s x = Trying (z # zs) \<Longrightarrow> capacity s z \<le> 0 \<Longrightarrow> spectator_step A x s (pgo x (Trying zs) s)"
| justincase: "p_pc s x = Trying [] \<Longrightarrow> spectator_step A x s (pgo x AtGate s)"
| watch: "p_pc s x = Seated z \<Longrightarrow> spectator_step A x s (pgo x (Watching z) s)"
| stirred: "p_pc s x = Watching z \<Longrightarrow> spectator_step A x s (pgo x (Looking z) s)"
| watched: "p_pc s x = Watching z \<Longrightarrow> spectator_step A x s (pgo x (Going z) s)"
| bad_defence: "p_pc s x = Looking z \<Longrightarrow> goal_limit A x \<le> goals_count s (fan A x) \<Longrightarrow> spectator_step A x s (pgo x (Going z) s)"
| restarting: "p_pc s x = Looking z \<Longrightarrow> goals_count s (fan A x) < goal_limit A x \<Longrightarrow> spectator_step A x s (pgo x (Seated z) s)"
| leave: "p_pc s x = Going z \<Longrightarrow> spectator_step A x s (pgo x Gone (sem_add z 1 s))"

inductive zone_step :: "stadium_setup \<Rightarrow> int \<Rightarrow> stadium \<Rightarrow> stadium \<Rightarrow> bool" for A z where
  stop: "z_pc s z = Loop \<Longrightarrow> s_done s \<Longrightarrow> zone_step A z s (zgo z Stopped s)"
| sem_wait: "z_pc s z = Loop \<Longrightarrow> \<not> s_done s \<Longrightarrow> 0 < capacity s z \<Longrightarrow> zone_step A z s (zgo z Holding (sem_add z (-1) s))"
| sem_post: "z_pc s z = Holding \<Longrightarrow> zone_step A z s (zgo z (Telling (told_by z)) (sem_add z 1 s))"
| signal: "z_pc s z = Telling (i # is) \<Longrightarrow> p_pc s x = Queued \<Longrightarrow> fan A x = i \<Longrightarrow>
    zone_step A z s (zgo z (Telling is) (pgo x (Trying (zones_for i)) s))"
| signal_none: "z_pc s z = Telling (i # is) \<Longrightarrow> \<forall>x. p_pc s x = Queued \<longrightarrow> fan A x \<noteq> i \<Longrightarrow> zone_step A z s (zgo z (Telling is) s)"
| again: "z_pc s z = Telling [] \<Longrightarrow> zone_step A z s (zgo z Loop s)"

definition broadcast_goal :: "stadium \<Rightarrow> stadium" where
  "broadcast_goal s = s\<lparr>p_pc := (\<lambda>x. case p_pc s x of Watching z \<Rightarrow> Looking z | q \<Rightarrow> q)\<rparr>"

inductive goal_step :: "stadium_setup \<Rightarrow> nat \<Rightarrow> stadium \<Rightarrow> stadium \<Rightarrow> bool" for A g where
  score: "g_pc s g = Chance \<Longrightarrow> goal_step A g s (ggo g Scored s)"
| miss: "g_pc s g = Chance \<Longrightarrow> goal_step A g s (ggo g Over s)"
| count: "g_pc s g = Scored \<Longrightarrow> i = team_char_to_int (team_id A g) \<Longrightarrow>
    goal_step A g s (ggo g Cheering (s\<lparr>goals_count := (goals_count s)(i := goals_count s i + 1)\<rparr>))"
| cheer: "g_pc s g = Cheering \<Longrightarrow> goal_step A g s (ggo g Over (broadcast_goal s))"

text \<open>\<open>main\<close> sets \<open>done\<close> as soon as the first spectator's thread has been joined, and broadcasts for every goal thread that
  has ended; as \<open>total_people\<close> is computed from an uninitialised variable, it may come to that at any moment.\<close>

inductive stadium_step :: "stadium_setup \<Rightarrow> stadium \<Rightarrow> stadium \<Rightarrow> bool" for A where
  spectator: "x < num_people A \<Longrightarrow> spectator_step A x s t \<Longrightarrow> stadium_step A s t"
| zone: "z \<in> {0, 1, 2} \<Longrightarrow> zone_step A z s t \<Longrightarrow> stadium_step A s t"
| goal: "g < num_goals A \<Longrightarrow> goal_step A g s t \<Longrightarrow> stadium_step A s t"
| joined: "0 < num_people A \<Longrightarrow> p_pc s 0 = Gone \<Longrightarrow> stadium_step A s (s\<lparr>s_done := True\<rparr>)"
| goals_joined: "stadium_step A s (broadcast_goal s)"

definition stadium0 :: "stadium_setup \<Rightarrow> stadium" where
  "stadium0 A = \<lparr>capacity = (\<lambda>z. int (seating_capacity A z)), goals_count = (\<lambda>_. 0)(1 := -2), s_done = False, p_pc = (\<lambda>_. Coming),
     z_pc = (\<lambda>_. Loop), g_pc = (\<lambda>_. Chance)\<rparr>"

section \<open>Seats\<close>

fun sits :: "person_pc \<Rightarrow> int option" where
  "sits (Seated z) = Some z"
| "sits (Watching z) = Some z"
| "sits (Looking z) = Some z"
| "sits (Going z) = Some z"
| "sits _ = None"

definition seated :: "stadium_setup \<Rightarrow> stadium \<Rightarrow> int \<Rightarrow> int" where
  "seated A s z = (\<Sum>x<num_people A. if sits (p_pc s x) = Some z then 1 else 0)"

definition held_back :: "stadium \<Rightarrow> int \<Rightarrow> int" where
  "held_back s z = (if z_pc s z = Holding then 1 else 0)"

definition seats_ok :: "stadium_setup \<Rightarrow> stadium \<Rightarrow> bool" where
  "seats_ok A s \<longleftrightarrow> (\<forall>z. 0 \<le> capacity s z \<and> capacity s z + seated A s z + held_back s z = int (seating_capacity A z))
     \<and> (\<forall>x z. sits (p_pc s x) = Some z \<longrightarrow> z \<in> set (zones_for (fan A x)))
     \<and> (\<forall>x zs. p_pc s x = Trying zs \<longrightarrow> set zs \<subseteq> set (zones_for (fan A x)))
     \<and> (\<forall>x \<ge> num_people A. p_pc s x = Coming)"

lemma stadium_fields [simp]:
  "capacity (pgo x p s) = capacity s" "goals_count (pgo x p s) = goals_count s" "p_pc (pgo x p s) = (p_pc s)(x := p)" "z_pc (pgo x p s) = z_pc s"
  "capacity (zgo z q s) = capacity s" "goals_count (zgo z q s) = goals_count s" "p_pc (zgo z q s) = p_pc s" "z_pc (zgo z q s) = (z_pc s)(z := q)"
  "capacity (ggo g r s) = capacity s" "goals_count (ggo g r s) = goals_count s" "p_pc (ggo g r s) = p_pc s" "z_pc (ggo g r s) = z_pc s"
  "capacity (sem_add i d s) = (capacity s)(i := capacity s i + d)" "goals_count (sem_add i d s) = goals_count s" "p_pc (sem_add i d s) = p_pc s"
  "z_pc (sem_add i d s) = z_pc s" "capacity (broadcast_goal s) = capacity s" "z_pc (broadcast_goal s) = z_pc s" "s_done (pgo x p s) = s_done s"
  by (simp_all add: pgo_def zgo_def ggo_def sem_add_def broadcast_goal_def)

lemma seated_upd:
  assumes "x < num_people A" "p_pc t = (p_pc s)(x := p)"
  shows "seated A t z + (if sits (p_pc s x) = Some z then 1 else 0) = seated A s z + (if sits p = Some z then 1 else 0)"
  using sum_change_one [OF assms(1), of "\<lambda>y. if sits (p_pc t y) = Some z then 1 else (0 :: int)" "\<lambda>y. if sits (p_pc s y) = Some z then 1 else 0"] assms(2)
  by (simp add: seated_def)

lemma seated_same: "(\<And>x. sits (p_pc t x) = sits (p_pc s x)) \<Longrightarrow> seated A t z = seated A s z"
  by (simp add: seated_def)

text \<open>A step of one person or of one zone keeps the seats if what it does to the semaphore is made up for.\<close>

lemma person_moves:
  assumes s: "seats_ok A s" and x: "x < num_people A" and p: "p_pc t = (p_pc s)(x := p)"
    and z: "\<And>z. 0 \<le> capacity t z" "\<And>z. capacity t z + (if sits p = Some z then 1 else 0) + held_back t z =
        capacity s z + (if sits (p_pc s x) = Some z then 1 else 0) + held_back s z"
    and ok: "\<And>z. sits p = Some z \<Longrightarrow> z \<in> set (zones_for (fan A x))" "\<And>zs. p = Trying zs \<Longrightarrow> set zs \<subseteq> set (zones_for (fan A x))"
  shows "seats_ok A t"
proof -
  have "capacity t y + seated A t y + held_back t y = int (seating_capacity A y)" for y
  proof -
    have "capacity s y + seated A s y + held_back s y = int (seating_capacity A y)" using s by (simp add: seats_ok_def)
    then show ?thesis using seated_upd [OF x p, of y] z(2) [of y] by linarith
  qed
  then show ?thesis using assms by (auto simp: seats_ok_def)
qed

lemma zone_moves:
  assumes "seats_ok A s" "p_pc t = p_pc s" "\<And>z. 0 \<le> capacity t z" "\<And>z. capacity t z + held_back t z = capacity s z + held_back s z"
  shows "seats_ok A t"
proof -
  have "capacity t y + seated A t y + held_back t y = int (seating_capacity A y)" for y
  proof -
    have "capacity s y + seated A s y + held_back s y = int (seating_capacity A y)" using assms(1) by (simp add: seats_ok_def)
    then show ?thesis using seated_same [of t s A y] assms(2) assms(4) [of y] by simp
  qed
  then show ?thesis using assms by (auto simp: seats_ok_def)
qed

lemma spectator_step_seats:
  assumes "spectator_step A x s t" "seats_ok A s" "x < num_people A"
  shows "seats_ok A t"
  using assms
proof (induction rule: spectator_step.induct)
  case (trywait s z zs)
  then have "set (z # zs) \<subseteq> set (zones_for (fan A x))" unfolding seats_ok_def by blast
  then show ?case using trywait by (intro person_moves [OF trywait.prems, of _ "Seated z"]) (auto simp: seats_ok_def held_back_def)
next
  case (zone_full s z zs)
  then have "set (z # zs) \<subseteq> set (zones_for (fan A x))" unfolding seats_ok_def by blast
  then show ?case using zone_full by (intro person_moves [OF zone_full.prems, of _ "Trying zs"]) (auto simp: seats_ok_def held_back_def)
next
  case (leave s z)
  then show ?case by (intro person_moves [OF leave.prems, of _ Gone]) (auto simp: seats_ok_def held_back_def intro: order_trans)
qed ((rule person_moves, assumption+, simp); auto simp: seats_ok_def held_back_def)+

lemma zone_step_seats:
  assumes "zone_step A z s t" "seats_ok A s"
  shows "seats_ok A t"
  using assms
proof (induction rule: zone_step.induct)
  case (signal s i "is" x)
  have x: "x < num_people A" using signal by (auto simp: seats_ok_def) (metis not_less person_pc.distinct(3))
  then show ?case using signal
    by (intro person_moves [OF signal.prems x, of _ "Trying (zones_for i)"]) (auto simp: seats_ok_def held_back_def)
next
  case (sem_post s)
  then show ?case by (intro zone_moves [OF sem_post.prems]) (auto simp: seats_ok_def held_back_def intro: order_trans)
qed ((rule zone_moves, assumption, simp); auto simp: seats_ok_def held_back_def)+

lemma broadcast_goal_seats:
  assumes "seats_ok A s"
  shows "seats_ok A (broadcast_goal s)"
proof -
  have p: "sits (p_pc (broadcast_goal s) x) = sits (p_pc s x)" for x by (simp add: broadcast_goal_def split: person_pc.split)
  have "p_pc (broadcast_goal s) x = Trying zs \<longleftrightarrow> p_pc s x = Trying zs" for x zs
    by (auto simp: broadcast_goal_def split: person_pc.splits)
  moreover have "p_pc s x = Coming \<Longrightarrow> p_pc (broadcast_goal s) x = Coming" for x by (simp add: broadcast_goal_def)
  ultimately show ?thesis using assms seated_same [of "broadcast_goal s" s, OF p] p by (simp add: seats_ok_def held_back_def)
qed

lemma same_seats:
  assumes "seats_ok A s" "capacity t = capacity s" "p_pc t = p_pc s" "z_pc t = z_pc s"
  shows "seats_ok A t"
  using assms by (simp add: seats_ok_def seated_def held_back_def)

lemma goal_step_seats: "goal_step A g s t \<Longrightarrow> seats_ok A s \<Longrightarrow> seats_ok A t"
  by (induction rule: goal_step.induct) (auto intro: same_seats same_seats [OF broadcast_goal_seats])

lemma reach_seats_ok: "(stadium_step A)\<^sup>*\<^sup>* (stadium0 A) s \<Longrightarrow> seats_ok A s"
proof (induction rule: rtranclp_induct)
  case base
  show ?case by (simp add: seats_ok_def stadium0_def seated_def held_back_def)
next
  case (step s t)
  from step.hyps(2) show ?case
    by cases (use step.IH in \<open>auto intro: spectator_step_seats zone_step_seats goal_step_seats broadcast_goal_seats same_seats\<close>)
qed

lemma team_roundtrip: "c \<in> set ''HAN'' \<Longrightarrow> team_int_to_char (team_char_to_int c) = Some c"
  by (auto simp: team_char_to_int_def team_int_to_char_def)

text \<open>Once the zones have stopped, which they do when the first spectator's thread has been joined, nobody tells a
  spectator of a free seat any more: whoever waits for one only leaves his wait by himself, when his patience is over
  or when the wait returns for no reason.\<close>

lemma no_seat_after_stop:
  assumes "stadium_step A s t" "\<forall>z \<in> {0, 1, 2}. z_pc s z = Stopped" "p_pc s x = Queued"
  shows "(\<forall>z \<in> {0, 1, 2}. z_pc t z = Stopped) \<and> (p_pc t x = Queued \<or> spectator_step A x s t)"
  using assms(1)
proof cases
  case (spectator y)
  then show ?thesis
  proof (cases "y = x")
    case False
    from spectator(2) show ?thesis by cases (use False assms in auto)
  next
    case True
    from spectator(2) have "\<forall>z \<in> {0, 1, 2}. z_pc t z = Stopped" by cases (use assms in auto)
    with spectator(2) True show ?thesis by simp
  qed
next
  case (zone z)
  from zone(2) show ?thesis by cases (use assms zone(1) in auto)
next
  case (goal g)
  from goal(2) show ?thesis by cases (use assms in \<open>auto simp: broadcast_goal_def\<close>)
qed (use assms in \<open>auto simp: broadcast_goal_def\<close>)

section \<open>Properties\<close>

text \<open>C23: No zone is overbooked and no seat is lost, when every spectator is a home, away or neutral fan. In every state
  the threads can reach, also when waits return for no reason, the value of a zone's semaphore, the
  spectators who sit in the zone and the seat its thread may hold for a moment add up to the capacity of the zone; so at
  most that many spectators sit there, and when all have left and the zone's thread holds none, all seats are free
  again. And every spectator sits in a zone that is open to his kind of fan: home fans (H) in home and neutral, neutral
  fans (N) anywhere, away fans (A) in away.\<close>

theorem stadium_seats:
  assumes "(stadium_step A)\<^sup>*\<^sup>* (stadium0 A) s" "\<forall>x < num_people A. fan_type A x \<in> set ''HAN''"
  shows "(\<forall>z. 0 \<le> capacity s z \<and> capacity s z + seated A s z + held_back s z = int (seating_capacity A z)
       \<and> seated A s z \<le> int (seating_capacity A z))
    \<and> (\<forall>x < num_people A. \<forall>z. sits (p_pc s x) = Some z \<longrightarrow>
        (\<exists>c. team_int_to_char z = Some c \<and> (fan_type A x, c) \<in> set (zip ''HHNNNA'' ''HNHNAA'')))"
proof -
  have inv: "seats_ok A s" by (rule reach_seats_ok [OF assms(1)])
  have "0 \<le> capacity s z" "capacity s z + seated A s z + held_back s z = int (seating_capacity A z)" for z
    using inv by (simp_all add: seats_ok_def)
  moreover have "seated A s z \<le> int (seating_capacity A z)" for z
  proof -
    have "0 \<le> held_back s z" by (simp add: held_back_def)
    then show ?thesis using calculation [of z] by linarith
  qed
  moreover have "\<exists>c. team_int_to_char z = Some c \<and> (fan_type A x, c) \<in> set (zip ''HHNNNA'' ''HNHNAA'')"
    if "x < num_people A" "sits (p_pc s x) = Some z" for x z
  proof -
    have "z \<in> set (zones_for (fan A x))" using inv that(2) by (simp add: seats_ok_def)
    moreover have "fan_type A x \<in> set ''HAN''" using assms(2) that(1) by blast
    ultimately show ?thesis
      by (auto simp: fan_def team_char_to_int_def zones_for_def team_int_to_char_def split: if_splits)
  qed
  ultimately show ?thesis by blast
qed

text \<open>One seat in the home zone, two home fans: after the first has sat down the second finds the zone full.\<close>

definition derby :: stadium_setup where
  "derby = \<lparr>seating_capacity = (\<lambda>z. if z = 0 then 1 else 0), num_people = 2, fan_type = (\<lambda>_. CHR ''H''), goal_limit = (\<lambda>_. 1),
     num_goals = 0, team_id = (\<lambda>_. CHR ''A'')\<rparr>"

lemma derby_run: "\<exists>s. (stadium_step derby)\<^sup>*\<^sup>* (stadium0 derby) s \<and> p_pc s 0 = Seated 0 \<and> z_pc s 0 = Telling [1]"
proof -
  let ?S = "stadium_step derby"
  let ?s0 = "stadium0 derby" let ?s1 = "pgo 0 AtGate ?s0" let ?s2 = "pgo 0 Queued ?s1"
  let ?s3 = "zgo 0 Holding (sem_add 0 (-1) ?s2)" let ?s4 = "zgo 0 (Telling (told_by 0)) (sem_add 0 1 ?s3)"
  let ?s5 = "zgo 0 (Telling [1]) (pgo 0 (Trying (zones_for 0)) ?s4)" let ?s6 = "pgo 0 (Seated 0) (sem_add 0 (-1) ?s5)"
  have l: "num_people derby = 2" "fan derby x = 0" for x by (simp_all add: derby_def fan_def team_char_to_int_def)
  have a: "?S ?s0 ?s1" by (rule stadium_step.spectator [of 0], simp add: l, rule spectator_step.reach) (simp add: stadium0_def)
  have b: "?S ?s1 ?s2" by (rule stadium_step.spectator [of 0], simp add: l, rule spectator_step.cond_wait) simp
  have c: "?S ?s2 ?s3" by (rule stadium_step.zone [of 0], simp, rule zone_step.sem_wait) (simp_all add: stadium0_def derby_def pgo_def)
  have d: "?S ?s3 ?s4" by (rule stadium_step.zone [of 0], simp, rule zone_step.sem_post) simp
  have e: "?S ?s4 ?s5" by (rule stadium_step.zone [of 0], simp, rule zone_step.signal) (simp_all add: told_by_def l)
  have f: "?S ?s5 ?s6" by (rule stadium_step.spectator [of 0], simp add: l, rule spectator_step.trywait [of _ _ 0 "[1]"])
      (simp_all add: zones_for_def stadium0_def derby_def)
  have "?S\<^sup>*\<^sup>* ?s0 ?s6"
    by (rule converse_rtranclp_into_rtranclp, rule a, rule converse_rtranclp_into_rtranclp, rule b, rule converse_rtranclp_into_rtranclp, rule c,
        rule converse_rtranclp_into_rtranclp, rule d, rule converse_rtranclp_into_rtranclp, rule e, rule r_into_rtranclp, rule f)
  then show ?thesis by (intro exI [of _ ?s6]) simp
qed

theorem stadium_seats_witness:
  "\<exists>s. (stadium_step derby)\<^sup>*\<^sup>* (stadium0 derby) s \<and> p_pc s 0 = Seated 0 \<and> capacity s 0 = 0 \<and> seated derby s 0 = 1"
proof -
  obtain s where s: "(stadium_step derby)\<^sup>*\<^sup>* (stadium0 derby) s" "p_pc s 0 = Seated 0" "z_pc s 0 = Telling [1]" using derby_run by blast
  have "1 \<le> seated derby s 0" unfolding seated_def
    using member_le_sum [of 0 "{..<num_people derby}" "\<lambda>x. if sits (p_pc s x) = Some 0 then 1 else (0 :: int)"] s(2) by (simp add: derby_def)
  moreover have "0 \<le> capacity s 0" "capacity s 0 + seated derby s 0 + held_back s 0 = int (seating_capacity derby 0)"
    using stadium_seats [OF s(1)] by (simp_all add: derby_def)
  moreover have "seating_capacity derby 0 = 1" by (simp add: derby_def)
  moreover have "held_back s 0 = 0" using s(3) by (simp add: held_back_def)
  ultimately show ?thesis using s by (intro exI [of _ s]) auto
qed

end
