(* ===== verification/Spec2Isabelle.thy ===== *)
theory Spec2Isabelle
  imports Boot SleepWakeup Recovery Grep Shell Umalloc Mkfs FileTools DictServer CourseAlloc Stadium
begin

text \<open>
  A verification of the operating system in \<open>src/Assignment 4\<close>: the kernel, which is xv6 for RISC-V with tracing,
  three more schedulers (first come first served, priority based, multi-level feedback queue) and the accounting
  they need, its user programs (the library, the shell and the commands), and \<open>mkfs\<close>, which builds its disk; and of the
  other programs of the repository: the file tools of \<open>src/Assignment-1\<close> and the three multi-threaded programs of
  \<open>src/Assignment 5\<close>.

  \<^bold>\<open>The model.\<close> Every C function is a definition of the same name, a program \<open>('s, 'a) prog\<close>: it takes
  the state to an outcome, which is a result with the new state, a kernel panic with its message, or code
  that never comes back (theory \<open>Prelude\<close>). The state is one extensible record that grows with the
  components, so that an operation of a lower component runs unchanged on the state of a higher one:
  \<open>hart_state\<close> (registers, per-CPU structures, spin locks), \<open>kmem_state\<close> (physical memory, free list),
  \<open>vm_state\<close>, \<open>proc_state\<close> (process table, clock, queues), \<open>dev_state\<close> (UART and console), \<open>slp_state\<close>,
  \<open>disk_state\<close> (disk driver, buffers), \<open>log_state\<close>, \<open>fs_state\<close>, \<open>file_state\<close> (open files, pipes),
  \<open>trap_state\<close>, \<open>boot_state\<close>. Integers keep their C width and wrap where C wraps; C \<open>int\<close>s whose overflow
  would be undefined are integers. Physical memory is a function from 64-bit addresses to bytes, and what the
  code stores in it (the free list, page tables, trapframes) is stored there byte by byte; kernel objects that are
  only reached through a typed pointer (processes, buffers, inodes, files, pipes) are records in tables, and
  a pointer to one is its index. A user program is a program of the same kind over the system calls it makes, with
  \<open>exit\<close> as a result of its own (theory \<open>Usys\<close>); its strings are lists of bytes. Programs with threads are step relations,
  one step per access to shared memory or operation on a lock, with a program counter for every thread.

  \<^bold>\<open>What is a parameter.\<close> Code that runs while the current process has given up the processor (everything between
  \<open>swtch\<close> away from it and \<open>swtch\<close> back) is the argument \<open>sw\<close>. From the buffer cache up, operations take an
  environment \<open>E\<close> with \<open>sw\<close> and the disk driver's \<open>rw\<close>; the kernel is linked with \<open>virtio_disk_rw\<close>, and theory
  \<open>DiskDriver\<close> instantiates \<open>E\<close> with it and with a device that serves the requests while the driver sleeps. Theory
  \<open>Switch\<close> instantiates \<open>sw\<close> for a machine with one hart, and runs \<open>sleep\<close> against it. The
  compile-time choice of the scheduler is the argument \<open>kind\<close>. The system calls of a user program are the argument \<open>U\<close>.

  \<^bold>\<open>Theories and sources\<close> (under \<open>src/Assignment 4/kernel\<close>, from \<open>Usys\<close> on under \<open>src/Assignment 4/user\<close>).
  \<^item> \<open>Prelude\<close>: programs, loops, weakest preconditions, generic lemmas.
  \<^item> \<open>Riscv\<close>: \<open>riscv.h\<close>, \<open>memlayout.h\<close>, \<open>param.h\<close>. Page-table entries give back what they were made of.
  \<^item> \<open>Cstring\<close>: \<open>string.c\<close>. \<open>memmove\<close> copies correctly whatever the overlap; \<open>safestrcpy\<close> terminates its result.
  \<^item> \<open>Spinlock\<close>: \<open>spinlock.c\<close>. Every branch of \<open>acquire\<close>, that a critical section restores the interrupt state,
    and mutual exclusion for the interleaved memory accesses of any number of harts.
  \<^item> \<open>Kalloc\<close>: \<open>kalloc.c\<close>. The free list in memory refines a stack of pages; \<open>kinit\<close> frees every page.
  \<^item> \<open>Vm\<close>: \<open>vm.c\<close> and \<open>proc_mapstacks\<close>. Three-level page tables in memory; mapping and then walking finds the page;
    the copy routines, which go page by page, equal byte by byte references.
  \<^item> \<open>Proc\<close>, \<open>ProcQueue\<close>, \<open>Scheduler\<close>: the process table, the queues and the four schedulers of \<open>proc.c\<close>. What \<open>wakeup\<close> and
    \<open>kill\<close> do exactly; the queues as FIFO lists and where they fail to be; which process each scheduler runs.
  \<^item> \<open>SleepWakeup\<close>: the steps of \<open>sleep\<close>, \<open>wakeup\<close> and \<open>kill\<close> interleaved over any number of processes and channels; no
    wakeup is lost. \<open>Switch\<close>: \<open>sleep\<close> run to its end on one hart, while something else happens that wakes the process.
  \<^item> \<open>Ring\<close>, \<open>Console\<close>: ring buffers with free-running indices; \<open>uart.c\<close>, \<open>console.c\<close>, \<open>printf.c\<close> and \<open>procdump\<close>. The
    console interrupt handler refines a line editor on lists; \<open>printint\<close> prints numerals.
  \<^item> \<open>Sleeplock\<close>, \<open>Virtio\<close>, \<open>Bio\<close>, \<open>Log\<close>, \<open>Fs\<close>: \<open>sleeplock.c\<close>, \<open>virtio_disk.c\<close>, \<open>bio.c\<close>, \<open>log.c\<close>, \<open>fs.c\<close>. Disk inodes and
    directory entries are read back as they were written; path names are cut into their elements.
  \<^item> \<open>BlockCache\<close>: the contract between the buffer cache and a disk driver (locale \<open>block_driver\<close>), the cache as a map
    from block numbers to contents, and that \<open>binit\<close> builds an empty cache with all buffers in its ring.
  \<^item> \<open>DiskDriver\<close>: the driver and the device together. The device takes chains with the lengths and flags the virtio
    specification asks for, and transfers sectors. \<open>virtio_disk_rw\<close> returns with its descriptors free again and with
    the block transferred, so it meets the contract, and \<open>bread\<close> through driver and device returns what the disk holds.
  \<^item> \<open>Recovery\<close>: the log over a driver that meets the contract (locale \<open>log_driver\<close>, interpreted on the virtio driver).
    Wherever a crash interrupts the writes of \<open>commit\<close>, recovery finds all of the transaction or nothing of it.
  \<^item> \<open>File\<close>: \<open>file.c\<close> and \<open>pipe.c\<close>. \<open>Sysargs\<close>, \<open>Sysfile\<close>, \<open>Sysproc\<close>: \<open>syscall.c\<close>, \<open>sysfile.c\<close>, \<open>sysproc.c\<close>.
    \<open>Exec\<close>: \<open>exec.c\<close>, and \<open>userinit\<close>, \<open>fork\<close>, \<open>exit\<close> of \<open>proc.c\<close>.
  \<^item> \<open>Trap\<close>: \<open>trap.c\<close>, \<open>plic.c\<close>, \<open>forkret\<close>. What a clock tick does exactly, and the pace at which a process
    that takes one timer interrupt after another descends the queues. \<open>Boot\<close>: \<open>start.c\<close>, \<open>main.c\<close>.
  \<^item> \<open>Usys\<close>, \<open>Ulib\<close>, \<open>Utils\<close>: \<open>user.h\<close> and programs that can exit; \<open>ulib.c\<close> and \<open>printf.c\<close>; \<open>cat\<close>, \<open>wc\<close>, \<open>ls\<close>, \<open>echo\<close>,
    \<open>kill\<close>, \<open>ln\<close>, \<open>mkdir\<close>, \<open>rm\<close>, \<open>strace\<close>, \<open>setpriority\<close>, \<open>time\<close>, \<open>zombie\<close>, \<open>schedulertest\<close> and \<open>init\<close>.
  \<^item> \<open>Grep\<close>: \<open>grep.c\<close>. The matcher decides the language of the pattern; \<open>grep\<close> prints the lines that match, however the
    input arrives in pieces; the counts of \<open>wc\<close>.
  \<^item> \<open>Shell\<close>: \<open>sh.c\<close>. The parser ends on every line with a syntax error or a command tree that is well formed and whose
    words lie in the line; \<open>nulterminate\<close> cuts no word short.
  \<^item> \<open>Umalloc\<close>: \<open>umalloc.c\<close>. The circular free list refines the set of the free bytes: \<open>malloc\<close> takes a block from it or from
    memory that \<open>sbrk\<close> adds, fails only when there is no room, and \<open>free\<close> gives the block back.
  \<^item> \<open>Mkfs\<close>: \<open>src/Assignment 4/mkfs/mkfs.c\<close>. The image holds a super block, a root directory with an entry per file, the files
    with exactly the bytes they were given, through direct and indirect blocks that no two files share, and a free map that
    marks the blocks in use.
  \<^item> \<open>FileTools\<close>: \<open>src/Assignment-1\<close>. What the programs that reverse a file write, for every length of the file, and what the
    program that reports on permissions prints.
  \<^item> \<open>DictServer\<close>: \<open>src/Assignment 5/Q3/server.cpp\<close>. The workers of the dictionary server never block each other for good, since
    they take locks in ascending order; the history of the methods they interleave is one of a specification in which a
    method tests the emptiness of its entries, changes the strings in one moment, and then the emptiness. Where that is not enough:
    two insertions under one key, a lost request.
  \<^item> \<open>CourseAlloc\<close>, \<open>Stadium\<close>: \<open>src/Assignment 5/Q1\<close> and \<open>Q2\<close>. A teaching assistant serves one course at a time and not more often
    than allowed, courses admit no more students than they have seats; no zone of the stadium is overbooked and every
    seat comes back.

  \<^bold>\<open>Loops.\<close> A counted loop is a recursion over its index range, any other loop is \<open>loopM\<close>, built on \<open>while_option\<close>: a
  loop that does not end gives \<open>Hang\<close>, and a theorem about \<open>wp\<close> or an equation with \<open>Ok\<close> shows that the code returns. The
  one place with fuel is the shell's parser, which is recursive: every call costs one unit, running out of it is
  \<open>NoFuel\<close>, and \<open>parsecmd\<close> starts with four times the length of the line and four more (a loop in it may go round as
  often as the line has bytes, and once more); \<open>parser_wp\<close> in \<open>Shell\<close> shows that this is enough.

  \<^bold>\<open>Not modelled.\<close> The assembly files (\<open>entry.S\<close>, \<open>swtch.S\<close>, \<open>trampoline.S\<close>, \<open>kernelvec.S\<close>) and the system-call stubs that
  \<open>usys.pl\<close> generates: they are the boundary of the model. \<open>ramdisk.c\<close>, which is not linked. Memory fences: the
  interleavings are sequentially consistent. The user tests (\<open>usertests\<close>, \<open>forktest\<close>, \<open>stressfs\<close>, \<open>grind\<close>), which only
  exercise the kernel; the client of the dictionary server, which is socket calls around one request; the input and the
  terminal output of the host programs, and their clocks (a timed wait may time out at any moment).

  \<^bold>\<open>Open.\<close> That \<open>fs.c\<close> finds the files of the image by their path names; pipes as bounded queues between a reader and a writer;
  the life cycle of a process through \<open>fork\<close>, \<open>exit\<close> and \<open>wait\<close>.
\<close>

end
